(* ===== verification/Prelude.thy ===== *)
theory Prelude
  imports Main "HOL-Library.Word"
begin

text \<open>
  Shared material of the development: the machine integer types the C sources use, the
  collections of simplification facts the component theories add to, and generic facts on
  sorted association lists.
\<close>

unbundle bit_operations_syntax

type_synonym uint8 = "8 word"
type_synonym uint16 = "16 word"
type_synonym uint32 = "32 word"
type_synonym uint64 = "64 word"

text \<open>\<open>CORE_ADDR\<close> of GDB is a 64-bit unsigned integer.\<close>

type_synonym CORE_ADDR = "64 word"

named_theorems order_simps \<open>facts about sorted association lists\<close>

subsection \<open>Strictly sorted association lists\<close>

definition strict_keys :: "('k::linorder \<times> 'v) list \<Rightarrow> bool" where
  "strict_keys xs \<longleftrightarrow> sorted_wrt (<) (map fst xs)"

lemma strict_keys_Nil [simp]: "strict_keys []"
  by (simp add: strict_keys_def)

lemma strict_keys_Cons [simp]:
  "strict_keys (x # xs) \<longleftrightarrow> (\<forall>y \<in> set xs. fst x < fst y) \<and> strict_keys xs"
  by (simp add: strict_keys_def)

lemma strict_keys_append [simp]:
  "strict_keys (xs @ ys) \<longleftrightarrow>
     strict_keys xs \<and> strict_keys ys \<and> (\<forall>x \<in> set xs. \<forall>y \<in> set ys. fst x < fst y)"
  by (simp add: strict_keys_def sorted_wrt_append)

lemma strict_keys_distinct: "strict_keys xs \<Longrightarrow> distinct (map fst xs)"
  by (auto simp: strict_keys_def strict_sorted_iff)

lemma map_of_strict_keys:
  "strict_keys xs \<Longrightarrow> map_of xs k = Some v \<longleftrightarrow> (k, v) \<in> set xs"
  by (auto simp: strict_keys_distinct)

lemma map_of_eq_None_less [order_simps]:
  "\<forall>y \<in> set xs. k < fst y \<Longrightarrow> map_of xs (k::'k::linorder) = None"
  by (force simp: map_of_eq_None_iff)

lemma map_of_eq_None_greater [order_simps]:
  "\<forall>y \<in> set xs. fst y < k \<Longrightarrow> map_of xs (k::'k::linorder) = None"
  by (force simp: map_of_eq_None_iff)

text \<open>The entries below and above a key, and the two ends of a list.\<close>

definition below :: "'k::linorder \<Rightarrow> ('k \<times> 'v) list \<Rightarrow> ('k \<times> 'v) list" where
  "below k = filter (\<lambda>x. fst x < k)"

definition above :: "'k::linorder \<Rightarrow> ('k \<times> 'v) list \<Rightarrow> ('k \<times> 'v) list" where
  "above k = filter (\<lambda>x. k < fst x)"

definition hd_opt :: "'a list \<Rightarrow> 'a option" where
  "hd_opt xs = (if xs = [] then None else Some (hd xs))"

definition last_opt :: "'a list \<Rightarrow> 'a option" where
  "last_opt xs = (if xs = [] then None else Some (last xs))"

lemma below_split [order_simps]:
  "\<forall>x \<in> set xs. fst x < k \<Longrightarrow> below k (xs @ ys) = xs @ below k ys"
  "\<forall>x \<in> set ys. k < fst x \<Longrightarrow> below k ys = []"
  "below k (y # ys) = (if fst y < k then y # below k ys else below k ys)"
  by (auto simp: below_def filter_empty_conv dest: less_asym)

lemma above_split [order_simps]:
  "\<forall>x \<in> set xs. fst x < k \<Longrightarrow> above k (xs @ ys) = above k ys"
  "\<forall>x \<in> set ys. k < fst x \<Longrightarrow> above k ys = ys"
  "above k (y # ys) = (if k < fst y then y # above k ys else above k ys)"
  by (auto simp: above_def filter_empty_conv dest: less_asym)

lemma strict_keys_filter [simp]: "strict_keys xs \<Longrightarrow> strict_keys (filter P xs)"
  by (induction xs) auto

lemma strict_keys_insert:
  "strict_keys xs \<Longrightarrow> strict_keys (below k xs @ (k, v) # above k xs)"
  by (auto simp: below_def above_def)

lemma strict_keys_remove:
  "strict_keys xs \<Longrightarrow> strict_keys (below k xs @ above k xs)"
  by (fastforce simp: below_def above_def)

lemma map_of_below [order_simps]: "map_of (below k xs) i = (if i < k then map_of xs i else None)"
  by (induction xs) (auto simp: below_def)

lemma map_of_above [order_simps]: "map_of (above k xs) i = (if k < i then map_of xs i else None)"
  by (induction xs) (auto simp: above_def)

lemma map_of_insert: "map_of (below k xs @ (k, v) # above k xs) = (map_of xs)(k \<mapsto> v)"
  by (auto simp: fun_eq_iff map_add_def order_simps split: option.split)

lemma map_of_remove: "map_of (below k xs @ above k xs) = (map_of xs)(k := None)"
  by (auto simp: fun_eq_iff map_add_def order_simps split: option.split)

lemma last_opt_below:
  assumes "strict_keys xs"
  shows "last_opt (below k xs) = None \<Longrightarrow> i < k \<Longrightarrow> map_of xs i = None"
    and "last_opt (below k xs) = Some (j, v) \<Longrightarrow>
      map_of xs j = Some v \<and> j < k \<and> (\<forall>i. j < i \<and> i < k \<longrightarrow> map_of xs i = None)"
proof -
  show "i < k \<Longrightarrow> map_of xs i = None" if "last_opt (below k xs) = None"
    using that map_of_below [of k xs i] by (simp add: last_opt_def split: if_splits)
next
  assume "last_opt (below k xs) = Some (j, v)"
  then obtain ys where ys: "below k xs = ys @ [(j, v)]"
    by (auto simp: last_opt_def split: if_splits) (metis append_butlast_last_id)
  have s: "strict_keys (ys @ [(j, v)])" and m: "(j, v) \<in> set (below k xs)"
    using assms ys unfolding below_def by (metis strict_keys_filter, simp)
  have "map_of xs i = None" if "j < i" "i < k" for i
  proof (rule ccontr)
    assume "map_of xs i \<noteq> None"
    then obtain w where "(i, w) \<in> set xs" by (auto dest: map_of_SomeD)
    then have "(i, w) \<in> set (below k xs)" using that by (simp add: below_def)
    then show False using s that ys by auto
  qed
  then show "map_of xs j = Some v \<and> j < k \<and> (\<forall>i. j < i \<and> i < k \<longrightarrow> map_of xs i = None)"
    using m assms by (auto simp: below_def map_of_strict_keys)
qed

lemma hd_opt_above:
  assumes "strict_keys xs"
  shows "hd_opt (above k xs) = None \<Longrightarrow> k < i \<Longrightarrow> map_of xs i = None"
    and "hd_opt (above k xs) = Some (j, v) \<Longrightarrow>
      map_of xs j = Some v \<and> k < j \<and> (\<forall>i. k < i \<and> i < j \<longrightarrow> map_of xs i = None)"
proof -
  show "k < i \<Longrightarrow> map_of xs i = None" if "hd_opt (above k xs) = None"
    using that map_of_above [of k xs i] by (simp add: hd_opt_def split: if_splits)
next
  assume "hd_opt (above k xs) = Some (j, v)"
  then obtain ys where ys: "above k xs = (j, v) # ys"
    by (auto simp: hd_opt_def split: if_splits) (metis list.collapse)
  have s: "strict_keys ((j, v) # ys)" and m: "(j, v) \<in> set (above k xs)"
    using assms ys unfolding above_def by (metis strict_keys_filter, simp)
  have "map_of xs i = None" if "k < i" "i < j" for i
  proof (rule ccontr)
    assume "map_of xs i \<noteq> None"
    then obtain w where "(i, w) \<in> set xs" by (auto dest: map_of_SomeD)
    then have "(i, w) \<in> set (above k xs)" using that by (simp add: above_def)
    then show False using s that ys by auto
  qed
  then show "map_of xs j = Some v \<and> k < j \<and> (\<forall>i. k < i \<and> i < j \<longrightarrow> map_of xs i = None)"
    using m assms by (auto simp: above_def map_of_strict_keys)
qed

lemma strict_keys_set_value:
  "strict_keys (map (\<lambda>(k, w). (k, if k = ky then v else w)) xs) \<longleftrightarrow> strict_keys xs"
  by (induction xs) auto

lemma map_of_set_value:
  "map_of xs ky = Some u \<Longrightarrow>
   map_of (map (\<lambda>(k, w). (k, if k = ky then v else w)) xs) = (map_of xs)(ky \<mapsto> v)"
proof -
  have "map_of (map (\<lambda>(k, w). (k, if k = ky then v else w)) xs) i =
      (if i = ky then map_option (\<lambda>_. v) (map_of xs i) else map_of xs i)" for i
    by (induction xs) auto
  then show "map_of xs ky = Some u \<Longrightarrow>
      map_of (map (\<lambda>(k, w). (k, if k = ky then v else w)) xs) = (map_of xs)(ky \<mapsto> v)"
    by (simp add: fun_eq_iff)
qed

subsection \<open>Words\<close>

lemma unat_bound: "unat (x :: 'w::len word) < 2 ^ LENGTH('w)"
  by (rule unsigned_less)

lemma unat_byte: "unat (x :: 8 word) < 256"
  using unat_bound [of x] by simp

subsection \<open>Ways a GDB function does not return normally\<close>

text \<open>\<open>Undefined\<close> stands for behaviour the C standard leaves undefined.\<close>

datatype gdb_error = Assertion_failed | Internal_error | Error | Undefined

type_synonym 'a gdb = "gdb_error + 'a"

end
