(* ===== verification/Ordered_Map.thy ===== *)
theory Ordered_Map
  imports Prelude
begin

text \<open>
  The interface of an ordered map whose operations may restructure it: what GDB's address maps
  call of libiberty's splay tree. The operations are a record, so that the client code can be
  written over any provider; the locale states the contract of the provider.
\<close>

record ('t, 'k, 'v) map_ops =
  op_lookup :: "'t \<Rightarrow> 'k \<Rightarrow> 't \<times> ('k \<times> 'v) option"
  op_predecessor :: "'t \<Rightarrow> 'k \<Rightarrow> 't \<times> ('k \<times> 'v) option"
  op_successor :: "'t \<Rightarrow> 'k \<Rightarrow> 't \<times> ('k \<times> 'v) option"
  op_insert :: "'t \<Rightarrow> 'k \<Rightarrow> 'v \<Rightarrow> 't"
  op_remove :: "'t \<Rightarrow> 'k \<Rightarrow> 't"
  op_set_value :: "'t \<Rightarrow> 'k \<Rightarrow> 'v \<Rightarrow> 't"

text \<open>The entry with the greatest key below \<open>k\<close>, and the one with the least key above it.\<close>

definition pred_of :: "('k::linorder \<rightharpoonup> 'v) \<Rightarrow> 'k \<Rightarrow> ('k \<times> 'v) option \<Rightarrow> bool" where
  "pred_of m k r \<longleftrightarrow>
     (case r of
        None \<Rightarrow> \<forall>i < k. m i = None
      | Some (j, v) \<Rightarrow> m j = Some v \<and> j < k \<and> (\<forall>i. j < i \<and> i < k \<longrightarrow> m i = None))"

definition succ_of :: "('k::linorder \<rightharpoonup> 'v) \<Rightarrow> 'k \<Rightarrow> ('k \<times> 'v) option \<Rightarrow> bool" where
  "succ_of m k r \<longleftrightarrow>
     (case r of
        None \<Rightarrow> \<forall>i > k. m i = None
      | Some (j, v) \<Rightarrow> m j = Some v \<and> k < j \<and> (\<forall>i. k < i \<and> i < j \<longrightarrow> m i = None))"

locale ordered_map =
  fixes ops :: "('t, 'k::linorder, 'v) map_ops"
    and valid :: "'t \<Rightarrow> bool"
    and content :: "'t \<Rightarrow> ('k \<rightharpoonup> 'v)"
  assumes finite_content: "valid t \<Longrightarrow> finite (dom (content t))"
    and lookup_valid: "valid t \<Longrightarrow> valid (fst (op_lookup ops t k))"
    and lookup_content: "valid t \<Longrightarrow> content (fst (op_lookup ops t k)) = content t"
    and lookup_result: "valid t \<Longrightarrow> snd (op_lookup ops t k) = map_option (Pair k) (content t k)"
    and predecessor_valid: "valid t \<Longrightarrow> valid (fst (op_predecessor ops t k))"
    and predecessor_content: "valid t \<Longrightarrow> content (fst (op_predecessor ops t k)) = content t"
    and predecessor_result: "valid t \<Longrightarrow> pred_of (content t) k (snd (op_predecessor ops t k))"
    and successor_valid: "valid t \<Longrightarrow> valid (fst (op_successor ops t k))"
    and successor_content: "valid t \<Longrightarrow> content (fst (op_successor ops t k)) = content t"
    and successor_result: "valid t \<Longrightarrow> succ_of (content t) k (snd (op_successor ops t k))"
    and insert_valid: "valid t \<Longrightarrow> valid (op_insert ops t k v)"
    and insert_content: "valid t \<Longrightarrow> content (op_insert ops t k v) = (content t)(k \<mapsto> v)"
    and remove_valid: "valid t \<Longrightarrow> valid (op_remove ops t k)"
    and remove_content: "valid t \<Longrightarrow> content (op_remove ops t k) = (content t)(k := None)"
    and set_value_valid: "valid t \<Longrightarrow> valid (op_set_value ops t k v)"
    and set_value_content: "valid t \<Longrightarrow> k \<in> dom (content t) \<Longrightarrow>
      content (op_set_value ops t k v) = (content t)(k \<mapsto> v)"
begin

lemmas valid_ops [simp] =
  lookup_valid predecessor_valid successor_valid insert_valid remove_valid set_value_valid

lemmas content_ops [simp] =
  lookup_content predecessor_content successor_content insert_content remove_content
  set_value_content

end

end
