(* ===== verification/Splay.thy ===== *)
theory Splay
  imports Ordered_Map "HOL-Library.Multiset"
begin

text \<open>
  The splay tree of libiberty (\<^verbatim>\<open>gdb-15.1/libiberty/splay-tree.c\<close>): nodes, rotations, the
  splaying loop, and every operation of the interface. The comparison function is an argument,
  as it is in the code; the calls of the two deallocation callbacks and of the node deallocator
  are recorded in a trace.
\<close>

subsection \<open>Nodes and rotations\<close>

datatype ('k, 'v) splay_tree_node =
  is_NULL: NULL
| Node (nkey: 'k) (nval: 'v) (nleft: "('k, 'v) splay_tree_node") (nright: "('k, 'v) splay_tree_node")

fun inorder :: "('k, 'v) splay_tree_node \<Rightarrow> ('k \<times> 'v) list" where
  "inorder NULL = []"
| "inorder (Node k v l r) = inorder l @ (k, v) # inorder r"

text \<open>\<open>rotate_left\<close> lifts the left child of its argument, \<open>rotate_right\<close> the right child.\<close>

fun rotate_left :: "('k, 'v) splay_tree_node \<Rightarrow> ('k, 'v) splay_tree_node" where
  "rotate_left (Node pk pv (Node nk nv nl nr) pr) = Node nk nv nl (Node pk pv nr pr)"
| "rotate_left p = p"

fun rotate_right :: "('k, 'v) splay_tree_node \<Rightarrow> ('k, 'v) splay_tree_node" where
  "rotate_right (Node pk pv pl (Node nk nv nl nr)) = Node nk nv (Node pk pv pl nl) nr"
| "rotate_right p = p"

subsection \<open>The splaying loop\<close>

text \<open>
  The length of the search path of a key, and whether its first two turns agree: a double
  rotation of the loop shortens the path, or keeps its length and makes the first two turns
  differ. This is why the loop ends, whatever the comparison function.
\<close>

fun path_len :: "('k \<Rightarrow> 'k \<Rightarrow> int) \<Rightarrow> 'k \<Rightarrow> ('k, 'v) splay_tree_node \<Rightarrow> nat" where
  "path_len cmp ky NULL = 0"
| "path_len cmp ky (Node k v l r) =
     Suc (if cmp ky k = 0 then 0 else if cmp ky k < 0 then path_len cmp ky l
          else path_len cmp ky r)"

fun same_turn :: "('k \<Rightarrow> 'k \<Rightarrow> int) \<Rightarrow> 'k \<Rightarrow> ('k, 'v) splay_tree_node \<Rightarrow> bool" where
  "same_turn cmp ky (Node k v l r) =
     ((cmp ky k < 0 \<and> \<not> is_NULL l \<and> cmp ky (nkey l) < 0)
    \<or> (cmp ky k > 0 \<and> \<not> is_NULL r \<and> cmp ky (nkey r) > 0))"
| "same_turn cmp ky NULL = False"

lemma not_is_NULL_cases:
  assumes "\<not> is_NULL t" obtains k v l r where "t = Node k v l r"
  using assms by (cases t) auto

function splay_tree_splay ::
  "('k \<Rightarrow> 'k \<Rightarrow> int) \<Rightarrow> 'k \<Rightarrow> ('k, 'v) splay_tree_node \<Rightarrow> ('k, 'v) splay_tree_node" where
  "splay_tree_splay cmp ky root =
     (case root of
        NULL \<Rightarrow> root
      | Node nk nv nl nr \<Rightarrow>
          let cmp1 = cmp ky nk in
          if cmp1 = 0 then root
          else (case (if cmp1 < 0 then nl else nr) of
             NULL \<Rightarrow> root
           | Node ck cv cl cr \<Rightarrow>
               let cmp2 = cmp ky ck in
               if cmp2 = 0 \<or> (cmp2 < 0 \<and> is_NULL cl) \<or> (cmp2 > 0 \<and> is_NULL cr)
               then (if cmp1 < 0 then rotate_left root else rotate_right root)
               else if cmp1 < 0 \<and> cmp2 < 0
               then splay_tree_splay cmp ky (rotate_left (Node nk nv (rotate_left nl) nr))
               else if cmp1 > 0 \<and> cmp2 > 0
               then splay_tree_splay cmp ky (rotate_right (Node nk nv nl (rotate_right nr)))
               else if cmp1 < 0 \<and> cmp2 > 0
               then splay_tree_splay cmp ky (rotate_left (Node nk nv (rotate_right nl) nr))
               else splay_tree_splay cmp ky (rotate_right (Node nk nv nl (rotate_left nr)))))"
  by pat_completeness auto
termination
  by (relation "measure (\<lambda>(cmp, ky, root).
         2 * path_len cmp ky root + (if same_turn cmp ky root then 1 else 0))")
     (auto split: if_splits elim!: not_is_NULL_cases)

declare splay_tree_splay.simps [simp del]

subsection \<open>The tree and its operations\<close>

text \<open>
  \<^verbatim>\<open>struct splay_tree_s\<close>: the root, the comparison function, whether the two deallocation
  callbacks are set, and the trace of what was deallocated, in order. Operations that return a
  node return its key and value, or \<open>None\<close> for the null pointer.
\<close>

datatype ('k, 'v) dealloc_event = DelKey 'k | DelValue 'v | DelNode | DelTree

record ('k, 'v) splay_tree =
  root :: "('k, 'v) splay_tree_node"
  compare :: "'k \<Rightarrow> 'k \<Rightarrow> int"
  delete_key :: bool
  delete_value :: bool
  dealloc_trace :: "('k, 'v) dealloc_event list"

definition splay_tree_new ::
  "('k \<Rightarrow> 'k \<Rightarrow> int) \<Rightarrow> bool \<Rightarrow> bool \<Rightarrow> ('k, 'v) splay_tree" where
  "splay_tree_new compare_fn has_delete_key has_delete_value =
     \<lparr>root = NULL, compare = compare_fn, delete_key = has_delete_key,
      delete_value = has_delete_value, dealloc_trace = []\<rparr>"

definition kdel :: "('k, 'v) splay_tree \<Rightarrow> 'k \<Rightarrow> ('k, 'v) dealloc_event list" where
  "kdel sp k = (if delete_key sp then [DelKey k] else [])"

definition vdel :: "('k, 'v) splay_tree \<Rightarrow> 'v \<Rightarrow> ('k, 'v) dealloc_event list" where
  "vdel sp v = (if delete_value sp then [DelValue v] else [])"

definition splay_tree_insert ::
  "('k, 'v) splay_tree \<Rightarrow> 'k \<Rightarrow> 'v \<Rightarrow> ('k, 'v) splay_tree \<times> ('k \<times> 'v) option" where
  "splay_tree_insert sp ky value =
     (let t = splay_tree_splay (compare sp) ky (root sp) in
      case t of
        NULL \<Rightarrow> (sp\<lparr>root := Node ky value NULL NULL\<rparr>, Some (ky, value))
      | Node rk rv rl rr \<Rightarrow>
          let comparison = compare sp rk ky in
          if comparison = 0
          then (sp\<lparr>root := Node ky value rl rr,
                   dealloc_trace := dealloc_trace sp @ kdel sp rk @ vdel sp rv\<rparr>,
                Some (ky, value))
          else if comparison < 0
          then (sp\<lparr>root := Node ky value (Node rk rv rl NULL) rr\<rparr>, Some (ky, value))
          else (sp\<lparr>root := Node ky value rl (Node rk rv NULL rr)\<rparr>, Some (ky, value)))"

text \<open>\<open>while (left->right) left = left->right; left->right = right\<close>.\<close>

fun hang_right ::
  "('k, 'v) splay_tree_node \<Rightarrow> ('k, 'v) splay_tree_node \<Rightarrow> ('k, 'v) splay_tree_node" where
  "hang_right (Node k v l r) rt =
     (if is_NULL r then Node k v l rt else Node k v l (hang_right r rt))"
| "hang_right NULL rt = rt"

definition splay_tree_remove :: "('k, 'v) splay_tree \<Rightarrow> 'k \<Rightarrow> ('k, 'v) splay_tree" where
  "splay_tree_remove sp ky =
     (let t = splay_tree_splay (compare sp) ky (root sp) in
      case t of
        NULL \<Rightarrow> sp\<lparr>root := t\<rparr>
      | Node rk rv rl rr \<Rightarrow>
          if compare sp rk ky = 0
          then sp\<lparr>root := (if \<not> is_NULL rl
                            then (if \<not> is_NULL rr then hang_right rl rr else rl)
                            else rr),
                  dealloc_trace := dealloc_trace sp @ kdel sp rk @ vdel sp rv @ [DelNode]\<rparr>
          else sp\<lparr>root := t\<rparr>)"

definition splay_tree_lookup ::
  "('k, 'v) splay_tree \<Rightarrow> 'k \<Rightarrow> ('k, 'v) splay_tree \<times> ('k \<times> 'v) option" where
  "splay_tree_lookup sp ky =
     (let t = splay_tree_splay (compare sp) ky (root sp) in
      (sp\<lparr>root := t\<rparr>,
       case t of
         NULL \<Rightarrow> None
       | Node rk rv rl rr \<Rightarrow> if compare sp rk ky = 0 then Some (rk, rv) else None))"

fun rightmost :: "('k, 'v) splay_tree_node \<Rightarrow> ('k \<times> 'v) option" where
  "rightmost NULL = None"
| "rightmost (Node k v l r) = (if is_NULL r then Some (k, v) else rightmost r)"

fun leftmost :: "('k, 'v) splay_tree_node \<Rightarrow> ('k \<times> 'v) option" where
  "leftmost NULL = None"
| "leftmost (Node k v l r) = (if is_NULL l then Some (k, v) else leftmost l)"

definition splay_tree_max :: "('k, 'v) splay_tree \<Rightarrow> ('k \<times> 'v) option" where
  "splay_tree_max sp = rightmost (root sp)"

definition splay_tree_min :: "('k, 'v) splay_tree \<Rightarrow> ('k \<times> 'v) option" where
  "splay_tree_min sp = leftmost (root sp)"

definition splay_tree_predecessor ::
  "('k, 'v) splay_tree \<Rightarrow> 'k \<Rightarrow> ('k, 'v) splay_tree \<times> ('k \<times> 'v) option" where
  "splay_tree_predecessor sp ky =
     (if is_NULL (root sp) then (sp, None)
      else
        let t = splay_tree_splay (compare sp) ky (root sp) in
        (sp\<lparr>root := t\<rparr>,
         case t of
           NULL \<Rightarrow> None
         | Node rk rv rl rr \<Rightarrow>
             if compare sp rk ky < 0 then Some (rk, rv) else rightmost rl))"

definition splay_tree_successor ::
  "('k, 'v) splay_tree \<Rightarrow> 'k \<Rightarrow> ('k, 'v) splay_tree \<times> ('k \<times> 'v) option" where
  "splay_tree_successor sp ky =
     (if is_NULL (root sp) then (sp, None)
      else
        let t = splay_tree_splay (compare sp) ky (root sp) in
        (sp\<lparr>root := t\<rparr>,
         case t of
           NULL \<Rightarrow> None
         | Node rk rv rl rr \<Rightarrow>
             if compare sp rk ky > 0 then Some (rk, rv) else leftmost rr))"

text \<open>
  The write through a node pointer, \<^verbatim>\<open>node->value = value\<close>, on the node that carries the key
  (the keys of a tree are distinct).
\<close>

fun node_set_value :: "'k \<Rightarrow> 'v \<Rightarrow> ('k, 'v) splay_tree_node \<Rightarrow> ('k, 'v) splay_tree_node" where
  "node_set_value ky v NULL = NULL"
| "node_set_value ky v (Node k w l r) =
     Node k (if k = ky then v else w) (node_set_value ky v l) (node_set_value ky v r)"

subsection \<open>Traversal with an explicit stack\<close>

text \<open>
  \<open>splay_tree_foreach_helper\<close>: the inner loop pushes the left spine, the outer loop pops a node,
  calls \<open>fn\<close> on it and continues with its right subtree. The traversal stops at the first
  non-zero result. The callback threads the caller's data.
\<close>

function foreach_loop ::
  "('k \<Rightarrow> 'v \<Rightarrow> 'd \<Rightarrow> int \<times> 'd) \<Rightarrow> ('k, 'v) splay_tree_node \<Rightarrow>
   ('k, 'v) splay_tree_node list \<Rightarrow> 'd \<Rightarrow> int \<times> 'd" where
  "foreach_loop fn (Node k v l r) stack d = foreach_loop fn l (Node k v l r # stack) d"
| "foreach_loop fn NULL [] d = (0, d)"
| "foreach_loop fn NULL (NULL # stack) d = (0, d)"
| "foreach_loop fn NULL (Node k v l r # stack) d =
     (let (rv, d') = fn k v d in if rv \<noteq> 0 then (rv, d') else foreach_loop fn r stack d')"
  by pat_completeness auto
termination
  by (relation "measure (\<lambda>(fn, node, stack, d).
        2 * size node + sum_list (map (\<lambda>n. 1 + 2 * size (nright n)) stack))") auto

definition splay_tree_foreach ::
  "('k, 'v) splay_tree \<Rightarrow> ('k \<Rightarrow> 'v \<Rightarrow> 'd \<Rightarrow> int \<times> 'd) \<Rightarrow> 'd \<Rightarrow> int \<times> 'd" where
  "splay_tree_foreach sp fn d = foreach_loop fn (root sp) [] d"

text \<open>What a traversal computes on the entries in key order.\<close>

fun visit :: "('k \<Rightarrow> 'v \<Rightarrow> 'd \<Rightarrow> int \<times> 'd) \<Rightarrow> ('k \<times> 'v) list \<Rightarrow> 'd \<Rightarrow> int \<times> 'd" where
  "visit fn [] d = (0, d)"
| "visit fn ((k, v) # xs) d =
     (let (rv, d') = fn k v d in if rv \<noteq> 0 then (rv, d') else visit fn xs d')"

subsection \<open>Deletion of a whole tree\<close>

text \<open>
  \<open>splay_tree_delete_helper\<close> keeps two linked lists of nodes whose key and value are already
  deallocated, \<open>active\<close> (being processed) and \<open>pending\<close>; the links overwrite the key fields.
\<close>

definition pend_child :: "('k, 'v) splay_tree \<Rightarrow> ('k, 'v) splay_tree_node \<Rightarrow>
    ('k, 'v) splay_tree_node list \<times> ('k, 'v) dealloc_event list \<Rightarrow>
    ('k, 'v) splay_tree_node list \<times> ('k, 'v) dealloc_event list" where
  "pend_child sp child = (\<lambda>(pending, tr).
     case child of
       NULL \<Rightarrow> (pending, tr)
     | Node k v l r \<Rightarrow> (child # pending, tr @ kdel sp k @ vdel sp v))"

text \<open>The measure of the loop: nodes still to process, counted with multiplicity.\<close>

lemma size_pend_child:
  "sum_list (map size (fst (pend_child sp c (pending, tr)))) = size c + sum_list (map size pending)"
  by (cases c) (auto simp: pend_child_def)

function delete_loop :: "('k, 'v) splay_tree \<Rightarrow> ('k, 'v) splay_tree_node list \<Rightarrow>
    ('k, 'v) splay_tree_node list \<Rightarrow> ('k, 'v) dealloc_event list \<Rightarrow>
    ('k, 'v) dealloc_event list" where
  "delete_loop sp [] [] tr = tr"
| "delete_loop sp [] (n # pending) tr = delete_loop sp (n # pending) [] tr"
| "delete_loop sp (temp # active) pending tr =
     (case temp of
        NULL \<Rightarrow> delete_loop sp active pending tr
      | Node k v l r \<Rightarrow>
          let pt = pend_child sp r (pend_child sp l (pending, tr))
          in delete_loop sp active (fst pt) (snd pt @ [DelNode]))"
  by pat_completeness auto
termination
proof (relation "measures [\<lambda>(sp, active, pending, tr). sum_list (map size (active @ pending)),
    \<lambda>(sp, active, pending, tr). length active + 2 * length pending]", goal_cases)
  case (4 sp temp active pending tr k v l r pt)
  then show ?case
    using size_pend_child [of sp r "fst (pend_child sp l (pending, tr))"
        "snd (pend_child sp l (pending, tr))"] size_pend_child [of sp l pending tr]
    by simp
qed auto

definition splay_tree_delete_helper ::
  "('k, 'v) splay_tree \<Rightarrow> ('k, 'v) splay_tree_node \<Rightarrow> ('k, 'v) dealloc_event list" where
  "splay_tree_delete_helper sp node =
     (case node of
        NULL \<Rightarrow> []
      | Node k v l r \<Rightarrow> delete_loop sp [] [node] (kdel sp k @ vdel sp v))"

definition splay_tree_delete :: "('k, 'v) splay_tree \<Rightarrow> ('k, 'v) dealloc_event list" where
  "splay_tree_delete sp =
     dealloc_trace sp @ splay_tree_delete_helper sp (root sp) @ [DelTree]"

subsection \<open>The comparison functions of the library\<close>

definition splay_tree_compare_ints :: "uint64 \<Rightarrow> uint64 \<Rightarrow> int" where
  "splay_tree_compare_ints k1 k2 =
     (let i1 = sint (ucast k1 :: 32 word); i2 = sint (ucast k2 :: 32 word)
      in if i1 < i2 then -1 else if i1 > i2 then 1 else 0)"

definition splay_tree_compare_pointers :: "uint64 \<Rightarrow> uint64 \<Rightarrow> int" where
  "splay_tree_compare_pointers k1 k2 = (if k1 < k2 then -1 else if k1 > k2 then 1 else 0)"

subsection \<open>Splaying keeps the entries in order\<close>

lemma inorder_rotate [simp]:
  "inorder (rotate_left t) = inorder t" "inorder (rotate_right t) = inorder t"
  by (cases t rule: rotate_left.cases; simp) (cases t rule: rotate_right.cases; simp)

lemma inorder_splay [simp]: "inorder (splay_tree_splay cmp ky t) = inorder t"
proof (induction cmp ky t rule: splay_tree_splay.induct)
  case (1 cmp ky t)
  then show ?case
    by (subst splay_tree_splay.simps) (simp add: Let_def split: splay_tree_node.split)
qed

lemma splay_NULL [simp]: "splay_tree_splay cmp ky NULL = NULL"
  by (simp add: splay_tree_splay.simps [of _ _ NULL])

lemma inorder_NULL_iff [simp]: "inorder t = [] \<longleftrightarrow> is_NULL t"
  by (cases t) auto

lemma is_NULL_splay [simp]: "is_NULL (splay_tree_splay cmp ky t) \<longleftrightarrow> is_NULL t"
  by (simp flip: inorder_NULL_iff)

text \<open>Where the loop stops: at the key, or where the search for it falls off the tree.\<close>

fun splayed :: "('k \<Rightarrow> 'k \<Rightarrow> int) \<Rightarrow> 'k \<Rightarrow> ('k, 'v) splay_tree_node \<Rightarrow> bool" where
  "splayed cmp ky NULL = True"
| "splayed cmp ky (Node k v l r) =
     (cmp ky k = 0
    \<or> (cmp ky k < 0 \<and> (is_NULL l \<or> (cmp ky (nkey l) > 0 \<and> is_NULL (nright l))))
    \<or> (cmp ky k > 0 \<and> (is_NULL r \<or> (cmp ky (nkey r) < 0 \<and> is_NULL (nleft r)))))"

lemma splayed_splay: "splayed cmp ky (splay_tree_splay cmp ky t)"
proof (induction cmp ky t rule: splay_tree_splay.induct)
  case (1 cmp ky t)
  then show ?case
    by (subst splay_tree_splay.simps) (auto simp: Let_def split: splay_tree_node.split if_splits)
qed

subsection \<open>Operations against the list of entries\<close>

text \<open>
  A comparison function that agrees with the order of the keys. Under it, every operation has
  the meaning its comment gives, on the entries of the tree in key order.
\<close>

definition entries :: "('k, 'v) splay_tree \<Rightarrow> ('k \<times> 'v) list" where
  "entries sp = inorder (root sp)"

lemma rightmost_last: "rightmost t = (if inorder t = [] then None else Some (last (inorder t)))"
  by (induction t) auto

lemma leftmost_hd: "leftmost t = (if inorder t = [] then None else Some (hd (inorder t)))"
  by (induction t) (auto simp: hd_append)

lemma inorder_hang_right: "inorder (hang_right l r) = inorder l @ inorder r"
  by (induction l r rule: hang_right.induct) auto

lemma inorder_node_set_value:
  "inorder (node_set_value ky v t) = map (\<lambda>(k, w). (k, if k = ky then v else w)) (inorder t)"
  by (induction t) auto

locale comparator =
  fixes cmp :: "'k::linorder \<Rightarrow> 'k \<Rightarrow> int"
  assumes cmp_less: "cmp a b < 0 \<longleftrightarrow> a < b"
    and cmp_zero: "cmp a b = 0 \<longleftrightarrow> a = b"
begin

lemma cmp_greater: "cmp a b > 0 \<longleftrightarrow> b < a"
  using cmp_less cmp_zero by (metis linorder_less_linear order.asym)

text \<open>Splaying brings the key, or a neighbour of it, to the root.\<close>

lemma splayed_root:
  "strict_keys (inorder (Node k v l r)) \<Longrightarrow> splayed cmp ky (Node k v l r) \<Longrightarrow>
   (\<forall>x \<in> set (inorder l). fst x < ky) \<and> (\<forall>x \<in> set (inorder r). ky < fst x)"
  by (cases l; cases r) (auto simp: cmp_less cmp_zero cmp_greater ball_Un splay_tree_node.is_NULL_def)

lemma splay_root:
  assumes "strict_keys (inorder t)" and "splay_tree_splay cmp ky t = Node k v l r"
  shows "(\<forall>x \<in> set (inorder l). fst x < ky) \<and> (\<forall>x \<in> set (inorder r). ky < fst x)"
proof -
  have "splayed cmp ky (Node k v l r)"
    using splayed_splay [of cmp ky t] assms(2) by simp
  moreover have "strict_keys (inorder (Node k v l r))"
    using inorder_splay [of cmp ky t] assms by simp
  ultimately show ?thesis by (intro splayed_root)
qed

text \<open>The decomposition of the entries that the splayed tree gives.\<close>

lemma splay_cases:
  assumes "strict_keys (inorder t)"
  obtains "t = NULL" "splay_tree_splay cmp ky t = NULL"
  | k v l r where "splay_tree_splay cmp ky t = Node k v l r" "\<not> is_NULL t"
      "inorder t = inorder l @ (k, v) # inorder r"
      "\<forall>x \<in> set (inorder l). fst x < ky" "\<forall>x \<in> set (inorder r). ky < fst x"
      "\<forall>x \<in> set (inorder l). fst x < k" "\<forall>x \<in> set (inorder r). k < fst x"
      "strict_keys (inorder l)" "strict_keys (inorder r)"
proof (cases "splay_tree_splay cmp ky t")
  case NULL
  then show ?thesis
    using is_NULL_splay [of cmp ky t] that(1) by (simp add: splay_tree_node.is_NULL_def)
next
  case (Node k v l r)
  moreover have "inorder t = inorder l @ (k, v) # inorder r"
    using inorder_splay [of cmp ky t] Node by simp
  moreover have "\<not> is_NULL t"
    using is_NULL_splay [of cmp ky t] Node by simp
  ultimately show ?thesis
    using splay_root [OF assms Node] assms by (intro that(2)) auto
qed

lemma lookup_spec:
  assumes "strict_keys (entries sp)" and [simp]: "compare sp = cmp"
  shows "snd (splay_tree_lookup sp ky) = map_option (Pair ky) (map_of (entries sp) ky)"
  using assms(1) unfolding entries_def
  by (cases rule: splay_cases [of "root sp" ky])
     (auto simp: splay_tree_lookup_def cmp_zero order_simps map_add_def Let_def)

lemma insert_spec:
  assumes "strict_keys (entries sp)" and [simp]: "compare sp = cmp"
  shows "entries (fst (splay_tree_insert sp ky v)) =
    below ky (entries sp) @ (ky, v) # above ky (entries sp)"
  using assms(1) unfolding entries_def
  by (cases rule: splay_cases [of "root sp" ky])
     (auto simp: splay_tree_insert_def cmp_zero cmp_less order_simps Let_def)

lemma remove_spec:
  assumes "strict_keys (entries sp)" and [simp]: "compare sp = cmp"
  shows "entries (splay_tree_remove sp ky) = below ky (entries sp) @ above ky (entries sp)"
  using assms(1) unfolding entries_def
  by (cases rule: splay_cases [of "root sp" ky])
     (auto simp: splay_tree_remove_def cmp_zero cmp_less inorder_hang_right order_simps Let_def
        splay_tree_node.is_NULL_def)

lemma predecessor_spec:
  assumes "strict_keys (entries sp)" and [simp]: "compare sp = cmp"
  shows "snd (splay_tree_predecessor sp ky) = last_opt (below ky (entries sp))"
  using assms(1) unfolding entries_def
  by (cases rule: splay_cases [of "root sp" ky])
     (auto simp: splay_tree_predecessor_def cmp_zero cmp_less order_simps Let_def rightmost_last
        last_opt_def)

lemma successor_spec:
  assumes "strict_keys (entries sp)" and [simp]: "compare sp = cmp"
  shows "snd (splay_tree_successor sp ky) = hd_opt (above ky (entries sp))"
  using assms(1) unfolding entries_def
  by (cases rule: splay_cases [of "root sp" ky])
     (auto simp: splay_tree_successor_def cmp_zero cmp_less cmp_greater order_simps Let_def
        leftmost_hd hd_opt_def)

end

subsection \<open>Traversal and deletion\<close>

lemma foreach_loop_visit:
  "NULL \<notin> set stack \<Longrightarrow> foreach_loop fn node stack d =
     visit fn (inorder node @ concat (map (\<lambda>n. (nkey n, nval n) # inorder (nright n)) stack)) d"
  by (induction fn node stack d rule: foreach_loop.induct) (auto split: prod.split)

lemma foreach_visit: "splay_tree_foreach sp fn d = visit fn (entries sp) d"
  by (simp add: splay_tree_foreach_def foreach_loop_visit entries_def)

definition entry_events :: "('k, 'v) splay_tree \<Rightarrow> 'k \<times> 'v \<Rightarrow> ('k, 'v) dealloc_event multiset" where
  "entry_events sp x = mset (kdel sp (fst x)) + mset (vdel sp (snd x)) + {#DelNode#}"

text \<open>What is left to deallocate for a node whose key and value are already gone.\<close>

definition owed :: "('k, 'v) splay_tree \<Rightarrow> ('k, 'v) splay_tree_node \<Rightarrow>
    ('k, 'v) dealloc_event multiset" where
  "owed sp n = (if is_NULL n then {#} else {#DelNode#}) +
     (\<Sum>x \<in># mset (inorder (nleft n)) + mset (inorder (nright n)). entry_events sp x)"

lemma pend_child_owed:
  assumes "pend_child sp c (pending, tr) = (pending', tr')"
  shows "mset tr' + (\<Sum>n \<in># mset pending'. owed sp n) =
    mset tr + (\<Sum>n \<in># mset pending. owed sp n) + (\<Sum>x \<in># mset (inorder c). entry_events sp x)"
    and "NULL \<notin> set pending' \<longleftrightarrow> NULL \<notin> set pending"
  using assms by (cases c; auto simp: pend_child_def owed_def entry_events_def)+

lemma delete_loop_events:
  "NULL \<notin> set active \<Longrightarrow> NULL \<notin> set pending \<Longrightarrow>
   mset (delete_loop sp active pending tr) =
     mset tr + (\<Sum>n \<in># mset active + mset pending. owed sp n)"
proof (induction sp active pending tr rule: delete_loop.induct)
  case (3 sp temp active pending tr)
  obtain k v l r where temp: "temp = Node k v l r"
    using 3 by (cases temp) auto
  obtain p1 t1 where 1: "pend_child sp l (pending, tr) = (p1, t1)" by fastforce
  obtain p2 t2 where 2: "pend_child sp r (p1, t1) = (p2, t2)" by fastforce
  have "mset (delete_loop sp active p2 (t2 @ [DelNode])) =
      mset (t2 @ [DelNode]) + (\<Sum>n \<in># mset active + mset p2. owed sp n)"
    using 3 temp 1 2 pend_child_owed(2) [OF 1] pend_child_owed(2) [OF 2] by simp
  then show ?case
    using pend_child_owed(1) [OF 1] pend_child_owed(1) [OF 2]
    by (simp add: temp 1 2 owed_def [of sp "Node k v l r"] union_ac)
qed auto

lemma delete_helper_events:
  "mset (splay_tree_delete_helper sp t) = (\<Sum>x \<in># mset (inorder t). entry_events sp x)"
  by (cases t)
     (auto simp: splay_tree_delete_helper_def delete_loop_events owed_def entry_events_def union_ac
        simp del: delete_loop.simps)

subsection \<open>The tree as an ordered map\<close>

definition splay_ops :: "(('k, 'v) splay_tree, 'k, 'v) map_ops" where
  "splay_ops =
     \<lparr>op_lookup = splay_tree_lookup, op_predecessor = splay_tree_predecessor,
      op_successor = splay_tree_successor, op_insert = (\<lambda>sp k v. fst (splay_tree_insert sp k v)),
      op_remove = splay_tree_remove,
      op_set_value = (\<lambda>sp k v. sp\<lparr>root := node_set_value k v (root sp)\<rparr>)\<rparr>"

definition splay_valid :: "('k::linorder \<Rightarrow> 'k \<Rightarrow> int) \<Rightarrow> ('k, 'v) splay_tree \<Rightarrow> bool" where
  "splay_valid cmp sp \<longleftrightarrow> compare sp = cmp \<and> strict_keys (entries sp)"

definition splay_content :: "('k, 'v) splay_tree \<Rightarrow> ('k \<rightharpoonup> 'v)" where
  "splay_content sp = map_of (entries sp)"

lemma compare_ops [simp]:
  "compare (fst (splay_tree_lookup sp k)) = compare sp"
  "compare (fst (splay_tree_predecessor sp k)) = compare sp"
  "compare (fst (splay_tree_successor sp k)) = compare sp"
  "compare (fst (splay_tree_insert sp k v)) = compare sp"
  "compare (splay_tree_remove sp k) = compare sp"
  by (auto simp: splay_tree_lookup_def splay_tree_predecessor_def splay_tree_successor_def
      splay_tree_insert_def splay_tree_remove_def Let_def split: splay_tree_node.split)

lemma entries_queries [simp]:
  "entries (fst (splay_tree_lookup sp k)) = entries sp"
  "entries (fst (splay_tree_predecessor sp k)) = entries sp"
  "entries (fst (splay_tree_successor sp k)) = entries sp"
  by (auto simp: splay_tree_lookup_def splay_tree_predecessor_def splay_tree_successor_def
      entries_def Let_def)

lemma entries_set_value [simp]:
  "entries (sp\<lparr>root := node_set_value ky v (root sp)\<rparr>) =
     map (\<lambda>(k, w). (k, if k = ky then v else w)) (entries sp)"
  by (simp add: entries_def inorder_node_set_value)

context comparator
begin

lemma insert_keys: "splay_valid cmp sp \<Longrightarrow> strict_keys (entries (fst (splay_tree_insert sp k v)))"
  by (simp only: splay_valid_def insert_spec strict_keys_insert)

lemma insert_map: "splay_valid cmp sp \<Longrightarrow>
    map_of (entries (fst (splay_tree_insert sp k v))) = (map_of (entries sp))(k \<mapsto> v)"
  by (simp only: splay_valid_def insert_spec map_of_insert)

lemma remove_keys: "splay_valid cmp sp \<Longrightarrow> strict_keys (entries (splay_tree_remove sp k))"
  by (simp only: splay_valid_def remove_spec strict_keys_remove)

lemma remove_map: "splay_valid cmp sp \<Longrightarrow>
    map_of (entries (splay_tree_remove sp k)) = (map_of (entries sp))(k := None)"
  by (simp only: splay_valid_def remove_spec map_of_remove)

end

sublocale comparator \<subseteq> splay: ordered_map splay_ops "splay_valid cmp" splay_content
proof (unfold_locales, goal_cases)
  case (7 t k)
  then show ?case
    using last_opt_below [of "entries t" k]
    by (auto simp: splay_valid_def splay_content_def splay_ops_def predecessor_spec pred_of_def
        split: option.split)
next
  case (10 t k)
  then show ?case
    using hd_opt_above [of "entries t" k]
    by (auto simp: splay_valid_def splay_content_def splay_ops_def successor_spec succ_of_def
        split: option.split)
qed (auto simp: splay_valid_def splay_content_def splay_ops_def lookup_spec finite_dom_map_of
      insert_keys [unfolded splay_valid_def] insert_map [unfolded splay_valid_def]
      remove_keys [unfolded splay_valid_def] remove_map [unfolded splay_valid_def]
      map_of_set_value strict_keys_set_value)

text \<open>Comparing pointers, as unsigned numbers, is the order of the keys.\<close>

interpretation pointers: comparator splay_tree_compare_pointers
  by unfold_locales (auto simp: splay_tree_compare_pointers_def)

subsection \<open>Properties\<close>

text \<open>\<^verbatim>\<open>splay_tree_splay\<close> only rotates: the entries keep their order, whatever the comparison
  function, and the loop stops with the key at the root or with the search for the key ending
  one step below it.\<close>

theorem splay_rotates:
  "inorder (splay_tree_splay cmp ky t) = inorder t \<and> splayed cmp ky (splay_tree_splay cmp ky t)"
  by (simp add: splayed_splay)


definition sample_tree :: "(uint64, string) splay_tree" where
  "sample_tree = fst (splay_tree_insert (fst (splay_tree_insert (fst (splay_tree_insert
     (splay_tree_new splay_tree_compare_pointers True True) 5 ''five'')) 9 ''nine'')) 2 ''two'')"

lemma sample_tree:
  "root sample_tree = Node 2 ''two'' NULL (Node 5 ''five'' NULL (Node 9 ''nine'' NULL NULL))"
  "compare sample_tree = splay_tree_compare_pointers"
  "delete_key sample_tree" "delete_value sample_tree" "dealloc_trace sample_tree = []"
  by (simp_all add: sample_tree_def splay_tree_insert_def splay_tree_new_def Let_def
      splay_tree_splay.simps splay_tree_compare_pointers_def)

lemma sample_tree_valid: "splay_valid splay_tree_compare_pointers sample_tree"
  by (simp add: splay_valid_def entries_def sample_tree)


text \<open>\<^verbatim>\<open>splay_tree_predecessor\<close> and \<^verbatim>\<open>splay_tree_successor\<close> return the entry with the greatest key
  strictly below the given one and with the least key strictly above it, or the null pointer when
  there is none, whether or not the key itself is in the tree.\<close>

theorem splay_tree_neighbours:
  assumes "splay_valid splay_tree_compare_pointers sp"
  shows "pred_of (splay_content sp) ky (snd (splay_tree_predecessor sp ky)) \<and>
    succ_of (splay_content sp) ky (snd (splay_tree_successor sp ky))"
  using pointers.splay.predecessor_result [OF assms, of ky]
    pointers.splay.successor_result [OF assms, of ky]
  by (simp add: splay_ops_def)

theorem splay_tree_neighbours_witness:
  "pred_of (splay_content sample_tree) 7 (snd (splay_tree_predecessor sample_tree 7)) \<and>
   succ_of (splay_content sample_tree) 7 (snd (splay_tree_successor sample_tree 7)) \<and>
   snd (splay_tree_predecessor sample_tree 7) = Some (5, ''five'')"
  using splay_tree_neighbours [OF sample_tree_valid, of 7]
  by (simp add: splay_tree_predecessor_def sample_tree splay_tree_splay.simps
      splay_tree_compare_pointers_def)

text \<open>\<^verbatim>\<open>splay_tree_foreach\<close>, which walks the tree with an explicit stack, calls the function on
  the entries in key order, each once, and stops at the first non-zero result.\<close>

theorem splay_tree_foreach_visits: "splay_tree_foreach sp fn d = visit fn (entries sp) d"
  by (rule foreach_visit)

text \<open>\<^verbatim>\<open>splay_tree_delete\<close> calls the key and value callbacks once for each entry, frees each node
  once and then the tree itself, with no leak and no double free, although it overwrites the key
  fields of the nodes with the links of its work lists.\<close>

theorem splay_tree_delete_frees_once:
  "mset (splay_tree_delete sp) =
     mset (dealloc_trace sp) + (\<Sum>x \<in># mset (entries sp). entry_events sp x) + {#DelTree#}"
  by (simp add: splay_tree_delete_def delete_helper_events entries_def)

end
