(* ===== verification/Addrmap.thy ===== *)
theory Addrmap
  imports Splay
begin

text \<open>
  Address maps (\<^verbatim>\<open>gdb-15.1/gdb/addrmap.c\<close>): the mutable map, a splay tree with a node at each
  address where the mapped object changes, and the fixed map, a sorted array of transitions that
  is searched by bisection. An object is \<open>Some obj\<close>, the null pointer \<open>None\<close>. The code of the
  mutable map is written over the operations of \<open>Ordered_Map\<close>; the splay tree provides them.
\<close>

subsection \<open>Mutable address maps\<close>

type_synonym ('t, 'o) addr_ops = "('t, CORE_ADDR, 'o option) map_ops"

definition force_transition :: "('t, 'o) addr_ops \<Rightarrow> 't \<Rightarrow> CORE_ADDR \<Rightarrow> 't" where
  "force_transition ops t addr =
     (let (t1, n) = op_lookup ops t addr in
      case n of
        Some _ \<Rightarrow> t1
      | None \<Rightarrow>
          let (t2, p) = op_predecessor ops t1 addr in
          op_insert ops t2 addr (case p of Some (_, v) \<Rightarrow> v | None \<Rightarrow> None))"

text \<open>
  The two walks of \<open>set_empty\<close>. A walk follows successors, so whether it ends depends on the
  provider of the operations: \<open>None\<close> stands for not returning.
\<close>

partial_function (option) fill_walk ::
  "('t, 'o) addr_ops \<Rightarrow> CORE_ADDR \<Rightarrow> 'o option \<Rightarrow> 't \<Rightarrow> (CORE_ADDR \<times> 'o option) option \<Rightarrow>
   't option" where
  "fill_walk ops end_inclusive obj t n =
     (case n of
        None \<Rightarrow> Some t
      | Some (k, v) \<Rightarrow>
          if k \<le> end_inclusive
          then
            let t1 = (if v = None then op_set_value ops t k obj else t);
                r = op_successor ops t1 k
            in fill_walk ops end_inclusive obj (fst r) (snd r)
          else Some t)"

partial_function (option) prune_walk ::
  "('t, 'o) addr_ops \<Rightarrow> CORE_ADDR \<Rightarrow> 't \<Rightarrow> (CORE_ADDR \<times> 'o option) option \<Rightarrow> 'o option \<Rightarrow>
   't option" where
  "prune_walk ops end_inclusive t n prior_value =
     (case n of
        None \<Rightarrow> Some t
      | Some (k, v) \<Rightarrow>
          if end_inclusive = -1 \<or> k \<le> end_inclusive + 1
          then
            let r = op_successor ops t k
            in if v = prior_value
               then prune_walk ops end_inclusive (op_remove ops (fst r) k) (snd r) prior_value
               else prune_walk ops end_inclusive (fst r) (snd r) v
          else Some t)"

text \<open>\<open>CORE_ADDR_MAX\<close> is \<open>-1\<close>. The inner option of the result is that of the walks.\<close>

definition set_empty ::
  "('t, 'o) addr_ops \<Rightarrow> 't \<Rightarrow> CORE_ADDR \<Rightarrow> CORE_ADDR \<Rightarrow> 'o option \<Rightarrow> 't gdb option" where
  "set_empty ops t start end_inclusive obj =
     (if obj = None then Some (Inl Assertion_failed)
      else
        let t1 = force_transition ops t start;
            t2 = (if end_inclusive < -1 then force_transition ops t1 (end_inclusive + 1) else t1);
            (t3, n) = op_lookup ops t2 start
        in if n = None then Some (Inl Assertion_failed)
           else (case fill_walk ops end_inclusive obj t3 n of
                   None \<Rightarrow> None
                 | Some t4 \<Rightarrow>
                     let (t5, p) = op_predecessor ops t4 start;
                         prior_value = (case p of Some (_, v) \<Rightarrow> v | None \<Rightarrow> None);
                         (t6, m) = op_lookup ops t5 start
                     in if m = None then Some (Inl Assertion_failed)
                        else map_option Inr (prune_walk ops end_inclusive t6 m prior_value)))"

definition do_find :: "('t, 'o) addr_ops \<Rightarrow> 't \<Rightarrow> CORE_ADDR \<Rightarrow> ('t \<times> 'o option) gdb" where
  "do_find ops t addr =
     (let (t1, n) = op_lookup ops t addr in
      case n of
        Some (k, v) \<Rightarrow> if k = addr then Inr (t1, v) else Inl Assertion_failed
      | None \<Rightarrow>
          let (t2, p) = op_predecessor ops t1 addr in
          case p of
            Some (k, v) \<Rightarrow> if k < addr then Inr (t2, v) else Inl Assertion_failed
          | None \<Rightarrow> Inr (t2, None))"

subsection \<open>What a map denotes\<close>

text \<open>
  \<open>last_in m S v\<close>: \<open>v\<close> is the value of the last transition among the addresses \<open>S\<close>, or the null
  pointer when there is none. The object at an address is the last value at or below it.
\<close>

definition last_in :: "(CORE_ADDR \<rightharpoonup> 'o option) \<Rightarrow> CORE_ADDR set \<Rightarrow> 'o option \<Rightarrow> bool" where
  "last_in m S v \<longleftrightarrow>
     (\<exists>k \<in> S. m k = Some v \<and> (\<forall>i \<in> S. k < i \<longrightarrow> m i = None))
   \<or> (v = None \<and> (\<forall>i \<in> S. m i = None))"

definition object_at :: "(CORE_ADDR \<rightharpoonup> 'o option) \<Rightarrow> CORE_ADDR \<Rightarrow> 'o option" where
  "object_at m a =
     (if \<exists>k \<le> a. m k \<noteq> None then the (m (Max {k. k \<le> a \<and> m k \<noteq> None})) else None)"

lemma last_in_unique: "last_in m S v \<Longrightarrow> last_in m S w \<Longrightarrow> v = w"
  by (auto simp: last_in_def) (metis linorder_less_linear option.distinct(1) option.inject)

lemma last_in_object_at: "last_in m {..a} (object_at m a)"
proof (cases "\<exists>k \<le> a. m k \<noteq> None")
  case True
  let ?S = "{k. k \<le> a \<and> m k \<noteq> None}"
  have mem: "Max ?S \<in> ?S" using True by (intro Max_in) auto
  have le: "i \<le> Max ?S" if "i \<le> a" "m i \<noteq> None" for i
    using that by (intro Max_ge) auto
  have "m (Max ?S) = Some (object_at m a)"
    using True mem by (auto simp: object_at_def)
  moreover have "\<forall>i \<in> {..a}. Max ?S < i \<longrightarrow> m i = None"
    using le by (meson atMost_iff linorder_not_le)
  ultimately show ?thesis
    using mem unfolding last_in_def by blast
qed (auto simp: last_in_def object_at_def)

lemma object_at_iff: "object_at m a = v \<longleftrightarrow> last_in m {..a} v"
  using last_in_object_at last_in_unique by metis

lemma last_in_weaken:
  "last_in m {..a} v \<Longrightarrow> s \<le> a \<Longrightarrow> (\<And>i. s < i \<Longrightarrow> i \<le> a \<Longrightarrow> m i = None) \<Longrightarrow> m s = None \<Longrightarrow>
   last_in m {..<s} v"
  unfolding last_in_def by (force simp: not_less [symmetric] dest: order.strict_trans1)

text \<open>A transition that repeats the value before it changes nothing.\<close>

lemma object_at_force:
  assumes "m s = None" and "last_in m {..<s} v"
  shows "object_at (m(s \<mapsto> v)) a = object_at m a"
proof -
  have w: "last_in m {..a} (object_at m a)" by (rule last_in_object_at)
  have "last_in (m(s \<mapsto> v)) {..a} (object_at m a)"
  proof (cases "s \<le> a \<and> (\<forall>i. s < i \<longrightarrow> i \<le> a \<longrightarrow> m i = None)")
    case True
    then have "object_at m a = v"
      using last_in_weaken [OF w] assms last_in_unique by blast
    then show ?thesis using True by (auto simp: last_in_def)
  next
    case False
    from w consider k where "k \<le> a" "m k = Some (object_at m a)" "\<forall>i. k < i \<and> i \<le> a \<longrightarrow> m i = None"
      | "object_at m a = None" "\<forall>i \<le> a. m i = None"
      unfolding last_in_def by auto
    then show ?thesis
    proof cases
      case 1
      have "a < s \<or> s < k"
      proof (rule ccontr)
        assume c: "\<not> (a < s \<or> s < k)"
        moreover have "k \<noteq> s" using 1(2) assms(1) by auto
        ultimately have "\<forall>i. s < i \<longrightarrow> i \<le> a \<longrightarrow> m i = None"
          using 1(3) by (metis linorder_neqE order.strict_trans)
        with False c show False by auto
      qed
      then have "s \<notin> {k..a}" by auto
      then show ?thesis using 1 by (auto simp: last_in_def)
    next
      case 2
      with False have "a < s" by auto
      with 2 show ?thesis by (auto simp: last_in_def)
    qed
  qed
  then show ?thesis by (simp add: object_at_iff)
qed

lemma object_at_prune:
  assumes "m k = Some v" and "last_in m {..<k} v"
  shows "object_at (m(k := None)) a = object_at m a"
proof -
  have "last_in (m(k := None)) {..<k} v"
    using assms(2) by (auto simp: last_in_def)
  from object_at_force [OF _ this, of a] show ?thesis
    using assms(1) by (simp add: fun_upd_idem)
qed

definition filled :: "CORE_ADDR \<Rightarrow> CORE_ADDR \<Rightarrow> 'o option \<Rightarrow> (CORE_ADDR \<rightharpoonup> 'o option) \<Rightarrow>
    (CORE_ADDR \<rightharpoonup> 'o option)" where
  "filled s e obj m = (\<lambda>i. if s \<le> i \<and> i \<le> e \<and> m i = Some None then Some obj else m i)"

lemma object_at_filled:
  assumes "m s \<noteq> None" and "e = -1 \<or> m (e + 1) \<noteq> None"
  shows "object_at (filled s e obj m) a =
    (if s \<le> a \<and> a \<le> e \<and> object_at m a = None then obj else object_at m a)"
proof -
  have "last_in m {..a} (object_at m a)" by (rule last_in_object_at)
  then consider k where "k \<le> a" "m k = Some (object_at m a)" "\<forall>i. k < i \<and> i \<le> a \<longrightarrow> m i = None"
    | "object_at m a = None" "\<forall>i \<le> a. m i = None"
    unfolding last_in_def by auto
  then have "last_in (filled s e obj m) {..a}
    (if s \<le> a \<and> a \<le> e \<and> object_at m a = None then obj else object_at m a)"
  proof cases
    case 1
    have "s \<le> k" if "s \<le> a"
      using 1(3) assms(1) that by (metis linorder_not_le)
    moreover have "e < k" if "\<not> a \<le> e"
    proof -
      have "e + 1 \<le> a" using that by (simp add: inc_le not_le)
      moreover have "m (e + 1) \<noteq> None" using assms(2) that by auto
      ultimately have "e + 1 \<le> k" using 1(3) by (metis linorder_not_le)
      moreover have "e < e + 1"
        using that by (metis inc_less_eq_self_iff_eq linorder_not_le max_word_max)
      ultimately show ?thesis by simp
    qed
    ultimately have "filled s e obj m k =
        Some (if s \<le> a \<and> a \<le> e \<and> object_at m a = None then obj else object_at m a)"
      using 1(1,2) by (auto simp: filled_def)
    moreover have "\<forall>i. k < i \<and> i \<le> a \<longrightarrow> filled s e obj m i = None"
      using 1(3) by (simp add: filled_def)
    ultimately show ?thesis using 1(1) by (auto simp: last_in_def)
  next
    case 2
    then show ?thesis using assms(1) by (auto simp: last_in_def filled_def)
  qed
  then show ?thesis by (simp add: object_at_iff)
qed

text \<open>
  A map is canonical when every transition changes the object: what the comment of
  \<^verbatim>\<open>addrmap_mutable::tree\<close> asks of the tree.
\<close>

definition redundant :: "(CORE_ADDR \<rightharpoonup> 'o option) \<Rightarrow> CORE_ADDR \<Rightarrow> bool" where
  "redundant m k \<longleftrightarrow> (\<exists>v. m k = Some v \<and> last_in m {..<k} v)"

definition canonical :: "(CORE_ADDR \<rightharpoonup> 'o option) \<Rightarrow> bool" where
  "canonical m \<longleftrightarrow> (\<forall>k. \<not> redundant m k)"

lemma last_in_before:
  "last_in m {..<k} v \<longleftrightarrow> (if k = 0 then v = None else object_at m (k - 1) = v)"
proof (cases "k = 0")
  case False
  then have "{..<k} = {..k - 1}" by (auto simp: less_eq_dec_iff)
  then show ?thesis using False by (simp add: object_at_iff)
next
  case True
  then have "{..<k} = {}" by auto
  then show ?thesis using True by (simp add: last_in_def)
qed

lemma last_in_cong: "(\<And>i. i \<in> S \<Longrightarrow> m i = m' i) \<Longrightarrow> last_in m S v \<longleftrightarrow> last_in m' S v"
  by (simp add: last_in_def)

lemma last_in_next:
  "m k = Some v \<Longrightarrow> k < j \<Longrightarrow> (\<And>i. k < i \<Longrightarrow> i < j \<Longrightarrow> m i = None) \<Longrightarrow> last_in m {..<j} v"
  by (auto simp: last_in_def)

lemma last_in_skip:
  assumes "last_in m {..<k} v" "k < j" "\<And>i. k < i \<Longrightarrow> i < j \<Longrightarrow> m i = None"
  shows "last_in (m(k := None)) {..<j} v"
proof -
  have none: "(m(k := None)) i = None" if "k \<le> i" "i < j" for i
    using that assms(3) by (cases "i = k") auto
  from assms(1) consider l where "l < k" "m l = Some v" "\<forall>i. i < k \<longrightarrow> l < i \<longrightarrow> m i = None"
    | "v = None" "\<forall>i < k. m i = None"
    unfolding last_in_def by auto
  then show ?thesis
  proof cases
    case 1
    have "(m(k := None)) i = None" if "i < j" "l < i" for i
      using none [of i] that 1(3) by (cases "i < k") auto
    moreover have "l < j" "(m(k := None)) l = Some v" using 1 assms(2) by auto
    ultimately show ?thesis unfolding last_in_def by blast
  next
    case 2
    have "(m(k := None)) i = None" if "i < j" for i
      using none [of i] that 2(2) by (cases "i < k") auto
    then show ?thesis using 2 unfolding last_in_def by blast
  qed
qed

lemma less_inc: "e \<noteq> -1 \<Longrightarrow> e < e + 1" for e :: "64 word"
  using inc_less_eq_self_iff_eq [of e] by (simp add: not_le [symmetric])

lemma less_dec: "e \<noteq> -1 \<Longrightarrow> e + 1 < i \<Longrightarrow> e < i - 1" for e i :: "64 word"
  using less_inc [of e] less_eq_dec_iff [of "e + 1" i] by (auto intro: order.strict_trans2)

text \<open>A walk that moves to a later transition has fewer left.\<close>

lemma card_later:
  assumes "m k \<noteq> None" "(k::64 word) < j" "\<And>i. j \<le> i \<Longrightarrow> m' i \<noteq> None \<Longrightarrow> m i \<noteq> None"
  shows "card {i. j \<le> i \<and> m' i \<noteq> None} < card {i. k \<le> i \<and> m i \<noteq> None}"
proof (rule psubset_card_mono)
  have "k \<in> {i. k \<le> i \<and> m i \<noteq> None}" "k \<notin> {i. j \<le> i \<and> m' i \<noteq> None}"
    using assms by auto
  moreover have "{i. j \<le> i \<and> m' i \<noteq> None} \<subseteq> {i. k \<le> i \<and> m i \<noteq> None}"
    using assms(2,3) by fastforce
  ultimately show "{i. j \<le> i \<and> m' i \<noteq> None} \<subset> {i. k \<le> i \<and> m i \<noteq> None}" by blast
qed simp

subsection \<open>The walks\<close>

locale addr_map = ordered_map ops valid content
  for ops :: "('t, 'o) addr_ops" and valid :: "'t \<Rightarrow> bool"
    and content :: "'t \<Rightarrow> (CORE_ADDR \<rightharpoonup> 'o option)"
begin

definition value_before :: "'t \<Rightarrow> CORE_ADDR \<Rightarrow> 'o option" where
  "value_before t k =
     (case snd (op_predecessor ops t k) of Some (_, v) \<Rightarrow> v | None \<Rightarrow> None)"

lemma value_before: "valid t \<Longrightarrow> last_in (content t) {..<k} (value_before t k)"
  using predecessor_result [of t k]
  by (auto simp: value_before_def pred_of_def last_in_def split: option.splits)

lemma force_transition_valid: "valid t \<Longrightarrow> valid (force_transition ops t a)"
  by (auto simp: force_transition_def Let_def split_beta split: option.split)

lemma force_transition_content:
  assumes "valid t"
  shows "content (force_transition ops t a) =
    (if content t a = None then (content t)(a \<mapsto> value_before (fst (op_lookup ops t a)) a)
     else content t)"
  using assms lookup_result [of t a]
  by (auto simp: force_transition_def Let_def split_beta value_before_def split: option.split)

lemma force_transition_object:
  "valid t \<Longrightarrow> object_at (content (force_transition ops t a)) i = object_at (content t) i"
  using value_before [of "fst (op_lookup ops t a)" a]
  by (simp add: force_transition_content object_at_force)

lemma fill_walk:
  assumes "valid t" "content t k = Some v" "obj \<noteq> None"
  shows "\<exists>t'. fill_walk ops e obj t (Some (k, v)) = Some t' \<and> valid t' \<and>
    content t' = filled k e obj (content t)"
  using assms
proof (induction "card {i. k \<le> i \<and> content t i \<noteq> None}" arbitrary: t k v rule: less_induct)
  case less
  show ?case
  proof (cases "k \<le> e")
    case False
    then have "filled k e obj (content t) = content t"
      by (auto simp: filled_def fun_eq_iff)
    then show ?thesis
      using False less.prems by (subst fill_walk.simps) simp
  next
    case True
    define t1 where "t1 = (if v = None then op_set_value ops t k obj else t)"
    define r where "r = op_successor ops t1 k"
    have t1: "valid t1" "content t1 = (content t)(k \<mapsto> (if v = None then obj else v))"
      using less.prems by (auto simp: t1_def dom_def)
    have r: "valid (fst r)" "content (fst r) = content t1" "succ_of (content t1) k (snd r)"
      using t1(1) successor_result [of t1 k] by (simp_all add: r_def)
    have step: "fill_walk ops e obj t (Some (k, v)) = fill_walk ops e obj (fst r) (snd r)"
      using True by (subst fill_walk.simps) (simp add: t1_def r_def Let_def)
    show ?thesis
    proof (cases "snd r")
      case None
      have "content t i = None" if "k < i" for i
      proof -
        have "content t1 i = None" using None r(3) that by (auto simp: succ_of_def)
        then show ?thesis using t1(2) less_imp_neq [OF that] by simp
      qed
      then have "content t1 = filled k e obj (content t)"
        using t1(2) less.prems True by (auto simp: filled_def fun_eq_iff le_less split: if_splits)
      then show ?thesis
        using step None r by (subst (asm) (2) fill_walk.simps) simp
    next
      case (Some p)
      then obtain j w where j: "snd r = Some (j, w)" by (cases p) auto
      have m: "content t1 j = Some w" "k < j" and gap1: "\<forall>i. k < i \<and> i < j \<longrightarrow> content t1 i = None"
        using r(3) j by (auto simp: succ_of_def)
      have gap: "\<forall>i. k < i \<and> i < j \<longrightarrow> content t i = None"
        using gap1 t1(2) less_imp_neq by fastforce
      have "card {i. j \<le> i \<and> content (fst r) i \<noteq> None} < card {i. k \<le> i \<and> content t i \<noteq> None}"
        using less.prems(2) m(2) t1(2) r(2) by (intro card_later) (auto split: if_splits)
      from less.hyps [OF this r(1) _ assms(3), of w]
      obtain t' where t': "fill_walk ops e obj (fst r) (Some (j, w)) = Some t'" "valid t'"
        "content t' = filled j e obj (content t1)"
        using m(1) r(2) by auto
      have "filled j e obj (content t1) = filled k e obj (content t)"
        using m(2) gap t1(2) less.prems True
        by (auto simp: filled_def fun_eq_iff le_less)
      then show ?thesis
        using t' step j by auto
    qed
  qed
qed

text \<open>
  The second walk: it returns, changes no object, touches no transition outside the range, and
  leaves none in the range that repeats the object before it.
\<close>

lemma prune_walk:
  assumes "valid t" "content t k = Some v" "last_in (content t) {..<k} prior"
  shows "\<exists>t'. prune_walk ops e t (Some (k, v)) prior = Some t' \<and> valid t' \<and>
    (\<forall>a. object_at (content t') a = object_at (content t) a) \<and>
    (\<forall>i. i < k \<or> \<not> (e = -1 \<or> i \<le> e + 1) \<longrightarrow> content t' i = content t i) \<and>
    (\<forall>i. k \<le> i \<longrightarrow> e = -1 \<or> i \<le> e + 1 \<longrightarrow> \<not> redundant (content t') i)"
  using assms
proof (induction "card {i. k \<le> i \<and> content t i \<noteq> None}" arbitrary: t k v prior rule: less_induct)
  case less
  show ?case
  proof (cases "e = -1 \<or> k \<le> e + 1")
    case False
    then have "prune_walk ops e t (Some (k, v)) prior = Some t"
      by (subst prune_walk.simps) auto
    moreover have "\<not> i \<le> e + 1" if "k \<le> i" for i
      using False that by auto
    ultimately show ?thesis
      using False less.prems by auto
  next
    case True
    define r where "r = op_successor ops t k"
    define t1 where "t1 = (if v = prior then op_remove ops (fst r) k else fst r)"
    have r: "valid (fst r)" "content (fst r) = content t" "succ_of (content t) k (snd r)"
      using less.prems(1) successor_result [of t k] by (simp_all add: r_def)
    have t1: "valid t1"
      "content t1 = (if v = prior then (content t)(k := None) else content t)"
      using r by (simp_all add: t1_def)
    have obj: "object_at (content t1) a = object_at (content t) a" for a
      using object_at_prune [of "content t" k v] less.prems(2,3) t1(2) by auto
    have step: "prune_walk ops e t (Some (k, v)) prior = prune_walk ops e t1 (snd r) v"
      using True by (subst prune_walk.simps) (auto simp add: t1_def r_def Let_def)
    have at_k: "\<not> redundant m k" if "\<And>i. i \<le> k \<Longrightarrow> m i = content t1 i" for m
    proof
      assume "redundant m k"
      then have "redundant (content t1) k"
        using that last_in_cong [of "{..<k}" m "content t1"] by (auto simp: redundant_def)
      then show False
        using t1(2) less.prems last_in_unique by (fastforce simp: redundant_def split: if_splits)
    qed
    show ?thesis
    proof (cases "snd r")
      case None
      then have gone: "\<forall>i > k. content t i = None"
        using r(3) by (auto simp: succ_of_def)
      have "prune_walk ops e t1 None v = Some t1"
        by (subst prune_walk.simps) simp
      moreover have "\<not> redundant (content t1) i" if "k \<le> i" for i
      proof (cases "i = k")
        case False
        then have "content t1 i = None" using gone that t1(2) by auto
        then show ?thesis by (simp add: redundant_def)
      qed (use at_k in auto)
      ultimately show ?thesis
        using step None t1 obj True by (intro exI [of _ t1]) auto
    next
      case (Some p)
      then obtain j w where j: "snd r = Some (j, w)" by (cases p) auto
      have m: "content t j = Some w" "k < j" "\<And>i. k < i \<Longrightarrow> i < j \<Longrightarrow> content t i = None"
        using r(3) j by (auto simp: succ_of_def)
      have t1j: "content t1 j = Some w" using m(1,2) t1(2) by auto
      have card: "card {i. j \<le> i \<and> content t1 i \<noteq> None} < card {i. k \<le> i \<and> content t i \<noteq> None}"
        using less.prems(2) m(2) t1(2) by (intro card_later) (auto split: if_splits)
      have "last_in (content t1) {..<j} v"
        using last_in_skip [OF less.prems(3) m(2,3)] 
          last_in_next [of "content t" k v j, OF less.prems(2) m(2,3)] t1(2)
        by auto
      from less.hyps [OF card t1(1) t1j this] obtain t' where t':
        "prune_walk ops e t1 (Some (j, w)) v = Some t'" "valid t'"
        "\<And>a. object_at (content t') a = object_at (content t1) a"
        "\<And>i. i < j \<or> \<not> (e = -1 \<or> i \<le> e + 1) \<Longrightarrow> content t' i = content t1 i"
        "\<And>i. j \<le> i \<Longrightarrow> e = -1 \<or> i \<le> e + 1 \<Longrightarrow> \<not> redundant (content t') i"
        by auto
      have "content t' i = content t i" if "i < k \<or> \<not> (e = -1 \<or> i \<le> e + 1)" for i
      proof -
        have "i \<noteq> k" using that True by auto
        moreover have "content t' i = content t1 i"
          using t'(4) [of i] that order.strict_trans [OF _ m(2)] by blast
        ultimately show ?thesis using t1(2) by simp
      qed
      moreover have "\<not> redundant (content t') i" if "k \<le> i" "e = -1 \<or> i \<le> e + 1" for i
      proof -
        consider "i = k" | "k < i" "i < j" | "j \<le> i" using \<open>k \<le> i\<close> by fastforce
        then show ?thesis
        proof cases
          case 1
          then show ?thesis using at_k t'(4) m(2) by (meson order.strict_trans1)
        next
          case 2
          then have "content t' i = None"
            using t'(4) [of i] m(3) [of i] t1(2) by simp
          then show ?thesis by (simp add: redundant_def)
        next
          case 3
          then show ?thesis using t'(5) that by blast
        qed
      qed
      ultimately show ?thesis
        using t'(1-3) step j obj by auto
    qed
  qed
qed

lemma set_empty:
  assumes "valid t" "obj \<noteq> None"
  shows "\<exists>t'. set_empty ops t s e obj = Some (Inr t') \<and> valid t' \<and>
    (\<forall>a. object_at (content t') a =
      (if s \<le> a \<and> a \<le> e \<and> object_at (content t) a = None then obj
       else object_at (content t) a)) \<and>
    (s \<le> e \<longrightarrow> canonical (content t) \<longrightarrow> canonical (content t'))"
proof -
  define t1 where "t1 = force_transition ops t s"
  define t2 where "t2 = (if e < -1 then force_transition ops t1 (e + 1) else t1)"
  define t3 where "t3 = fst (op_lookup ops t2 s)"
  have t1: "valid t1" "content t1 s \<noteq> None" "\<And>i. i \<noteq> s \<Longrightarrow> content t1 i = content t i"
    using assms(1) force_transition_content [OF assms(1), of s]
    by (auto simp: t1_def force_transition_valid)
  have obj1: "object_at (content t1) a = object_at (content t) a" for a
    unfolding t1_def by (rule force_transition_object [OF assms(1)])
  have e: "e < -1 \<longleftrightarrow> e \<noteq> -1"
    by (metis less_le max_word_max)
  have t2: "valid t2" "content t2 s \<noteq> None" "e = -1 \<or> content t2 (e + 1) \<noteq> None"
    "\<And>i. i \<noteq> s \<Longrightarrow> e = -1 \<or> i \<noteq> e + 1 \<Longrightarrow> content t2 i = content t i"
    using t1 force_transition_content [OF t1(1), of "e + 1"]
    by (auto simp: t2_def e force_transition_valid)
  have obj2: "object_at (content t2) a = object_at (content t) a" for a
    using force_transition_object [OF t1(1)] obj1 by (simp add: t2_def)
  from t2(2) obtain v where v: "content t2 s = Some v" by auto
  have t3: "valid t3" "content t3 = content t2" "snd (op_lookup ops t2 s) = Some (s, v)"
    using t2(1) v lookup_result [of t2 s] by (simp_all add: t3_def)
  obtain t4 where t4: "fill_walk ops e obj t3 (Some (s, v)) = Some t4" "valid t4"
    "content t4 = filled s e obj (content t2)"
    using fill_walk [of t3 s v obj e] t3 v assms(2) by auto
  define t5 where "t5 = fst (op_predecessor ops t4 s)"
  define t6 where "t6 = fst (op_lookup ops t5 s)"
  have t6: "valid t5" "valid t6" "content t5 = content t4" "content t6 = content t4"
    using t4(2) by (simp_all add: t5_def t6_def)
  obtain w where w: "content t4 s = Some w"
    using v t4(3) by (cases "content t4 s") (auto simp: filled_def split: if_splits)
  then have look: "snd (op_lookup ops t5 s) = Some (s, w)"
    using t6 lookup_result [of t5 s] by simp
  have before: "last_in (content t6) {..<s} (value_before t4 s)"
    using value_before [OF t4(2), of s] t6 by simp
  from prune_walk [OF t6(2) _ before, of w e] w t6(4) obtain t' where t':
    "prune_walk ops e t6 (Some (s, w)) (value_before t4 s) = Some t'" "valid t'"
    "\<And>a. object_at (content t') a = object_at (content t4) a"
    "\<And>i. i < s \<or> \<not> (e = -1 \<or> i \<le> e + 1) \<Longrightarrow> content t' i = content t4 i"
    "\<And>i. s \<le> i \<Longrightarrow> e = -1 \<or> i \<le> e + 1 \<Longrightarrow> \<not> redundant (content t') i"
    by auto
  have run: "set_empty ops t s e obj = Some (Inr t')"
    using assms(2) t3(3) t4(1) look t'(1)
    by (simp add: set_empty_def Let_def split_beta t1_def [symmetric] t2_def [symmetric]
        t3_def [symmetric] t5_def [symmetric] t6_def [symmetric] value_before_def)
  have objs: "object_at (content t') a =
      (if s \<le> a \<and> a \<le> e \<and> object_at (content t) a = None then obj
       else object_at (content t) a)" for a
    using t'(3) t4(3) object_at_filled [OF t2(2,3), of obj a] obj2 by simp
  have "canonical (content t')" if "s \<le> e" "canonical (content t)"
    unfolding canonical_def
  proof
    fix i
    show "\<not> redundant (content t') i"
    proof (cases "s \<le> i \<and> (e = -1 \<or> i \<le> e + 1)")
      case True
      then show ?thesis using t'(5) by blast
    next
      case False
      then have out: "i < s \<or> e + 1 < i \<and> e \<noteq> -1" by auto
      have "i \<noteq> s" using out order.strict_trans1 [OF that(1) less_inc] by auto
      have keep: "content t' i = content t i"
      proof -
        have "i < s \<or> e < i"
          using out order.strict_trans [OF less_inc] by blast
        moreover have "e = -1 \<or> i \<noteq> e + 1"
          using out order.strict_trans1 [OF that(1) less_inc] by auto
        ultimately have "content t4 i = content t i"
          using t4(3) t2(4) [OF \<open>i \<noteq> s\<close>] by (auto simp: filled_def)
        then show ?thesis using t'(4) [of i] out t6(4) by (auto simp: not_le)
      qed
      have "object_at (content t') (i - 1) = object_at (content t) (i - 1)" if "i \<noteq> 0"
      proof -
        have "i - 1 < i" using that less_eq_dec_iff [of i i] not_le by blast
        moreover have "e < i - 1" if "\<not> i < s"
          using out that less_dec by blast
        ultimately have "\<not> (s \<le> i - 1 \<and> i - 1 \<le> e)"
          by (metis linorder_not_le order.strict_trans)
        then show ?thesis using objs [of "i - 1"] by auto
      qed
      with keep have "redundant (content t') i \<longleftrightarrow> redundant (content t) i"
        by (auto simp: redundant_def last_in_before)
      then show ?thesis using that(2) by (simp add: canonical_def)
    qed
  qed
  with run objs t'(2) show ?thesis by auto
qed

lemma do_find:
  "valid t \<Longrightarrow> \<exists>t'. do_find ops t a = Inr (t', object_at (content t) a) \<and> valid t' \<and>
     content t' = content t"
proof (cases "content t a")
  case (Some v)
  moreover assume "valid t"
  moreover have "object_at (content t) a = v"
    using Some by (auto simp: object_at_iff last_in_def)
  ultimately show ?thesis
    using lookup_result [of t a] by (auto simp: do_find_def split_beta Let_def)
next
  case None
  assume t: "valid t"
  define t1 where "t1 = fst (op_lookup ops t a)"
  have t1: "valid t1" "content t1 = content t" "snd (op_lookup ops t a) = None"
    using t None lookup_result [of t a] by (simp_all add: t1_def)
  have "{..a} = insert a {..<a}" by auto
  then have "last_in (content t) {..a} (value_before t1 a)"
    using value_before [OF t1(1), of a] t1(2) None by (auto simp: last_in_def)
  then have "object_at (content t) a = value_before t1 a" by (simp add: object_at_iff)
  moreover have "pred_of (content t) a (snd (op_predecessor ops t1 a))"
    using predecessor_result [OF t1(1), of a] t1(2) by simp
  ultimately show ?thesis
    using t1
    by (auto simp: do_find_def split_beta Let_def t1_def [symmetric] value_before_def pred_of_def
        split: option.splits)
qed

end

subsection \<open>The splay tree as provider\<close>

definition splay_compare_CORE_ADDR_ptr :: "CORE_ADDR \<Rightarrow> CORE_ADDR \<Rightarrow> int" where
  "splay_compare_CORE_ADDR_ptr a b = (if a < b then -1 else if a = b then 0 else 1)"

interpretation core_addr: comparator splay_compare_CORE_ADDR_ptr
  by unfold_locales (auto simp: splay_compare_CORE_ADDR_ptr_def)

interpretation mut: addr_map splay_ops "splay_valid splay_compare_CORE_ADDR_ptr" splay_content
  by unfold_locales

type_synonym 'o addrmap_mutable = "(CORE_ADDR, 'o option) splay_tree"

text \<open>Keys are heap copies of addresses, freed by \<open>xfree_wrapper\<close>; values are not freed.\<close>

definition new_addrmap_mutable :: "'o addrmap_mutable" where
  "new_addrmap_mutable = splay_tree_new splay_compare_CORE_ADDR_ptr True False"

definition addrmap_mutable_set_empty ::
  "'o addrmap_mutable \<Rightarrow> CORE_ADDR \<Rightarrow> CORE_ADDR \<Rightarrow> 'o option \<Rightarrow> 'o addrmap_mutable gdb option" where
  "addrmap_mutable_set_empty m = set_empty splay_ops m"

definition addrmap_mutable_find ::
  "'o addrmap_mutable \<Rightarrow> CORE_ADDR \<Rightarrow> ('o addrmap_mutable \<times> 'o option) gdb" where
  "addrmap_mutable_find m = do_find splay_ops m"

definition addrmap_mutable_relocate :: "'o addrmap_mutable \<Rightarrow> CORE_ADDR \<Rightarrow> 'o addrmap_mutable gdb" where
  "addrmap_mutable_relocate m offset = Inl Internal_error"

definition addrmap_mutable_foreach_worker ::
  "(CORE_ADDR \<Rightarrow> 'o option \<Rightarrow> 'd \<Rightarrow> int \<times> 'd) \<Rightarrow> CORE_ADDR \<Rightarrow> 'o option \<Rightarrow> 'd \<Rightarrow> int \<times> 'd" where
  "addrmap_mutable_foreach_worker fn k v d = fn k v d"

definition addrmap_mutable_foreach ::
  "'o addrmap_mutable \<Rightarrow> (CORE_ADDR \<Rightarrow> 'o option \<Rightarrow> 'd \<Rightarrow> int \<times> 'd) \<Rightarrow> 'd \<Rightarrow> int \<times> 'd" where
  "addrmap_mutable_foreach m fn d = splay_tree_foreach m (addrmap_mutable_foreach_worker fn) d"

definition addrmap_mutable_delete ::
  "'o addrmap_mutable \<Rightarrow> (CORE_ADDR, 'o option) dealloc_event list" where
  "addrmap_mutable_delete m = splay_tree_delete m"

text \<open>What a mutable map keeps of its tree, and the object it maps an address to.\<close>

abbreviation addrmap_valid :: "'o addrmap_mutable \<Rightarrow> bool" where
  "addrmap_valid \<equiv> splay_valid splay_compare_CORE_ADDR_ptr"

definition mapped :: "'o addrmap_mutable \<Rightarrow> CORE_ADDR \<Rightarrow> 'o option" where
  "mapped m = object_at (splay_content m)"

subsection \<open>Fixed address maps\<close>

record 'o addrmap_transition =
  tr_addr :: CORE_ADDR
  tr_value :: "'o option"

text \<open>The array \<open>transitions\<close>; \<open>num_transitions\<close> is its length.\<close>

type_synonym 'o addrmap_fixed = "'o addrmap_transition list"

definition new_addrmap_fixed :: "'o addrmap_mutable \<Rightarrow> 'o addrmap_fixed gdb" where
  "new_addrmap_fixed mut =
     (let transition_count = snd (addrmap_mutable_foreach mut (\<lambda>start obj n. (0, n + 1)) 0) + 1;
          transitions = snd (addrmap_mutable_foreach mut
            (\<lambda>start obj ts. (0, ts @ [\<lparr>tr_addr = start, tr_value = obj\<rparr>]))
            [\<lparr>tr_addr = 0, tr_value = None\<rparr>])
      in if length transitions = (transition_count :: nat) then Inr transitions
         else Inl Assertion_failed)"

function fixed_search :: "'o addrmap_fixed \<Rightarrow> CORE_ADDR \<Rightarrow> nat \<Rightarrow> nat \<Rightarrow> nat" where
  "fixed_search ts a bottom top' =
     (if bottom < top'
      then
        let mid = top' - (top' - bottom) div 2 in
        if tr_addr (ts ! mid) = a then mid
        else if tr_addr (ts ! mid) < a then fixed_search ts a mid top'
        else fixed_search ts a bottom (mid - 1)
      else bottom)"
  by pat_completeness auto
termination
  by (relation "measure (\<lambda>(ts, a, bottom, top'). top' - bottom)") (auto simp: Let_def)

declare fixed_search.simps [simp del]

definition addrmap_fixed_find :: "'o addrmap_fixed \<Rightarrow> CORE_ADDR \<Rightarrow> 'o option" where
  "addrmap_fixed_find ts a = tr_value (ts ! fixed_search ts a 0 (length ts - 1))"

definition addrmap_fixed_relocate :: "'o addrmap_fixed \<Rightarrow> CORE_ADDR \<Rightarrow> 'o addrmap_fixed" where
  "addrmap_fixed_relocate ts offset = map (\<lambda>t. t\<lparr>tr_addr := tr_addr t + offset\<rparr>) ts"

fun addrmap_fixed_foreach ::
  "'o addrmap_fixed \<Rightarrow> (CORE_ADDR \<Rightarrow> 'o option \<Rightarrow> 'd \<Rightarrow> int \<times> 'd) \<Rightarrow> 'd \<Rightarrow> int \<times> 'd" where
  "addrmap_fixed_foreach [] fn d = (0, d)"
| "addrmap_fixed_foreach (t # ts) fn d =
     (let (res, d') = fn (tr_addr t) (tr_value t) d in
      if res \<noteq> 0 then (res, d') else addrmap_fixed_foreach ts fn d')"

text \<open>
  \<open>addrmap_dump\<close>: the callback keeps whether the previous entry matched and the lines printed:
  whether the line is indented, its address, and the object or the mark \<^verbatim>\<open><ends here>\<close>.
\<close>

datatype 'o dump_mark = Host_address "'o option" | Ends_here

definition dump_callback :: "'o option \<Rightarrow> CORE_ADDR \<Rightarrow> 'o option \<Rightarrow>
    bool \<times> (bool \<times> CORE_ADDR \<times> 'o dump_mark) list \<Rightarrow>
    int \<times> bool \<times> (bool \<times> CORE_ADDR \<times> 'o dump_mark) list" where
  "dump_callback payload start_addr obj = (\<lambda>(previous_matched, out).
     let matches = (payload = None \<or> payload = obj) in
     (0, matches,
      if matches \<or> previous_matched
      then out @ [(payload \<noteq> None, start_addr, if matches then Host_address obj else Ends_here)]
      else out))"

definition addrmap_dump :: "'o addrmap_fixed \<Rightarrow> 'o option \<Rightarrow>
    (bool \<times> CORE_ADDR \<times> 'o dump_mark) list" where
  "addrmap_dump ts payload =
     snd (snd (addrmap_fixed_foreach ts (dump_callback payload) (False, [])))"

text \<open>
  Bisection: addresses increase strictly from index 1 on, and the first one is only a default.
\<close>

definition fixed_sorted :: "'o addrmap_fixed \<Rightarrow> bool" where
  "fixed_sorted ts \<longleftrightarrow> ts \<noteq> [] \<and> sorted_wrt (<) (map tr_addr (tl ts)) \<and> (\<forall>t \<in> set ts. tr_addr (hd ts) \<le> tr_addr t)"

lemma fixed_sorted_nth:
  "fixed_sorted ts \<Longrightarrow> 0 < i \<Longrightarrow> i < j \<Longrightarrow> j < length ts \<Longrightarrow> tr_addr (ts ! i) < tr_addr (ts ! j)"
  by (cases ts) (auto simp: fixed_sorted_def sorted_wrt_iff_nth_less nth_Cons split: nat.splits)

lemma fixed_search:
  assumes "fixed_sorted ts" "b \<le> t" "t < length ts" "b = 0 \<or> tr_addr (ts ! b) \<le> a"
    "\<forall>i. t < i \<longrightarrow> i < length ts \<longrightarrow> a < tr_addr (ts ! i)"
  shows "(let r = fixed_search ts a b t in r < length ts \<and> (r = 0 \<or> tr_addr (ts ! r) \<le> a) \<and>
    (\<forall>i. r < i \<longrightarrow> i < length ts \<longrightarrow> a < tr_addr (ts ! i)))"
  using assms
proof (induction ts a b t rule: fixed_search.induct)
  case (1 ts a b t)
  show ?case
  proof (cases "b < t")
    case False
    then show ?thesis using "1.prems" by (subst fixed_search.simps) auto
  next
    case True
    define mid where "mid = t - (t - b) div 2"
    have mid: "b < mid" "mid \<le> t" using True by (auto simp: mid_def)
    then have up: "tr_addr (ts ! mid) < tr_addr (ts ! i)" if "mid < i" "i < length ts" for i
      using fixed_sorted_nth [OF "1.prems"(1)] that by auto
    consider "tr_addr (ts ! mid) = a" | "tr_addr (ts ! mid) < a" | "a < tr_addr (ts ! mid)"
      by fastforce
    then show ?thesis
    proof cases
      case 1
      then have "fixed_search ts a b t = mid"
        using True by (subst fixed_search.simps) (simp add: mid_def Let_def)
      then show ?thesis using 1 up mid "1.prems"(3) by auto
    next
      case 2
      then have "tr_addr (ts ! mid) \<noteq> a" by auto
      with 2 have "fixed_search ts a b t = fixed_search ts a mid t"
        using True by (subst fixed_search.simps) (simp add: mid_def Let_def)
      then show ?thesis
        using "1.IH"(1) [OF True mid_def] 2 mid "1.prems" by auto
    next
      case 3
      then have ne: "tr_addr (ts ! mid) \<noteq> a" "\<not> tr_addr (ts ! mid) < a" by auto
      then have step: "fixed_search ts a b t = fixed_search ts a b (mid - 1)"
        using True by (subst fixed_search.simps) (auto simp add: mid_def Let_def)
      have "a < tr_addr (ts ! i)" if "mid - 1 < i" "i < length ts" for i
        using 3 up [of i] that mid by (cases "i = mid") (auto intro: order.strict_trans)
      then show ?thesis
        using "1.IH"(2) [OF True mid_def] ne mid "1.prems" step by auto
    qed
  qed
qed

lemma visit_entries: "visit (\<lambda>k v ts. (0, f k v ts)) xs d = (0, fold (\<lambda>(k, v). f k v) xs d)"
  by (induction xs arbitrary: d) auto

definition transition_of :: "CORE_ADDR \<times> 'o option \<Rightarrow> 'o addrmap_transition" where
  "transition_of x = \<lparr>tr_addr = fst x, tr_value = snd x\<rparr>"

lemma addrmap_fixed_transitions:
  "new_addrmap_fixed m = Inr (transition_of (0, None) # map transition_of (entries m))"
proof -
  have "fold (\<lambda>(k, v) n. n + 1) xs n = length xs + n" for xs :: "(CORE_ADDR \<times> 'a option) list" and n
    by (induction xs arbitrary: n) auto
  moreover have "fold (\<lambda>(k, v) ts. ts @ [\<lparr>tr_addr = k, tr_value = v\<rparr>]) xs ts =
      ts @ map transition_of xs" for xs :: "(CORE_ADDR \<times> 'a option) list" and ts
    by (induction xs arbitrary: ts) (auto simp: transition_of_def)
  ultimately show ?thesis
    by (simp add: new_addrmap_fixed_def addrmap_mutable_foreach_def foreach_visit visit_entries
        addrmap_mutable_foreach_worker_def [abs_def] Let_def transition_of_def)
qed

lemma fixed_find_last:
  assumes "fixed_sorted ts" "hd ts = transition_of (0, None)"
  shows "last_in (map_of (map (\<lambda>t. (tr_addr t, tr_value t)) (tl ts))) {..a} (addrmap_fixed_find ts a)"
proof -
  define r where "r = fixed_search ts a 0 (length ts - 1)"
  obtain h xs where ts: "ts = h # xs" using assms(1) by (cases ts) (auto simp: fixed_sorted_def)
  have r: "r < length ts" "r = 0 \<or> tr_addr (ts ! r) \<le> a"
    "\<And>i. r < i \<Longrightarrow> i < length ts \<Longrightarrow> a < tr_addr (ts ! i)"
    using fixed_search [OF assms(1), of 0 "length ts - 1" a] ts by (auto simp: r_def Let_def)
  let ?m = "map_of (map (\<lambda>t. (tr_addr t, tr_value t)) xs)"
  have dist: "distinct (map tr_addr xs)"
    using assms(1) ts by (simp add: fixed_sorted_def strict_sorted_iff)
  have none: "?m i = None" if "i \<le> a" "r = 0 \<or> tr_addr (ts ! r) < i" for i
  proof (rule ccontr)
    assume "?m i \<noteq> None"
    then have "i \<in> tr_addr ` set xs"
      by (simp add: map_of_eq_None_iff image_image)
    then obtain j where j: "j < length xs" "tr_addr (xs ! j) = i"
      by (auto simp: in_set_conv_nth)
    then have "Suc j \<le> r" using r(3) [of "Suc j"] ts that(1) by force
    then have "tr_addr (ts ! Suc j) \<le> tr_addr (ts ! r)"
      using fixed_sorted_nth [OF assms(1), of "Suc j" r] r(1) by (cases "Suc j = r") auto
    then show False using j that(2) ts \<open>Suc j \<le> r\<close> by auto
  qed
  show ?thesis
  proof (cases r)
    case 0
    then show ?thesis
      using none assms(2) ts r_def by (simp add: last_in_def addrmap_fixed_find_def transition_of_def)
  next
    case (Suc n)
    then have "?m (tr_addr (ts ! r)) = Some (tr_value (ts ! r))"
      using r(1) ts dist by (intro map_of_is_SomeI) (auto simp: comp_def)
    moreover have "tr_addr (ts ! r) \<le> a" using r(2) Suc by simp
    ultimately show ?thesis
      using none r_def ts unfolding last_in_def addrmap_fixed_find_def by (auto simp del: nth_Cons_Suc)
  qed
qed

lemma fixed_of_mutable:
  assumes "addrmap_valid m"
  shows "fixed_sorted (transition_of (0, None) # map transition_of (entries m))"
proof -
  have "sorted_wrt (<) (map fst (entries m))"
    using assms by (simp add: splay_valid_def strict_keys_def)
  then show ?thesis by (simp add: fixed_sorted_def transition_of_def comp_def)
qed

lemma fixed_find_mapped:
  assumes "addrmap_valid m" "new_addrmap_fixed m = Inr ts"
  shows "addrmap_fixed_find ts a = mapped m a"
proof -
  have ts: "ts = transition_of (0, None) # map transition_of (entries m)"
    using assms(2) by (simp add: addrmap_fixed_transitions)
  have "map (\<lambda>t. (tr_addr t, tr_value t)) (tl ts) = entries m"
    by (simp add: ts transition_of_def comp_def)
  then have "last_in (splay_content m) {..a} (addrmap_fixed_find ts a)"
    using fixed_find_last [of ts a] fixed_of_mutable [OF assms(1)] ts
    by (simp add: splay_content_def)
  then show ?thesis using object_at_iff unfolding mapped_def by metis
qed

text \<open>Relocation shifts the addresses; it keeps the search's decisions when none wraps.\<close>

lemma fixed_search_cong:
  assumes "\<And>i. i \<le> t \<Longrightarrow> (tr_addr (ts ! i) = a) = (tr_addr (us ! i) = c)"
    "\<And>i. i \<le> t \<Longrightarrow> (tr_addr (ts ! i) < a) = (tr_addr (us ! i) < c)"
  shows "fixed_search ts a b t = fixed_search us c b t"
  using assms
proof (induction ts a b t rule: fixed_search.induct)
  case (1 ts a b t)
  define mid where "mid = t - (t - b) div 2"
  have "mid \<le> t" by (simp add: mid_def)
  show ?case
    using "1.IH"(1) [OF _ mid_def] "1.IH"(2) [OF _ mid_def] "1.prems" \<open>mid \<le> t\<close>
    by (subst (1 2) fixed_search.simps) (auto simp: mid_def Let_def)
qed

lemma fixed_search_le: "b \<le> t \<Longrightarrow> fixed_search ts a b t \<le> t"
proof (induction ts a b t rule: fixed_search.induct)
  case (1 ts a b t)
  define mid where "mid = t - (t - b) div 2"
  have mid: "mid \<le> t" "b < t \<Longrightarrow> b \<le> mid - 1" by (auto simp: mid_def)
  have eq: "fixed_search ts a b t = (if b < t then if tr_addr (ts ! mid) = a then mid
      else if tr_addr (ts ! mid) < a then fixed_search ts a mid t
      else fixed_search ts a b (mid - 1) else b)"
    by (subst fixed_search.simps) (simp add: mid_def Let_def)
  have "fixed_search ts a mid t \<le> t"
    if "b < t" "tr_addr (ts ! mid) \<noteq> a" "tr_addr (ts ! mid) < a"
    using "1.IH"(1) [OF that(1) mid_def that(2,3) mid(1)] .
  moreover have "fixed_search ts a b (mid - 1) \<le> t"
    if "b < t" "tr_addr (ts ! mid) \<noteq> a" "\<not> tr_addr (ts ! mid) < a"
    using "1.IH"(2) [OF that(1) mid_def that(2,3) mid(2) [OF that(1)]] mid(1) by linarith
  ultimately show ?case
    unfolding eq using mid(1) "1.prems" by (simp split: if_split)
qed

lemma unat_add_no_wrap:
  "unat (x::'w::len word) + unat y < 2 ^ LENGTH('w) \<Longrightarrow> unat (x + y) = unat x + unat y"
  by (simp add: unat_word_ariths)

lemma fixed_find_relocate:
  assumes "\<And>t. t \<in> set ts \<Longrightarrow> unat (tr_addr t) + unat offset < 2 ^ 64"
    and "unat a + unat offset < 2 ^ 64" and "ts \<noteq> []"
  shows "addrmap_fixed_find (addrmap_fixed_relocate ts offset) (a + offset) = addrmap_fixed_find ts a"
proof -
  let ?us = "addrmap_fixed_relocate ts offset"
  have nth: "tr_addr (?us ! i) = tr_addr (ts ! i) + offset" "tr_value (?us ! i) = tr_value (ts ! i)"
    if "i < length ts" for i
    using that by (simp_all add: addrmap_fixed_relocate_def)
  have "fixed_search ts a 0 (length ts - 1) = fixed_search ?us (a + offset) 0 (length ts - 1)"
  proof (rule fixed_search_cong)
    fix i assume "i \<le> length ts - 1"
    then have i: "i < length ts" using assms(3) by (cases ts) auto
    then have w: "unat (tr_addr (ts ! i) + offset) = unat (tr_addr (ts ! i)) + unat offset"
      "unat (a + offset) = unat a + unat offset"
      using assms(1) [of "ts ! i"] assms(2) by (auto intro!: unat_add_no_wrap)
    show "(tr_addr (ts ! i) = a) = (tr_addr (?us ! i) = a + offset)"
      using nth i by simp
    show "(tr_addr (ts ! i) < a) = (tr_addr (?us ! i) < a + offset)"
      using nth i w by (simp add: word_less_nat_alt)
  qed
  moreover have "fixed_search ts a 0 (length ts - 1) < length ts"
    using fixed_search_le [of 0 "length ts - 1" ts a] assms(3) by (cases ts) auto
  ultimately show ?thesis
    using nth assms(3) by (simp add: addrmap_fixed_find_def addrmap_fixed_relocate_def)
qed

subsection \<open>Properties\<close>

text \<open>C36: \<^verbatim>\<open>addrmap_mutable::set_empty\<close> returns, and afterwards maps exactly the addresses of the
  inclusive range that were unmapped to the object; every other address keeps its object. This
  includes ranges that end at the last address and ranges whose end is before their start.\<close>

theorem set_empty_maps_unmapped:
  assumes "addrmap_valid m" and "obj \<noteq> None"
  shows "\<exists>m'. addrmap_mutable_set_empty m s e obj = Some (Inr m') \<and> addrmap_valid m' \<and>
    (\<forall>a. mapped m' a = (if s \<le> a \<and> a \<le> e \<and> mapped m a = None then obj else mapped m a))"
  using mut.set_empty [OF assms, of s e] by (auto simp: addrmap_mutable_set_empty_def mapped_def)

lemma addrmap_mutable_new_valid: "addrmap_valid new_addrmap_mutable" "mapped new_addrmap_mutable a = None"
  unfolding splay_valid_def mapped_def splay_content_def entries_def object_at_def
  by (simp_all add: new_addrmap_mutable_def splay_tree_new_def)

theorem set_empty_maps_unmapped_witness:
  "\<exists>m. addrmap_mutable_set_empty new_addrmap_mutable 16 31 (Some ''f'') = Some (Inr m) \<and>
     mapped m 24 = Some ''f'' \<and> mapped m 32 = None"
  using set_empty_maps_unmapped [OF addrmap_mutable_new_valid(1), of "Some ''f''" 16 31]
  by (auto simp: addrmap_mutable_new_valid)

text \<open>On a range that is not reversed, \<^verbatim>\<open>set_empty\<close> keeps the tree free of transitions from a
  value to itself, although it forces transitions at both ends of the range first.\<close>

theorem set_empty_canonical:
  assumes "addrmap_valid m" and "obj \<noteq> None" and "s \<le> e" and "canonical (splay_content m)"
  shows "\<exists>m'. addrmap_mutable_set_empty m s e obj = Some (Inr m') \<and> canonical (splay_content m')"
  using mut.set_empty [OF assms(1,2), of s e] assms(3,4) by (auto simp: addrmap_mutable_set_empty_def)

theorem set_empty_canonical_witness:
  "\<exists>m. addrmap_mutable_set_empty new_addrmap_mutable 0 (-1) (Some ''f'') = Some (Inr m) \<and>
     canonical (splay_content m)"
  by (rule set_empty_canonical [OF addrmap_mutable_new_valid(1)])
     (simp_all add: canonical_def redundant_def splay_content_def
        new_addrmap_mutable_def splay_tree_new_def entries_def)

text \<open>C37: the fixed map built from a mutable map answers every query as the mutable map does: the
  bisection over the array of transitions and the predecessor search in the splay tree agree at
  every address, and neither assertion of \<^verbatim>\<open>do_find\<close> or of the constructor fails.\<close>

theorem fixed_agrees_with_mutable:
  assumes "addrmap_valid m"
  shows "\<exists>ts m'. new_addrmap_fixed m = Inr ts \<and>
    addrmap_mutable_find m a = Inr (m', addrmap_fixed_find ts a) \<and> addrmap_valid m'"
proof -
  obtain ts where ts: "new_addrmap_fixed m = Inr ts" by (simp add: addrmap_fixed_transitions)
  then show ?thesis
    using mut.do_find [OF assms, of a] fixed_find_mapped [OF assms ts, of a]
    by (auto simp: addrmap_mutable_find_def mapped_def)
qed

theorem fixed_agrees_with_mutable_witness:
  "\<exists>ts m'. new_addrmap_fixed (new_addrmap_mutable :: string addrmap_mutable) = Inr ts \<and>
    addrmap_mutable_find new_addrmap_mutable 7 = Inr (m', addrmap_fixed_find ts 7) \<and> addrmap_valid m'"
  by (rule fixed_agrees_with_mutable [OF addrmap_mutable_new_valid(1)])

text \<open>relocating a fixed map by an offset moves every answer by that offset, as long as no
  address wraps around.\<close>

theorem fixed_relocate_shifts:
  assumes "\<And>t. t \<in> set ts \<Longrightarrow> unat (tr_addr t) + unat offset < 2 ^ 64"
    and "unat a + unat offset < 2 ^ 64" and "ts \<noteq> []"
  shows "addrmap_fixed_find (addrmap_fixed_relocate ts offset) (a + offset) = addrmap_fixed_find ts a"
  using assms by (rule fixed_find_relocate)

theorem fixed_relocate_shifts_witness:
  "addrmap_fixed_find (addrmap_fixed_relocate
      [\<lparr>tr_addr = 0, tr_value = None\<rparr>, \<lparr>tr_addr = 16, tr_value = Some ''f''\<rparr>] 256) (20 + 256) =
   addrmap_fixed_find [\<lparr>tr_addr = 0, tr_value = None\<rparr>, \<lparr>tr_addr = 16, tr_value = Some ''f''\<rparr>] 20"
  by (rule fixed_relocate_shifts) auto

end
