(* ===== verification/Prologue_Value.thy ===== *)
theory Prologue_Value
  imports Prelude "HOL-Library.Multiset"
begin

text \<open>
  Prologue values and areas (\<^verbatim>\<open>gdb-15.1/gdb/prologue-value.c\<close>): the abstract values that prologue
  analysis computes with, and the ring of stack slots a \<^verbatim>\<open>pv_area\<close> keeps. The values are proved
  conservative against the machine values they stand for, the ring against its order.
\<close>

subsection \<open>Values\<close>

datatype prologue_value_kind = pvk_unknown | pvk_constant | pvk_register

record pv_t =
  pv_kind :: prologue_value_kind
  pv_reg :: int
  pv_k :: CORE_ADDR

definition pv_unknown :: pv_t where
  "pv_unknown = \<lparr>pv_kind = pvk_unknown, pv_reg = 0, pv_k = 0\<rparr>"

definition pv_constant :: "CORE_ADDR \<Rightarrow> pv_t" where
  "pv_constant k = \<lparr>pv_kind = pvk_constant, pv_reg = -1, pv_k = k\<rparr>"

definition pv_register :: "int \<Rightarrow> CORE_ADDR \<Rightarrow> pv_t" where
  "pv_register reg k = \<lparr>pv_kind = pvk_register, pv_reg = reg, pv_k = k\<rparr>"

text \<open>\<open>constant_last\<close> swaps through its two pointers.\<close>

definition constant_last :: "pv_t \<Rightarrow> pv_t \<Rightarrow> pv_t \<times> pv_t" where
  "constant_last a b =
     (if pv_kind a = pvk_constant \<and> pv_kind b \<noteq> pvk_constant then (b, a) else (a, b))"

definition pv_add :: "pv_t \<Rightarrow> pv_t \<Rightarrow> pv_t" where
  "pv_add a0 b0 =
     (let (a, b) = constant_last a0 b0 in
      if pv_kind a = pvk_register \<and> pv_kind b = pvk_constant
      then pv_register (pv_reg a) (pv_k a + pv_k b)
      else if pv_kind a = pvk_constant \<and> pv_kind b = pvk_constant
      then pv_constant (pv_k a + pv_k b)
      else pv_unknown)"

definition pv_add_constant :: "pv_t \<Rightarrow> CORE_ADDR \<Rightarrow> pv_t" where
  "pv_add_constant v k = pv_add v (pv_constant k)"

definition pv_subtract :: "pv_t \<Rightarrow> pv_t \<Rightarrow> pv_t" where
  "pv_subtract a0 b0 =
     (let (a, b) = constant_last a0 b0 in
      if pv_kind a = pvk_constant \<and> pv_kind b = pvk_constant
      then pv_constant (pv_k a - pv_k b)
      else if pv_kind a = pvk_register \<and> pv_kind b = pvk_constant
      then pv_register (pv_reg a) (pv_k a - pv_k b)
      else if pv_kind a = pvk_register \<and> pv_kind b = pvk_register \<and> pv_reg a = pv_reg b
      then pv_constant (pv_k a - pv_k b)
      else pv_unknown)"

definition pv_logical_and :: "pv_t \<Rightarrow> pv_t \<Rightarrow> pv_t" where
  "pv_logical_and a0 b0 =
     (let (a, b) = constant_last a0 b0 in
      if pv_kind a = pvk_constant \<and> pv_kind b = pvk_constant
      then pv_constant (pv_k a AND pv_k b)
      else if pv_kind b = pvk_constant \<and> pv_k b = 0 then pv_constant 0
      else if pv_kind b = pvk_constant \<and> pv_k b = NOT 0 then a
      else if pv_kind a = pvk_register \<and> pv_kind b = pvk_register \<and> pv_reg a = pv_reg b
        \<and> pv_k a = pv_k b then a
      else pv_unknown)"

definition pv_is_identical :: "pv_t \<Rightarrow> pv_t \<Rightarrow> bool" where
  "pv_is_identical a b =
     (if pv_kind a \<noteq> pv_kind b then False
      else (case pv_kind a of
              pvk_unknown \<Rightarrow> True
            | pvk_constant \<Rightarrow> pv_k a = pv_k b
            | pvk_register \<Rightarrow> pv_reg a = pv_reg b \<and> pv_k a = pv_k b))"

definition pv_is_constant :: "pv_t \<Rightarrow> bool" where
  "pv_is_constant a \<longleftrightarrow> pv_kind a = pvk_constant"

definition pv_is_register :: "pv_t \<Rightarrow> int \<Rightarrow> bool" where
  "pv_is_register a r \<longleftrightarrow> pv_kind a = pvk_register \<and> pv_reg a = r"

definition pv_is_register_k :: "pv_t \<Rightarrow> int \<Rightarrow> CORE_ADDR \<Rightarrow> bool" where
  "pv_is_register_k a r k \<longleftrightarrow> pv_kind a = pvk_register \<and> pv_reg a = r \<and> pv_k a = k"

datatype pv_boolean = pv_maybe | pv_definite_yes | pv_definite_no

text \<open>
  The result and what is stored through \<open>i\<close>, an \<open>int\<close>. \<open>None\<close> is the division by zero of a zero
  element size.
\<close>

definition pv_is_array_ref :: "pv_t \<Rightarrow> CORE_ADDR \<Rightarrow> pv_t \<Rightarrow> CORE_ADDR \<Rightarrow> CORE_ADDR \<Rightarrow>
    (pv_boolean \<times> int option) option" where
  "pv_is_array_ref addr sz array_addr array_len elt_size =
     (let offset = pv_subtract addr array_addr in
      if pv_kind offset = pvk_constant
      then
        if pv_k offset \<le> - sz \<and> pv_k offset \<ge> array_len * elt_size
        then Some (pv_definite_no, None)
        else if elt_size = 0 then None
        else if pv_k offset mod elt_size \<noteq> 0 \<or> sz \<noteq> elt_size
        then Some (pv_maybe, None)
        else Some (pv_definite_yes, Some (sint (ucast (pv_k offset div elt_size) :: 32 word)))
      else Some (pv_maybe, None))"

subsection \<open>Areas\<close>

record area_entry =
  offset :: CORE_ADDR
  size_of :: CORE_ADDR
  stored :: pv_t

text \<open>
  The ring is the list of its entries in the order of \<open>next\<close>, from \<open>m_entry\<close> on; \<open>prev\<close> of the head
  is the last one, and the empty list is the null pointer. Following \<open>next\<close> or \<open>prev\<close> rotates it.
\<close>

record pv_area =
  m_base_reg :: int
  m_addr_mask :: CORE_ADDR
  m_entries :: "area_entry list"

definition new_pv_area :: "int \<Rightarrow> nat \<Rightarrow> pv_area" where
  "new_pv_area base_reg addr_bit =
     \<lparr>m_base_reg = base_reg,
      m_addr_mask = push_bit 1 (push_bit (addr_bit - 1) 1 - 1) OR 1,
      m_entries = []\<rparr>"

definition clear_entries :: "pv_area \<Rightarrow> pv_area" where
  "clear_entries area = area\<lparr>m_entries := []\<rparr>"

definition store_would_trash :: "pv_area \<Rightarrow> pv_t \<Rightarrow> bool" where
  "store_would_trash area addr \<longleftrightarrow>
     pv_kind addr = pvk_unknown \<or> pv_kind addr = pvk_constant
   \<or> (pv_kind addr = pvk_register \<and> pv_reg addr \<noteq> m_base_reg area)"

definition distance :: "CORE_ADDR \<Rightarrow> CORE_ADDR \<Rightarrow> area_entry \<Rightarrow> CORE_ADDR" where
  "distance amask off e = (offset e - off) AND amask"

function scan_forward :: "CORE_ADDR \<Rightarrow> CORE_ADDR \<Rightarrow> area_entry list \<Rightarrow> area_entry list" where
  "scan_forward amask off es =
     (case es of
        e # nxt # rest \<Rightarrow>
          if distance amask off nxt < distance amask off e
          then scan_forward amask off (nxt # rest @ [e])
          else es
      | _ \<Rightarrow> es)"
  by pat_completeness auto
termination
  by (relation "measure (\<lambda>(amask, off, es). unat (distance amask off (hd es)))")
     (auto simp: word_less_nat_alt)

function scan_backward :: "CORE_ADDR \<Rightarrow> CORE_ADDR \<Rightarrow> area_entry list \<Rightarrow> area_entry list" where
  "scan_backward amask off es =
     (case es of
        [] \<Rightarrow> es
      | e # rest \<Rightarrow>
          if distance amask off (last es) < distance amask off e
          then scan_backward amask off (last es # butlast es)
          else es)"
  by pat_completeness auto
termination
  by (relation "measure (\<lambda>(amask, off, es). unat (distance amask off (hd es)))")
     (auto simp: word_less_nat_alt)

declare scan_forward.simps [simp del] scan_backward.simps [simp del]

definition find_entry :: "pv_area \<Rightarrow> CORE_ADDR \<Rightarrow> pv_area" where
  "find_entry area off =
     area\<lparr>m_entries := scan_backward (m_addr_mask area) off
            (scan_forward (m_addr_mask area) off (m_entries area))\<rparr>"

definition overlaps :: "CORE_ADDR \<Rightarrow> area_entry \<Rightarrow> CORE_ADDR \<Rightarrow> CORE_ADDR \<Rightarrow> bool" where
  "overlaps amask e off sz \<longleftrightarrow>
     (offset e - off) AND amask < sz \<or> (off - offset e) AND amask < size_of e"

text \<open>Unlinking the head of the ring while it overlaps, until the ring is empty.\<close>

fun delete_overlapping ::
  "CORE_ADDR \<Rightarrow> CORE_ADDR \<Rightarrow> CORE_ADDR \<Rightarrow> area_entry list \<Rightarrow> area_entry list" where
  "delete_overlapping amask off sz [] = []"
| "delete_overlapping amask off sz (e # es) =
     (if overlaps amask e off sz then delete_overlapping amask off sz es else e # es)"

definition store :: "pv_area \<Rightarrow> pv_t \<Rightarrow> CORE_ADDR \<Rightarrow> pv_t \<Rightarrow> pv_area" where
  "store area addr sz v =
     (let area1 =
        (if store_would_trash area addr then clear_entries area
         else let a = find_entry area (pv_k addr)
              in a\<lparr>m_entries := delete_overlapping (m_addr_mask a) (pv_k addr) sz (m_entries a)\<rparr>)
      in if pv_kind v = pvk_unknown then area1
         else area1\<lparr>m_entries := m_entries area1 @
                [\<lparr>offset = pv_k addr, size_of = sz, stored = v\<rparr>]\<rparr>)"

definition fetch :: "pv_area \<Rightarrow> pv_t \<Rightarrow> CORE_ADDR \<Rightarrow> pv_area \<times> pv_t" where
  "fetch area addr sz =
     (if m_entries area = [] \<or> store_would_trash area addr then (area, pv_unknown)
      else
        let a = find_entry area (pv_k addr); e = hd (m_entries a)
        in (a, if offset e = pv_k addr \<and> size_of e = sz then stored e else pv_unknown))"

text \<open>\<open>register_size\<close> of the architecture is a parameter.\<close>

fun find_reg_loop :: "(int \<Rightarrow> CORE_ADDR) \<Rightarrow> int \<Rightarrow> area_entry list \<Rightarrow> CORE_ADDR option" where
  "find_reg_loop register_size reg [] = None"
| "find_reg_loop register_size reg (e # es) =
     (if pv_kind (stored e) = pvk_register \<and> pv_reg (stored e) = reg \<and> pv_k (stored e) = 0
        \<and> size_of e = register_size reg
      then Some (offset e) else find_reg_loop register_size reg es)"

definition find_reg :: "(int \<Rightarrow> CORE_ADDR) \<Rightarrow> pv_area \<Rightarrow> int \<Rightarrow> CORE_ADDR option" where
  "find_reg register_size area reg = find_reg_loop register_size reg (m_entries area)"

definition scan :: "pv_area \<Rightarrow> ('c \<Rightarrow> pv_t \<Rightarrow> CORE_ADDR \<Rightarrow> pv_t \<Rightarrow> 'c) \<Rightarrow> 'c \<Rightarrow> 'c" where
  "scan area func closure =
     fold (\<lambda>e c. func c (pv_register (m_base_reg area) (offset e)) (size_of e) (stored e))
       (m_entries area) closure"

subsection \<open>What a value stands for\<close>

text \<open>
  The machine values a prologue value describes, given the values of the registers on entry to
  the function: the meaning the comments of \<^verbatim>\<open>enum prologue_value_kind\<close> give.
\<close>

definition describes :: "(int \<Rightarrow> CORE_ADDR) \<Rightarrow> pv_t \<Rightarrow> CORE_ADDR \<Rightarrow> bool" where
  "describes entry_regs v x \<longleftrightarrow>
     (case pv_kind v of
        pvk_unknown \<Rightarrow> True
      | pvk_constant \<Rightarrow> x = pv_k v
      | pvk_register \<Rightarrow> x = entry_regs (pv_reg v) + pv_k v)"

lemmas pv_defs = describes_def pv_unknown_def pv_constant_def pv_register_def constant_last_def

lemma pv_add_sound:
  "describes \<rho> a x \<Longrightarrow> describes \<rho> b y \<Longrightarrow> describes \<rho> (pv_add a b) (x + y)"
  by (cases "pv_kind a"; cases "pv_kind b") (simp_all add: pv_add_def pv_defs)

lemma pv_logical_and_sound:
  "describes \<rho> a x \<Longrightarrow> describes \<rho> b y \<Longrightarrow> describes \<rho> (pv_logical_and a b) (x AND y)"
  by (cases "pv_kind a"; cases "pv_kind b") (auto simp: pv_logical_and_def pv_defs)

lemma pv_subtract_sound:
  "describes \<rho> a x \<Longrightarrow> describes \<rho> b y \<Longrightarrow> pv_is_constant a \<longrightarrow> pv_is_constant b \<Longrightarrow>
   describes \<rho> (pv_subtract a b) (x - y)"
  by (cases "pv_kind a"; cases "pv_kind b")
     (auto simp: pv_subtract_def pv_is_constant_def pv_defs)

lemma pv_is_identical_describes:
  "pv_is_identical a b \<Longrightarrow> describes \<rho> a x \<longleftrightarrow> describes \<rho> b x"
  by (cases "pv_kind a"; cases "pv_kind b") (auto simp: pv_is_identical_def pv_defs)

subsection \<open>The ring\<close>

text \<open>
  The order of the ring: from some address on, the entries have increasing distances. The list may
  start anywhere in it.
\<close>

definition closer :: "CORE_ADDR \<Rightarrow> CORE_ADDR \<Rightarrow> area_entry \<Rightarrow> area_entry \<Rightarrow> bool" where
  "closer amask off e f \<longleftrightarrow> distance amask off e < distance amask off f"

definition ring :: "CORE_ADDR \<Rightarrow> area_entry list \<Rightarrow> bool" where
  "ring amask es \<longleftrightarrow> (\<exists>p n s. es = rotate n s \<and> sorted_wrt (closer amask p) s)"

lemma ringI: "sorted_wrt (closer amask p) s \<Longrightarrow> ring amask (rotate n s)"
  by (auto simp: ring_def)

lemma ring_rotate: "ring amask es \<Longrightarrow> ring amask (rotate n es)"
  unfolding ring_def by (metis rotate_rotate)

lemma mset_rotate: "mset (rotate n xs) = mset xs"
  unfolding rotate_drop_take by (metis append_take_drop_id mset_append union_commute)

lemma rotate_back: "es \<noteq> [] \<Longrightarrow> last es # butlast es = rotate (length es - 1) es"
  by (metis append_butlast_last_id length_butlast rotate_append append_Cons append_Nil)

lemma scan_forward_rotates: "\<exists>n. scan_forward amask off es = rotate n es"
proof (induction amask off es rule: scan_forward.induct)
  case (1 amask off es)
  show ?case
  proof (cases es)
    case (Cons e xs)
    show ?thesis
    proof (cases xs)
      case Nil
      then show ?thesis using Cons by (subst scan_forward.simps) (auto intro: exI [of _ 0])
    next
      case (Cons nxt rest)
      note es = \<open>es = e # xs\<close> Cons
      show ?thesis
      proof (cases "distance amask off nxt < distance amask off e")
        case True
        then obtain n where "scan_forward amask off (nxt # rest @ [e]) = rotate n (nxt # rest @ [e])"
          using "1.IH" es by blast
        then have "scan_forward amask off es = rotate n (rotate 1 es)"
          using True es by (subst scan_forward.simps) simp
        then show ?thesis by (metis rotate_rotate)
      next
        case False
        then show ?thesis using es by (subst scan_forward.simps) (auto intro: exI [of _ 0])
      qed
    qed
  qed (subst scan_forward.simps, simp)
qed

lemma scan_backward_rotates:
  "(\<exists>n. scan_backward amask off es = rotate n es) \<and>
   (es \<noteq> [] \<longrightarrow> \<not> closer amask off (last (scan_backward amask off es)) (hd (scan_backward amask off es)))"
proof (induction amask off es rule: scan_backward.induct)
  case (1 amask off es)
  show ?case
  proof (cases es)
    case (Cons e rest)
    show ?thesis
    proof (cases "distance amask off (last es) < distance amask off e")
      case True
      have step: "scan_backward amask off es = scan_backward amask off (last es # butlast es)"
        using True Cons by (subst scan_backward.simps) simp
      have r: "last es # butlast es = rotate (length es - 1) es"
        using Cons by (intro rotate_back) simp
      show ?thesis
        using "1.IH" [OF Cons True] unfolding step r [symmetric]
        by (auto simp: r rotate_rotate)
    next
      case False
      then show ?thesis
        using Cons by (subst (1 2 3) scan_backward.simps) (auto simp: closer_def intro: exI [of _ 0])
    qed
  qed (subst scan_backward.simps, simp)
qed

lemma uint_and_mask:
  "b \<le> 64 \<Longrightarrow> uint ((x - y) AND mask b :: 64 word) = (uint x - uint y) mod 2 ^ b"
  unfolding take_bit_eq_mask [symmetric]
  using mod_mod_cancel [OF le_imp_power_dvd [of b 64 "2::int"], of "uint x - uint y"]
  by (simp add: unsigned_take_bit_eq) (simp add: uint_word_ariths take_bit_eq_mod)

lemma uint_distance_rebase:
  assumes "b \<le> 64"
  shows "uint (distance (mask b) off e) =
    (uint (distance (mask b) p e) - uint ((off - p) AND mask b)) mod 2 ^ b"
proof -
  have "(uint (offset e) - uint off) mod 2 ^ b =
      ((uint (offset e) - uint p) - (uint off - uint p)) mod 2 ^ b" by simp
  then show ?thesis
    using assms by (simp add: distance_def uint_and_mask mod_diff_eq)
qed

lemma mod_diff_cases:
  "0 \<le> d \<Longrightarrow> d < N \<Longrightarrow> 0 \<le> c \<Longrightarrow> c < N \<Longrightarrow>
   (d - c) mod N = (if c \<le> d then d - c else d - c + N)" for d c N :: int
  by (smt (verit) mod_add_self2 mod_pos_pos_trivial)

lemma sorted_split:
  "sorted_wrt R s \<Longrightarrow> (\<And>x y. R x y \<Longrightarrow> P y \<Longrightarrow> P x) \<Longrightarrow> filter P s @ filter (\<lambda>x. \<not> P x) s = s"
proof (induction s)
  case (Cons x s)
  show ?case
  proof (cases "P x")
    case False
    then have "\<forall>y \<in> set s. \<not> P y" using Cons.prems by auto
    then have "filter P s = []" "filter (\<lambda>x. \<not> P x) s = s"
      by (auto simp: filter_empty_conv filter_id_conv)
    then show ?thesis using False by simp
  qed (use Cons in auto)
qed simp

lemma ring_rebase:
  assumes "ring (mask b) es" "b \<le> 64"
  shows "\<exists>n s. es = rotate n s \<and> sorted_wrt (closer (mask b) off) s"
proof -
  obtain p n s where es: "es = rotate n s" and s: "sorted_wrt (closer (mask b) p) s"
    using assms(1) by (auto simp: ring_def)
  define c where "c = uint ((off - p) AND mask b)"
  define d where "d = (\<lambda>e. uint (distance (mask b) p e))"
  have range: "0 \<le> c" "c < 2 ^ b" "\<And>e. 0 \<le> d e" "\<And>e. d e < 2 ^ b"
    using assms(2) by (simp_all add: c_def d_def distance_def uint_and_mask)
  have off: "uint (distance (mask b) off e) = (if c \<le> d e then d e - c else d e - c + 2 ^ b)" for e
    using uint_distance_rebase [OF assms(2), of off e p] mod_diff_cases [OF range(3,4,1,2)]
    by (simp add: c_def d_def)
  have less: "closer (mask b) p e f \<longleftrightarrow> d e < d f" for e f
    by (simp add: closer_def d_def word_less_def)
  let ?A = "filter (\<lambda>e. d e < c) s" and ?B = "filter (\<lambda>e. \<not> d e < c) s"
  have "s = ?A @ ?B"
    using sorted_split [OF s, of "\<lambda>e. d e < c"] less by force
  then have "s = rotate (length ?B) (?B @ ?A)" by (simp only: rotate_append)
  moreover have "sorted_wrt (closer (mask b) off) (?B @ ?A)"
  proof -
    have "sorted_wrt (closer (mask b) off) ?A" "sorted_wrt (closer (mask b) off) ?B"
      using s by (auto simp: sorted_wrt_filter less closer_def word_less_def off d_def
          intro!: sorted_wrt_mono_rel [OF _ sorted_wrt_filter [OF s]])
    moreover have "closer (mask b) off x y" if "x \<in> set ?B" "y \<in> set ?A" for x y
      using that off range(2) range(4) [of x] range(3) [of y]
      by (auto simp: closer_def word_less_def)
    ultimately show ?thesis by (simp add: sorted_wrt_append)
  qed
  ultimately show ?thesis using es by (metis rotate_rotate)
qed

text \<open>The search ends at the first entry at or after the offset.\<close>

lemma find_entry_sorted:
  assumes "ring (m_addr_mask area) (m_entries area)" "m_addr_mask area = mask b" "b \<le> 64"
  shows "sorted_wrt (closer (mask b) off) (m_entries (find_entry area off)) \<and>
    mset (m_entries (find_entry area off)) = mset (m_entries area)"
proof -
  define r where "r = m_entries (find_entry area off)"
  obtain n where n: "r = rotate n (m_entries area)"
    using scan_forward_rotates scan_backward_rotates
    unfolding r_def find_entry_def by simp (metis rotate_rotate)
  have exit: "r \<noteq> [] \<Longrightarrow> \<not> closer (mask b) off (last r) (hd r)"
    using scan_backward_rotates scan_forward_rotates assms(2) n
    unfolding r_def find_entry_def by simp (metis rotate_is_Nil_conv)
  have "ring (mask b) r" using assms(1,2) ring_rotate n by simp
  then obtain k s where s: "r = rotate k s" "sorted_wrt (closer (mask b) off) s"
    using ring_rebase assms(3) by blast
  define j where "j = k mod length s"
  have r: "r = drop j s @ take j s"
    unfolding s(1) j_def by (rule rotate_drop_take)
  have "r = s"
  proof (cases "s = [] \<or> j = 0")
    case False
    then have j: "0 < j" "j < length s" by (auto simp: j_def)
    then have "last r = s ! (j - 1)" "hd r = s ! j"
      by (auto simp: r last_append last_conv_nth hd_append hd_drop_conv_nth min_def)
    moreover have "closer (mask b) off (s ! (j - 1)) (s ! j)"
      using s(2) j by (simp add: sorted_wrt_iff_nth_less)
    ultimately show ?thesis using exit j r by auto
  qed (auto simp: r)
  then show ?thesis using s(2) n r_def mset_rotate by metis
qed

lemma delete_overlapping: "delete_overlapping amask off sz es = dropWhile (\<lambda>e. overlaps amask e off sz) es"
  by (induction es) auto

lemma dropWhile_sorted:
  "sorted_wrt R s \<Longrightarrow> (\<And>x y. R x y \<Longrightarrow> P y \<Longrightarrow> P x) \<Longrightarrow> dropWhile P s = filter (\<lambda>x. \<not> P x) s"
proof (induction s)
  case (Cons x s)
  show ?case
  proof (cases "P x")
    case False
    then have "filter (\<lambda>x. \<not> P x) s = s" using Cons.prems by (auto simp: filter_id_conv)
    then show ?thesis using False by simp
  qed (use Cons in auto)
qed simp

lemma sorted_wrt_dropWhile: "sorted_wrt R s \<Longrightarrow> sorted_wrt R (dropWhile P s)"
  by (metis sorted_wrt_append takeWhile_dropWhile_id)

text \<open>What an area keeps: the mask of its address width and the order of its ring.\<close>

definition area_ok :: "pv_area \<Rightarrow> bool" where
  "area_ok area \<longleftrightarrow> (\<exists>b \<le> 64. m_addr_mask area = mask b) \<and> ring (m_addr_mask area) (m_entries area)"

lemma area_okE:
  assumes "area_ok area"
  obtains b where "b \<le> 64" "m_addr_mask area = mask b" "ring (mask b) (m_entries area)"
  using assms by (auto simp: area_ok_def)

lemma new_pv_area_mask: "0 < n \<Longrightarrow> m_addr_mask (new_pv_area r n) = mask n"
proof (cases n)
  case (Suc m)
  have "push_bit m 1 - 1 = (mask m :: CORE_ADDR)"
    by (simp add: mask_eq_exp_minus_1 push_bit_eq_mult)
  then show ?thesis
    by (simp only: new_pv_area_def Suc mask_Suc_double pv_area.simps diff_Suc_1)
       (simp add: push_bit_eq_mult or.commute mult.commute)
qed simp

lemma new_pv_area_ok: "0 < n \<Longrightarrow> n \<le> 64 \<Longrightarrow> area_ok (new_pv_area r n)"
  using ringI [of _ _ "[]" 0] new_pv_area_mask [of n r]
  by (auto simp: area_ok_def new_pv_area_def)

text \<open>The entries a store that is not trashing leaves, closest first.\<close>

lemma store_kept:
  assumes "area_ok area" "\<not> store_would_trash area addr" "0 < sz"
  obtains b es where "b \<le> 64" "m_addr_mask area = mask b"
    "sorted_wrt (closer (mask b) (pv_k addr)) es"
    "mset es \<subseteq># mset (m_entries area)"
    "\<And>e. e \<in> set es \<Longrightarrow> sz \<le> distance (mask b) (pv_k addr) e"
    "m_entries (store area addr sz v) =
      (if pv_kind v = pvk_unknown then es
       else es @ [\<lparr>offset = pv_k addr, size_of = sz, stored = v\<rparr>])"
    "es = dropWhile (\<lambda>e. overlaps (mask b) e (pv_k addr) sz) (m_entries (find_entry area (pv_k addr)))"
proof -
  obtain b where b: "b \<le> 64" "m_addr_mask area = mask b" "ring (mask b) (m_entries area)"
    using assms(1) by (rule area_okE)
  let ?off = "pv_k addr"
  define r where "r = m_entries (find_entry area ?off)"
  define es where "es = dropWhile (\<lambda>e. overlaps (mask b) e ?off sz) r"
  have r: "sorted_wrt (closer (mask b) ?off) r" "mset r = mset (m_entries area)"
    using find_entry_sorted [of area b ?off] b by (auto simp: r_def)
  have es: "sorted_wrt (closer (mask b) ?off) es"
    unfolding es_def by (rule sorted_wrt_dropWhile [OF r(1)])
  have far: "sz \<le> distance (mask b) ?off e" if "e \<in> set es" for e
  proof (cases es)
    case (Cons f fs)
    then have "\<not> overlaps (mask b) f ?off sz"
      using hd_dropWhile [of "\<lambda>e. overlaps (mask b) e ?off sz" r] by (auto simp: es_def)
    then have "sz \<le> distance (mask b) ?off f" by (auto simp: overlaps_def distance_def not_less)
    then show ?thesis using that es Cons by (auto simp: closer_def)
  qed (use that in simp)
  have "mset es \<subseteq># mset (m_entries area)"
    using r(2) es_def by (metis mset_subset_eq_add_right mset_append takeWhile_dropWhile_id)
  moreover have "m_entries (store area addr sz v) =
      (if pv_kind v = pvk_unknown then es
       else es @ [\<lparr>offset = ?off, size_of = sz, stored = v\<rparr>])"
    using assms(2) b(2)
    by (simp add: store_def Let_def delete_overlapping es_def r_def) (simp add: find_entry_def)
  ultimately show thesis using that b(1,2) es far es_def r_def by blast
qed

lemma store_keeps_mask: "m_addr_mask (store area addr sz v) = m_addr_mask area"
  "m_base_reg (store area addr sz v) = m_base_reg area"
  by (simp_all add: store_def Let_def clear_entries_def find_entry_def)

lemma store_ok:
  assumes "area_ok area" "0 < sz"
  shows "area_ok (store area addr sz v)"
proof (cases "store_would_trash area addr")
  case True
  then have "m_entries (store area addr sz v) = [] \<or> (\<exists>e. m_entries (store area addr sz v) = [e])"
    by (auto simp: store_def Let_def clear_entries_def)
  then have "ring (m_addr_mask area) (m_entries (store area addr sz v))"
    using ringI [of _ _ "[]" 0] ringI [of _ _ "[_]" 0] by auto
  then show ?thesis using assms(1) by (simp add: area_ok_def store_keeps_mask)
next
  case False
  obtain b es where es: "b \<le> 64" "m_addr_mask area = mask b"
    "sorted_wrt (closer (mask b) (pv_k addr)) es"
    "\<And>e. e \<in> set es \<Longrightarrow> sz \<le> distance (mask b) (pv_k addr) e"
    "m_entries (store area addr sz v) =
      (if pv_kind v = pvk_unknown then es
       else es @ [\<lparr>offset = pv_k addr, size_of = sz, stored = v\<rparr>])"
    using store_kept [OF assms(1) False assms(2)] by metis
  let ?new = "\<lparr>offset = pv_k addr, size_of = sz, stored = v\<rparr>"
  have "closer (mask b) (pv_k addr) ?new e" if "e \<in> set es" for e
    using es(4) [OF that] assms(2) by (simp add: closer_def distance_def)
  then have "ring (mask b) (rotate 1 (?new # es))"
    using es(3) by (intro ringI [of _ "pv_k addr"]) simp
  then have "ring (mask b) (m_entries (store area addr sz v))"
    using es(5) ringI [OF es(3), of 0] by simp
  then show ?thesis using es(1,2) by (auto simp: area_ok_def store_keeps_mask)
qed

lemma fetch_ok: "area_ok area \<Longrightarrow> area_ok (fst (fetch area addr sz))"
proof -
  assume a: "area_ok area"
  obtain n where "m_entries (find_entry area (pv_k addr)) = rotate n (m_entries area)"
    using scan_forward_rotates scan_backward_rotates
    unfolding find_entry_def by simp (metis rotate_rotate)
  then have "area_ok (find_entry area (pv_k addr))"
    using a ring_rotate unfolding area_ok_def by (simp add: find_entry_def)
  then show ?thesis using a by (simp add: fetch_def Let_def)
qed

lemma fetch_store:
  assumes "area_ok area" "\<not> store_would_trash area addr" "0 < sz" "pv_kind v \<noteq> pvk_unknown"
  shows "snd (fetch (store area addr sz v) addr sz) = v"
proof -
  let ?new = "\<lparr>offset = pv_k addr, size_of = sz, stored = v\<rparr>"
  let ?a = "store area addr sz v"
  obtain b where b: "b \<le> 64" "m_addr_mask ?a = mask b" "ring (mask b) (m_entries ?a)"
    using store_ok [OF assms(1,3)] by (rule area_okE)
  define r where "r = m_entries (find_entry ?a (pv_k addr))"
  have r: "sorted_wrt (closer (mask b) (pv_k addr)) r" "mset r = mset (m_entries ?a)"
    using find_entry_sorted [of ?a b] b by (auto simp: r_def)
  have "?new \<in> set (m_entries ?a)"
    using assms(2,4) by (simp add: store_def Let_def)
  then have "?new \<in> set r" using r(2) by (metis set_mset_mset)
  then obtain e es where e: "r = e # es" by (cases r) auto
  have "e = ?new"
  proof (rule ccontr)
    assume "e \<noteq> ?new"
    then have "closer (mask b) (pv_k addr) e ?new" using \<open>?new \<in> set r\<close> r(1) e by auto
    then show False by (simp add: closer_def distance_def)
  qed
  moreover have "m_entries ?a \<noteq> []" using \<open>?new \<in> set (m_entries ?a)\<close> by auto
  ultimately show ?thesis
    using assms(2) e by (auto simp: fetch_def Let_def r_def [symmetric] store_would_trash_def store_keeps_mask)
qed

text \<open>No entry starts before the offset and reaches past it.\<close>

definition straddled :: "pv_area \<Rightarrow> CORE_ADDR \<Rightarrow> bool" where
  "straddled area off \<longleftrightarrow> (\<exists>e \<in> set (m_entries area).
     (off - offset e) AND m_addr_mask area \<noteq> 0 \<and> (off - offset e) AND m_addr_mask area < size_of e)"

lemma and_mask_swap:
  "b \<le> 64 \<Longrightarrow> (x - y) AND mask b = (0 :: 64 word) \<longleftrightarrow> (y - x) AND mask b = 0"
  by (metis mod_0_imp_dvd dvd_minus_iff minus_diff_eq uint_0_eq uint_0_iff uint_and_mask dvd_imp_mod_0)

lemma store_exact:
  assumes "area_ok area" "\<not> store_would_trash area addr" "0 < sz" "\<not> straddled area (pv_k addr)"
  shows "set (m_entries (store area addr sz v)) =
    {e \<in> set (m_entries area). \<not> overlaps (m_addr_mask area) e (pv_k addr) sz} \<union>
    (if pv_kind v = pvk_unknown then {} else {\<lparr>offset = pv_k addr, size_of = sz, stored = v\<rparr>})"
proof -
  obtain b es where es: "b \<le> 64" "m_addr_mask area = mask b"
    "m_entries (store area addr sz v) =
      (if pv_kind v = pvk_unknown then es
       else es @ [\<lparr>offset = pv_k addr, size_of = sz, stored = v\<rparr>])"
    "es = dropWhile (\<lambda>e. overlaps (mask b) e (pv_k addr) sz) (m_entries (find_entry area (pv_k addr)))"
    using store_kept [OF assms(1-3)] by metis
  define r where "r = m_entries (find_entry area (pv_k addr))"
  have r: "sorted_wrt (closer (mask b) (pv_k addr)) r" "mset r = mset (m_entries area)"
    using find_entry_sorted [of area b] assms(1) es(1,2) by (auto simp: r_def area_ok_def)
  then have set_r: "set r = set (m_entries area)" by (metis set_mset_mset)
  have near: "overlaps (mask b) e (pv_k addr) sz \<longleftrightarrow> distance (mask b) (pv_k addr) e < sz"
    if "e \<in> set r" for e
    using that assms(3,4) set_r es(2) and_mask_swap [OF es(1), of "pv_k addr" "offset e"]
    by (auto simp: overlaps_def distance_def straddled_def)
  have "es = dropWhile (\<lambda>e. distance (mask b) (pv_k addr) e < sz) r"
    unfolding es(4) r_def [symmetric] by (rule dropWhile_cong [OF refl near])
  also have "\<dots> = filter (\<lambda>e. \<not> distance (mask b) (pv_k addr) e < sz) r"
    using r(1) by (rule dropWhile_sorted) (auto simp: closer_def)
  finally have "set es = {e \<in> set (m_entries area). \<not> overlaps (mask b) e (pv_k addr) sz}"
    using near set_r by auto
  then show ?thesis using es(2,3) by auto
qed

subsection \<open>Array references\<close>

lemma pv_subtract_constant:
  assumes "describes \<rho> a x" "describes \<rho> b y" "pv_is_constant a \<longrightarrow> pv_is_constant b"
    "pv_kind (pv_subtract a b) = pvk_constant"
  shows "pv_k (pv_subtract a b) = x - y"
  using pv_subtract_sound [OF assms(1-3)] assms(4) by (simp add: describes_def)

lemma unat_less_64: "unat (x :: 64 word) < 2 ^ 64"
  by (rule order_less_le_trans [OF unsigned_less]) simp

lemma unat_minus_word:
  assumes "x \<noteq> (0 :: 64 word)" shows "unat (- x) = 2 ^ 64 - unat x"
proof -
  have "uint x \<noteq> 0" using assms by (metis uint_0_iff)
  moreover have "uint x < 2 ^ 64" using uint_bounded [of x] by simp
  ultimately have "uint (- x) = 2 ^ 64 - uint x"
    by (simp add: uint_word_ariths zmod_zminus1_eq_if)
  then have "int (unat (- x)) + int (unat x) = int (2 ^ 64)" by simp
  then have "unat (- x) + unat x = 2 ^ 64" by (simp only: of_nat_add [symmetric] of_nat_eq_iff)
  then show ?thesis by (metis add_diff_cancel_right')
qed

lemma array_miss:
  fixes o' :: "64 word"
  assumes "o' \<le> - sz" "len \<le> o'" "j < sz" "k < len"
  shows "o' + j \<noteq> k"
proof
  assume k: "o' + j = k"
  have "unat (- sz) = 2 ^ 64 - unat sz"
    using assms(3) by (intro unat_minus_word) auto
  then have "unat o' + unat j < 2 ^ 64"
    using assms(1,3) unat_less_64 [of sz] by (auto simp: word_le_nat_alt word_less_nat_alt)
  then have "unat (o' + j) = unat o' + unat j" by (simp add: unat_word_ariths)
  then show False using k assms(2,4) by (simp add: word_le_nat_alt word_less_nat_alt)
qed

lemma array_hit:
  fixes o' :: "64 word"
  assumes "\<not> (o' \<le> - e \<and> len * e \<le> o')" "o' mod e = 0" "unat e dvd 2 ^ 64"
    "unat len * unat e < 2 ^ 64" "unat len \<le> 2 ^ 31"
  shows "0 \<le> sint (ucast (o' div e) :: 32 word) \<and>
    nat (sint (ucast (o' div e) :: 32 word)) < unat len \<and>
    o' = of_int (sint (ucast (o' div e) :: 32 word)) * e"
proof -
  have e: "0 < unat e" using assms(3) by (auto intro: gr0I)
  obtain q where q: "unat o' = unat e * q" "unat (o' div e) = q"
    using assms(2) e by (metis dvdE dvd_eq_mod_eq_0 nonzero_mult_div_cancel_left unat_0 unat_div
        unat_mod less_numeral_extra(3))
  have wrap: "unat (len * e) = unat len * unat e"
    using assms(4) by (simp add: unat_word_ariths)
  have "unat o' < unat len * unat e"
  proof (rule ccontr)
    assume "\<not> unat o' < unat len * unat e"
    then have "\<not> o' \<le> - e"
      using assms(1) wrap by (simp add: word_le_nat_alt)
    moreover have "unat (- e) = 2 ^ 64 - unat e"
      using e by (intro unat_minus_word) auto
    ultimately have big: "2 ^ 64 - unat e < unat o'" by (simp add: word_le_nat_alt)
    obtain r where r: "2 ^ 64 = unat e * r" using assms(3) by (auto simp: dvd_def)
    have "unat e * (r - 1) < unat e * q"
      using big r q(1) by (simp add: right_diff_distrib')
    then have "r \<le> q" by auto
    then have "unat e * r \<le> unat e * q" by simp
    then show False using unat_less_64 [of o'] q(1) r by linarith
  qed
  then have lt: "q < unat len" using q(1) e by (simp add: mult.commute)
  have s: "sint (ucast (o' div e) :: 32 word) = int q"
  proof -
    have "unat (ucast (o' div e) :: 32 word) = q"
      using lt assms(5) q(2) by (simp add: unsigned_ucast_eq take_bit_nat_eq_self)
    then have "uint (ucast (o' div e) :: 32 word) = int q" by (metis of_nat_unat)
    then show ?thesis
      using lt assms(5) by (simp add: sint_uint signed_take_bit_int_eq_self)
  qed
  have "o' = of_nat q * e"
    using q(1) by (metis mult.commute of_nat_mult of_nat_unat ucast_id)
  then show ?thesis using s lt q(2) by simp
qed

subsection \<open>Properties\<close>

text \<open>C35: the arithmetic of prologue values is conservative: if two values describe two machine
  values, the result of \<^verbatim>\<open>pv_add\<close>, \<^verbatim>\<open>pv_logical_and\<close> and \<^verbatim>\<open>pv_subtract\<close> describes the result of the
  64-bit operation, wrap-around included. \<^verbatim>\<open>pv_subtract\<close> is conservative unless its first operand is a
  constant and its second is not; there it swaps its operands.\<close>

theorem pv_arithmetic_conservative:
  assumes "describes \<rho> a x" and "describes \<rho> b y"
  shows "describes \<rho> (pv_add a b) (x + y) \<and> describes \<rho> (pv_add_constant a k) (x + k) \<and>
    describes \<rho> (pv_logical_and a b) (x AND y) \<and>
    (pv_is_constant a \<and> \<not> pv_is_constant b \<or> describes \<rho> (pv_subtract a b) (x - y))"
proof -
  have "describes \<rho> (pv_constant k) k" by (simp add: pv_defs)
  then have "describes \<rho> (pv_add_constant a k) (x + k)"
    unfolding pv_add_constant_def by (rule pv_add_sound [OF assms(1)])
  then show ?thesis
    using pv_add_sound [OF assms] pv_logical_and_sound [OF assms] pv_subtract_sound [OF assms] by blast
qed

theorem pv_arithmetic_conservative_witness:
  "describes (\<lambda>r. 4096) (pv_add (pv_register 29 (-16)) (pv_constant 8)) 4088"
  using pv_arithmetic_conservative [of "\<lambda>r. 4096" "pv_register 29 (-16)" 4080 "pv_constant 8" 8 0]
  by (simp add: pv_defs)

text \<open>A constant minus a register plus \<open>k\<close> is reported as that register plus an offset.\<close>

lemma pv_subtract_constant_first:
  "pv_subtract (pv_constant c) (pv_register r k) = pv_register r (k - c)"
  "describes (\<lambda>r. 8192) (pv_constant 4096) 4096 \<and> describes (\<lambda>r. 8192) (pv_register 1 0) 8192 \<and>
   \<not> describes (\<lambda>r. 8192) (pv_subtract (pv_constant 4096) (pv_register 1 0)) (4096 - 8192)"
  by (simp_all add: pv_subtract_def pv_defs)

text \<open>\<^verbatim>\<open>pv_is_array_ref\<close> is right on the number circle of addresses: a definite yes means the
  reference is exactly the element whose index it stores, and the index is in range; a definite no
  means that no byte of the reference is a byte of the array. The element size must divide the size
  of the address space, the array must not wrap and its indices must fit an \<^verbatim>\<open>int\<close>.\<close>

theorem pv_is_array_ref_exact:
  assumes "describes \<rho> addr x" and "describes \<rho> array y"
    and "\<not> pv_is_constant addr \<or> pv_is_constant array"
    and "unat e dvd 2 ^ 64" and "unat len * unat e < 2 ^ 64" and "unat len \<le> 2 ^ 31"
  shows "case pv_is_array_ref addr sz array len e of
      Some (pv_definite_yes, Some i) \<Rightarrow>
        sz = e \<and> 0 \<le> i \<and> nat i < unat len \<and> x = y + of_int i * e
    | Some (pv_definite_yes, None) \<Rightarrow> False
    | Some (pv_definite_no, _) \<Rightarrow> (\<forall>j k. j < sz \<and> k < len * e \<longrightarrow> x + j \<noteq> y + k)
    | Some (pv_maybe, _) \<Rightarrow> True
    | None \<Rightarrow> False"
proof (cases "pv_kind (pv_subtract addr array) = pvk_constant")
  case True
  define d where "d = pv_k (pv_subtract addr array)"
  have d: "x = y + d"
    using pv_subtract_constant [OF assms(1,2) _ True] assms(3) by (simp add: d_def)
  have e: "e \<noteq> 0" using assms(4) by auto
  show ?thesis
  proof (cases "d \<le> - sz \<and> len * e \<le> d")
    case no: True
    then have "x + j \<noteq> y + k" if "j < sz" "k < len * e" for j k
      using array_miss [of d sz "len * e" j k] that by (simp add: d add.assoc)
    then show ?thesis
      using True no by (simp add: pv_is_array_ref_def Let_def d_def)
  next
    case yes: False
    show ?thesis
    proof (cases "d mod e = 0 \<and> sz = e")
      case hit: True
      define i where "i = sint (ucast (d div e) :: 32 word)"
      have i: "0 \<le> i \<and> nat i < unat len \<and> d = of_int i * e"
        unfolding i_def
      proof (rule array_hit [OF _ _ assms(4-6)])
        show "\<not> (d \<le> - e \<and> len * e \<le> d)" "d mod e = 0" using hit yes by blast+
      qed
      moreover have "pv_is_array_ref addr sz array len e = Some (pv_definite_yes, Some i)"
        using True yes hit e by (simp add: pv_is_array_ref_def Let_def d_def i_def)
      ultimately show ?thesis using hit d by simp
    next
      case False
      then have "pv_is_array_ref addr sz array len e = Some (pv_maybe, None)"
        using True yes e by (auto simp add: pv_is_array_ref_def Let_def d_def)
      then show ?thesis by simp
    qed
  qed
qed (simp add: pv_is_array_ref_def Let_def)

theorem pv_is_array_ref_exact_witness:
  "pv_is_array_ref (pv_register 1 24) 8 (pv_register 1 0) 16 8 = Some (pv_definite_yes, Some 3) \<and>
   (case pv_is_array_ref (pv_register 1 24) 8 (pv_register 1 0) 16 8 of
      Some (pv_definite_yes, Some i) \<Rightarrow> (4120 :: CORE_ADDR) = 4096 + of_int i * 8 | _ \<Rightarrow> False)"
proof -
  have run: "pv_is_array_ref (pv_register 1 24) 8 (pv_register 1 0) 16 8 = Some (pv_definite_yes, Some 3)"
    by (simp add: pv_is_array_ref_def pv_subtract_def pv_defs)
  have "describes (\<lambda>r. 4096) (pv_register 1 24) 4120" "describes (\<lambda>r. 4096) (pv_register 1 0) 4096"
    "\<not> pv_is_constant (pv_register 1 24) \<or> pv_is_constant (pv_register 1 0)"
    "unat (8 :: CORE_ADDR) dvd 2 ^ 64" "unat (16 :: CORE_ADDR) * unat (8 :: CORE_ADDR) < 2 ^ 64"
    "unat (16 :: CORE_ADDR) \<le> 2 ^ 31"
    by (simp_all add: pv_defs pv_is_constant_def)
  from pv_is_array_ref_exact [OF this, of 8] run show ?thesis by (simp only: run) simp
qed

text \<open>With three-byte elements, a reference that starts one byte before the array is an element.\<close>

lemma pv_is_array_ref_straddling:
  "map_option fst (pv_is_array_ref (pv_register 1 (-1)) 3 (pv_register 1 0) 4 3) = Some pv_definite_yes"
  by (simp add: Let_def pv_is_array_ref_def pv_subtract_def pv_defs word_le_def unsigned_minus_1_eq_mask mask_eq_exp_minus_1)

text \<open>Every store keeps the ring of an area sorted on the number circle, and a fetch does as
  well. A value stored at an address relative to the base register is what a fetch of the same
  address and size returns, wherever \<^verbatim>\<open>m_entry\<close> points and whatever the store deleted.\<close>

theorem area_store_then_fetch:
  assumes "area_ok area" and "0 < sz"
  shows "area_ok (store area addr sz v) \<and> area_ok (fst (fetch area addr' sz')) \<and>
    (store_would_trash area addr \<or> pv_kind v = pvk_unknown \<or>
     snd (fetch (store area addr sz v) addr sz) = v)"
  using store_ok [OF assms] fetch_ok [OF assms(1)] fetch_store [OF assms(1) _ assms(2)] by blast

theorem area_store_then_fetch_witness:
  "snd (fetch (store (new_pv_area 29 64) (pv_register 29 (-8)) 8 (pv_register 31 0))
     (pv_register 29 (-8)) 8) = pv_register 31 0"
  using area_store_then_fetch [OF new_pv_area_ok [of 64 29], of 8 "pv_register 29 (-8)" "pv_register 31 0"]
  by (simp add: store_would_trash_def new_pv_area_def pv_register_def)

text \<open>When no entry starts before the stored address and reaches past it, a store removes exactly
  the entries that overlap the stored bytes and keeps all others.\<close>

theorem area_store_exact:
  assumes "area_ok area" and "\<not> store_would_trash area addr" and "0 < sz"
    and "\<not> straddled area (pv_k addr)"
  shows "set (m_entries (store area addr sz v)) =
    {e \<in> set (m_entries area). \<not> overlaps (m_addr_mask area) e (pv_k addr) sz} \<union>
    (if pv_kind v = pvk_unknown then {} else {\<lparr>offset = pv_k addr, size_of = sz, stored = v\<rparr>})"
  using assms by (rule store_exact)

theorem area_store_exact_witness:
  "m_entries (store (new_pv_area 29 64) (pv_register 29 4) 8 (pv_constant 1)) =
     [\<lparr>offset = 4, size_of = 8, stored = pv_constant 1\<rparr>] \<and>
   set (m_entries (store (new_pv_area 29 64) (pv_register 29 4) 8 (pv_constant 1))) =
     {\<lparr>offset = 4, size_of = 8, stored = pv_constant 1\<rparr>}"
  using area_store_exact [OF new_pv_area_ok [of 64 29], of "pv_register 29 4" 8 "pv_constant 1"]
  by (simp add: store_would_trash_def new_pv_area_def pv_defs straddled_def store_def find_entry_def
      Let_def scan_forward.simps scan_backward.simps)

text \<open>
  Without that condition a store keeps an entry that it partly overwrites, and the entry is still
  fetched: the search goes to the first entry after the offset, and the deletion stops there.
\<close>

definition straddled_area :: pv_area where
  "straddled_area =
     (let area0 = store (new_pv_area 29 64) (pv_register 29 0) 8 (pv_constant 1);
          area1 = store area0 (pv_register 29 100) 8 (pv_constant 2)
      in store area1 (pv_register 29 4) 4 (pv_constant 3))"

lemma straddled_fetch:
  "snd (fetch straddled_area (pv_register 29 0) 8) = pv_constant 1"
  by (simp add: straddled_area_def Let_def store_def find_entry_def scan_forward.simps
      scan_backward.simps store_would_trash_def new_pv_area_def pv_defs distance_def overlaps_def
      fetch_def)

text \<open>A store that trashes an area still enters the value, at the offset the address carries.\<close>

lemma trashing_store_enters:
  "m_entries (store (new_pv_area 29 64) pv_unknown 8 (pv_constant 3)) =
     [\<lparr>offset = 0, size_of = 8, stored = pv_constant 3\<rparr>]"
  by (simp add: store_def store_would_trash_def new_pv_area_def clear_entries_def pv_defs)

end
