(* ===== verification/Agent_Expr.thy ===== *)
theory Agent_Expr
  imports Prelude
begin

text \<open>
  Agent expressions (\<^verbatim>\<open>gdb-15.1/gdb/ax-general.c\<close>, \<^verbatim>\<open>gdb/ax.h\<close>, \<^verbatim>\<open>gdbsupport/ax.def\<close>): the opcode
  table, the functions that append bytecodes, the disassembler and the verifier \<open>ax_reqs\<close>, which
  is proved sound for executions at the level of offsets and stack heights. The architecture
  (\<^verbatim>\<open>struct gdbarch\<close>) is a parameter.
\<close>

type_synonym LONGEST = "64 word"

subsection \<open>The opcode table\<close>

datatype agent_op =
  aop_float | aop_add | aop_sub | aop_mul | aop_div_signed | aop_div_unsigned | aop_rem_signed
  | aop_rem_unsigned | aop_lsh | aop_rsh_signed | aop_rsh_unsigned | aop_trace
  | aop_trace_quick | aop_log_not | aop_bit_and | aop_bit_or | aop_bit_xor | aop_bit_not
  | aop_equal | aop_less_signed | aop_less_unsigned | aop_ext | aop_ref8 | aop_ref16
  | aop_ref32 | aop_ref64 | aop_ref_float | aop_ref_double | aop_ref_long_double | aop_l_to_d
  | aop_d_to_l | aop_if_goto | aop_goto | aop_const8 | aop_const16 | aop_const32
  | aop_const64 | aop_reg | aop_end | aop_dup | aop_pop | aop_zero_ext | aop_swap | aop_getv
  | aop_setv | aop_tracev | aop_tracenz | aop_trace16 | aop_invalid2 | aop_pick | aop_rot
  | aop_printf

text \<open>\<open>DEFOP (name, size, data_size, consumed, produced, opcode)\<close>.\<close>

fun aop_map :: "agent_op \<Rightarrow> string \<times> nat \<times> nat \<times> nat \<times> nat" where
  "aop_map aop_float = (''float'', 0, 0, 0, 0)"
| "aop_map aop_add = (''add'', 0, 0, 2, 1)"
| "aop_map aop_sub = (''sub'', 0, 0, 2, 1)"
| "aop_map aop_mul = (''mul'', 0, 0, 2, 1)"
| "aop_map aop_div_signed = (''div_signed'', 0, 0, 2, 1)"
| "aop_map aop_div_unsigned = (''div_unsigned'', 0, 0, 2, 1)"
| "aop_map aop_rem_signed = (''rem_signed'', 0, 0, 2, 1)"
| "aop_map aop_rem_unsigned = (''rem_unsigned'', 0, 0, 2, 1)"
| "aop_map aop_lsh = (''lsh'', 0, 0, 2, 1)"
| "aop_map aop_rsh_signed = (''rsh_signed'', 0, 0, 2, 1)"
| "aop_map aop_rsh_unsigned = (''rsh_unsigned'', 0, 0, 2, 1)"
| "aop_map aop_trace = (''trace'', 0, 0, 2, 0)"
| "aop_map aop_trace_quick = (''trace_quick'', 1, 0, 1, 1)"
| "aop_map aop_log_not = (''log_not'', 0, 0, 1, 1)"
| "aop_map aop_bit_and = (''bit_and'', 0, 0, 2, 1)"
| "aop_map aop_bit_or = (''bit_or'', 0, 0, 2, 1)"
| "aop_map aop_bit_xor = (''bit_xor'', 0, 0, 2, 1)"
| "aop_map aop_bit_not = (''bit_not'', 0, 0, 1, 1)"
| "aop_map aop_equal = (''equal'', 0, 0, 2, 1)"
| "aop_map aop_less_signed = (''less_signed'', 0, 0, 2, 1)"
| "aop_map aop_less_unsigned = (''less_unsigned'', 0, 0, 2, 1)"
| "aop_map aop_ext = (''ext'', 1, 0, 1, 1)"
| "aop_map aop_ref8 = (''ref8'', 0, 8, 1, 1)"
| "aop_map aop_ref16 = (''ref16'', 0, 16, 1, 1)"
| "aop_map aop_ref32 = (''ref32'', 0, 32, 1, 1)"
| "aop_map aop_ref64 = (''ref64'', 0, 64, 1, 1)"
| "aop_map aop_ref_float = (''ref_float'', 0, 0, 1, 1)"
| "aop_map aop_ref_double = (''ref_double'', 0, 0, 1, 1)"
| "aop_map aop_ref_long_double = (''ref_long_double'', 0, 0, 1, 1)"
| "aop_map aop_l_to_d = (''l_to_d'', 0, 0, 1, 1)"
| "aop_map aop_d_to_l = (''d_to_l'', 0, 0, 1, 1)"
| "aop_map aop_if_goto = (''if_goto'', 2, 0, 1, 0)"
| "aop_map aop_goto = (''goto'', 2, 0, 0, 0)"
| "aop_map aop_const8 = (''const8'', 1, 8, 0, 1)"
| "aop_map aop_const16 = (''const16'', 2, 16, 0, 1)"
| "aop_map aop_const32 = (''const32'', 4, 32, 0, 1)"
| "aop_map aop_const64 = (''const64'', 8, 64, 0, 1)"
| "aop_map aop_reg = (''reg'', 2, 0, 0, 1)"
| "aop_map aop_end = (''end'', 0, 0, 0, 0)"
| "aop_map aop_dup = (''dup'', 0, 0, 1, 2)"
| "aop_map aop_pop = (''pop'', 0, 0, 1, 0)"
| "aop_map aop_zero_ext = (''zero_ext'', 1, 0, 1, 1)"
| "aop_map aop_swap = (''swap'', 0, 0, 2, 2)"
| "aop_map aop_getv = (''getv'', 2, 0, 0, 1)"
| "aop_map aop_setv = (''setv'', 2, 0, 1, 1)"
| "aop_map aop_tracev = (''tracev'', 2, 0, 0, 1)"
| "aop_map aop_tracenz = (''tracenz'', 0, 0, 2, 0)"
| "aop_map aop_trace16 = (''trace16'', 2, 0, 1, 1)"
| "aop_map aop_invalid2 = (''invalid2'', 0, 0, 0, 0)"
| "aop_map aop_pick = (''pick'', 1, 0, 0, 1)"
| "aop_map aop_rot = (''rot'', 0, 0, 3, 3)"
| "aop_map aop_printf = (''printf'', 0, 0, 0, 0)"

fun opcode :: "agent_op \<Rightarrow> uint8" where
  "opcode aop_float = 0x01"
| "opcode aop_add = 0x02"
| "opcode aop_sub = 0x03"
| "opcode aop_mul = 0x04"
| "opcode aop_div_signed = 0x05"
| "opcode aop_div_unsigned = 0x06"
| "opcode aop_rem_signed = 0x07"
| "opcode aop_rem_unsigned = 0x08"
| "opcode aop_lsh = 0x09"
| "opcode aop_rsh_signed = 0x0a"
| "opcode aop_rsh_unsigned = 0x0b"
| "opcode aop_trace = 0x0c"
| "opcode aop_trace_quick = 0x0d"
| "opcode aop_log_not = 0x0e"
| "opcode aop_bit_and = 0x0f"
| "opcode aop_bit_or = 0x10"
| "opcode aop_bit_xor = 0x11"
| "opcode aop_bit_not = 0x12"
| "opcode aop_equal = 0x13"
| "opcode aop_less_signed = 0x14"
| "opcode aop_less_unsigned = 0x15"
| "opcode aop_ext = 0x16"
| "opcode aop_ref8 = 0x17"
| "opcode aop_ref16 = 0x18"
| "opcode aop_ref32 = 0x19"
| "opcode aop_ref64 = 0x1a"
| "opcode aop_ref_float = 0x1b"
| "opcode aop_ref_double = 0x1c"
| "opcode aop_ref_long_double = 0x1d"
| "opcode aop_l_to_d = 0x1e"
| "opcode aop_d_to_l = 0x1f"
| "opcode aop_if_goto = 0x20"
| "opcode aop_goto = 0x21"
| "opcode aop_const8 = 0x22"
| "opcode aop_const16 = 0x23"
| "opcode aop_const32 = 0x24"
| "opcode aop_const64 = 0x25"
| "opcode aop_reg = 0x26"
| "opcode aop_end = 0x27"
| "opcode aop_dup = 0x28"
| "opcode aop_pop = 0x29"
| "opcode aop_zero_ext = 0x2a"
| "opcode aop_swap = 0x2b"
| "opcode aop_getv = 0x2c"
| "opcode aop_setv = 0x2d"
| "opcode aop_tracev = 0x2e"
| "opcode aop_tracenz = 0x2f"
| "opcode aop_trace16 = 0x30"
| "opcode aop_invalid2 = 0x31"
| "opcode aop_pick = 0x32"
| "opcode aop_rot = 0x33"
| "opcode aop_printf = 0x34"

definition op_name :: "agent_op \<Rightarrow> string" where
  "op_name p = fst (aop_map p)"

definition op_size :: "agent_op \<Rightarrow> nat" where
  "op_size p = fst (snd (aop_map p))"

definition data_size :: "agent_op \<Rightarrow> nat" where
  "data_size p = fst (snd (snd (aop_map p)))"

definition consumed :: "agent_op \<Rightarrow> nat" where
  "consumed p = fst (snd (snd (snd (aop_map p))))"

definition produced :: "agent_op \<Rightarrow> nat" where
  "produced p = snd (snd (snd (snd (aop_map p))))"

text \<open>The table as the code indexes it: entry 0 has no name, and the bytes past the end are none.\<close>

definition all_ops :: "agent_op list" where
  "all_ops =
   [aop_float, aop_add, aop_sub, aop_mul, aop_div_signed, aop_div_unsigned, aop_rem_signed
   , aop_rem_unsigned, aop_lsh, aop_rsh_signed, aop_rsh_unsigned, aop_trace, aop_trace_quick
   , aop_log_not, aop_bit_and, aop_bit_or, aop_bit_xor, aop_bit_not, aop_equal
   , aop_less_signed, aop_less_unsigned, aop_ext, aop_ref8, aop_ref16, aop_ref32, aop_ref64
   , aop_ref_float, aop_ref_double, aop_ref_long_double, aop_l_to_d, aop_d_to_l, aop_if_goto
   , aop_goto, aop_const8, aop_const16, aop_const32, aop_const64, aop_reg, aop_end, aop_dup
   , aop_pop, aop_zero_ext, aop_swap, aop_getv, aop_setv, aop_tracev, aop_tracenz, aop_trace16
   , aop_invalid2, aop_pick, aop_rot, aop_printf]"

definition agent_op_of :: "uint8 \<Rightarrow> agent_op option" where
  "agent_op_of b =
     (if unat b = 0 \<or> unat b > length all_ops then None else Some (all_ops ! (unat b - 1)))"

subsection \<open>Expressions\<close>

datatype agent_flaws =
  agent_flaw_none | agent_flaw_bad_instruction | agent_flaw_incomplete_instruction
  | agent_flaw_bad_jump | agent_flaw_height_mismatch | agent_flaw_hole

record agent_expr =
  buf :: "uint8 list"
  scope :: CORE_ADDR
  flaw :: agent_flaws
  final_height :: int
  max_height :: int
  min_height :: int
  max_data_size :: int
  reg_mask :: "bool list"

text \<open>
  What the code asks of the architecture. The two operations on pseudo registers may be absent;
  their boolean result is non-zero on failure.
\<close>

record gdbarch =
  num_regs :: int
  remote_register_number :: "int \<Rightarrow> int"
  ax_pseudo_register_push_stack :: "(agent_expr \<Rightarrow> int \<Rightarrow> agent_expr \<times> bool) option"
  ax_pseudo_register_collect :: "(agent_expr \<Rightarrow> int \<Rightarrow> agent_expr \<times> bool) option"

definition new_agent_expr :: "CORE_ADDR \<Rightarrow> agent_expr" where
  "new_agent_expr sc =
     \<lparr>buf = [], scope = sc, flaw = agent_flaw_none, final_height = 0, max_height = 0,
      min_height = 0, max_data_size = 0, reg_mask = []\<rparr>"

subsection \<open>Building expressions\<close>

text \<open>The low \<open>n\<close> bytes of a value, most significant first; the shift is arithmetic.\<close>

fun const_bytes :: "nat \<Rightarrow> LONGEST \<Rightarrow> uint8 list" where
  "const_bytes 0 val = []"
| "const_bytes (Suc n) val = const_bytes n (signed_drop_bit 8 val) @ [ucast (val AND 0xff)]"

definition append_const :: "agent_expr \<Rightarrow> LONGEST \<Rightarrow> nat \<Rightarrow> agent_expr" where
  "append_const x val n = x\<lparr>buf := buf x @ const_bytes n val\<rparr>"

definition accumulate :: "uint8 list \<Rightarrow> LONGEST" where
  "accumulate bs = fold (\<lambda>b accum. push_bit 8 accum OR ucast b) bs 0"

definition read_const :: "agent_expr \<Rightarrow> nat \<Rightarrow> nat \<Rightarrow> LONGEST gdb" where
  "read_const x start n =
     (if start + n > length (buf x) then Inl Error
      else Inr (accumulate (take n (drop start (buf x)))))"

definition ax_raw_byte :: "agent_expr \<Rightarrow> uint8 \<Rightarrow> agent_expr" where
  "ax_raw_byte x b = x\<lparr>buf := buf x @ [b]\<rparr>"

definition ax_simple :: "agent_expr \<Rightarrow> agent_op \<Rightarrow> agent_expr" where
  "ax_simple x p = ax_raw_byte x (opcode p)"

definition ax_pick :: "agent_expr \<Rightarrow> int \<Rightarrow> agent_expr gdb" where
  "ax_pick x depth =
     (if depth < 0 \<or> depth > 255 then Inl Error
      else Inr (append_const (ax_simple x aop_pick) 1 (nat depth)))"

definition generic_ext :: "agent_expr \<Rightarrow> agent_op \<Rightarrow> int \<Rightarrow> agent_expr gdb" where
  "generic_ext x p n =
     (if n < 0 \<or> n > 255 then Inl Error
      else Inr (x\<lparr>buf := buf x @ [opcode p, word_of_int n]\<rparr>))"

definition ax_ext :: "agent_expr \<Rightarrow> int \<Rightarrow> agent_expr gdb" where
  "ax_ext x n = generic_ext x aop_ext n"

definition ax_zero_ext :: "agent_expr \<Rightarrow> int \<Rightarrow> agent_expr gdb" where
  "ax_zero_ext x n = generic_ext x aop_zero_ext n"

definition ax_trace_quick :: "agent_expr \<Rightarrow> int \<Rightarrow> agent_expr gdb" where
  "ax_trace_quick x n =
     (if n < 0 \<or> n > 255 then Inl Error
      else Inr (x\<lparr>buf := buf x @ [opcode aop_trace_quick, word_of_int n]\<rparr>))"

definition ax_goto :: "agent_expr \<Rightarrow> agent_op \<Rightarrow> agent_expr \<times> nat" where
  "ax_goto x p =
     (let x1 = x\<lparr>buf := buf x @ [opcode p, 0xff, 0xff]\<rparr> in (x1, length (buf x1) - 2))"

text \<open>Writing outside the buffer is undefined.\<close>

definition ax_label :: "agent_expr \<Rightarrow> nat \<Rightarrow> int \<Rightarrow> agent_expr gdb" where
  "ax_label x patch target =
     (if target < 0 \<or> target \<ge> 0xffff then Inl Error
      else if patch + 1 \<ge> length (buf x) then Inl Undefined
      else Inr (x\<lparr>buf := (buf x)[patch := word_of_int (target div 256),
                                  patch + 1 := word_of_int (target mod 256)]\<rparr>))"

text \<open>The smallest of 8, 16 and 32 bits whose signed range holds the value, or 64.\<close>

definition const_size :: "LONGEST \<Rightarrow> nat" where
  "const_size l =
     (if - (2 ^ 7) \<le> sint l \<and> sint l \<le> 2 ^ 7 - 1 then 8
      else if - (2 ^ 15) \<le> sint l \<and> sint l \<le> 2 ^ 15 - 1 then 16
      else if - (2 ^ 31) \<le> sint l \<and> sint l \<le> 2 ^ 31 - 1 then 32
      else 64)"

definition const_op :: "nat \<Rightarrow> agent_op" where
  "const_op sz = (if sz = 8 then aop_const8 else if sz = 16 then aop_const16
     else if sz = 32 then aop_const32 else aop_const64)"

definition ax_const_l :: "agent_expr \<Rightarrow> LONGEST \<Rightarrow> agent_expr gdb" where
  "ax_const_l x l =
     (let sz = const_size l;
          x1 = append_const (ax_simple x (const_op sz)) l (sz div 8)
      in if sint l < 0 \<and> sz < 64 then ax_ext x1 (int sz) else Inr x1)"

definition ax_const_d :: "agent_expr \<Rightarrow> LONGEST \<Rightarrow> agent_expr gdb" where
  "ax_const_d x d = Inl Error"

definition ax_reg :: "gdbarch \<Rightarrow> agent_expr \<Rightarrow> int \<Rightarrow> agent_expr gdb" where
  "ax_reg arch x reg =
     (if reg \<ge> num_regs arch
      then (case ax_pseudo_register_push_stack arch of
              None \<Rightarrow> Inl Error
            | Some push \<Rightarrow> (let (x1, failed) = push x reg in if failed then Inl Error else Inr x1))
      else
        let r = remote_register_number arch reg in
        if r < 0 \<or> r > 0xffff then Inl Error
        else Inr (x\<lparr>buf := buf x @
               [opcode aop_reg, word_of_int (r div 256), word_of_int (r mod 256)]\<rparr>))"

definition ax_tsv :: "agent_expr \<Rightarrow> agent_op \<Rightarrow> int \<Rightarrow> agent_expr gdb" where
  "ax_tsv x p num =
     (if num < 0 \<or> num > 0xffff then Inl Internal_error
      else Inr (x\<lparr>buf := buf x @
             [opcode p, word_of_int (num div 256), word_of_int (num mod 256)]\<rparr>))"

text \<open>The string has to have at least \<open>slen\<close> characters.\<close>

definition ax_string :: "agent_expr \<Rightarrow> uint8 list \<Rightarrow> int \<Rightarrow> agent_expr gdb" where
  "ax_string x str slen =
     (if slen < 0 \<or> slen > 0xffff then Inl Internal_error
      else if nat slen > length str then Inl Undefined
      else Inr (x\<lparr>buf := buf x @
             [word_of_int ((slen + 1) div 256), word_of_int ((slen + 1) mod 256)] @
             take (nat slen) str @ [0]\<rparr>))"

subsection \<open>Disassembly\<close>

datatype print_line =
  Bad_opcode nat uint8
| Incomplete nat string
| Instruction nat string "LONGEST option"
| Printf_instruction nat string "uint8 list" nat

text \<open>
  The listing; the scope and register lines are omitted. The \<open>printf\<close> case reads its arguments
  without checking that they are there.
\<close>

function print_loop :: "agent_expr \<Rightarrow> nat \<Rightarrow> print_line list gdb" where
  "print_loop x i =
     (if i \<ge> length (buf x) then Inr []
      else case agent_op_of (buf x ! i) of
        None \<Rightarrow> map_sum id (Cons (Bad_opcode i (buf x ! i))) (print_loop x (i + 1))
      | Some p \<Rightarrow>
          if i + 1 + op_size p > length (buf x) then Inr [Incomplete i (op_name p)]
          else if op_size p > 0
          then (case read_const x (i + 1) (op_size p) of
                  Inl e \<Rightarrow> Inl e
                | Inr c \<Rightarrow> map_sum id (Cons (Instruction i (op_name p) (Some c)))
                            (print_loop x (i + 1 + op_size p)))
          else if p = aop_printf
          then (if i + 4 \<ge> length (buf x) then Inl Undefined
                else
                  let nargs = unat (buf x ! (i + 1));
                      slen = unat (buf x ! (i + 2)) * 256 + unat (buf x ! (i + 3))
                  in map_sum id (Cons (Printf_instruction i (op_name p)
                         (takeWhile (\<lambda>c. c \<noteq> 0) (drop (i + 4) (buf x))) nargs))
                       (print_loop x (i + 4 + slen)))
          else map_sum id (Cons (Instruction i (op_name p) None)) (print_loop x (i + 1)))"
  by pat_completeness auto
termination
  by (relation "measure (\<lambda>(x, i). length (buf x) - i)") auto

declare print_loop.simps [simp del]

definition ax_print :: "agent_expr \<Rightarrow> print_line list gdb" where
  "ax_print x = print_loop x 0"

subsection \<open>Requirements\<close>

text \<open>
  A negative remote number is converted to an unsigned size, the mask is not grown and the write is
  undefined.
\<close>

definition ax_reg_mask :: "gdbarch \<Rightarrow> agent_expr \<Rightarrow> int \<Rightarrow> agent_expr gdb" where
  "ax_reg_mask arch ax reg =
     (if reg \<ge> num_regs arch
      then (case ax_pseudo_register_collect arch of
              None \<Rightarrow> Inl Error
            | Some collect \<Rightarrow>
                (let (ax1, failed) = collect ax reg in if failed then Inl Error else Inr ax1))
      else
        let r = remote_register_number arch reg in
        if r < 0 then Inl Undefined
        else
          let grown = (if nat r \<ge> length (reg_mask ax)
                       then reg_mask ax @ replicate (nat r + 1 - length (reg_mask ax)) False
                       else reg_mask ax)
          in Inr (ax\<lparr>reg_mask := grown[nat r := True]\<rparr>))"

text \<open>The tables of the scan; \<open>heights\<close> is meaningful where one of the other two is set.\<close>

record scan_tables =
  targets :: "bool list"
  boundary :: "bool list"
  heights :: "int list"

definition is_jump :: "agent_op \<Rightarrow> bool" where
  "is_jump p \<longleftrightarrow> p = aop_goto \<or> p = aop_if_goto"

definition with_flaw :: "agent_flaws \<Rightarrow> agent_expr \<Rightarrow> agent_expr" where
  "with_flaw f ax = ax\<lparr>flaw := f\<rparr>"

text \<open>\<open>int target = read_const (ax, i + 1, 2)\<close>.\<close>

definition operand :: "agent_expr \<Rightarrow> nat \<Rightarrow> int gdb" where
  "operand ax i = map_sum id (\<lambda>c. sint (ucast c :: 32 word)) (read_const ax (i + 1) 2)"

text \<open>The checks and records of one jump: the tables, or the flaw.\<close>

definition jump_step :: "agent_expr \<Rightarrow> scan_tables \<Rightarrow> int \<Rightarrow> int \<Rightarrow> agent_flaws + scan_tables" where
  "jump_step ax tb target height =
     (if target < 0 \<or> target \<ge> int (length (buf ax)) then Inl agent_flaw_bad_jump
      else if (targets tb ! nat target \<or> boundary tb ! nat target)
        \<and> heights tb ! nat target \<noteq> height
      then Inl agent_flaw_height_mismatch
      else Inr (tb\<lparr>targets := (targets tb)[nat target := True],
                  heights := (heights tb)[nat target := height]\<rparr>))"

text \<open>
  One iteration: an error, the expression with a flaw, or the expression with the bounds so far,
  the tables, the next offset and the height there.
\<close>

definition reqs_step :: "gdbarch \<Rightarrow> agent_expr \<Rightarrow> scan_tables \<Rightarrow> nat \<Rightarrow> int \<Rightarrow>
    (agent_expr + agent_expr \<times> scan_tables \<times> nat \<times> int) gdb" where
  "reqs_step arch ax tb i height =
     (case agent_op_of (buf ax ! i) of
        None \<Rightarrow> Inr (Inl (with_flaw agent_flaw_bad_instruction ax))
      | Some p \<Rightarrow>
          if i + 1 + op_size p > length (buf ax)
          then Inr (Inl (with_flaw agent_flaw_incomplete_instruction ax))
          else if targets tb ! i \<and> heights tb ! i \<noteq> height
          then Inr (Inl (with_flaw agent_flaw_height_mismatch ax))
          else
            let tb1 = tb\<lparr>boundary := (boundary tb)[i := True], heights := (heights tb)[i := height]\<rparr>;
                low = height - int (consumed p);
                high = low + int (produced p);
                ax1 = ax\<lparr>min_height := min (min_height ax) low,
                         max_height := max (max_height ax) high,
                         max_data_size := max (max_data_size ax) (int (data_size p))\<rparr>
            in case (if is_jump p
                     then map_sum id (\<lambda>target. jump_step ax1 tb1 target high) (operand ax1 i)
                     else Inr (Inr tb1)) of
                 Inl e \<Rightarrow> Inl e
               | Inr (Inl f) \<Rightarrow> Inr (Inl (with_flaw f ax1))
               | Inr (Inr tb2) \<Rightarrow>
                   if p = aop_goto \<and> i + 3 < length (buf ax) \<and> \<not> targets tb2 ! (i + 3)
                   then Inr (Inl (with_flaw agent_flaw_hole ax1))
                   else
                     let height' = (if p = aop_goto \<and> i + 3 < length (buf ax)
                                    then heights tb2 ! (i + 3) else high)
                     in case (if p = aop_reg
                              then (case operand ax1 i of
                                      Inl e \<Rightarrow> Inl e
                                    | Inr reg \<Rightarrow> ax_reg_mask arch ax1 reg)
                              else Inr ax1) of
                          Inl e \<Rightarrow> Inl e
                        | Inr ax2 \<Rightarrow> Inr (Inr (ax2, tb2, i + 1 + op_size p, height')))"

lemma reqs_step_forward: "reqs_step arch ax tb i height = Inr (Inr (ax', tb', i', height')) \<Longrightarrow> i < i'"
  by (auto simp: reqs_step_def Let_def split: option.splits if_splits sum.splits)

text \<open>
  The loop returns the expression with a flaw, or the tables and the final height. A collection
  hook that changed the bytecode would invalidate the tables; that is undefined.
\<close>

function reqs_loop :: "gdbarch \<Rightarrow> agent_expr \<Rightarrow> scan_tables \<Rightarrow> nat \<Rightarrow> int \<Rightarrow>
    (agent_expr \<times> (scan_tables \<times> int) option) gdb" where
  "reqs_loop arch ax tb i height =
     (if i \<ge> length (buf ax) then Inr (ax, Some (tb, height))
      else case reqs_step arch ax tb i height of
        Inl e \<Rightarrow> Inl e
      | Inr (Inl flawed) \<Rightarrow> Inr (flawed, None)
      | Inr (Inr (ax1, tb1, i1, height1)) \<Rightarrow>
          if buf ax1 = buf ax then reqs_loop arch ax1 tb1 i1 height1 else Inl Undefined)"
  by pat_completeness auto
termination
  by (relation "measure (\<lambda>(arch, ax, tb, i, height). length (buf ax) - i)")
     (auto dest: reqs_step_forward)

declare reqs_loop.simps [simp del]

definition ax_reqs :: "gdbarch \<Rightarrow> agent_expr \<Rightarrow> agent_expr gdb" where
  "ax_reqs arch ax =
     (let n = length (buf ax);
          tb = \<lparr>targets = replicate n False, boundary = replicate n False, heights = replicate n 0\<rparr>;
          ax0 = ax\<lparr>max_height := 0, min_height := 0, flaw := agent_flaw_none, max_data_size := 0\<rparr>
      in case reqs_loop arch ax0 tb 0 0 of
           Inl e \<Rightarrow> Inl e
         | Inr (ax1, None) \<Rightarrow> Inr ax1
         | Inr (ax1, Some (tb1, height)) \<Rightarrow>
             if \<exists>i < n. targets tb1 ! i \<and> \<not> boundary tb1 ! i
             then Inr (with_flaw agent_flaw_bad_jump ax1)
             else Inr (ax1\<lparr>final_height := height\<rparr>))"

subsection \<open>The verifier is sound\<close>

text \<open>
  Executions at the level of offsets and stack heights, as the opcode table describes them. The
  arguments of \<open>printf\<close> follow it in the bytecode and are not in the table, so no step leaves it.
\<close>

definition op_at :: "uint8 list \<Rightarrow> nat \<Rightarrow> agent_op option" where
  "op_at bs i = (if i < length bs then agent_op_of (bs ! i) else None)"

definition height_after :: "agent_op \<Rightarrow> int \<Rightarrow> int" where
  "height_after p h = h - int (consumed p) + int (produced p)"

definition jump_target :: "uint8 list \<Rightarrow> nat \<Rightarrow> nat" where
  "jump_target bs i = 256 * unat (bs ! (i + 1)) + unat (bs ! (i + 2))"

inductive height_step :: "uint8 list \<Rightarrow> nat \<times> int \<Rightarrow> nat \<times> int \<Rightarrow> bool" for bs where
  fall: "op_at bs i = Some p \<Longrightarrow> p \<noteq> aop_goto \<Longrightarrow> p \<noteq> aop_printf \<Longrightarrow>
    height_step bs (i, h) (i + 1 + op_size p, height_after p h)"
| jump: "op_at bs i = Some p \<Longrightarrow> is_jump p \<Longrightarrow>
    height_step bs (i, h) (jump_target bs i, height_after p h)"

inductive_cases height_stepE: "height_step bs (i, h) s"

lemma op_size_jump: "is_jump p \<Longrightarrow> op_size p = 2"
  by (auto simp: is_jump_def op_size_def)

lemma accumulate_two: "accumulate [a, b] = of_nat (256 * unat a + unat b)"
proof -
  have "accumulate [a, b] = push_bit 8 (ucast a) OR ucast b"
    by (simp add: accumulate_def)
  also have "\<dots> = push_bit 8 (ucast a) + ucast b"
    by (rule disjunctive_add [symmetric]) (auto simp: bit_simps dest: bit_imp_le_length)
  also have "\<dots> = of_nat (256 * unat a + unat b)"
    by (simp add: push_bit_eq_mult mult.commute)
  finally show ?thesis .
qed

lemma sint_small: "n < 65536 \<Longrightarrow> sint (ucast (of_nat n :: LONGEST) :: 32 word) = int n"
  by (simp add: sint_uint signed_take_bit_int_eq_self unsigned_ucast_eq unsigned_of_nat
      take_bit_nat_eq_self take_bit_int_eq_self of_nat_take_bit)

lemma jump_target_less: "jump_target bs i < 65536"
  using unat_byte [of "bs ! (i + 1)"] unat_byte [of "bs ! (i + 2)"]
  by (simp add: jump_target_def)

lemma operand_eq:
  assumes "i + 3 \<le> length (buf ax)"
  shows "operand ax i = Inr (int (jump_target (buf ax) i))"
proof -
  have "take 2 (drop (i + 1) (buf ax)) = [buf ax ! (i + 1), buf ax ! (i + 2)]"
    using assms by (auto simp: list_eq_iff_nth_eq nth_Cons numeral_2_eq_2 split: nat.split)
  then show ?thesis
    using assms sint_small [OF jump_target_less [of "buf ax" i]]
    by (simp add: operand_def read_const_def accumulate_two) (simp add: jump_target_def)
qed

text \<open>A pseudo register's collection only adds registers to the mask: what its documentation says.\<close>

definition collects_registers :: "gdbarch \<Rightarrow> bool" where
  "collects_registers arch \<longleftrightarrow> (\<forall>collect ax reg. ax_pseudo_register_collect arch = Some collect \<longrightarrow>
     (\<exists>m. fst (collect ax reg) = ax\<lparr>reg_mask := m\<rparr>))"

lemma ax_reg_mask_only:
  "collects_registers arch \<Longrightarrow> ax_reg_mask arch ax reg = Inr ax' \<Longrightarrow> \<exists>m. ax' = ax\<lparr>reg_mask := m\<rparr>"
proof (cases "num_regs arch \<le> reg")
  case True
  assume *: "collects_registers arch" "ax_reg_mask arch ax reg = Inr ax'"
  then obtain collect where c: "ax_pseudo_register_collect arch = Some collect"
    "fst (collect ax reg) = ax'"
    using True by (auto simp: ax_reg_mask_def split_beta split: option.splits if_splits)
  then show ?thesis using *(1) unfolding collects_registers_def by metis
next
  case False
  assume "ax_reg_mask arch ax reg = Inr ax'"
  then show ?thesis using False by (auto simp: ax_reg_mask_def Let_def split: if_splits)
qed

text \<open>What the scan has established of an offset it has passed.\<close>

definition within :: "agent_expr \<Rightarrow> agent_op \<Rightarrow> int \<Rightarrow> bool" where
  "within ax p h \<longleftrightarrow> min_height ax \<le> h - int (consumed p) \<and> height_after p h \<le> max_height ax \<and>
     int (data_size p) \<le> max_data_size ax"

definition scanned :: "agent_expr \<Rightarrow> scan_tables \<Rightarrow> nat \<Rightarrow> int \<Rightarrow> nat \<Rightarrow> bool" where
  "scanned ax tb i height j \<longleftrightarrow> (\<exists>p. op_at (buf ax) j = Some p \<and> j + 1 + op_size p \<le> i \<and>
     within ax p (heights tb ! j) \<and>
     (is_jump p \<longrightarrow> jump_target (buf ax) j < length (buf ax) \<and> targets tb ! jump_target (buf ax) j \<and>
        heights tb ! jump_target (buf ax) j = height_after p (heights tb ! j)) \<and>
     (p \<noteq> aop_goto \<longrightarrow>
        (if j + 1 + op_size p < i
         then boundary tb ! (j + 1 + op_size p) \<and>
           heights tb ! (j + 1 + op_size p) = height_after p (heights tb ! j)
         else height = height_after p (heights tb ! j))))"

definition scan_inv :: "agent_expr \<Rightarrow> scan_tables \<Rightarrow> nat \<Rightarrow> int \<Rightarrow> bool" where
  "scan_inv ax tb i height \<longleftrightarrow>
     length (targets tb) = length (buf ax) \<and> length (boundary tb) = length (buf ax) \<and>
     length (heights tb) = length (buf ax) \<and> i \<le> length (buf ax) \<and> flaw ax = agent_flaw_none \<and>
     (\<forall>j. j < length (buf ax) \<longrightarrow> boundary tb ! j \<longrightarrow> j < i \<and> scanned ax tb i height j) \<and>
     (if i = 0 then height = 0 else boundary tb ! 0 \<and> heights tb ! 0 = 0)"

text \<open>The tables after a jump: only the target changes, and its height only when it had none.\<close>

lemma jump_step_Inr:
  assumes "jump_step ax tb (int t) h = Inr tb'"
  shows "t < length (buf ax) \<and> targets tb' = (targets tb)[t := True] \<and> boundary tb' = boundary tb \<and>
    heights tb' = (heights tb)[t := h] \<and> (targets tb ! t \<or> boundary tb ! t \<longrightarrow> heights tb ! t = h)"
  using assms by (auto simp: jump_step_def split: if_splits)

lemma scanned_mono:
  assumes "scanned ax tb i height j"
    and "buf ax' = buf ax" "min_height ax' \<le> min_height ax" "max_height ax \<le> max_height ax'"
      "max_data_size ax \<le> max_data_size ax'"
    and "length (boundary tb) = length (buf ax)" "length (heights tb) = length (buf ax)"
      "length (targets tb) = length (buf ax)"
    and "boundary tb ! j" "j < i" "i < length (buf ax)" "i < i'"
    and "boundary tb' ! i" "heights tb' ! i = height"
    and "\<And>k. k < length (buf ax) \<Longrightarrow> targets tb ! k \<or> boundary tb ! k \<Longrightarrow> heights tb' ! k = heights tb ! k"
    and "\<And>k. k < length (buf ax) \<Longrightarrow> targets tb ! k \<Longrightarrow> targets tb' ! k"
    and "\<And>k. k < length (buf ax) \<Longrightarrow> boundary tb ! k \<Longrightarrow> boundary tb' ! k"
  shows "scanned ax' tb' i' height' j"
proof -
  obtain p where p: "op_at (buf ax) j = Some p" "j + 1 + op_size p \<le> i" "within ax p (heights tb ! j)"
    "is_jump p \<Longrightarrow> jump_target (buf ax) j < length (buf ax) \<and> targets tb ! jump_target (buf ax) j \<and>
        heights tb ! jump_target (buf ax) j = height_after p (heights tb ! j)"
    "p \<noteq> aop_goto \<Longrightarrow> (if j + 1 + op_size p < i
         then boundary tb ! (j + 1 + op_size p) \<and>
           heights tb ! (j + 1 + op_size p) = height_after p (heights tb ! j)
         else height = height_after p (heights tb ! j))"
    using assms(1) unfolding scanned_def by blast
  have hj: "heights tb' ! j = heights tb ! j" using assms(9-11,15) by simp
  have "within ax' p (heights tb' ! j)"
    using p(3) assms(3-5) hj by (auto simp: within_def)
  moreover have "is_jump p \<longrightarrow> jump_target (buf ax') j < length (buf ax') \<and>
      targets tb' ! jump_target (buf ax') j \<and>
      heights tb' ! jump_target (buf ax') j = height_after p (heights tb' ! j)"
    using p(4) assms(2,15,16) hj by simp
  moreover have "p \<noteq> aop_goto \<longrightarrow> (boundary tb' ! (j + 1 + op_size p) \<and>
      heights tb' ! (j + 1 + op_size p) = height_after p (heights tb' ! j))"
  proof (cases "j + 1 + op_size p < i")
    case True
    then show ?thesis using p(5) assms(11,15,17) hj by auto
  next
    case False
    then have "j + 1 + op_size p = i" using p(2) by simp
    then show ?thesis using p(5) assms(13,14) hj by auto
  qed
  ultimately show ?thesis
    using p(1,2) assms(2,12) unfolding scanned_def by auto
qed

text \<open>What one iteration without a flaw has done.\<close>

lemma reqs_stepD:
  assumes step: "reqs_step arch ax tb i height = Inr (Inr (ax', tb', i', h'))"
    and arch: "collects_registers arch" and i: "i < length (buf ax)"
  obtains p where "op_at (buf ax) i = Some p" "i' = i + 1 + op_size p" "i' \<le> length (buf ax)"
    "targets tb ! i \<longrightarrow> heights tb ! i = height"
    "buf ax' = buf ax" "flaw ax' = flaw ax" "min_height ax' = min (min_height ax) (height - int (consumed p))"
    "max_height ax' = max (max_height ax) (height_after p height)"
    "max_data_size ax' = max (max_data_size ax) (int (data_size p))"
    "if is_jump p
     then jump_step ax (tb\<lparr>boundary := (boundary tb)[i := True], heights := (heights tb)[i := height]\<rparr>)
        (int (jump_target (buf ax) i)) (height_after p height) = Inr tb'
     else tb' = tb\<lparr>boundary := (boundary tb)[i := True], heights := (heights tb)[i := height]\<rparr>"
    "p = aop_goto \<and> i + 3 < length (buf ax) \<longrightarrow> targets tb' ! (i + 3) \<and> h' = heights tb' ! (i + 3)"
    "p \<noteq> aop_goto \<longrightarrow> h' = height_after p height"
proof -
  obtain p where p: "agent_op_of (buf ax ! i) = Some p"
    using step by (auto simp: reqs_step_def split: option.splits)
  have fits: "i + 1 + op_size p \<le> length (buf ax)"
    and match: "targets tb ! i \<longrightarrow> heights tb ! i = height"
    using step p by (auto simp: reqs_step_def split: if_splits)
  define tb1 where "tb1 = tb\<lparr>boundary := (boundary tb)[i := True], heights := (heights tb)[i := height]\<rparr>"
  define ax1 where "ax1 = ax\<lparr>min_height := min (min_height ax) (height - int (consumed p)),
    max_height := max (max_height ax) (height_after p height),
    max_data_size := max (max_data_size ax) (int (data_size p))\<rparr>"
  have ax1: "buf ax1 = buf ax" by (simp add: ax1_def)
  have operand: "operand ax1 i = Inr (int (jump_target (buf ax) i))" if "is_jump p \<or> p = aop_reg"
  proof -
    have "op_size p = 2" using that op_size_jump by (auto simp: op_size_def)
    then show ?thesis using fits operand_eq [of i ax1] by (simp add: ax1)
  qed
  define J where "J = (if is_jump p then jump_step ax1 tb1 (int (jump_target (buf ax) i)) (height_after p height)
    else Inr tb1)"
  define R where "R = (if p = aop_reg then ax_reg_mask arch ax1 (int (jump_target (buf ax) i)) else Inr ax1)"
  have eq: "reqs_step arch ax tb i height =
     (case J of
        Inl f \<Rightarrow> Inr (Inl (with_flaw f ax1))
      | Inr tb2 \<Rightarrow>
          if p = aop_goto \<and> i + 3 < length (buf ax) \<and> \<not> targets tb2 ! (i + 3)
          then Inr (Inl (with_flaw agent_flaw_hole ax1))
          else (case R of Inl e \<Rightarrow> Inl e
                | Inr ax2 \<Rightarrow> Inr (Inr (ax2, tb2, i + 1 + op_size p,
                    if p = aop_goto \<and> i + 3 < length (buf ax) then heights tb2 ! (i + 3)
                    else height_after p height))))"
  proof -
    have c: "(i + 1 + op_size p > length (buf ax)) = False"
      "(targets tb ! i \<and> heights tb ! i \<noteq> height) = False" using fits match by auto
    have X: "(if is_jump p then map_sum id (\<lambda>target. jump_step ax1 tb1 target (height_after p height))
        (operand ax1 i) else Inr (Inr tb1)) = Inr J"
      by (simp add: J_def operand)
    have Y: "(if p = aop_reg then case operand ax1 i of Inl e \<Rightarrow> Inl e
        | Inr reg \<Rightarrow> ax_reg_mask arch ax1 reg else Inr ax1) = R"
      by (simp add: R_def operand)
    show ?thesis
      unfolding reqs_step_def p option.case Let_def c if_False height_after_def [symmetric]
        ax1_def [symmetric] tb1_def [symmetric] X Y sum.case ..
  qed
  obtain tb2 ax2 where J: "J = Inr tb2" and R: "R = Inr ax2"
    using step unfolding eq by (auto split: sum.splits if_splits)
  have out: "ax' = ax2" "tb' = tb2" "i' = i + 1 + op_size p"
    "h' = (if p = aop_goto \<and> i + 3 < length (buf ax) then heights tb2 ! (i + 3)
      else height_after p height)"
    "p = aop_goto \<Longrightarrow> i + 3 < length (buf ax) \<Longrightarrow> targets tb2 ! (i + 3)"
    using step unfolding eq J R by (auto split: if_splits)
  obtain m where m: "ax2 = ax1 \<or> ax2 = ax1\<lparr>reg_mask := m\<rparr>"
    using R ax_reg_mask_only [OF arch, of ax1] unfolding R_def by (auto split: if_splits)
  show thesis
  proof (rule that [of p])
    show "if is_jump p then jump_step ax (tb\<lparr>boundary := (boundary tb)[i := True],
        heights := (heights tb)[i := height]\<rparr>) (int (jump_target (buf ax) i)) (height_after p height) = Inr tb'
     else tb' = tb\<lparr>boundary := (boundary tb)[i := True], heights := (heights tb)[i := height]\<rparr>"
      using J out(2) ax1 by (auto simp: J_def tb1_def [symmetric] jump_step_def split: if_splits)
  qed (use p i fits match m out ax1 in \<open>auto simp: op_at_def ax1_def\<close>)
qed

lemma scan_inv_step:
  assumes step: "reqs_step arch ax tb i height = Inr (Inr (ax', tb', i', h'))"
    and arch: "collects_registers arch" and i: "i < length (buf ax)" and inv: "scan_inv ax tb i height"
  shows "scan_inv ax' tb' i' h' \<and> buf ax' = buf ax"
proof -
  obtain p where p: "op_at (buf ax) i = Some p" "i' = i + 1 + op_size p" "i' \<le> length (buf ax)"
    "targets tb ! i \<longrightarrow> heights tb ! i = height"
    "buf ax' = buf ax" "flaw ax' = flaw ax" "min_height ax' = min (min_height ax) (height - int (consumed p))"
    "max_height ax' = max (max_height ax) (height_after p height)"
    "max_data_size ax' = max (max_data_size ax) (int (data_size p))"
    and J: "if is_jump p
     then jump_step ax (tb\<lparr>boundary := (boundary tb)[i := True], heights := (heights tb)[i := height]\<rparr>)
        (int (jump_target (buf ax) i)) (height_after p height) = Inr tb'
     else tb' = tb\<lparr>boundary := (boundary tb)[i := True], heights := (heights tb)[i := height]\<rparr>"
    and goto: "p = aop_goto \<and> i + 3 < length (buf ax) \<longrightarrow> targets tb' ! (i + 3) \<and> h' = heights tb' ! (i + 3)"
    and fall: "p \<noteq> aop_goto \<longrightarrow> h' = height_after p height"
    by (rule reqs_stepD [OF step arch i], rule that; assumption)
  let ?n = "length (buf ax)" and ?t = "jump_target (buf ax) i"
  have len: "length (targets tb) = ?n" "length (boundary tb) = ?n" "length (heights tb) = ?n"
    and flaw: "flaw ax = agent_flaw_none"
    and old: "\<And>j. j < ?n \<Longrightarrow> boundary tb ! j \<Longrightarrow> j < i \<and> scanned ax tb i height j"
    and zero: "if i = 0 then height = 0 else boundary tb ! 0 \<and> heights tb ! 0 = 0"
    using inv unfolding scan_inv_def by auto
  have jump: "?t < ?n \<and> targets tb' = (targets tb)[?t := True] \<and>
      heights tb' = (heights tb)[i := height, ?t := height_after p height] \<and>
      (targets tb ! ?t \<or> boundary tb ! ?t \<or> ?t = i \<longrightarrow>
        (heights tb)[i := height] ! ?t = height_after p height)" if "is_jump p"
  proof -
    let ?tb = "tb\<lparr>boundary := (boundary tb)[i := True], heights := (heights tb)[i := height]\<rparr>"
    have "jump_step ax ?tb (int ?t) (height_after p height) = Inr tb'" using J that by simp
    from jump_step_Inr [OF this] show ?thesis using i len by (cases "?t = i") auto
  qed
  have plain: "targets tb' = targets tb \<and> heights tb' = (heights tb)[i := height]" if "\<not> is_jump p"
    using J that by simp
  have bd: "boundary tb' = (boundary tb)[i := True]"
    using J jump_step_Inr [of ax _ ?t "height_after p height" tb'] by (auto split: if_splits)
  have hi: "heights tb' ! i = height"
    using jump plain i len by (cases "is_jump p"; cases "?t = i") auto
  have keep: "heights tb' ! k = heights tb ! k" if "k < ?n" "targets tb ! k \<or> boundary tb ! k" for k
  proof (cases "k = i")
    case True
    then show ?thesis using hi p(4) old that by auto
  next
    case False
    then show ?thesis using jump plain len that by (cases "is_jump p"; cases "k = ?t") auto
  qed
  have tkeep: "targets tb' ! k" if "k < ?n" "targets tb ! k" for k
    using jump plain len that by (cases "is_jump p"; cases "k = ?t") auto
  have "j < i' \<and> scanned ax' tb' i' h' j" if j: "j < ?n" "boundary tb' ! j" for j
  proof (cases "j = i")
    case True
    have "is_jump p \<longrightarrow> targets tb' ! ?t \<and> heights tb' ! ?t = height_after p height \<and> ?t < ?n"
      using jump len by auto
    then have "scanned ax' tb' i' h' i"
      unfolding scanned_def using p hi fall
      by (intro exI [of _ p]) (auto simp: within_def)
    then show ?thesis using True p(2) by simp
  next
    case False
    then have b: "boundary tb ! j" using j bd by simp
    then have sj: "scanned ax tb i height j" and ji: "j < i" using old j by auto
    from sj have "scanned ax' tb' i' h' j"
      by (rule scanned_mono)
        (use p len b i ji bd hi keep tkeep in \<open>auto simp: nth_list_update\<close>)
    then show ?thesis using ji p(2) by simp
  qed
  moreover have "boundary tb' ! 0 \<and> heights tb' ! 0 = 0"
  proof (cases "i = 0")
    case True
    then show ?thesis using bd hi zero i len by auto
  next
    case False
    then show ?thesis using bd zero keep [of 0] i len by (cases "buf ax") (auto simp: nth_list_update)
  qed
  moreover have "length (targets tb') = ?n" "length (heights tb') = ?n" "length (boundary tb') = ?n"
    using jump plain bd len by (cases "is_jump p"; simp)+
  ultimately show ?thesis
    using p(2,3,5,6) flaw unfolding scan_inv_def by auto
qed

lemma reqs_loop_sound:
  assumes "collects_registers arch"
  shows "reqs_loop arch ax tb i height = Inr (ax', Some (tb', height')) \<Longrightarrow> scan_inv ax tb i height \<Longrightarrow>
    scan_inv ax' tb' (length (buf ax')) height' \<and> buf ax' = buf ax"
  using assms
proof (induction arch ax tb i height rule: reqs_loop.induct)
  case (1 arch ax tb i height)
  show ?case
  proof (cases "i \<ge> length (buf ax)")
    case True
    then have "ax' = ax \<and> tb' = tb \<and> height' = height"
      using "1.prems"(1) by (subst (asm) reqs_loop.simps) simp
    moreover have "i = length (buf ax)" using True "1.prems"(2) by (simp add: scan_inv_def)
    ultimately show ?thesis using "1.prems"(2) by simp
  next
    case False
    obtain ax1 tb1 i1 h1 where step: "reqs_step arch ax tb i height = Inr (Inr (ax1, tb1, i1, h1))"
      and rest: "reqs_loop arch ax1 tb1 i1 h1 = Inr (ax', Some (tb', height'))" "buf ax1 = buf ax"
      using "1.prems"(1) False
      by (subst (asm) reqs_loop.simps) (auto split: sum.splits if_splits)
    have "scan_inv ax1 tb1 i1 h1"
      using scan_inv_step [OF step "1.prems"(3)] False "1.prems"(2) by auto
    then have "scan_inv ax' tb' (length (buf ax')) height' \<and> buf ax' = buf ax1"
      using "1.IH" [OF False step refl refl refl refl rest(2,1) _ "1.prems"(3)] by blast
    then show ?thesis using rest(2) by (intro conjI) (blast, metis)
  qed
qed

lemma reqs_step_flaw: "reqs_step arch ax tb i height = Inr (Inl ax') \<Longrightarrow> flaw ax' \<noteq> agent_flaw_none"
proof -
  have jf: "jump_step a b c d = Inl f \<Longrightarrow> f \<noteq> agent_flaw_none" for a b c d f
    by (auto simp: jump_step_def split: if_splits)
  have mf: "map_sum id (\<lambda>t. jump_step a b t d) X = Inr (Inl f) \<Longrightarrow> f \<noteq> agent_flaw_none" for a b d f
      and X :: "int gdb"
    by (cases X) (auto dest: jf)
  show "reqs_step arch ax tb i height = Inr (Inl ax') \<Longrightarrow> flaw ax' \<noteq> agent_flaw_none"
    by (auto simp: reqs_step_def Let_def with_flaw_def dest: mf
        split: option.splits if_splits sum.splits)
qed

lemma reqs_loop_flaw:
  "reqs_loop arch ax tb i height = Inr (ax', None) \<Longrightarrow> flaw ax' \<noteq> agent_flaw_none"
proof (induction arch ax tb i height rule: reqs_loop.induct)
  case (1 arch ax tb i height)
  have i: "\<not> i \<ge> length (buf ax)"
    using "1.prems" by (subst (asm) reqs_loop.simps) auto
  then consider "reqs_step arch ax tb i height = Inr (Inl ax')"
    | ax1 tb1 i1 h1 where "reqs_step arch ax tb i height = Inr (Inr (ax1, tb1, i1, h1))"
      "buf ax1 = buf ax" "reqs_loop arch ax1 tb1 i1 h1 = Inr (ax', None)"
    using "1.prems" by (subst (asm) reqs_loop.simps) (auto split: sum.splits if_splits)
  then show ?case
  proof cases
    case 1
    then show ?thesis by (rule reqs_step_flaw)
  next
    case 2
    then show ?thesis using "1.IH" [OF i 2(1) refl refl refl refl] by blast
  qed
qed

lemma ax_reqs_sound:
  assumes "ax_reqs arch ax = Inr ax'" "flaw ax' = agent_flaw_none" "collects_registers arch"
    and "(height_step (buf ax))\<^sup>*\<^sup>* (0, 0) (i, h)"
  shows "i \<le> length (buf ax) \<and> (i = length (buf ax) \<longrightarrow> h = final_height ax') \<and>
    (i < length (buf ax) \<longrightarrow> (\<exists>p. op_at (buf ax) i = Some p \<and>
       i + 1 + op_size p \<le> length (buf ax) \<and> within ax' p h))"
proof -
  let ?n = "length (buf ax)"
  define tb0 where "tb0 = \<lparr>targets = replicate ?n False, boundary = replicate ?n False, heights = replicate ?n 0\<rparr>"
  define ax0 where "ax0 = ax\<lparr>max_height := 0, min_height := 0, flaw := agent_flaw_none, max_data_size := 0\<rparr>"
  obtain ax1 opt where loop: "reqs_loop arch ax0 tb0 0 0 = Inr (ax1, opt)"
    using assms(1) by (auto simp: ax_reqs_def tb0_def ax0_def Let_def split: sum.splits)
  have "opt \<noteq> None"
  proof
    assume "opt = None"
    then have "flaw ax1 \<noteq> agent_flaw_none" "ax' = ax1"
      using reqs_loop_flaw [of arch ax0 tb0 0 0 ax1] loop assms(1)
      by (simp_all add: ax_reqs_def tb0_def ax0_def Let_def)
    then show False using assms(2) by simp
  qed
  then obtain tb1 hF where opt: "opt = Some (tb1, hF)" by auto
  have bnd: "\<And>j. j < ?n \<Longrightarrow> targets tb1 ! j \<Longrightarrow> boundary tb1 ! j" and ax': "ax' = ax1\<lparr>final_height := hF\<rparr>"
    using assms(1,2) loop opt
    by (auto simp: ax_reqs_def tb0_def ax0_def Let_def with_flaw_def split: if_splits)
  have init: "scan_inv ax0 tb0 0 0" by (auto simp: scan_inv_def tb0_def ax0_def)
  have run: "scan_inv ax1 tb1 (length (buf ax1)) hF" "buf ax1 = buf ax0"
    using reqs_loop_sound [OF assms(3) loop [unfolded opt] init] by blast+
  then have b: "buf ax1 = buf ax" by (simp add: ax0_def)
  have inv: "scan_inv ax1 tb1 ?n hF" using run(1) unfolding b .
  define ok where "ok = (\<lambda>(i, h). i \<le> ?n \<and> (if i < ?n then boundary tb1 ! i \<and> heights tb1 ! i = h else h = hF))"
  have "ok (i, h)"
    using assms(4)
  proof (induction rule: rtranclp_induct2)
    case refl
    then show ?case using inv b by (auto simp: ok_def scan_inv_def split: if_splits)
  next
    case (step i h i' h')
    from step(2) obtain p where p: "op_at (buf ax) i = Some p" "h' = height_after p h"
      "p \<noteq> aop_goto \<and> i' = i + 1 + op_size p \<or> is_jump p \<and> i' = jump_target (buf ax) i"
      by (auto elim: height_stepE)
    then have i: "i < ?n" by (auto simp: op_at_def split: if_splits)
    then have "scanned ax1 tb1 ?n hF i" "heights tb1 ! i = h"
      using step(3) inv b by (auto simp: ok_def scan_inv_def)
    then show ?case
      using p b bnd by (auto simp: ok_def scanned_def split: if_splits)
  qed
  then show ?thesis
    using inv b by (auto simp: ok_def scan_inv_def scanned_def within_def ax')
qed

subsection \<open>Properties\<close>

text \<open>C26: \<^verbatim>\<open>ax_reqs\<close> is sound: when it reports no flaw, every execution that follows the opcode table
  from offset 0 and height 0, along fall-throughs and jumps in any order, is always at the start of
  a valid and complete instruction or at the end of the bytecode, its stack height stays within the
  reported minimum and maximum, and at the end it is the reported final height.\<close>

theorem ax_reqs_verifies:
  assumes "ax_reqs arch ax = Inr ax'" and "flaw ax' = agent_flaw_none" and "collects_registers arch"
    and "(height_step (buf ax))\<^sup>*\<^sup>* (0, 0) (i, h)"
  shows "if i = length (buf ax) then h = final_height ax'
    else \<exists>p. op_at (buf ax) i = Some p \<and> i + 1 + op_size p \<le> length (buf ax) \<and>
      min_height ax' \<le> h - int (consumed p) \<and>
      h - int (consumed p) + int (produced p) \<le> max_height ax' \<and>
      int (data_size p) \<le> max_data_size ax'"
  using ax_reqs_sound [OF assms] by (auto simp: within_def height_after_def)

definition loop_arch :: gdbarch where
  "loop_arch = \<lparr>num_regs = 32, remote_register_number = (\<lambda>r. r),
     ax_pseudo_register_push_stack = None, ax_pseudo_register_collect = None\<rparr>"

text \<open>A loop: a constant, a copy of it, and a conditional jump back to the copy.\<close>

definition loop_expr :: agent_expr where
  "loop_expr = new_agent_expr 0\<lparr>buf := [0x22, 5, 0x28, 0x20, 0, 2]\<rparr>"

definition loop_verified :: agent_expr where
  "loop_verified = (case ax_reqs loop_arch loop_expr of Inr ax \<Rightarrow> ax | Inl e \<Rightarrow> loop_expr)"

lemma loop_verified:
  "ax_reqs loop_arch loop_expr = Inr loop_verified" "flaw loop_verified = agent_flaw_none"
  "max_height loop_verified = 2" "final_height loop_verified = 1"
  by code_simp+

theorem ax_reqs_verifies_witness:
  "(height_step (buf loop_expr))\<^sup>*\<^sup>* (0, 0) (2, 1) \<and> (\<exists>p. op_at (buf loop_expr) 2 = Some p \<and>
     1 - int (consumed p) + int (produced p) \<le> 2)"
proof -
  have "height_step (buf loop_expr) (0, 0) (0 + 1 + op_size aop_const8, height_after aop_const8 0)"
    by (rule height_step.fall)
      (simp_all add: loop_expr_def new_agent_expr_def op_at_def agent_op_of_def all_ops_def)
  then have "height_step (buf loop_expr) (0, 0) (2, 1)"
    by (simp add: op_size_def height_after_def consumed_def produced_def del: One_nat_def)
  then have run: "(height_step (buf loop_expr))\<^sup>*\<^sup>* (0, 0) (2, 1)" by (rule r_into_rtranclp)
  have "collects_registers loop_arch" by (simp add: collects_registers_def loop_arch_def)
  from ax_reqs_verifies [OF loop_verified(1,2) this run] obtain p where
    "op_at (buf loop_expr) 2 = Some p" "1 - int (consumed p) + int (produced p) \<le> max_height loop_verified"
    by (auto simp: loop_expr_def new_agent_expr_def)
  then show ?thesis using run unfolding loop_verified(3) by blast
qed

text \<open>the jump that \<^verbatim>\<open>ax_goto\<close> leaves open and \<^verbatim>\<open>ax_label\<close> patches goes to the given target, and the
  code before it and its opcode are unchanged; only targets from 0xffff on are refused.\<close>

theorem ax_goto_label:
  assumes "ax_goto x p = (x1, patch)"
  shows "if 0 \<le> target \<and> target < 0xffff
    then \<exists>x2. ax_label x1 patch target = Inr x2 \<and>
      int (jump_target (buf x2) (length (buf x))) = target \<and>
      length (buf x2) = length (buf x) + 3 \<and>
      take (length (buf x) + 1) (buf x2) = buf x @ [opcode p]
    else ax_label x1 patch target = Inl Error"
proof (cases "0 \<le> target \<and> target < 0xffff")
  case True
  have x1: "buf x1 = buf x @ [opcode p, 0xff, 0xff]" "patch = length (buf x) + 1"
    using assms by (auto simp: ax_goto_def Let_def)
  let ?n = "length (buf x)"
  let ?b = "buf x @ [opcode p, word_of_int (target div 256), word_of_int (target mod 256)]"
  have upd: "(buf x1)[patch := word_of_int (target div 256), patch + 1 := word_of_int (target mod 256)] = ?b"
    by (simp add: x1 list_update_append)
  have div_less_bound: "target div 256 mod 256 = target div 256"
    using True by (intro mod_pos_pos_trivial) auto
  have "int (unat (word_of_int (target div 256) :: uint8)) = target div 256"
    "int (unat (word_of_int (target mod 256) :: uint8)) = target mod 256"
    using True div_less_bound by (simp_all add: take_bit_eq_mod unsigned_of_int)
  then have "int (jump_target ?b ?n) = target"
    by (simp add: jump_target_def nth_append)
  then show ?thesis
    using True upd by (auto simp: ax_label_def x1)
qed (auto simp: ax_label_def)

theorem ax_goto_label_witness:
  "\<exists>x. ax_label (fst (ax_goto (new_agent_expr 0) aop_goto)) 1 0x1234 = Inr x \<and>
     int (jump_target (buf x) 0) = 0x1234"
  using ax_goto_label [of "new_agent_expr 0" aop_goto "fst (ax_goto (new_agent_expr 0) aop_goto)" 1,
      where target = "0x1234"]
  by (auto simp: ax_goto_def new_agent_expr_def)

text \<open>
  \<open>ax_pick\<close> passes the value and the byte count of the operand in each other's place: it appends as
  many bytes as the depth, the last of them 1.
\<close>

lemma ax_pick_operand:
  "map_sum id buf (ax_pick (new_agent_expr 0) 3) = Inr [0x32, 0, 0, 1]"
  "map_sum id buf (ax_pick (new_agent_expr 0) 0) = Inr [0x32]"
  by code_simp+

text \<open>A string of 0xffff characters is stored with the length 0.\<close>

lemma ax_string_length_wraps:
  "length str = 0xffff \<Longrightarrow>
   map_sum id (\<lambda>x. take 2 (buf x)) (ax_string (new_agent_expr 0) str 0xffff) = Inr [0, 0]"
  by (simp add: ax_string_def new_agent_expr_def)

end
