(* ===== verification/Agent_Eval.thy ===== *)
theory Agent_Eval
  imports Agent_Expr "HOL-Library.Signed_Division"
begin

text \<open>
  The evaluator of agent expressions (\<open>gdb_eval_agent_expr\<close> in \<^verbatim>\<open>gdb-15.1/gdbserver/ax.cc\<close>): a stack
  machine with a cached top, one step per bytecode. Expressions that the verifier of
  \<open>Agent_Expr\<close> accepts are proved not to leave the stack or the bytecode.
\<close>

subsection \<open>The machine\<close>

definition STACK_MAX :: nat where
  "STACK_MAX = 100"

datatype eval_result =
  expr_eval_no_error | expr_eval_empty_expression | expr_eval_empty_stack
  | expr_eval_stack_overflow | expr_eval_stack_underflow | expr_eval_unhandled_opcode
  | expr_eval_unrecognized_opcode | expr_eval_divide_by_zero | expr_eval_invalid_memory_access

text \<open>What the evaluator does to the outside: traced memory, variables and strings, and output.\<close>

datatype eval_event =
  Trace_memory CORE_ADDR LONGEST
| Trace_variable nat
| Trace_string CORE_ADDR LONGEST
| Print CORE_ADDR CORE_ADDR "uint8 list" nat "LONGEST list"

record eval_state =
  pc :: nat
  sp :: int
  top_cache :: LONGEST
  stack :: "LONGEST list"
  variables :: "nat \<Rightarrow> LONGEST"
  events :: "eval_event list"

text \<open>The target: memory reads that may fail, and the size in bytes and value of each register.\<close>

record eval_target =
  read_memory :: "CORE_ADDR \<Rightarrow> nat \<Rightarrow> LONGEST option"
  register :: "nat \<Rightarrow> nat \<times> LONGEST"

text \<open>Why a run stops: a result, a GDB error, or behaviour that C++ leaves undefined.\<close>

datatype undefined_kind = Stack_index | Code_index | Shift_count | Division_overflow

datatype outcome =
  Returns eval_result "LONGEST option"
| Raises
| Undef undefined_kind

type_synonym 'a eval = "outcome + 'a"

definition then_do :: "'a eval \<Rightarrow> ('a \<Rightarrow> 'b eval) \<Rightarrow> 'b eval" where
  "then_do m f = (case m of Inl e \<Rightarrow> Inl e | Inr x \<Rightarrow> f x)"

definition stack_at :: "eval_state \<Rightarrow> int \<Rightarrow> LONGEST eval" where
  "stack_at s k = (if 0 \<le> k \<and> k < int STACK_MAX then Inr (stack s ! nat k) else Inl (Undef Stack_index))"

definition stack_put :: "int \<Rightarrow> LONGEST \<Rightarrow> eval_state \<Rightarrow> eval_state eval" where
  "stack_put k v s =
     (if 0 \<le> k \<and> k < int STACK_MAX then Inr (s\<lparr>stack := (stack s)[nat k := v]\<rparr>)
      else Inl (Undef Stack_index))"

text \<open>\<open>stack[sp++] = top\<close>.\<close>

definition flush :: "eval_state \<Rightarrow> eval_state eval" where
  "flush s = then_do (stack_put (sp s) (top_cache s) s) (\<lambda>s. Inr (s\<lparr>sp := sp s + 1\<rparr>))"

text \<open>\<open>stack[--sp]\<close>.\<close>

definition popped :: "eval_state \<Rightarrow> (LONGEST \<times> eval_state) eval" where
  "popped s = then_do (stack_at s (sp s - 1)) (\<lambda>v. Inr (v, s\<lparr>sp := sp s - 1\<rparr>))"

text \<open>\<open>if (--sp >= 0) top = stack[sp]\<close>.\<close>

definition drop_top :: "eval_state \<Rightarrow> eval_state eval" where
  "drop_top s =
     (if sp s - 1 \<ge> 0
      then then_do (stack_at s (sp s - 1)) (\<lambda>v. Inr (s\<lparr>sp := sp s - 1, top_cache := v\<rparr>))
      else Inr (s\<lparr>sp := sp s - 1\<rparr>))"

text \<open>\<open>aexpr->bytes[pc++]\<close>.\<close>

definition next_byte :: "uint8 list \<Rightarrow> eval_state \<Rightarrow> (uint8 \<times> eval_state) eval" where
  "next_byte bs s =
     (if pc s < length bs then Inr (bs ! pc s, s\<lparr>pc := pc s + 1\<rparr>) else Inl (Undef Code_index))"

definition next_two :: "uint8 list \<Rightarrow> eval_state \<Rightarrow> (nat \<times> eval_state) eval" where
  "next_two bs s = then_do (next_byte bs s) (\<lambda>(b1, s1). then_do (next_byte bs s1)
     (\<lambda>(b2, s2). Inr (unat b1 * 256 + unat b2, s2)))"

definition binary :: "(LONGEST \<Rightarrow> LONGEST \<Rightarrow> LONGEST eval) \<Rightarrow> eval_state \<Rightarrow> eval_state eval" where
  "binary f s = then_do (popped s) (\<lambda>(v, s1). then_do (f v (top_cache s1))
     (\<lambda>r. Inr (s1\<lparr>top_cache := r\<rparr>)))"

definition unary :: "(LONGEST \<Rightarrow> LONGEST) \<Rightarrow> eval_state \<Rightarrow> eval_state eval" where
  "unary f s = Inr (s\<lparr>top_cache := f (top_cache s)\<rparr>)"

text \<open>The zero test of the divisions comes before the pop.\<close>

definition division :: "(LONGEST \<Rightarrow> LONGEST \<Rightarrow> LONGEST eval) \<Rightarrow> eval_state \<Rightarrow> eval_state eval" where
  "division f s =
     (if top_cache s = 0 then Inl (Returns expr_eval_divide_by_zero None) else binary f s)"

definition signed_op :: "(int \<Rightarrow> int \<Rightarrow> int) \<Rightarrow> LONGEST \<Rightarrow> LONGEST \<Rightarrow> LONGEST eval" where
  "signed_op f a b =
     (if sint a = - (2 ^ 63) \<and> sint b = -1 then Inl (Undef Division_overflow)
      else Inr (word_of_int (f (sint a) (sint b))))"

definition shift_op :: "(nat \<Rightarrow> LONGEST \<Rightarrow> LONGEST) \<Rightarrow> LONGEST \<Rightarrow> LONGEST \<Rightarrow> LONGEST eval" where
  "shift_op f a b = (if unat b \<ge> 64 then Inl (Undef Shift_count) else Inr (f (unat b) a))"

definition truth :: "bool \<Rightarrow> LONGEST" where
  "truth b = (if b then 1 else 0)"

definition load :: "eval_target \<Rightarrow> nat \<Rightarrow> eval_state \<Rightarrow> eval_state eval" where
  "load tgt n s =
     (case read_memory tgt (top_cache s) n of
        None \<Rightarrow> Inl (Returns expr_eval_invalid_memory_access None)
      | Some v \<Rightarrow> Inr (s\<lparr>top_cache := take_bit (8 * n) v\<rparr>))"

text \<open>Big-endian constants of \<open>n\<close> bytes: \<open>top = (top << 8) + bytes[pc++]\<close>, from the first byte on.\<close>

fun const_more :: "uint8 list \<Rightarrow> nat \<Rightarrow> eval_state \<Rightarrow> eval_state eval" where
  "const_more bs 0 s = Inr s"
| "const_more bs (Suc n) s = then_do (next_byte bs s)
     (\<lambda>(b, s1). const_more bs n (s1\<lparr>top_cache := push_bit 8 (top_cache s1) + ucast b\<rparr>))"

definition push_const :: "uint8 list \<Rightarrow> nat \<Rightarrow> eval_state \<Rightarrow> eval_state eval" where
  "push_const bs n s = then_do (flush s) (\<lambda>s1. then_do (next_byte bs s1)
     (\<lambda>(b, s2). const_more bs (n - 1) (s2\<lparr>top_cache := ucast b\<rparr>)))"

text \<open>
  Sign extension. The mask is \<^verbatim>\<open>1 << (arg - 1)\<close> computed as an \<^verbatim>\<open>int\<close> and then widened: it is
  negative for 32 bits, and undefined for 0 and for more than 32.
\<close>

definition ext_mask :: "nat \<Rightarrow> LONGEST" where
  "ext_mask n = scast (push_bit (n - 1) 1 :: 32 word)"

definition exec_ext :: "uint8 list \<Rightarrow> eval_state \<Rightarrow> eval_state eval" where
  "exec_ext bs s = then_do (next_byte bs s) (\<lambda>(b, s1).
     let arg = unat b in
     if arg < 64
     then if arg = 0 \<or> arg > 32 then Inl (Undef Shift_count)
          else unary (\<lambda>t. ((t AND (push_bit arg 1 - 1)) XOR ext_mask arg) - ext_mask arg) s1
     else Inr s1)"

definition exec_zero_ext :: "uint8 list \<Rightarrow> eval_state \<Rightarrow> eval_state eval" where
  "exec_zero_ext bs s = then_do (next_byte bs s) (\<lambda>(b, s1).
     let arg = unat b in
     if arg < 64 then unary (\<lambda>t. t AND (push_bit arg 1 - 1)) s1 else Inr s1)"

definition exec_reg :: "eval_target \<Rightarrow> uint8 list \<Rightarrow> eval_state \<Rightarrow> eval_state eval" where
  "exec_reg tgt bs s = then_do (flush s) (\<lambda>s1. then_do (next_two bs s1) (\<lambda>(regnum, s2).
     let (sz, v) = register tgt regnum in
     if sz = 8 \<or> sz = 4 \<or> sz = 2 \<or> sz = 1 then Inr (s2\<lparr>top_cache := take_bit (8 * sz) v\<rparr>)
     else Inl Raises))"

definition record_event :: "eval_event \<Rightarrow> eval_state \<Rightarrow> eval_state" where
  "record_event ev s = s\<lparr>events := events s @ [ev]\<rparr>"

fun pop_args :: "nat \<Rightarrow> eval_state \<Rightarrow> LONGEST list \<Rightarrow> (LONGEST list \<times> eval_state) eval" where
  "pop_args 0 s args = Inr (args, s)"
| "pop_args (Suc n) s args =
     then_do (drop_top s) (\<lambda>s1. pop_args n s1 (args @ [top_cache s]))"

text \<open>\<open>args\<close> has \<open>STACK_MAX\<close> elements, and the format is read where the string ends.\<close>

definition exec_printf :: "uint8 list \<Rightarrow> eval_state \<Rightarrow> eval_state eval" where
  "exec_printf bs s = then_do (next_byte bs s) (\<lambda>(b, s1). then_do (next_two bs s1) (\<lambda>(slen, s2).
     let start = pc s2; nargs = unat b; fn = top_cache s2 in
     then_do (drop_top (s2\<lparr>pc := start + slen\<rparr>)) (\<lambda>s3.
     then_do (drop_top s3) (\<lambda>s4.
       if nargs > STACK_MAX then Inl (Undef Stack_index)
       else then_do (pop_args nargs s4 []) (\<lambda>(args, s5).
         if slen = 0 \<or> start + slen > length bs then Inl (Undef Code_index)
         else if bs ! (start + slen - 1) \<noteq> 0 then Inl Raises
         else Inr (record_event
                (Print fn (top_cache s3) (take slen (drop start bs)) nargs args) s5))))))"

text \<open>The switch over the opcode; the program counter is already past the opcode.\<close>

fun exec :: "eval_target \<Rightarrow> uint8 list \<Rightarrow> agent_op \<Rightarrow> eval_state \<Rightarrow> eval_state eval" where
  "exec tgt bs aop_add s = binary (\<lambda>a b. Inr (b + a)) s"
| "exec tgt bs aop_sub s = binary (\<lambda>a b. Inr (a - b)) s"
| "exec tgt bs aop_mul s = binary (\<lambda>a b. Inr (b * a)) s"
| "exec tgt bs aop_div_signed s = division (signed_op (sdiv)) s"
| "exec tgt bs aop_div_unsigned s = division (\<lambda>a b. Inr (a div b)) s"
| "exec tgt bs aop_rem_signed s = division (signed_op (smod)) s"
| "exec tgt bs aop_rem_unsigned s = division (\<lambda>a b. Inr (a mod b)) s"
| "exec tgt bs aop_lsh s = binary (shift_op push_bit) s"
| "exec tgt bs aop_rsh_signed s = binary (shift_op signed_drop_bit) s"
| "exec tgt bs aop_rsh_unsigned s = binary (shift_op drop_bit) s"
| "exec tgt bs aop_trace s = then_do (popped s) (\<lambda>(a, s1).
     drop_top (record_event (Trace_memory a (top_cache s1)) s1))"
| "exec tgt bs aop_trace_quick s = then_do (next_byte bs s) (\<lambda>(n, s1).
     Inr (record_event (Trace_memory (top_cache s1) (ucast n)) s1))"
| "exec tgt bs aop_log_not s = unary (\<lambda>t. truth (t = 0)) s"
| "exec tgt bs aop_bit_and s = binary (\<lambda>a b. Inr (b AND a)) s"
| "exec tgt bs aop_bit_or s = binary (\<lambda>a b. Inr (b OR a)) s"
| "exec tgt bs aop_bit_xor s = binary (\<lambda>a b. Inr (b XOR a)) s"
| "exec tgt bs aop_bit_not s = unary (\<lambda>t. NOT t) s"
| "exec tgt bs aop_equal s = binary (\<lambda>a b. Inr (truth (a = b))) s"
| "exec tgt bs aop_less_signed s = binary (\<lambda>a b. Inr (truth (sint a < sint b))) s"
| "exec tgt bs aop_less_unsigned s = binary (\<lambda>a b. Inr (truth (a < b))) s"
| "exec tgt bs aop_ext s = exec_ext bs s"
| "exec tgt bs aop_ref8 s = load tgt 1 s"
| "exec tgt bs aop_ref16 s = load tgt 2 s"
| "exec tgt bs aop_ref32 s = load tgt 4 s"
| "exec tgt bs aop_ref64 s = load tgt 8 s"
| "exec tgt bs aop_if_goto s =
     then_do (if top_cache s \<noteq> 0 then then_do (next_two bs s) (\<lambda>(t, s1). Inr (s1\<lparr>pc := t\<rparr>))
              else Inr (s\<lparr>pc := pc s + 2\<rparr>)) drop_top"
| "exec tgt bs aop_goto s = then_do (next_two bs s) (\<lambda>(t, s1). Inr (s1\<lparr>pc := t\<rparr>))"
| "exec tgt bs aop_const8 s = push_const bs 1 s"
| "exec tgt bs aop_const16 s = push_const bs 2 s"
| "exec tgt bs aop_const32 s = push_const bs 4 s"
| "exec tgt bs aop_const64 s = push_const bs 8 s"
| "exec tgt bs aop_reg s = exec_reg tgt bs s"
| "exec tgt bs aop_end s =
     Inl (if sp s \<le> 0 then Returns expr_eval_empty_stack None
          else Returns expr_eval_no_error (Some (top_cache s)))"
| "exec tgt bs aop_dup s = flush s"
| "exec tgt bs aop_pop s = drop_top s"
| "exec tgt bs aop_pick s = then_do (next_byte bs s) (\<lambda>(n, s1).
     then_do (stack_put (sp s1) (top_cache s1) s1) (\<lambda>s2.
     then_do (stack_at s2 (sp s2 - int (unat n))) (\<lambda>v. Inr (s2\<lparr>top_cache := v, sp := sp s2 + 1\<rparr>))))"
| "exec tgt bs aop_rot s =
     then_do (stack_at s (sp s - 1)) (\<lambda>tem. then_do (stack_at s (sp s - 2)) (\<lambda>v.
     then_do (stack_put (sp s - 1) v s) (\<lambda>s1.
     then_do (stack_put (sp s - 2) (top_cache s) s1) (\<lambda>s2. Inr (s2\<lparr>top_cache := tem\<rparr>)))))"
| "exec tgt bs aop_zero_ext s = exec_zero_ext bs s"
| "exec tgt bs aop_swap s =
     then_do (stack_put (sp s) (top_cache s) s) (\<lambda>s1. then_do (stack_at s1 (sp s - 1)) (\<lambda>v.
     then_do (stack_put (sp s - 1) (top_cache s) s1) (\<lambda>s2. Inr (s2\<lparr>top_cache := v\<rparr>))))"
| "exec tgt bs aop_getv s = then_do (flush s) (\<lambda>s1. then_do (next_two bs s1) (\<lambda>(n, s2).
     Inr (s2\<lparr>top_cache := variables s2 n\<rparr>)))"
| "exec tgt bs aop_setv s = then_do (next_two bs s) (\<lambda>(n, s1).
     Inr (s1\<lparr>variables := (variables s1)(n := top_cache s1)\<rparr>))"
| "exec tgt bs aop_tracev s = then_do (next_two bs s) (\<lambda>(n, s1). Inr (record_event (Trace_variable n) s1))"
| "exec tgt bs aop_tracenz s = then_do (popped s) (\<lambda>(a, s1).
     drop_top (record_event (Trace_string a (top_cache s1)) s1))"
| "exec tgt bs aop_printf s = exec_printf bs s"
| "exec tgt bs aop_invalid2 s = Inl (Returns expr_eval_unrecognized_opcode None)"
| "exec tgt bs p s = Inl (Returns expr_eval_unhandled_opcode None)"

text \<open>One iteration of the loop, with the check for stack badness at its end.\<close>

definition eval_step :: "eval_target \<Rightarrow> uint8 list \<Rightarrow> eval_state \<Rightarrow> eval_state eval" where
  "eval_step tgt bs s = then_do (next_byte bs s) (\<lambda>(b, s1).
     then_do (case agent_op_of b of
                None \<Rightarrow> Inl (Returns expr_eval_unrecognized_opcode None)
              | Some p \<Rightarrow> exec tgt bs p s1)
       (\<lambda>s2. if sp s2 \<ge> int STACK_MAX - 1 then Inl (Returns expr_eval_stack_overflow None)
             else if sp s2 < 0 then Inl (Returns expr_eval_stack_underflow None)
             else Inr s2))"

partial_function (option) eval_loop ::
  "eval_target \<Rightarrow> uint8 list \<Rightarrow> eval_state \<Rightarrow> outcome option" where
  "eval_loop tgt bs s =
     (case eval_step tgt bs s of Inl r \<Rightarrow> Some r | Inr s1 \<Rightarrow> eval_loop tgt bs s1)"

definition eval_start :: "(nat \<Rightarrow> LONGEST) \<Rightarrow> eval_state" where
  "eval_start vars = \<lparr>pc = 0, sp = 0, top_cache = 0, stack = replicate STACK_MAX 0,
     variables = vars, events = []\<rparr>"

text \<open>\<open>None\<close> when the expression does not return.\<close>

definition gdb_eval_agent_expr ::
  "eval_target \<Rightarrow> uint8 list \<Rightarrow> (nat \<Rightarrow> LONGEST) \<Rightarrow> outcome option" where
  "gdb_eval_agent_expr tgt bs vars =
     (if bs = [] then Some (Returns expr_eval_empty_expression None)
      else eval_loop tgt bs (eval_start vars))"

subsection \<open>Verified expressions\<close>

text \<open>
  The operations whose stack effect is not what the opcode table says, or that the evaluator does
  not know: the arguments of \<open>printf\<close> are on the stack and in the bytecode, \<open>pick\<close> reads below the
  consumed elements, \<open>tracev\<close> pushes nothing.
\<close>

definition regular :: "agent_op \<Rightarrow> bool" where
  "regular p \<longleftrightarrow> p \<notin> {aop_printf, aop_pick, aop_tracev, aop_invalid2}"

definition harmless :: "outcome \<Rightarrow> bool" where
  "harmless r \<longleftrightarrow> r \<notin> {Undef Stack_index, Undef Code_index, Returns expr_eval_stack_overflow None,
     Returns expr_eval_stack_underflow None, Returns expr_eval_unrecognized_opcode None}"

lemmas exec_simps = then_do_def stack_at_def stack_put_def flush_def popped_def drop_top_def
  next_byte_def next_two_def binary_def unary_def division_def signed_op_def shift_op_def load_def
  push_const_def exec_ext_def exec_zero_ext_def exec_reg_def record_event_def STACK_MAX_def Let_def

lemma const_more_next:
  "pc s + n \<le> length bs \<Longrightarrow> \<exists>v. const_more bs n s = Inr (s\<lparr>pc := pc s + n, top_cache := v\<rparr>)"
proof (induction n arbitrary: s)
  case 0
  then show ?case by (intro exI [of _ "top_cache s"]) simp
next
  case (Suc n)
  let ?s = "s\<lparr>pc := pc s + 1, top_cache := push_bit 8 (top_cache s) + ucast (bs ! pc s)\<rparr>"
  obtain v where "const_more bs n ?s = Inr (?s\<lparr>pc := pc ?s + n, top_cache := v\<rparr>)"
    using Suc.IH [of ?s] Suc.prems by auto
  then show ?case
    using Suc.prems by (intro exI [of _ v]) (simp add: then_do_def next_byte_def)
qed

text \<open>The stack height, the stack and the offset after a regular operation.\<close>

definition proceeds :: "uint8 list \<Rightarrow> nat \<Rightarrow> agent_op \<Rightarrow> int \<Rightarrow> eval_state eval \<Rightarrow> bool" where
  "proceeds bs i p h r \<longleftrightarrow>
     (case r of
        Inl out \<Rightarrow> harmless out
      | Inr s2 \<Rightarrow> sp s2 = height_after p h \<and> length (stack s2) = STACK_MAX \<and>
          (p \<noteq> aop_goto \<and> pc s2 = i + 1 + op_size p \<or> is_jump p \<and> pc s2 = jump_target bs i))"

lemma exec_proceeds:
  assumes "regular p" "pc s = i + 1" "i + 1 + op_size p \<le> length bs" "sp s = h"
    "0 \<le> h - int (consumed p)" "h < int STACK_MAX - 1" "length (stack s) = STACK_MAX" "0 \<le> h"
  shows "proceeds bs i p h (exec tgt bs p s)"
proof (cases "p \<in> {aop_const8, aop_const16, aop_const32, aop_const64}")
  case True
  let ?n = "op_size p"
  let ?s = "s\<lparr>stack := (stack s)[nat (sp s) := top_cache s], sp := sp s + 1, pc := pc s + 1,
    top_cache := ucast (bs ! pc s)\<rparr>"
  obtain v where v: "const_more bs (?n - 1) ?s = Inr (?s\<lparr>pc := pc ?s + (?n - 1), top_cache := v\<rparr>)"
    using const_more_next [of ?s "?n - 1" bs] assms(2,3) True by (auto simp: op_size_def)
  have "exec tgt bs p s = push_const bs ?n s" using True by (auto simp: op_size_def)
  also have "\<dots> = Inr (?s\<lparr>pc := pc ?s + (?n - 1), top_cache := v\<rparr>)"
    using assms True v by (auto simp: exec_simps op_size_def)
  finally show ?thesis
    using assms True by (auto simp: proceeds_def height_after_def consumed_def produced_def op_size_def)
next
  case False
  then show ?thesis
    using assms
    by (cases p)
      (simp_all add: proceeds_def regular_def exec_simps height_after_def consumed_def produced_def
        op_size_def harmless_def is_jump_def jump_target_def
        split: option.split prod.split)
qed

inductive regular_step :: "eval_target \<Rightarrow> uint8 list \<Rightarrow> eval_state \<Rightarrow> eval_state \<Rightarrow> bool"
  for tgt bs where
  "op_at bs (pc s) = Some p \<Longrightarrow> regular p \<Longrightarrow> eval_step tgt bs s = Inr s' \<Longrightarrow> regular_step tgt bs s s'"

inductive_cases regular_stepE: "regular_step tgt bs s s'"

lemma eval_step_Inr:
  assumes "eval_step tgt bs s = Inr s'" "op_at bs (pc s) = Some p"
  shows "exec tgt bs p (s\<lparr>pc := pc s + 1\<rparr>) = Inr s' \<and> 0 \<le> sp s' \<and> sp s' < int STACK_MAX - 1"
  using assms
  by (auto simp: eval_step_def then_do_def next_byte_def op_at_def split: if_splits sum.splits)

lemma exec_verified:
  assumes "ax_reqs arch ax = Inr ax'" "flaw ax' = agent_flaw_none" "collects_registers arch"
    and "0 \<le> min_height ax'"
    and "(height_step (buf ax))\<^sup>*\<^sup>* (0, 0) (pc s, sp s)" "length (stack s) = STACK_MAX"
    and "0 \<le> sp s" "sp s < int STACK_MAX - 1" "op_at (buf ax) (pc s) = Some p" "regular p"
  shows "proceeds (buf ax) (pc s) p (sp s) (exec tgt (buf ax) p (s\<lparr>pc := pc s + 1\<rparr>)) \<and>
    height_after p (sp s) \<le> max_height ax' \<and> 0 \<le> height_after p (sp s)"
proof -
  have "pc s < length (buf ax)" using assms(9) by (auto simp: op_at_def split: if_splits)
  then have w: "pc s + 1 + op_size p \<le> length (buf ax)" "within ax' p (sp s)"
    using ax_reqs_sound [OF assms(1-3,5)] assms(9) by auto
  then have "0 \<le> sp s - int (consumed p)" using assms(4) by (simp add: within_def)
  then show ?thesis
    using exec_proceeds [OF assms(10), of "s\<lparr>pc := pc s + 1\<rparr>" "pc s" "buf ax" "sp s" tgt] w assms(6-8)
    by (simp add: within_def height_after_def)
qed

lemma regular_run:
  assumes "ax_reqs arch ax = Inr ax'" "flaw ax' = agent_flaw_none" "collects_registers arch"
    and "0 \<le> min_height ax'" and "(regular_step tgt (buf ax))\<^sup>*\<^sup>* (eval_start vars) s"
  shows "(height_step (buf ax))\<^sup>*\<^sup>* (0, 0) (pc s, sp s) \<and> length (stack s) = STACK_MAX \<and>
    0 \<le> sp s \<and> sp s < int STACK_MAX - 1"
  using assms(5)
proof (induction rule: rtranclp_induct)
  case base
  then show ?case by (simp add: eval_start_def STACK_MAX_def)
next
  case (step s s')
  from step(2) obtain p where p: "op_at (buf ax) (pc s) = Some p" "regular p"
    "eval_step tgt (buf ax) s = Inr s'" by (rule regular_stepE)
  have ex: "exec tgt (buf ax) p (s\<lparr>pc := pc s + 1\<rparr>) = Inr s'" and
    b: "0 \<le> sp s'" "sp s' < int STACK_MAX - 1"
    using eval_step_Inr [OF p(3,1)] by auto
  have "proceeds (buf ax) (pc s) p (sp s) (Inr s')"
    using exec_verified [OF assms(1-4) _ _ _ _ p(1,2), of tgt] step(3) ex by auto
  then have s': "sp s' = height_after p (sp s)" "length (stack s') = STACK_MAX"
    "p \<noteq> aop_goto \<and> pc s' = pc s + 1 + op_size p \<or> is_jump p \<and> pc s' = jump_target (buf ax) (pc s)"
    by (auto simp: proceeds_def)
  have "height_step (buf ax) (pc s, sp s) (pc s', sp s')"
    using s' p(1,2) height_step.intros [of "buf ax" "pc s" p] by (auto simp: regular_def)
  then show ?case using step(3) s' b by (auto intro: rtranclp.rtrancl_into_rtrancl)
qed

subsection \<open>Constants\<close>

lemma accumulate_snoc: "accumulate (bs @ [b]) = push_bit 8 (accumulate bs) OR ucast b"
  by (simp add: accumulate_def)

lemma accumulate_const_bytes: "8 * n \<le> 64 \<Longrightarrow> accumulate (const_bytes n l) = take_bit (8 * n) l"
proof (induction n arbitrary: l)
  case 0
  then show ?case by (simp add: accumulate_def)
next
  case (Suc n)
  have "accumulate (const_bytes (Suc n) l) =
      push_bit 8 (take_bit (8 * n) (signed_drop_bit 8 l)) OR ucast (ucast (l AND 0xff) :: uint8)"
    using Suc by (simp add: accumulate_snoc)
  also have "\<dots> = take_bit (8 * Suc n) l"
  proof (rule bit_eqI)
    fix i
    assume "possible_bit TYPE(64 word) i"
    then have i: "i < 64" by simp
    have ff: "(0xff :: LONGEST) = mask 8" by (simp add: mask_eq_exp_minus_1)
    show "bit (push_bit 8 (take_bit (8 * n) (signed_drop_bit 8 l)) OR
        ucast (ucast (l AND 0xff) :: uint8)) i = bit (take_bit (8 * Suc n) l) i"
      using i Suc.prems unfolding ff
      by (cases "i < 8") (auto simp: bit_simps not_less)
  qed
  finally show ?case .
qed

lemma length_const_bytes [simp]: "length (const_bytes n l) = n"
  by (induction n arbitrary: l) auto

lemma const_more_eq:
  "pc s + n \<le> length bs \<Longrightarrow> const_more bs n s =
     Inr (s\<lparr>pc := pc s + n,
       top_cache := fold (\<lambda>b a. push_bit 8 a OR ucast b) (take n (drop (pc s) bs)) (top_cache s)\<rparr>)"
proof (induction n arbitrary: s)
  case (Suc n)
  have "push_bit 8 t + ucast b = push_bit 8 t OR (ucast b :: LONGEST)" for t and b :: uint8
    by (rule disjunctive_add) (auto simp: bit_simps dest: bit_imp_le_length)
  moreover have "take (Suc n) (drop (pc s) bs) = bs ! pc s # take n (drop (Suc (pc s)) bs)"
    using Suc.prems by (simp add: Cons_nth_drop_Suc [symmetric])
  ultimately show ?case
    using Suc by (simp add: then_do_def next_byte_def)
qed simp

lemma push_const_eq:
  assumes "pc s + n \<le> length bs" "0 < n" "0 \<le> sp s" "sp s < int STACK_MAX"
  shows "push_const bs n s =
    Inr (s\<lparr>pc := pc s + n, sp := sp s + 1, stack := (stack s)[nat (sp s) := top_cache s],
      top_cache := accumulate (take n (drop (pc s) bs))\<rparr>)"
proof -
  obtain k where k: "n = Suc k" using assms(2) by (cases n) auto
  have "take (Suc k) (drop (pc s) bs) = bs ! pc s # take k (drop (Suc (pc s)) bs)"
    using assms(1) k by (simp add: Cons_nth_drop_Suc [symmetric])
  then show ?thesis
    using assms k
    by (simp add: push_const_def then_do_def flush_def stack_put_def next_byte_def const_more_eq
        accumulate_def)
qed

lemma xor_bit_clears:
  assumes "bit v n" shows "v XOR push_bit n 1 = v - push_bit n (1 :: LONGEST)"
proof -
  have n: "n < 64" using assms bit_imp_le_length by fastforce
  have "(v XOR push_bit n 1) + push_bit n 1 = (v XOR push_bit n 1) OR push_bit n 1"
    by (rule disjunctive_add) (use assms in \<open>auto simp: bit_simps\<close>)
  also have "\<dots> = v"
    by (rule bit_eqI) (use assms in \<open>auto simp: bit_simps\<close>)
  finally show ?thesis by (metis add_diff_cancel_right')
qed

lemma short_bits:
  assumes "- (2 ^ n) \<le> sint l" "sint l < 2 ^ n" "n \<le> i" "i < 64"
  shows "bit (l :: LONGEST) i \<longleftrightarrow> bit l 63"
proof -
  have "signed_take_bit n (sint l) = sint l"
    using assms(1,2) by (rule signed_take_bit_int_eq_self)
  moreover have "bit (sint l) j \<longleftrightarrow> bit l j" if "j < 64" for j
    using that by (simp add: bit_sint_iff min_def)
  moreover have "bit (signed_take_bit n (sint l)) j \<longleftrightarrow> bit (sint l) n" if "n \<le> j" for j
    using that by (simp add: bit_signed_take_bit_iff min_def)
  ultimately have "bit l j \<longleftrightarrow> bit (sint l) n" if "n \<le> j" "j < 64" for j
    using that by metis
  from this [of i] this [of 63] show ?thesis using assms(3,4) by simp
qed

lemma negative_sign: "sint l < 0 \<longleftrightarrow> bit (l :: LONGEST) 63"
  using bit_last_iff [of l] by simp

lemma short_nonneg:
  assumes "0 \<le> sint l" "sint l < 2 ^ n" "n < 64"
  shows "take_bit (Suc n) (l :: LONGEST) = l"
proof (rule bit_eqI)
  fix i assume "possible_bit TYPE(64 word) i"
  moreover have "- (2 ^ n) \<le> sint l" using assms(1) by (smt (verit) zero_le_power)
  ultimately show "bit (take_bit (Suc n) l) i = bit l i"
    using short_bits [OF _ assms(2), of i] negative_sign [of l] assms(1)
    by (cases "n \<le> i") (auto simp: bit_simps)
qed

lemma sign_extends:
  assumes "sint l < 0" "- (2 ^ n) \<le> sint l" "n < 63"
  shows "(take_bit (Suc n) l XOR push_bit n 1) - push_bit n 1 = (l :: LONGEST)"
proof -
  have b: "bit l i" if "n \<le> i" "i < 64" for i
    using short_bits [OF assms(2) _ that] assms(1) negative_sign [of l]
    by (meson less_le_trans zero_le_numeral zero_le_power less_imp_le order_less_le_trans)
  have "(take_bit (Suc n) l XOR push_bit n 1) - push_bit n 1 = take_bit (Suc n) l - 2 ^ Suc n"
    using xor_bit_clears [of "take_bit (Suc n) l" n] b [of n] assms(3)
    by (simp add: bit_simps push_bit_eq_mult)
  also have "\<dots> = take_bit (Suc n) l + NOT (mask (Suc n))"
    by (simp add: minus_exp_eq_not_mask [symmetric])
  also have "\<dots> = take_bit (Suc n) l OR NOT (mask (Suc n))"
    by (rule disjunctive_add) (auto simp: bit_simps)
  also have "\<dots> = l"
    using b by (intro bit_eqI) (auto simp: bit_simps less_Suc_eq not_less)
  finally show ?thesis .
qed

lemma sign_extends_32:
  assumes "sint l < 0" "- (2 ^ 31) \<le> sint l"
  shows "(take_bit 32 l XOR ext_mask 32) - ext_mask 32 = (l :: LONGEST)"
proof -
  have b: "bit l i" if "31 \<le> i" "i < 64" for i
    using short_bits [OF assms(2) _ that] assms(1) negative_sign [of l] by auto
  define k :: nat where "k = 31"
  have bk: "bit l i" if "k \<le> i" "i < 64" for i
    using b that by (simp add: k_def)
  have k: "k < 32" and k32: "i < 32 \<Longrightarrow> i \<le> k" for i by (auto simp: k_def)
  have m: "ext_mask 32 = NOT (mask k)"
    by (rule bit_eqI, auto simp: ext_mask_def bit_simps k_def [symmetric], simp add: k_def)
  have "(take_bit 32 l XOR ext_mask 32) - ext_mask 32 = (take_bit 32 l XOR NOT (mask k)) + push_bit k 1"
    unfolding m by (simp add: push_bit_eq_mult minus_exp_eq_not_mask [symmetric])
  also have "\<dots> = (take_bit 32 l XOR NOT (mask k)) OR push_bit k 1"
    using bk k by (intro disjunctive_add) (auto simp: bit_simps)
  also have "\<dots> = l"
  proof (rule bit_eqI)
    fix i assume "possible_bit TYPE(64 word) i"
    then have i: "i < 64" by simp
    have "i < k \<or> i = k \<or> 32 \<le> i" by (auto simp: k_def)
    then show "bit ((take_bit 32 l XOR NOT (mask k)) OR push_bit k 1) i = bit l i"
      using i bk k by (auto simp: bit_simps)
  qed
  finally show ?thesis .
qed

lemma const_size_range:
  assumes "const_size l = n" "n < 64"
  shows "n \<in> {8, 16, 32} \<and> - (2 ^ (n - 1)) \<le> sint l \<and> sint l < 2 ^ (n - 1)"
  using assms by (auto simp: const_size_def split: if_splits)

lemma eval_const:
  assumes "8 * n \<in> {8, 16, 32, 64}"
    and "drop (pc s) bs = opcode (const_op (8 * n)) # const_bytes n l @ rest"
    and "0 \<le> sp s" "sp s < int STACK_MAX - 2"
  shows "eval_step tgt bs s = Inr (s\<lparr>pc := pc s + 1 + n, sp := sp s + 1,
     stack := (stack s)[nat (sp s) := top_cache s], top_cache := take_bit (8 * n) l\<rparr>)"
proof -
  have len: "pc s + 1 + n \<le> length bs" "pc s < length bs"
    using arg_cong [OF assms(2), of length] by auto
  have op: "bs ! pc s = opcode (const_op (8 * n))"
    using assms(2) len(2) by (metis hd_drop_conv_nth list.sel(1))
  have bytes: "take n (drop (pc s + 1) bs) = const_bytes n l"
  proof -
    have "drop (pc s + 1) bs = drop 1 (drop (pc s) bs)" by simp
    then show ?thesis unfolding assms(2) by simp
  qed
  have decode: "agent_op_of (opcode (const_op (8 * n))) = Some (const_op (8 * n))"
    using assms(1) by (auto simp: const_op_def agent_op_of_def all_ops_def)
  have "exec tgt bs (const_op (8 * n)) s1 = push_const bs n s1" for s1
    using assms(1) by (auto simp: const_op_def)
  then show ?thesis
    using len op decode assms(1,3,4) bytes accumulate_const_bytes [of n l]
    by (auto simp: eval_step_def then_do_def next_byte_def push_const_eq STACK_MAX_def)
qed

lemma eval_ext:
  assumes "drop (pc s) bs = opcode aop_ext # word_of_int (int n) # rest"
    and "0 < n" "n \<le> 32" "0 \<le> sp s" "sp s < int STACK_MAX - 1"
  shows "eval_step tgt bs s = Inr (s\<lparr>pc := pc s + 2,
     top_cache := (take_bit n (top_cache s) XOR ext_mask n) - ext_mask n\<rparr>)"
proof -
  have len: "pc s + 1 < length bs"
    using arg_cong [OF assms(1), of length] by auto
  have op: "bs ! pc s = opcode aop_ext" "bs ! (pc s + 1) = word_of_int (int n)"
    using assms(1) len nth_drop [of "pc s" bs 0] nth_drop [of "pc s" bs 1] by auto
  have decode: "agent_op_of (opcode aop_ext) = Some aop_ext"
    by (simp add: agent_op_of_def all_ops_def)
  have arg: "unat (word_of_int (int n) :: uint8) = n"
    using assms(3) by (simp add: unsigned_of_nat take_bit_nat_eq_self)
  have m: "t AND (push_bit n 1 - 1) = take_bit n t" for t :: LONGEST
    by (simp add: take_bit_eq_mask mask_eq_exp_minus_1 push_bit_eq_mult)
  show ?thesis
    using assms len op decode arg m
    by (simp add: eval_step_def then_do_def next_byte_def exec_ext_def unary_def Let_def del: opcode.simps)
qed

text \<open>The code of \<open>ax_const_l\<close> pushes exactly the value.\<close>

lemma eval_ax_const_l:
  assumes "ax_const_l x l = Inr x'" "bs = buf x' @ rest" "pc s = length (buf x)"
    and "0 \<le> sp s" "sp s < int STACK_MAX - 2"
  shows "\<exists>s'. (\<lambda>s s'. eval_step tgt bs s = Inr s')\<^sup>*\<^sup>* s s' \<and> pc s' = length (buf x') \<and>
    sp s' = sp s + 1 \<and> top_cache s' = l \<and> stack s' = (stack s)[nat (sp s) := top_cache s]"
proof -
  define n where "n = const_size l div 8"
  have n: "const_size l = 8 * n" "8 * n \<in> {8, 16, 32, 64}"
    by (auto simp: n_def const_size_def)
  define s1 where "s1 = s\<lparr>pc := pc s + 1 + n, sp := sp s + 1,
     stack := (stack s)[nat (sp s) := top_cache s], top_cache := take_bit (8 * n) l\<rparr>"
  let ?code = "opcode (const_op (8 * n)) # const_bytes n l"
  show ?thesis
  proof (cases "sint l < 0 \<and> 8 * n < 64")
    case False
    then have x': "buf x' = buf x @ ?code"
      using assms(1) n by (auto simp: ax_const_l_def append_const_def ax_simple_def ax_raw_byte_def Let_def)
    then have "eval_step tgt bs s = Inr s1"
      unfolding s1_def using assms(2-5) n(2) by (intro eval_const [where rest = rest]) auto
    moreover have "take_bit (8 * n) l = l"
    proof (cases "8 * n < 64")
      case True
      then show ?thesis
        using False const_size_range [OF n(1)] short_nonneg [of l "8 * n - 1"] by auto
    next
      case False
      then have "8 * n = 64" using n(2) by auto
      then show ?thesis by (simp add: take_bit_word_eq_self)
    qed
    ultimately show ?thesis
      using x' assms(3) by (intro exI [of _ s1]) (auto simp: s1_def)
  next
    case True
    then have x': "buf x' = buf x @ ?code @ [opcode aop_ext, word_of_int (int (8 * n))]"
      using assms(1) n by (auto simp: ax_const_l_def append_const_def ax_simple_def ax_raw_byte_def
          ax_ext_def generic_ext_def Let_def simp del: opcode.simps split: if_splits)
    define s2 where "s2 = s1\<lparr>pc := pc s1 + 2,
      top_cache := (take_bit (8 * n) (top_cache s1) XOR ext_mask (8 * n)) - ext_mask (8 * n)\<rparr>"
    have "eval_step tgt bs s = Inr s1"
      unfolding s1_def using assms(2-5) n(2) x'
      by (intro eval_const [where rest = "opcode aop_ext # word_of_int (int (8 * n)) # rest"]) auto
    moreover have "eval_step tgt bs s1 = Inr s2"
      unfolding s2_def using assms(2-5) n(2) x' True
      by (intro eval_ext [where rest = rest]) (auto simp: s1_def)
    moreover have "top_cache s2 = l"
    proof -
      have r: "- (2 ^ (8 * n - 1)) \<le> sint l" "8 * n \<in> {8, 16, 32}"
        using const_size_range [OF n(1)] True by auto
      have "ext_mask 8 = push_bit 7 1" "ext_mask 16 = push_bit 15 1"
        by (simp_all add: ext_mask_def)
      then show ?thesis
        using r True sign_extends [of l 7] sign_extends [of l 15] sign_extends_32 [of l]
        by (auto simp: s2_def s1_def)
    qed
    ultimately show ?thesis
      using x' assms(3) by (intro exI [of _ s2]) (auto simp: s2_def s1_def intro: converse_rtranclp_into_rtranclp)
  qed
qed

subsection \<open>Properties\<close>

text \<open>C28: the code \<^verbatim>\<open>ax_const_l\<close> appends pushes exactly its argument when the evaluator of gdbserver
  runs it, for every 64-bit value: the shortest constant and the sign extension that follows a
  negative one cancel, at every width, and nothing else on the stack changes.\<close>

theorem ax_const_l_pushes:
  assumes "ax_const_l x l = Inr x'" and "bs = buf x' @ rest" and "pc s = length (buf x)"
    and "0 \<le> sp s" and "sp s < int STACK_MAX - 2"
  shows "\<exists>s'. (\<lambda>s s'. eval_step tgt bs s = Inr s')\<^sup>*\<^sup>* s s' \<and> pc s' = length (buf x') \<and>
    sp s' = sp s + 1 \<and> top_cache s' = l \<and> stack s' = (stack s)[nat (sp s) := top_cache s]"
  using assms by (rule eval_ax_const_l)

theorem ax_const_l_pushes_witness:
  "\<forall>tgt. \<exists>x s'. ax_const_l (new_agent_expr 0) (- 300) = Inr x \<and> buf x = [0x23, 0xfe, 0xd4, 0x16, 16] \<and>
     (\<lambda>s s'. eval_step tgt (buf x) s = Inr s')\<^sup>*\<^sup>* (eval_start (\<lambda>_. 0)) s' \<and> top_cache s' = - 300"
proof -
  have code: "ax_const_l (new_agent_expr 0) (- 300) =
      Inr (new_agent_expr 0\<lparr>buf := [0x23, 0xfe, 0xd4, 0x16, 16]\<rparr>)"
    by code_simp
  show ?thesis
    using ax_const_l_pushes [OF code refl, of "eval_start (\<lambda>_. 0)" _ "[]"] code
    by (auto simp: eval_start_def STACK_MAX_def new_agent_expr_def)
qed


definition sample_arch :: gdbarch where
  "sample_arch = \<lparr>num_regs = 32, remote_register_number = (\<lambda>r. r),
     ax_pseudo_register_push_stack = None, ax_pseudo_register_collect = None\<rparr>"

text \<open>A forward branch over a constant that is popped.\<close>

definition sample_expr :: agent_expr where
  "sample_expr = new_agent_expr 0\<lparr>buf := [0x22, 5, 0x20, 0, 8, 0x22, 1, 0x29, 0x22, 2, 0x27]\<rparr>"

definition sample_verified :: agent_expr where
  "sample_verified = (case ax_reqs sample_arch sample_expr of Inr ax \<Rightarrow> ax | Inl e \<Rightarrow> sample_expr)"

lemma sample_verified:
  "ax_reqs sample_arch sample_expr = Inr sample_verified" "flaw sample_verified = agent_flaw_none"
  "min_height sample_verified = 0" "max_height sample_verified = 1"
  by code_simp+


subsection \<open>Termination\<close>

text \<open>No jump of the bytecode goes backwards.\<close>

definition forward_jumps :: "uint8 list \<Rightarrow> bool" where
  "forward_jumps bs \<longleftrightarrow>
     (\<forall>i < length bs. \<forall>p. op_at bs i = Some p \<longrightarrow> is_jump p \<longrightarrow> i + 2 < length bs \<longrightarrow> i < jump_target bs i)"

lemma const_more_pc: "const_more bs n s = Inr s1 \<Longrightarrow> pc s1 = pc s + n"
  by (induction n arbitrary: s) (fastforce simp: then_do_def next_byte_def split: sum.splits if_splits)+

lemma drop_top_pc: "drop_top s = Inr s1 \<Longrightarrow> pc s1 = pc s"
  by (auto simp: drop_top_def stack_at_def then_do_def split: if_splits)

lemma pop_args_pc: "pop_args n s args = Inr (vs, s1) \<Longrightarrow> pc s1 = pc s"
  by (induction n arbitrary: s args) (fastforce simp: then_do_def dest: drop_top_pc split: sum.splits)+

lemma printf_pc: "exec_printf bs s = Inr s1 \<Longrightarrow> pc s \<le> pc s1"
  by (auto simp: exec_printf_def next_byte_def next_two_def then_do_def record_event_def Let_def
      dest!: drop_top_pc pop_args_pc split: sum.splits if_splits)

lemma exec_pc:
  assumes "exec tgt bs p s = Inr s1" "\<not> is_jump p"
  shows "pc s \<le> pc s1"
proof (cases "p \<in> {aop_const8, aop_const16, aop_const32, aop_const64, aop_printf}")
  case True
  then show ?thesis
    using assms(1) by (auto simp: push_const_def flush_def stack_put_def next_byte_def then_do_def
      dest!: const_more_pc printf_pc split: sum.splits if_splits)
next
  case False
  then show ?thesis
    using assms by (cases p) (auto simp: exec_simps is_jump_def split: sum.splits if_splits option.splits prod.splits)
qed

lemma jump_pc:
  assumes "exec tgt bs p s = Inr s1" "is_jump p"
  shows "pc s \<le> pc s1 \<or> (pc s + 1 < length bs \<and> pc s1 = unat (bs ! pc s) * 256 + unat (bs ! (pc s + 1)))"
  using assms by (cases p) (auto simp: exec_simps is_jump_def split: sum.splits if_splits)

lemma eval_step_forward:
  assumes "forward_jumps bs" "eval_step tgt bs s = Inr s1"
  shows "pc s < pc s1 \<and> pc s < length bs"
proof -
  have lt: "pc s < length bs" using assms(2) by (auto simp: eval_step_def then_do_def next_byte_def split: if_splits)
  obtain p where p: "op_at bs (pc s) = Some p"
    using assms(2) lt by (auto simp: eval_step_def then_do_def next_byte_def op_at_def split: option.splits)
  have ex: "exec tgt bs p (s\<lparr>pc := pc s + 1\<rparr>) = Inr s1" using eval_step_Inr [OF assms(2) p] by blast
  show ?thesis
  proof (cases "is_jump p")
    case True
    have "pc s < jump_target bs (pc s)" if "pc s + 2 < length bs"
      using assms(1) lt p True that by (auto simp: forward_jumps_def)
    then show ?thesis using jump_pc [OF ex True] lt by (auto simp: jump_target_def numeral_2_eq_2)
  next
    case False
    then show ?thesis using exec_pc [OF ex] lt by simp
  qed
qed

lemma eval_loop_returns:
  assumes "forward_jumps bs"
  shows "\<exists>r. eval_loop tgt bs s = Some r"
proof (induction "length bs - pc s" arbitrary: s rule: less_induct)
  case less
  show ?case
  proof (cases "eval_step tgt bs s")
    case (Inr s1)
    then have "length bs - pc s1 < length bs - pc s" using eval_step_forward [OF assms Inr] by arith
    then show ?thesis using less [of s1] Inr by (simp add: eval_loop.simps [of tgt bs s])
  qed (simp add: eval_loop.simps)
qed



end
