(* ===== verification/X86_Dregs.thy ===== *)
theory X86_Dregs
  imports Prelude
begin

text \<open>
  The x86 debug registers (\<^verbatim>\<open>gdb-15.1/gdb/nat/x86-dregs.c\<close>): hardware watchpoints shared by reference
  counts, the decomposition of a region into aligned pieces, and the update of the inferior. The
  mirrors are proved to refine a table of reference counts of watched pieces.
\<close>

subsection \<open>State and the low-level vector\<close>

datatype target_hw_bp_type = hw_write | hw_read | hw_access | hw_execute

record x86_debug_reg_state =
  dr_mirror :: "CORE_ADDR list"
  dr_status_mirror :: uint32
  dr_control_mirror :: uint32
  dr_ref_count :: "int list"

text \<open>
  \<^verbatim>\<open>struct x86_dr_low_type\<close>: whether the setters are there, and what the getters return for the
  current thread. What the setters do is a list of writes.
\<close>

record x86_dr_low_type =
  can_set_addr :: bool
  can_set_control :: bool
  get_addr :: "nat \<Rightarrow> CORE_ADDR"
  get_status :: uint32
  get_control :: uint32
  debug_register_length :: int

datatype dr_write = Set_addr nat CORE_ADDR | Set_control uint32

definition DR_NADDR :: nat where
  "DR_NADDR = 4"

definition TARGET_HAS_DR_LEN_8 :: "x86_dr_low_type \<Rightarrow> bool" where
  "TARGET_HAS_DR_LEN_8 low \<longleftrightarrow> debug_register_length low = 8"

subsection \<open>Fields of DR7\<close>

definition X86_DR_CONTROL_MASK :: uint32 where
  "X86_DR_CONTROL_MASK = NOT 0xFC00"

definition X86_DR_VACANT :: "uint32 \<Rightarrow> nat \<Rightarrow> bool" where
  "X86_DR_VACANT c i \<longleftrightarrow> c AND push_bit (2 * i) 3 = 0"

definition X86_DR_LOCAL_ENABLE :: "uint32 \<Rightarrow> nat \<Rightarrow> uint32" where
  "X86_DR_LOCAL_ENABLE c i = c OR push_bit (0 + 2 * i) 1"

definition X86_DR_DISABLE :: "uint32 \<Rightarrow> nat \<Rightarrow> uint32" where
  "X86_DR_DISABLE c i = c AND NOT (push_bit (2 * i) 3)"

definition X86_DR_SET_RW_LEN :: "uint32 \<Rightarrow> nat \<Rightarrow> uint32 \<Rightarrow> uint32" where
  "X86_DR_SET_RW_LEN c i rwlen =
     (c AND NOT (push_bit (16 + 4 * i) 0x0f)) OR push_bit (16 + 4 * i) rwlen"

definition X86_DR_GET_RW_LEN :: "uint32 \<Rightarrow> nat \<Rightarrow> uint32" where
  "X86_DR_GET_RW_LEN c i = drop_bit (16 + 4 * i) c AND 0x0f"

definition X86_DR_WATCH_HIT :: "uint32 \<Rightarrow> nat \<Rightarrow> bool" where
  "X86_DR_WATCH_HIT s i \<longleftrightarrow> s AND push_bit i 1 \<noteq> 0"

definition DR_LOCAL_SLOWDOWN :: uint32 where
  "DR_LOCAL_SLOWDOWN = 0x100"

text \<open>The length field is shifted by two; \<open>DR_LEN_8\<close> is only there on AMD64.\<close>

definition x86_length_and_rw_bits ::
  "x86_dr_low_type \<Rightarrow> int \<Rightarrow> target_hw_bp_type \<Rightarrow> uint32 gdb" where
  "x86_length_and_rw_bits low len type =
     (let rw = (case type of
                  hw_execute \<Rightarrow> Inr 0x0 | hw_write \<Rightarrow> Inr 0x1 | hw_read \<Rightarrow> Inl Internal_error
                | hw_access \<Rightarrow> Inr (0x3 :: uint32))
      in case rw of
           Inl e \<Rightarrow> Inl e
         | Inr rw \<Rightarrow>
             if len = 1 then Inr (push_bit 2 0 OR rw)
             else if len = 2 then Inr (push_bit 2 1 OR rw)
             else if len = 4 then Inr (push_bit 2 3 OR rw)
             else if len = 8 \<and> TARGET_HAS_DR_LEN_8 low then Inr (push_bit 2 2 OR rw)
             else Inl Internal_error)"

subsection \<open>Aligned watchpoints\<close>

definition in_use :: "x86_debug_reg_state \<Rightarrow> CORE_ADDR \<Rightarrow> uint32 \<Rightarrow> nat \<Rightarrow> bool" where
  "in_use st a bits i \<longleftrightarrow>
     \<not> X86_DR_VACANT (dr_control_mirror st) i \<and> dr_mirror st ! i = a
   \<and> X86_DR_GET_RW_LEN (dr_control_mirror st) i = bits"

definition occupy :: "x86_debug_reg_state \<Rightarrow> CORE_ADDR \<Rightarrow> uint32 \<Rightarrow> nat \<Rightarrow> x86_debug_reg_state" where
  "occupy st a bits i =
     st\<lparr>dr_mirror := (dr_mirror st)[i := a], dr_ref_count := (dr_ref_count st)[i := 1],
        dr_control_mirror :=
          (X86_DR_LOCAL_ENABLE (X86_DR_SET_RW_LEN (dr_control_mirror st) i bits) i OR DR_LOCAL_SLOWDOWN)
          AND X86_DR_CONTROL_MASK\<rparr>"

definition x86_insert_aligned_watchpoint :: "x86_dr_low_type \<Rightarrow> x86_debug_reg_state \<Rightarrow> CORE_ADDR \<Rightarrow>
    uint32 \<Rightarrow> x86_debug_reg_state \<times> int" where
  "x86_insert_aligned_watchpoint low st a bits =
     (if \<not> can_set_addr low \<or> \<not> can_set_control low then (st, -1)
      else case find (in_use st a bits) [0..<DR_NADDR] of
        Some i \<Rightarrow> (st\<lparr>dr_ref_count := (dr_ref_count st)[i := dr_ref_count st ! i + 1]\<rparr>, 0)
      | None \<Rightarrow>
          (case find (X86_DR_VACANT (dr_control_mirror st)) [0..<DR_NADDR] of
             None \<Rightarrow> (st, -1)
           | Some i \<Rightarrow> (occupy st a bits i, 0)))"

text \<open>Dropping one reference of register \<open>i\<close>.\<close>

definition release :: "x86_debug_reg_state \<Rightarrow> nat \<Rightarrow> x86_debug_reg_state" where
  "release st i =
     (let st1 = st\<lparr>dr_ref_count := (dr_ref_count st)[i := dr_ref_count st ! i - 1]\<rparr>
      in if dr_ref_count st1 ! i = 0
         then st1\<lparr>dr_mirror := (dr_mirror st)[i := 0],
                  dr_control_mirror :=
                    X86_DR_SET_RW_LEN (X86_DR_DISABLE (dr_control_mirror st) i) i 0\<rparr>
         else st1)"

fun remove_loop :: "CORE_ADDR \<Rightarrow> uint32 \<Rightarrow> nat list \<Rightarrow> x86_debug_reg_state \<Rightarrow> int \<Rightarrow> bool \<Rightarrow>
    x86_debug_reg_state \<times> int \<times> bool" where
  "remove_loop a bits [] st retval all_vacant = (st, retval, all_vacant)"
| "remove_loop a bits (i # is) st retval all_vacant =
     (let hit = in_use st a bits i;
          st1 = (if hit then release st i else st)
      in remove_loop a bits is st1 (if hit then 0 else retval)
           (if \<not> X86_DR_VACANT (dr_control_mirror st1) i then False else all_vacant))"

definition x86_remove_aligned_watchpoint :: "x86_debug_reg_state \<Rightarrow> CORE_ADDR \<Rightarrow> uint32 \<Rightarrow>
    (x86_debug_reg_state \<times> int) gdb" where
  "x86_remove_aligned_watchpoint st a bits =
     (let (st1, retval, all_vacant) = remove_loop a bits [0..<DR_NADDR] st (-1) True in
      if all_vacant
      then
        let st2 = st1\<lparr>dr_control_mirror := dr_control_mirror st1 AND NOT DR_LOCAL_SLOWDOWN\<rparr>
        in if dr_control_mirror st2 = 0 then Inr (st2, retval) else Inl Assertion_failed
      else Inr (st1, retval))"

subsection \<open>Regions\<close>

datatype x86_wp_op_t = WP_INSERT | WP_REMOVE | WP_COUNT

definition size_try_array :: "nat list list" where
  "size_try_array =
    [[1, 1, 1, 1, 1, 1, 1, 1],
     [2, 1, 2, 1, 2, 1, 2, 1],
     [2, 1, 2, 1, 2, 1, 2, 1],
     [4, 1, 2, 1, 4, 1, 2, 1],
     [4, 1, 2, 1, 4, 1, 2, 1],
     [4, 1, 2, 1, 4, 1, 2, 1],
     [4, 1, 2, 1, 4, 1, 2, 1],
     [8, 1, 2, 1, 4, 1, 2, 1]]"

definition max_wp_len :: "x86_dr_low_type \<Rightarrow> nat" where
  "max_wp_len low = (if TARGET_HAS_DR_LEN_8 low then 8 else 4)"

definition piece_size :: "x86_dr_low_type \<Rightarrow> CORE_ADDR \<Rightarrow> int \<Rightarrow> nat" where
  "piece_size low a len =
     (let align = unat a mod max_wp_len low;
          attempt = (if len > int (max_wp_len low) then max_wp_len low - 1 else nat (len - 1))
      in size_try_array ! attempt ! align)"

lemma piece_size_cases:
  assumes "0 < len"
  shows "piece_size low a len \<in> {1, 2, 4, 8} \<and> int (piece_size low a len) \<le> len \<and>
    piece_size low a len \<le> max_wp_len low \<and> unat a mod piece_size low a len = 0"
proof -
  let ?al = "unat a mod max_wp_len low"
  define attempt where "attempt = (if len > int (max_wp_len low) then max_wp_len low - 1 else nat (len - 1))"
  have m: "max_wp_len low = 4 \<or> max_wp_len low = 8" by (simp add: max_wp_len_def)
  have at: "attempt < max_wp_len low" "int attempt + 1 \<le> len" "attempt < 8"
    using assms m by (auto simp: attempt_def)
  have al: "?al < max_wp_len low" "?al < 8" using m by auto
  define fits where "fits = (\<lambda>m k j. size_try_array ! k ! j \<in> {1, 2, 4, 8} \<and> size_try_array ! k ! j \<le> k + 1 \<and>
      size_try_array ! k ! j \<le> m \<and> j mod (size_try_array ! k ! j) = 0 \<and> m mod (size_try_array ! k ! j) = 0)"
  have "\<forall>m \<in> {4, 8}. \<forall>k < m. \<forall>j < m. fits m k j"
    unfolding fits_def by code_simp
  then have "fits (max_wp_len low) attempt ?al"
    using m at(1) al(1) by blast
  then have t: "size_try_array ! attempt ! ?al \<in> {1, 2, 4, 8}" "size_try_array ! attempt ! ?al \<le> attempt + 1"
    "size_try_array ! attempt ! ?al \<le> max_wp_len low" "?al mod (size_try_array ! attempt ! ?al) = 0"
    "max_wp_len low mod (size_try_array ! attempt ! ?al) = 0"
    unfolding fits_def by blast+
  then have "unat a mod (size_try_array ! attempt ! ?al) = 0"
    by (metis mod_mod_cancel dvd_eq_mod_eq_0)
  then show ?thesis
    using t(1-3) at(2) unfolding piece_size_def Let_def attempt_def [symmetric] by linarith
qed

lemma piece_size_less: "0 < len \<Longrightarrow> 0 < piece_size low a len \<and> int (piece_size low a len) \<le> len"
  using piece_size_cases [of len low a] by fastforce

text \<open>The result is what the code returns: 0, -1, or the number of registers.\<close>

function x86_handle_nonaligned_watchpoint :: "x86_dr_low_type \<Rightarrow> x86_debug_reg_state \<Rightarrow> x86_wp_op_t \<Rightarrow>
    CORE_ADDR \<Rightarrow> int \<Rightarrow> target_hw_bp_type \<Rightarrow> int \<Rightarrow> (x86_debug_reg_state \<times> int) gdb" where
  "x86_handle_nonaligned_watchpoint low st what a len type retval =
     (if len \<le> 0 then Inr (st, retval)
      else
        let sz = piece_size low a len in
        if what = WP_COUNT
        then x86_handle_nonaligned_watchpoint low st what (a + of_nat sz) (len - int sz) type (retval + 1)
        else case x86_length_and_rw_bits low (int sz) type of
          Inl e \<Rightarrow> Inl e
        | Inr bits \<Rightarrow>
            (case (if what = WP_INSERT then Inr (x86_insert_aligned_watchpoint low st a bits)
                   else x86_remove_aligned_watchpoint st a bits) of
               Inl e \<Rightarrow> Inl e
             | Inr (st1, r) \<Rightarrow>
                 if r \<noteq> 0 then Inr (st1, r)
                 else x86_handle_nonaligned_watchpoint low st1 what (a + of_nat sz) (len - int sz) type r))"
  by pat_completeness auto
termination
proof (relation "measure (\<lambda>(low, st, what, a, len, type, retval). nat len)", goal_cases)
  case (2 low st what a len type retval sz)
  then show ?case using piece_size_less [of len low a] by auto
next
  case (3 low st what a len type retval sz bits p st1 r)
  then show ?case using piece_size_less [of len low a] by auto
qed simp

declare x86_handle_nonaligned_watchpoint.simps [simp del]

text \<open>The writes to the inferior, and the state that becomes current.\<close>

fun update_writes :: "x86_debug_reg_state \<Rightarrow> x86_debug_reg_state \<Rightarrow> nat list \<Rightarrow> dr_write list gdb" where
  "update_writes st new_st [] = Inr []"
| "update_writes st new_st (i # is) =
     (if X86_DR_VACANT (dr_control_mirror new_st) i \<noteq> X86_DR_VACANT (dr_control_mirror st) i
      then map_sum id (Cons (Set_addr i (dr_mirror new_st ! i))) (update_writes st new_st is)
      else if dr_mirror new_st ! i = dr_mirror st ! i then update_writes st new_st is
      else Inl Assertion_failed)"

definition x86_update_inferior_debug_regs ::
  "x86_debug_reg_state \<Rightarrow> x86_debug_reg_state \<Rightarrow> (x86_debug_reg_state \<times> dr_write list) gdb" where
  "x86_update_inferior_debug_regs st new_st =
     (case update_writes st new_st [0..<DR_NADDR] of
        Inl e \<Rightarrow> Inl e
      | Inr ws \<Rightarrow>
          Inr (new_st,
               ws @ (if dr_control_mirror new_st \<noteq> dr_control_mirror st
                     then [Set_control (dr_control_mirror new_st)] else [])))"

definition needs_split :: "x86_dr_low_type \<Rightarrow> CORE_ADDR \<Rightarrow> int \<Rightarrow> bool" where
  "needs_split low a len \<longleftrightarrow>
     (len \<noteq> 1 \<and> len \<noteq> 2 \<and> len \<noteq> 4 \<and> \<not> (TARGET_HAS_DR_LEN_8 low \<and> len = 8)) \<or> unat a mod nat len \<noteq> 0"

definition x86_dr_insert_watchpoint :: "x86_dr_low_type \<Rightarrow> x86_debug_reg_state \<Rightarrow> target_hw_bp_type \<Rightarrow>
    CORE_ADDR \<Rightarrow> int \<Rightarrow> (x86_debug_reg_state \<times> dr_write list \<times> int) gdb" where
  "x86_dr_insert_watchpoint low st type a len =
     (if type = hw_read then Inr (st, [], 1)
      else case (if needs_split low a len
                 then x86_handle_nonaligned_watchpoint low st WP_INSERT a len type 0
                 else map_sum id (x86_insert_aligned_watchpoint low st a)
                        (x86_length_and_rw_bits low len type)) of
          Inl e \<Rightarrow> Inl e
        | Inr (local_state, retval) \<Rightarrow>
            if retval = 0
            then map_sum id (\<lambda>(st1, ws). (st1, ws, retval)) (x86_update_inferior_debug_regs st local_state)
            else Inr (st, [], retval))"

definition x86_dr_remove_watchpoint :: "x86_dr_low_type \<Rightarrow> x86_debug_reg_state \<Rightarrow> target_hw_bp_type \<Rightarrow>
    CORE_ADDR \<Rightarrow> int \<Rightarrow> (x86_debug_reg_state \<times> dr_write list \<times> int) gdb" where
  "x86_dr_remove_watchpoint low st type a len =
     (case (if needs_split low a len
            then x86_handle_nonaligned_watchpoint low st WP_REMOVE a len type 0
            else (case x86_length_and_rw_bits low len type of
                    Inl e \<Rightarrow> Inl e
                  | Inr bits \<Rightarrow> x86_remove_aligned_watchpoint st a bits)) of
          Inl e \<Rightarrow> Inl e
        | Inr (local_state, retval) \<Rightarrow>
            if retval = 0
            then map_sum id (\<lambda>(st1, ws). (st1, ws, retval)) (x86_update_inferior_debug_regs st local_state)
            else Inr (st, [], retval))"

definition x86_dr_region_ok_for_watchpoint ::
  "x86_dr_low_type \<Rightarrow> x86_debug_reg_state \<Rightarrow> CORE_ADDR \<Rightarrow> int \<Rightarrow> bool gdb" where
  "x86_dr_region_ok_for_watchpoint low st a len =
     map_sum id (\<lambda>(_, nregs). nregs \<le> int DR_NADDR)
       (x86_handle_nonaligned_watchpoint low st WP_COUNT a len hw_write 0)"

text \<open>
  Which register stopped the thread: the status and control registers are those of the thread. The
  last hit of the loop wins.
\<close>

fun stopped_loop :: "x86_dr_low_type \<Rightarrow> (uint32 \<Rightarrow> bool) \<Rightarrow> nat list \<Rightarrow> CORE_ADDR option \<Rightarrow>
    CORE_ADDR option" where
  "stopped_loop low wanted [] r = r"
| "stopped_loop low wanted (i # is) r =
     stopped_loop low wanted is
       (if X86_DR_WATCH_HIT (get_status low) i \<and> wanted (X86_DR_GET_RW_LEN (get_control low) i)
        then Some (get_addr low i) else r)"

definition x86_dr_stopped_data_address :: "x86_dr_low_type \<Rightarrow> CORE_ADDR option" where
  "x86_dr_stopped_data_address low = stopped_loop low (\<lambda>b. b \<noteq> 0) [0..<DR_NADDR] None"

definition x86_dr_stopped_by_watchpoint :: "x86_dr_low_type \<Rightarrow> bool" where
  "x86_dr_stopped_by_watchpoint low \<longleftrightarrow> x86_dr_stopped_data_address low \<noteq> None"

definition x86_dr_stopped_by_hw_breakpoint :: "x86_dr_low_type \<Rightarrow> bool" where
  "x86_dr_stopped_by_hw_breakpoint low \<longleftrightarrow> stopped_loop low (\<lambda>b. b = 0) [0..<DR_NADDR] None \<noteq> None"

subsection \<open>The fields of DR7\<close>

lemma less_4: "i < 4 \<longleftrightarrow> i = 0 \<or> i = 1 \<or> i = 2 \<or> i = (3 :: nat)"
  by auto

lemma bit_low: "x = mask n \<Longrightarrow> bit (x :: int) k \<longleftrightarrow> k < n"
  by (auto simp: bit_mask_iff)

lemma bit_numerals:
  "bit (3 :: int) k \<longleftrightarrow> k < 2" "bit (15 :: int) k \<longleftrightarrow> k < 4"
  "bit (256 :: int) k \<longleftrightarrow> k = 8" "bit (64512 :: int) k \<longleftrightarrow> 10 \<le> k \<and> k < 16"
proof -
  show "bit (3 :: int) k \<longleftrightarrow> k < 2" "bit (15 :: int) k \<longleftrightarrow> k < 4"
    by (rule bit_low; simp add: mask_eq_exp_minus_1)+
  have "(256 :: int) = push_bit 8 1" by simp
  then show "bit (256 :: int) k \<longleftrightarrow> k = 8"
    by (simp only: bit_push_bit_iff bit_1_iff) auto
  have low: "bit (63 :: int) j \<longleftrightarrow> j < 6" for j
    by (rule bit_low) (simp add: mask_eq_exp_minus_1)
  have "bit (push_bit 10 (63 :: int)) k \<longleftrightarrow> 10 \<le> k \<and> bit (63 :: int) (k - 10)"
    unfolding bit_push_bit_iff by simp
  also have "\<dots> \<longleftrightarrow> 10 \<le> k \<and> k < 16" unfolding low by arith
  finally show "bit (64512 :: int) k \<longleftrightarrow> 10 \<le> k \<and> k < 16" by simp
qed

lemma bit_rw_len: "bit (X86_DR_GET_RW_LEN c i) k \<longleftrightarrow> k < 4 \<and> bit c (16 + 4 * i + k)"
  by (auto simp: X86_DR_GET_RW_LEN_def bit_simps bit_numerals)

lemma vacant_bits:
  assumes "i < 4"
  shows "X86_DR_VACANT c i \<longleftrightarrow> \<not> bit c (2 * i) \<and> \<not> bit c (2 * i + 1)"
proof -
  have "X86_DR_VACANT c i \<longleftrightarrow> (\<forall>k < 32. \<not> (bit c k \<and> 2 * i \<le> k \<and> k < 2 * i + 2))"
    using assms by (auto simp: X86_DR_VACANT_def bit_eq_iff bit_simps bit_numerals)
  also have "\<dots> \<longleftrightarrow> \<not> bit c (2 * i) \<and> \<not> bit c (2 * i + 1)"
  proof
    assume *: "\<forall>k < 32. \<not> (bit c k \<and> 2 * i \<le> k \<and> k < 2 * i + 2)"
    from *[rule_format, of "2 * i"] *[rule_format, of "2 * i + 1"] assms
    show "\<not> bit c (2 * i) \<and> \<not> bit c (2 * i + 1)" by simp
  next
    assume *: "\<not> bit c (2 * i) \<and> \<not> bit c (2 * i + 1)"
    have "k = 2 * i \<or> k = 2 * i + 1" if "2 * i \<le> k" "k < 2 * i + 2" for k
      using that by arith
    then show "\<forall>k < 32. \<not> (bit c k \<and> 2 * i \<le> k \<and> k < 2 * i + 2)" using * by blast
  qed
  finally show ?thesis .
qed

lemma eq_bits: "(x :: uint32) = y \<longleftrightarrow> (\<forall>k < 32. bit x k = bit y k)"
  by (auto simp: bit_eq_iff)

lemma rw_len_eq: "X86_DR_GET_RW_LEN c i = v \<longleftrightarrow>
    (\<forall>k < 32. (k < 4 \<and> bit c (16 + 4 * i + k)) = bit v k)"
  by (simp add: eq_bits bit_rw_len)

text \<open>The bits each update of DR7 changes.\<close>

lemma dr_bits:
  "bit (X86_DR_LOCAL_ENABLE c i) k \<longleftrightarrow> bit c k \<or> (k < 32 \<and> k = 2 * i)"
  "bit (X86_DR_DISABLE c i) k \<longleftrightarrow> bit c k \<and> \<not> (2 * i \<le> k \<and> k < 2 * i + 2)"
  "bit (X86_DR_SET_RW_LEN c i v) k \<longleftrightarrow>
     bit c k \<and> \<not> (16 + 4 * i \<le> k \<and> k < 20 + 4 * i) \<or> (k < 32 \<and> 16 + 4 * i \<le> k \<and> bit v (k - (16 + 4 * i)))"
  "bit (c OR DR_LOCAL_SLOWDOWN) k \<longleftrightarrow> bit c k \<or> k = 8"
  "bit (c AND NOT DR_LOCAL_SLOWDOWN) k \<longleftrightarrow> bit c k \<and> k \<noteq> 8"
  "bit (c AND X86_DR_CONTROL_MASK) k \<longleftrightarrow> bit c k \<and> \<not> (10 \<le> k \<and> k < 16)"
  by (auto simp: X86_DR_LOCAL_ENABLE_def X86_DR_DISABLE_def X86_DR_SET_RW_LEN_def DR_LOCAL_SLOWDOWN_def
      X86_DR_CONTROL_MASK_def bit_simps bit_numerals dest: bit_imp_le_length)

definition nibble :: "uint32 \<Rightarrow> bool" where
  "nibble v \<longleftrightarrow> (\<forall>k < 32. bit v k \<longrightarrow> k < 4)"

abbreviation vacant :: "x86_debug_reg_state \<Rightarrow> nat \<Rightarrow> bool" where
  "vacant st i \<equiv> X86_DR_VACANT (dr_control_mirror st) i"

abbreviation rw_len :: "x86_debug_reg_state \<Rightarrow> nat \<Rightarrow> uint32" where
  "rw_len st i \<equiv> X86_DR_GET_RW_LEN (dr_control_mirror st) i"

lemma nibble_rw_len: "nibble (X86_DR_GET_RW_LEN c i)"
  by (simp add: nibble_def bit_rw_len)

lemma vacant_occupy:
  "i < 4 \<Longrightarrow> j < 4 \<Longrightarrow> vacant (occupy st a bits i) j \<longleftrightarrow> j \<noteq> i \<and> vacant st j"
  by (auto simp: occupy_def vacant_bits dr_bits; presburger)

lemma rw_len_occupy:
  assumes "i < 4" "j < 4" "nibble bits"
  shows "rw_len (occupy st a bits i) j = (if j = i then bits else rw_len st j)"
proof (rule bit_word_eqI)
  fix n assume n: "n < LENGTH(32)"
  have nb: "\<not> bit bits k" if "4 \<le> k" for k
    using assms(3) that bit_imp_le_length [of bits k] by (auto simp: nibble_def)
  show "bit (rw_len (occupy st a bits i) j) n = bit (if j = i then bits else rw_len st j) n"
  proof (cases "n < 4")
    case True
    consider "j = i" | "j < i" | "i < j" by arith
    then show ?thesis
    proof cases
      case 3
      then have "4 \<le> 16 + 4 * j + n - (16 + 4 * i)" by arith
      then show ?thesis using nb 3 True by (auto simp: occupy_def bit_rw_len dr_bits)
    qed (use assms True in \<open>auto simp: occupy_def bit_rw_len dr_bits\<close>)
  next
    case False
    then show ?thesis using nb by (simp add: bit_rw_len)
  qed
qed

lemma control_release:
  "i < length (dr_ref_count st) \<Longrightarrow> dr_control_mirror (release st i) =
    (if dr_ref_count st ! i = 1 then X86_DR_SET_RW_LEN (X86_DR_DISABLE (dr_control_mirror st) i) i 0
     else dr_control_mirror st)"
  by (simp add: release_def Let_def)

lemma fields_released:
  assumes "i < 4" "j < 4"
  shows "X86_DR_VACANT (X86_DR_SET_RW_LEN (X86_DR_DISABLE c i) i 0) j \<longleftrightarrow> j = i \<or> X86_DR_VACANT c j"
    and "X86_DR_GET_RW_LEN (X86_DR_SET_RW_LEN (X86_DR_DISABLE c i) i 0) j =
      (if j = i then 0 else X86_DR_GET_RW_LEN c j)"
proof -
  show "X86_DR_VACANT (X86_DR_SET_RW_LEN (X86_DR_DISABLE c i) i 0) j \<longleftrightarrow> j = i \<or> X86_DR_VACANT c j"
    using assms by (auto simp: vacant_bits dr_bits; presburger)
  show "X86_DR_GET_RW_LEN (X86_DR_SET_RW_LEN (X86_DR_DISABLE c i) i 0) j =
      (if j = i then 0 else X86_DR_GET_RW_LEN c j)"
  proof (rule bit_word_eqI)
    fix n assume "n < LENGTH(32)"
    have "16 + 4 * j + n < 16 + 4 * i \<or> 20 + 4 * i \<le> 16 + 4 * j + n" if "n < 4" "j \<noteq> i"
      using that by arith
    then show "bit (X86_DR_GET_RW_LEN (X86_DR_SET_RW_LEN (X86_DR_DISABLE c i) i 0) j) n =
        bit (if j = i then 0 else X86_DR_GET_RW_LEN c j) n"
      using assms by (auto simp: bit_rw_len dr_bits)
  qed
qed

subsection \<open>The table of watched pieces\<close>

text \<open>
  What the registers hold: how often a piece is watched. The invariant: a vacant register is all
  zero, a used one has a positive count, no two watch the same piece, and DR7 has no other bits than
  the fields and the slowdown flag, which is set while a register is used.
\<close>

definition watched :: "x86_debug_reg_state \<Rightarrow> CORE_ADDR \<times> uint32 \<Rightarrow> int" where
  "watched st k = (\<Sum>i < 4. if in_use st (fst k) (snd k) i then dr_ref_count st ! i else 0)"

definition dr_ok :: "x86_debug_reg_state \<Rightarrow> bool" where
  "dr_ok st \<longleftrightarrow> length (dr_mirror st) = 4 \<and> length (dr_ref_count st) = 4 \<and>
     (\<forall>i < 4. if vacant st i then dr_mirror st ! i = 0 \<and> rw_len st i = 0 \<and> dr_ref_count st ! i = 0
              else 0 < dr_ref_count st ! i) \<and>
     (\<forall>i < 4. \<forall>j < 4. \<not> vacant st i \<longrightarrow> \<not> vacant st j \<longrightarrow> dr_mirror st ! i = dr_mirror st ! j \<longrightarrow>
        rw_len st i = rw_len st j \<longrightarrow> i = j) \<and>
     (\<forall>k < 32. bit (dr_control_mirror st) k \<longrightarrow> k < 9 \<or> 16 \<le> k) \<and>
     (bit (dr_control_mirror st) 8 \<longleftrightarrow> (\<exists>i < 4. \<not> vacant st i))"

lemma dr_okI:
  assumes "length (dr_mirror st) = 4" "length (dr_ref_count st) = 4"
    and "\<And>i. i < 4 \<Longrightarrow> if vacant st i then dr_mirror st ! i = 0 \<and> rw_len st i = 0 \<and> dr_ref_count st ! i = 0
              else 0 < dr_ref_count st ! i"
    and "\<And>i j. i < 4 \<Longrightarrow> j < 4 \<Longrightarrow> \<not> vacant st i \<Longrightarrow> \<not> vacant st j \<Longrightarrow>
      dr_mirror st ! i = dr_mirror st ! j \<Longrightarrow> rw_len st i = rw_len st j \<Longrightarrow> i = j"
    and "\<And>k. k < 32 \<Longrightarrow> bit (dr_control_mirror st) k \<Longrightarrow> k < 9 \<or> 16 \<le> k"
    and "bit (dr_control_mirror st) 8 \<longleftrightarrow> (\<exists>i < 4. \<not> vacant st i)"
  shows "dr_ok st"
  unfolding dr_ok_def using assms by blast

lemma dr_okD:
  assumes "dr_ok st"
  shows "length (dr_mirror st) = 4" "length (dr_ref_count st) = 4"
    and "i < 4 \<Longrightarrow> vacant st i \<Longrightarrow> dr_mirror st ! i = 0 \<and> rw_len st i = 0 \<and> dr_ref_count st ! i = 0"
    and "i < 4 \<Longrightarrow> \<not> vacant st i \<Longrightarrow> 0 < dr_ref_count st ! i"
    and "i < 4 \<Longrightarrow> j < 4 \<Longrightarrow> \<not> vacant st i \<Longrightarrow> \<not> vacant st j \<Longrightarrow>
      dr_mirror st ! i = dr_mirror st ! j \<Longrightarrow> rw_len st i = rw_len st j \<Longrightarrow> i = j"
    and "k < 32 \<Longrightarrow> bit (dr_control_mirror st) k \<Longrightarrow> k < 9 \<or> 16 \<le> k"
    and "bit (dr_control_mirror st) 8 \<longleftrightarrow> (\<exists>i < 4. \<not> vacant st i)"
proof -
  note d = assms [unfolded dr_ok_def]
  show "length (dr_mirror st) = 4" "length (dr_ref_count st) = 4"
    "bit (dr_control_mirror st) 8 \<longleftrightarrow> (\<exists>i < 4. \<not> vacant st i)"
    using d by blast+
  show "k < 32 \<Longrightarrow> bit (dr_control_mirror st) k \<Longrightarrow> k < 9 \<or> 16 \<le> k"
    using d by blast
  show "i < 4 \<Longrightarrow> j < 4 \<Longrightarrow> \<not> vacant st i \<Longrightarrow> \<not> vacant st j \<Longrightarrow>
      dr_mirror st ! i = dr_mirror st ! j \<Longrightarrow> rw_len st i = rw_len st j \<Longrightarrow> i = j"
    using d by blast
  have "i < 4 \<longrightarrow> (if vacant st i then dr_mirror st ! i = 0 \<and> rw_len st i = 0 \<and> dr_ref_count st ! i = 0
              else 0 < dr_ref_count st ! i)"
    using d [THEN conjunct2, THEN conjunct2, THEN conjunct1] by (rule spec)
  then show "i < 4 \<Longrightarrow> vacant st i \<Longrightarrow> dr_mirror st ! i = 0 \<and> rw_len st i = 0 \<and> dr_ref_count st ! i = 0"
    "i < 4 \<Longrightarrow> \<not> vacant st i \<Longrightarrow> 0 < dr_ref_count st ! i"
    by simp_all
qed

text \<open>Every used register of the first state is used for the same address in the second.\<close>

definition grows :: "x86_debug_reg_state \<Rightarrow> x86_debug_reg_state \<Rightarrow> bool" where
  "grows st st' \<longleftrightarrow> (\<forall>i < 4. \<not> vacant st i \<longrightarrow> \<not> vacant st' i \<and> dr_mirror st' ! i = dr_mirror st ! i)"

lemma grows_refl [simp]: "grows st st"
  by (simp add: grows_def)

lemma grows_trans: "grows st st' \<Longrightarrow> grows st' st'' \<Longrightarrow> grows st st''"
  by (simp add: grows_def)

lemma sum_one_changed:
  fixes f g :: "nat \<Rightarrow> int"
  assumes "i < n" "\<And>j. j < n \<Longrightarrow> j \<noteq> i \<Longrightarrow> g j = f j"
  shows "(\<Sum>j < n. g j) = (\<Sum>j < n. f j) + g i - f i"
proof -
  have "(\<Sum>j < n. g j) = g i + (\<Sum>j \<in> {..<n} - {i}. g j)" "(\<Sum>j < n. f j) = f i + (\<Sum>j \<in> {..<n} - {i}. f j)"
    using assms(1) by (auto intro!: sum.remove)
  moreover have "(\<Sum>j \<in> {..<n} - {i}. g j) = (\<Sum>j \<in> {..<n} - {i}. f j)"
    using assms(2) by (intro sum.cong) auto
  ultimately show ?thesis by simp
qed

lemma in_use_unique:
  "dr_ok st \<Longrightarrow> i < 4 \<Longrightarrow> j < 4 \<Longrightarrow> in_use st a b i \<Longrightarrow> in_use st a b j \<Longrightarrow> i = j"
  using dr_okD(5) [of st i j] by (simp add: in_use_def)

lemma watched_at:
  assumes "dr_ok st" "i < 4" "in_use st a b i"
  shows "watched st (a, b) = dr_ref_count st ! i"
proof -
  have "watched st (a, b) = (\<Sum>j < 4. if j = i then dr_ref_count st ! i else 0)"
    unfolding watched_def
  proof (rule sum.cong [OF refl])
    fix j assume "j \<in> {..<4 :: nat}"
    then have "in_use st a b j \<longleftrightarrow> j = i"
      using in_use_unique [OF assms(1), of j i] assms(2,3) by auto
    then show "(if in_use st (fst (a, b)) (snd (a, b)) j then dr_ref_count st ! j else 0) =
        (if j = i then dr_ref_count st ! i else 0)" by simp
  qed
  then show ?thesis using assms(2) by simp
qed

lemma watched_zero:
  assumes "dr_ok st" shows "watched st (a, b) = 0 \<longleftrightarrow> (\<forall>i < 4. \<not> in_use st a b i)"
proof
  assume "watched st (a, b) = 0"
  show "\<forall>i < 4. \<not> in_use st a b i"
  proof (intro allI impI notI)
    fix i assume i: "i < (4::nat)" "in_use st a b i"
    then have "0 < dr_ref_count st ! i" using dr_okD(4) [OF assms i(1)] by (simp add: in_use_def)
    then show False using watched_at [OF assms i] \<open>watched st (a, b) = 0\<close> by simp
  qed
qed (simp add: watched_def)

lemma watched_nonneg: "dr_ok st \<Longrightarrow> 0 \<le> watched st k"
  unfolding watched_def
  by (intro sum_nonneg) (use dr_okD(4) in \<open>force simp: in_use_def\<close>)

subsection \<open>One aligned piece\<close>

lemma find_index:
  "find P [0..<4] = Some i \<Longrightarrow> i < 4 \<and> P i" "find P [0..<4] = None \<Longrightarrow> i < 4 \<Longrightarrow> \<not> P i"
  by (auto simp: find_Some_iff find_None_iff)

lemma occupied_fields:
  assumes "i < 4" "nibble bits" "length (dr_mirror st) = 4" "length (dr_ref_count st) = 4"
  shows "j < 4 \<Longrightarrow>
      in_use (occupy st a bits i) a' b' j = (if j = i then a' = a \<and> b' = bits else in_use st a' b' j)"
    and "dr_ref_count (occupy st a bits i) = (dr_ref_count st)[i := 1]"
    and "dr_mirror (occupy st a bits i) = (dr_mirror st)[i := a]"
  using assms vacant_occupy [OF assms(1), of j st a bits] rw_len_occupy [OF assms(1) _ assms(2), of j st a]
  by (auto simp: in_use_def) (auto simp: occupy_def)

lemma occupy_ok:
  assumes ok: "dr_ok st" and i: "i < 4" and v: "vacant st i" and n: "nibble bits"
    and new: "\<And>j. j < 4 \<Longrightarrow> \<not> in_use st a bits j"
  shows "dr_ok (occupy st a bits i)"
proof -
  have len: "length (dr_mirror st) = 4" "length (dr_ref_count st) = 4"
    using ok by (auto simp: dr_ok_def)
  note f = occupied_fields(2,3) [OF i n len] vacant_occupy [OF i] rw_len_occupy [OF i _ n]
  show ?thesis
  proof (rule dr_okI)
    show "length (dr_mirror (occupy st a bits i)) = 4" "length (dr_ref_count (occupy st a bits i)) = 4"
      using len by (simp_all add: f)
  next
    fix j :: nat assume j: "j < 4"
    show "if vacant (occupy st a bits i) j then dr_mirror (occupy st a bits i) ! j = 0 \<and>
      rw_len (occupy st a bits i) j = 0 \<and> dr_ref_count (occupy st a bits i) ! j = 0
      else 0 < dr_ref_count (occupy st a bits i) ! j"
      using dr_okD(3,4) [OF ok j] j len i by (cases "j = i") (simp_all add: f)
  next
    fix j k :: nat
    assume *: "j < 4" "k < 4" "\<not> vacant (occupy st a bits i) j" "\<not> vacant (occupy st a bits i) k"
      "dr_mirror (occupy st a bits i) ! j = dr_mirror (occupy st a bits i) ! k"
      "rw_len (occupy st a bits i) j = rw_len (occupy st a bits i) k"
    show "j = k"
    proof (cases "j = i"; cases "k = i")
      assume "j = i" "k \<noteq> i"
      then show ?thesis using * new [of k] len i by (simp add: f in_use_def)
    next
      assume "j \<noteq> i" "k = i"
      then show ?thesis using * new [of j] len i by (simp add: f in_use_def)
    next
      assume "j \<noteq> i" "k \<noteq> i"
      then show ?thesis using * dr_okD(5) [OF ok *(1,2)] by (simp add: f)
    qed simp
  next
    fix k assume "k < 32" "bit (dr_control_mirror (occupy st a bits i)) k"
    then show "k < 9 \<or> 16 \<le> k"
      using dr_okD(6) [OF ok, of k] i by (auto simp: occupy_def dr_bits)
  next
    have "bit (dr_control_mirror (occupy st a bits i)) 8" by (simp add: occupy_def dr_bits)
    then show "bit (dr_control_mirror (occupy st a bits i)) 8 \<longleftrightarrow> (\<exists>j < 4. \<not> vacant (occupy st a bits i) j)"
      using i f(3) [OF i] by blast
  qed
qed

lemma insert_aligned:
  assumes "dr_ok st" "nibble bits" "x86_insert_aligned_watchpoint low st a bits = (st', r)"
  shows "r \<noteq> 0 \<Longrightarrow> st' = st \<and> r = -1"
    and "r = 0 \<Longrightarrow> dr_ok st' \<and> grows st st' \<and>
      watched st' = (watched st)((a, bits) := watched st (a, bits) + 1)"
    and "can_set_addr low \<Longrightarrow> can_set_control low \<Longrightarrow>
      r = 0 \<longleftrightarrow> 0 < watched st (a, bits) \<or> (\<exists>i < 4. vacant st i)"
proof -
  let ?R = "(r \<noteq> 0 \<longrightarrow> st' = st \<and> r = -1) \<and> (r = 0 \<longrightarrow> dr_ok st' \<and> grows st st' \<and>
      watched st' = (watched st)((a, bits) := watched st (a, bits) + 1)) \<and>
    (can_set_addr low \<longrightarrow> can_set_control low \<longrightarrow>
      (r = 0 \<longleftrightarrow> 0 < watched st (a, bits) \<or> (\<exists>i < 4. vacant st i)))"
  have len: "length (dr_mirror st) = 4" "length (dr_ref_count st) = 4"
    using assms(1) by (auto simp: dr_ok_def)
  have ?R
  proof (cases "can_set_addr low \<and> can_set_control low")
    case False
    then show ?thesis using assms(3) by (auto simp: x86_insert_aligned_watchpoint_def)
  next
    case can: True
    show ?thesis
    proof (cases "find (in_use st a bits) [0..<4]")
      case (Some i)
      then have i: "i < 4" "in_use st a bits i" using find_index by blast+
      have st': "st' = st\<lparr>dr_ref_count := (dr_ref_count st)[i := dr_ref_count st ! i + 1]\<rparr>" "r = 0"
        using assms(3) can Some by (auto simp: x86_insert_aligned_watchpoint_def DR_NADDR_def)
      have pos: "0 < dr_ref_count st ! i"
        using dr_okD(4) [OF assms(1) i(1)] i(2) by (simp add: in_use_def)
      have "dr_ok st'"
      proof (rule dr_okI)
        fix j :: nat assume j: "j < 4"
        show "if vacant st' j then dr_mirror st' ! j = 0 \<and> rw_len st' j = 0 \<and> dr_ref_count st' ! j = 0
          else 0 < dr_ref_count st' ! j"
          using dr_okD(3,4) [OF assms(1) j] pos i len st' by (cases "j = i") (auto simp: in_use_def)
      next
        fix j k :: nat
        assume "j < 4" "k < 4" "\<not> vacant st' j" "\<not> vacant st' k" "dr_mirror st' ! j = dr_mirror st' ! k"
          "rw_len st' j = rw_len st' k"
        then show "j = k" using dr_okD(5) [OF assms(1), of j k] by (simp add: st')
      qed (use dr_okD(6,7) [OF assms(1)] len in \<open>simp_all add: st'\<close>)
      moreover have "watched st' k = ((watched st)((a, bits) := watched st (a, bits) + 1)) k" for k
      proof -
        have use: "in_use st' x y = in_use st x y" for x y by (simp add: st' in_use_def fun_eq_iff)
        have "watched st' k = watched st k +
            (if in_use st' (fst k) (snd k) i then dr_ref_count st' ! i else 0) -
            (if in_use st (fst k) (snd k) i then dr_ref_count st ! i else 0)"
          unfolding watched_def by (rule sum_one_changed) (use i use st' in auto)
        then show ?thesis
          using i len use st' by (cases k) (auto simp: in_use_def)
      qed
      ultimately show ?thesis
        using st' i watched_at [OF assms(1) i] pos by (auto simp: grows_def)
    next
      case none: None
      then have new: "\<And>j. j < 4 \<Longrightarrow> \<not> in_use st a bits j" using find_index by blast
      then have zero: "watched st (a, bits) = 0" using watched_zero [OF assms(1)] by blast
      show ?thesis
      proof (cases "find (vacant st) [0..<4]")
        case None
        then show ?thesis
          using assms(3) can none zero find_index
          by (auto simp: x86_insert_aligned_watchpoint_def DR_NADDR_def)
      next
        case (Some i)
        then have i: "i < 4" "vacant st i" using find_index by blast+
        have st': "st' = occupy st a bits i" "r = 0"
          using assms(3) can none Some by (auto simp: x86_insert_aligned_watchpoint_def DR_NADDR_def)
        note f = occupied_fields [OF i(1) assms(2) len]
        have "watched st' k = ((watched st)((a, bits) := watched st (a, bits) + 1)) k" for k
        proof -
          have "watched st' k = watched st k +
              (if in_use st' (fst k) (snd k) i then dr_ref_count st' ! i else 0) -
              (if in_use st (fst k) (snd k) i then dr_ref_count st ! i else 0)"
            unfolding watched_def by (rule sum_one_changed) (use i f st' in auto)
          moreover have "\<not> in_use st (fst k) (snd k) i" using i(2) by (simp add: in_use_def)
          ultimately show ?thesis
            using i(1) len f(1) [OF i(1)] f(2) st' by (cases k) auto
        qed
        moreover have "dr_ok st'" unfolding st' by (rule occupy_ok) (use assms i new in auto)
        moreover have "grows st st'"
          using i(2) vacant_occupy [OF i(1)] f(3) by (auto simp: grows_def st')
            (metis nth_list_update_neq)
        ultimately show ?thesis using st'(2) i by auto
      qed
    qed
  qed
  then show "r \<noteq> 0 \<Longrightarrow> st' = st \<and> r = -1"
    and "r = 0 \<Longrightarrow> dr_ok st' \<and> grows st st' \<and>
      watched st' = (watched st)((a, bits) := watched st (a, bits) + 1)"
    and "can_set_addr low \<Longrightarrow> can_set_control low \<Longrightarrow>
      r = 0 \<longleftrightarrow> 0 < watched st (a, bits) \<or> (\<exists>i < 4. vacant st i)" by blast+
qed

lemma control_zero:
  assumes "\<And>i. i < 4 \<Longrightarrow> X86_DR_VACANT c i" "\<And>i. i < 4 \<Longrightarrow> X86_DR_GET_RW_LEN c i = 0"
    and "\<And>k. k < 32 \<Longrightarrow> bit c k \<Longrightarrow> k < 9 \<or> 16 \<le> k"
  shows "c AND NOT DR_LOCAL_SLOWDOWN = 0"
proof (rule bit_word_eqI)
  fix k assume k: "k < LENGTH(32)"
  have "\<not> bit c k" if other: "k \<noteq> 8"
  proof
    assume b: "bit c k"
    have "k < 9 \<or> 16 \<le> k" by (rule assms(3)) (use k b in simp_all)
    then consider "k < 8" | "16 \<le> k" using other by (cases "16 \<le> k") auto
    then show False
    proof cases
      case 1
      then have "k div 2 < 4" by simp
      moreover have "k = 2 * (k div 2) \<or> k = 2 * (k div 2) + 1" by arith
      ultimately show False using assms(1) [of "k div 2"] b by (auto simp: vacant_bits)
    next
      case 2
      let ?i = "(k - 16) div 4" and ?n = "(k - 16) mod 4"
      have "?i < 4" "k = 16 + 4 * ?i + ?n" using 2 k by auto
      moreover have "?n < 4" by simp
      ultimately have "bit (X86_DR_GET_RW_LEN c ?i) ?n" using b by (metis bit_rw_len)
      then show False using assms(2) [OF \<open>?i < 4\<close>] by simp
    qed
  qed
  then show "bit (c AND NOT DR_LOCAL_SLOWDOWN) k = bit 0 k" by (auto simp: dr_bits)
qed

lemma released:
  assumes "length (dr_mirror st) = 4" "length (dr_ref_count st) = 4" "i < 4"
  shows "dr_ref_count (release st i) = (dr_ref_count st)[i := dr_ref_count st ! i - 1]"
    and "dr_mirror (release st i) =
      (if dr_ref_count st ! i = 1 then (dr_mirror st)[i := 0] else dr_mirror st)"
    and "j < 4 \<Longrightarrow> vacant (release st i) j \<longleftrightarrow> (j = i \<and> dr_ref_count st ! i = 1) \<or> vacant st j"
    and "j < 4 \<Longrightarrow> rw_len (release st i) j =
      (if j = i \<and> dr_ref_count st ! i = 1 then 0 else rw_len st j)"
    and "bit (dr_control_mirror (release st i)) 8 \<longleftrightarrow> bit (dr_control_mirror st) 8"
    and "bit (dr_control_mirror (release st i)) k \<Longrightarrow> bit (dr_control_mirror st) k"
proof -
  note c = control_release [of i st]
  show "dr_ref_count (release st i) = (dr_ref_count st)[i := dr_ref_count st ! i - 1]"
    "dr_mirror (release st i) =
      (if dr_ref_count st ! i = 1 then (dr_mirror st)[i := 0] else dr_mirror st)"
    using assms by (simp_all add: release_def Let_def)
  show "j < 4 \<Longrightarrow> vacant (release st i) j \<longleftrightarrow> (j = i \<and> dr_ref_count st ! i = 1) \<or> vacant st j"
    "j < 4 \<Longrightarrow> rw_len (release st i) j =
      (if j = i \<and> dr_ref_count st ! i = 1 then 0 else rw_len st j)"
    using fields_released [OF assms(3), of j "dr_control_mirror st"] c assms by auto
  show "bit (dr_control_mirror (release st i)) 8 \<longleftrightarrow> bit (dr_control_mirror st) 8"
    "bit (dr_control_mirror (release st i)) k \<Longrightarrow> bit (dr_control_mirror st) k"
    using c assms by (auto simp: dr_bits split: if_splits)
qed

lemma remove_loop_miss:
  "(\<And>i. i \<in> set is \<Longrightarrow> \<not> in_use st a b i) \<Longrightarrow>
   remove_loop a b is st r av = (st, r, av \<and> (\<forall>i \<in> set is. vacant st i))"
  by (induction "is" arbitrary: av) auto

lemma remove_loop_hit:
  assumes "length (dr_mirror st) = 4" "length (dr_ref_count st) = 4"
    and "distinct is" "set is \<subseteq> {..<4}" "i \<in> set is" "in_use st a b i"
    and "\<And>j. j \<in> set is \<Longrightarrow> j \<noteq> i \<Longrightarrow> \<not> in_use st a b j"
  shows "remove_loop a b is st r av =
    (release st i, 0, av \<and> (\<forall>j \<in> set is. vacant (release st i) j))"
  using assms(3-)
proof (induction "is" arbitrary: r av)
  case (Cons j "is")
  have i: "i < 4" using Cons.prems by auto
  note rel = released [OF assms(1,2) i]
  show ?case
  proof (cases "j = i")
    case True
    have "\<not> in_use (release st i) a b l" if "l \<in> set is" for l
    proof -
      have "l \<noteq> i" "l < 4" "\<not> in_use st a b l" using that Cons.prems True by auto
      then show ?thesis by (auto simp: in_use_def rel)
    qed
    then show ?thesis
      using True Cons.prems by (simp add: Let_def remove_loop_miss)
  next
    case False
    have "vacant (release st i) j = vacant st j" using rel(3) False Cons.prems by auto
    then show ?thesis
      using False Cons by (simp add: Let_def)
  qed
qed simp

lemma remove_aligned:
  assumes ok: "dr_ok st"
  shows "\<exists>st' r. x86_remove_aligned_watchpoint st a bits = Inr (st', r) \<and>
    (if 0 < watched st (a, bits)
     then r = 0 \<and> dr_ok st' \<and> grows st' st \<and>
       watched st' = (watched st)((a, bits) := watched st (a, bits) - 1)
     else r = -1 \<and> st' = st)"
proof -
  note len = dr_okD(1,2) [OF ok]
  have set4: "set [0..<DR_NADDR] = {..<4}" by (auto simp: DR_NADDR_def)
  show ?thesis
  proof (cases "\<exists>i < 4. in_use st a bits i")
    case False
    then have loop: "remove_loop a bits [0..<DR_NADDR] st (-1) True =
        (st, -1, \<forall>i < 4. vacant st i)"
      by (subst remove_loop_miss) (use set4 in auto)
    have z: "watched st (a, bits) = 0" using False watched_zero [OF ok] by blast
    show ?thesis
    proof (cases "\<forall>i < 4. vacant st i")
      case True
      then have "dr_control_mirror st AND NOT DR_LOCAL_SLOWDOWN = 0"
        using dr_okD(3,6) [OF ok] by (intro control_zero) auto
      moreover have "\<not> bit (dr_control_mirror st) 8" using dr_okD(7) [OF ok] True by simp
      then have "dr_control_mirror st AND NOT DR_LOCAL_SLOWDOWN = dr_control_mirror st"
        by (intro bit_word_eqI) (auto simp: dr_bits)
      ultimately show ?thesis
        using True z by (simp add: x86_remove_aligned_watchpoint_def loop)
    next
      case used: False
      then show ?thesis
        using z by (auto simp: x86_remove_aligned_watchpoint_def loop)
    qed
  next
    case True
    then obtain i where i: "i < 4" "in_use st a bits i" by blast
    let ?r = "release st i"
    note rel = released [OF len i(1)]
    have pos: "0 < dr_ref_count st ! i" using dr_okD(4) [OF ok i(1)] i(2) by (simp add: in_use_def)
    have w: "watched st (a, bits) = dr_ref_count st ! i" using watched_at [OF ok i] .
    have loop: "remove_loop a bits [0..<DR_NADDR] st (-1) True = (?r, 0, \<forall>j < 4. vacant ?r j)"
      using remove_loop_hit [OF len, of "[0..<DR_NADDR]" i a bits "-1" True] set4 i
        in_use_unique [OF ok] by fastforce
    have used: "bit (dr_control_mirror st) 8"
      using dr_okD(7) [OF ok] i by (auto simp: in_use_def)
    have regs: "if vacant ?r j then dr_mirror ?r ! j = 0 \<and> rw_len ?r j = 0 \<and> dr_ref_count ?r ! j = 0
        else 0 < dr_ref_count ?r ! j" if "j < 4" for j
      using dr_okD(3,4) [OF ok that] pos i len that
      by (cases "j = i") (auto simp: rel in_use_def nth_list_update)
    have dist: "j = k" if "j < 4" "k < 4" "\<not> vacant ?r j" "\<not> vacant ?r k"
      "dr_mirror ?r ! j = dr_mirror ?r ! k" "rw_len ?r j = rw_len ?r k" for j k
    proof -
      have "\<not> vacant st j" "\<not> vacant st k" "dr_mirror st ! j = dr_mirror st ! k" "rw_len st j = rw_len st k"
        using that i len by (auto simp: rel nth_list_update split: if_splits)
      then show ?thesis using dr_okD(5) [OF ok that(1,2)] by blast
    qed
    have wat: "watched ?r k = ((watched st)((a, bits) := watched st (a, bits) - 1)) k" for k
    proof -
      have use: "in_use ?r x y j = in_use st x y j" if "j < 4" "j \<noteq> i" for x y j
        using that by (auto simp: in_use_def rel)
      have "watched ?r k = watched st k +
          (if in_use ?r (fst k) (snd k) i then dr_ref_count ?r ! i else 0) -
          (if in_use st (fst k) (snd k) i then dr_ref_count st ! i else 0)"
        unfolding watched_def by (rule sum_one_changed) (use i use rel in auto)
      then show ?thesis
        using i len w by (cases k) (auto simp: in_use_def rel)
    qed
    have gr: "grows ?r st"
      using i len by (auto simp: grows_def rel nth_list_update)
    show ?thesis
    proof (cases "\<forall>j < 4. vacant ?r j")
      case False
      have "dr_ok ?r"
      proof (rule dr_okI)
        show "length (dr_mirror ?r) = 4" "length (dr_ref_count ?r) = 4" using len by (simp_all add: rel(1,2))
        show "if vacant ?r j then dr_mirror ?r ! j = 0 \<and> rw_len ?r j = 0 \<and> dr_ref_count ?r ! j = 0
          else 0 < dr_ref_count ?r ! j" if "j < 4" for j using regs [OF that] .
        show "k < 9 \<or> 16 \<le> k" if "k < 32" "bit (dr_control_mirror ?r) k" for k
          using dr_okD(6) [OF ok that(1)] rel(6) [OF that(2)] by blast
        show "bit (dr_control_mirror ?r) 8 \<longleftrightarrow> (\<exists>j < 4. \<not> vacant ?r j)" using used False rel(5) by blast
      qed (use dist in blast)
      then show ?thesis
        using False wat gr pos w by (auto simp: x86_remove_aligned_watchpoint_def loop)
    next
      case all: True
      let ?s = "?r\<lparr>dr_control_mirror := dr_control_mirror ?r AND NOT DR_LOCAL_SLOWDOWN\<rparr>"
      have z: "dr_control_mirror ?r AND NOT DR_LOCAL_SLOWDOWN = 0"
      proof (rule control_zero)
        show "vacant ?r j" if "j < 4" for j using all that by blast
        show "rw_len ?r j = 0" if "j < 4" for j using regs [OF that] all that by simp
        show "k < 9 \<or> 16 \<le> k" if "k < 32" "bit (dr_control_mirror ?r) k" for k
          using dr_okD(6) [OF ok that(1)] rel(6) [OF that(2)] by blast
      qed
      have v0: "X86_DR_VACANT 0 j" "X86_DR_GET_RW_LEN 0 j = 0" for j
        by (simp_all add: X86_DR_VACANT_def X86_DR_GET_RW_LEN_def)
      have "dr_ok ?s"
      proof (rule dr_okI)
        show "if vacant ?s j then dr_mirror ?s ! j = 0 \<and> rw_len ?s j = 0 \<and> dr_ref_count ?s ! j = 0
          else 0 < dr_ref_count ?s ! j" if "j < 4" for j
          using regs [OF that] all that by (simp add: z v0)
      qed (use len z v0 in \<open>simp_all add: rel(1,2)\<close>)
      moreover have "watched ?s = watched ?r"
        using all by (auto simp: fun_eq_iff watched_def in_use_def z v0)
      moreover have "grows ?s st" by (simp add: grows_def z v0)
      ultimately show ?thesis
        using all wat pos w z by (auto simp: x86_remove_aligned_watchpoint_def loop Let_def)
    qed
  qed
qed

subsection \<open>Regions as lists of pieces\<close>

text \<open>The specification of the decomposition, and the table entries of its pieces.\<close>

function pieces :: "x86_dr_low_type \<Rightarrow> CORE_ADDR \<Rightarrow> int \<Rightarrow> (CORE_ADDR \<times> nat) list" where
  "pieces low a len =
     (if len \<le> 0 then []
      else (a, piece_size low a len) #
        pieces low (a + of_nat (piece_size low a len)) (len - int (piece_size low a len)))"
  by pat_completeness auto
termination
proof (relation "measure (\<lambda>(low, a, len). nat len)", goal_cases)
  case (2 low a len)
  then show ?case using piece_size_less [of len low a] by simp
qed simp

declare pieces.simps [simp del]

lemma pieces_none [simp]: "len \<le> 0 \<Longrightarrow> pieces low a len = []"
  by (simp add: pieces.simps)

definition bits_of :: "x86_dr_low_type \<Rightarrow> target_hw_bp_type \<Rightarrow> nat \<Rightarrow> uint32" where
  "bits_of low type n = (case x86_length_and_rw_bits low (int n) type of Inl _ \<Rightarrow> 0 | Inr b \<Rightarrow> b)"

definition keys :: "x86_dr_low_type \<Rightarrow> target_hw_bp_type \<Rightarrow> CORE_ADDR \<Rightarrow> int \<Rightarrow> (CORE_ADDR \<times> uint32) list" where
  "keys low type a len = map (map_prod id (bits_of low type)) (pieces low a len)"

lemma keys_step: "0 < len \<Longrightarrow> keys low type a len =
    (a, bits_of low type (piece_size low a len)) #
      keys low type (a + of_nat (piece_size low a len)) (len - int (piece_size low a len))"
  by (simp add: keys_def pieces.simps [of low a len])

lemma keys_none [simp]: "len \<le> 0 \<Longrightarrow> keys low type a len = []"
  by (simp add: keys_def)

lemma length_keys: "length (keys low type a len) = length (pieces low a len)"
  by (simp add: keys_def)

lemma bits_of_legal:
  assumes "type \<noteq> hw_read" "n \<in> {1, 2, 4, 8}" "n \<le> max_wp_len low"
  shows "x86_length_and_rw_bits low (int n) type = Inr (bits_of low type n)" "nibble (bits_of low type n)"
proof -
  have 1: "x86_length_and_rw_bits low (int n) type = Inr (bits_of low type n) \<and>
      bits_of low type n \<in> {0, 1, 3, 4, 5, 7, 8, 9, 11, 12, 13, 15}"
    using assms by (cases type) (auto simp: bits_of_def x86_length_and_rw_bits_def max_wp_len_def split: if_splits)
  have "b AND 15 = b \<Longrightarrow> nibble b" for b
    unfolding nibble_def by (metis bit_and_iff bit_numerals(2) bit_numeral_word_iff)
  then show "x86_length_and_rw_bits low (int n) type = Inr (bits_of low type n)" "nibble (bits_of low type n)"
    using 1 by auto
qed

lemmas piece_bits = bits_of_legal [OF _ piece_size_cases [THEN conjunct1]
  piece_size_cases [THEN conjunct2, THEN conjunct2, THEN conjunct1]]

lemma not_split_pieces:
  assumes "\<not> needs_split low a len"
  shows "pieces low a len = [(a, nat len)]"
proof -
  have len: "len = 1 \<or> len = 2 \<or> len = 4 \<or> (max_wp_len low = 8 \<and> len = 8)"
    using assms by (auto simp: needs_split_def max_wp_len_def)
  have mod0: "unat a mod nat len = 0" using assms by (simp add: needs_split_def)
  have m: "max_wp_len low = 4 \<or> max_wp_len low = 8" by (simp add: max_wp_len_def)
  have "\<forall>m \<in> {4, 8 :: nat}. \<forall>l \<in> {1, 2, 4, 8}. l \<le> m \<longrightarrow> (\<forall>j < m. j mod l = 0 \<longrightarrow> size_try_array ! (l - 1) ! j = l)"
    by code_simp
  moreover have "nat len \<in> {1, 2, 4, 8}" "nat len \<le> max_wp_len low" using len m by auto
  moreover have "unat a mod max_wp_len low mod nat len = 0"
    using mod0 len m by (auto simp: mod_mod_cancel)
  moreover have "unat a mod max_wp_len low < max_wp_len low" using m by auto
  ultimately have "size_try_array ! (nat len - 1) ! (unat a mod max_wp_len low) = nat len"
    using m by (metis insert_iff)
  moreover have "nat (len - 1) = nat len - 1" "\<not> len > int (max_wp_len low)" "0 < len"
    using len m by auto
  ultimately have "piece_size low a len = nat len" by (simp add: piece_size_def)
  then show ?thesis using \<open>0 < len\<close> by (simp add: pieces.simps [of low a len])
qed

lemma pieces_bytes:
  "concat (map (\<lambda>(b, n). map (\<lambda>k. b + of_nat k) [0..<n]) (pieces low a len)) =
   map (\<lambda>k. a + of_nat k) [0..<nat len]"
proof (induction low a len rule: pieces.induct)
  case (1 low a len)
  show ?case
  proof (cases "len \<le> 0")
    case False
    let ?s = "piece_size low a len"
    have s: "0 < ?s" "int ?s \<le> len" using piece_size_less [of len low a] False by auto
    have "map (\<lambda>k. a + of_nat k) [0..<nat len] = map (\<lambda>k. a + of_nat k) [0..<?s] @
        map (\<lambda>k. a + of_nat k) [?s..<nat len]"
      using s upt_add_eq_append [of 0 ?s "nat len - ?s"] by (simp flip: map_append)
    also have "map (\<lambda>k. a + of_nat k) [?s..<nat len] =
        map (\<lambda>k. a + of_nat ?s + of_nat k) [0..<nat (len - int ?s)]"
      by (rule nth_equalityI) (use s in \<open>auto simp: add.assoc nat_diff_distrib\<close>)
    finally show ?thesis
      using 1 [OF False] False by (simp add: pieces.simps [of low a len])
  qed simp
qed

lemma pieces_legal:
  "(b, n) \<in> set (pieces low a len) \<Longrightarrow>
    n \<in> {1, 2, 4, 8} \<and> n \<le> max_wp_len low \<and> unat b mod n = 0"
proof (induction low a len rule: pieces.induct)
  case (1 low a len)
  then show ?case
    using piece_size_cases [of len low a]
    by (cases "len \<le> 0") (auto simp: pieces.simps [of low a len])
qed

lemma count_pieces:
  "x86_handle_nonaligned_watchpoint low st WP_COUNT a len type r = Inr (st, r + int (length (pieces low a len)))"
proof (induction low a len arbitrary: r rule: pieces.induct)
  case (1 low a len)
  then show ?case
    by (cases "len \<le> 0")
      (simp_all add: pieces.simps [of low a len] x86_handle_nonaligned_watchpoint.simps [of _ _ _ _ len] Let_def)
qed

subsection \<open>Inserting and removing regions\<close>

lemma insert_region:
  assumes "type \<noteq> hw_read" "dr_ok st"
  shows "\<exists>st' r. x86_handle_nonaligned_watchpoint low st WP_INSERT a len type 0 = Inr (st', r) \<and>
    dr_ok st' \<and> grows st st' \<and>
    (r = 0 \<longrightarrow> (\<forall>k. watched st' k = watched st k + int (count_list (keys low type a len) k)))"
  using assms(2)
proof (induction low a len arbitrary: st rule: pieces.induct)
  case (1 low a len)
  show ?case
  proof (cases "len \<le> 0")
    case True
    then show ?thesis using 1 by (simp add: x86_handle_nonaligned_watchpoint.simps)
  next
    case False
    let ?s = "piece_size low a len"
    let ?b = "bits_of low type ?s"
    have b: "x86_length_and_rw_bits low (int ?s) type = Inr ?b" "nibble ?b"
      using piece_bits [OF assms(1)] False by auto
    obtain st1 r where ins: "x86_insert_aligned_watchpoint low st a ?b = (st1, r)" by fastforce
    note al = insert_aligned [OF 1(2) b(2) ins]
    note step = x86_handle_nonaligned_watchpoint.simps [of low st WP_INSERT a len]
    show ?thesis
    proof (cases "r = 0")
      case True
      have st1: "dr_ok st1" "grows st st1" "watched st1 = (watched st)((a, ?b) := watched st (a, ?b) + 1)"
        using al(2) [OF True] by auto
      obtain st' r' where rest: "x86_handle_nonaligned_watchpoint low st1 WP_INSERT (a + of_nat ?s)
          (len - int ?s) type 0 = Inr (st', r')" "dr_ok st'" "grows st1 st'"
        "r' = 0 \<longrightarrow> (\<forall>k. watched st' k = watched st1 k +
           int (count_list (keys low type (a + of_nat ?s) (len - int ?s)) k))"
        using 1(1) [OF False st1(1)] by blast
      then show ?thesis
        using False ins b(1) True st1 grows_trans [OF st1(2) rest(3)]
        by (auto simp: step Let_def keys_step)
    next
      case err: False
      then show ?thesis using False ins b(1) al(1) 1(2) by (auto simp: step Let_def)
    qed
  qed
qed

lemma remove_region:
  assumes "type \<noteq> hw_read" "dr_ok st"
  shows "\<exists>st' r. x86_handle_nonaligned_watchpoint low st WP_REMOVE a len type 0 = Inr (st', r) \<and>
    dr_ok st' \<and> grows st' st \<and>
    (r = 0 \<longleftrightarrow> (\<forall>k. int (count_list (keys low type a len) k) \<le> watched st k)) \<and>
    (r = 0 \<longrightarrow> (\<forall>k. watched st' k = watched st k - int (count_list (keys low type a len) k)))"
  using assms(2)
proof (induction low a len arbitrary: st rule: pieces.induct)
  case (1 low a len)
  show ?case
  proof (cases "len \<le> 0")
    case True
    then show ?thesis using 1 watched_nonneg by (simp add: x86_handle_nonaligned_watchpoint.simps)
  next
    case False
    let ?s = "piece_size low a len"
    let ?b = "bits_of low type ?s"
    let ?t = "keys low type (a + of_nat ?s) (len - int ?s)"
    have b: "x86_length_and_rw_bits low (int ?s) type = Inr ?b"
      using piece_bits [OF assms(1)] False by auto
    obtain st1 r where rem: "x86_remove_aligned_watchpoint st a ?b = Inr (st1, r)" and
      al: "if 0 < watched st (a, ?b)
        then r = 0 \<and> dr_ok st1 \<and> grows st1 st \<and> watched st1 = (watched st)((a, ?b) := watched st (a, ?b) - 1)
        else r = -1 \<and> st1 = st"
      using remove_aligned [OF 1(2), of a ?b] by blast
    note step = x86_handle_nonaligned_watchpoint.simps [of low st WP_REMOVE a len]
    have keys: "keys low type a len = (a, ?b) # ?t" using False by (simp add: keys_step)
    show ?thesis
    proof (cases "0 < watched st (a, ?b)")
      case True
      then have st1: "r = 0" "dr_ok st1" "grows st1 st"
        "watched st1 = (watched st)((a, ?b) := watched st (a, ?b) - 1)" using al by auto
      obtain st' r' where rest: "x86_handle_nonaligned_watchpoint low st1 WP_REMOVE (a + of_nat ?s)
          (len - int ?s) type 0 = Inr (st', r')" "dr_ok st'" "grows st' st1"
        "r' = 0 \<longleftrightarrow> (\<forall>k. int (count_list ?t k) \<le> watched st1 k)"
        "r' = 0 \<longrightarrow> (\<forall>k. watched st' k = watched st1 k - int (count_list ?t k))"
        using 1(1) [OF False st1(2)] by blast
      have "(\<forall>k. int (count_list ?t k) \<le> watched st1 k) \<longleftrightarrow>
          (\<forall>k. int (count_list (keys low type a len) k) \<le> watched st k)"
        by (auto simp: st1(4) keys algebra_simps)
      then show ?thesis
        using False rem b st1 rest grows_trans [OF rest(3) st1(3)] by (auto simp: step Let_def keys)
    next
      case no: False
      then have "\<not> int (count_list (keys low type a len) (a, ?b)) \<le> watched st (a, ?b)"
        by (simp add: keys)
      then have "\<not> (\<forall>k. int (count_list (keys low type a len) k) \<le> watched st k)" by blast
      then show ?thesis using no al rem b False 1(2) by (auto simp: step Let_def)
    qed
  qed
qed

text \<open>A region whose pieces are at most the vacant registers is always accepted.\<close>

lemma insert_vacancies:
  assumes "dr_ok st" "nibble bits" "x86_insert_aligned_watchpoint low st a bits = (st', 0)"
  shows "card {i. i < 4 \<and> vacant st i} \<le> card {i. i < 4 \<and> vacant st' i} + 1"
proof -
  have can: "can_set_addr low \<and> can_set_control low"
    using assms(3) by (auto simp: x86_insert_aligned_watchpoint_def split: if_splits)
  show ?thesis
  proof (cases "find (in_use st a bits) [0..<4]")
    case (Some i)
    then have "vacant st' j = vacant st j" for j
      using assms(3) can by (auto simp: x86_insert_aligned_watchpoint_def DR_NADDR_def)
    then show ?thesis by simp
  next
    case none: None
    then obtain i where i: "find (vacant st) [0..<4] = Some i" "st' = occupy st a bits i"
      using assms(3) can by (auto simp: x86_insert_aligned_watchpoint_def DR_NADDR_def split: option.splits)
    then have "i < 4" "vacant st i" using find_index by blast+
    then have "{j. j < 4 \<and> vacant st j} = insert i {j. j < 4 \<and> vacant st' j}"
      using i(2) vacant_occupy by auto
    then show ?thesis by (simp add: card_insert_if)
  qed
qed

lemma insert_region_room:
  assumes "type \<noteq> hw_read" "dr_ok st" "can_set_addr low" "can_set_control low"
    and "length (pieces low a len) \<le> card {i. i < 4 \<and> vacant st i}"
  shows "\<exists>st'. x86_handle_nonaligned_watchpoint low st WP_INSERT a len type 0 = Inr (st', 0)"
  using assms(2-)
proof (induction low a len arbitrary: st rule: pieces.induct)
  case (1 low a len)
  note step = x86_handle_nonaligned_watchpoint.simps [of low st WP_INSERT a len]
  show ?case
  proof (cases "len \<le> 0")
    case False
    let ?s = "piece_size low a len"
    let ?b = "bits_of low type ?s"
    have b: "x86_length_and_rw_bits low (int ?s) type = Inr ?b" "nibble ?b"
      using piece_bits [OF assms(1)] False by auto
    obtain st1 r where ins: "x86_insert_aligned_watchpoint low st a ?b = (st1, r)" by fastforce
    have p: "pieces low a len = (a, ?s) # pieces low (a + of_nat ?s) (len - int ?s)"
      using False by (simp add: pieces.simps [of low a len])
    have "{i. i < 4 \<and> vacant st i} \<noteq> {}" using 1(5) p by (metis card.empty length_Cons not_less_eq_eq zero_le)
    then have r: "r = 0" using insert_aligned(3) [OF 1(2) b(2) ins 1(3,4)] by blast
    have "length (pieces low (a + of_nat ?s) (len - int ?s)) \<le> card {i. i < 4 \<and> vacant st1 i}"
      using insert_vacancies [OF 1(2) b(2)] ins r 1(5) p by fastforce
    then show ?thesis
      using 1(1) [OF False _ 1(3,4), of st1] insert_aligned(2) [OF 1(2) b(2) ins r] False ins b(1) r
      by (simp add: step Let_def)
  qed (simp add: step)
qed

subsection \<open>The inferior\<close>

text \<open>What a write does to the registers of the inferior.\<close>

fun apply_write :: "dr_write \<Rightarrow> CORE_ADDR list \<times> uint32 \<Rightarrow> CORE_ADDR list \<times> uint32" where
  "apply_write (Set_addr i a) (as, c) = (as[i := a], c)"
| "apply_write (Set_control c') (as, c) = (as, c')"

lemma update_writes_sync:
  assumes "\<And>i. i \<in> set is \<Longrightarrow> vacant new i = vacant st i \<Longrightarrow> dr_mirror new ! i = dr_mirror st ! i"
    and "length as = length (dr_mirror new)" "set is \<subseteq> {..<length as}"
  shows "\<exists>ws. update_writes st new is = Inr ws \<and> (\<exists>as'. fold apply_write ws (as, c) = (as', c) \<and>
    length as' = length as \<and> (\<forall>i. as' ! i =
      (if i \<in> set is \<and> vacant new i \<noteq> vacant st i then dr_mirror new ! i else as ! i)))"
  using assms
proof (induction "is" arbitrary: as)
  case (Cons j "is")
  show ?case
  proof (cases "vacant new j = vacant st j")
    case True
    then show ?thesis using Cons.IH [of as] Cons.prems by (auto cong: if_cong)
  next
    case False
    let ?as = "as[j := dr_mirror new ! j]"
    obtain ws as' where ih: "update_writes st new is = Inr ws" "fold apply_write ws (?as, c) = (as', c)"
      "length as' = length as" "\<forall>i. as' ! i =
        (if i \<in> set is \<and> vacant new i \<noteq> vacant st i then dr_mirror new ! i else ?as ! i)"
      using Cons.IH [of ?as] Cons.prems by auto
    have "j < length as" using Cons.prems by simp
    then have "\<forall>i. as' ! i = (if i \<in> set (j # is) \<and> vacant new i \<noteq> vacant st i then dr_mirror new ! i else as ! i)"
      using ih(4) False by (auto simp: nth_list_update)
    then show ?thesis using ih False by auto
  qed
qed simp

lemma update_sync:
  assumes "dr_ok st" "dr_ok new" "grows st new \<or> grows new st"
  shows "\<exists>ws. x86_update_inferior_debug_regs st new = Inr (new, ws) \<and>
    fold apply_write ws (dr_mirror st, dr_control_mirror st) = (dr_mirror new, dr_control_mirror new)"
proof -
  have eq: "dr_mirror new ! i = dr_mirror st ! i" if "i < 4" "vacant new i = vacant st i" for i
    using assms that dr_okD(3) [OF assms(1) that(1)] dr_okD(3) [OF assms(2) that(1)]
    by (cases "vacant st i") (auto simp: grows_def)
  note len = dr_okD(1) [OF assms(1)] dr_okD(1) [OF assms(2)]
  obtain ws as' where ws: "update_writes st new [0..<4] = Inr ws"
    "fold apply_write ws (dr_mirror st, dr_control_mirror st) = (as', dr_control_mirror st)"
    "length as' = 4" "\<forall>i. as' ! i =
      (if i < 4 \<and> vacant new i \<noteq> vacant st i then dr_mirror new ! i else dr_mirror st ! i)"
    using update_writes_sync [of "[0..<4]" new st "dr_mirror st" "dr_control_mirror st"] eq len by (auto simp: atLeast0LessThan)
  have "as' = dr_mirror new"
    by (rule nth_equalityI) (use ws len eq in auto)
  then show ?thesis
    using ws by (auto simp: x86_update_inferior_debug_regs_def DR_NADDR_def)
qed

subsection \<open>Properties\<close>

text \<open>The registers before the first watchpoint, and a low-level vector of an AMD64 target.\<close>

definition dr_empty :: x86_debug_reg_state where
  "dr_empty = \<lparr>dr_mirror = [0, 0, 0, 0], dr_status_mirror = 0, dr_control_mirror = 0,
     dr_ref_count = [0, 0, 0, 0]\<rparr>"

definition amd64_low :: "x86_dr_low_type" where
  "amd64_low = \<lparr>can_set_addr = True, can_set_control = True, get_addr = (\<lambda>_. 0), get_status = 0,
     get_control = 0, debug_register_length = 8\<rparr>"

lemma dr_empty_vacant: "vacant dr_empty i"
  by (simp add: dr_empty_def X86_DR_VACANT_def)

lemma dr_ok_empty: "dr_ok dr_empty"
proof (rule dr_okI)
  fix i :: nat assume "i < 4"
  then show "if vacant dr_empty i then dr_mirror dr_empty ! i = 0 \<and> rw_len dr_empty i = 0 \<and> dr_ref_count dr_empty ! i = 0
      else 0 < dr_ref_count dr_empty ! i"
    by (auto simp: less_4 dr_empty_vacant) (auto simp: dr_empty_def X86_DR_GET_RW_LEN_def)
qed (simp_all add: dr_empty_vacant, simp_all add: dr_empty_def)

lemma aligned_is_region:
  assumes "\<not> needs_split low a len" "type \<noteq> hw_read"
  shows "x86_length_and_rw_bits low len type = Inr (bits_of low type (nat len))"
    and "x86_handle_nonaligned_watchpoint low st WP_INSERT a len type 0 =
      Inr (x86_insert_aligned_watchpoint low st a (bits_of low type (nat len)))"
    and "x86_handle_nonaligned_watchpoint low st WP_REMOVE a len type 0 =
      x86_remove_aligned_watchpoint st a (bits_of low type (nat len))"
proof -
  have p: "pieces low a len = [(a, nat len)]" by (rule not_split_pieces [OF assms(1)])
  then have len: "0 < len" by (metis pieces_none not_le list.distinct(1))
  then have s: "piece_size low a len = nat len"
    using p by (simp add: pieces.simps [of low a len])
  show b: "x86_length_and_rw_bits low len type = Inr (bits_of low type (nat len))"
    using piece_bits(1) [OF assms(2) len, of low a] s len by simp
  have stop: "x86_handle_nonaligned_watchpoint low st1 op a1 0 type r = Inr (st1, r)" for st1 op a1 r
    by (simp add: x86_handle_nonaligned_watchpoint.simps)
  note step = x86_handle_nonaligned_watchpoint.simps [of low st _ a len type 0, unfolded s Let_def]
  show "x86_handle_nonaligned_watchpoint low st WP_INSERT a len type 0 =
      Inr (x86_insert_aligned_watchpoint low st a (bits_of low type (nat len)))"
    using len b stop by (simp add: step split: prod.split)
  show "x86_handle_nonaligned_watchpoint low st WP_REMOVE a len type 0 =
      x86_remove_aligned_watchpoint st a (bits_of low type (nat len))"
    using len b stop by (simp add: step split: prod.split sum.split)
qed

text \<open>So both public operations work on the region, whether they split it or not.\<close>

lemma x86_operations_on_region:
  assumes "type \<noteq> hw_read"
  shows "x86_dr_insert_watchpoint low st type a len =
      (case x86_handle_nonaligned_watchpoint low st WP_INSERT a len type 0 of
         Inl e \<Rightarrow> Inl e
       | Inr (local_state, r) \<Rightarrow>
           if r = 0 then map_sum id (\<lambda>(st1, ws). (st1, ws, r)) (x86_update_inferior_debug_regs st local_state)
           else Inr (st, [], r))"
    and "x86_dr_remove_watchpoint low st type a len =
      (case x86_handle_nonaligned_watchpoint low st WP_REMOVE a len type 0 of
         Inl e \<Rightarrow> Inl e
       | Inr (local_state, r) \<Rightarrow>
           if r = 0 then map_sum id (\<lambda>(st1, ws). (st1, ws, r)) (x86_update_inferior_debug_regs st local_state)
           else Inr (st, [], r))"
  using assms
  by (simp_all add: x86_dr_insert_watchpoint_def x86_dr_remove_watchpoint_def aligned_is_region
      cong: if_cong sum.case_cong)

lemma insert_room:
  assumes "length (pieces low a len) \<le> 4" "dr_ok st" "\<And>i. i < 4 \<Longrightarrow> vacant st i"
    and "can_set_addr low" "can_set_control low" "type \<noteq> hw_read"
  shows "\<exists>st' ws. x86_dr_insert_watchpoint low st type a len = Inr (st', ws, 0)"
proof -
  have "{i. i < 4 \<and> vacant st i} = {..<4}" using assms(3) by auto
  then obtain st' where h: "x86_handle_nonaligned_watchpoint low st WP_INSERT a len type 0 = Inr (st', 0)"
    using insert_region_room [OF assms(6,2,4,5), of a len] assms(1) by (metis card_lessThan)
  have "dr_ok st'" "grows st st'" using insert_region [OF assms(6,2), of low a len] h by auto
  then obtain ws where "x86_update_inferior_debug_regs st st' = Inr (st', ws)"
    using update_sync [OF assms(2)] by blast
  then have "x86_dr_insert_watchpoint low st type a len = Inr (st', ws, 0)"
    using h by (simp add: x86_operations_on_region [OF assms(6)])
  then show ?thesis by blast
qed

lemma amd64_can: "can_set_addr amd64_low" "can_set_control amd64_low"
  by (simp_all add: amd64_low_def)

lemma sample_pieces: "pieces amd64_low 0x1003 13 = [(0x1003, 1), (0x1004, 4), (0x1008, 8)]"
  by (simp add: pieces.simps piece_size_def max_wp_len_def TARGET_HAS_DR_LEN_8_def amd64_low_def size_try_array_def)

text \<open>C30: x86_dr_insert_watchpoint on a consistent mirror never fails an assertion: it either
  returns -1 and changes nothing, or returns 0 and then the pieces of the region are watched once
  more, nothing else changes, the mirror is consistent, and the writes bring the inferior's debug
  registers to the mirror.\<close>

theorem x86_insert_correct:
  assumes "dr_ok st" "type \<noteq> hw_read"
  shows "\<exists>st' ws r. x86_dr_insert_watchpoint low st type a len = Inr (st', ws, r) \<and> dr_ok st' \<and>
    fold apply_write ws (dr_mirror st, dr_control_mirror st) = (dr_mirror st', dr_control_mirror st') \<and>
    (if r = 0 then \<forall>k. watched st' k = watched st k + int (count_list (keys low type a len) k)
     else st' = st \<and> ws = [])"
proof -
  obtain st' r where h: "x86_handle_nonaligned_watchpoint low st WP_INSERT a len type 0 = Inr (st', r)"
    "dr_ok st'" "grows st st'"
    "r = 0 \<longrightarrow> (\<forall>k. watched st' k = watched st k + int (count_list (keys low type a len) k))"
    using insert_region [OF assms(2,1)] by blast
  show ?thesis
  proof (cases "r = 0")
    case True
    obtain ws where "x86_update_inferior_debug_regs st st' = Inr (st', ws)"
      "fold apply_write ws (dr_mirror st, dr_control_mirror st) = (dr_mirror st', dr_control_mirror st')"
      using update_sync [OF assms(1) h(2)] h(3) by blast
    then show ?thesis using h(1,2,4) True by (simp add: x86_operations_on_region [OF assms(2)])
  qed (use assms(1) h(1) in \<open>simp add: x86_operations_on_region [OF assms(2)]\<close>)
qed

theorem x86_insert_correct_witness:
  "\<exists>st' ws r. x86_dr_insert_watchpoint amd64_low dr_empty hw_write 0x1003 13 = Inr (st', ws, r) \<and> dr_ok st' \<and>
    fold apply_write ws (dr_mirror dr_empty, dr_control_mirror dr_empty) = (dr_mirror st', dr_control_mirror st') \<and>
    (if r = 0 then \<forall>k. watched st' k = watched dr_empty k + int (count_list (keys amd64_low hw_write 0x1003 13) k)
     else st' = dr_empty \<and> ws = [])"
  by (rule x86_insert_correct) (simp_all add: dr_ok_empty)

text \<open>C31: x86_dr_remove_watchpoint on a consistent mirror never fails an assertion. It returns 0
  exactly when every piece of the region is watched as often as the region needs it; then these
  counts go down and the inferior follows. Otherwise it changes nothing, although earlier pieces may
  have been released on the way.\<close>

theorem x86_remove_correct:
  assumes "dr_ok st" "type \<noteq> hw_read"
  shows "\<exists>st' ws r. x86_dr_remove_watchpoint low st type a len = Inr (st', ws, r) \<and> dr_ok st' \<and>
    fold apply_write ws (dr_mirror st, dr_control_mirror st) = (dr_mirror st', dr_control_mirror st') \<and>
    (r = 0 \<longleftrightarrow> (\<forall>k. int (count_list (keys low type a len) k) \<le> watched st k)) \<and>
    (if r = 0 then \<forall>k. watched st' k = watched st k - int (count_list (keys low type a len) k)
     else st' = st \<and> ws = [])"
proof -
  obtain st' r where h: "x86_handle_nonaligned_watchpoint low st WP_REMOVE a len type 0 = Inr (st', r)"
    "dr_ok st'" "grows st' st"
    "r = 0 \<longleftrightarrow> (\<forall>k. int (count_list (keys low type a len) k) \<le> watched st k)"
    "r = 0 \<longrightarrow> (\<forall>k. watched st' k = watched st k - int (count_list (keys low type a len) k))"
    using remove_region [OF assms(2,1)] by blast
  show ?thesis
  proof (cases "r = 0")
    case True
    obtain ws where "x86_update_inferior_debug_regs st st' = Inr (st', ws)"
      "fold apply_write ws (dr_mirror st, dr_control_mirror st) = (dr_mirror st', dr_control_mirror st')"
      using update_sync [OF assms(1) h(2)] h(3) by blast
    then show ?thesis using h(1,2,4,5) True by (simp add: x86_operations_on_region [OF assms(2)])
  next
    case False
    then have "x86_dr_remove_watchpoint low st type a len = Inr (st, [], r)"
      using h(1) by (simp add: x86_operations_on_region [OF assms(2)])
    then show ?thesis using assms(1) False h(4)
      by (intro exI [of _ st] exI [of _ "[]"] exI [of _ r]) (auto simp del: split_paired_All)
  qed
qed

theorem x86_remove_correct_witness:
  "\<exists>st' ws r. x86_dr_remove_watchpoint amd64_low dr_empty hw_access 0x1003 13 = Inr (st', ws, r) \<and> dr_ok st' \<and>
    fold apply_write ws (dr_mirror dr_empty, dr_control_mirror dr_empty) = (dr_mirror st', dr_control_mirror st') \<and>
    (r = 0 \<longleftrightarrow> (\<forall>k. int (count_list (keys amd64_low hw_access 0x1003 13) k) \<le> watched dr_empty k)) \<and>
    (if r = 0 then \<forall>k. watched st' k = watched dr_empty k - int (count_list (keys amd64_low hw_access 0x1003 13) k)
     else st' = dr_empty \<and> ws = [])"
  by (rule x86_remove_correct) (simp_all add: dr_ok_empty)

text \<open>A region that x86_dr_region_ok_for_watchpoint accepts can be watched: with four vacant
  registers and a low-level vector that can set them the insertion returns 0, and the pieces it
  watches are aligned, of a size the hardware has, and cover the bytes of the region in order, each
  once.\<close>

theorem x86_region_ok_sound:
  assumes "x86_dr_region_ok_for_watchpoint low st0 a len = Inr True"
    and "dr_ok st" "\<forall>i < 4. X86_DR_VACANT (dr_control_mirror st) i"
    and "can_set_addr low" "can_set_control low" "type \<noteq> hw_read"
  shows "(\<exists>st' ws. x86_dr_insert_watchpoint low st type a len = Inr (st', ws, 0)) \<and>
    (\<forall>(b, n) \<in> set (pieces low a len). n \<in> {1, 2, 4, 8} \<and> n \<le> max_wp_len low \<and> unat b mod n = 0) \<and>
    concat (map (\<lambda>(b, n). map (\<lambda>k. b + of_nat k) [0..<n]) (pieces low a len)) =
      map (\<lambda>k. a + of_nat k) [0..<nat len]"
proof -
  have "length (pieces low a len) \<le> 4"
    using assms(1) by (simp add: x86_dr_region_ok_for_watchpoint_def count_pieces DR_NADDR_def)
  then have "\<exists>st' ws. x86_dr_insert_watchpoint low st type a len = Inr (st', ws, 0)"
    using insert_room [OF _ assms(2) _ assms(4-6)] assms(3) by blast
  then show ?thesis using pieces_legal pieces_bytes by blast
qed

theorem x86_region_ok_sound_witness:
  "(\<exists>st' ws. x86_dr_insert_watchpoint amd64_low dr_empty hw_write 0x1003 13 = Inr (st', ws, 0)) \<and>
    pieces amd64_low 0x1003 13 = [(0x1003, 1), (0x1004, 4), (0x1008, 8)] \<and>
    concat (map (\<lambda>(b, n). map (\<lambda>k. b + of_nat k) [0..<n]) (pieces amd64_low 0x1003 13)) =
      map (\<lambda>k. 0x1003 + of_nat k) [0..<nat 13]"
proof -
  have "x86_dr_region_ok_for_watchpoint amd64_low dr_empty 0x1003 13 = Inr True"
    unfolding x86_dr_region_ok_for_watchpoint_def count_pieces
    by (simp add: DR_NADDR_def sample_pieces)
  from x86_region_ok_sound [OF this dr_ok_empty _ amd64_can, of hw_write] show ?thesis
    by (simp only: sample_pieces dr_empty_vacant) simp
qed

text \<open>A watchpoint that was inserted can be removed again: the removal returns 0 and every
  count is what it was before the insertion.\<close>

theorem x86_insert_remove:
  assumes "dr_ok st" "type \<noteq> hw_read"
    and "x86_dr_insert_watchpoint low st type a len = Inr (st1, ws, 0)"
  shows "\<exists>st2 ws2. x86_dr_remove_watchpoint low st1 type a len = Inr (st2, ws2, 0) \<and> dr_ok st2 \<and>
    watched st2 = watched st"
proof -
  obtain st' r where h: "x86_handle_nonaligned_watchpoint low st WP_INSERT a len type 0 = Inr (st', r)"
    "dr_ok st'" "grows st st'"
    "r = 0 \<longrightarrow> (\<forall>k. watched st' k = watched st k + int (count_list (keys low type a len) k))"
    using insert_region [OF assms(2,1)] by blast
  have "st1 = st' \<and> r = 0"
    using assms(3) h(1,3) update_sync [OF assms(1) h(2)]
    by (auto simp: x86_operations_on_region [OF assms(2)] split: if_splits)
  then have st1: "dr_ok st1" "watched st1 k = watched st k + int (count_list (keys low type a len) k)" for k
    using h(2,4) by blast+
  obtain st2 r2 where r: "x86_handle_nonaligned_watchpoint low st1 WP_REMOVE a len type 0 = Inr (st2, r2)"
    "dr_ok st2" "grows st2 st1"
    "r2 = 0 \<longleftrightarrow> (\<forall>k. int (count_list (keys low type a len) k) \<le> watched st1 k)"
    "r2 = 0 \<longrightarrow> (\<forall>k. watched st2 k = watched st1 k - int (count_list (keys low type a len) k))"
    using remove_region [OF assms(2) st1(1)] by blast
  have r2: "r2 = 0" using r(4) watched_nonneg [OF assms(1)] st1(2) by simp
  obtain ws2 where "x86_update_inferior_debug_regs st1 st2 = Inr (st2, ws2)"
    using update_sync [OF st1(1) r(2)] r(3) by blast
  then have "x86_dr_remove_watchpoint low st1 type a len = Inr (st2, ws2, 0)"
    using r(1) r2 by (simp add: x86_operations_on_region [OF assms(2)])
  then show ?thesis using r(2,5) r2 st1(2) by (auto simp: fun_eq_iff)
qed

theorem x86_insert_remove_witness:
  "\<exists>st1 ws. x86_dr_insert_watchpoint amd64_low dr_empty hw_write 0x1003 13 = Inr (st1, ws, 0) \<and>
    (\<exists>st2 ws2. x86_dr_remove_watchpoint amd64_low st1 hw_write 0x1003 13 = Inr (st2, ws2, 0) \<and> dr_ok st2 \<and>
       watched st2 = watched dr_empty)"
proof -
  obtain st1 ws where i: "x86_dr_insert_watchpoint amd64_low dr_empty hw_write 0x1003 13 = Inr (st1, ws, 0)"
    using insert_room [of amd64_low "0x1003" 13 dr_empty hw_write]
    by (auto simp: sample_pieces dr_ok_empty dr_empty_vacant amd64_can)
  show ?thesis using i x86_insert_remove [OF dr_ok_empty _ i] by blast
qed

text \<open>x86_dr_stopped_data_address reports the address in the highest numbered of the four
  registers that the status register marks as hit and that is not an execution breakpoint, and
  reports nothing when there is none.\<close>

theorem x86_stopped_highest:
  "x86_dr_stopped_data_address low =
    (case filter (\<lambda>i. X86_DR_WATCH_HIT (get_status low) i \<and> X86_DR_GET_RW_LEN (get_control low) i \<noteq> 0) [3, 2, 1, 0] of
       [] \<Rightarrow> None | i # _ \<Rightarrow> Some (get_addr low i))"
  by (simp add: x86_dr_stopped_data_address_def DR_NADDR_def upt_conv_Cons numeral_eq_Suc)

end
