(* ===== verification/Sim_Core.thy ===== *)
theory Sim_Core
  imports Prelude
begin

text \<open>
  The memory of the simulators (\<^verbatim>\<open>gdb-15.1/sim/common/sim-core.c\<close> and the access functions of
  \<^verbatim>\<open>sim-n-core.h\<close>): regions ordered by level and address, buffers shared between the read, write and
  execute maps, and accesses in target byte order. The configuration is that of the simulators modelled
  here: a 32-bit target word, \<^verbatim>\<open>WITH_ASSERT\<close>, no \<^verbatim>\<open>WITH_HW\<close>, no \<^verbatim>\<open>WITH_XOR_ENDIAN\<close>. A flat RAM gives
  the interface \<open>memory\<close> that the processors are proved against.
\<close>

subsection \<open>How a simulation stops\<close>

datatype sim_signal = SIM_SIGILL | SIM_SIGSEGV | SIM_SIGBUS | SIM_SIGTRAP

text \<open>
  \<^verbatim>\<open>sim_engine_halt\<close> with \<^verbatim>\<open>sim_exited\<close>, \<^verbatim>\<open>sim_stopped\<close> or \<^verbatim>\<open>sim_signalled\<close>, \<^verbatim>\<open>sim_io_error\<close>, and behaviour C
  leaves undefined.
\<close>

datatype sim_stop = Exited int | Stopped sim_signal | Signalled sim_signal | Io_error | C_undefined

type_synonym 'a sim = "sim_stop + 'a"

definition sim_bind :: "'a sim \<Rightarrow> ('a \<Rightarrow> 'b sim) \<Rightarrow> 'b sim" where
  "sim_bind x f = (case x of Inl e \<Rightarrow> Inl e | Inr y \<Rightarrow> f y)"

lemma sim_bind_simps [simp]: "sim_bind (Inl e) f = Inl e" "sim_bind (Inr y) f = f y"
  by (simp_all add: sim_bind_def)

lemma sim_bind_Inr: "sim_bind x f = Inr z \<longleftrightarrow> (\<exists>y. x = Inr y \<and> f y = Inr z)"
  by (cases x) auto

datatype sim_core_signals = sim_core_unmapped_signal | sim_core_unaligned_signal

fun sim_core_signal :: "sim_core_signals \<Rightarrow> sim_stop" where
  "sim_core_signal sim_core_unmapped_signal = Stopped SIM_SIGSEGV"
| "sim_core_signal sim_core_unaligned_signal = Stopped SIM_SIGBUS"

subsection \<open>State\<close>

type_synonym address_word = "32 word"

text \<open>A buffer is named by a number; \<open>owns\<close> says that the mapping frees it.\<close>

record sim_core_mapping =
  level :: int
  space :: int
  base :: address_word
  bound :: address_word
  nr_bytes :: address_word
  modmask :: uint32
  buffer :: "nat option"
  owns :: bool
  device :: "nat option"

record sim_buffer =
  blen :: nat
  content :: "nat \<Rightarrow> uint8"

record sim_core =
  maps :: "nat \<Rightarrow> sim_core_mapping list"
  buffers :: "nat \<Rightarrow> sim_buffer option"
  next_buffer :: nat
  big_endian :: bool

definition read_map :: nat where "read_map = 0"
definition write_map :: nat where "write_map = 1"
definition exec_map :: nat where "exec_map = 2"
definition nr_maps :: nat where "nr_maps = 32"

definition access_read_write_exec :: uint32 where
  "access_read_write_exec = 7"

subsection \<open>Attaching and detaching regions\<close>

definition new_sim_core_mapping :: "int \<Rightarrow> int \<Rightarrow> address_word \<Rightarrow> address_word \<Rightarrow> uint32 \<Rightarrow> nat option \<Rightarrow>
    nat option \<Rightarrow> bool \<Rightarrow> sim_core_mapping" where
  "new_sim_core_mapping lev spc addr nr modsz client buf free_buf =
     \<lparr>level = lev, space = spc, base = addr, bound = addr + (nr - 1), nr_bytes = nr,
      modmask = modsz - 1, buffer = buf, owns = free_buf, device = client\<rparr>"

fun insert_mapping :: "sim_core_mapping \<Rightarrow> sim_core_mapping list \<Rightarrow> sim_core_mapping list sim" where
  "insert_mapping new [] = Inr [new]"
| "insert_mapping new (x # xs) =
     (if level x < level new \<or> (level x = level new \<and> bound x < base new)
      then map_sum id (Cons x) (insert_mapping new xs)
      else if level x = level new \<and> base x < base new + (nr_bytes new - 1) then Inl Io_error
      else Inr (new # x # xs))"

definition sim_core_map_attach :: "sim_core_mapping list \<Rightarrow> int \<Rightarrow> int \<Rightarrow> address_word \<Rightarrow> address_word \<Rightarrow>
    uint32 \<Rightarrow> nat option \<Rightarrow> nat option \<Rightarrow> bool \<Rightarrow> sim_core_mapping list sim" where
  "sim_core_map_attach access_map lev spc addr nr modsz client buf free_buf =
     (if (client = None) = (buf = None) \<or> (client \<noteq> None \<and> free_buf) then Inl Io_error
      else if nr = 0 then Inl Io_error
      else insert_mapping (new_sim_core_mapping lev spc addr nr modsz client buf free_buf) access_map)"

text \<open>The loop over the bits of \<open>modulo - 1\<close>.\<close>

function modulo_loop :: "uint32 \<Rightarrow> uint32" where
  "modulo_loop m = (if 8 \<le> m then modulo_loop (if m AND 1 = 0 then 0 else drop_bit 1 m) else m)"
  by pat_completeness auto
termination
proof (relation "measure unat", goal_cases)
  case (2 m)
  then have "8 \<le> unat m" by (simp add: word_le_nat_alt)
  moreover have "unat (drop_bit 1 m) = unat m div 2"
    by (simp add: drop_bit_eq_div unat_div)
  ultimately show ?case by simp
qed simp

declare modulo_loop.simps [simp del]

text \<open>The loop over the maps; only the first mapping owns the buffer.\<close>

fun attach_loop :: "uint32 \<Rightarrow> int \<Rightarrow> int \<Rightarrow> address_word \<Rightarrow> address_word \<Rightarrow> uint32 \<Rightarrow> nat option \<Rightarrow>
    nat option \<Rightarrow> bool \<Rightarrow> nat list \<Rightarrow> (nat \<Rightarrow> sim_core_mapping list) \<Rightarrow> (nat \<Rightarrow> sim_core_mapping list) sim" where
  "attach_loop mapmask lev spc addr nr modsz client buf free_buf [] ms = Inr ms"
| "attach_loop mapmask lev spc addr nr modsz client buf free_buf (i # is) ms =
     (if mapmask AND push_bit i 1 \<noteq> 0
      then sim_bind (sim_core_map_attach (ms i) lev spc addr nr modsz client buf free_buf)
             (\<lambda>l. attach_loop mapmask lev spc addr nr modsz client buf False is (ms(i := l)))
      else attach_loop mapmask lev spc addr nr modsz client buf free_buf is ms)"

text \<open>
  The optional buffer is one the caller owns. A new buffer holds \<open>nr_bytes\<close> or \<open>modulo\<close> zero bytes; its
  padding, which only aligns the pointer, is not part of it.
\<close>

definition sim_core_attach :: "sim_core \<Rightarrow> bool \<Rightarrow> int \<Rightarrow> uint32 \<Rightarrow> int \<Rightarrow> address_word \<Rightarrow> address_word \<Rightarrow>
    uint32 \<Rightarrow> nat option \<Rightarrow> nat option \<Rightarrow> sim_core sim" where
  "sim_core_attach core cpu lev mapmask spc addr nr modsz client optional_buffer =
     (if cpu then Inl Io_error
      else if client \<noteq> None \<and> modsz \<noteq> 0 then Inl Io_error
      else if modsz \<noteq> 0 \<and> modulo_loop (modsz - 1) \<noteq> 7 then Inl Io_error
      else if client \<noteq> None \<and> optional_buffer \<noteq> None then Inl Io_error
      else
        let fresh = (client = None \<and> optional_buffer = None);
            buf = (if fresh then Some (next_buffer core) else optional_buffer);
            core1 = (if fresh
                     then core\<lparr>buffers := (buffers core)(next_buffer core \<mapsto>
                                 \<lparr>blen = unat (if modsz = 0 then nr else modsz), content = (\<lambda>_. 0)\<rparr>),
                               next_buffer := next_buffer core + 1\<rparr>
                     else core)
        in map_sum id (\<lambda>ms. core1\<lparr>maps := ms\<rparr>)
             (attach_loop mapmask lev spc addr nr modsz client buf fresh [0..<nr_maps] (maps core)))"

definition is_region :: "int \<Rightarrow> int \<Rightarrow> address_word \<Rightarrow> sim_core_mapping \<Rightarrow> bool" where
  "is_region lev spc addr e \<longleftrightarrow> base e = addr \<and> level e = lev \<and> space e = spc"

fun sim_core_map_detach :: "int \<Rightarrow> int \<Rightarrow> address_word \<Rightarrow> sim_core_mapping list \<Rightarrow>
    (nat \<Rightarrow> sim_buffer option) \<Rightarrow> sim_core_mapping list \<times> (nat \<Rightarrow> sim_buffer option)" where
  "sim_core_map_detach lev spc addr [] bufs = ([], bufs)"
| "sim_core_map_detach lev spc addr (e # es) bufs =
     (if is_region lev spc addr e
      then (es, case buffer e of Some b \<Rightarrow> if owns e then bufs(b := None) else bufs | None \<Rightarrow> bufs)
      else let (es', bufs') = sim_core_map_detach lev spc addr es bufs in (e # es', bufs'))"

fun detach_loop :: "int \<Rightarrow> int \<Rightarrow> address_word \<Rightarrow> nat list \<Rightarrow> sim_core \<Rightarrow> sim_core" where
  "detach_loop lev spc addr [] core = core"
| "detach_loop lev spc addr (i # is) core =
     (let (l, bufs) = sim_core_map_detach lev spc addr (maps core i) (buffers core)
      in detach_loop lev spc addr is (core\<lparr>maps := (maps core)(i := l), buffers := bufs\<rparr>))"

definition sim_core_detach :: "sim_core \<Rightarrow> int \<Rightarrow> int \<Rightarrow> address_word \<Rightarrow> sim_core" where
  "sim_core_detach core lev spc addr = detach_loop lev spc addr [0..<nr_maps] core"

definition sim_core_uninstall :: "sim_core \<Rightarrow> sim_core" where
  "sim_core_uninstall core =
     core\<lparr>maps := (\<lambda>i. if i < nr_maps then [] else maps core i),
          buffers := (\<lambda>b. if \<exists>i \<in> {..<nr_maps}. \<exists>e \<in> set (maps core i). owns e \<and> buffer e = Some b
                          then None else buffers core b)\<rparr>"

subsection \<open>Accesses\<close>

definition in_mapping :: "address_word \<Rightarrow> nat \<Rightarrow> sim_core_mapping \<Rightarrow> bool" where
  "in_mapping addr n m \<longleftrightarrow> base m \<le> addr \<and> addr + (of_nat n - 1) \<le> bound m"

definition sim_core_find_mapping :: "sim_core \<Rightarrow> nat \<Rightarrow> address_word \<Rightarrow> nat \<Rightarrow> bool \<Rightarrow>
    sim_core_mapping option sim" where
  "sim_core_find_mapping core mp addr n abort =
     (if addr AND (of_nat n - 1) \<noteq> 0 then Inl Io_error
      else if addr + (of_nat n - 1) < addr then Inl Io_error
      else case find (in_mapping addr n) (maps core mp) of
          Some m \<Rightarrow> Inr (Some m)
        | None \<Rightarrow> if abort then Inl (sim_core_signal sim_core_unmapped_signal) else Inr None)"

definition sim_core_translate :: "sim_core_mapping \<Rightarrow> address_word \<Rightarrow> nat" where
  "sim_core_translate m addr = unat ((addr - base m) AND modmask m)"

text \<open>What dereferencing the translated pointer does.\<close>

definition get_bytes :: "sim_core \<Rightarrow> sim_core_mapping \<Rightarrow> nat \<Rightarrow> nat \<Rightarrow> uint8 list sim" where
  "get_bytes core m off n =
     (case Option.bind (buffer m) (buffers core) of
        None \<Rightarrow> Inl C_undefined
      | Some b \<Rightarrow> if off + n \<le> blen b then Inr (map (content b) [off..<off + n]) else Inl C_undefined)"

definition put_bytes :: "sim_core \<Rightarrow> sim_core_mapping \<Rightarrow> nat \<Rightarrow> uint8 list \<Rightarrow> sim_core sim" where
  "put_bytes core m off bs =
     (case buffer m of
        None \<Rightarrow> Inl C_undefined
      | Some k \<Rightarrow>
          (case buffers core k of
             None \<Rightarrow> Inl C_undefined
           | Some b \<Rightarrow>
               if off + length bs \<le> blen b
               then Inr (core\<lparr>buffers := (buffers core)(k \<mapsto>
                      b\<lparr>content := (\<lambda>i. if off \<le> i \<and> i < off + length bs then bs ! (i - off) else content b i)\<rparr>)\<rparr>)
               else Inl C_undefined))"

fun sim_core_read_buffer :: "sim_core \<Rightarrow> nat \<Rightarrow> address_word \<Rightarrow> nat \<Rightarrow> uint8 list sim" where
  "sim_core_read_buffer core mp addr 0 = Inr []"
| "sim_core_read_buffer core mp addr (Suc len) =
     sim_bind (sim_core_find_mapping core mp addr 1 False) (\<lambda>m.
       case m of
         None \<Rightarrow> Inr []
       | Some m \<Rightarrow>
           sim_bind (get_bytes core m (sim_core_translate m addr) 1) (\<lambda>b.
             map_sum id (append b) (sim_core_read_buffer core mp (addr + 1) len)))"

text \<open>The result of a write is the new memory and the number of bytes written.\<close>

fun sim_core_write_buffer :: "sim_core \<Rightarrow> nat \<Rightarrow> uint8 list \<Rightarrow> address_word \<Rightarrow> (sim_core \<times> nat) sim" where
  "sim_core_write_buffer core mp [] addr = Inr (core, 0)"
| "sim_core_write_buffer core mp (b # bs) addr =
     sim_bind (sim_core_find_mapping core mp addr 1 False) (\<lambda>m.
       case m of
         None \<Rightarrow> Inr (core, 0)
       | Some m \<Rightarrow>
           sim_bind (put_bytes core m (sim_core_translate m addr) [b]) (\<lambda>core1.
             map_sum id (map_prod id Suc) (sim_core_write_buffer core1 mp bs (addr + 1))))"

definition sim_core_trans_addr :: "sim_core \<Rightarrow> nat \<Rightarrow> address_word \<Rightarrow> (nat option \<times> nat) option sim" where
  "sim_core_trans_addr core mp addr =
     map_sum id (map_option (\<lambda>m. (buffer m, sim_core_translate m addr)))
       (sim_core_find_mapping core mp addr 1 False)"

text \<open>Target byte order.\<close>

fun le_value :: "uint8 list \<Rightarrow> nat" where
  "le_value [] = 0"
| "le_value (b # bs) = unat b + 256 * le_value bs"

fun le_bytes :: "nat \<Rightarrow> nat \<Rightarrow> uint8 list" where
  "le_bytes 0 v = []"
| "le_bytes (Suc n) v = of_nat v # le_bytes n (v div 256)"

definition target_to_host :: "bool \<Rightarrow> uint8 list \<Rightarrow> nat" where
  "target_to_host big bs = le_value (if big then rev bs else bs)"

definition host_to_target :: "bool \<Rightarrow> nat \<Rightarrow> nat \<Rightarrow> uint8 list" where
  "host_to_target big n v = (if big then rev (le_bytes n v) else le_bytes n v)"

definition sim_core_read_aligned :: "sim_core \<Rightarrow> nat \<Rightarrow> nat \<Rightarrow> address_word \<Rightarrow> nat sim" where
  "sim_core_read_aligned core mp n addr =
     sim_bind (sim_core_find_mapping core mp addr n True) (\<lambda>m.
       map_sum id (target_to_host (big_endian core))
         (get_bytes core (the m) (sim_core_translate (the m) addr) n))"

definition sim_core_write_aligned :: "sim_core \<Rightarrow> nat \<Rightarrow> nat \<Rightarrow> address_word \<Rightarrow> nat \<Rightarrow> sim_core sim" where
  "sim_core_write_aligned core mp n addr v =
     sim_bind (sim_core_find_mapping core mp addr n True) (\<lambda>m.
       put_bytes core (the m) (sim_core_translate (the m) addr) (host_to_target (big_endian core) n v))"

text \<open>The strict alignment the simulators select: an unaligned access is a bus error.\<close>

definition sim_core_read_unaligned :: "sim_core \<Rightarrow> nat \<Rightarrow> nat \<Rightarrow> address_word \<Rightarrow> nat sim" where
  "sim_core_read_unaligned core mp n addr =
     (if addr AND (of_nat n - 1) = 0 then sim_core_read_aligned core mp n addr
      else Inl (sim_core_signal sim_core_unaligned_signal))"

definition sim_core_write_unaligned :: "sim_core \<Rightarrow> nat \<Rightarrow> nat \<Rightarrow> address_word \<Rightarrow> nat \<Rightarrow> sim_core sim" where
  "sim_core_write_unaligned core mp n addr v =
     (if addr AND (of_nat n - 1) = 0 then sim_core_write_aligned core mp n addr v
      else Inl (sim_core_signal sim_core_unaligned_signal))"

subsection \<open>The order of the regions\<close>

text \<open>
  Regions are sorted by level, and within a level a region starts no earlier than the one before ends;
  no region wraps around the address space.
\<close>

definition follows :: "sim_core_mapping \<Rightarrow> sim_core_mapping \<Rightarrow> bool" where
  "follows x y \<longleftrightarrow> level x < level y \<or> (level x = level y \<and> bound x \<le> base y)"

definition map_ok :: "sim_core_mapping list \<Rightarrow> bool" where
  "map_ok ms \<longleftrightarrow> sorted_wrt follows ms \<and> (\<forall>m \<in> set ms. base m \<le> bound m)"

lemma insert_mapping_split:
  "insert_mapping new ms = Inr ms' \<Longrightarrow>
   \<exists>xs ys. ms = xs @ ys \<and> ms' = xs @ new # ys \<and>
     (\<forall>x \<in> set xs. level x < level new \<or> (level x = level new \<and> bound x < base new)) \<and>
     (case ys of [] \<Rightarrow> True | y # _ \<Rightarrow> level new \<le> level y \<and>
        (level y = level new \<longrightarrow> base new \<le> bound y \<and> base new + (nr_bytes new - 1) \<le> base y))"
proof (induction ms arbitrary: ms')
  case (Cons x ms)
  show ?case
  proof (cases "level x < level new \<or> (level x = level new \<and> bound x < base new)")
    case True
    then obtain ms1 where ms1: "insert_mapping new ms = Inr ms1" "ms' = x # ms1"
      using Cons.prems by (cases "insert_mapping new ms") auto
    obtain xs ys where "ms = xs @ ys" "ms1 = xs @ new # ys"
      "\<forall>x \<in> set xs. level x < level new \<or> (level x = level new \<and> bound x < base new)"
      "case ys of [] \<Rightarrow> True | y # _ \<Rightarrow> level new \<le> level y \<and>
        (level y = level new \<longrightarrow> base new \<le> bound y \<and> base new + (nr_bytes new - 1) \<le> base y)"
      using Cons.IH [OF ms1(1)] by blast
    then show ?thesis
      using True ms1(2) by (intro exI [of _ "x # xs"] exI [of _ ys]) auto
  next
    case False
    then show ?thesis
      using Cons.prems by (intro exI [of _ "[]"] exI [of _ "x # ms"]) (auto split: if_splits)
  qed
qed simp

lemma insert_mapping_ok:
  assumes "insert_mapping new ms = Inr ms'" "map_ok ms" "base new \<le> bound new"
    "bound new = base new + (nr_bytes new - 1)"
  shows "map_ok ms'"
proof -
  obtain xs ys where s: "ms = xs @ ys" "ms' = xs @ new # ys"
    "\<forall>x \<in> set xs. level x < level new \<or> (level x = level new \<and> bound x < base new)"
    "case ys of [] \<Rightarrow> True | y # _ \<Rightarrow> level new \<le> level y \<and>
        (level y = level new \<longrightarrow> base new \<le> bound y \<and> base new + (nr_bytes new - 1) \<le> base y)"
    using insert_mapping_split [OF assms(1)] by blast
  have "follows new y" if "y \<in> set ys" for y
  proof -
    obtain z zs where z: "ys = z # zs" using \<open>y \<in> set ys\<close> by (cases ys) auto
    have "follows new z" using s(4) z assms(4) by (auto simp: follows_def)
    moreover have "y = z \<or> follows z y" "base z \<le> bound z"
      using that z assms(2) s(1) by (auto simp: map_ok_def sorted_wrt_append)
    ultimately show ?thesis by (auto simp: follows_def)
  qed
  then show ?thesis
    using assms(2,3) s(1-3) by (auto simp: map_ok_def sorted_wrt_append follows_def less_imp_le)
qed

text \<open>What a lookup finds after an insertion.\<close>

lemma find_append: "find P (xs @ ys) = (case find P xs of None \<Rightarrow> find P ys | Some x \<Rightarrow> Some x)"
  by (induction xs) auto

lemma find_none: "(\<And>x. x \<in> set xs \<Longrightarrow> \<not> P x) \<Longrightarrow> find P xs = None"
  by (simp add: find_None_iff)

lemma in_mapping_bounds:
  "in_mapping addr n m \<Longrightarrow> addr \<le> addr + (of_nat n - 1) \<Longrightarrow> base m \<le> addr \<and> addr \<le> bound m"
  by (auto simp: in_mapping_def)

lemma insert_mapping_lookup:
  assumes "insert_mapping new ms = Inr ms'" "map_ok ms" "addr \<le> addr + (of_nat n - 1)"
  shows "find (in_mapping addr n) ms' =
    (if in_mapping addr n new \<and> (\<forall>x \<in> set ms. level x < level new \<longrightarrow> \<not> in_mapping addr n x)
     then Some new else find (in_mapping addr n) ms)"
proof -
  obtain xs ys where s: "ms = xs @ ys" "ms' = xs @ new # ys"
    "\<forall>x \<in> set xs. level x < level new \<or> (level x = level new \<and> bound x < base new)"
    "case ys of [] \<Rightarrow> True | y # _ \<Rightarrow> level new \<le> level y \<and>
        (level y = level new \<longrightarrow> base new \<le> bound y \<and> base new + (nr_bytes new - 1) \<le> base y)"
    using insert_mapping_split [OF assms(1)] by blast
  show ?thesis
  proof (cases "in_mapping addr n new")
    case hit: True
    have lower: "level x < level new" if "x \<in> set xs" "in_mapping addr n x" for x
      using that hit s(3) in_mapping_bounds [OF _ assms(3)] by (meson leD less_le_trans order_trans)
    show ?thesis
    proof (cases "\<exists>x \<in> set ms. level x < level new \<and> in_mapping addr n x")
      case True
      then obtain x where x: "x \<in> set ms" "level x < level new" "in_mapping addr n x" by blast
      have "x \<notin> set ys"
      proof
        assume y: "x \<in> set ys"
        then obtain z zs where z: "ys = z # zs" by (cases ys) auto
        then have "level z \<le> level x"
          using y assms(2) s(1) by (auto simp: map_ok_def sorted_wrt_append follows_def)
        then show False using z s(4) x(2) by simp
      qed
      then have "find (in_mapping addr n) xs \<noteq> None" using x s(1) by (auto simp: find_None_iff)
      then show ?thesis using True s(1,2) by (auto simp: find_append)
    next
      case False
      then have "find (in_mapping addr n) xs = None"
        using lower s(1) by (intro find_none) auto
      then show ?thesis using False hit s(2) by (auto simp: find_append)
    qed
  next
    case False
    then show ?thesis using s(1,2) by (auto simp: find_append split: option.splits)
  qed
qed

subsection \<open>Target byte order\<close>

lemma length_le_bytes [simp]: "length (le_bytes n v) = n"
  by (induction n arbitrary: v) auto

lemma le_value_bytes: "le_value (le_bytes n v) = v mod 256 ^ n"
proof (induction n arbitrary: v)
  case (Suc n)
  have "v mod 256 + 256 * (v div 256 mod 256 ^ n) = v mod (256 * 256 ^ n)"
    by (metis mod_mult2_eq add.commute)
  then show ?case using Suc by (simp add: unat_of_nat)
qed simp

lemma le_value_less: "le_value bs < 256 ^ length bs"
proof (induction bs)
  case (Cons b bs)
  have "unat b + 256 * le_value bs < 256 * (le_value bs + 1)" using unat_byte [of b] by simp
  also have "\<dots> \<le> 256 * 256 ^ length bs" using Cons by (intro mult_left_mono) auto
  finally show ?case by simp
qed simp

lemma length_host_to_target [simp]: "length (host_to_target big n v) = n"
  by (simp add: host_to_target_def)

lemma target_round_trip: "target_to_host big (host_to_target big n v) = v mod 256 ^ n"
  by (simp add: target_to_host_def host_to_target_def le_value_bytes)

lemma target_to_host_less: "target_to_host big bs < 256 ^ length bs"
  using le_value_less [of "rev bs"] le_value_less [of bs] by (simp add: target_to_host_def)

subsection \<open>The interface of the processors to the memory\<close>

text \<open>
  \<open>ok m a n\<close>: an access of \<open>n\<close> bytes at \<open>a\<close> is possible through all maps. The laws: reads and writes
  there succeed, a read returns the last value written to the same place, whatever the maps, and a
  write changes nothing at disjoint places.
\<close>

locale memory =
  fixes ok :: "'m \<Rightarrow> address_word \<Rightarrow> nat \<Rightarrow> bool"
    and rd :: "'m \<Rightarrow> nat \<Rightarrow> nat \<Rightarrow> address_word \<Rightarrow> nat sim"
    and wr :: "'m \<Rightarrow> nat \<Rightarrow> nat \<Rightarrow> address_word \<Rightarrow> nat \<Rightarrow> 'm sim"
  assumes rd_ok: "ok m a n \<Longrightarrow> mp \<le> exec_map \<Longrightarrow> \<exists>v. rd m mp n a = Inr v \<and> v < 256 ^ n"
    and wr_ok: "ok m a n \<Longrightarrow> mp \<le> exec_map \<Longrightarrow> \<exists>m'. wr m mp n a v = Inr m'"
    and ok_wr: "ok m a n \<Longrightarrow> mp \<le> exec_map \<Longrightarrow> wr m mp n a v = Inr m' \<Longrightarrow> ok m' = ok m"
    and rd_wr_same: "ok m a n \<Longrightarrow> mp \<le> exec_map \<Longrightarrow> mp' \<le> exec_map \<Longrightarrow> wr m mp n a v = Inr m' \<Longrightarrow>
      rd m' mp' n a = Inr (v mod 256 ^ n)"
    and rd_wr_other: "ok m a n \<Longrightarrow> ok m b k \<Longrightarrow> mp \<le> exec_map \<Longrightarrow> mp' \<le> exec_map \<Longrightarrow>
      wr m mp n a v = Inr m' \<Longrightarrow> unat a + n \<le> unat b \<or> unat b + k \<le> unat a \<Longrightarrow>
      rd m' mp' k b = rd m mp' k b"
begin

text \<open>Two writes at disjoint places, read back in either order.\<close>

lemma two_writes:
  assumes "ok m a n" "ok m b k" "unat a + n \<le> unat b \<or> unat b + k \<le> unat a"
    and "mp \<le> exec_map" "mp' \<le> exec_map"
  shows "\<exists>m1 m2. wr m mp n a v = Inr m1 \<and> wr m1 mp k b w = Inr m2 \<and> ok m2 = ok m \<and>
    rd m2 mp' n a = Inr (v mod 256 ^ n) \<and> rd m2 mp' k b = Inr (w mod 256 ^ k)"
proof -
  obtain m1 where m1: "wr m mp n a v = Inr m1" using wr_ok [OF assms(1,4)] by blast
  have ok1: "ok m1 = ok m" by (rule ok_wr [OF assms(1,4) m1])
  obtain m2 where m2: "wr m1 mp k b w = Inr m2" using wr_ok [of m1 b k] assms(2,4) ok1 by auto
  have "rd m2 mp' n a = rd m1 mp' n a"
    by (rule rd_wr_other [OF _ _ assms(4,5) m2]) (use assms ok1 in auto)
  moreover have "rd m1 mp' n a = Inr (v mod 256 ^ n)" by (rule rd_wr_same [OF assms(1,4,5) m1])
  moreover have "rd m2 mp' k b = Inr (w mod 256 ^ k)"
    by (rule rd_wr_same [OF _ assms(4,5) m2]) (use assms ok1 in simp)
  ultimately show ?thesis using m1 m2 ok_wr [of m1 b k mp w m2] ok1 assms(2,4) by auto
qed

lemma rd_after_wr:
  assumes "ok m a n" "mp \<le> exec_map" "mp' \<le> exec_map"
  shows "sim_bind (wr m mp n a v) (\<lambda>m'. rd m' mp' n a) = Inr (v mod 256 ^ n)"
  using wr_ok [OF assms(1,2), of v] rd_wr_same [OF assms] by auto

end

subsection \<open>A flat RAM\<close>

text \<open>
  What the command \<^verbatim>\<open>memory-size\<close> establishes: one region from address 0, the same buffer in the three
  maps, no wrap.
\<close>

definition flat_region :: "nat \<Rightarrow> nat \<Rightarrow> bool \<Rightarrow> sim_core_mapping" where
  "flat_region sz b own = new_sim_core_mapping 0 0 0 (of_nat sz) 0 None (Some b) own"

definition ram :: "nat \<Rightarrow> sim_core \<Rightarrow> bool" where
  "ram sz core \<longleftrightarrow> 0 < sz \<and> sz < 2 ^ 32 \<and>
     (\<exists>b d. buffers core b = Some d \<and> blen d = sz \<and>
        (\<forall>mp \<le> exec_map. \<exists>own. maps core mp = [flat_region sz b own]))"

definition access_ok :: "sim_core \<Rightarrow> address_word \<Rightarrow> nat \<Rightarrow> bool" where
  "access_ok core a n \<longleftrightarrow> (\<exists>sz. ram sz core \<and> n \<in> {1, 2, 4, 8} \<and> unat a mod n = 0 \<and> unat a + n \<le> sz)"

lemma flat_region_fields [simp]:
  "base (flat_region sz b own) = 0" "buffer (flat_region sz b own) = Some b"
  "bound (flat_region sz b own) = of_nat sz - 1" "modmask (flat_region sz b own) = - 1"
  by (simp_all add: flat_region_def new_sim_core_mapping_def)

lemma aligned_and:
  assumes "n \<in> {1, 2, 4, 8}" "unat (a :: 32 word) mod n = 0"
  shows "a AND (of_nat n - 1) = 0"
proof -
  obtain k where n: "n = 2 ^ k" using assms(1) that [of 0] that [of 1] that [of 2] that [of 3] by auto
  have "a AND (of_nat n - 1) = take_bit k a"
    by (simp add: n take_bit_eq_mask mask_eq_exp_minus_1)
  also have "\<dots> = 0"
    using assms(2) n by (metis unsigned_take_bit_eq take_bit_eq_mod unsigned_eq_0_iff)
  finally show ?thesis .
qed

lemma access_facts:
  assumes "ram sz core" "n \<in> {1, 2, 4, 8}" "unat a mod n = 0" "mp \<le> exec_map"
  shows "sim_core_find_mapping core mp a n ab =
     (if unat a + n \<le> sz then Inr (Some (hd (maps core mp)))
      else if ab then Inl (Stopped SIM_SIGSEGV) else Inr None)"
proof -
  have sz: "0 < sz" "sz < 2 ^ 32" using assms(1) by (auto simp: ram_def)
  obtain b own where m: "maps core mp = [flat_region sz b own]"
    using assms(1,4) by (auto simp: ram_def)
  have n: "0 < n" "n < 2 ^ 32" using assms(2) by auto
  have dvd: "n dvd unat a" "n dvd 2 ^ 32"
    using assms(2,3) by (auto intro: dvdI [of _ _ "2 ^ 31"] dvdI [of _ _ "2 ^ 30"] dvdI [of _ _ "2 ^ 29"])
  have nowrap: "unat a + n \<le> 2 ^ 32"
  proof -
    obtain p q where p: "unat a = n * p" "(2::nat) ^ 32 = n * q" using dvd unfolding dvd_def by blast
    have "unat a < 2 ^ 32" using unat_bound [of a] by simp
    then have "n * p < n * q" using p by simp
    then have "p + 1 \<le> q" by simp
    then have "n * (p + 1) \<le> n * q" by (rule mult_le_mono2)
    then show ?thesis using p by simp
  qed
  have u1: "unat (of_nat n - 1 :: 32 word) = n - 1" "unat (of_nat sz - 1 :: 32 word) = sz - 1"
    using n sz by (simp_all add: unat_sub word_le_nat_alt unat_of_nat)
  have u2: "unat (a + (of_nat n - 1)) = unat a + (n - 1)"
    using nowrap n by (simp add: unat_word_ariths u1)
  have "in_mapping a n (flat_region sz b own) \<longleftrightarrow> unat a + n \<le> sz"
    using n sz by (auto simp: in_mapping_def word_le_nat_alt u1 u2)
  moreover have "\<not> a + (of_nat n - 1) < a" by (simp add: word_less_nat_alt u2)
  ultimately show ?thesis
    using aligned_and [OF assms(2,3)] m by (simp add: sim_core_find_mapping_def)
qed

text \<open>The bytes of a flat RAM, and what accesses do to them.\<close>

definition ram_data :: "sim_core \<Rightarrow> nat \<Rightarrow> uint8" where
  "ram_data core = content (the (buffers core (the (buffer (hd (maps core read_map))))))"

lemma ram_buffer:
  assumes "ram sz core" "mp \<le> exec_map"
  obtains b d own where "buffers core b = Some d" "blen d = sz" "maps core mp = [flat_region sz b own]"
    "ram_data core = content d"
proof -
  obtain b d where d: "buffers core b = Some d" "blen d = sz"
    "\<forall>mp \<le> exec_map. \<exists>own. maps core mp = [flat_region sz b own]"
    using assms(1) by (auto simp: ram_def)
  have "buffer (hd (maps core read_map)) = Some b"
    using d(3) by (auto simp: read_map_def exec_map_def)
  then show ?thesis using that [OF d(1,2)] d(1,3) assms(2) by (auto simp: ram_data_def)
qed

definition overwrite :: "(nat \<Rightarrow> uint8) \<Rightarrow> nat \<Rightarrow> uint8 list \<Rightarrow> nat \<Rightarrow> uint8" where
  "overwrite f off bs i = (if off \<le> i \<and> i < off + length bs then bs ! (i - off) else f i)"

lemma overwrite_same: "map (overwrite f off bs) [off..<off + length bs] = bs"
  by (rule nth_equalityI) (simp_all add: overwrite_def)

lemma overwrite_other:
  "off + length bs \<le> o' \<or> o' + k \<le> off \<Longrightarrow> map (overwrite f off bs) [o'..<o' + k] = map f [o'..<o' + k]"
  by (rule map_cong [OF refl]) (auto simp: overwrite_def)

lemma ram_get:
  assumes "ram sz core" "mp \<le> exec_map" "off + n \<le> sz"
  shows "get_bytes core (hd (maps core mp)) off n = Inr (map (ram_data core) [off..<off + n])"
  using assms(3) by (rule_tac ram_buffer [OF assms(1,2)]) (simp add: get_bytes_def)

lemma ram_put:
  assumes "ram sz core" "mp \<le> exec_map" "off + length bs \<le> sz"
  shows "\<exists>core'. put_bytes core (hd (maps core mp)) off bs = Inr core' \<and> ram sz core' \<and>
    ram_data core' = overwrite (ram_data core) off bs \<and> big_endian core' = big_endian core"
proof -
  obtain b d where d: "buffers core b = Some d" "blen d = sz"
    "\<forall>mp \<le> exec_map. \<exists>own. maps core mp = [flat_region sz b own]"
    using assms(1) by (auto simp: ram_def)
  let ?c = "core\<lparr>buffers := (buffers core)(b \<mapsto> d\<lparr>content := overwrite (content d) off bs\<rparr>)\<rparr>"
  have "buffer (hd (maps core mp)) = Some b" "buffer (hd (maps core read_map)) = Some b"
    using d(3) assms(2) by (auto simp: read_map_def exec_map_def)
  then have "put_bytes core (hd (maps core mp)) off bs = Inr ?c" "ram_data ?c = overwrite (content d) off bs"
    "ram_data core = content d"
    using d(1,2) assms(3) by (simp_all add: put_bytes_def ram_data_def overwrite_def [abs_def])
  moreover have "ram sz ?c" using assms(1) d unfolding ram_def by (intro conjI exI [of _ b]) auto
  ultimately show ?thesis by simp
qed

lemma ram_translate:
  "ram sz core \<Longrightarrow> mp \<le> exec_map \<Longrightarrow> sim_core_translate (hd (maps core mp)) a = unat a"
  by (auto simp: ram_def sim_core_translate_def)

lemma ram_read:
  assumes "ram sz core" "n \<in> {1, 2, 4, 8}" "unat a mod n = 0" "unat a + n \<le> sz" "mp \<le> exec_map"
  shows "sim_core_read_aligned core mp n a =
    Inr (target_to_host (big_endian core) (map (ram_data core) [unat a..<unat a + n]))"
  using access_facts [OF assms(1-3,5)] assms(4) ram_get [OF assms(1,5,4)]
  by (simp add: sim_core_read_aligned_def ram_translate [OF assms(1,5)])

lemma ram_write:
  assumes "ram sz core" "n \<in> {1, 2, 4, 8}" "unat a mod n = 0" "unat a + n \<le> sz" "mp \<le> exec_map"
  shows "\<exists>core'. sim_core_write_aligned core mp n a v = Inr core' \<and> ram sz core' \<and>
    ram_data core' = overwrite (ram_data core) (unat a) (host_to_target (big_endian core) n v) \<and>
    big_endian core' = big_endian core"
  using access_facts [OF assms(1-3,5)] assms(4)
    ram_put [OF assms(1,5), of "unat a" "host_to_target (big_endian core) n v"]
  by (simp add: sim_core_write_aligned_def ram_translate [OF assms(1,5)])

lemma ram_unmapped:
  assumes "ram sz core" "n \<in> {1, 2, 4, 8}" "unat a mod n = 0" "sz < unat a + n" "mp \<le> exec_map"
  shows "sim_core_read_aligned core mp n a = Inl (Stopped SIM_SIGSEGV)"
    and "sim_core_write_aligned core mp n a v = Inl (Stopped SIM_SIGSEGV)"
  using access_facts [OF assms(1-3,5)] assms(4)
  by (simp_all add: sim_core_read_aligned_def sim_core_write_aligned_def)

lemma ram_size_unique: "ram sz core \<Longrightarrow> ram sz' core \<Longrightarrow> sz = sz'"
  by (auto simp: ram_def)
    (metis ram_def ram_buffer flat_region_fields(2) le_refl list.inject option.inject)

lemma access_okE:
  assumes "access_ok core a n"
  obtains sz where "ram sz core" "n \<in> {1, 2, 4, 8}" "unat a mod n = 0" "unat a + n \<le> sz"
  using assms by (auto simp: access_ok_def)

lemma access_ok_ram: "ram sz core \<Longrightarrow>
    access_ok core a n \<longleftrightarrow> n \<in> {1, 2, 4, 8} \<and> unat a mod n = 0 \<and> unat a + n \<le> sz"
  using ram_size_unique by (auto simp: access_ok_def)

interpretation sim_memory: memory access_ok sim_core_read_aligned sim_core_write_aligned
proof
  fix m :: sim_core and a b n mp k mp' v m'
  assume ok: "access_ok m a n" and mp: "mp \<le> exec_map"
  obtain sz where r: "ram sz m" "n \<in> {1, 2, 4, 8}" "unat a mod n = 0" "unat a + n \<le> sz"
    using ok by (rule access_okE)
  show "\<exists>v. sim_core_read_aligned m mp n a = Inr v \<and> v < 256 ^ n"
    using ram_read [OF r mp] target_to_host_less [of "big_endian m" "map (ram_data m) [unat a..<unat a + n]"]
    by simp
  obtain m1 where m1: "sim_core_write_aligned m mp n a v = Inr m1" "ram sz m1"
    "ram_data m1 = overwrite (ram_data m) (unat a) (host_to_target (big_endian m) n v)"
    "big_endian m1 = big_endian m"
    using ram_write [OF r mp, of v] by blast
  show "\<exists>m'. sim_core_write_aligned m mp n a v = Inr m'" using m1(1) by blast
  assume w: "sim_core_write_aligned m mp n a v = Inr m'"
  then have m': "m' = m1" using m1(1) by simp
  show "access_ok m' = access_ok m"
    using access_ok_ram [OF r(1)] access_ok_ram [OF m1(2)] m' by (simp add: fun_eq_iff)
  show "sim_core_read_aligned m' mp' n a = Inr (v mod 256 ^ n)" if "mp' \<le> exec_map"
    using ram_read [OF m1(2) r(2-4) that] m1(3,4) m'
      overwrite_same [of "ram_data m" "unat a" "host_to_target (big_endian m) n v"]
    by (simp add: target_round_trip)
  show "sim_core_read_aligned m' mp' k b = sim_core_read_aligned m mp' k b"
    if "access_ok m b k" "mp' \<le> exec_map" "unat a + n \<le> unat b \<or> unat b + k \<le> unat a"
  proof -
    have k: "k \<in> {1, 2, 4, 8}" "unat b mod k = 0" "unat b + k \<le> sz"
      using that(1) access_ok_ram [OF r(1)] by auto
    show ?thesis
      using ram_read [OF r(1) k that(2)] ram_read [OF m1(2) k that(2)] m1(3,4) m'
        overwrite_other [of "unat a" "host_to_target (big_endian m) n v" "unat b" k "ram_data m"] that(3)
      by simp
  qed
qed

lemma attach_loop_other:
  "attach_loop mapmask lev spc addr nr modsz client buf fr is ms = Inr ms' \<Longrightarrow> j \<notin> set is \<Longrightarrow> ms' j = ms j"
proof (induction "is" arbitrary: ms fr)
  case (Cons i "is")
  show ?case
  proof (cases "mapmask AND push_bit i 1 = 0")
    case True
    then show ?thesis using Cons.prems Cons.IH [of fr ms] by simp
  next
    case False
    then obtain l where l: "attach_loop mapmask lev spc addr nr modsz client buf False is (ms(i := l)) = Inr ms'"
      using Cons.prems(1) by (auto simp: sim_bind_Inr)
    show ?thesis using Cons.IH [OF l] Cons.prems(2) by simp
  qed
qed simp

lemma attach_loop_maps:
  assumes "attach_loop mapmask lev spc addr nr modsz client buf fr is ms = Inr ms'" "distinct is" "j \<in> set is"
  shows "if mapmask AND push_bit j 1 \<noteq> 0
     then \<exists>own. sim_core_map_attach (ms j) lev spc addr nr modsz client buf own = Inr (ms' j)
     else ms' j = ms j"
  using assms
proof (induction "is" arbitrary: ms fr)
  case (Cons i "is")
  show ?case
  proof (cases "mapmask AND push_bit i 1 = 0")
    case True
    then show ?thesis
      using Cons.prems Cons.IH [of fr ms] attach_loop_other [of mapmask lev spc addr nr modsz client buf fr "is" ms ms' j]
      by (cases "j = i") auto
  next
    case False
    then obtain l where l: "sim_core_map_attach (ms i) lev spc addr nr modsz client buf fr = Inr l"
      "attach_loop mapmask lev spc addr nr modsz client buf False is (ms(i := l)) = Inr ms'"
      using Cons.prems(1) by (auto simp: sim_bind_Inr)
    show ?thesis
    proof (cases "j = i")
      case True
      then have "ms' j = l" using attach_loop_other [OF l(2)] Cons.prems(2) by simp
      then show ?thesis using True False l(1) by auto
    next
      case other: False
      then have "j \<in> set is" using Cons.prems(3) by simp
      then show ?thesis
        using Cons.IH [OF l(2), unfolded fun_upd_other [OF other]] Cons.prems(2) by simp
    qed
  qed
qed simp

lemma attach_loop_skip:
  "(\<And>i. i \<in> set is \<Longrightarrow> mapmask AND push_bit i 1 = 0) \<Longrightarrow>
   attach_loop mapmask lev spc addr nr modsz client buf fr is ms = Inr ms"
  by (induction "is") auto

lemma attach_ram:
  assumes "0 < sz" "sz < 2 ^ 32" "\<And>mp. mp \<le> exec_map \<Longrightarrow> maps core mp = []"
  shows "\<exists>core'. sim_core_attach core False 0 access_read_write_exec 0 0 (of_nat sz) 0 None None = Inr core' \<and>
    ram sz core' \<and> ram_data core' = (\<lambda>_. 0) \<and> big_endian core' = big_endian core"
proof -
  let ?b = "next_buffer core"
  let ?m = "flat_region sz ?b"
  have nz: "(of_nat sz :: 32 word) \<noteq> 0" and u: "unat (of_nat sz :: 32 word) = sz"
    using assms(1,2) by (simp_all add: unat_of_nat unsigned_eq_0_iff [symmetric] flip: unat_eq_zero)
  have skip: "(7 :: 32 word) AND push_bit i 1 = 0" if "i \<in> set [3..<32]" for i
  proof (rule bit_word_eqI)
    fix k
    have "bit (7 :: int) k \<longleftrightarrow> k < 3"
      using bit_mask_iff [of 3 k, where 'a = int] by (simp add: mask_eq_exp_minus_1)
    then show "bit ((7 :: 32 word) AND push_bit i 1) k = bit (0 :: 32 word) k"
      using that by (auto simp: bit_simps)
  qed
  have "[0..<nr_maps] = 0 # 1 # 2 # [3..<32]" by (simp add: nr_maps_def upt_conv_Cons)
  then have "attach_loop access_read_write_exec 0 0 0 (of_nat sz) 0 None (Some ?b) True [0..<nr_maps] (maps core) =
      Inr ((maps core)(0 := [?m True], 1 := [?m False], 2 := [?m False]))"
    using nz assms(3)
    by (simp add: access_read_write_exec_def sim_core_map_attach_def exec_map_def flat_region_def
        attach_loop_skip [OF skip])
  then show ?thesis
    using assms(1,2) u
    by (auto simp: sim_core_attach_def ram_def ram_data_def exec_map_def read_map_def le_Suc_eq numeral_2_eq_2)
qed

lemma ram_find_byte:
  assumes "ram sz core" "mp \<le> exec_map"
  shows "sim_core_find_mapping core mp a (Suc 0) False =
    Inr (if unat a < sz then Some (hd (maps core mp)) else None)"
  using access_facts [OF assms(1) _ _ assms(2), of 1 a False] by simp

lemma unat_next: "ram sz core \<Longrightarrow> unat (a :: 32 word) < sz \<Longrightarrow> unat (a + 1) = unat a + 1"
  by (auto simp: ram_def unat_word_ariths)

lemma ram_read_buffer:
  assumes "ram sz core" "mp \<le> exec_map"
  shows "sim_core_read_buffer core mp a len =
    Inr (map (ram_data core) [unat a..<unat a + min len (sz - unat a)])"
proof (induction len arbitrary: a)
  case (Suc len)
  show ?case
  proof (cases "unat a < sz")
    case True
    have "min (Suc len) (sz - unat a) = Suc (min len (sz - unat (a + 1)))"
      using True unat_next [OF assms(1) True] by simp
    then have "[unat a..<unat a + min (Suc len) (sz - unat a)] =
        unat a # [unat (a + 1)..<unat (a + 1) + min len (sz - unat (a + 1))]"
      using unat_next [OF assms(1) True] by (simp add: upt_conv_Cons del: upt_Suc)
    then show ?thesis
      using Suc [of "a + 1"] True ram_get [OF assms, of "unat a" 1]
      by (simp add: ram_find_byte [OF assms] ram_translate [OF assms])
  qed (simp add: ram_find_byte [OF assms])
qed simp

lemma ram_write_buffer:
  assumes "ram sz core" "mp \<le> exec_map"
  shows "\<exists>core'. sim_core_write_buffer core mp bs a = Inr (core', min (length bs) (sz - unat a)) \<and> ram sz core' \<and>
    ram_data core' = overwrite (ram_data core) (unat a) (take (sz - unat a) bs) \<and>
    big_endian core' = big_endian core"
  using assms(1)
proof (induction bs arbitrary: a core)
  case Nil
  then show ?case by (auto simp: overwrite_def fun_eq_iff)
next
  case (Cons b bs)
  show ?case
  proof (cases "unat a < sz")
    case True
    obtain c1 where c1: "put_bytes core (hd (maps core mp)) (unat a) [b] = Inr c1" "ram sz c1"
      "ram_data c1 = overwrite (ram_data core) (unat a) [b]" "big_endian c1 = big_endian core"
      using ram_put [OF Cons.prems assms(2), of "unat a" "[b]"] True by auto
    obtain c2 where c2: "sim_core_write_buffer c1 mp bs (a + 1) = Inr (c2, min (length bs) (sz - unat (a + 1)))"
      "ram sz c2" "ram_data c2 = overwrite (ram_data c1) (unat (a + 1)) (take (sz - unat (a + 1)) bs)"
      "big_endian c2 = big_endian c1"
      using Cons.IH [OF c1(2)] by blast
    have left: "sz - unat a = Suc (sz - unat (a + 1))" using True unat_next [OF Cons.prems True] by simp
    then have "take (sz - unat a) (b # bs) = b # take (sz - unat (a + 1)) bs" by simp
    then have "ram_data c2 = overwrite (ram_data core) (unat a) (take (sz - unat a) (b # bs))"
      using c2(3) c1(3) unat_next [OF Cons.prems True]
      by (auto simp: overwrite_def fun_eq_iff nth_Cons')
    then show ?thesis
      using c1(1,4) c2(1,2,4) True left
      by (simp add: ram_find_byte [OF Cons.prems assms(2)] ram_translate [OF Cons.prems assms(2)])
  next
    case False
    then show ?thesis using Cons.prems
      by (auto simp: ram_find_byte [OF Cons.prems assms(2)] overwrite_def fun_eq_iff)
  qed
qed

subsection \<open>Properties\<close>

text \<open>A memory with no region.\<close>

definition empty_core :: "bool \<Rightarrow> sim_core" where
  "empty_core big = \<lparr>maps = (\<lambda>_. []), buffers = (\<lambda>_. None), next_buffer = 0, big_endian = big\<rparr>"

text \<open>Attaching a region to the maps of a mask changes exactly these maps; each of them stays
  sorted, and a lookup in it finds the new region for the accesses inside it that no region of a
  lower level contains, and what it found before for all others.\<close>

theorem sim_core_attach_lookup:
  assumes "sim_core_attach core cpu lev mapmask spc addr nr modsz client optional_buffer = Inr core'"
    and "map_ok (maps core j)" and "addr \<le> addr + (nr - 1)" and "j < 32" and "a \<le> a + (of_nat n - 1)"
  shows "map_ok (maps core' j) \<and> (\<exists>new. level new = lev \<and> base new = addr \<and> bound new = addr + (nr - 1) \<and>
    find (in_mapping a n) (maps core' j) =
      (if mapmask AND push_bit j 1 \<noteq> 0 \<and> in_mapping a n new \<and>
          (\<forall>x \<in> set (maps core j). level x < lev \<longrightarrow> \<not> in_mapping a n x)
       then Some new else find (in_mapping a n) (maps core j)))"
proof -
  obtain buf fr where l: "attach_loop mapmask lev spc addr nr modsz client buf fr [0..<nr_maps] (maps core) =
      Inr (maps core')"
    using assms(1) by (auto simp: sim_core_attach_def Let_def split: if_splits sum.splits)
      (auto simp: map_sum_def split: sum.splits)
  have j: "j \<in> set [0..<nr_maps]" using assms(4) by (simp add: nr_maps_def)
  have step: "if mapmask AND push_bit j 1 \<noteq> 0
     then \<exists>own. sim_core_map_attach (maps core j) lev spc addr nr modsz client buf own = Inr (maps core' j)
     else maps core' j = maps core j"
    by (rule attach_loop_maps [OF l _ j]) simp
  show ?thesis
  proof (cases "mapmask AND push_bit j 1 = 0")
    case True
    then show ?thesis using step assms(2)
      by (auto intro!: exI [of _ "new_sim_core_mapping lev spc addr nr modsz client buf fr"]
          simp: new_sim_core_mapping_def)
  next
    case False
    then obtain own where "sim_core_map_attach (maps core j) lev spc addr nr modsz client buf own = Inr (maps core' j)"
      using step by auto
    then have ins: "insert_mapping (new_sim_core_mapping lev spc addr nr modsz client buf own) (maps core j) =
        Inr (maps core' j)"
      by (simp add: sim_core_map_attach_def split: if_splits)
    let ?new = "new_sim_core_mapping lev spc addr nr modsz client buf own"
    have f: "level ?new = lev" "base ?new = addr" "bound ?new = addr + (nr - 1)" "nr_bytes ?new = nr"
      by (simp_all add: new_sim_core_mapping_def)
    have "map_ok (maps core' j)" by (rule insert_mapping_ok [OF ins assms(2)]) (use assms(3) f in simp_all)
    moreover note insert_mapping_lookup [OF ins assms(2,5)]
    ultimately show ?thesis using False f by (intro conjI exI [of _ ?new]) simp_all
  qed
qed

theorem sim_core_attach_lookup_witness:
  "\<exists>core'. sim_core_attach (empty_core True) False 0 7 0 0x1000 0x100 0 None None = Inr core' \<and>
     (\<exists>new. base new = 0x1000 \<and> find (in_mapping 0x1004 4) (maps core' 1) = Some new)"
proof -
  have "\<exists>core'. sim_core_attach (empty_core True) False 0 7 0 0x1000 0x100 0 None None = Inr core'"
    by (simp add: sim_core_attach_def empty_core_def nr_maps_def upt_conv_Cons sim_core_map_attach_def Let_def)
  then obtain core' where c: "sim_core_attach (empty_core True) False 0 7 0 0x1000 0x100 0 None None = Inr core'"
    by blast
  then show ?thesis
    using sim_core_attach_lookup [OF c, of 1 "0x1004" 4]
    by (auto simp: map_ok_def empty_core_def in_mapping_def)
qed



text \<open>The buffer functions transfer the prefix that fits into the memory: writing reports its
  length, and reading the same range through another map returns these bytes.\<close>

theorem ram_buffer_round_trip:
  assumes "ram sz core" and "mp \<le> exec_map" and "mp' \<le> exec_map"
  shows "\<exists>core'. sim_core_write_buffer core mp bs a = Inr (core', min (length bs) (sz - unat a)) \<and>
    sim_core_read_buffer core' mp' a (length bs) = Inr (take (sz - unat a) bs)"
proof -
  obtain c where c: "sim_core_write_buffer core mp bs a = Inr (c, min (length bs) (sz - unat a))" "ram sz c"
    "ram_data c = overwrite (ram_data core) (unat a) (take (sz - unat a) bs)"
    using ram_write_buffer [OF assms(1,2)] by blast
  have "min (length bs) (sz - unat a) = length (take (sz - unat a) bs)" by simp
  then show ?thesis
    using c(1) ram_read_buffer [OF c(2) assms(3), of a "length bs"] c(3)
      overwrite_same [of "ram_data core" "unat a" "take (sz - unat a) bs"]
    by (metis)
qed

theorem ram_buffer_round_trip_witness:
  "\<exists>core core' n. ram 16 core \<and> sim_core_write_buffer core write_map [1, 2, 3] 14 = Inr (core', n) \<and> n = 2 \<and>
    sim_core_read_buffer core' read_map 14 3 = Inr [1, 2]"
proof -
  obtain c where c: "ram 16 c"
    using attach_ram [of 16 "empty_core True"] by (auto simp: empty_core_def)
  have l: "length [1, 2, 3 :: uint8] = 3" "16 - unat (14 :: 32 word) = 2" "take 2 [1, 2, 3 :: uint8] = [1, 2]"
    "min 3 (2 :: nat) = 2" by simp_all
  obtain c' where "sim_core_write_buffer c write_map [1, 2, 3] 14 = Inr (c', 2)"
    "sim_core_read_buffer c' read_map 14 3 = Inr [1, 2]"
    using ram_buffer_round_trip [OF c, where mp = write_map and mp' = read_map and bs = "[1, 2, 3]" and a = 14,
        unfolded l]
    by (auto simp: write_map_def read_map_def exec_map_def
        simp del: sim_core_write_buffer.simps sim_core_read_buffer.simps)
  then show ?thesis using c by blast
qed

text \<open>
  The check for overlaps compares the start of the next region with the last byte of the new one by
  \<open><\<close>: a region that shares exactly this byte is accepted, and the byte belongs to both.
\<close>

lemma attach_shares_one_byte:
  "\<exists>c. sim_bind (sim_core_attach (empty_core True) False 0 1 0 0x10 0x10 0 None None)
     (\<lambda>c. sim_core_attach c False 0 1 0 0 0x11 0 None None) = Inr c \<and>
     map (\<lambda>m. (base m, bound m)) (maps c read_map) = [(0, 0x10), (0x10, 0x1f)]"
  by (simp add: sim_core_attach_def empty_core_def nr_maps_def upt_conv_Cons sim_core_map_attach_def
      read_map_def new_sim_core_mapping_def Let_def)

end
