(* ===== verification/Synacor.thy ===== *)
theory Synacor
  imports Sim_Core
begin

text \<open>
  The Synacor processor (\<^verbatim>\<open>gdb-15.1/sim/example-synacor/sim-main.c\<close>): eight 16-bit registers, a stack
  outside the address space of the programs, and one instruction per step. The processor is proved
  against the interface \<open>memory\<close>, interpreted on the simulator memory.
\<close>

subsection \<open>State\<close>

text \<open>The terminal is a list of characters still to be read and a list of those written.\<close>

record synacor =
  regs :: "uint16 list"
  pc :: address_word
  sp :: uint32
  core :: sim_core
  stdin :: "uint8 list"
  stdout :: "uint8 list"

definition initialize_cpu :: "synacor \<Rightarrow> synacor" where
  "initialize_cpu cpu = cpu\<lparr>regs := replicate 8 0, pc := 0, sp := 0x80000\<rparr>"

subsection \<open>Operands\<close>

definition register_num :: "uint16 \<Rightarrow> uint16 sim" where
  "register_num num =
     (if num < 0x8000 \<or> 0x8008 \<le> num then Inl (Signalled SIM_SIGILL) else Inr (num AND 0xf))"

definition interp_num :: "synacor \<Rightarrow> uint16 \<Rightarrow> uint16 sim" where
  "interp_num cpu num =
     (if num < 0x8000 then Inr num
      else if num < 0x8008 then Inr (regs cpu ! unat (num AND 0xf))
      else Inl (Signalled SIM_SIGILL))"

definition read2 :: "synacor \<Rightarrow> nat \<Rightarrow> address_word \<Rightarrow> uint16 sim" where
  "read2 cpu mp a = map_sum id of_nat (sim_core_read_aligned (core cpu) mp 2 a)"

definition write2 :: "synacor \<Rightarrow> address_word \<Rightarrow> nat \<Rightarrow> synacor sim" where
  "write2 cpu a v = map_sum id (\<lambda>c. cpu\<lparr>core := c\<rparr>) (sim_core_write_aligned (core cpu) write_map 2 a v)"

definition set_reg :: "synacor \<Rightarrow> uint16 \<Rightarrow> uint16 \<Rightarrow> synacor" where
  "set_reg cpu r v = cpu\<lparr>regs := (regs cpu)[unat r := v]\<rparr>"

text \<open>The operand at an offset, as the number of a register and as a value.\<close>

definition reg_operand :: "synacor \<Rightarrow> address_word \<Rightarrow> (uint16 \<Rightarrow> 'a sim) \<Rightarrow> 'a sim" where
  "reg_operand cpu off k = sim_bind (read2 cpu exec_map (pc cpu + off)) (\<lambda>iw. sim_bind (register_num iw) k)"

definition num_operand :: "synacor \<Rightarrow> address_word \<Rightarrow> (uint16 \<Rightarrow> 'a sim) \<Rightarrow> 'a sim" where
  "num_operand cpu off k = sim_bind (read2 cpu exec_map (pc cpu + off)) (\<lambda>iw. sim_bind (interp_num cpu iw) k)"

subsection \<open>Instructions\<close>

definition next_pc :: "address_word \<Rightarrow> synacor \<Rightarrow> synacor" where
  "next_pc n cpu = cpu\<lparr>pc := pc cpu + n\<rparr>"

text \<open>The instructions with a destination register and two values.\<close>

definition alu3 :: "synacor \<Rightarrow> (uint16 \<Rightarrow> uint16 \<Rightarrow> uint16 sim) \<Rightarrow> synacor sim" where
  "alu3 cpu f =
     reg_operand cpu 2 (\<lambda>num2. num_operand cpu 4 (\<lambda>num3. num_operand cpu 6 (\<lambda>num4.
       map_sum id (\<lambda>result. next_pc 8 (set_reg cpu num2 result)) (f num3 num4))))"

text \<open>\<open>int\<close> arithmetic on promoted \<^verbatim>\<open>uint16_t\<close> operands: the product can exceed 31 bits.\<close>

definition syn_add :: "uint16 \<Rightarrow> uint16 \<Rightarrow> uint16 sim" where
  "syn_add x y = Inr (of_nat ((unat x + unat y) mod 32768))"

definition syn_mult :: "uint16 \<Rightarrow> uint16 \<Rightarrow> uint16 sim" where
  "syn_mult x y = (if 2 ^ 31 \<le> unat x * unat y then Inl C_undefined
     else Inr (of_nat (unat x * unat y mod 32768)))"

definition syn_mod :: "uint16 \<Rightarrow> uint16 \<Rightarrow> uint16 sim" where
  "syn_mod x y = (if y = 0 then Inl C_undefined else Inr (x mod y))"

definition op_set :: "synacor \<Rightarrow> synacor sim" where
  "op_set cpu = reg_operand cpu 2 (\<lambda>num2. num_operand cpu 4 (\<lambda>num3. Inr (next_pc 6 (set_reg cpu num2 num3))))"

definition op_push :: "synacor \<Rightarrow> synacor sim" where
  "op_push cpu =
     num_operand cpu 2 (\<lambda>num2.
       map_sum id (\<lambda>cpu1. next_pc 4 (cpu1\<lparr>sp := sp cpu1 - 2\<rparr>)) (write2 cpu (sp cpu) (unat num2)))"

definition op_pop :: "synacor \<Rightarrow> synacor sim" where
  "op_pop cpu =
     reg_operand cpu 2 (\<lambda>num2.
       let cpu1 = cpu\<lparr>sp := sp cpu + 2\<rparr>
       in map_sum id (\<lambda>result. next_pc 4 (set_reg cpu1 num2 result)) (read2 cpu1 read_map (sp cpu1)))"

definition op_jmp :: "synacor \<Rightarrow> synacor sim" where
  "op_jmp cpu = num_operand cpu 2 (\<lambda>num2. Inr (cpu\<lparr>pc := ucast (push_bit 1 num2)\<rparr>))"

definition op_branch :: "synacor \<Rightarrow> (uint16 \<Rightarrow> bool) \<Rightarrow> synacor sim" where
  "op_branch cpu taken =
     num_operand cpu 2 (\<lambda>num2. num_operand cpu 4 (\<lambda>num3.
       Inr (if taken num2 then cpu\<lparr>pc := ucast (push_bit 1 num3)\<rparr> else next_pc 6 cpu)))"

definition op_not :: "synacor \<Rightarrow> synacor sim" where
  "op_not cpu = reg_operand cpu 2 (\<lambda>num2. num_operand cpu 4 (\<lambda>num3.
     Inr (next_pc 6 (set_reg cpu num2 (NOT num3 AND 0x7fff)))))"

definition op_rmem :: "synacor \<Rightarrow> synacor sim" where
  "op_rmem cpu = reg_operand cpu 2 (\<lambda>num2. num_operand cpu 4 (\<lambda>num3.
     map_sum id (\<lambda>result. next_pc 6 (set_reg cpu num2 result)) (read2 cpu read_map (ucast (push_bit 1 num3)))))"

definition op_wmem :: "synacor \<Rightarrow> synacor sim" where
  "op_wmem cpu = num_operand cpu 2 (\<lambda>num2. num_operand cpu 4 (\<lambda>num3.
     map_sum id (next_pc 6) (write2 cpu (ucast (push_bit 1 num2)) (unat num3))))"

definition op_call :: "synacor \<Rightarrow> synacor sim" where
  "op_call cpu = num_operand cpu 2 (\<lambda>num2.
     map_sum id (\<lambda>cpu1. cpu1\<lparr>sp := sp cpu1 - 2, pc := ucast (push_bit 1 num2)\<rparr>)
       (write2 cpu (sp cpu) (unat (drop_bit 1 (pc cpu + 4)))))"

definition op_ret :: "synacor \<Rightarrow> synacor sim" where
  "op_ret cpu =
     (let cpu1 = cpu\<lparr>sp := sp cpu + 2\<rparr>
      in map_sum id (\<lambda>result. cpu1\<lparr>pc := push_bit 1 (ucast result)\<rparr>) (read2 cpu1 read_map (sp cpu1)))"

definition op_out :: "synacor \<Rightarrow> synacor sim" where
  "op_out cpu = num_operand cpu 2 (\<lambda>num2. Inr (next_pc 4 (cpu\<lparr>stdout := stdout cpu @ [ucast num2]\<rparr>)))"

text \<open>
  At the end of the input \<^verbatim>\<open>c\<close> stays uninitialised. The character is a signed \<^verbatim>\<open>char\<close>; the register is
  the one of the operand word.
\<close>

definition op_in :: "synacor \<Rightarrow> synacor sim" where
  "op_in cpu = reg_operand cpu 2 (\<lambda>num2.
     case stdin cpu of
       [] \<Rightarrow> Inl C_undefined
     | c # cs \<Rightarrow>
         if c = 0x51 then Inl (Exited 0)
         else Inr (next_pc 4 (set_reg (cpu\<lparr>stdin := cs\<rparr>) num2 (scast c))))"

definition step_once :: "synacor \<Rightarrow> synacor sim" where
  "step_once cpu =
     num_operand cpu 0 (\<lambda>num1.
       if num1 = 0 then Inl (Exited 0)
       else if num1 = 1 then op_set cpu
       else if num1 = 2 then op_push cpu
       else if num1 = 3 then op_pop cpu
       else if num1 = 4 then alu3 cpu (\<lambda>x y. Inr (if x = y then 1 else 0))
       else if num1 = 5 then alu3 cpu (\<lambda>x y. Inr (if y < x then 1 else 0))
       else if num1 = 6 then op_jmp cpu
       else if num1 = 7 then op_branch cpu (\<lambda>x. x \<noteq> 0)
       else if num1 = 8 then op_branch cpu (\<lambda>x. x = 0)
       else if num1 = 9 then alu3 cpu syn_add
       else if num1 = 10 then alu3 cpu syn_mult
       else if num1 = 11 then alu3 cpu syn_mod
       else if num1 = 12 then alu3 cpu (\<lambda>x y. Inr (x AND y))
       else if num1 = 13 then alu3 cpu (\<lambda>x y. Inr (x OR y))
       else if num1 = 14 then op_not cpu
       else if num1 = 15 then op_rmem cpu
       else if num1 = 16 then op_wmem cpu
       else if num1 = 17 then op_call cpu
       else if num1 = 18 then op_ret cpu
       else if num1 = 19 then op_out cpu
       else if num1 = 20 then op_in cpu
       else if num1 = 21 then Inr (next_pc 2 cpu)
       else Inl (Signalled SIM_SIGILL))"

text \<open>The main loop, for at most \<open>n\<close> instructions.\<close>

fun run :: "nat \<Rightarrow> synacor \<Rightarrow> synacor sim" where
  "run 0 cpu = Inr cpu"
| "run (Suc n) cpu = sim_bind (step_once cpu) (run n)"

subsection \<open>Operands in a flat RAM\<close>

lemma small_word: "v < 256 ^ 2 \<Longrightarrow> unat (of_nat v :: uint16) = v"
  by (simp add: unat_of_nat)

lemma read2_ok:
  assumes "access_ok (core cpu) a 2" "mp \<le> exec_map"
  shows "\<exists>w. read2 cpu mp a = Inr w"
  using sim_memory.rd_ok [OF assms] by (auto simp: read2_def)

text \<open>What a write does: the memory laws, as one fact.\<close>

lemma write2_ok:
  assumes "access_ok (core cpu) a 2"
  shows "\<exists>c. write2 cpu a v = Inr (cpu\<lparr>core := c\<rparr>) \<and> access_ok c = access_ok (core cpu) \<and>
    (\<forall>mp \<le> exec_map. sim_core_read_aligned c mp 2 a = Inr (v mod 65536)) \<and>
    (\<forall>mp b. mp \<le> exec_map \<longrightarrow> access_ok (core cpu) b 2 \<longrightarrow> unat a + 2 \<le> unat b \<or> unat b + 2 \<le> unat a \<longrightarrow>
       sim_core_read_aligned c mp 2 b = sim_core_read_aligned (core cpu) mp 2 b)"
proof -
  have w: "write_map \<le> exec_map" by (simp add: write_map_def exec_map_def)
  obtain c where c: "sim_core_write_aligned (core cpu) write_map 2 a v = Inr c"
    using sim_memory.wr_ok [OF assms w] by blast
  show ?thesis
    using c sim_memory.ok_wr [OF assms w c] sim_memory.rd_wr_same [OF assms w _ c]
      sim_memory.rd_wr_other [OF assms _ w _ c]
    by (intro exI [of _ c]) (auto simp: write2_def)
qed

lemma interp_small: "v < 0x8000 \<Longrightarrow> interp_num cpu v = Inr v"
  by (simp add: interp_num_def)

lemma num_operand_value:
  "read2 cpu exec_map (pc cpu + off) = Inr w \<Longrightarrow> interp_num cpu w = Inr v \<Longrightarrow> num_operand cpu off k = k v"
  by (simp add: num_operand_def)

lemma reg_operand_value:
  "read2 cpu exec_map (pc cpu + off) = Inr w \<Longrightarrow> register_num w = Inr r \<Longrightarrow> reg_operand cpu off k = k r"
  by (simp add: reg_operand_def)

text \<open>A step on a known opcode.\<close>

lemma step_opcode:
  assumes "read2 cpu exec_map (pc cpu) = Inr w"
  shows "w = 2 \<Longrightarrow> step_once cpu = op_push cpu" "w = 3 \<Longrightarrow> step_once cpu = op_pop cpu"
    "w = 17 \<Longrightarrow> step_once cpu = op_call cpu" "w = 18 \<Longrightarrow> step_once cpu = op_ret cpu"
  using assms by (simp_all add: step_once_def num_operand_value [of _ 0 w w] interp_small)

lemma double_half:
  assumes "unat (p :: 32 word) mod 2 = 0" "unat p < 2 ^ 17"
  shows "push_bit 1 (ucast (of_nat (unat (drop_bit 1 p) mod 65536) :: 16 word)) = p"
proof -
  have h: "unat (drop_bit 1 p) = unat p div 2" by (simp add: drop_bit_eq_div unat_div)
  have "unat p div 2 < 65536" using assms(2) by simp
  then have "unat (ucast (of_nat (unat (drop_bit 1 p) mod 65536) :: 16 word) :: 32 word) = unat p div 2"
    using h by (simp add: unsigned_ucast_eq take_bit_nat_eq_self unat_of_nat)
  moreover have "unat p = 2 * (unat p div 2)" using assms(1) by presburger
  ultimately show ?thesis
    using unat_bound [of p] by (simp only: word_unat_eq_iff) (simp add: push_bit_eq_mult unat_word_ariths)
qed

lemma call_then_ret:
  assumes "access_ok (core cpu) (sp cpu) 2"
    and "read2 cpu exec_map (pc cpu) = Inr 17"
    and "read2 cpu exec_map (pc cpu + 2) = Inr w" "interp_num cpu w = Inr t"
    and "unat (pc cpu) mod 2 = 0" "unat (pc cpu) + 4 < 2 ^ 17"
  shows "\<exists>cpu1. step_once cpu = Inr cpu1 \<and> pc cpu1 = ucast (push_bit 1 t) \<and> sp cpu1 = sp cpu - 2 \<and>
    regs cpu1 = regs cpu \<and>
    (\<forall>b. access_ok (core cpu) b 2 \<longrightarrow> unat (sp cpu) + 2 \<le> unat b \<or> unat b + 2 \<le> unat (sp cpu) \<longrightarrow>
       read2 cpu1 exec_map b = read2 cpu exec_map b) \<and>
    (\<forall>cpu2. sp cpu2 = sp cpu1 \<longrightarrow> read2 cpu2 read_map (sp cpu) = read2 cpu1 read_map (sp cpu) \<longrightarrow>
       read2 cpu2 exec_map (pc cpu2) = Inr 18 \<longrightarrow>
       (\<exists>cpu3. step_once cpu2 = Inr cpu3 \<and> pc cpu3 = pc cpu + 4 \<and> sp cpu3 = sp cpu \<and> regs cpu3 = regs cpu2))"
proof -
  let ?v = "unat (drop_bit 1 (pc cpu + 4))"
  obtain c where c: "write2 cpu (sp cpu) ?v = Inr (cpu\<lparr>core := c\<rparr>)"
    "\<forall>mp \<le> exec_map. sim_core_read_aligned c mp 2 (sp cpu) = Inr (?v mod 65536)"
    "\<forall>mp b. mp \<le> exec_map \<longrightarrow> access_ok (core cpu) b 2 \<longrightarrow> unat (sp cpu) + 2 \<le> unat b \<or> unat b + 2 \<le> unat (sp cpu) \<longrightarrow>
       sim_core_read_aligned c mp 2 b = sim_core_read_aligned (core cpu) mp 2 b"
    using write2_ok [OF assms(1)] by blast
  let ?c1 = "cpu\<lparr>core := c, sp := sp cpu - 2, pc := ucast (push_bit 1 t)\<rparr>"
  have s1: "step_once cpu = Inr ?c1"
    using c(1) step_opcode(3) [OF assms(2) refl] num_operand_value [OF assms(3,4)] by (simp add: op_call_def)
  have slot: "read2 ?c1 read_map (sp cpu) = Inr (of_nat (?v mod 65536))"
    using c(2) by (simp add: read2_def read_map_def exec_map_def)
  have u: "unat (pc cpu + 4) = unat (pc cpu) + 4" using assms(6) by (simp add: unat_word_ariths)
  have resume: "push_bit 1 (ucast (of_nat (?v mod 65536) :: 16 word)) = pc cpu + 4"
    by (rule double_half) (use assms(5,6) u in presburger)+
  have "\<exists>cpu3. step_once cpu2 = Inr cpu3 \<and> pc cpu3 = pc cpu + 4 \<and> sp cpu3 = sp cpu \<and> regs cpu3 = regs cpu2"
    if "sp cpu2 = sp ?c1" "read2 cpu2 read_map (sp cpu) = read2 ?c1 read_map (sp cpu)"
      "read2 cpu2 exec_map (pc cpu2) = Inr 18" for cpu2
  proof -
    have "read2 (cpu2\<lparr>sp := sp cpu\<rparr>) read_map (sp cpu) = Inr (of_nat (?v mod 65536))"
      using that(2) slot by (simp add: read2_def)
    then show ?thesis
      using step_opcode(4) [OF that(3) refl] that(1) resume by (simp add: op_ret_def Let_def)
  qed
  moreover have "read2 ?c1 exec_map b = read2 cpu exec_map b"
    if "access_ok (core cpu) b 2" "unat (sp cpu) + 2 \<le> unat b \<or> unat b + 2 \<le> unat (sp cpu)" for b
    using c(3) [rule_format, OF le_refl that] by (simp add: read2_def)
  ultimately show ?thesis using s1 by (intro exI [of _ ?c1]) simp
qed

subsection \<open>Well-typed machines\<close>

definition words_ok :: "nat \<Rightarrow> synacor \<Rightarrow> bool" where
  "words_ok sz cpu \<longleftrightarrow> ram sz (core cpu) \<and> 0x10000 \<le> sz \<and> length (regs cpu) = 8 \<and>
     unat (pc cpu) mod 2 = 0 \<and> unat (sp cpu) mod 2 = 0"

definition small_regs :: "synacor \<Rightarrow> bool" where
  "small_regs cpu \<longleftrightarrow> (\<forall>r \<in> set (regs cpu). r < 0x8000)"

text \<open>A good outcome: \<open>u\<close> says that undefined behaviour is possible, \<open>k\<close> that registers stay small.\<close>

definition outcome :: "nat \<Rightarrow> bool \<Rightarrow> bool \<Rightarrow> synacor sim \<Rightarrow> bool" where
  "outcome sz u k r = (case r of
     Inl e \<Rightarrow> e = Exited 0 \<or> e = Signalled SIM_SIGILL \<or> (u \<and> e = C_undefined)
   | Inr cpu \<Rightarrow> words_ok sz cpu \<and> (k \<longrightarrow> small_regs cpu))"

lemma outcome_simps [simp]:
  "outcome sz u k (Inl e) \<longleftrightarrow> e = Exited 0 \<or> e = Signalled SIM_SIGILL \<or> (u \<and> e = C_undefined)"
  "outcome sz u k (Inr cpu) \<longleftrightarrow> words_ok sz cpu \<and> (k \<longrightarrow> small_regs cpu)"
  by (simp_all add: outcome_def)

definition placed :: "nat \<Rightarrow> synacor \<Rightarrow> bool" where
  "placed sz cpu \<longleftrightarrow> words_ok sz cpu \<and> small_regs cpu \<and> unat (pc cpu) + 8 \<le> sz \<and> unat (sp cpu) + 4 \<le> sz"

lemma placed_access:
  assumes "placed sz cpu"
  shows "off \<in> {0, 2, 4, 6} \<Longrightarrow> access_ok (core cpu) (pc cpu + off) 2"
    and "access_ok (core cpu) (sp cpu) 2" "access_ok (core cpu) (sp cpu + 2) 2"
    and "access_ok (core cpu) (ucast (push_bit 1 (v :: uint16))) 2"
proof -
  have r: "ram sz (core cpu)" "sz < 2 ^ 32" using assms by (auto simp: placed_def words_ok_def ram_def)
  note ok = access_ok_ram [OF r(1)]
  have p: "unat (pc cpu) mod 2 = 0" "unat (sp cpu) mod 2 = 0" "unat (pc cpu) + 8 \<le> sz" "unat (sp cpu) + 4 \<le> sz"
    "0x10000 \<le> sz" using assms by (auto simp: placed_def words_ok_def)
  show "access_ok (core cpu) (pc cpu + off) 2" if "off \<in> {0, 2, 4, 6}"
  proof -
    have "unat (pc cpu + off) = unat (pc cpu) + unat off"
      using that p(3) r(2) by (auto simp: unat_word_ariths)
    then show ?thesis using that p(1,3) by (auto simp: ok)
  qed
  show "access_ok (core cpu) (sp cpu) 2" using p by (simp add: ok)
  have "unat (sp cpu + 2) = unat (sp cpu) + 2" using p(4) r(2) by (simp add: unat_word_ariths)
  then show "access_ok (core cpu) (sp cpu + 2) 2" using p by (simp add: ok)
  have "unat (ucast (push_bit 1 v) :: 32 word) = unat v * 2 mod 65536"
    using unat_bound [of v] by (simp add: unsigned_ucast_eq take_bit_nat_eq_self push_bit_eq_mult unat_word_ariths)
  moreover have "x * 2 mod 65536 mod 2 = 0" for x :: nat by (simp add: mod_mod_cancel)
  moreover have "y < 65536 \<Longrightarrow> y mod 2 = 0 \<Longrightarrow> y + 2 \<le> sz" for y :: nat using p(5) by presburger
  ultimately show "access_ok (core cpu) (ucast (push_bit 1 v)) 2" by (simp add: ok)
qed

lemma register_bits:
  assumes "0x8000 \<le> (w :: uint16)" "w < 0x8008"
  shows "unat (w AND 0xf) < 8"
proof -
  have "(w AND 0xf) = take_bit 4 w" by (simp add: take_bit_eq_mask mask_eq_exp_minus_1)
  then have "unat (w AND 0xf) = take_bit 4 (unat w)" by (simp only: unsigned_take_bit_eq)
  then have "unat (w AND 0xf) = unat w mod 16" by (simp add: take_bit_eq_mod)
  moreover have "0x8000 \<le> unat w" "unat w < 0x8008" using assms by (simp_all add: word_le_nat_alt word_less_nat_alt)
  ultimately show ?thesis by presburger
qed

lemma num_operand_outcome:
  assumes "placed sz cpu" "off \<in> {0, 2, 4, 6}" "\<And>v. v < 0x8000 \<Longrightarrow> outcome sz u k (f v)"
  shows "outcome sz u k (num_operand cpu off f)"
proof -
  obtain w where w: "read2 cpu exec_map (pc cpu + off) = Inr w"
    using read2_ok [OF placed_access(1) [OF assms(1,2)]] by blast
  have "regs cpu ! unat (w AND 0xf) < 0x8000" if "0x8000 \<le> w" "w < 0x8008"
    using assms(1) register_bits [OF that] by (auto simp: placed_def words_ok_def small_regs_def)
  then show ?thesis using w assms(3) by (auto simp: num_operand_def interp_num_def not_less)
qed


lemma reg_operand_outcome:
  assumes "placed sz cpu" "off \<in> {0, 2, 4, 6}" "\<And>r. unat r < 8 \<Longrightarrow> outcome sz u k (f r)"
  shows "outcome sz u k (reg_operand cpu off f)"
proof -
  obtain w where w: "read2 cpu exec_map (pc cpu + off) = Inr w"
    using read2_ok [OF placed_access(1) [OF assms(1,2)]] by blast
  then show ?thesis
    using assms(3) register_bits [of w] by (auto simp: reg_operand_def register_num_def not_less)
qed

text \<open>The states the instructions end in.\<close>

lemma even_add:
  assumes "unat (a :: 32 word) mod 2 = 0" "unat b mod 2 = 0"
  shows "unat (a + b) mod 2 = 0"
proof -
  have "unat (a + b) = (unat a + unat b) mod 4294967296" by (simp add: unat_word_ariths)
  then have "unat (a + b) mod 2 = (unat a + unat b) mod 2" by (simp add: mod_mod_cancel)
  then show ?thesis using assms by presburger
qed

lemma even_sub: "unat (a :: 32 word) mod 2 = 0 \<Longrightarrow> unat (a - 2) mod 2 = 0"
  using even_add [of a "- 2"] by simp

lemma even_double:
  "unat (ucast (push_bit 1 (v :: uint16)) :: 32 word) mod 2 = 0"
  "unat (push_bit 1 (w :: 32 word)) mod 2 = 0"
proof -
  have "unat (ucast (push_bit 1 v) :: 32 word) = unat v * 2 mod 65536"
    using unat_bound [of v] by (simp add: unsigned_ucast_eq take_bit_nat_eq_self push_bit_eq_mult unat_word_ariths)
  then show "unat (ucast (push_bit 1 v) :: 32 word) mod 2 = 0" by (simp add: mod_mod_cancel)
  have "unat (push_bit 1 w) = unat w * 2 mod 4294967296"
    by (simp add: push_bit_eq_mult unat_word_ariths)
  then show "unat (push_bit 1 w) mod 2 = 0" by (simp add: mod_mod_cancel)
qed

lemma words_ok_upd:
  "words_ok sz cpu \<Longrightarrow> unat n mod 2 = 0 \<Longrightarrow> words_ok sz (next_pc n cpu)"
  "words_ok sz cpu \<Longrightarrow> words_ok sz (set_reg cpu r v)"
  "words_ok sz cpu \<Longrightarrow> words_ok sz (cpu\<lparr>sp := sp cpu + 2\<rparr>)"
  "words_ok sz cpu \<Longrightarrow> words_ok sz (cpu\<lparr>sp := sp cpu - 2\<rparr>)"
  "words_ok sz cpu \<Longrightarrow> unat p mod 2 = 0 \<Longrightarrow> words_ok sz (cpu\<lparr>pc := p\<rparr>)"
  "words_ok sz cpu \<Longrightarrow> words_ok sz (cpu\<lparr>stdin := i\<rparr>)"
  "words_ok sz cpu \<Longrightarrow> words_ok sz (cpu\<lparr>stdout := out\<rparr>)"
  "words_ok sz cpu \<Longrightarrow> ram sz c \<Longrightarrow> words_ok sz (cpu\<lparr>core := c\<rparr>)"
  by (simp_all add: words_ok_def next_pc_def set_reg_def even_add even_sub)

lemma small_regs_upd [simp]:
  "small_regs (next_pc n cpu) = small_regs cpu"
  "small_regs (cpu\<lparr>sp := s\<rparr>) = small_regs cpu"
  "small_regs (cpu\<lparr>pc := p\<rparr>) = small_regs cpu"
  "small_regs (cpu\<lparr>stdout := out\<rparr>) = small_regs cpu"
  "small_regs (cpu\<lparr>stdin := i\<rparr>) = small_regs cpu"
  "small_regs (cpu\<lparr>core := c\<rparr>) = small_regs cpu"
  by (simp_all add: small_regs_def next_pc_def)

lemma small_set_reg: "small_regs cpu \<Longrightarrow> v < 0x8000 \<Longrightarrow> small_regs (set_reg cpu r v)"
  using set_update_subset_insert [of "regs cpu" "unat r" v] by (auto simp: small_regs_def set_reg_def)

lemma placedD: "placed sz cpu \<Longrightarrow> words_ok sz cpu" "placed sz cpu \<Longrightarrow> small_regs cpu"
  by (simp_all add: placed_def)

lemma alu3_outcome:
  assumes "placed sz cpu"
    and "\<And>x y. x < 0x8000 \<Longrightarrow> y < 0x8000 \<Longrightarrow>
      (case f x y of Inl e \<Rightarrow> u \<and> e = C_undefined | Inr v \<Rightarrow> v < 0x8000)"
  shows "outcome sz u k (alu3 cpu f)"
  unfolding alu3_def
proof (intro reg_operand_outcome [OF assms(1)] num_operand_outcome [OF assms(1)])
  fix r x y :: uint16
  assume "x < 0x8000" "y < 0x8000"
  then show "outcome sz u k (map_sum id (\<lambda>result. next_pc 8 (set_reg cpu r result)) (f x y))"
    using assms(2) [of x y] placedD [OF assms(1)] small_set_reg
    by (cases "f x y") (auto simp: words_ok_upd)
qed simp_all

lemma write2_outcome:
  assumes "placed sz cpu" "access_ok (core cpu) a 2"
    and "\<And>c. words_ok sz (cpu\<lparr>core := c\<rparr>) \<Longrightarrow> outcome sz u k (Inr (g (cpu\<lparr>core := c\<rparr>)))"
  shows "outcome sz u k (map_sum id g (write2 cpu a v))"
proof -
  have r: "ram sz (core cpu)" using assms(1) by (simp add: placed_def words_ok_def)
  obtain c where c: "sim_core_write_aligned (core cpu) write_map 2 a v = Inr c" "ram sz c"
    using ram_write [OF r, of 2 a write_map v] assms(2) access_ok_ram [OF r]
    by (auto simp: write_map_def exec_map_def)
  then show ?thesis
    using assms(3) [of c] words_ok_upd(8) [OF placedD(1) [OF assms(1)]] by (simp add: write2_def)
qed

lemma below_half: "(v :: uint16) < 0x8000 \<longleftrightarrow> take_bit 15 v = v"
proof -
  have "v < 0x8000 \<longleftrightarrow> unat v < 2 ^ 15" by (simp add: word_less_nat_alt)
  also have "\<dots> \<longleftrightarrow> take_bit 15 (unat v) = unat v" by (simp add: take_bit_nat_eq_self_iff)
  also have "\<dots> \<longleftrightarrow> unat (take_bit 15 v) = unat v" by (simp only: unsigned_take_bit_eq)
  finally show ?thesis by (simp add: word_unat_eq_iff)
qed

lemma and_or_small:
  assumes "x < 0x8000" "y < (0x8000 :: uint16)"
  shows "x AND y < 0x8000" "x OR y < 0x8000"
  using assms unfolding below_half by simp_all

lemma and_mask_small: "z AND 0x7fff < (0x8000 :: uint16)"
proof -
  have "z AND 0x7fff = take_bit 15 z" by (simp add: take_bit_eq_mask mask_eq_exp_minus_1)
  then show ?thesis unfolding below_half by simp
qed

lemma op_outcomes:
  assumes p: "placed sz cpu"
  shows "outcome sz u k (op_set cpu)" "outcome sz u k (op_push cpu)" "outcome sz u False (op_pop cpu)"
    "outcome sz u k (op_jmp cpu)" "outcome sz u k (op_branch cpu t)" "outcome sz u k (op_not cpu)"
    "outcome sz u False (op_rmem cpu)" "outcome sz u k (op_wmem cpu)" "outcome sz u k (op_call cpu)"
    "outcome sz u k (op_ret cpu)" "outcome sz u k (op_out cpu)" "outcome sz True False (op_in cpu)"
    "outcome sz u k (Inr (next_pc 2 cpu))"
proof -
  note reg = reg_operand_outcome [OF p] and num = num_operand_outcome [OF p]
  note d = placedD [OF p] and e = even_double even_double [simplified]
  have rd: "\<exists>w. read2 cpu1 read_map a = Inr w" if "core cpu1 = core cpu" "access_ok (core cpu) a 2" for cpu1 a
    using read2_ok [of cpu1 a read_map] that by (simp add: read_map_def exec_map_def)
  show "outcome sz u k (op_set cpu)" unfolding op_set_def
    by (intro reg num) (simp_all add: words_ok_upd d small_set_reg)
  show "outcome sz u k (op_push cpu)" unfolding op_push_def
  proof (intro num write2_outcome [OF p placed_access(2) [OF p]])
    fix c
    assume "words_ok sz (cpu\<lparr>core := c\<rparr>)"
    from words_ok_upd(4) [OF this]
    show "outcome sz u k (Inr (next_pc 4 ((cpu\<lparr>core := c\<rparr>)\<lparr>sp := sp (cpu\<lparr>core := c\<rparr>) - 2\<rparr>)))"
      by (simp only: outcome_simps small_regs_upd) (simp add: words_ok_upd d)
  qed simp
  show "outcome sz u False (op_pop cpu)" unfolding op_pop_def Let_def
  proof (intro reg)
    fix r :: uint16
    obtain w where "read2 (cpu\<lparr>sp := sp cpu + 2\<rparr>) read_map (sp cpu + 2) = Inr w"
      using rd [of "cpu\<lparr>sp := sp cpu + 2\<rparr>"] placed_access(3) [OF p] by auto
    then show "outcome sz u False (map_sum id (\<lambda>result. next_pc 4 (set_reg (cpu\<lparr>sp := sp cpu + 2\<rparr>) r result))
        (read2 (cpu\<lparr>sp := sp cpu + 2\<rparr>) read_map (sp (cpu\<lparr>sp := sp cpu + 2\<rparr>))))"
      by (simp add: words_ok_upd d)
  qed simp
  show "outcome sz u k (op_jmp cpu)" unfolding op_jmp_def
    by (intro num) (simp_all add: words_ok_upd d e)
  show "outcome sz u k (op_branch cpu t)" unfolding op_branch_def
    by (intro num) (auto simp: words_ok_upd d e)
  show "outcome sz u k (op_not cpu)" unfolding op_not_def
    by (intro reg num) (simp_all add: words_ok_upd d small_set_reg and_mask_small)
  show "outcome sz u False (op_rmem cpu)" unfolding op_rmem_def
  proof (intro reg num)
    fix r v :: uint16
    obtain w where w: "read2 cpu read_map (ucast (push_bit 1 v)) = Inr w"
      using rd [of cpu] placed_access(4) [OF p] by blast
    show "outcome sz u False (map_sum id (\<lambda>result. next_pc 6 (set_reg cpu r result))
        (read2 cpu read_map (ucast (push_bit 1 v))))"
      unfolding w by (simp add: words_ok_upd d)
  qed simp_all
  show "outcome sz u k (op_wmem cpu)" unfolding op_wmem_def
    by (intro num write2_outcome [OF p placed_access(4) [OF p]]) (simp_all add: words_ok_upd d)
  show "outcome sz u k (op_call cpu)" unfolding op_call_def
  proof (intro num write2_outcome [OF p placed_access(2) [OF p]])
    fix v :: uint16 and c
    assume "words_ok sz (cpu\<lparr>core := c\<rparr>)"
    from words_ok_upd(5) [OF words_ok_upd(4) [OF this] even_double(1) [of v]]
    show "outcome sz u k (Inr ((cpu\<lparr>core := c\<rparr>)\<lparr>sp := sp (cpu\<lparr>core := c\<rparr>) - 2, pc := ucast (push_bit 1 v)\<rparr>))"
      unfolding outcome_simps by (simp add: d small_regs_def [of "cpu\<lparr>core := c, sp := _, pc := _\<rparr>"] d(2) [unfolded small_regs_def])
  qed simp
  show "outcome sz u k (op_ret cpu)"
  proof -
    obtain w where "read2 (cpu\<lparr>sp := sp cpu + 2\<rparr>) read_map (sp cpu + 2) = Inr w"
      using rd [of "cpu\<lparr>sp := sp cpu + 2\<rparr>"] placed_access(3) [OF p] by auto
    then show ?thesis
      using words_ok_upd(5) [OF words_ok_upd(3) [OF d(1)] even_double(2) [of "ucast w"]] d(2)
      unfolding op_ret_def Let_def by (simp del: push_bit_of_1)
  qed
  show "outcome sz u k (op_out cpu)" unfolding op_out_def
    by (intro num) (simp_all add: words_ok_upd d)
  show "outcome sz True False (op_in cpu)" unfolding op_in_def
    by (intro reg) (auto simp: words_ok_upd d split: list.split)
  show "outcome sz u k (Inr (next_pc 2 cpu))" by (simp add: words_ok_upd d)
qed

lemma step_outcome:
  assumes p: "placed sz cpu"
  shows "outcome sz (num_operand cpu 0 Inr \<in> {Inr 11, Inr 20}) (num_operand cpu 0 Inr \<notin> {Inr 3, Inr 15, Inr 20})
    (step_once cpu)"
proof -
  obtain w where w: "read2 cpu exec_map (pc cpu + 0) = Inr w"
    using read2_ok [OF placed_access(1) [OF p, of 0]] by auto
  show ?thesis
  proof (cases "interp_num cpu w")
    case (Inl e)
    then have "e = Signalled SIM_SIGILL" by (auto simp: interp_num_def split: if_splits)
    then show ?thesis using w Inl by (simp add: step_once_def num_operand_def)
  next
    case (Inr v)
    note [simp] = num_operand_value [OF w Inr]
    have add: "outcome sz u k (alu3 cpu syn_add)" for u k
      by (rule alu3_outcome [OF p])
        (simp add: syn_add_def word_less_nat_alt unat_of_nat)
    have mult: "outcome sz u k (alu3 cpu syn_mult)" for u k
    proof (rule alu3_outcome [OF p])
      fix x y :: uint16
      assume "x < 0x8000" "y < 0x8000"
      then have "unat x \<le> 0x7fff" "unat y \<le> 0x7fff" by (simp_all add: word_less_nat_alt)
      then have "unat x * unat y \<le> 0x7fff * 0x7fff" by (rule mult_le_mono)
      then show "case syn_mult x y of Inl e \<Rightarrow> u \<and> e = C_undefined | Inr v \<Rightarrow> v < 0x8000"
        by (simp add: syn_mult_def word_less_nat_alt unat_of_nat)
    qed
    have modulus: "outcome sz True k (alu3 cpu syn_mod)" for k
      by (rule alu3_outcome [OF p])
        (auto simp: syn_mod_def word_less_nat_alt unat_mod intro: le_less_trans [OF mod_less_eq_dividend])
    have bits: "outcome sz u k (alu3 cpu (\<lambda>x y. Inr (x AND y)))" "outcome sz u k (alu3 cpu (\<lambda>x y. Inr (x OR y)))"
      "outcome sz u k (alu3 cpu (\<lambda>x y. Inr (if x = y then 1 else 0)))"
      "outcome sz u k (alu3 cpu (\<lambda>x y. Inr (if y < x then 1 else 0)))" for u k
      by (rule alu3_outcome [OF p], simp add: and_or_small)+
    have "num_operand cpu 0 Inr = Inr v" by simp
    note o = op_outcomes [OF p] add mult modulus bits
    show ?thesis
      unfolding step_once_def \<open>num_operand cpu 0 Inr = Inr v\<close>
      by (simp add: o words_ok_upd placedD [OF p])
  qed
qed

lemma run_add: "run (m + n) cpu = sim_bind (run m cpu) (run n)"
proof (induction m arbitrary: cpu)
  case (Suc m)
  then show ?case by (cases "step_once cpu") simp_all
qed simp

lemma read2_ram:
  assumes "ram sz (core cpu)" "unat a mod 2 = 0" "unat a + 2 \<le> sz" "mp \<le> exec_map"
  shows "read2 cpu mp a = Inr (of_nat (target_to_host (big_endian (core cpu))
    [ram_data (core cpu) (unat a), ram_data (core cpu) (unat a + 1)]))"
  using ram_read [OF assms(1) _ assms(2-4)] by (simp add: read2_def upt_conv_Cons)

subsection \<open>Properties\<close>

text \<open>A program in the memory of the simulator: what the loader leaves.\<close>

lemma loaded_program:
  assumes "length prog \<le> 0x1000000"
  shows "\<exists>c. ram 0x1000000 c \<and> ram_data c = overwrite (\<lambda>_. 0) 0 prog \<and> \<not> big_endian c"
proof -
  obtain c where c: "ram 0x1000000 c" "ram_data c = (\<lambda>_. 0)" "\<not> big_endian c"
    using attach_ram [of "0x1000000" "empty_core False"] by (auto simp: empty_core_def)
  obtain b d where d: "put_bytes c (hd (maps c write_map)) 0 prog = Inr d" "ram 0x1000000 d"
    "ram_data d = overwrite (ram_data c) 0 prog" "big_endian d = big_endian c"
    using ram_put [OF c(1), of write_map 0 prog] assms by (auto simp: write_map_def exec_map_def)
  then show ?thesis using c by auto
qed



text \<open>A call pushes the address of the next instruction and ret returns to it: whatever
  instructions run in between, if they leave the stack pointer and the slot of the return address as
  they found them, the ret continues after the call, with the registers they left.\<close>

theorem synacor_call_ret:
  assumes "access_ok (core cpu) (sp cpu) 2"
    and "read2 cpu exec_map (pc cpu) = Inr 17"
    and "read2 cpu exec_map (pc cpu + 2) = Inr w" "interp_num cpu w = Inr t"
    and "unat (pc cpu) mod 2 = 0" "unat (pc cpu) + 4 < 2 ^ 17"
    and "run 1 cpu = Inr cpu1" "run n cpu1 = Inr cpu2"
    and "sp cpu2 = sp cpu1" "read2 cpu2 read_map (sp cpu) = read2 cpu1 read_map (sp cpu)"
    and "read2 cpu2 exec_map (pc cpu2) = Inr 18"
  shows "pc cpu1 = ucast (push_bit 1 t) \<and>
    (\<exists>cpu3. run (1 + n + 1) cpu = Inr cpu3 \<and> pc cpu3 = pc cpu + 4 \<and> sp cpu3 = sp cpu \<and> regs cpu3 = regs cpu2)"
proof -
  obtain c1 where c1: "step_once cpu = Inr c1" "pc c1 = ucast (push_bit 1 t)"
    "\<forall>cpu2. sp cpu2 = sp c1 \<longrightarrow> read2 cpu2 read_map (sp cpu) = read2 c1 read_map (sp cpu) \<longrightarrow>
       read2 cpu2 exec_map (pc cpu2) = Inr 18 \<longrightarrow>
       (\<exists>cpu3. step_once cpu2 = Inr cpu3 \<and> pc cpu3 = pc cpu + 4 \<and> sp cpu3 = sp cpu \<and> regs cpu3 = regs cpu2)"
    using call_then_ret [OF assms(1-6)] by blast
  have eq: "c1 = cpu1" using c1(1) assms(7) by simp
  obtain cpu3 where cpu3: "step_once cpu2 = Inr cpu3" "pc cpu3 = pc cpu + 4" "sp cpu3 = sp cpu" "regs cpu3 = regs cpu2"
    using c1(3) assms(9-11) eq by blast
  have "run (1 + n + 1) cpu = Inr cpu3"
    unfolding run_add using assms(7,8) cpu3(1) by simp
  then show ?thesis using c1(2) eq cpu3 by blast
qed

theorem synacor_call_ret_witness:
  "\<exists>cpu cpu3. pc cpu = 0 \<and> run (1 + 1 + 1) cpu = Inr cpu3 \<and> pc cpu3 = 4 \<and> sp cpu3 = 0x80000"
proof -
  let ?prog = "[17, 0, 4, 0, 0, 0, 0, 0, 21, 0, 18, 0] :: uint8 list"
  obtain c where c: "ram 0x1000000 c" "ram_data c = overwrite (\<lambda>_. 0) 0 ?prog" "\<not> big_endian c"
    using loaded_program [of ?prog] by auto
  define cpu where "cpu = \<lparr>regs = replicate 8 0, pc = 0, sp = 0x80000, core = c, stdin = [], stdout = []\<rparr>"
  have ok: "access_ok c 0x80000 2" "access_ok c 8 2" "access_ok c 10 2"
    by (simp_all add: access_ok_ram [OF c(1)])
  have r: "read2 cpu exec_map 0 = Inr 17" "read2 cpu exec_map 2 = Inr 4" "read2 cpu exec_map 8 = Inr 21"
    "read2 cpu exec_map 10 = Inr 18"
    using c by (simp_all add: read2_ram [of "0x1000000"] cpu_def overwrite_def target_to_host_def)
  obtain c1 where c1: "step_once cpu = Inr c1" "pc c1 = ucast (push_bit 1 (4 :: uint16))"
    "\<forall>b. access_ok (core cpu) b 2 \<longrightarrow> unat (sp cpu) + 2 \<le> unat b \<or> unat b + 2 \<le> unat (sp cpu) \<longrightarrow>
       read2 c1 exec_map b = read2 cpu exec_map b"
    using call_then_ret [of cpu 4 4] ok(1) r by (auto simp: cpu_def interp_num_def)
  have r1: "read2 c1 exec_map 8 = Inr 21" "read2 c1 exec_map 10 = Inr 18"
    using c1(3) [rule_format, of 8] c1(3) [rule_format, of 10] ok r by (simp_all add: cpu_def)
  have c2: "step_once c1 = Inr (next_pc 2 c1)"
    using r1(1) c1(2) by (simp add: step_once_def num_operand_value [of c1 0 21 21] interp_num_def)
  have "read2 (next_pc 2 c1) mp a = read2 c1 mp a" for mp a by (simp add: read2_def next_pc_def)
  moreover have f: "pc cpu = 0" "sp cpu = 0x80000" "core cpu = c" by (simp_all add: cpu_def)
  ultimately have "pc c1 = ucast (push_bit 1 (4 :: uint16)) \<and>
    (\<exists>cpu3. run (1 + 1 + 1) cpu = Inr cpu3 \<and> pc cpu3 = pc cpu + 4 \<and> sp cpu3 = sp cpu \<and>
       regs cpu3 = regs (next_pc 2 c1))"
    using synacor_call_ret [of cpu 4 4 c1 1 "next_pc 2 c1"] ok(1) r c1(1,2) c2 r1(2)
    by (simp add: interp_num_def) (simp add: next_pc_def)
  then obtain cpu3 where "run (1 + 1 + 1) cpu = Inr cpu3" "pc cpu3 = pc cpu + 4" "sp cpu3 = sp cpu" by blast
  then show ?thesis using f by (intro exI conjI) (assumption | simp del: run.simps)+
qed

text \<open>push followed by pop moves the value: the register of the pop holds the pushed operand, the
  stack pointer is as before, and no other register changes.\<close>

theorem synacor_push_pop:
  assumes "access_ok (core cpu) (sp cpu) 2"
    and "\<forall>off \<in> {4, 6}. access_ok (core cpu) (pc cpu + off) 2 \<and> unat (pc cpu + off) + 2 \<le> unat (sp cpu)"
    and "read2 cpu exec_map (pc cpu) = Inr 2" "read2 cpu exec_map (pc cpu + 2) = Inr w" "interp_num cpu w = Inr v"
    and "read2 cpu exec_map (pc cpu + 4) = Inr 3" "read2 cpu exec_map (pc cpu + 6) = Inr q" "register_num q = Inr r"
  shows "\<exists>cpu'. run 2 cpu = Inr cpu' \<and> regs cpu' = (regs cpu)[unat r := v] \<and> sp cpu' = sp cpu \<and>
    pc cpu' = pc cpu + 8"
proof -
  obtain c where c: "write2 cpu (sp cpu) (unat v) = Inr (cpu\<lparr>core := c\<rparr>)"
    "\<forall>mp \<le> exec_map. sim_core_read_aligned c mp 2 (sp cpu) = Inr (unat v mod 65536)"
    "\<forall>mp b. mp \<le> exec_map \<longrightarrow> access_ok (core cpu) b 2 \<longrightarrow> unat (sp cpu) + 2 \<le> unat b \<or> unat b + 2 \<le> unat (sp cpu) \<longrightarrow>
       sim_core_read_aligned c mp 2 b = sim_core_read_aligned (core cpu) mp 2 b"
    using write2_ok [OF assms(1)] by blast
  let ?c1 = "next_pc 4 (cpu\<lparr>core := c, sp := sp cpu - 2\<rparr>)"
  have s1: "step_once cpu = Inr ?c1"
    using c(1) step_opcode(1) [OF assms(3) refl] by (simp add: op_push_def num_operand_value [OF assms(4,5)])
  have code: "read2 ?c1 exec_map (pc cpu + off) = read2 cpu exec_map (pc cpu + off)" if "off = 4 \<or> off = 6" for off
    using c(3) [rule_format, OF le_refl, of "pc cpu + off"] assms(2) that by (auto simp: read2_def next_pc_def)
  have f: "pc ?c1 = pc cpu + 4" "sp ?c1 = sp cpu - 2" "regs ?c1 = regs cpu" by (simp_all add: next_pc_def)
  have fetch: "read2 ?c1 exec_map (pc ?c1) = Inr 3" "read2 ?c1 exec_map (pc ?c1 + 2) = Inr q"
    using code [of 4] code [of 6] assms(6,7) by (simp_all add: f add.assoc)
  have "unat v mod 65536 = unat v" using unat_bound [of v] by simp
  then have slot: "read2 (?c1\<lparr>sp := sp cpu\<rparr>) read_map (sp cpu) = Inr v"
    using c(2) by (simp add: read2_def read_map_def exec_map_def next_pc_def)
  have s2: "step_once ?c1 = Inr (next_pc 4 (set_reg (?c1\<lparr>sp := sp cpu\<rparr>) r v))"
    using step_opcode(2) [OF fetch(1) refl] slot
    by (simp add: op_pop_def f Let_def reg_operand_value [OF fetch(2) assms(8)])
  have "run 2 cpu = Inr (next_pc 4 (set_reg (?c1\<lparr>sp := sp cpu\<rparr>) r v))"
    using s1 s2 by (simp add: numeral_2_eq_2)
  then show ?thesis by (simp add: next_pc_def set_reg_def)
qed

theorem synacor_push_pop_witness:
  "\<exists>cpu cpu'. run 2 cpu = Inr cpu' \<and> regs cpu' = (replicate 8 0)[3 := 7] \<and> sp cpu' = 0x80000"
proof -
  let ?prog = "[2, 0, 7, 0, 3, 0, 3, 0x80] :: uint8 list"
  obtain c where c: "ram 0x1000000 c" "ram_data c = overwrite (\<lambda>_. 0) 0 ?prog" "\<not> big_endian c"
    using loaded_program [of ?prog] by auto
  define cpu where "cpu = \<lparr>regs = replicate 8 0, pc = 0, sp = 0x80000, core = c, stdin = [], stdout = []\<rparr>"
  have f: "pc cpu = 0" "sp cpu = 0x80000" "core cpu = c" "regs cpu = replicate 8 0" by (simp_all add: cpu_def)
  have ok: "access_ok c 0x80000 2" "access_ok c 4 2" "access_ok c 6 2"
    by (simp_all add: access_ok_ram [OF c(1)])
  have r: "read2 cpu exec_map 0 = Inr 2" "read2 cpu exec_map 2 = Inr 7" "read2 cpu exec_map 4 = Inr 3"
    "read2 cpu exec_map 6 = Inr 0x8003"
    using c by (simp_all add: read2_ram [of "0x1000000"] f overwrite_def target_to_host_def)
  have "register_num 0x8003 = Inr 3" by (simp add: register_num_def)
  then have "\<exists>cpu'. run 2 cpu = Inr cpu' \<and> regs cpu' = (regs cpu)[unat (3 :: uint16) := 7] \<and> sp cpu' = sp cpu \<and>
      pc cpu' = pc cpu + 8"
    by (rule synacor_push_pop [rotated -1]) (use f ok r in \<open>auto simp: interp_small\<close>)
  then show ?thesis using f by auto
qed

text \<open>ret on the empty stack of a machine just initialised does not halt, as the instruction set
  says, but reads the memory above the stack, which is zero, and continues at address 0.\<close>

theorem synacor_ret_empty_stack:
  assumes "ram sz (core cpu)" "0x80004 \<le> sz" "sp cpu = 0x80000"
    and "ram_data (core cpu) 0x80002 = 0" "ram_data (core cpu) 0x80003 = 0"
    and "read2 cpu exec_map (pc cpu) = Inr 18"
  shows "step_once cpu = Inr (cpu\<lparr>sp := 0x80002, pc := 0\<rparr>)"
proof -
  have "read2 (cpu\<lparr>sp := 0x80002\<rparr>) read_map 0x80002 = Inr 0"
    using read2_ram [of sz "cpu\<lparr>sp := 0x80002\<rparr>" "0x80002" read_map] assms(1,2,4,5)
    by (simp add: read_map_def exec_map_def target_to_host_def)
  then show ?thesis
    using step_opcode(4) [OF assms(6) refl] assms(3) by (simp add: op_ret_def)
qed

theorem synacor_ret_empty_stack_witness:
  "\<exists>cpu. sp cpu = 0x80000 \<and> step_once cpu = Inr (cpu\<lparr>sp := 0x80002, pc := 0\<rparr>)"
proof -
  obtain c where c: "ram 0x1000000 c" "ram_data c = overwrite (\<lambda>_. 0) 0 [18, 0]" "\<not> big_endian c"
    using loaded_program [of "[18, 0]"] by auto
  define cpu where "cpu = \<lparr>regs = replicate 8 0, pc = 0, sp = 0x80000, core = c, stdin = [], stdout = []\<rparr>"
  have f: "pc cpu = 0" "sp cpu = 0x80000" "core cpu = c" by (simp_all add: cpu_def)
  have "read2 cpu exec_map 0 = Inr 18"
    using c by (simp add: read2_ram [of "0x1000000"] f overwrite_def target_to_host_def)
  then show ?thesis
    using synacor_ret_empty_stack [of "0x1000000" cpu] c f by (auto simp: overwrite_def)
qed

end
