(* ===== verification/Moxie.thy ===== *)
theory Moxie
  imports Sim_Core
begin

text \<open>
  The moxie processor (\<^verbatim>\<open>gdb-15.1/sim/moxie/interp.c\<close>): sixteen general registers and a program counter,
  special registers, a condition code, and instructions in three forms, on the simulator memory.
  Signed overflow of additions and subtractions is modelled as wrap-around; a division by zero, an
  overflowing division and a shift by 32 or more are undefined.
\<close>

subsection \<open>State\<close>

text \<open>
  The requests of system calls go to the host, a parameter: it answers a request, given those before
  it, with the result and, for a read, the contents of the buffer.
\<close>

datatype sys_request =
    Sys_open "uint8 list" uint32
  | Sys_read uint32 nat
  | Sys_write uint32 "uint8 list"
  | Sys_unlink "uint8 list"

type_synonym sys_host = "sys_request list \<Rightarrow> sys_request \<Rightarrow> uint32 \<times> uint8 list"

record moxie =
  regs :: "uint32 list"
  sregs :: "uint32 list"
  cc :: uint32
  insts :: uint64
  core :: sim_core
  requests :: "sys_request list"

definition PC_REGNO :: nat where "PC_REGNO = 16"
definition NUM_MOXIE_REGS :: nat where "NUM_MOXIE_REGS = 17"
definition NUM_MOXIE_SREGS :: nat where "NUM_MOXIE_SREGS = 256"

definition CC_GT :: uint32 where "CC_GT = 1"
definition CC_LT :: uint32 where "CC_LT = 2"
definition CC_EQ :: uint32 where "CC_EQ = 4"
definition CC_GTU :: uint32 where "CC_GTU = 8"
definition CC_LTU :: uint32 where "CC_LTU = 16"

definition reg :: "moxie \<Rightarrow> nat \<Rightarrow> uint32" where
  "reg cpu n = regs cpu ! n"

definition set_reg :: "nat \<Rightarrow> uint32 \<Rightarrow> moxie \<Rightarrow> moxie" where
  "set_reg n v cpu = cpu\<lparr>regs := (regs cpu)[n := v]\<rparr>"

definition set_sreg :: "nat \<Rightarrow> uint32 \<Rightarrow> moxie \<Rightarrow> moxie" where
  "set_sreg n v cpu = cpu\<lparr>sregs := (sregs cpu)[n := v]\<rparr>"

definition set_initial_gprs :: "moxie \<Rightarrow> moxie" where
  "set_initial_gprs cpu =
     cpu\<lparr>regs := replicate NUM_MOXIE_REGS 0 @ drop NUM_MOXIE_REGS ((regs cpu)[PC_REGNO := 0]),
         sregs := replicate NUM_MOXIE_SREGS 0\<rparr>"

subsection \<open>Integers in byte buffers\<close>

text \<open>The loop of the extraction runs from the last byte to the first, and so does that of the store.\<close>

definition moxie_extract_unsigned_integer :: "uint8 list \<Rightarrow> uint64" where
  "moxie_extract_unsigned_integer bs = foldl (\<lambda>r b. push_bit 8 r OR ucast b) 0 (rev bs)"

fun store_loop :: "nat \<Rightarrow> uint64 \<Rightarrow> uint8 list \<Rightarrow> uint8 list" where
  "store_loop 0 v bs = bs"
| "store_loop (Suc n) v bs = store_loop n (drop_bit 8 v) (ucast (v AND 0xff) # bs)"

definition moxie_store_unsigned_integer :: "nat \<Rightarrow> uint64 \<Rightarrow> uint8 list" where
  "moxie_store_unsigned_integer len v = store_loop len v []"

text \<open>The register accesses of the debugger: the returned length, and the new state or the bytes.\<close>

definition moxie_reg_store :: "moxie \<Rightarrow> nat \<Rightarrow> uint8 list \<Rightarrow> moxie \<times> nat" where
  "moxie_reg_store cpu rn mem =
     (if rn < NUM_MOXIE_REGS
      then (if length mem = 4
            then set_reg rn (ucast (moxie_extract_unsigned_integer mem)) cpu else cpu, 4)
      else (cpu, 0))"

definition moxie_reg_fetch :: "moxie \<Rightarrow> nat \<Rightarrow> uint8 list \<Rightarrow> uint8 list \<times> nat" where
  "moxie_reg_fetch cpu rn mem =
     (if rn < NUM_MOXIE_REGS
      then (if length mem = 4
            then moxie_store_unsigned_integer 4 (scast (reg cpu rn)) else mem, 4)
      else (mem, 0))"

subsection \<open>Memory accesses\<close>

definition rat :: "nat \<Rightarrow> moxie \<Rightarrow> uint32 \<Rightarrow> uint32 sim" where
  "rat n cpu x = map_sum id of_nat (sim_core_read_aligned (core cpu) read_map n x)"

definition wat :: "nat \<Rightarrow> moxie \<Rightarrow> uint32 \<Rightarrow> uint32 \<Rightarrow> moxie sim" where
  "wat n cpu x v = map_sum id (\<lambda>c. cpu\<lparr>core := c\<rparr>) (sim_core_write_aligned (core cpu) write_map n x (unat v))"

definition rbat :: "moxie \<Rightarrow> uint32 \<Rightarrow> uint32 sim" where "rbat = rat 1"
definition rsat :: "moxie \<Rightarrow> uint32 \<Rightarrow> uint32 sim" where "rsat = rat 2"
definition rlat :: "moxie \<Rightarrow> uint32 \<Rightarrow> uint32 sim" where "rlat = rat 4"
definition wbat :: "moxie \<Rightarrow> uint32 \<Rightarrow> uint32 \<Rightarrow> moxie sim" where "wbat = wat 1"
definition wsat :: "moxie \<Rightarrow> uint32 \<Rightarrow> uint32 \<Rightarrow> moxie sim" where "wsat = wat 2"
definition wlat :: "moxie \<Rightarrow> uint32 \<Rightarrow> uint32 \<Rightarrow> moxie sim" where "wlat = wat 4"

definition EXTRACT_WORD :: "moxie \<Rightarrow> uint32 \<Rightarrow> uint32 sim" where
  "EXTRACT_WORD cpu a =
     sim_bind (rbat cpu a) (\<lambda>b0. sim_bind (rbat cpu (a + 1)) (\<lambda>b1.
     sim_bind (rbat cpu (a + 2)) (\<lambda>b2. sim_bind (rbat cpu (a + 3)) (\<lambda>b3.
       Inr (push_bit 24 b0 + push_bit 16 b1 + push_bit 8 b2 + b3)))))"

definition EXTRACT_OFFSET :: "moxie \<Rightarrow> uint32 \<Rightarrow> uint32 sim" where
  "EXTRACT_OFFSET cpu a =
     sim_bind (rbat cpu a) (\<lambda>b0. sim_bind (rbat cpu (a + 1)) (\<lambda>b1.
       Inr (scast (ucast (push_bit 8 b0 + b1) :: uint16))))"

definition INST2OFFSET :: "uint16 \<Rightarrow> uint32" where
  "INST2OFFSET o' = push_bit 1 (scast (signed_drop_bit 6 (push_bit 6 (o' AND 0x3ff))))"

subsection \<open>Instructions\<close>

text \<open>
  An instruction maps the state and the local \<^verbatim>\<open>pc\<close> to the state and the \<^verbatim>\<open>pc\<close> before the final
  increment. The two register fields of form 1:
\<close>

definition field_a :: "uint16 \<Rightarrow> nat" where "field_a inst = unat (drop_bit 4 inst AND 0xf)"
definition field_b :: "uint16 \<Rightarrow> nat" where "field_b inst = unat (inst AND 0xf)"

definition sigill :: "'a sim" where "sigill = Inl (Stopped SIM_SIGILL)"

definition branch_taken :: "uint32 \<Rightarrow> nat \<Rightarrow> bool sim" where
  "branch_taken c opcode =
     (if opcode = 0x00 then Inr (c AND CC_EQ \<noteq> 0)
      else if opcode = 0x01 then Inr (\<not> (c AND CC_EQ \<noteq> 0))
      else if opcode = 0x02 then Inr (c AND CC_LT \<noteq> 0)
      else if opcode = 0x03 then Inr (c AND CC_GT \<noteq> 0)
      else if opcode = 0x04 then Inr (c AND CC_LTU \<noteq> 0)
      else if opcode = 0x05 then Inr (c AND CC_GTU \<noteq> 0)
      else if opcode = 0x06 then Inr (c AND (CC_GT OR CC_EQ) \<noteq> 0)
      else if opcode = 0x07 then Inr (c AND (CC_LT OR CC_EQ) \<noteq> 0)
      else if opcode = 0x08 then Inr (c AND (CC_GTU OR CC_EQ) \<noteq> 0)
      else if opcode = 0x09 then Inr (c AND (CC_LTU OR CC_EQ) \<noteq> 0)
      else sigill)"

definition form3 :: "moxie \<Rightarrow> uint16 \<Rightarrow> uint32 \<Rightarrow> (moxie \<times> uint32) sim" where
  "form3 cpu inst pc =
     map_sum id (\<lambda>t. (cpu, if t then pc + INST2OFFSET inst else pc))
       (branch_taken (cc cpu) (unat (drop_bit 10 inst AND 0xf)))"

definition form2 :: "moxie \<Rightarrow> uint16 \<Rightarrow> uint32 \<Rightarrow> (moxie \<times> uint32) sim" where
  "form2 cpu inst pc =
     (let opcode = unat (drop_bit 12 inst AND 0x3);
          a = unat (drop_bit 8 inst AND 0xf);
          v = inst AND 0xff
      in Inr (if opcode = 0 then set_reg a (reg cpu a + ucast v) cpu
              else if opcode = 1 then set_reg a (reg cpu a - ucast v) cpu
              else if opcode = 2 then set_reg a (sregs cpu ! unat v) cpu
              else set_sreg (unat v) (reg cpu a) cpu, pc))"

text \<open>The frame that \<^verbatim>\<open>jsra\<close>, \<^verbatim>\<open>jsr\<close> and the Linux system call push.\<close>

definition push_frame :: "moxie \<Rightarrow> uint32 \<Rightarrow> moxie sim" where
  "push_frame cpu return_address =
     (let sp = reg cpu 1 - 4 - 4
      in sim_bind (wlat cpu sp return_address) (\<lambda>cpu1.
         sim_bind (wlat cpu1 (sp - 4) (reg cpu1 0)) (\<lambda>cpu2.
           Inr (set_reg 0 (sp - 4) (set_reg 1 (sp - 4) cpu2)))))"

definition moxie_cmp :: "uint32 \<Rightarrow> uint32 \<Rightarrow> uint32" where
  "moxie_cmp va vb =
     (if va = vb then CC_EQ
      else (if sint va < sint vb then CC_LT else 0) OR (if sint vb < sint va then CC_GT else 0) OR
           (if va < vb then CC_LTU else 0) OR (if vb < va then CC_GTU else 0))"

definition form1_basic :: "moxie \<Rightarrow> uint16 \<Rightarrow> uint32 \<Rightarrow> nat \<Rightarrow> (moxie \<times> uint32) sim" where
  "form1_basic cpu inst pc opcode =
     (let a = field_a inst; b = field_b inst in
      if opcode = 0x01 then map_sum id (\<lambda>val. (set_reg a val cpu, pc + 4)) (EXTRACT_WORD cpu (pc + 2))
      else if opcode = 0x02 then Inr (set_reg a (reg cpu b) cpu, pc)
      else if opcode = 0x03 then
        sim_bind (EXTRACT_WORD cpu (pc + 2)) (\<lambda>fn.
          map_sum id (\<lambda>cpu1. (cpu1, fn - 2)) (push_frame cpu (pc + 6)))
      else if opcode = 0x04 then
        sim_bind (rlat cpu (reg cpu 0)) (\<lambda>fp.
          sim_bind (rlat cpu (reg cpu 0 + 4)) (\<lambda>ret.
            Inr (set_reg 1 (reg cpu 0 + 4 + 4 + 4) (set_reg 0 fp cpu), ret - 2)))
      else if opcode = 0x05 then Inr (set_reg a (reg cpu a + reg cpu b) cpu, pc)
      else if opcode = 0x06 then
        map_sum id (\<lambda>cpu1. (set_reg a (reg cpu a - 4) cpu1, pc)) (wlat cpu (reg cpu a - 4) (reg cpu b))
      else if opcode = 0x07 then
        map_sum id (\<lambda>v. (set_reg a (reg cpu a + 4) (set_reg b v cpu), pc)) (rlat cpu (reg cpu a))
      else if opcode = 0x08 then
        sim_bind (EXTRACT_WORD cpu (pc + 2)) (\<lambda>addr.
          map_sum id (\<lambda>v. (set_reg a v cpu, pc + 4)) (rlat cpu addr))
      else if opcode = 0x09 then
        sim_bind (EXTRACT_WORD cpu (pc + 2)) (\<lambda>addr.
          map_sum id (\<lambda>cpu1. (cpu1, pc + 4)) (wlat cpu addr (reg cpu a)))
      else if opcode = 0x0a then map_sum id (\<lambda>v. (set_reg a v cpu, pc)) (rlat cpu (reg cpu b))
      else if opcode = 0x0b then map_sum id (\<lambda>cpu1. (cpu1, pc)) (wlat cpu (reg cpu a) (reg cpu b))
      else if opcode = 0x0c then
        sim_bind (EXTRACT_OFFSET cpu (pc + 2)) (\<lambda>off.
          map_sum id (\<lambda>v. (set_reg a v cpu, pc + 2)) (rlat cpu (off + reg cpu b)))
      else if opcode = 0x0d then
        sim_bind (EXTRACT_OFFSET cpu (pc + 2)) (\<lambda>off.
          map_sum id (\<lambda>cpu1. (cpu1, pc + 2)) (wlat cpu (off + reg cpu a) (reg cpu b)))
      else if opcode = 0x0e then Inr (cpu\<lparr>cc := moxie_cmp (reg cpu a) (reg cpu b)\<rparr>, pc)
      else if opcode = 0x0f then Inr (cpu, pc)
      else sigill)"

text \<open>Extensions and the upper half of products; the operands of \<^verbatim>\<open>mul.x\<close> are \<^verbatim>\<open>unsigned\<close> as well.\<close>

definition form1_extend :: "nat \<Rightarrow> uint32 \<Rightarrow> uint32 \<Rightarrow> uint32" where
  "form1_extend opcode av bv =
     (if opcode = 0x10 then scast (ucast bv :: uint8)
      else if opcode = 0x11 then scast (ucast bv :: uint16)
      else if opcode = 0x12 then scast (ucast bv :: uint8) AND 0xff
      else if opcode = 0x13 then scast (ucast bv :: uint16) AND 0xffff
      else if opcode = 0x14 then ucast (drop_bit 32 (ucast av * ucast bv :: uint64))
      else ucast (signed_drop_bit 32 (ucast av * ucast bv :: uint64)))"

definition form1_jump :: "moxie \<Rightarrow> uint16 \<Rightarrow> uint32 \<Rightarrow> nat \<Rightarrow> (moxie \<times> uint32) sim" where
  "form1_jump cpu inst pc opcode =
     (if opcode = 0x19
      then map_sum id (\<lambda>cpu1. (cpu1, reg cpu (field_a inst) - 2)) (push_frame cpu (pc + 2))
      else map_sum id (\<lambda>tgt. (cpu, tgt - 2)) (EXTRACT_WORD cpu (pc + 2)))"

text \<open>The byte and short loads and stores: immediate, register indirect, absolute.\<close>

definition form1_narrow :: "moxie \<Rightarrow> uint16 \<Rightarrow> uint32 \<Rightarrow> nat \<Rightarrow> (moxie \<times> uint32) sim" where
  "form1_narrow cpu inst pc opcode =
     (let a = field_a inst; b = field_b inst in
      if opcode = 0x1b \<or> opcode = 0x20
      then map_sum id (\<lambda>val. (set_reg a val cpu, pc + 4)) (EXTRACT_WORD cpu (pc + 2))
      else if opcode = 0x1c then map_sum id (\<lambda>v. (set_reg a v cpu, pc)) (rbat cpu (reg cpu b))
      else if opcode = 0x1d then
        sim_bind (EXTRACT_WORD cpu (pc + 2)) (\<lambda>addr.
          map_sum id (\<lambda>v. (set_reg a v cpu, pc + 4)) (rbat cpu addr))
      else if opcode = 0x1e then map_sum id (\<lambda>cpu1. (cpu1, pc)) (wbat cpu (reg cpu a) (reg cpu b))
      else if opcode = 0x1f then
        sim_bind (EXTRACT_WORD cpu (pc + 2)) (\<lambda>addr.
          map_sum id (\<lambda>cpu1. (cpu1, pc + 4)) (wbat cpu addr (reg cpu a)))
      else if opcode = 0x21 then map_sum id (\<lambda>v. (set_reg a v cpu, pc)) (rsat cpu (reg cpu b))
      else if opcode = 0x22 then
        sim_bind (EXTRACT_WORD cpu (pc + 2)) (\<lambda>addr.
          map_sum id (\<lambda>v. (set_reg a v cpu, pc + 4)) (rsat cpu addr))
      else if opcode = 0x23 then map_sum id (\<lambda>cpu1. (cpu1, pc)) (wsat cpu (reg cpu a) (reg cpu b))
      else
        sim_bind (EXTRACT_WORD cpu (pc + 2)) (\<lambda>addr.
          map_sum id (\<lambda>cpu1. (cpu1, pc + 4)) (wsat cpu addr (reg cpu a))))"

definition shift_ok :: "uint32 \<Rightarrow> bool" where
  "shift_ok bv \<longleftrightarrow> 0 \<le> sint bv \<and> sint bv < 32"

definition form1_alu :: "nat \<Rightarrow> uint32 \<Rightarrow> uint32 \<Rightarrow> uint32 sim" where
  "form1_alu opcode av bv =
     (if opcode = 0x26 then Inr (av AND bv)
      else if opcode = 0x27 then (if shift_ok bv then Inr (drop_bit (unat bv) av) else Inl C_undefined)
      else if opcode = 0x28 then (if shift_ok bv then Inr (push_bit (unat bv) av) else Inl C_undefined)
      else if opcode = 0x29 then Inr (av - bv)
      else if opcode = 0x2a then Inr (- bv)
      else if opcode = 0x2b then Inr (av OR bv)
      else if opcode = 0x2c then Inr (0xffffffff XOR bv)
      else if opcode = 0x2d then (if shift_ok bv then Inr (signed_drop_bit (unat bv) av) else Inl C_undefined)
      else if opcode = 0x2e then Inr (av XOR bv)
      else Inr (av * bv))"

text \<open>C's signed division truncates towards zero.\<close>

definition form1_divide :: "nat \<Rightarrow> uint32 \<Rightarrow> uint32 \<Rightarrow> uint32 sim" where
  "form1_divide opcode av bv =
     (if bv = 0 then Inl C_undefined
      else if (opcode = 0x31 \<or> opcode = 0x33) \<and> sint av = - (2 ^ 31) \<and> sint bv = -1 then Inl C_undefined
      else if opcode = 0x31 then Inr (of_int (sgn (sint av) * sgn (sint bv) * (\<bar>sint av\<bar> div \<bar>sint bv\<bar>)))
      else if opcode = 0x32 then Inr (av div bv)
      else if opcode = 0x33 then Inr (of_int (sgn (sint av) * (\<bar>sint av\<bar> mod \<bar>sint bv\<bar>)))
      else Inr (av mod bv))"

subsection \<open>System calls\<close>

text \<open>\<^verbatim>\<open>CHECK_FLAG\<close> on the pair of target flags left and host flags so far; the host is Linux.\<close>

definition CHECK_FLAG :: "uint32 \<Rightarrow> uint32 \<Rightarrow> uint32 \<times> uint32 \<Rightarrow> uint32 \<times> uint32" where
  "CHECK_FLAG t h = (\<lambda>(tflags, hflags).
     if tflags AND t \<noteq> 0 then (tflags XOR t, hflags OR h) else (tflags, hflags))"

definition convert_target_flags :: "uint32 \<Rightarrow> uint32" where
  "convert_target_flags tflags =
     snd (CHECK_FLAG 0x2000 0x101000 (CHECK_FLAG 0x0800 0x80 (CHECK_FLAG 0x0400 0x200
         (CHECK_FLAG 0x0200 0x40 (CHECK_FLAG 0x0008 0x400 (CHECK_FLAG 0x0002 2
         (CHECK_FLAG 0x0001 1 (tflags, 0))))))))"

definition ask :: "sys_host \<Rightarrow> sys_request \<Rightarrow> moxie \<Rightarrow> moxie \<times> uint8 list" where
  "ask host rq cpu =
     (let (r, bytes) = host (requests cpu) rq
      in (set_reg 2 r (cpu\<lparr>requests := requests cpu @ [rq]\<rparr>), bytes))"

text \<open>
  The buffers are what could be read of the requested length; for a read the whole buffer of \<open>len\<close>
  bytes, of which the host supplies all, is written back.
\<close>

definition exec_swi :: "sys_host \<Rightarrow> moxie \<Rightarrow> uint32 \<Rightarrow> (moxie \<times> uint32) sim" where
  "exec_swi host cpu0 pc =
     sim_bind (EXTRACT_WORD cpu0 (pc + 2)) (\<lambda>inum.
       let cpu = set_sreg 3 inum (set_sreg 2 3 cpu0) in
       if inum = 1 then Inl (Exited (sint (reg cpu 2)))
       else if inum = 2 then
         map_sum id (\<lambda>fname. (fst (ask host (Sys_open fname (convert_target_flags (reg cpu 3))) cpu), pc + 4))
           (sim_core_read_buffer (core cpu) read_map (reg cpu 2) 1024)
       else if inum = 4 then
         (let (cpu1, buf) = ask host (Sys_read (reg cpu 2) (unat (reg cpu 4))) cpu
          in map_sum id (\<lambda>(c, _). (cpu1\<lparr>core := c\<rparr>, pc + 4))
               (sim_core_write_buffer (core cpu1) write_map (take (unat (reg cpu 4)) buf) (reg cpu1 3)))
       else if inum = 5 then
         map_sum id (\<lambda>str. (fst (ask host (Sys_write (reg cpu 2) str) cpu), pc + 4))
           (sim_core_read_buffer (core cpu) read_map (reg cpu 3) (unat (reg cpu 4)))
       else if inum = 7 then
         map_sum id (\<lambda>fname. (fst (ask host (Sys_unlink fname) cpu), pc + 4))
           (sim_core_read_buffer (core cpu) read_map (reg cpu 2) 1024)
       else if inum = 0xffffffff then
         map_sum id (\<lambda>cpu1. (cpu1, sregs cpu ! 1 - 6 + 4)) (push_frame cpu (pc + 6))
       else Inr (cpu, pc + 4))"

subsection \<open>Dispatch and the main loop\<close>

definition form1_offset :: "moxie \<Rightarrow> uint16 \<Rightarrow> uint32 \<Rightarrow> nat \<Rightarrow> (moxie \<times> uint32) sim" where
  "form1_offset cpu inst pc opcode =
     (let a = field_a inst; b = field_b inst in
      sim_bind (EXTRACT_OFFSET cpu (pc + 2)) (\<lambda>off.
        if opcode = 0x36 then map_sum id (\<lambda>v. (set_reg a v cpu, pc + 2)) (rbat cpu (off + reg cpu b))
        else if opcode = 0x37 then map_sum id (\<lambda>cpu1. (cpu1, pc + 2)) (wbat cpu (off + reg cpu a) (reg cpu b))
        else if opcode = 0x38 then map_sum id (\<lambda>v. (set_reg a v cpu, pc + 2)) (rsat cpu (off + reg cpu b))
        else map_sum id (\<lambda>cpu1. (cpu1, pc + 2)) (wsat cpu (off + reg cpu a) (reg cpu b))))"

definition form1 :: "sys_host \<Rightarrow> moxie \<Rightarrow> uint16 \<Rightarrow> uint32 \<Rightarrow> (moxie \<times> uint32) sim" where
  "form1 host cpu inst pc =
     (let opcode = unat (drop_bit 8 inst);
          a = field_a inst; av = reg cpu a; bv = reg cpu (field_b inst)
      in if opcode = 0 then sigill
         else if opcode \<le> 0x0f then form1_basic cpu inst pc opcode
         else if opcode \<le> 0x15 then Inr (set_reg a (form1_extend opcode av bv) cpu, pc)
         else if opcode \<le> 0x18 then sigill
         else if opcode \<le> 0x1a then form1_jump cpu inst pc opcode
         else if opcode \<le> 0x24 then form1_narrow cpu inst pc opcode
         else if opcode = 0x25 then Inr (cpu, reg cpu a - 2)
         else if opcode \<le> 0x2f then map_sum id (\<lambda>v. (set_reg a v cpu, pc)) (form1_alu opcode av bv)
         else if opcode = 0x30 then exec_swi host cpu pc
         else if opcode \<le> 0x34 then map_sum id (\<lambda>v. (set_reg a v cpu, pc)) (form1_divide opcode av bv)
         else if opcode = 0x35 then Inl (Stopped SIM_SIGTRAP)
         else if opcode \<le> 0x39 then form1_offset cpu inst pc opcode
         else sigill)"

definition fetch :: "moxie \<Rightarrow> uint32 \<Rightarrow> uint16 sim" where
  "fetch cpu pc =
     sim_bind (rbat cpu pc) (\<lambda>hi. sim_bind (rbat cpu (pc + 1)) (\<lambda>lo. Inr (ucast (push_bit 8 hi + lo))))"

definition execute :: "sys_host \<Rightarrow> moxie \<Rightarrow> uint16 \<Rightarrow> uint32 \<Rightarrow> (moxie \<times> uint32) sim" where
  "execute host cpu inst pc =
     (if inst AND push_bit 15 1 \<noteq> 0
      then (if inst AND push_bit 14 1 \<noteq> 0 then form3 cpu inst pc else form2 cpu inst pc)
      else form1 host cpu inst pc)"

text \<open>One iteration of \<^verbatim>\<open>sim_engine_run\<close>; its local \<^verbatim>\<open>pc\<close> is the register of the last iteration.\<close>

definition step :: "sys_host \<Rightarrow> moxie \<Rightarrow> moxie sim" where
  "step host cpu =
     (let pc = reg cpu PC_REGNO in
      sim_bind (fetch cpu pc) (\<lambda>inst.
        map_sum id (\<lambda>(cpu1, pc1). set_reg PC_REGNO (pc1 + 2) (cpu1\<lparr>insts := insts cpu1 + 1\<rparr>))
          (execute host cpu inst pc)))"

fun sim_engine_run :: "sys_host \<Rightarrow> nat \<Rightarrow> moxie \<Rightarrow> moxie sim" where
  "sim_engine_run host 0 cpu = Inr cpu"
| "sim_engine_run host (Suc n) cpu = sim_bind (step host cpu) (sim_engine_run host n)"

subsection \<open>Program start\<close>

text \<open>The loop over the arguments; a string is its bytes without the final zero.\<close>

fun argv_loop :: "moxie \<Rightarrow> nat \<Rightarrow> uint32 \<Rightarrow> uint8 list list \<Rightarrow> moxie sim" where
  "argv_loop cpu i tp [] = wlat cpu (4 + 4 + of_nat i * 4) 0"
| "argv_loop cpu i tp (s # ss) =
     sim_bind (wlat cpu (4 + 4 + of_nat i * 4) tp) (\<lambda>cpu1.
     sim_bind (sim_core_write_buffer (core cpu1) write_map (s @ [0]) tp) (\<lambda>(c, _).
       argv_loop (cpu1\<lparr>core := c\<rparr>) (Suc i) (tp + of_nat (length s + 1)) ss))"

definition load_dtb :: "moxie \<Rightarrow> uint8 list option \<Rightarrow> moxie sim" where
  "load_dtb cpu file =
     (case file of
        None \<Rightarrow> Inr cpu
      | Some buf \<Rightarrow>
          map_sum id (\<lambda>(c, _). set_sreg 9 0xE0000000 (cpu\<lparr>core := c\<rparr>))
            (sim_core_write_buffer (core cpu) write_map buf 0xE0000000))"

definition sim_create_inferior :: "moxie \<Rightarrow> uint32 option \<Rightarrow> uint8 list list \<Rightarrow> uint8 list option \<Rightarrow> moxie sim" where
  "sim_create_inferior cpu start argv dtb =
     (let cpu0 = (case start of Some p \<Rightarrow> set_reg PC_REGNO p cpu | None \<Rightarrow> cpu);
          argc = length argv
      in sim_bind (wlat cpu0 0 0) (\<lambda>cpu1.
         sim_bind (wlat cpu1 4 (of_nat argc)) (\<lambda>cpu2.
         sim_bind (argv_loop cpu2 0 (of_nat (4 + 4 + argc * 4 + 4)) argv) (\<lambda>cpu3.
           load_dtb cpu3 dtb))))"

subsection \<open>Registers and memory\<close>

lemma reg_set_reg [simp]:
  "n < length (regs cpu) \<Longrightarrow> reg (set_reg n v cpu) n = v"
  "m \<noteq> n \<Longrightarrow> reg (set_reg n v cpu) m = reg cpu m"
  "reg (cpu\<lparr>core := c\<rparr>) n = reg cpu n" "reg (cpu\<lparr>insts := i\<rparr>) n = reg cpu n"
  "reg (cpu\<lparr>cc := f\<rparr>) n = reg cpu n"
  by (simp_all add: reg_def set_reg_def)

lemma set_reg_fields [simp]:
  "core (set_reg n v cpu) = core cpu" "length (regs (set_reg n v cpu)) = length (regs cpu)"
  "insts (set_reg n v cpu) = insts cpu" "cc (set_reg n v cpu) = cc cpu" "sregs (set_reg n v cpu) = sregs cpu"
  "requests (set_reg n v cpu) = requests cpu"
  by (simp_all add: set_reg_def)

lemma rat_core: "core cpu = core cpu' \<Longrightarrow> rat n cpu x = rat n cpu' x"
  by (simp add: rat_def)

lemma maps_ordered [simp]: "read_map \<le> exec_map" "write_map \<le> exec_map"
  by (simp_all add: read_map_def write_map_def exec_map_def)

text \<open>Two words pushed at disjoint places are read back: the law of the interface, for words.\<close>

lemma two_words:
  assumes "access_ok (core cpu) a 4" "access_ok (core cpu) b 4"
    and "unat a + 4 \<le> unat b \<or> unat b + 4 \<le> unat a"
  shows "\<exists>c1 c2. wlat cpu a v = Inr (cpu\<lparr>core := c1\<rparr>) \<and>
    wlat (cpu\<lparr>core := c1\<rparr>) b w = Inr (cpu\<lparr>core := c2\<rparr>) \<and>
    (\<forall>cpu'. core cpu' = c2 \<longrightarrow> rlat cpu' a = Inr v \<and> rlat cpu' b = Inr w)"
proof -
  obtain m1 m2 where m: "sim_core_write_aligned (core cpu) write_map 4 a (unat v) = Inr m1"
    "sim_core_write_aligned m1 write_map 4 b (unat w) = Inr m2"
    "sim_core_read_aligned m2 read_map 4 a = Inr (unat v mod 256 ^ 4)"
    "sim_core_read_aligned m2 read_map 4 b = Inr (unat w mod 256 ^ 4)"
    using sim_memory.two_writes [OF assms(1-3), of write_map read_map "unat v" "unat w"] by auto
  have "unat v mod 256 ^ 4 = unat v" "unat w mod 256 ^ 4 = unat w"
    using unat_bound [of v] unat_bound [of w] by simp_all
  then show ?thesis
    using m by (intro exI [of _ m1] exI [of _ m2]) (simp add: wlat_def wat_def rlat_def rat_def)
qed

lemma push_frame_ok:
  assumes "access_ok (core cpu) (reg cpu 1 - 8) 4" "access_ok (core cpu) (reg cpu 1 - 12) 4"
    and "12 \<le> unat (reg cpu 1)" "length (regs cpu) = 18"
  shows "\<exists>cpu1. push_frame cpu ra = Inr cpu1 \<and> reg cpu1 0 = reg cpu 1 - 12 \<and> reg cpu1 1 = reg cpu 1 - 12 \<and>
    (\<forall>r. r \<noteq> 0 \<longrightarrow> r \<noteq> 1 \<longrightarrow> reg cpu1 r = reg cpu r) \<and> length (regs cpu1) = 18 \<and>
    (\<forall>cpu'. core cpu' = core cpu1 \<longrightarrow>
       rlat cpu' (reg cpu 1 - 12) = Inr (reg cpu 0) \<and> rlat cpu' (reg cpu 1 - 8) = Inr ra)"
proof -
  let ?sp = "reg cpu 1"
  have u: "unat (?sp - 8) = unat ?sp - 8" "unat (?sp - 12) = unat ?sp - 12"
    using assms(3) by (simp_all add: unat_sub word_le_nat_alt)
  have dis: "unat (?sp - 8) + 4 \<le> unat (?sp - 12) \<or> unat (?sp - 12) + 4 \<le> unat (?sp - 8)"
    unfolding u using assms(3) by arith
  obtain c1 c2 where c: "wlat cpu (?sp - 8) ra = Inr (cpu\<lparr>core := c1\<rparr>)"
    "wlat (cpu\<lparr>core := c1\<rparr>) (?sp - 12) (reg cpu 0) = Inr (cpu\<lparr>core := c2\<rparr>)"
    "\<forall>cpu'. core cpu' = c2 \<longrightarrow> rlat cpu' (?sp - 8) = Inr ra \<and> rlat cpu' (?sp - 12) = Inr (reg cpu 0)"
    using two_words [OF assms(1,2) dis, of ra "reg cpu 0"] by blast
  show ?thesis
    using c assms(4) by (simp add: push_frame_def Let_def diff_diff_eq)
qed

text \<open>A step on a known instruction of form 1.\<close>

lemma step_form1:
  assumes "fetch cpu (reg cpu PC_REGNO) = Inr inst" "inst < 0x8000"
  shows "step host cpu = map_sum id (\<lambda>(cpu1, pc1). set_reg PC_REGNO (pc1 + 2) (cpu1\<lparr>insts := insts cpu1 + 1\<rparr>))
    (form1 host cpu inst (reg cpu PC_REGNO))"
proof -
  have "\<not> bit inst 15"
  proof
    assume "bit inst 15"
    then have "bit (unat inst) 15" by (simp only: bit_unsigned_iff) simp
    then have "odd (unat inst div 2 ^ 15)" unfolding bit_iff_odd .
    moreover have "unat inst < 2 ^ 15" using assms(2) by (simp add: word_less_nat_alt)
    then have "unat inst div 2 ^ 15 = 0" by (rule div_less)
    ultimately show False by (metis even_zero)
  qed
  then have "inst AND push_bit 15 1 = 0"
    using and_exp_eq_0_iff_not_bit [of inst 15] by simp
  then show ?thesis using assms(1) by (simp add: step_def execute_def)
qed

lemma jsra_step:
  assumes "fetch cpu (reg cpu PC_REGNO) = Inr 0x0300"
    and "EXTRACT_WORD cpu (reg cpu PC_REGNO + 2) = Inr fn" "push_frame cpu (reg cpu PC_REGNO + 6) = Inr cpu1"
  shows "step host cpu = Inr (set_reg PC_REGNO fn (cpu1\<lparr>insts := insts cpu1 + 1\<rparr>))"
proof -
  have "unat (drop_bit 8 (0x300 :: uint16)) = 3" by (simp add: drop_bit_eq_div)
  then show ?thesis
    using step_form1 [OF assms(1)] assms(2,3) by (simp add: form1_def form1_basic_def Let_def)
qed

lemma ret_step:
  assumes "fetch cpu (reg cpu PC_REGNO) = Inr 0x0400"
    and "rlat cpu (reg cpu 0) = Inr fp" "rlat cpu (reg cpu 0 + 4) = Inr ra"
  shows "step host cpu = Inr (set_reg PC_REGNO ra
    ((set_reg 1 (reg cpu 0 + 12) (set_reg 0 fp cpu))\<lparr>insts := insts cpu + 1\<rparr>))"
proof -
  have "unat (drop_bit 8 (0x400 :: uint16)) = 4" by (simp add: drop_bit_eq_div)
  then show ?thesis
    using step_form1 [OF assms(1)] assms(2,3) by (simp add: form1_def form1_basic_def Let_def add.assoc)
qed

lemma engine_run_add: "sim_engine_run host (m + n) cpu = sim_bind (sim_engine_run host m cpu) (sim_engine_run host n)"
proof (induction m arbitrary: cpu)
  case (Suc m)
  then show ?case by (cases "step host cpu") simp_all
qed simp


subsection \<open>The arguments of a program\<close>

lemma ram_wlat:
  assumes "ram sz (core cpu)" "unat a mod 4 = 0" "unat a + 4 \<le> sz"
  shows "\<exists>c. wlat cpu a v = Inr (cpu\<lparr>core := c\<rparr>) \<and> ram sz c \<and> big_endian c = big_endian (core cpu) \<and>
    ram_data c = overwrite (ram_data (core cpu)) (unat a) (host_to_target (big_endian (core cpu)) 4 (unat v))"
  using ram_write [OF assms(1) _ assms(2,3), of write_map "unat v"] by (auto simp: wlat_def wat_def)

text \<open>The word and the bytes at an address of a byte function.\<close>

definition word_at :: "bool \<Rightarrow> (nat \<Rightarrow> uint8) \<Rightarrow> nat \<Rightarrow> nat" where
  "word_at big f a = target_to_host big (map f [a..<a + 4])"

lemma word_at_cong: "(\<And>k. a \<le> k \<Longrightarrow> k < a + 4 \<Longrightarrow> f k = g k) \<Longrightarrow> word_at big f a = word_at big g a"
  unfolding word_at_def by (rule arg_cong [of _ _ "target_to_host big"]) simp

lemma word_at_overwrite: "word_at big (overwrite f a (host_to_target big 4 v)) a = v mod 256 ^ 4"
  using overwrite_same [of f a "host_to_target big 4 v"] by (simp add: word_at_def target_round_trip)

text \<open>The length of the strings with their zeros, and where string \<open>j\<close> starts.\<close>

definition total :: "uint8 list list \<Rightarrow> nat" where
  "total ss = sum_list (map (\<lambda>s. length s + 1) ss)"

lemma total_simps [simp]: "total [] = 0" "total (s # ss) = length s + 1 + total ss"
  by (simp_all add: total_def)

lemma overwrite_outside: "k < off \<or> off + length bs \<le> k \<Longrightarrow> overwrite f off bs k = f k"
  by (auto simp: overwrite_def)

lemma argv_loop_ok:
  assumes "ram sz (core cpu)" "8 + 4 * (i + length ss) + 4 \<le> tp" "tp + total ss \<le> sz"
  shows "\<exists>c. argv_loop cpu i (of_nat tp) ss = Inr (cpu\<lparr>core := c\<rparr>) \<and> ram sz c \<and>
    big_endian c = big_endian (core cpu) \<and>
    (\<forall>k. k < 8 + 4 * i \<or> tp + total ss \<le> k \<or> (8 + 4 * (i + length ss) + 4 \<le> k \<and> k < tp) \<longrightarrow>
       ram_data c k = ram_data (core cpu) k) \<and>
    word_at (big_endian c) (ram_data c) (8 + 4 * (i + length ss)) = 0 \<and>
    (\<forall>j < length ss.
       word_at (big_endian c) (ram_data c) (8 + 4 * (i + j)) = tp + total (take j ss) \<and>
       map (ram_data c) [tp + total (take j ss)..<tp + total (take j ss) + length (ss ! j) + 1] = ss ! j @ [0])"
  using assms
proof (induction ss arbitrary: cpu i tp)
  case Nil
  have sz: "sz < 2 ^ 32" using Nil.prems(1) by (simp add: ram_def)
  have a: "unat (4 + 4 + of_nat i * 4 :: 32 word) = 8 + 4 * i"
    using Nil.prems(2,3) sz by (simp add: unat_word_ariths unat_of_nat)
  obtain c where "wlat cpu (4 + 4 + of_nat i * 4) 0 = Inr (cpu\<lparr>core := c\<rparr>)" "ram sz c"
    "big_endian c = big_endian (core cpu)"
    "ram_data c = overwrite (ram_data (core cpu)) (8 + 4 * i) (host_to_target (big_endian (core cpu)) 4 0)"
    using ram_wlat [OF Nil.prems(1), of "4 + 4 + of_nat i * 4" 0] Nil.prems(2,3) a by auto
  then show ?case using Nil.prems(2)
    by (intro exI [of _ c]) (auto simp: overwrite_outside word_at_overwrite)
next
  case (Cons s ss)
  have sz: "sz < 2 ^ 32" using Cons.prems(1) by (simp add: ram_def)
  have a: "unat (4 + 4 + of_nat i * 4 :: 32 word) = 8 + 4 * i" and t: "unat (of_nat tp :: 32 word) = tp"
    using Cons.prems(2,3) sz by (simp_all add: unat_word_ariths unat_of_nat)
  obtain c1 where c1: "wlat cpu (4 + 4 + of_nat i * 4) (of_nat tp) = Inr (cpu\<lparr>core := c1\<rparr>)" "ram sz c1"
    "big_endian c1 = big_endian (core cpu)"
    "ram_data c1 = overwrite (ram_data (core cpu)) (8 + 4 * i) (host_to_target (big_endian (core cpu)) 4 tp)"
    using ram_wlat [OF Cons.prems(1), of "4 + 4 + of_nat i * 4" "of_nat tp"] Cons.prems(2,3) a t by auto
  obtain c2 where c2: "sim_core_write_buffer c1 write_map (s @ [0]) (of_nat tp) =
      Inr (c2, min (length (s @ [0])) (sz - tp))" "ram sz c2"
    "ram_data c2 = overwrite (ram_data c1) tp (take (sz - tp) (s @ [0]))"
    "big_endian c2 = big_endian c1"
    using ram_write_buffer [OF c1(2), of write_map "s @ [0]" "of_nat tp"] t by auto
  have fits: "take (sz - tp) (s @ [0]) = s @ [0]" using Cons.prems(3) by simp
  let ?tp = "tp + length s + 1"
  obtain c where c: "argv_loop (cpu\<lparr>core := c2\<rparr>) (Suc i) (of_nat ?tp) ss = Inr (cpu\<lparr>core := c2\<rparr>\<lparr>core := c\<rparr>)"
    "ram sz c" "big_endian c = big_endian c2"
    "\<forall>k. k < 8 + 4 * Suc i \<or> ?tp + total ss \<le> k \<or> (8 + 4 * (Suc i + length ss) + 4 \<le> k \<and> k < ?tp) \<longrightarrow>
       ram_data c k = ram_data c2 k"
    "word_at (big_endian c) (ram_data c) (8 + 4 * (Suc i + length ss)) = 0"
    "\<forall>j < length ss. word_at (big_endian c) (ram_data c) (8 + 4 * (Suc i + j)) = ?tp + total (take j ss) \<and>
       map (ram_data c) [?tp + total (take j ss)..<?tp + total (take j ss) + length (ss ! j) + 1] = ss ! j @ [0]"
    using Cons.IH [of "cpu\<lparr>core := c2\<rparr>" "Suc i" ?tp] c2(2) Cons.prems(2,3) by auto
  have loop: "argv_loop cpu i (of_nat tp) (s # ss) = Inr (cpu\<lparr>core := c\<rparr>)"
    using c(1) c1(1) c2(1) by (simp add: ac_simps)
  have word: "word_at (big_endian c) (ram_data c) (8 + 4 * i) = tp"
  proof -
    have "word_at (big_endian c) (ram_data c) (8 + 4 * i) = word_at (big_endian c) (ram_data c1) (8 + 4 * i)"
      by (rule word_at_cong) (use c(4) c2(3) fits Cons.prems(2) in \<open>simp add: overwrite_outside\<close>)
    also have "\<dots> = tp mod 256 ^ 4" unfolding c1(4) c(3) c2(4) c1(3) by (rule word_at_overwrite)
    finally show ?thesis using Cons.prems(3) sz by simp
  qed
  have str: "map (ram_data c) [tp..<tp + length s + 1] = s @ [0]"
  proof -
    have "map (ram_data c) [tp..<tp + length s + 1] = map (ram_data c2) [tp..<tp + length (s @ [0])]"
      using c(4) Cons.prems(2) by simp
    then show ?thesis unfolding c2(3) fits by (simp only: overwrite_same)
  qed
  have keep: "ram_data c k = ram_data (core cpu) k"
    if "k < 8 + 4 * i \<or> tp + total (s # ss) \<le> k \<or> (8 + 4 * (i + length (s # ss)) + 4 \<le> k \<and> k < tp)" for k
  proof -
    have "ram_data c k = ram_data c2 k" using c(4) that by auto
    also have "\<dots> = ram_data c1 k" unfolding c2(3) fits
      by (rule overwrite_outside) (use that Cons.prems(2) in auto)
    also have "\<dots> = ram_data (core cpu) k" unfolding c1(4)
      by (rule overwrite_outside) (use that Cons.prems(2) in auto)
    finally show ?thesis .
  qed
  have table: "word_at (big_endian c) (ram_data c) (8 + 4 * (i + j)) = tp + total (take j (s # ss)) \<and>
      map (ram_data c) [tp + total (take j (s # ss))..<tp + total (take j (s # ss)) + length ((s # ss) ! j) + 1] =
        (s # ss) ! j @ [0]" if "j < length (s # ss)" for j
  proof (cases j)
    case 0
    then show ?thesis using word str by simp
  next
    case (Suc l)
    then show ?thesis using c(6) that by (simp add: add.assoc)
  qed
  show ?case
    using loop c(2,3,5) c2(4) c1(3) keep table
    by (intro exI [of _ c] conjI allI impI) (simp_all del: argv_loop.simps)
qed

subsection \<open>Byte orders of the debugger's buffers\<close>

lemma store_loop_bytes: "store_loop n v bs = rev (le_bytes n (unat v)) @ bs"
proof (induction n arbitrary: v bs)
  case (Suc n)
  have "v AND 0xff = take_bit 8 v" by (simp add: take_bit_eq_mask mask_eq_exp_minus_1)
  then have "ucast (v AND 0xff) = (of_nat (unat v) :: uint8)"
    by (intro bit_word_eqI) (auto simp: bit_simps)
  moreover have "unat (drop_bit 8 v) = unat v div 256" by (simp add: drop_bit_eq_div unat_div)
  ultimately show ?case by (simp add: Suc)
qed simp

lemma extract_value:
  "length bs \<le> 8 \<Longrightarrow> moxie_extract_unsigned_integer bs = of_nat (le_value bs)"
proof (induction bs)
  case (Cons b bs)
  have "push_bit 8 w OR ucast b = ucast b + push_bit 8 w" for w :: uint64
    by (subst disjunctive_add) (auto simp: bit_simps ac_simps dest: bit_imp_le_length)
  then show ?case
    using Cons by (simp add: moxie_extract_unsigned_integer_def push_bit_eq_mult mult.commute)
qed (simp add: moxie_extract_unsigned_integer_def)

lemma narrow_of_nat: "(ucast (of_nat k :: uint64) :: uint32) = of_nat k"
  by (rule bit_word_eqI) (simp add: bit_simps)

lemma fetch_store_bytes:
  assumes "rn < 17" "length bs = 4"
  shows "moxie_reg_fetch cpu rn bs = (rev (le_bytes 4 (unat (reg cpu rn))), 4)"
    and "length bs' = 4 \<Longrightarrow> moxie_reg_store cpu rn bs' = (set_reg rn (of_nat (le_value bs')) cpu, 4)"
proof -
  have low: "le_bytes 4 (unat (scast x :: uint64)) = le_bytes 4 (unat (x :: uint32))" for x
  proof -
    have "unat (scast x :: uint64) mod 2 ^ 32 = unat x"
    proof -
      have "take_bit 32 (scast x :: uint64) = ucast x"
      proof (rule bit_word_eqI)
        fix n assume "n < LENGTH(64)"
        moreover have "n < 32 \<Longrightarrow> min 31 n = n" by simp
        ultimately show "bit (take_bit 32 (scast x :: uint64)) n = bit (ucast x :: uint64) n"
          using bit_imp_le_length [of x n] by (auto simp: bit_simps)
      qed
      then have "unat (take_bit 32 (scast x :: uint64)) = unat (ucast x :: uint64)" by (rule arg_cong)
      moreover have "unat (take_bit 32 (scast x :: uint64)) = take_bit 32 (unat (scast x :: uint64))"
        by (rule unsigned_take_bit_eq)
      moreover have "unat (ucast x :: uint64) = unat x"
        using unat_bound [of x] by (simp add: unsigned_ucast_eq take_bit_nat_eq_self_iff)
      ultimately show ?thesis by (simp only: take_bit_eq_mod)
    qed
    moreover have cut: "le_bytes n (v mod 256 ^ n) = le_bytes n v" for n v
    proof (induction n arbitrary: v)
      case (Suc n)
      have "v mod (256 * 256 ^ n) div 256 = v div 256 mod 256 ^ n"
        by (simp add: mod_mult2_eq)
      moreover have "(of_nat (v mod (256 * 256 ^ n)) :: uint8) = of_nat v"
        by (rule word_unat_eq_iff [THEN iffD2]) (simp add: unat_of_nat mod_mod_cancel)
      ultimately show ?case using Suc.IH [of "v div 256"] by simp
    qed simp
    from cut [of 4 "unat (scast x :: uint64)"] have
      "le_bytes 4 (unat (scast x :: uint64) mod 2 ^ 32) = le_bytes 4 (unat (scast x :: uint64))" by simp
    ultimately show ?thesis by simp
  qed
  show "moxie_reg_fetch cpu rn bs = (rev (le_bytes 4 (unat (reg cpu rn))), 4)"
    using assms by (simp add: moxie_reg_fetch_def NUM_MOXIE_REGS_def moxie_store_unsigned_integer_def
        store_loop_bytes low)
  show "length bs' = 4 \<Longrightarrow> moxie_reg_store cpu rn bs' = (set_reg rn (of_nat (le_value bs')) cpu, 4)"
    using assms(1) by (simp add: moxie_reg_store_def NUM_MOXIE_REGS_def extract_value narrow_of_nat)
qed

lemma ram_rbat:
  assumes "ram sz (core cpu)" "unat a < sz"
  shows "rbat cpu a = Inr (ucast (ram_data (core cpu) (unat a)))"
  using ram_read [OF assms(1), of 1 a read_map] assms(2)
  by (simp add: rbat_def rat_def target_to_host_def)

subsection \<open>Properties\<close>

text \<open>C32: jsra, jsr and the Linux system call save a frame that ret undoes: after a jsra and any run
  that ends at a ret with the frame pointer and the two saved words as the jsra left them, the ret
  continues after the jsra with the frame and stack pointers the caller had, and the other registers
  as the run left them.\<close>

theorem moxie_call_ret:
  assumes "length (regs cpu) = 18" "12 \<le> unat (reg cpu 1)"
    and "access_ok (core cpu) (reg cpu 1 - 8) 4" "access_ok (core cpu) (reg cpu 1 - 12) 4"
    and "fetch cpu (reg cpu PC_REGNO) = Inr 0x0300" "EXTRACT_WORD cpu (reg cpu PC_REGNO + 2) = Inr fn"
    and "sim_engine_run host 1 cpu = Inr cpu1" "sim_engine_run host n cpu1 = Inr cpu2"
    and "reg cpu2 0 = reg cpu1 0" "length (regs cpu2) = 18"
    and "rlat cpu2 (reg cpu 1 - 12) = rlat cpu1 (reg cpu 1 - 12)" "rlat cpu2 (reg cpu 1 - 8) = rlat cpu1 (reg cpu 1 - 8)"
    and "fetch cpu2 (reg cpu2 PC_REGNO) = Inr 0x0400"
  shows "reg cpu1 PC_REGNO = fn \<and>
    (\<exists>cpu3. sim_engine_run host (1 + n + 1) cpu = Inr cpu3 \<and> reg cpu3 PC_REGNO = reg cpu PC_REGNO + 6 \<and>
       reg cpu3 0 = reg cpu 0 \<and> reg cpu3 1 = reg cpu 1 \<and> (\<forall>r \<in> {2..15}. reg cpu3 r = reg cpu2 r))"
proof -
  let ?sp = "reg cpu 1" and ?ra = "reg cpu PC_REGNO + 6"
  obtain c1 where c1: "push_frame cpu ?ra = Inr c1" "reg c1 0 = ?sp - 12" "length (regs c1) = 18"
    "\<forall>cpu'. core cpu' = core c1 \<longrightarrow> rlat cpu' (?sp - 12) = Inr (reg cpu 0) \<and> rlat cpu' (?sp - 8) = Inr ?ra"
    using push_frame_ok [OF assms(3,4,2,1), of ?ra] by blast
  have eq: "cpu1 = set_reg PC_REGNO fn (c1\<lparr>insts := insts c1 + 1\<rparr>)"
    using jsra_step [OF assms(5,6) c1(1), of host] assms(7) by simp
  have pc: "PC_REGNO = 16" by (simp add: PC_REGNO_def)
  have f1: "reg cpu1 PC_REGNO = fn" "reg cpu1 0 = ?sp - 12"
    using c1(2,3) by (simp_all add: eq pc)
  have "rlat cpu1 (?sp - 12) = Inr (reg cpu 0)" "rlat cpu1 (?sp - 8) = Inr ?ra"
    using c1(4) [rule_format, of cpu1] by (simp_all add: eq)
  then have slots: "rlat cpu2 (reg cpu2 0) = Inr (reg cpu 0)" "rlat cpu2 (reg cpu2 0 + 4) = Inr ?ra"
    using assms(9,11,12) f1(2) by simp_all
  let ?c3 = "set_reg PC_REGNO ?ra ((set_reg 1 (reg cpu2 0 + 12) (set_reg 0 (reg cpu 0) cpu2))\<lparr>insts := insts cpu2 + 1\<rparr>)"
  have "sim_engine_run host (1 + n + 1) cpu = Inr ?c3"
    unfolding engine_run_add using assms(7,8) ret_step [OF assms(13) slots, of host] by simp
  moreover have "reg ?c3 PC_REGNO = ?ra" "reg ?c3 0 = reg cpu 0" "reg ?c3 1 = ?sp"
    "\<forall>r \<in> {2..15}. reg ?c3 r = reg cpu2 r"
    using assms(9,10) f1(2) by (simp_all add: pc)
  ultimately show ?thesis using f1(1) by blast
qed

theorem moxie_call_ret_witness:
  "\<forall>host. \<exists>cpu cpu3. reg cpu PC_REGNO = 0 \<and> reg cpu 0 = 7 \<and> reg cpu 1 = 64 \<and>
     sim_engine_run host (1 + 1 + 1) cpu = Inr cpu3 \<and> reg cpu3 PC_REGNO = 6 \<and> reg cpu3 0 = 7 \<and> reg cpu3 1 = 64"
proof
  fix host
  let ?prog = "[3, 0, 0, 0, 0, 8, 0, 0, 15, 0, 4, 0] :: uint8 list"
  obtain c0 where c0: "ram 64 c0" "ram_data c0 = (\<lambda>_. 0)"
    using attach_ram [of 64 "empty_core True"] by (auto simp: empty_core_def)
  obtain c where c: "ram 64 c" "ram_data c = overwrite (\<lambda>_. 0) 0 ?prog"
    using ram_write_buffer [OF c0(1), of write_map ?prog 0] c0(2) by auto
  define cpu where "cpu = \<lparr>regs = 7 # 64 # replicate 16 0, sregs = [], cc = 0, insts = 0, core = c, requests = []\<rparr>"
  have r: "reg cpu 0 = 7" "reg cpu 1 = 64" "reg cpu PC_REGNO = 0" "length (regs cpu) = 18" "core cpu = c"
    by (simp_all add: cpu_def reg_def PC_REGNO_def)
  obtain c1 where c1: "wlat cpu 56 6 = Inr (cpu\<lparr>core := c1\<rparr>)" "ram 64 c1"
    "ram_data c1 = overwrite (ram_data c) 56 (host_to_target (big_endian c) 4 6)"
    using ram_wlat [of 64 cpu 56 6] c(1) r(5) by auto
  obtain c2 where c2: "wlat (cpu\<lparr>core := c1\<rparr>) 52 7 = Inr (cpu\<lparr>core := c2\<rparr>)" "ram 64 c2"
    "ram_data c2 = overwrite (ram_data c1) 52 (host_to_target (big_endian c1) 4 7)"
    using ram_wlat [of 64 "cpu\<lparr>core := c1\<rparr>" 52 7] c1(2) by auto
  have low: "ram_data c2 k = overwrite (\<lambda>_. 0) 0 ?prog k" if "k < 52" for k
    using that by (simp add: c2(3) c1(3) c(2) overwrite_outside)
  have byte: "rbat m a = Inr (ucast (overwrite (\<lambda>_. 0) 0 ?prog (unat a)))"
    if "core m = c2 \<or> core m = c" "unat a < 52" for m a
    using ram_rbat [of 64 m a] low that c c2(2) by auto
  let ?c1 = "set_reg 0 52 (set_reg 1 52 (cpu\<lparr>core := c2\<rparr>))"
  have pf: "push_frame cpu 6 = Inr ?c1"
    using c1(1) c2(1) r by (simp add: push_frame_def Let_def reg_def)
  have f: "fetch cpu 0 = Inr 0x0300" "EXTRACT_WORD cpu 2 = Inr 8"
    using r(5) by (simp_all add: fetch_def EXTRACT_WORD_def byte overwrite_def)
  define m1 where "m1 = set_reg PC_REGNO 8 (?c1\<lparr>insts := insts ?c1 + 1\<rparr>)"
  have m1: "step host cpu = Inr m1" "core m1 = c2" "reg m1 PC_REGNO = 8" "length (regs m1) = 18" "reg m1 0 = 52"
    using jsra_step [of cpu 8 ?c1 host] f pf r by (simp_all add: m1_def PC_REGNO_def)
  define m2 where "m2 = set_reg PC_REGNO 10 (m1\<lparr>insts := insts m1 + 1\<rparr>)"
  have nop: "fetch m1 8 = Inr 0x0f00" using m1(2) by (simp add: fetch_def byte overwrite_def)
  have "unat (drop_bit 8 (0xf00 :: uint16)) = 15" by (simp add: drop_bit_eq_div)
  then have s2: "step host m1 = Inr m2"
    using step_form1 [of m1 "0xf00" host] nop m1(3) by (simp add: form1_def form1_basic_def Let_def m2_def)
  have m2: "core m2 = c2" "reg m2 PC_REGNO = 10" "length (regs m2) = 18" "reg m2 0 = 52"
    using m1 by (simp_all add: m2_def PC_REGNO_def)
  have f2: "fetch m2 10 = Inr 0x0400" using m2(1) by (simp add: fetch_def byte overwrite_def)
  have ok: "access_ok c 56 4" "access_ok c 52 4" by (simp_all add: access_ok_ram [OF c(1)])
  have rl: "rlat m2 a = rlat m1 a" for a using m1(2) m2(1) by (simp add: rlat_def rat_core [of m2 m1])
  have "\<exists>cpu3. sim_engine_run host (1 + 1 + 1) cpu = Inr cpu3 \<and> reg cpu3 PC_REGNO = reg cpu PC_REGNO + 6 \<and>
       reg cpu3 0 = reg cpu 0 \<and> reg cpu3 1 = reg cpu 1 \<and> (\<forall>r \<in> {2..15}. reg cpu3 r = reg m2 r)"
    by (rule moxie_call_ret [of cpu 8 host m1 1 m2, THEN conjunct2]) (use r ok f m1 m2 s2 f2 rl in simp_all)
  then obtain cpu3 where "sim_engine_run host (1 + 1 + 1) cpu = Inr cpu3" "reg cpu3 PC_REGNO = reg cpu PC_REGNO + 6"
    "reg cpu3 0 = reg cpu 0" "reg cpu3 1 = reg cpu 1" by blast
  then show "\<exists>cpu cpu3. reg cpu PC_REGNO = 0 \<and> reg cpu 0 = 7 \<and> reg cpu 1 = 64 \<and>
     sim_engine_run host (1 + 1 + 1) cpu = Inr cpu3 \<and> reg cpu3 PC_REGNO = 6 \<and> reg cpu3 0 = 7 \<and> reg cpu3 1 = 64"
    using r by (intro exI [of _ cpu] exI [of _ cpu3] conjI) (simp_all only: add_0)
qed

text \<open>After a comparison of two registers every conditional branch is taken exactly when the
  relation it is named after holds, signed or unsigned.\<close>

theorem moxie_compare_and_branch:
  "branch_taken (moxie_cmp x y) 0 = Inr (x = y) \<and> branch_taken (moxie_cmp x y) 1 = Inr (x \<noteq> y) \<and>
   branch_taken (moxie_cmp x y) 2 = Inr (sint x < sint y) \<and> branch_taken (moxie_cmp x y) 3 = Inr (sint y < sint x) \<and>
   branch_taken (moxie_cmp x y) 4 = Inr (x < y) \<and> branch_taken (moxie_cmp x y) 5 = Inr (y < x) \<and>
   branch_taken (moxie_cmp x y) 6 = Inr (sint y \<le> sint x) \<and> branch_taken (moxie_cmp x y) 7 = Inr (sint x \<le> sint y) \<and>
   branch_taken (moxie_cmp x y) 8 = Inr (y \<le> x) \<and> branch_taken (moxie_cmp x y) 9 = Inr (x \<le> y)"
proof -
  define c where "c = moxie_cmp x y"
  have bits: "(c AND CC_EQ \<noteq> 0) = (x = y)" "(c AND CC_LT \<noteq> 0) = (sint x < sint y)"
    "(c AND CC_GT \<noteq> 0) = (sint y < sint x)" "(c AND CC_LTU \<noteq> 0) = (x < y)" "(c AND CC_GTU \<noteq> 0) = (y < x)"
    by (auto simp: c_def moxie_cmp_def CC_EQ_def CC_LT_def CC_GT_def CC_LTU_def CC_GTU_def)
  have or: "(c AND (m OR k) \<noteq> 0) = (c AND m \<noteq> 0 \<or> c AND k \<noteq> 0)" for m k
    by (simp add: bit.conj_disj_distrib or_eq_0_iff)
  have eq: "x = y \<longleftrightarrow> sint x = sint y" by (metis signed_word_eqI)
  show ?thesis
    unfolding c_def [symmetric] branch_taken_def or bits using eq by (auto simp: le_less)
qed

lemma upper_half:
  "form1_extend 0x14 x y = of_nat (unat x * unat y div 2 ^ 32)"
  "form1_extend 0x15 x y = of_nat (unat x * unat y div 2 ^ 32)"
proof -
  have s: "ucast (signed_drop_bit 32 w) = (ucast (drop_bit 32 w) :: uint32)" for w :: uint64
    by (rule bit_word_eqI) (auto simp: bit_simps)
  have "unat x * unat y < 2 ^ 32 * 2 ^ 32"
    using unat_bound [of x] unat_bound [of y] by (intro mult_strict_mono) auto
  moreover have "take_bit 64 (unat z) = unat z" for z :: uint32
    using unat_bound [of z] by (simp add: take_bit_nat_eq_self_iff)
  ultimately have p: "unat (ucast x * ucast y :: uint64) = unat x * unat y"
    by (simp add: unat_word_ariths unsigned_ucast_eq)
  have d: "ucast (drop_bit 32 w) = (of_nat (unat w div 2 ^ 32) :: uint32)" for w :: uint64
  proof -
    have "unat (drop_bit 32 w) = unat w div 2 ^ 32"
      unfolding unat_drop_bit_eq by (simp only: drop_bit_eq_div)
    then show ?thesis by (metis of_nat_unat)
  qed
  show "form1_extend 0x14 x y = of_nat (unat x * unat y div 2 ^ 32)"
    "form1_extend 0x15 x y = of_nat (unat x * unat y div 2 ^ 32)"
    by (simp_all only: form1_extend_def s d p) simp_all
qed

text \<open>mul.x computes the upper half of the unsigned product, as umul.x does, for all operands,
  although its operands are meant to be signed.\<close>

theorem moxie_mul_x_unsigned:
  "form1_extend 0x15 x y = form1_extend 0x14 x y \<and>
   form1_extend 0x14 x y = of_nat (unat x * unat y div 2 ^ 32) \<and>
   form1_extend 0x15 (- 1) 1 \<noteq> of_int (sint (- 1 :: uint32) * sint (1 :: uint32) div 2 ^ 32)"
  unfolding upper_half by (simp add: unsigned_minus_1_eq_mask mask_eq_exp_minus_1)

text \<open>moxie_reg_fetch gives the register in big-endian order and moxie_reg_store takes it in
  little-endian order: storing the reversed bytes restores the register, and storing the fetched bytes
  as they are reverses it.\<close>

theorem moxie_debugger_registers:
  assumes "rn < 17" "length (regs cpu) = 18" "length buf = 4"
  shows "moxie_reg_fetch cpu rn buf = (host_to_target True 4 (unat (reg cpu rn)), 4) \<and>
    moxie_reg_store cpu rn (rev (fst (moxie_reg_fetch cpu rn buf))) = (cpu, 4) \<and>
    (reg cpu rn = 0x01020304 \<longrightarrow>
      reg (fst (moxie_reg_store cpu rn (fst (moxie_reg_fetch cpu rn buf)))) rn = 0x04030201)"
proof -
  have four: "4 = Suc (Suc (Suc (Suc 0)))" by simp
  note f = fetch_store_bytes [OF assms(1,3)]
  have "set_reg rn (of_nat (le_value (le_bytes 4 (unat (reg cpu rn))))) cpu = cpu"
    using unat_bound [of "reg cpu rn"] by (simp add: le_value_bytes set_reg_def reg_def)
  moreover have "le_bytes 4 v = [of_nat v, of_nat (v div 256), of_nat (v div 256 div 256),
      of_nat (v div 256 div 256 div 256)]" for v
    by (simp only: four le_bytes.simps)
  then have "(of_nat (le_value (rev (le_bytes 4 (unat (0x01020304 :: uint32))))) :: uint32) = 0x04030201"
    by (simp only: rev.simps append.simps le_value.simps) simp
  ultimately show ?thesis
    using f(1) f(2) [of "le_bytes 4 (unat (reg cpu rn))"] f(2) [of "rev (le_bytes 4 (unat (reg cpu rn)))"] assms
    by (auto simp: host_to_target_def)
qed

theorem moxie_debugger_registers_witness:
  "\<exists>cpu. reg cpu 2 = 0x01020304 \<and>
     reg (fst (moxie_reg_store cpu 2 (fst (moxie_reg_fetch cpu 2 [0, 0, 0, 0])))) 2 = 0x04030201"
proof -
  define cpu where "cpu = \<lparr>regs = replicate 18 0x01020304, sregs = [], cc = 0, insts = 0,
    core = empty_core True, requests = []\<rparr>"
  have "reg cpu 2 = 0x01020304" "length (regs cpu) = 18" by (simp_all add: cpu_def reg_def)
  then show ?thesis
    using moxie_debugger_registers [of 2 cpu "[0, 0, 0, 0]", THEN conjunct2, THEN conjunct2, THEN mp]
    by (intro exI [of _ cpu] conjI) simp_all
qed

text \<open>Sim_create_inferior lays the arguments out as its comment says: a zero word, the number of
  arguments, one pointer per argument, a zero word, and the strings one after the other with a zero
  byte each, as long as all of it fits into the memory.\<close>

theorem moxie_argv_layout:
  assumes "ram sz (core cpu)" "4 + 4 + 4 * length argv + 4 + total argv \<le> sz"
  shows "\<exists>cpu'. sim_create_inferior cpu start argv None = Inr cpu' \<and>
    (let w = word_at (big_endian (core cpu')) (ram_data (core cpu'));
         p = (\<lambda>j. 4 + 4 + 4 * length argv + 4 + total (take j argv))
     in w 0 = 0 \<and> w 4 = length argv \<and> w (8 + 4 * length argv) = 0 \<and>
        (\<forall>j < length argv. w (8 + 4 * j) = p j \<and>
           map (ram_data (core cpu')) [p j..<p j + length (argv ! j) + 1] = argv ! j @ [0]))"
proof -
  let ?cpu0 = "case start of Some p \<Rightarrow> set_reg PC_REGNO p cpu | None \<Rightarrow> cpu"
  let ?n = "length argv"
  have sz: "sz < 2 ^ 32" using assms(1) by (simp add: ram_def)
  have r0: "ram sz (core ?cpu0)" using assms(1) by (simp split: option.split)
  obtain c1 where c1: "wlat ?cpu0 0 0 = Inr (?cpu0\<lparr>core := c1\<rparr>)" "ram sz c1"
    "ram_data c1 = overwrite (ram_data (core ?cpu0)) 0 (host_to_target (big_endian (core ?cpu0)) 4 0)"
    "big_endian c1 = big_endian (core ?cpu0)"
    using ram_wlat [OF r0, of 0 0] assms(2) by auto
  obtain c2 where c2: "wlat (?cpu0\<lparr>core := c1\<rparr>) 4 (of_nat ?n) = Inr (?cpu0\<lparr>core := c1\<rparr>\<lparr>core := c2\<rparr>)" "ram sz c2"
    "ram_data c2 = overwrite (ram_data c1) 4 (host_to_target (big_endian c1) 4 (unat (of_nat ?n :: uint32)))"
    "big_endian c2 = big_endian c1"
    using ram_wlat [of sz "?cpu0\<lparr>core := c1\<rparr>" 4 "of_nat ?n"] c1(2) assms(2) by auto
  have n: "unat (of_nat ?n :: uint32) = ?n" using assms(2) sz by (simp add: unat_of_nat)
  let ?tp = "4 + 4 + 4 * ?n + 4"
  obtain c where c: "argv_loop (?cpu0\<lparr>core := c2\<rparr>) 0 (of_nat ?tp) argv = Inr (?cpu0\<lparr>core := c2\<rparr>\<lparr>core := c\<rparr>)"
    "big_endian c = big_endian c2" "\<forall>k. k < 8 \<longrightarrow> ram_data c k = ram_data c2 k"
    "word_at (big_endian c) (ram_data c) (8 + 4 * ?n) = 0"
    "\<forall>j < ?n. word_at (big_endian c) (ram_data c) (8 + 4 * j) = ?tp + total (take j argv) \<and>
       map (ram_data c) [?tp + total (take j argv)..<?tp + total (take j argv) + length (argv ! j) + 1] = argv ! j @ [0]"
    using argv_loop_ok [of sz "?cpu0\<lparr>core := c2\<rparr>" 0 argv ?tp] c2(2) assms(2) by auto
  obtain cpu' where cpu': "cpu' = ?cpu0\<lparr>core := c\<rparr>" "core cpu' = c" by simp
  have "sim_create_inferior cpu start argv None = Inr cpu'"
    using c1(1) c2(1) c(1) by (simp add: cpu'(1) sim_create_inferior_def load_dtb_def Let_def mult.commute del: argv_loop.simps)
  moreover have "word_at (big_endian c) (ram_data c) 0 = 0"
  proof -
    have "word_at (big_endian c) (ram_data c) 0 = word_at (big_endian c) (ram_data c1) 0"
      by (rule word_at_cong) (use c(3) c2(3) in \<open>simp add: overwrite_outside\<close>)
    then show ?thesis unfolding c1(3) c(2) c2(4) c1(4) word_at_overwrite by simp
  qed
  moreover have "word_at (big_endian c) (ram_data c) 4 = ?n"
  proof -
    have "word_at (big_endian c) (ram_data c) 4 = word_at (big_endian c) (ram_data c2) 4"
      by (rule word_at_cong) (use c(3) in simp)
    then show ?thesis using assms(2) sz unfolding c2(3) n c(2) c2(4) word_at_overwrite by simp
  qed
  ultimately show ?thesis
    using c(4,5) unfolding Let_def by (intro exI [of _ cpu'] conjI) (simp_all only: cpu'(2))
qed

theorem moxie_argv_layout_witness:
  "\<exists>cpu cpu'. sim_create_inferior cpu None [[0x61], [0x62, 0x63]] None = Inr cpu' \<and>
     word_at (big_endian (core cpu')) (ram_data (core cpu')) 4 = 2 \<and>
     map (ram_data (core cpu')) [22..<25] = [0x62, 0x63, 0]"
proof -
  obtain c where c: "ram 64 c" using attach_ram [of 64 "empty_core True"] by (auto simp: empty_core_def)
  define cpu where "cpu = \<lparr>regs = replicate 18 0, sregs = [], cc = 0, insts = 0, core = c, requests = []\<rparr>"
  have r: "ram 64 (core cpu)" using c by (simp add: cpu_def)
  let ?argv = "[[0x61], [0x62, 0x63]] :: uint8 list list"
  have "4 + 4 + 4 * length ?argv + 4 + total ?argv \<le> 64" by simp
  from moxie_argv_layout [OF r this, of None]
  obtain cpu' where c': "sim_create_inferior cpu None ?argv None = Inr cpu'"
    "word_at (big_endian (core cpu')) (ram_data (core cpu')) 4 = length ?argv"
    "\<forall>j < length ?argv. map (ram_data (core cpu')) [4 + 4 + 4 * length ?argv + 4 + total (take j ?argv)..<
        4 + 4 + 4 * length ?argv + 4 + total (take j ?argv) + length (?argv ! j) + 1] = ?argv ! j @ [0]"
    unfolding Let_def by blast
  from c'(3) [rule_format, of 1] have "map (ram_data (core cpu')) [22..<25] = [0x62, 0x63, 0]"
    by (simp add: upt_conv_Cons)
  then show ?thesis using c'(1,2) by (intro exI [of _ cpu] exI [of _ cpu']) simp
qed

end
