(* ===== verification/Tile_Loops.thy ===== *)
theory Tile_Loops
  imports Prelude "HOL-Library.FuncSet"
begin

text \<open>
  The loops of a LATIAS mapping (\<^verbatim>\<open>src/src/loop-analysis\<close>): the tree of tiles, scopes, operations and
  transfers, the loop count that every operation has to match (\<^verbatim>\<open>constraint.cpp\<close>), the extents of the
  dimensions below a node (\<^verbatim>\<open>common.cpp\<close>, \<^verbatim>\<open>init.cpp\<close>), and the order in which the performance analysis
  visits the iterations (\<open>visitTileLoop\<close> in \<^verbatim>\<open>performance.cpp\<close>). A signed overflow and a failed assertion,
  which ends the program, are values.
\<close>

subsection \<open>Results\<close>

datatype tileexp_error = Assert_error | Signed_overflow | Out_of_range | Null_pointer | Division_by_zero | Uninitialised

type_synonym 'a tileexp = "tileexp_error + 'a"

definition and_then :: "'a tileexp \<Rightarrow> ('a \<Rightarrow> 'b tileexp) \<Rightarrow> 'b tileexp" where
  "and_then r f = (case r of Inl e \<Rightarrow> Inl e | Inr x \<Rightarrow> f x)"

lemma and_then_simps [simp]: "and_then (Inl e) f = Inl e" "and_then (Inr x) f = f x"
  by (simp_all add: and_then_def)

definition signed_int :: "nat \<Rightarrow> int \<Rightarrow> int tileexp" where
  "signed_int w x = (if - (2 ^ (w - 1)) \<le> x \<and> x < 2 ^ (w - 1) then Inr x else Inl Signed_overflow)"

text \<open>An arithmetic operation on operands of type \<^verbatim>\<open>int\<close>.\<close>

abbreviation int32 :: "int \<Rightarrow> int tileexp" where "int32 \<equiv> signed_int 32"

subsection \<open>The mapping tree\<close>

datatype node_type = Tile | Op | Scope | Trans

text \<open>A loop; the tiles start all of theirs at 0 and step by 1.\<close>

record loop_desc =
  dim_name :: string
  loop_end :: int
  residual_end :: int

text \<open>
  A node of the tree that the evaluation builds from the mapping, with the members that the loop
  analysis keeps in it. The type of a tile and that of a scope are members of the subclasses of the
  nodes; they mean nothing in another node.
\<close>

datatype dataflow_mode = Forward | Write_back

datatype tile_type = Temporal | Spatial

datatype scope_type = Sequential | Parallel | Sharing | Pipeline | Scope_Ring | Scope_Mesh

record eva_attrs =
  kind :: node_type
  node_name :: string
  target_level :: string
  dataflow_mode :: dataflow_mode
  tile_type :: tile_type
  scope_type :: scope_type
  loopnests :: "loop_desc list"
  dim_offset :: "string \<Rightarrow> int option"
  last_dim_offset :: "string \<Rightarrow> int option"

datatype eva_node = EvaNode (attrs: eva_attrs) (children: "eva_node list")

subsection \<open>Loop counts\<close>

text \<open>
  The ends and residual ends of the loops of every dimension, outermost first. The maps are association
  lists; the order of the dimensions in them does not matter to the result.
\<close>

type_synonym dim_ends = "(string \<times> int list \<times> int list) list"

fun add_loop :: "loop_desc \<Rightarrow> dim_ends \<Rightarrow> dim_ends tileexp" where
  "add_loop d [] = Inr [(dim_name d, [loop_end d], [residual_end d])]"
| "add_loop d ((n, es, rs) # m) =
     (if n = dim_name d
      then (if loop_end d \<ge> residual_end d
            then Inr ((n, es @ [loop_end d], rs @ [residual_end d]) # m) else Inl Assert_error)
      else map_sum id (Cons (n, es, rs)) (add_loop d m))"

fun collect_ends :: "loop_desc list \<Rightarrow> dim_ends \<Rightarrow> dim_ends tileexp" where
  "collect_ends [] m = Inr m"
| "collect_ends (d # ds) m = and_then (add_loop d m) (collect_ends ds)"

text \<open>The inner loop, over the ends of the loops further in.\<close>

fun inner_product :: "int \<Rightarrow> int list \<Rightarrow> int tileexp" where
  "inner_product t [] = Inr t"
| "inner_product t (e # es) = and_then (int32 (t * e)) (\<lambda>t1. inner_product t1 es)"

text \<open>The outer loop, with the result so far.\<close>

fun count_dim :: "int list \<Rightarrow> int list \<Rightarrow> int \<Rightarrow> int tileexp" where
  "count_dim (e # es) (r # rs) res =
     and_then (inner_product 1 es) (\<lambda>t.
     and_then (int32 (r - 1)) (\<lambda>r1.
     and_then (int32 (t * r1)) (\<lambda>p.
     and_then (int32 (res + p)) (count_dim es rs))))"
| "count_dim _ _ res = Inr res"

fun count_dims :: "dim_ends \<Rightarrow> (string \<times> int) list tileexp" where
  "count_dims [] = Inr []"
| "count_dims ((n, es, rs) # m) =
     and_then (count_dim es rs 1) (\<lambda>c. map_sum id (Cons (n, c)) (count_dims m))"

definition get_loop_count :: "loop_desc list list \<Rightarrow> (string \<times> int) list tileexp" where
  "get_loop_count input_loopnests = and_then (collect_ends (concat input_loopnests) []) count_dims"

text \<open>
  The pass over the tree hands every node the loop nests above it and its own, and compares the counts
  of every operation with the bounds of the problem: a dimension that is not in the map has the
  identifier 0, one without a bound the bound 0.
\<close>

definition matches_bounds :: "(string \<Rightarrow> nat option) \<Rightarrow> (nat \<Rightarrow> int option) \<Rightarrow> (string \<times> int) list \<Rightarrow> bool" where
  "matches_bounds ids bounds counts \<longleftrightarrow>
     list_all (\<lambda>(n, c).
       (case bounds (case ids n of Some i \<Rightarrow> i | None \<Rightarrow> 0) of Some b \<Rightarrow> b | None \<Rightarrow> 0) = c) counts"

fun check_loop_count :: "(string \<Rightarrow> nat option) \<Rightarrow> (nat \<Rightarrow> int option) \<Rightarrow> loop_desc list list \<Rightarrow> eva_node \<Rightarrow> unit tileexp"
  and check_children :: "(string \<Rightarrow> nat option) \<Rightarrow> (nat \<Rightarrow> int option) \<Rightarrow> loop_desc list list \<Rightarrow> eva_node list \<Rightarrow> unit tileexp"
where
  "check_loop_count ids bounds inherited (EvaNode a cs) =
     (case kind a of
        Tile \<Rightarrow> if cs = [] then Inl Assert_error else check_children ids bounds (inherited @ [loopnests a]) cs
      | Scope \<Rightarrow> if cs = [] then Inl Assert_error else check_children ids bounds inherited cs
      | Op \<Rightarrow>
          if cs \<noteq> [] then Inl Assert_error
          else and_then (get_loop_count (inherited @ [loopnests a])) (\<lambda>counts.
                 if matches_bounds ids bounds counts then Inr () else Inl Assert_error)
      | Trans \<Rightarrow> if cs \<noteq> [] then Inl Assert_error else Inr ())"
| "check_children ids bounds inherited [] = Inr ()"
| "check_children ids bounds inherited (c # cs) =
     and_then (check_loop_count ids bounds inherited c) (\<lambda>_. check_children ids bounds inherited cs)"

text \<open>The pass starts at the root; only the visit of a tile copes with a node that has no parent.\<close>

definition loop_count_pass :: "(string \<Rightarrow> nat option) \<Rightarrow> (nat \<Rightarrow> int option) \<Rightarrow> eva_node \<Rightarrow> unit tileexp" where
  "loop_count_pass ids bounds t =
     (if kind (attrs t) = Tile then check_loop_count ids bounds [] t else Inl Null_pointer)"

subsection \<open>Offsets\<close>

fun init_offset :: "eva_node \<Rightarrow> eva_node" where
  "init_offset (EvaNode a cs) =
     EvaNode (a\<lparr>dim_offset := foldl (\<lambda>m d. m(dim_name d \<mapsto> 1)) (dim_offset a) (loopnests a)\<rparr>) (map init_offset cs)"

text \<open>
  The search for the nearest node with an offset for a dimension, breadth first; \<open>get_last_dim_offset\<close>
  of a dimension without one gives 0, and so do the ends when the node has no loop of that name. The
  queue holds at most the nodes of the trees in it, which bounds the iterations.
\<close>

fun tree_size :: "eva_node \<Rightarrow> nat" where
  "tree_size (EvaNode a cs) = 1 + sum_list (map tree_size cs)"

function bfs_loop :: "string \<Rightarrow> eva_node list \<Rightarrow> ((int \<times> int) \<times> (int \<times> int)) option" where
  "bfs_loop n [] = None"
| "bfs_loop n (EvaNode a cs # q) =
     (case dim_offset a n of
        Some off \<Rightarrow>
          Some ((off, case last_dim_offset a n of Some l \<Rightarrow> l | None \<Rightarrow> 0),
            foldl (\<lambda>p d. if dim_name d = n then (loop_end d, residual_end d) else p) (0, 0) (loopnests a))
      | None \<Rightarrow> bfs_loop n (q @ cs))"
  by pat_completeness auto
termination
  by (relation "measure (\<lambda>(n, q). sum_list (map tree_size q))") auto

definition BFSOffsetLoop :: "eva_node \<Rightarrow> string \<Rightarrow> ((int \<times> int) \<times> (int \<times> int)) option" where
  "BFSOffsetLoop node n = bfs_loop n [node]"

text \<open>The first child below which the dimension is found.\<close>

fun child_offset :: "eva_node list \<Rightarrow> string \<Rightarrow> ((int \<times> int) \<times> (int \<times> int)) option" where
  "child_offset [] n = None"
| "child_offset (c # cs) n = (case BFSOffsetLoop c n of Some r \<Rightarrow> Some r | None \<Rightarrow> child_offset cs n)"

fun tile_offsets :: "eva_node list \<Rightarrow> loop_desc list \<Rightarrow> eva_attrs \<Rightarrow> eva_attrs tileexp" where
  "tile_offsets cs [] a = Inr a"
| "tile_offsets cs (d # ds) a =
     (case child_offset cs (dim_name d) of
        None \<Rightarrow> Inl Assert_error
      | Some ((off, loff), (e, r)) \<Rightarrow>
          and_then (int32 (e * off)) (\<lambda>o1.
          and_then (int32 (r - 1)) (\<lambda>r1.
          and_then (int32 (r1 * off)) (\<lambda>p.
          and_then (int32 (p + loff)) (\<lambda>l1.
            tile_offsets cs ds (a\<lparr>dim_offset := (dim_offset a)(dim_name d \<mapsto> o1),
                                  last_dim_offset := (last_dim_offset a)(dim_name d \<mapsto> l1)\<rparr>))))))"

fun leaf_offsets :: "loop_desc list \<Rightarrow> eva_attrs \<Rightarrow> eva_attrs" where
  "leaf_offsets [] a = a"
| "leaf_offsets (d # ds) a =
     leaf_offsets ds (a\<lparr>dim_offset := (dim_offset a)(dim_name d \<mapsto> 1),
                        last_dim_offset := (last_dim_offset a)(dim_name d \<mapsto> 1)\<rparr>)"

fun get_offset :: "eva_node \<Rightarrow> eva_node tileexp" and get_offsets :: "eva_node list \<Rightarrow> eva_node list tileexp" where
  "get_offset (EvaNode a cs) =
     and_then (get_offsets cs) (\<lambda>cs1.
       if cs1 \<noteq> []
       then (if kind a = Scope then Inr (EvaNode a cs1)
             else map_sum id (\<lambda>a1. EvaNode a1 cs1) (tile_offsets cs1 (loopnests a) a))
       else (if kind a = Trans then Inr (EvaNode a cs1) else Inr (EvaNode (leaf_offsets (loopnests a) a) cs1)))"
| "get_offsets [] = Inr []"
| "get_offsets (c # cs) = and_then (get_offset c) (\<lambda>c1. map_sum id (Cons c1) (get_offsets cs))"

subsection \<open>The iterations of the performance analysis\<close>

text \<open>
  \<open>vec_last_dim\<close> holds for every dimension whether each of the enclosing loops is in its last iteration.
  A path lists the dimension and the counter of every loop from the outside in.
\<close>

definition isLastLoop :: "(string \<Rightarrow> bool list) \<Rightarrow> string \<Rightarrow> bool" where
  "isLastLoop vec_last_dim n = foldl (\<and>) True (vec_last_dim n)"

definition end_of_loop :: "(string \<Rightarrow> bool list) \<Rightarrow> loop_desc \<Rightarrow> int" where
  "end_of_loop vec_last_dim d = (if isLastLoop vec_last_dim (dim_name d) then residual_end d else loop_end d)"

fun visit_loops :: "(string \<Rightarrow> bool list) \<Rightarrow> loop_desc list \<Rightarrow> (string \<times> int) list list" where
  "visit_loops v [] = [[]]"
| "visit_loops v (d # ds) =
     (let e = end_of_loop v d in
      concat (map (\<lambda>i. map (Cons (dim_name d, i))
                          (visit_loops (v(dim_name d := v (dim_name d) @ [\<not> i + 1 < e])) ds)) [0..e - 1]))"

subsection \<open>Extents\<close>

text \<open>The product of the ends of the loops of a dimension, and how many of its indices the loops cover when the
  enclosing loops are in their last iteration or not.\<close>

fun dim_product :: "string \<Rightarrow> loop_desc list \<Rightarrow> int" where
  "dim_product n [] = 1"
| "dim_product n (d # ds) = (if dim_name d = n then loop_end d else 1) * dim_product n ds"

fun extent :: "string \<Rightarrow> bool \<Rightarrow> loop_desc list \<Rightarrow> int" where
  "extent n final [] = 1"
| "extent n final (d # ds) =
     (if dim_name d = n then ((if final then residual_end d else loop_end d) - 1) * dim_product n ds else 0) +
     extent n final ds"

text \<open>The index of a dimension at the end of a path.\<close>

fun position :: "string \<Rightarrow> loop_desc list \<Rightarrow> (string \<times> int) list \<Rightarrow> int" where
  "position n (d # ds) ((m, i) # p) = (if dim_name d = n then i * dim_product n ds else 0) + position n ds p"
| "position n _ _ = 0"

definition good_loops :: "loop_desc list \<Rightarrow> bool" where
  "good_loops ds \<longleftrightarrow> (\<forall>d \<in> set ds. 1 \<le> residual_end d \<and> residual_end d \<le> loop_end d)"

lemma good_loops_simps [simp]:
  "good_loops []"
  "good_loops (d # ds) \<longleftrightarrow> 1 \<le> residual_end d \<and> residual_end d \<le> loop_end d \<and> good_loops ds"
  "good_loops (ds @ es) \<longleftrightarrow> good_loops ds \<and> good_loops es"
  by (auto simp: good_loops_def)

lemma dim_product_pos: "good_loops ds \<Longrightarrow> 1 \<le> dim_product n ds"
proof (induction ds)
  case (Cons d ds)
  then show ?case using mult_mono [of 1 "loop_end d" 1 "dim_product n ds"] by auto
qed simp

lemma extent_False: "extent n False ds = dim_product n ds"
  by (induction ds) (auto simp: algebra_simps)

lemma extent_bounds: "good_loops ds \<Longrightarrow> 1 \<le> extent n final ds \<and> extent n final ds \<le> dim_product n ds"
proof (induction ds)
  case (Cons d ds)
  define e where "e = (if final then residual_end d else loop_end d)"
  have "1 \<le> e" "e \<le> loop_end d" using Cons.prems by (auto simp: e_def)
  then have "0 \<le> (e - 1) * dim_product n ds" "(e - 1) * dim_product n ds \<le> (loop_end d - 1) * dim_product n ds"
    using Cons.prems dim_product_pos [of ds n] by (auto intro: mult_right_mono)
  moreover have "extent n final (d # ds) = (if dim_name d = n then (e - 1) * dim_product n ds else 0) + extent n final ds"
    "dim_product n (d # ds) = (if dim_name d = n then (loop_end d - 1) * dim_product n ds else 0) + dim_product n ds"
    by (simp_all add: e_def algebra_simps)
  moreover have "1 \<le> extent n final ds" "extent n final ds \<le> dim_product n ds" using Cons by auto
  ultimately show ?case by (cases "dim_name d = n") (simp_all only: if_True if_False simp_thms, linarith+)
qed simp

lemma isLastLoop_append: "isLastLoop (v(n := v n @ [b])) m = (isLastLoop v m \<and> (m = n \<longrightarrow> b))"
  by (auto simp: isLastLoop_def)

lemma extent_absent: "n \<notin> dim_name ` set ds \<Longrightarrow> extent n final ds = 1"
  by (induction ds) auto

subsection \<open>The number of iterations\<close>

lemma sum_last: "0 < (e :: int) \<Longrightarrow> (\<Sum>i\<leftarrow>[0..e - 1]. if i + 1 < e then a else b) = (e - 1) * a + b" for a b :: int
proof -
  assume "0 < e"
  then have "[0..e - 1] = [0..e - 2] @ [e - 1]" using upto_rec2 [of 0 "e - 1"] by simp
  moreover have "map (\<lambda>i. if i + 1 < e then a else b) [0..e - 2] = map (\<lambda>_. a) [0..e - 2]" by simp
  moreover have "sum_list (map (\<lambda>_. a) [0..e - 2]) = (e - 1) * a"
    using \<open>0 < e\<close> by (simp add: sum_list_triv)
  ultimately show ?thesis by (simp only: map_append sum_list_append list.map sum_list.Cons sum_list.Nil) simp
qed

lemma int_sum_list: "int (sum_list (map f xs)) = (\<Sum>x\<leftarrow>xs. int (f x))"
  by (induction xs) auto

lemma visits_length:
  assumes "good_loops ds" "finite N" "dim_name ` set ds \<subseteq> N"
  shows "int (length (visit_loops v ds)) = (\<Prod>n\<in>N. extent n (isLastLoop v n) ds)"
  using assms
proof (induction ds arbitrary: v)
  case (Cons d ds)
  let ?n = "dim_name d" and ?e = "end_of_loop v d"
  let ?v = "\<lambda>i. v(?n := v ?n @ [\<not> i + 1 < ?e])"
  let ?rest = "\<Prod>m\<in>N - {?n}. extent m (isLastLoop v m) ds"
  have N: "finite N" "?n \<in> N" using Cons.prems by auto
  have e: "0 < ?e" using Cons.prems by (simp add: end_of_loop_def)
  have one: "int (length (visit_loops (?v i) ds)) =
      (if i + 1 < ?e then extent ?n False ds else extent ?n (isLastLoop v ?n) ds) * ?rest" for i
  proof -
    have "int (length (visit_loops (?v i) ds)) = (\<Prod>m\<in>N. extent m (isLastLoop (?v i) m) ds)"
      using Cons by simp
    also have "\<dots> = extent ?n (isLastLoop (?v i) ?n) ds * (\<Prod>m\<in>N - {?n}. extent m (isLastLoop (?v i) m) ds)"
      using N by (rule prod.remove)
    also have "(\<Prod>m\<in>N - {?n}. extent m (isLastLoop (?v i) m) ds) = ?rest"
      by (rule prod.cong) (auto simp: isLastLoop_append)
    finally show ?thesis
      by (cases "i + 1 < ?e") (simp_all only: isLastLoop_append simp_thms if_True if_False)
  qed
  have "int (length (visit_loops v (d # ds))) = (\<Sum>i\<leftarrow>[0..?e - 1]. int (length (visit_loops (?v i) ds)))"
    by (simp add: Let_def length_concat comp_def int_sum_list)
  also have "\<dots> = (\<Sum>i\<leftarrow>[0..?e - 1]. (if i + 1 < ?e then extent ?n False ds * ?rest else extent ?n (isLastLoop v ?n) ds * ?rest))"
    by (rule arg_cong [of _ _ sum_list]) (auto simp: one)
  also have "\<dots> = ((?e - 1) * extent ?n False ds + extent ?n (isLastLoop v ?n) ds) * ?rest"
    by (subst sum_last [OF e]) (simp add: algebra_simps)
  also have "\<dots> = extent ?n (isLastLoop v ?n) (d # ds) * ?rest"
    by (simp add: extent_False end_of_loop_def)
  also have "?rest = (\<Prod>m\<in>N - {?n}. extent m (isLastLoop v m) (d # ds))"
    by (rule prod.cong) auto
  finally show ?case using N by (simp only: prod.remove)
qed simp

text \<open>Every index of the extents is reached.\<close>

lemma visits_reach:
  assumes "good_loops ds" "\<forall>n. 0 \<le> q n \<and> q n < extent n (isLastLoop v n) ds"
  shows "\<exists>path \<in> set (visit_loops v ds). \<forall>n. position n ds path = q n"
  using assms
proof (induction ds arbitrary: v q)
  case (Cons d ds)
  let ?n = "dim_name d" and ?e = "end_of_loop v d"
  let ?P = "dim_product ?n ds"
  let ?v = "\<lambda>i. v(?n := v ?n @ [\<not> i + 1 < ?e])"
  have P: "1 \<le> ?P" and e: "1 \<le> ?e" using Cons.prems(1) by (auto simp: dim_product_pos end_of_loop_def)
  have ext: "extent ?n (isLastLoop v ?n) (d # ds) = (?e - 1) * ?P + extent ?n (isLastLoop v ?n) ds"
    by (simp add: end_of_loop_def)
  have x: "extent ?n (isLastLoop v ?n) ds \<le> ?P" using Cons.prems(1) extent_bounds by simp
  define i where "i = min (q ?n div ?P) (?e - 1)"
  have q0: "0 \<le> q ?n" "q ?n < (?e - 1) * ?P + extent ?n (isLastLoop v ?n) ds"
    using spec [OF Cons.prems(2), of ?n] unfolding ext by simp_all
  have "q ?n < ?e * ?P" using q0(2) x by (simp add: algebra_simps)
  moreover have "q ?n div ?P * ?P \<le> q ?n" using P by (simp add: minus_mod_eq_div_mult [symmetric])
  ultimately have "q ?n div ?P < ?e" using mult_right_mono [of ?e "q ?n div ?P" ?P] P by linarith
  then have i: "i = q ?n div ?P" "0 \<le> i" "i < ?e" using q0(1) P by (auto simp: i_def pos_imp_zdiv_nonneg_iff)
  have r: "q ?n = i * ?P + q ?n mod ?P" "0 \<le> q ?n mod ?P" "q ?n mod ?P < ?P"
    using P by (simp_all only: i(1) div_mult_mod_eq) auto
  define q1 where "q1 = q(?n := q ?n mod ?P)"
  have "\<forall>m. 0 \<le> q1 m \<and> q1 m < extent m (isLastLoop (?v i) m) ds"
  proof
    fix m
    show "0 \<le> q1 m \<and> q1 m < extent m (isLastLoop (?v i) m) ds"
    proof (cases "m = ?n")
      case True
      have "q ?n mod ?P < extent ?n (isLastLoop v ?n) ds" if "\<not> i + 1 < ?e"
      proof -
        have "i = ?e - 1" using that i(3) by simp
        then show ?thesis using r(1) q0(2) by simp
      qed
      then show ?thesis
        using True r by (cases "i + 1 < ?e") (simp_all add: q1_def isLastLoop_append extent_False)
    next
      case False
      then show ?thesis using spec [OF Cons.prems(2), of m] by (simp add: q1_def isLastLoop_append)
    qed
  qed
  moreover have "good_loops ds" using Cons.prems(1) by simp
  ultimately obtain path where path: "path \<in> set (visit_loops (?v i) ds)" "\<forall>m. position m ds path = q1 m"
    using Cons.IH [of q1 "?v i"] by blast
  have "(?n, i) # path \<in> set (visit_loops v (d # ds))"
    using path(1) i by (auto simp: Let_def)
  moreover have "position m (d # ds) ((?n, i) # path) = q m" for m
    using path(2) r(1) by (simp add: q1_def)
  ultimately show ?case by blast
next
  case Nil
  have "q n = 0" for n using spec [OF Nil.prems(2), of n] by simp
  then show ?case by simp
qed

text \<open>So every index is reached exactly once: there are as many iterations as indices.\<close>

lemma visits_exactly_once:
  assumes "good_loops ds" "finite N" "dim_name ` set ds \<subseteq> N" "\<forall>n \<in> N. 0 \<le> q n \<and> q n < extent n (isLastLoop v n) ds"
  shows "distinct (visit_loops v ds) \<and> (\<exists>!path. path \<in> set (visit_loops v ds) \<and> (\<forall>n \<in> N. position n ds path = q n))"
proof -
  let ?paths = "visit_loops v ds" and ?f = "\<lambda>path. \<lambda>n\<in>N. position n ds path"
  let ?box = "\<Pi>\<^sub>E n\<in>N. {0..<extent n (isLastLoop v n) ds}"
  have ext: "0 < extent n (isLastLoop v n) ds" for n 
    using extent_bounds [OF assms(1), of n "isLastLoop v n"] by simp
  have "?box \<subseteq> ?f ` set ?paths"
  proof
    fix p assume p: "p \<in> ?box"
    define q1 where "q1 n = (if n \<in> N then p n else 0)" for n
    have "\<forall>n. 0 \<le> q1 n \<and> q1 n < extent n (isLastLoop v n) ds"
      using p ext by (auto simp: q1_def PiE_iff)
    then obtain path where path: "path \<in> set ?paths" "\<forall>n. position n ds path = q1 n"
      using visits_reach [OF assms(1)] by blast
    have "p = ?f path" using p path(2) by (auto simp: q1_def PiE_iff extensional_def fun_eq_iff)
    then show "p \<in> ?f ` set ?paths" using path(1) by blast
  qed
  moreover have "card ?box = length ?paths"
  proof -
    have "int (card ?box) = (\<Prod>n\<in>N. extent n (isLastLoop v n) ds)"
      using assms(2) ext by (simp add: card_PiE order_less_imp_le)
    then show ?thesis using visits_length [OF assms(1-3), of v] by simp
  qed
  moreover have "card (?f ` set ?paths) \<le> card (set ?paths)" by (rule card_image_le) simp
  moreover have "card (set ?paths) \<le> length ?paths" by (rule card_length)
  moreover have "card ?box \<le> card (?f ` set ?paths)" using calculation(1) by (rule card_mono [rotated]) simp
  ultimately have c: "card (set ?paths) = length ?paths" "card (?f ` set ?paths) = card (set ?paths)" and box: "?box \<subseteq> ?f ` set ?paths"
    by linarith+
  have inj: "inj_on ?f (set ?paths)" using c(2) by (simp add: eq_card_imp_inj_on)
  have q: "restrict q N \<in> ?box" using assms(4) by auto
  then obtain path where path: "path \<in> set ?paths" "restrict q N = ?f path" using box by blast
  have at: "\<forall>n \<in> N. position n ds path = q n" using path(2) by (metis restrict_apply')
  have "other = path" if "other \<in> set ?paths" "\<forall>n \<in> N. position n ds other = q n" for other
  proof -
    have "?f other = ?f path" using that(2) at by (auto simp: fun_eq_iff restrict_def)
    then show ?thesis using inj that(1) path(1) by (auto dest: inj_onD)
  qed
  then show ?thesis using c(1) path(1) at card_distinct by blast
qed

subsection \<open>The loop count\<close>

text \<open>The ends of the loops of one dimension.\<close>

definition ends_of :: "string \<Rightarrow> loop_desc list \<Rightarrow> int list" where
  "ends_of n ds = map loop_end (filter (\<lambda>d. dim_name d = n) ds)"

definition residuals_of :: "string \<Rightarrow> loop_desc list \<Rightarrow> int list" where
  "residuals_of n ds = map residual_end (filter (\<lambda>d. dim_name d = n) ds)"

definition collected :: "loop_desc list \<Rightarrow> dim_ends \<Rightarrow> bool" where
  "collected ds m \<longleftrightarrow> distinct (map fst m) \<and> fst ` set m = dim_name ` set ds \<and>
     (\<forall>(n, es, rs) \<in> set m. es = ends_of n ds \<and> rs = residuals_of n ds)"

lemma add_loop_ok:
  assumes "residual_end d \<le> loop_end d" "distinct (map fst m)"
  shows "\<exists>m1. add_loop d m = Inr m1 \<and> distinct (map fst m1) \<and> fst ` set m1 = insert (dim_name d) (fst ` set m) \<and>
    (\<forall>(n, es, rs) \<in> set m1. if n = dim_name d
       then if n \<in> fst ` set m then \<exists>es1 rs1. (n, es1, rs1) \<in> set m \<and> es = es1 @ [loop_end d] \<and> rs = rs1 @ [residual_end d]
            else es = [loop_end d] \<and> rs = [residual_end d]
       else (n, es, rs) \<in> set m)"
  using assms
proof (induction m)
  case (Cons x m)
  obtain n es rs where x: "x = (n, es, rs)" by (cases x)
  show ?case
  proof (cases "n = dim_name d")
    case True
    then have "e \<in> set m \<Longrightarrow> fst e \<noteq> dim_name d" for e using Cons.prems(2) x by force
    then show ?thesis using True Cons.prems x by (auto split: if_splits) fastforce+
  next
    case False
    obtain m1 where m1: "add_loop d m = Inr m1" "distinct (map fst m1)" "fst ` set m1 = insert (dim_name d) (fst ` set m)"
      "\<forall>(n, es, rs) \<in> set m1. if n = dim_name d
       then if n \<in> fst ` set m then \<exists>es1 rs1. (n, es1, rs1) \<in> set m \<and> es = es1 @ [loop_end d] \<and> rs = rs1 @ [residual_end d]
            else es = [loop_end d] \<and> rs = [residual_end d]
       else (n, es, rs) \<in> set m"
      using Cons by auto
    have "n \<notin> fst ` set m1" using False Cons.prems(2) x m1(3) by auto
    then show ?thesis using False x m1 by (auto split: if_splits)
  qed
qed auto

lemma collect_ends_ok:
  assumes "good_loops ds" "collected ds0 m"
  shows "\<exists>m1. collect_ends ds m = Inr m1 \<and> collected (ds0 @ ds) m1"
  using assms
proof (induction ds arbitrary: ds0 m)
  case (Cons d ds)
  have m: "distinct (map fst m)" "fst ` set m = dim_name ` set ds0"
    "\<And>n es rs. (n, es, rs) \<in> set m \<Longrightarrow> es = ends_of n ds0 \<and> rs = residuals_of n ds0"
    using Cons.prems(2) by (auto simp: collected_def)
  obtain m1 where m1: "add_loop d m = Inr m1" "distinct (map fst m1)" "fst ` set m1 = insert (dim_name d) (fst ` set m)"
    "\<forall>(n, es, rs) \<in> set m1. if n = dim_name d
       then if n \<in> fst ` set m then \<exists>es1 rs1. (n, es1, rs1) \<in> set m \<and> es = es1 @ [loop_end d] \<and> rs = rs1 @ [residual_end d]
            else es = [loop_end d] \<and> rs = [residual_end d]
       else (n, es, rs) \<in> set m"
    using add_loop_ok [of d m] Cons.prems(1) m(1) by auto
  have empty: "ends_of n ds0 = [] \<and> residuals_of n ds0 = []" if "n \<notin> fst ` set m" for n
    using that m(2) by (auto simp: ends_of_def residuals_of_def filter_empty_conv)
  have "es = ends_of n (ds0 @ [d]) \<and> rs = residuals_of n (ds0 @ [d])" if e: "(n, es, rs) \<in> set m1" for n es rs
  proof -
    have "if n = dim_name d
       then if n \<in> fst ` set m then \<exists>es1 rs1. (n, es1, rs1) \<in> set m \<and> es = es1 @ [loop_end d] \<and> rs = rs1 @ [residual_end d]
            else es = [loop_end d] \<and> rs = [residual_end d]
       else (n, es, rs) \<in> set m"
      using bspec [OF m1(4) e] by simp
    then show ?thesis using m(3) empty [of n]
      by (auto simp: ends_of_def residuals_of_def split: if_splits)
  qed
  then have "collected (ds0 @ [d]) m1" using m1(2,3) m(2) by (auto simp: collected_def)
  then show ?case using Cons.IH [of "ds0 @ [d]" m1] Cons.prems(1) m1(1) by simp
qed simp

lemma dim_product_ends: "dim_product n ds = prod_list (ends_of n ds)"
  by (induction ds) (auto simp: ends_of_def)

lemma prod_list_ge_one: "\<forall>e \<in> set es. (1 :: int) \<le> e \<Longrightarrow> 1 \<le> prod_list es"
proof (induction es)
  case (Cons e es)
  then show ?case using mult_mono [of 1 e 1 "prod_list es"] by simp
qed simp

lemma inner_product_ok:
  assumes "\<forall>e \<in> set es. 1 \<le> e" "1 \<le> t" "t * prod_list es < 2 ^ 31"
  shows "inner_product t es = Inr (t * prod_list es)"
  using assms
proof (induction es arbitrary: t)
  case (Cons e es)
  have "1 \<le> prod_list es" "1 \<le> e" using Cons.prems prod_list_ge_one by auto
  then have le: "t * e \<le> t * e * prod_list es" "1 \<le> t * e"
    using Cons.prems(2) mult_mono [of 1 t 1 e] mult_left_mono [of 1 "prod_list es" "t * e"] by auto
  have "t * e * prod_list es < 2 ^ 31" using Cons.prems(3) by (simp add: mult.assoc)
  then have "t * e < 2 ^ 31" "- (2 ^ 31) \<le> t * e" using le by linarith+
  then show ?case using Cons le(2) by (simp add: signed_int_def mult.assoc)
qed simp

lemma ends_simps [simp]:
  "ends_of n [] = []" "residuals_of n [] = []"
  "ends_of n (d # ds) = (if dim_name d = n then loop_end d # ends_of n ds else ends_of n ds)"
  "residuals_of n (d # ds) = (if dim_name d = n then residual_end d # residuals_of n ds else residuals_of n ds)"
  by (simp_all add: ends_of_def residuals_of_def)

lemma ends_ge_one: "good_loops ds \<Longrightarrow> \<forall>e \<in> set (ends_of n ds). 1 \<le> e"
  by (auto simp: ends_of_def good_loops_def dest!: bspec)

text \<open>The count of a dimension is the extent of its loops in the last iteration of everything around them.\<close>

lemma count_dim_ok:
  assumes "good_loops ds" "1 \<le> res" "res + dim_product n ds \<le> 2 ^ 31"
  shows "count_dim (ends_of n ds) (residuals_of n ds) res = Inr (res + extent n True ds - 1)"
  using assms
proof (induction ds arbitrary: res)
  case (Cons d ds)
  let ?P = "dim_product n ds" and ?r = "residual_end d" and ?e = "loop_end d"
  show ?case
  proof (cases "dim_name d = n")
    case True
    have pos: "1 \<le> ?P" and d: "1 \<le> ?r" "?r \<le> ?e" using Cons.prems(1) dim_product_pos by auto
    have le: "(?r - 1) * ?P \<le> (?e - 1) * ?P" "0 \<le> (?r - 1) * ?P" "?r - 1 \<le> (?r - 1) * ?P"
      using d pos mult_left_mono [of 1 ?P "?r - 1"] by (auto intro: mult_right_mono)
    have b: "res + (?e - 1) * ?P + ?P \<le> 2 ^ 31" using Cons.prems(3) True by (simp add: algebra_simps)
    obtain q where q: "(?r - 1) * ?P = q" by blast
    have ub: "0 \<le> q" "?r - 1 \<le> q" "res + q + ?P \<le> 2 ^ 31" using le b unfolding q by linarith+
    have "inner_product 1 (ends_of n ds) = Inr ?P"
      using inner_product_ok [of "ends_of n ds" 1] ends_ge_one [of ds n] Cons.prems(1,2) ub
      by (simp add: dim_product_ends)
    moreover have "int32 (?r - 1) = Inr (?r - 1)" "int32 (?P * (?r - 1)) = Inr q" "int32 (res + q) = Inr (res + q)"
      using ub pos Cons.prems(2) d by (simp_all add: signed_int_def q mult.commute [of ?P])
    moreover have "count_dim (ends_of n ds) (residuals_of n ds) (res + q) = Inr (res + q + extent n True ds - 1)"
      using Cons.IH [of "res + q"] Cons.prems ub by simp
    moreover have "extent n True (d # ds) = q + extent n True ds" using True q by simp
    ultimately show ?thesis
      using True by (simp only: ends_simps if_True count_dim.simps and_then_simps) (simp add: algebra_simps)
  next
    case False
    then show ?thesis using Cons by simp
  qed
qed simp

lemma count_dims_ok:
  assumes "good_loops ds" "\<And>n. dim_product n ds < 2 ^ 31"
    and "\<And>n es rs. (n, es, rs) \<in> set m \<Longrightarrow> es = ends_of n ds \<and> rs = residuals_of n ds"
  shows "count_dims m = Inr (map (\<lambda>(n, _). (n, extent n True ds)) m)"
  using assms(3)
proof (induction m)
  case (Cons x m)
  obtain n where x: "x = (n, ends_of n ds, residuals_of n ds)" using Cons.prems by (cases x) auto
  have "1 + dim_product n ds \<le> 2 ^ 31" using assms(2) [of n] by simp
  then have "count_dim (ends_of n ds) (residuals_of n ds) 1 = Inr (extent n True ds)"
    using count_dim_ok [OF assms(1), of 1 n] by simp
  moreover have "count_dims m = Inr (map (\<lambda>(n, _). (n, extent n True ds)) m)"
    using Cons.prems by (intro Cons.IH) auto
  ultimately show ?case using x by simp
qed simp

lemma get_loop_count_ok:
  assumes "good_loops ds" "ds = concat nests" "\<And>n. dim_product n ds < 2 ^ 31"
  shows "\<exists>ns. get_loop_count nests = Inr (map (\<lambda>n. (n, extent n True ds)) ns) \<and> distinct ns \<and> set ns = dim_name ` set ds"
proof -
  obtain m where m: "collect_ends ds [] = Inr m" "collected ([] @ ds) m"
    using collect_ends_ok [of ds "[]" "[]"] assms(1) by (auto simp: collected_def)
  have "count_dims m = Inr (map (\<lambda>(n, _). (n, extent n True ds)) m)"
    by (rule count_dims_ok [OF assms(1,3)]) (use m(2) in \<open>auto simp: collected_def\<close>)
  then have "get_loop_count nests = Inr (map (\<lambda>n. (n, extent n True ds)) (map fst m))"
    using m(1) assms(2) by (simp add: get_loop_count_def comp_def case_prod_beta)
  moreover have "distinct (map fst m)" "set (map fst m) = dim_name ` set ds"
    using m(2) by (auto simp: collected_def)
  ultimately show ?thesis by blast
qed



subsection \<open>Offsets below a chain of tiles\<close>

text \<open>A mapping without fusion: tiles and scopes inside each other, with one operation at the end.\<close>

fun chain :: "eva_attrs list \<Rightarrow> eva_node" where
  "chain [] = EvaNode undefined []"
| "chain [a] = EvaNode a []"
| "chain (a # as) = EvaNode a [chain as]"

definition loops_of :: "eva_attrs list \<Rightarrow> loop_desc list" where
  "loops_of as = concat (map loopnests as)"

lemma loops_of_simps [simp]: "loops_of [] = []" "loops_of (a # as) = loopnests a @ loops_of as"
  by (simp_all add: loops_of_def)

fun good_chain :: "eva_attrs list \<Rightarrow> bool" where
  "good_chain [] = False"
| "good_chain (a # as) \<longleftrightarrow>
     distinct (map dim_name (loopnests a)) \<and> dim_offset a = (\<lambda>_. None) \<and> last_dim_offset a = (\<lambda>_. None) \<and>
     (if as = [] then kind a = Op
      else good_chain as \<and> (kind a = Scope \<and> loopnests a = [] \<or> kind a = Tile) \<and>
        dim_name ` set (loopnests a) \<subseteq> dim_name ` set (loops_of as))"

text \<open>The offsets as they should be: what the loops further in cover, in full and in the last iteration.\<close>

definition offset_map :: "(string \<Rightarrow> int) \<Rightarrow> eva_attrs \<Rightarrow> string \<Rightarrow> int option" where
  "offset_map f a n = (if n \<in> dim_name ` set (loopnests a) then Some (f n) else None)"

fun with_offsets :: "eva_attrs list \<Rightarrow> eva_attrs list" where
  "with_offsets [] = []"
| "with_offsets (a # as) =
     a\<lparr>dim_offset := offset_map (\<lambda>n. dim_product n (loops_of as)) a,
       last_dim_offset := offset_map (\<lambda>n. extent n True (loops_of as)) a\<rparr> # with_offsets as"

lemma dim_product_append: "dim_product n (ds @ es) = dim_product n ds * dim_product n es"
  by (induction ds) auto

lemma extent_append: "extent n final (ds @ es) = (extent n final ds - 1) * dim_product n es + extent n final es"
  by (induction ds) (auto simp: dim_product_append algebra_simps)

lemma single_loop:
  assumes "distinct (map dim_name ds)" "d \<in> set ds"
  shows "dim_product (dim_name d) ds = loop_end d" "extent (dim_name d) True ds = residual_end d"
    and "foldl (\<lambda>p d'. if dim_name d' = dim_name d then (loop_end d', residual_end d') else p) p0 ds = (loop_end d, residual_end d)"
proof -
  have absent: "dim_product n es = 1" "foldl (\<lambda>p d'. if dim_name d' = n then (loop_end d', residual_end d') else p) p es = p"
    if "n \<notin> dim_name ` set es" for n es and p :: "int \<times> int"
    using that by (induction es arbitrary: p) auto
  show "dim_product (dim_name d) ds = loop_end d" "extent (dim_name d) True ds = residual_end d"
    using assms by (induction ds) (auto simp: absent(1) extent_absent)
  show "foldl (\<lambda>p d'. if dim_name d' = dim_name d then (loop_end d', residual_end d') else p) p0 ds = (loop_end d, residual_end d)"
    using assms by (induction ds arbitrary: p0) (auto simp: absent(2))
qed

lemma with_offsets_Nil [simp]: "with_offsets as = [] \<longleftrightarrow> as = []"
  by (cases as) auto

lemma chain_Cons: "chain (a # as) = EvaNode a (if as = [] then [] else [chain as])"
  by (cases as) auto

text \<open>The search finds the loops of the nearest node, whose offsets give the extents of the whole chain.\<close>

lemma dim_product_absent: "n \<notin> dim_name ` set ds \<Longrightarrow> dim_product n ds = 1"
  by (induction ds) auto

lemma bfs_chain:
  assumes "good_chain as" "good_loops (loops_of as)" "n \<in> dim_name ` set (loops_of as)"
  shows "\<exists>off loff e r. BFSOffsetLoop (chain (with_offsets as)) n = Some ((off, loff), (e, r)) \<and>
    1 \<le> off \<and> 1 \<le> loff \<and> 1 \<le> r \<and> r \<le> e \<and>
    e * off = dim_product n (loops_of as) \<and> (r - 1) * off + loff = extent n True (loops_of as)"
  using assms
proof (induction as)
  case (Cons a as)
  show ?case
  proof (cases "n \<in> dim_name ` set (loopnests a)")
    case True
    then obtain d where d: "d \<in> set (loopnests a)" "dim_name d = n" by auto
    have dist: "distinct (map dim_name (loopnests a))" using Cons.prems(1) by simp
    note s = single_loop [OF dist d(1)]
    have "BFSOffsetLoop (chain (with_offsets (a # as))) n =
        Some ((dim_product n (loops_of as), extent n True (loops_of as)), (loop_end d, residual_end d))"
      using True s(3) d(2) by (simp add: BFSOffsetLoop_def chain_Cons offset_map_def del: chain.simps)
    moreover have "loop_end d * dim_product n (loops_of as) = dim_product n (loops_of (a # as))"
      "(residual_end d - 1) * dim_product n (loops_of as) + extent n True (loops_of as) = extent n True (loops_of (a # as))"
      using s(1,2) d(2) by (simp_all add: dim_product_append extent_append)
    moreover have "1 \<le> residual_end d" "residual_end d \<le> loop_end d"
      using Cons.prems(2) d(1) by (auto simp: good_loops_def)
    moreover have "1 \<le> dim_product n (loops_of as)" "1 \<le> extent n True (loops_of as)"
      using Cons.prems(2) dim_product_pos extent_bounds by auto
    ultimately show ?thesis by blast
  next
    case False
    then have below: "n \<in> dim_name ` set (loops_of as)" "as \<noteq> []" "good_chain as" "good_loops (loops_of as)"
      using Cons.prems by (auto split: if_splits)
    have "BFSOffsetLoop (chain (with_offsets (a # as))) n = BFSOffsetLoop (chain (with_offsets as)) n"
      using False below(2) by (simp add: BFSOffsetLoop_def chain_Cons offset_map_def del: chain.simps)
    moreover have "dim_product n (loops_of (a # as)) = dim_product n (loops_of as)"
      "extent n True (loops_of (a # as)) = extent n True (loops_of as)"
      using False by (simp_all add: dim_product_append extent_append dim_product_absent extent_absent)
    ultimately show ?thesis using Cons.IH [OF below(3,4,1)] by simp
  qed
qed simp

lemma tile_offsets_ok:
  assumes "good_chain as" "good_loops (loops_of as)" "\<And>n. dim_product n (loops_of as) < 2 ^ 31"
    and "dim_name ` set ds \<subseteq> dim_name ` set (loops_of as)"
  shows "tile_offsets [chain (with_offsets as)] ds a = Inr (a\<lparr>
    dim_offset := (\<lambda>n. if n \<in> dim_name ` set ds then Some (dim_product n (loops_of as)) else dim_offset a n),
    last_dim_offset := (\<lambda>n. if n \<in> dim_name ` set ds then Some (extent n True (loops_of as)) else last_dim_offset a n)\<rparr>)"
  using assms(4)
proof (induction ds arbitrary: a)
  case (Cons d ds)
  let ?n = "dim_name d"
  obtain off loff e r where f: "BFSOffsetLoop (chain (with_offsets as)) ?n = Some ((off, loff), (e, r))"
    "1 \<le> off" "1 \<le> loff" "1 \<le> r" "r \<le> e" "e * off = dim_product ?n (loops_of as)"
    "(r - 1) * off + loff = extent ?n True (loops_of as)"
    using bfs_chain [OF assms(1,2), of ?n] Cons.prems by auto
  have "extent ?n True (loops_of as) \<le> dim_product ?n (loops_of as)" using extent_bounds [OF assms(2)] by simp
  moreover have "r - 1 \<le> (r - 1) * off" using f(2,4) mult_left_mono [of 1 off "r - 1"] by simp
  ultimately have "int32 (e * off) = Inr (e * off)" "int32 (r - 1) = Inr (r - 1)" "int32 ((r - 1) * off) = Inr ((r - 1) * off)"
    "int32 ((r - 1) * off + loff) = Inr ((r - 1) * off + loff)"
    using assms(3) [of ?n] f(2-7) by (simp_all add: signed_int_def)
  then have "tile_offsets [chain (with_offsets as)] (d # ds) a = tile_offsets [chain (with_offsets as)] ds
      (a\<lparr>dim_offset := (dim_offset a)(?n \<mapsto> dim_product ?n (loops_of as)),
         last_dim_offset := (last_dim_offset a)(?n \<mapsto> extent ?n True (loops_of as))\<rparr>)"
    using f(1,6,7) by (simp del: chain.simps)
  then show ?case using Cons by (simp add: fun_eq_iff del: chain.simps tile_offsets.simps)
qed simp

lemma init_map: "foldl (\<lambda>m d. m(dim_name d \<mapsto> 1)) m0 ds n = (if n \<in> dim_name ` set ds then Some 1 else m0 n)"
  by (induction ds arbitrary: m0) auto

lemma leaf_offsets_eq: "leaf_offsets ds a = a\<lparr>
    dim_offset := (\<lambda>n. if n \<in> dim_name ` set ds then Some 1 else dim_offset a n),
    last_dim_offset := (\<lambda>n. if n \<in> dim_name ` set ds then Some 1 else last_dim_offset a n)\<rparr>"
  by (induction ds arbitrary: a) (simp_all add: fun_eq_iff)

lemma get_offset_chain:
  assumes "good_chain as" "good_loops (loops_of as)" "\<And>n. dim_product n (loops_of as) < 2 ^ 31"
  shows "get_offset (init_offset (chain as)) = Inr (chain (with_offsets as))"
  using assms
proof (induction as)
  case (Cons a as)
  let ?a = "a\<lparr>dim_offset := foldl (\<lambda>m d. m(dim_name d \<mapsto> 1)) (dim_offset a) (loopnests a)\<rparr>"
  have empty: "dim_offset a = (\<lambda>_. None)" "last_dim_offset a = (\<lambda>_. None)" using Cons.prems(1) by simp_all
  have top: "init_offset (chain (a # as)) = EvaNode ?a (if as = [] then [] else [init_offset (chain as)])"
    by (simp add: chain_Cons del: chain.simps)
  show ?case
  proof (cases "as = []")
    case True
    have "leaf_offsets (loopnests a) ?a = hd (with_offsets [a])"
      by (simp add: leaf_offsets_eq init_map empty offset_map_def fun_eq_iff)
    then show ?thesis using True Cons.prems(1) by simp
  next
    case False
    have good: "good_chain as" "good_loops (loops_of as)" using Cons.prems(1,2) False by auto
    have less: "dim_product n (loops_of as) < 2 ^ 31" for n
    proof -
      have "dim_product n (loops_of as) \<le> dim_product n (loopnests a) * dim_product n (loops_of as)"
        using Cons.prems(2) dim_product_pos [of "loops_of as" n] dim_product_pos [of "loopnests a" n]
          mult_right_mono [of 1 "dim_product n (loopnests a)" "dim_product n (loops_of as)"] by simp
      then show ?thesis using Cons.prems(3) [of n] by (simp add: dim_product_append)
    qed
    have IH: "get_offset (init_offset (chain as)) = Inr (chain (with_offsets as))"
      by (rule Cons.IH [OF good less])
    have t: "tile_offsets [chain (with_offsets as)] (loopnests a) ?a = Inr (hd (with_offsets (a # as)))"
      if "dim_name ` set (loopnests a) \<subseteq> dim_name ` set (loops_of as)"
      using tile_offsets_ok [OF good less that, of ?a]
      by (simp add: init_map empty offset_map_def fun_eq_iff del: chain.simps)
    have sc: "?a = hd (with_offsets (a # as))" if "loopnests a = []"
    proof -
      have "offset_map f a = (\<lambda>_. None)" for f using that by (simp add: offset_map_def fun_eq_iff)
      then show ?thesis using that empty by (cases a) simp
    qed
    obtain b where b: "with_offsets (a # as) = b # with_offsets as" "b = hd (with_offsets (a # as))" by simp
    have "with_offsets as \<noteq> []" using False by (cases as) simp_all
    then have goal: "chain (with_offsets (a # as)) = EvaNode b [chain (with_offsets as)]"
      unfolding b(1) chain_Cons by simp
    show ?thesis
    proof (cases "kind a = Scope")
      case True
      then have "?a = b" using sc b(2) Cons.prems(1) False by auto
      moreover have "kind ?a = Scope" using True by simp
      ultimately show ?thesis using False unfolding top goal by (simp add: IH del: chain.simps init_offset.simps)
    next
      case False
      have "tile_offsets [chain (with_offsets as)] (loopnests a) ?a = Inr b"
        unfolding b(2) by (rule t) (use Cons.prems(1) False \<open>as \<noteq> []\<close> in simp)
      then show ?thesis using False \<open>as \<noteq> []\<close> unfolding top goal by (simp add: IH del: chain.simps init_offset.simps)
    qed
  qed
qed simp



subsection \<open>Accepted mappings\<close>

text \<open>The loop nests around every operation of a tree.\<close>

fun op_nests :: "loop_desc list list \<Rightarrow> eva_node \<Rightarrow> loop_desc list list set" where
  "op_nests inherited (EvaNode a cs) =
     (if kind a = Op then {inherited @ [loopnests a]}
      else \<Union> (set (map (op_nests (if kind a = Tile then inherited @ [loopnests a] else inherited)) cs)))"

text \<open>The bound that an operation is checked against.\<close>

definition bound_of :: "(string \<Rightarrow> nat option) \<Rightarrow> (nat \<Rightarrow> int option) \<Rightarrow> string \<Rightarrow> int" where
  "bound_of ids bounds n =
     (case bounds (case ids n of Some i \<Rightarrow> i | None \<Rightarrow> 0) of Some b \<Rightarrow> b | None \<Rightarrow> 0)"

lemma accepted_op:
  "check_loop_count ids bounds inherited t = Inr () \<Longrightarrow> nests \<in> op_nests inherited t \<Longrightarrow>
     \<exists>counts. get_loop_count nests = Inr counts \<and> matches_bounds ids bounds counts"
  "check_children ids bounds inherited ts = Inr () \<Longrightarrow> t \<in> set ts \<Longrightarrow> nests \<in> op_nests inherited t \<Longrightarrow>
     \<exists>counts. get_loop_count nests = Inr counts \<and> matches_bounds ids bounds counts"
proof (induction ids bounds inherited t and ids bounds inherited ts arbitrary: nests and nests t
    rule: check_loop_count_check_children.induct)
  case (1 ids bounds inherited a cs)
  show ?case
  proof (cases "kind a")
    case Op
    then show ?thesis using 1 by (auto simp: and_then_def split: if_splits sum.splits)
  qed (use 1 in \<open>auto split: if_splits\<close>)
next
  case (3 ids bounds inherited c cs)
  then show ?case by (auto simp: and_then_def split: sum.splits)
qed auto

lemma exact: "int32 x = Inr y \<Longrightarrow> y = x"
  by (simp add: signed_int_def split: if_splits)

lemma inner_product_exact: "inner_product t es = Inr p \<Longrightarrow> p = t * prod_list es"
proof (induction es arbitrary: t)
  case (Cons e es)
  then have "inner_product (t * e) es = Inr p" by (auto simp: and_then_def dest!: exact split: sum.splits)
  then show ?case using Cons.IH [of "t * e"] by (simp add: mult.assoc)
qed simp

lemma count_dim_exact:
  "count_dim (ends_of n ds) (residuals_of n ds) res = Inr c \<Longrightarrow> c = res + extent n True ds - 1"
proof (induction ds arbitrary: res)
  case (Cons d ds)
  show ?case
  proof (cases "dim_name d = n")
    case True
    obtain t r1 p res1 where "inner_product 1 (ends_of n ds) = Inr t" "int32 (residual_end d - 1) = Inr r1"
      "int32 (t * r1) = Inr p" "int32 (res + p) = Inr res1" "count_dim (ends_of n ds) (residuals_of n ds) res1 = Inr c"
      using Cons.prems True by (auto simp: and_then_def split: sum.splits)
    then have "c = res1 + extent n True ds - 1" "res1 = res + p" "p = dim_product n ds * (residual_end d - 1)"
      using Cons.IH [of res1] by (auto simp: dim_product_ends dest!: exact inner_product_exact)
    then show ?thesis using True by (simp add: mult.commute)
  qed (use Cons in simp)
qed simp

lemma count_dims_exact:
  assumes "count_dims m = Inr counts" "\<And>n es rs. (n, es, rs) \<in> set m \<Longrightarrow> es = ends_of n ds \<and> rs = residuals_of n ds"
  shows "counts = map (\<lambda>(n, _). (n, extent n True ds)) m"
  using assms
proof (induction m arbitrary: counts)
  case (Cons x m)
  obtain n where x: "x = (n, ends_of n ds, residuals_of n ds)" using Cons.prems(2) by (cases x) auto
  obtain c counts1 where c: "count_dim (ends_of n ds) (residuals_of n ds) 1 = Inr c" "count_dims m = Inr counts1"
    "counts = (n, c) # counts1"
    using Cons.prems(1) x by (cases "count_dims m") (auto simp: and_then_def split: sum.splits)
  have "counts1 = map (\<lambda>(n, _). (n, extent n True ds)) m"
    using Cons.prems(2) by (intro Cons.IH [OF c(2)]) auto
  then show ?case using c(3) count_dim_exact [OF c(1)] x by simp
qed simp

lemma loop_count_exact:
  assumes "get_loop_count nests = Inr counts" "good_loops (concat nests)" "n \<in> dim_name ` set (concat nests)"
  shows "(n, extent n True (concat nests)) \<in> set counts"
proof -
  obtain m where m: "collect_ends (concat nests) [] = Inr m" "collected ([] @ concat nests) m"
    using collect_ends_ok [of "concat nests" "[]" "[]"] assms(2) by (auto simp: collected_def)
  have "counts = map (\<lambda>(n, _). (n, extent n True (concat nests))) m"
    by (rule count_dims_exact) (use assms(1) m in \<open>auto simp: get_loop_count_def collected_def\<close>)
  moreover have "n \<in> fst ` set m" using m(2) assms(3) by (simp add: collected_def)
  ultimately show ?thesis by force
qed




end
