(* ===== verification/Tile_Cost.thy ===== *)
theory Tile_Cost
  imports Tile_Loops
begin

text \<open>
  What LATIAS charges for a tile: the data movement between two tensor ranges
  (\<^verbatim>\<open>src/src/mapper/expr.cpp\<close>), the ranges of a tile (\<open>addCurrentTensor\<close> in
  \<^verbatim>\<open>src/src/loop-analysis/performance.cpp\<close>), the connections between the levels
  (\<^verbatim>\<open>src/src/model/interconnection.cpp\<close>) and the latency of a tile from those of its iterations
  (\<open>computeScopeLatency\<close>, \<open>computeLatency\<close>). Sums of 64-bit latencies are taken not to overflow.
\<close>

subsection \<open>Data movement\<close>

abbreviation int64 :: "int \<Rightarrow> int tileexp" where "int64 \<equiv> signed_int 64"

text \<open>The ranges of the dimensions of a tensor, in the order in which the unordered map yields them.\<close>

type_synonym dim_ranges = "(string \<times> int \<times> int) list"

record tensor_map =
  tensor_dims :: "string list"
  dim_ranges :: dim_ranges

fun volume_loop :: "dim_ranges \<Rightarrow> int \<Rightarrow> int tileexp" where
  "volume_loop [] size2 = Inr size2"
| "volume_loop ((n, low, high) # rs) size2 =
     and_then (int32 (high - low)) (\<lambda>len. and_then (int64 (size2 * len)) (volume_loop rs))"

definition calTensorMapDM_new :: "tensor_map \<Rightarrow> int tileexp" where
  "calTensorMapDM_new after = (if dim_ranges after = [] then Inl Assert_error else volume_loop (dim_ranges after) 1)"

definition overlap_len :: "int \<times> int \<Rightarrow> int \<times> int \<Rightarrow> int" where
  "overlap_len = (\<lambda>(low1, high1) (low2, high2).
     if low1 < low2 then max (min (high1 - low2) (high2 - low2)) 0
     else max (min (high2 - low1) (high1 - low1)) 0)"

fun overlap_loop :: "dim_ranges \<Rightarrow> dim_ranges \<Rightarrow> int \<Rightarrow> int \<Rightarrow> int tileexp" where
  "overlap_loop after [] size2 overlap = int64 (size2 - overlap)"
| "overlap_loop after ((n, r1) # rs) size2 overlap =
     (case map_of after n of
        None \<Rightarrow> overlap_loop after rs size2 overlap
      | Some r2 \<Rightarrow>
          and_then (int64 (size2 * (snd r2 - fst r2))) (\<lambda>s.
          and_then (int64 (overlap * overlap_len r1 r2)) (\<lambda>v. overlap_loop after rs s v)))"

definition calTensorMapDM :: "tensor_map \<Rightarrow> tensor_map \<Rightarrow> int tileexp" where
  "calTensorMapDM tm_before after =
     (if length (tensor_dims tm_before) \<noteq> length (tensor_dims after) \<or> dim_ranges after = [] then Inl Assert_error
      else if dim_ranges tm_before = [] then volume_loop (dim_ranges after) 1
      else overlap_loop (dim_ranges after) (dim_ranges tm_before) 1 1)"

subsection \<open>Ranges of a tile\<close>

text \<open>
  The range of a dimension in the current tile: from the ends and offsets of its own loop, when it has
  one, or from the nearest node further in. The skew is where the enclosing loops are.
\<close>

definition tensor_range :: "(string \<Rightarrow> (int \<times> int) option) \<Rightarrow> (string \<Rightarrow> int \<times> int) \<Rightarrow> int \<Rightarrow> eva_node \<Rightarrow> string \<Rightarrow>
    (int \<times> int) tileexp" where
  "tensor_range current_dim_range current_offset skew node n =
     (case current_dim_range n of
        Some (start, end1) \<Rightarrow>
          (let (off, loff) = current_offset n
           in Inr (start * off + skew, (end1 - 1) * off + loff + skew))
      | None \<Rightarrow>
          (case BFSOffsetLoop node n of
             Some ((off, loff), (e, r)) \<Rightarrow> Inr (skew, skew + off * (r - 1) + loff)
           | None \<Rightarrow> Inl Assert_error))"

subsection \<open>Connections\<close>

datatype con_type = HD | FD | UC | BC | Ring | Mesh | UNKNOWN

record inter_con =
  bandwidth :: nat
  con_type :: con_type
  fanin :: nat
  fanout :: nat

text \<open>The fans from the numbers of instances of the two levels.\<close>

definition set_fans :: "nat \<Rightarrow> nat \<Rightarrow> inter_con \<Rightarrow> inter_con tileexp" where
  "set_fans fan_target fan_source node =
     (if fan_target > fan_source
      then if fan_source = 0 then Inl Division_by_zero else Inr (node\<lparr>fanout := fan_target div fan_source\<rparr>)
      else if fan_target = fan_source then Inr (node\<lparr>fanin := 1, fanout := 1\<rparr>)
      else if fan_target = 0 then Inl Division_by_zero else Inr (node\<lparr>fanin := fan_source div fan_target\<rparr>))"

function last_leaf :: "eva_node \<Rightarrow> eva_node" where
  "last_leaf (EvaNode a cs) = (if cs = [] then EvaNode a cs else last_leaf (last cs))"
  by pat_completeness auto
termination
proof (relation "measure tree_size")
  fix a and cs :: "eva_node list"
  assume "cs \<noteq> []"
  then have "tree_size (last cs) \<le> sum_list (map tree_size cs)" by (intro member_le_sum_list) auto
  then show "(last cs, EvaNode a cs) \<in> measure tree_size" by simp
qed simp

definition getInterConNode :: "(string \<Rightarrow> inter_con option) \<Rightarrow> eva_node \<Rightarrow> nat \<Rightarrow> inter_con tileexp" where
  "getInterConNode intercon node idx =
     (case children node of
        [] \<Rightarrow> Inl Out_of_range
      | c # cs \<Rightarrow>
          (let kids = (if kind (attrs c) = Scope then children c else c # cs) in
           if idx \<ge> length kids then Inl Out_of_range
           else let child = kids ! idx in
             and_then (if kind (attrs child) = Trans
                       then if idx = 0 then Inl Out_of_range else Inr (target_level (attrs (last_leaf (kids ! (idx - 1)))))
                       else Inr (target_level (attrs node)))
               (\<lambda>source. case intercon (source @ ''2'' @ target_level (attrs child)) of
                            Some con \<Rightarrow> Inr con | None \<Rightarrow> Inl Assert_error)))"

subsection \<open>Latencies\<close>

record latency =
  input_latency :: int
  output_latency :: int
  process_latency :: int

definition no_latency :: latency where
  "no_latency = \<lparr>input_latency = 0, output_latency = 0, process_latency = 0\<rparr>"

text \<open>The variable for the transfers is an \<^verbatim>\<open>int\<close>, and keeps its value from child to child.\<close>

definition narrow_int :: "int \<Rightarrow> int" where
  "narrow_int x = sint (word_of_int x :: 32 word)"

definition transfer_latency :: "con_type \<Rightarrow> latency \<Rightarrow> int \<Rightarrow> int" where
  "transfer_latency ct l dm =
     (if ct = HD then narrow_int (input_latency l + output_latency l)
      else if ct = FD then narrow_int (max (input_latency l) (output_latency l))
      else dm)"

definition add_latency :: "scope_type \<Rightarrow> int \<Rightarrow> latency \<Rightarrow> latency \<Rightarrow> latency" where
  "add_latency scope dm l res =
     (if scope = Pipeline
      then \<lparr>input_latency = input_latency res + dm, output_latency = output_latency res + dm,
            process_latency = process_latency res + process_latency l\<rparr>
      else if scope = Sequential
      then \<lparr>input_latency = input_latency res + (output_latency l + input_latency l),
            output_latency = output_latency res + (output_latency l + input_latency l),
            process_latency = process_latency res + process_latency l\<rparr>
      else if scope = Parallel
      then \<lparr>input_latency = max (input_latency res) (input_latency l),
            output_latency = max (output_latency res) (output_latency l),
            process_latency = max (process_latency res) (process_latency l)\<rparr>
      else res)"

fun scope_loop :: "(nat \<Rightarrow> inter_con tileexp) \<Rightarrow> scope_type \<Rightarrow> nat \<Rightarrow> int \<Rightarrow> latency list \<Rightarrow> latency \<Rightarrow> latency tileexp" where
  "scope_loop con scope child_num dm [] res = Inr res"
| "scope_loop con scope child_num dm (l # ls) res =
     and_then (con child_num) (\<lambda>c.
       let dm1 = transfer_latency (con_type c) l dm
       in scope_loop con scope (Suc child_num) dm1 ls (add_latency scope dm1 l res))"

definition computeScopeLatency :: "(nat \<Rightarrow> inter_con tileexp) \<Rightarrow> latency list \<Rightarrow> scope_type \<Rightarrow> latency tileexp" where
  "computeScopeLatency con ls scope = scope_loop con scope 0 0 ls no_latency"

fun temporal_loop :: "(nat \<Rightarrow> inter_con tileexp) \<Rightarrow> scope_type \<Rightarrow> latency list list \<Rightarrow> latency \<Rightarrow> latency tileexp" where
  "temporal_loop con scope [] tot = Inr tot"
| "temporal_loop con scope (ls # lss) tot =
     and_then (computeScopeLatency con ls scope) (\<lambda>b.
       temporal_loop con scope lss
         \<lparr>input_latency = input_latency tot + input_latency b,
          output_latency = output_latency tot + output_latency b,
          process_latency = process_latency tot + process_latency b\<rparr>)"

text \<open>One round of a spatial tile: the blocks of \<open>fanout\<close> iterations.\<close>

fun round_loop :: "(nat \<Rightarrow> inter_con tileexp) \<Rightarrow> scope_type \<Rightarrow> con_type \<Rightarrow> latency list list \<Rightarrow> latency \<Rightarrow> int \<Rightarrow>
    (latency \<times> int) tileexp" where
  "round_loop con scope ct [] tot core = Inr (tot, core)"
| "round_loop con scope ct (ls # lss) tot core =
     and_then (computeScopeLatency con ls scope) (\<lambda>b.
       if ct = UC
       then round_loop con scope ct lss
              \<lparr>input_latency = max (input_latency b) (input_latency tot),
               output_latency = max (output_latency b) (output_latency tot),
               process_latency = max (process_latency b) (process_latency tot)\<rparr> core
       else if ct = BC
       then round_loop con scope ct lss tot
              (max core (input_latency b + output_latency b + process_latency b))
       else round_loop con scope ct lss tot core)"

text \<open>The factor of the transfers is unsigned: \<open>repeat\<close> has 64 bits, the product 32.\<close>

definition unicast_core :: "latency \<Rightarrow> nat \<Rightarrow> nat \<Rightarrow> nat \<Rightarrow> int" where
  "unicast_core tot repeat i fan =
     sint (word_of_int (max (input_latency tot) (output_latency tot)) *
             (of_nat repeat - of_nat (unat (of_nat (i * fan) :: uint32))) +
           word_of_int (process_latency tot) :: uint64)"

fun rounds :: "(nat \<Rightarrow> inter_con tileexp) \<Rightarrow> scope_type \<Rightarrow> con_type \<Rightarrow> nat \<Rightarrow> nat \<Rightarrow> nat \<Rightarrow> latency list list \<Rightarrow> latency \<Rightarrow> int \<Rightarrow>
    nat \<Rightarrow> int tileexp" where
  "rounds con scope ct fan repeat i vec tot res 0 = Inr res"
| "rounds con scope ct fan repeat i vec tot res (Suc n) =
     and_then (round_loop con scope ct (take fan (drop (i * fan) vec)) tot 0) (\<lambda>(tot1, core).
       rounds con scope ct fan repeat (Suc i) vec tot1
         (res + (if ct = UC then unicast_core tot1 repeat i fan else core)) n)"

definition computeLatency :: "(nat \<Rightarrow> inter_con tileexp) \<Rightarrow> bool \<Rightarrow> scope_type \<Rightarrow> latency list list \<Rightarrow> int tileexp" where
  "computeLatency con is_temporal scope vec =
     (if vec = [] then Inl Assert_error
      else and_then (con 0) (\<lambda>c.
        if is_temporal
        then map_sum id (\<lambda>t. max (max (input_latency t) (process_latency t)) (output_latency t))
               (temporal_loop con scope vec no_latency)
        else if fanout c = 0 then Inl Division_by_zero
        else let repeat = (length vec + fanout c - 1) div fanout c
             in rounds con scope (con_type c) (fanout c) repeat 0 vec no_latency 0 repeat))"

text \<open>The latency of a tile of the tree.\<close>

definition tile_latency :: "(string \<Rightarrow> inter_con option) \<Rightarrow> eva_node \<Rightarrow> bool \<Rightarrow> scope_type \<Rightarrow> latency list list \<Rightarrow> int tileexp" where
  "tile_latency intercon node = computeLatency (getInterConNode intercon node)"

subsection \<open>Data movement is the size of the difference\<close>

text \<open>The points of a tensor range.\<close>

definition box :: "dim_ranges \<Rightarrow> (string \<Rightarrow> int) set" where
  "box rs = (\<Pi>\<^sub>E n \<in> fst ` set rs. {fst (the (map_of rs n))..<snd (the (map_of rs n))})"

definition int_range :: "int \<times> int \<Rightarrow> bool" where
  "int_range r \<longleftrightarrow> fst r < snd r \<and> snd r - fst r < 2 ^ 31"

lemma overlap_len_card: "fst r2 \<le> snd r2 \<Longrightarrow> fst r1 \<le> snd r1 \<Longrightarrow> overlap_len r1 r2 = int (card ({fst r2..<snd r2} \<inter> {fst r1..<snd r1}))"
  by (cases r1; cases r2) (auto simp: overlap_len_def)

lemma overlap_len_bounds: "fst r2 \<le> snd r2 \<Longrightarrow> 0 \<le> overlap_len r1 r2 \<and> overlap_len r1 r2 \<le> snd r2 - fst r2"
  by (cases r1; cases r2) (auto simp: overlap_len_def)

lemma volume_loop_ok:
  assumes "\<forall>x \<in> set rs. int_range (snd x)" "1 \<le> s" "s * (\<Prod>(n, low, high)\<leftarrow>rs. high - low) < 2 ^ 63"
  shows "volume_loop rs s = Inr (s * (\<Prod>(n, low, high)\<leftarrow>rs. high - low))"
  using assms
proof (induction rs arbitrary: s)
  case (Cons x rs)
  obtain n low high where x: "x = (n, low, high)" by (cases x)
  let ?P = "\<Prod>(n, low, high)\<leftarrow>rs. high - low"
  have r: "0 < high - low" "high - low < 2 ^ 31" using Cons.prems(1) x by (auto simp: int_range_def)
  have P: "1 \<le> ?P" using Cons.prems(1) by (intro prod_list_ge_one) (auto simp: int_range_def)
  have pos: "1 \<le> s * (high - low)" using Cons.prems(2) r(1) mult_mono [of 1 s 1 "high - low"] by simp
  then have "s * (high - low) \<le> s * (high - low) * ?P" using P mult_left_mono [of 1 ?P "s * (high - low)"] by simp
  moreover have b: "s * (high - low) * ?P < 2 ^ 63" using Cons.prems(3) x by (simp add: mult.assoc)
  ultimately have "int64 (s * (high - low)) = Inr (s * (high - low))" using pos by (simp add: signed_int_def)
  moreover have "int32 (high - low) = Inr (high - low)" using r by (simp add: signed_int_def)
  ultimately show ?case using Cons.IH [of "s * (high - low)"] Cons.prems(1) x pos b by (simp add: mult.assoc)
qed simp

lemma overlap_loop_ok:
  assumes "\<forall>n \<in> fst ` set rs. \<exists>r2. map_of after n = Some r2 \<and> int_range r2" "1 \<le> s" "0 \<le> v" "v \<le> s"
    and "s * (\<Prod>(n, r1)\<leftarrow>rs. snd (the (map_of after n)) - fst (the (map_of after n))) < 2 ^ 63"
  shows "overlap_loop after rs s v = Inr
    (s * (\<Prod>(n, r1)\<leftarrow>rs. snd (the (map_of after n)) - fst (the (map_of after n))) -
     v * (\<Prod>(n, r1)\<leftarrow>rs. overlap_len r1 (the (map_of after n))))"
  using assms
proof (induction rs arbitrary: s v)
  case Nil
  then show ?case by (simp add: signed_int_def)
next
  case (Cons x rs)
  obtain n r1 where x: "x = (n, r1)" by (cases x)
  obtain r2 where r2: "map_of after n = Some r2" "int_range r2" using Cons.prems(1) x by auto
  let ?P = "\<Prod>(n, r1)\<leftarrow>rs. snd (the (map_of after n)) - fst (the (map_of after n))" and ?len = "snd r2 - fst r2"
  have len: "1 \<le> ?len" using r2(2) by (simp add: int_range_def)
  have P: "1 \<le> ?P" using Cons.prems(1) by (intro prod_list_ge_one) (force simp: int_range_def)
  have ov: "0 \<le> overlap_len r1 r2" "overlap_len r1 r2 \<le> ?len" using overlap_len_bounds [of r2 r1] len by auto
  have pos: "1 \<le> s * ?len" using Cons.prems(2) len mult_mono [of 1 s 1 ?len] by simp
  then have "s * ?len \<le> s * ?len * ?P" using P mult_left_mono [of 1 ?P "s * ?len"] by simp
  moreover have b: "s * ?len * ?P < 2 ^ 63" using Cons.prems(5) x r2(1) by (simp add: mult.assoc)
  moreover have v: "0 \<le> v * overlap_len r1 r2" "v * overlap_len r1 r2 \<le> s * ?len"
    using Cons.prems(3,4) ov by (auto intro: mult_mono)
  ultimately have "int64 (s * ?len) = Inr (s * ?len)" "int64 (v * overlap_len r1 r2) = Inr (v * overlap_len r1 r2)"
    using pos unfolding signed_int_def by auto
  then show ?case using Cons.IH [of "s * ?len" "v * overlap_len r1 r2"] Cons.prems(1) x r2(1) pos b v by (simp add: mult.assoc)
qed

lemma prod_list_keys:
  "distinct (map fst rs) \<Longrightarrow> (\<Prod>(n, r)\<leftarrow>rs. f n r) = (\<Prod>n \<in> fst ` set rs. f n (the (map_of rs n)))" for f :: "_ \<Rightarrow> _ \<Rightarrow> int"
proof (induction rs)
  case (Cons x rs)
  obtain n r where x: "x = (n, r)" by (cases x)
  have "(\<Prod>m \<in> fst ` set rs. f m (the (map_of (x # rs) m))) = (\<Prod>m \<in> fst ` set rs. f m (the (map_of rs m)))"
    using Cons.prems x by (intro prod.cong) auto
  then show ?case using Cons x by simp
qed simp

text \<open>C3: the data movement from one tensor range to the next is the number of points of the new range that the
  old one does not have, and that of a first range is its number of points.\<close>

theorem data_movement_is_difference:
  assumes "distinct (map fst (dim_ranges tm_before))" "distinct (map fst (dim_ranges after))"
    and "\<forall>x \<in> set (dim_ranges tm_before) \<union> set (dim_ranges after). int_range (snd x)"
    and "dim_ranges after \<noteq> []" "length (tensor_dims tm_before) = length (tensor_dims after)"
    and "int (card (box (dim_ranges after))) < 2 ^ 63"
    and "dim_ranges tm_before = [] \<or> fst ` set (dim_ranges tm_before) = fst ` set (dim_ranges after)"
  shows "calTensorMapDM tm_before after = Inr (int (card
      (if dim_ranges tm_before = [] then box (dim_ranges after) else box (dim_ranges after) - box (dim_ranges tm_before)))) \<and>
    calTensorMapDM_new after = Inr (int (card (box (dim_ranges after))))"
proof -
  let ?b = "dim_ranges tm_before" and ?a = "dim_ranges after"
  let ?keys = "fst ` set ?a"
  have ra: "int_range (the (map_of ?a n))" if "n \<in> ?keys" for n
    using that assms(2,3) by force
  have rb: "int_range (the (map_of ?b n))" if "n \<in> fst ` set ?b" for n
    using that assms(1,3) by force
  have card_a: "int (card (box ?a)) = (\<Prod>n \<in> ?keys. snd (the (map_of ?a n)) - fst (the (map_of ?a n)))"
    unfolding box_def by (subst card_PiE) (auto simp: int_range_def dest!: ra intro!: prod.cong)
  have vol: "(\<Prod>(n, low, high)\<leftarrow>?a. high - low) = int (card (box ?a))"
  proof -
    have "(\<lambda>(n :: string, low, high). high - low) = (\<lambda>(n, r). snd r - fst r :: int)" by (auto simp: fun_eq_iff)
    then show ?thesis using prod_list_keys [OF assms(2), of "\<lambda>n r. snd r - fst r"] by (simp only: card_a)
  qed
  have new: "volume_loop ?a 1 = Inr (int (card (box ?a)))"
    using volume_loop_ok [of ?a 1] assms(3,6) vol by auto
  show ?thesis
  proof (cases "?b = []")
    case True
    then show ?thesis using new assms(4,5) by (simp add: calTensorMapDM_def calTensorMapDM_new_def)
  next
    case False
    have keys: "fst ` set ?b = ?keys" using assms(7) False by simp
    have inter: "int (card (box ?a \<inter> box ?b)) = (\<Prod>n \<in> ?keys. overlap_len (the (map_of ?b n)) (the (map_of ?a n)))"
    proof -
      have "box ?a \<inter> box ?b = (\<Pi>\<^sub>E n \<in> ?keys. {fst (the (map_of ?a n))..<snd (the (map_of ?a n))} \<inter>
          {fst (the (map_of ?b n))..<snd (the (map_of ?b n))})"
        unfolding box_def keys by (rule PiE_Int)
      moreover have "int (card ({fst (the (map_of ?a n))..<snd (the (map_of ?a n))} \<inter> {fst (the (map_of ?b n))..<snd (the (map_of ?b n))})) =
          overlap_len (the (map_of ?b n)) (the (map_of ?a n))" if "n \<in> ?keys" for n
        using ra [OF that] rb [of n] that keys by (intro overlap_len_card [symmetric]) (auto simp: int_range_def)
      ultimately show ?thesis by (simp add: card_PiE)
    qed
    have fin: "finite (box ?a)" "finite (box ?b)" unfolding box_def by (auto intro: finite_PiE)
    have "overlap_loop ?a ?b 1 1 = Inr (int (card (box ?a)) - int (card (box ?a \<inter> box ?b)))"
    proof -
      have "(\<Prod>(n, r1)\<leftarrow>?b. snd (the (map_of ?a n)) - fst (the (map_of ?a n))) = int (card (box ?a))"
        using prod_list_keys [OF assms(1), of "\<lambda>n _. snd (the (map_of ?a n)) - fst (the (map_of ?a n))"] keys card_a by simp
      moreover have "(\<Prod>(n, r1)\<leftarrow>?b. overlap_len r1 (the (map_of ?a n))) = int (card (box ?a \<inter> box ?b))"
        using prod_list_keys [OF assms(1), of "\<lambda>n r. overlap_len r (the (map_of ?a n))"] keys inter by simp
      moreover have "\<forall>n \<in> fst ` set ?b. \<exists>r2. map_of ?a n = Some r2 \<and> int_range r2"
        using ra keys by (metis (no_types, lifting) map_of_eq_None_iff not_Some_eq option.sel)
      ultimately show ?thesis using overlap_loop_ok [of ?b ?a 1 1] assms(6) by simp
    qed
    then show ?thesis
      using False new assms(4,5) fin card_Diff_subset_Int [of "box ?a" "box ?b"] card_mono [of "box ?a" "box ?a \<inter> box ?b"]
      by (simp add: calTensorMapDM_def calTensorMapDM_new_def of_nat_diff)
  qed
qed

theorem data_movement_is_difference_witness:
  "\<exists>tm_before after. calTensorMapDM tm_before after = Inr 4 \<and> dim_ranges tm_before = [(''M'', 0, 4), (''N'', 0, 2)] \<and>
     dim_ranges after = [(''M'', 2, 6), (''N'', 0, 2)] \<and> int (card (box (dim_ranges after) - box (dim_ranges tm_before))) = 4"
proof -
  let ?b = "[(''M'', 0, 4), (''N'', 0, 2)] :: dim_ranges" and ?a = "[(''M'', 2, 6), (''N'', 0, 2)] :: dim_ranges"
  define tm_before where "tm_before = \<lparr>tensor_dims = [''M'', ''N''], dim_ranges = ?b\<rparr>"
  define after where "after = \<lparr>tensor_dims = [''M'', ''N''], dim_ranges = ?a\<rparr>"
  have f: "dim_ranges tm_before = ?b" "dim_ranges after = ?a" "tensor_dims tm_before = tensor_dims after"
    by (simp_all add: tm_before_def after_def)
  have "calTensorMapDM_new after = Inr 8" by (simp add: calTensorMapDM_new_def f signed_int_def)
  moreover have c: "card (box ?a) = 8" by (simp add: box_def card_PiE)
  moreover have "calTensorMapDM tm_before after = Inr 4"
    by (simp add: calTensorMapDM_def f signed_int_def overlap_len_def)
  moreover have "calTensorMapDM tm_before after = Inr (int (card (box ?a - box ?b)))"
    using data_movement_is_difference [of tm_before after] c by (simp add: f int_range_def insert_commute)
  ultimately show ?thesis using f by (intro exI [of _ tm_before] exI [of _ after]) simp
qed

subsection \<open>Latency of a tile\<close>

definition pipeline_transfer :: "con_type \<Rightarrow> latency \<Rightarrow> int" where
  "pipeline_transfer ct l =
     (if ct = HD then input_latency l + output_latency l else if ct = FD then max (input_latency l) (output_latency l) else 0)"

definition small_latency :: "latency \<Rightarrow> bool" where
  "small_latency l \<longleftrightarrow> 0 \<le> input_latency l \<and> 0 \<le> output_latency l \<and> 0 \<le> process_latency l \<and>
     input_latency l + output_latency l < 2 ^ 31 \<and> process_latency l < 2 ^ 63"

lemma narrow_int_id: "- (2 ^ 31) \<le> x \<Longrightarrow> x < 2 ^ 31 \<Longrightarrow> narrow_int x = x"
  unfolding narrow_int_def signed_of_int by (subst signed_take_bit_int_eq_self) auto

lemma transfer_from_zero: "small_latency l \<Longrightarrow> transfer_latency ct l 0 = pipeline_transfer ct l"
  by (simp add: transfer_latency_def pipeline_transfer_def small_latency_def narrow_int_id max_def)

lemma scope_of_one:
  assumes "con 0 = Inr c" "small_latency l"
  shows "computeScopeLatency con [l] Pipeline = Inr \<lparr>input_latency = pipeline_transfer (con_type c) l,
    output_latency = pipeline_transfer (con_type c) l, process_latency = process_latency l\<rparr>"
  using assms by (simp add: computeScopeLatency_def transfer_from_zero add_latency_def no_latency_def Let_def)

lemma temporal_loop_ones:
  assumes "con 0 = Inr c" "\<forall>l \<in> set ls. small_latency l"
  shows "temporal_loop con Pipeline (map (\<lambda>l. [l]) ls) t = Inr \<lparr>
    input_latency = input_latency t + (\<Sum>l\<leftarrow>ls. pipeline_transfer (con_type c) l),
    output_latency = output_latency t + (\<Sum>l\<leftarrow>ls. pipeline_transfer (con_type c) l),
    process_latency = process_latency t + (\<Sum>l\<leftarrow>ls. process_latency l)\<rparr>"
  using assms(2) by (induction ls arbitrary: t) (simp_all add: scope_of_one [where con = con and c = c, OF assms(1)])

definition longest :: "latency list \<Rightarrow> int" where
  "longest ls = foldl (\<lambda>m l. max m (process_latency l)) 0 ls"

lemma longest_append: "longest (ls @ [l]) = max (longest ls) (process_latency l)"
  by (simp add: longest_def)

lemma round_loop_ones:
  assumes "con 0 = Inr c" "con_type c = UC" "\<forall>l \<in> set ls. small_latency l"
  shows "round_loop con Pipeline UC (map (\<lambda>l. [l]) ls)
      \<lparr>input_latency = 0, output_latency = 0, process_latency = longest seen\<rparr> core =
    Inr (\<lparr>input_latency = 0, output_latency = 0, process_latency = longest (seen @ ls)\<rparr>, core)"
  using assms(3)
proof (induction ls arbitrary: seen)
  case (Cons l ls)
  then show ?case
    using Cons.IH [of "seen @ [l]"] scope_of_one [where con = con and c = c and l = l, OF assms(1)] assms(2)
    by (simp add: pipeline_transfer_def longest_append max.commute)
qed simp

lemma longest_bound:
  "\<forall>l \<in> set ls. small_latency l \<Longrightarrow> 0 \<le> longest ls \<and> longest ls < 2 ^ 63"
  by (induction ls rule: rev_induct) (auto simp: longest_append small_latency_def, simp_all add: longest_def)

lemma rounds_ones:
  assumes "con 0 = Inr c" "con_type c = UC" "\<forall>l \<in> set ls. small_latency l"
  shows "rounds con Pipeline UC fan repeat i (map (\<lambda>l. [l]) ls)
      \<lparr>input_latency = 0, output_latency = 0, process_latency = longest (take (i * fan) ls)\<rparr> res n =
    Inr (res + (\<Sum>k\<leftarrow>[i..<i + n]. longest (take (Suc k * fan) ls)))"
proof (induction n arbitrary: i res)
  case (Suc n)
  let ?next = "longest (take (Suc i * fan) ls)"
  have split: "take (i * fan) ls @ take fan (drop (i * fan) ls) = take (Suc i * fan) ls"
    by (simp add: take_add [symmetric] add.commute)
  have "round_loop con Pipeline UC (take fan (drop (i * fan) (map (\<lambda>l. [l]) ls)))
      \<lparr>input_latency = 0, output_latency = 0, process_latency = longest (take (i * fan) ls)\<rparr> 0 =
    Inr (\<lparr>input_latency = 0, output_latency = 0, process_latency = ?next\<rparr>, 0)"
    using round_loop_ones [where con = con and c = c and ls = "take fan (drop (i * fan) ls)" and seen = "take (i * fan) ls" and core = 0, OF assms(1,2)] assms(3)
    unfolding split by (simp add: drop_map take_map) (meson in_set_dropD in_set_takeD)
  moreover have "unicast_core \<lparr>input_latency = 0, output_latency = 0, process_latency = ?next\<rparr> repeat i fan = ?next"
  proof -
    have "0 \<le> ?next \<and> ?next < 2 ^ 63" by (rule longest_bound) (use assms(3) in \<open>auto dest: in_set_takeD\<close>)
    then have "sint (word_of_int ?next :: uint64) = ?next"
      unfolding signed_of_int by (subst signed_take_bit_int_eq_self) auto
    then show ?thesis by (simp add: unicast_core_def)
  qed
  moreover have "[i..<i + Suc n] = i # [Suc i..<Suc i + n]" by (simp add: upt_conv_Cons)
  ultimately show ?case using Suc [of "Suc i"] by simp
qed simp

text \<open>In a pipelined tile with one child, a temporal tile takes the longer of its transfers and its
  computations, where transfers of a half-duplex connection add up and those of a full-duplex one
  overlap; over any other connection the transfers cost nothing, so that a spatial tile with unicast
  takes the longest computation so far in every round, whatever its transfers are.\<close>

theorem pipeline_tile_latency:
  assumes "con 0 = Inr c" "ls \<noteq> []" "\<forall>l \<in> set ls. small_latency l"
  shows "computeLatency con True Pipeline (map (\<lambda>l. [l]) ls) =
      Inr (max (\<Sum>l\<leftarrow>ls. pipeline_transfer (con_type c) l) (\<Sum>l\<leftarrow>ls. process_latency l)) \<and>
    (con_type c = UC \<and> 0 < fanout c \<longrightarrow>
      computeLatency con False Pipeline (map (\<lambda>l. [l]) ls) =
        Inr (\<Sum>k\<leftarrow>[0..<(length ls + fanout c - 1) div fanout c]. longest (take (Suc k * fanout c) ls)))"
proof -
  have "computeLatency con True Pipeline (map (\<lambda>l. [l]) ls) =
      Inr (max (\<Sum>l\<leftarrow>ls. pipeline_transfer (con_type c) l) (\<Sum>l\<leftarrow>ls. process_latency l))"
    using assms(2) temporal_loop_ones [where con = con and c = c and ls = ls and t = no_latency, OF assms(1,3)]
    by (simp add: computeLatency_def assms(1)) (simp add: no_latency_def)
  moreover have "computeLatency con False Pipeline (map (\<lambda>l. [l]) ls) =
      Inr (\<Sum>k\<leftarrow>[0..<(length ls + fanout c - 1) div fanout c]. longest (take (Suc k * fanout c) ls))"
    if "con_type c = UC \<and> 0 < fanout c"
  proof -
    have "no_latency = \<lparr>input_latency = 0, output_latency = 0, process_latency = longest (take (0 * fanout c) ls)\<rparr>"
      by (simp add: no_latency_def longest_def)
    then show ?thesis
      using that assms(2) rounds_ones [where con = con and c = c and ls = ls and fan = "fanout c" and i = 0 and res = 0, OF assms(1) _ assms(3)] by (simp add: computeLatency_def assms(1))
  qed
  ultimately show ?thesis by blast
qed

theorem pipeline_tile_latency_witness:
  "\<exists>con l. input_latency l = 1000 \<and> process_latency l = 1 \<and> computeLatency con False Pipeline [[l], [l], [l]] = Inr 2"
proof -
  define c where "c = \<lparr>bandwidth = 1, con_type = UC, fanin = 0, fanout = 2\<rparr>"
  define l where "l = \<lparr>input_latency = 1000, output_latency = 1000, process_latency = 1\<rparr>"
  have f: "con_type c = UC \<and> 0 < fanout c" "fanout c = 2" "\<forall>x \<in> set [l, l, l]. small_latency x"
    by (simp_all add: c_def l_def small_latency_def)
  have "computeLatency (\<lambda>_. Inr c) False Pipeline (map (\<lambda>x. [x]) [l, l, l]) =
      Inr (\<Sum>k\<leftarrow>[0..<(length [l, l, l] + fanout c - 1) div fanout c]. longest (take (Suc k * fanout c) [l, l, l]))"
    using pipeline_tile_latency [of "\<lambda>_. Inr c" c "[l, l, l]"] f by blast
  also have "\<dots> = Inr 2" by (simp add: f(2) longest_def l_def upt_rec)
  finally show ?thesis by (intro exI [of _ "\<lambda>_. Inr c"] exI [of _ l]) (simp add: l_def)
qed


end
