(* ===== verification/Tile_Tensors.thy ===== *)
theory Tile_Tensors
  imports Tile_Cost "HOL-Library.Sublist"
begin

text \<open>
  Which tensors every node of the mapping tree reads and writes (\<^verbatim>\<open>src/src/loop-analysis/init.cpp\<close>): the
  first pass, \<open>initOpTensor\<close>, lists the leaves and the producer of every tensor; the second, \<open>initTensor\<close>,
  attaches the inputs of every operation to the nodes above it, up to the first tile that also holds the
  producer (\<open>findCommonNode\<close>), and what is produced to the transfers that carry it. The offsets, which the
  same class computes, are in \<open>Tile_Loops\<close>.
\<close>

subsection \<open>Nodes and their ancestors\<close>

text \<open>
  The code refers to nodes by pointers. Here a node is named by the positions of the children that lead
  to it from the root, the last one first, so that \<open>tl\<close> is \<open>get_parent\<close> and the root is \<open>[]\<close>.
\<close>

type_synonym node_id = "nat list"

text \<open>The chain of \<open>get_parent\<close> that starts at the parent of a node.\<close>

fun parent_chain :: "node_id \<Rightarrow> node_id list" where
  "parent_chain [] = []"
| "parent_chain (i # v) = v # parent_chain v"

text \<open>The node with a name, found from the root.\<close>

fun node_below :: "eva_node \<Rightarrow> nat list \<Rightarrow> eva_node option" where
  "node_below t [] = Some t"
| "node_below t (i # is) = (if i < length (children t) then node_below (children t ! i) is else None)"

definition node_at :: "eva_node \<Rightarrow> node_id \<Rightarrow> eva_node option" where
  "node_at root v = node_below root (rev v)"

definition is_scope :: "eva_node \<Rightarrow> node_id \<Rightarrow> bool" where
  "is_scope root v = (case node_at root v of Some n \<Rightarrow> kind (attrs n) = Scope | None \<Rightarrow> False)"

subsection \<open>The problem\<close>

text \<open>The tensors of an operation, and the dimensions that a tensor is indexed by.\<close>

record workload =
  ins :: "string list"
  out :: string

record shape =
  DataSpaceNameToID :: "string \<Rightarrow> nat option"
  Projections :: "nat list list list"
  FactorizedDimensionIDToName :: "nat \<Rightarrow> string option"

record problem =
  workloads :: "string \<Rightarrow> workload option"
  common_shape :: shape

fun after_colons :: "string \<Rightarrow> string option" where
  "after_colons (a # b # s) = (if a = CHR '':'' \<and> b = CHR '':'' then Some s else after_colons (b # s))"
| "after_colons _ = None"

definition nameSub :: "string \<Rightarrow> string" where
  "nameSub input = (case after_colons input of Some s \<Rightarrow> s | None \<Rightarrow> input)"

text \<open>The inputs of an operation, and its output as the last one.\<close>

definition getInOutTensor :: "problem \<Rightarrow> string \<Rightarrow> string list tileexp" where
  "getInOutTensor pb n =
     (case workloads pb n of None \<Rightarrow> Inl Assert_error | Some w \<Rightarrow> Inr (ins w @ [out w]))"

text \<open>Unknown names and identifiers are looked up with \<open>operator[]\<close>, which gives 0 and the empty name.\<close>

definition projected_dims :: "shape \<Rightarrow> string \<Rightarrow> string list tileexp" where
  "projected_dims sh tensor =
     (let i = (case DataSpaceNameToID sh tensor of Some i \<Rightarrow> i | None \<Rightarrow> 0) in
      if i < length (Projections sh)
      then Inr (map (\<lambda>k. case FactorizedDimensionIDToName sh k of Some d \<Rightarrow> d | None \<Rightarrow> []) (concat (Projections sh ! i)))
      else Inl Out_of_range)"

fun dim_names_loop :: "shape \<Rightarrow> string list \<Rightarrow> (string \<Rightarrow> string list option) \<Rightarrow> (string \<Rightarrow> string list option) tileexp" where
  "dim_names_loop sh [] res = Inr res"
| "dim_names_loop sh (n # ns) res = and_then (projected_dims sh n) (\<lambda>ds. dim_names_loop sh ns (res(n \<mapsto> ds)))"

definition getDimName :: "problem \<Rightarrow> string list \<Rightarrow> (string \<Rightarrow> string list option) tileexp" where
  "getDimName pb names = dim_names_loop (common_shape pb) names (\<lambda>_. None)"

text \<open>The tensor maps that the passes add have no ranges yet.\<close>

definition new_tensor :: "(string \<Rightarrow> string list option) \<Rightarrow> string \<Rightarrow> tensor_map" where
  "new_tensor dimName t =
     \<lparr>tensor_dims = (case dimName t of Some ds \<Rightarrow> ds | None \<Rightarrow> []), dim_ranges = []\<rparr>"

subsection \<open>The leaves and the producers\<close>

record init_state =
  op_num :: int
  leaf_vec :: "node_id list"
  producer_map :: "string \<Rightarrow> (tensor_map \<times> node_id) option"
  input_tensors :: "node_id \<Rightarrow> string \<Rightarrow> tensor_map option"
  output_tensors :: "node_id \<Rightarrow> string \<Rightarrow> tensor_map option"

definition init_start :: init_state where
  "init_start = \<lparr>op_num = 0, leaf_vec = [], producer_map = (\<lambda>_. None),
     input_tensors = (\<lambda>_ _. None), output_tensors = (\<lambda>_ _. None)\<rparr>"

definition add_input_tensors :: "node_id \<Rightarrow> string \<Rightarrow> tensor_map \<Rightarrow> init_state \<Rightarrow> init_state" where
  "add_input_tensors v t tm st = st\<lparr>input_tensors := (input_tensors st)(v := (input_tensors st v)(t \<mapsto> tm))\<rparr>"

definition add_output_tensors :: "node_id \<Rightarrow> string \<Rightarrow> tensor_map \<Rightarrow> init_state \<Rightarrow> init_state" where
  "add_output_tensors v t tm st = st\<lparr>output_tensors := (output_tensors st)(v := (output_tensors st v)(t \<mapsto> tm))\<rparr>"

text \<open>The tensors of an operation: the last one is its output, whose producer it becomes.\<close>

fun op_tensor_loop :: "(string \<Rightarrow> string list option) \<Rightarrow> node_id \<Rightarrow> string list \<Rightarrow> init_state \<Rightarrow> init_state tileexp" where
  "op_tensor_loop dimName v [] st = Inr st"
| "op_tensor_loop dimName v [t] st =
     (let tm = new_tensor dimName t; st1 = add_output_tensors v t tm st in
      case producer_map st1 t of
        None \<Rightarrow> Inr (st1\<lparr>producer_map := (producer_map st1)(t \<mapsto> (tm, v))\<rparr>)
      | Some _ \<Rightarrow> Inl Assert_error)"
| "op_tensor_loop dimName v (t # t1 # ts) st =
     op_tensor_loop dimName v (t1 # ts) (add_input_tensors v t (new_tensor dimName t) st)"

definition init_op_leaf :: "problem \<Rightarrow> node_id \<Rightarrow> eva_attrs \<Rightarrow> init_state \<Rightarrow> init_state tileexp" where
  "init_op_leaf pb v a st =
     (if kind a = Op
      then and_then (int32 (op_num st + 1)) (\<lambda>k.
           and_then (getInOutTensor pb (nameSub (node_name a))) (\<lambda>tensorName.
           and_then (getDimName pb tensorName) (\<lambda>dimName.
             op_tensor_loop dimName v tensorName (st\<lparr>op_num := k, leaf_vec := leaf_vec st @ [v]\<rparr>))))
      else if kind a = Trans then Inr (st\<lparr>leaf_vec := leaf_vec st @ [v]\<rparr>)
      else Inr st)"

fun initOpTensor :: "problem \<Rightarrow> node_id \<Rightarrow> eva_node \<Rightarrow> init_state \<Rightarrow> init_state tileexp"
  and initOpTensors :: "problem \<Rightarrow> node_id \<Rightarrow> nat \<Rightarrow> eva_node list \<Rightarrow> init_state \<Rightarrow> init_state tileexp"
where
  "initOpTensor pb v (EvaNode a cs) st = and_then (initOpTensors pb v 0 cs st) (init_op_leaf pb v a)"
| "initOpTensors pb v i [] st = Inr st"
| "initOpTensors pb v i (c # cs) st =
     and_then (initOpTensor pb (i # v) c st) (initOpTensors pb v (Suc i) cs)"

subsection \<open>The nodes between a producer and a consumer\<close>

text \<open>The inner loop of the search: the first ancestor of the consumer that is the given one and no scope.\<close>

fun target_index :: "eva_node \<Rightarrow> node_id \<Rightarrow> node_id list \<Rightarrow> nat" where
  "target_index root u [] = 0"
| "target_index root u (w # ws) = (if \<not> is_scope root w \<and> u = w then 0 else Suc (target_index root u ws))"

text \<open>The outer loop, with both counters; the common node is the one at \<open>i\<close>, when the search stops there.\<close>

fun common_loop :: "eva_node \<Rightarrow> node_id list \<Rightarrow> node_id list \<Rightarrow> nat \<Rightarrow> nat \<Rightarrow> nat \<times> nat \<times> node_id option" where
  "common_loop root [] target_path i j = (i, j, None)"
| "common_loop root (u # us) target_path i j =
     (if is_scope root u then common_loop root us target_path (Suc i) 0
      else let j1 = target_index root u target_path in
        if j1 < length target_path then (i, j1, Some u)
        else common_loop root us target_path (Suc i) j1)"

text \<open>The position that \<open>std::find\<close> returns.\<close>

fun find_index :: "'a \<Rightarrow> 'a list \<Rightarrow> nat" where
  "find_index x [] = 0"
| "find_index x (y # ys) = (if x = y then 0 else Suc (find_index x ys))"

text \<open>
  The path of the producer and that of the consumer. Erasing from one before the first ancestor, which
  happens when the common node is the parent of a producer that is followed by its consumer, is
  undefined. Without a common node the paths are empty.
\<close>

definition findCommonNode :: "eva_node \<Rightarrow> node_id list \<Rightarrow> node_id \<Rightarrow> node_id \<Rightarrow> (node_id list \<times> node_id list) tileexp" where
  "findCommonNode root leafs source target =
     (let source_path = parent_chain source; target_path = parent_chain target;
          (i, j, common_node) = common_loop root source_path target_path 0 0;
          source_idx = find_index source leafs;
          distance = int (find_index target leafs) - int source_idx in
      and_then
        (if distance = 1
         then if i = 0 then Inl Out_of_range else Inr (take (i - 1) source_path)
         else Inr (map (\<lambda>k. leafs ! (source_idx + k)) [1..<nat distance]))
        (\<lambda>source_path1.
          if common_node = None then Inr ([], []) else Inr (source_path1, take j target_path)))"

subsection \<open>Attaching the tensors\<close>

definition add_path_tensor :: "node_id list \<Rightarrow> string \<Rightarrow> tensor_map \<Rightarrow> bool \<Rightarrow> init_state \<Rightarrow> init_state" where
  "add_path_tensor path t tm is_input st =
     foldl (\<lambda>st v. if is_input then add_input_tensors v t tm st else add_output_tensors v t tm st) st path"

definition addParentTensor :: "node_id \<Rightarrow> string \<Rightarrow> tensor_map \<Rightarrow> bool \<Rightarrow> init_state \<Rightarrow> init_state" where
  "addParentTensor source = add_path_tensor (parent_chain source)"

text \<open>One tensor of an operation; \<open>op_num\<close> counts the operations that are still to be visited.\<close>

definition attach_output :: "node_id \<Rightarrow> string \<Rightarrow> tensor_map \<Rightarrow> init_state \<Rightarrow> init_state" where
  "attach_output v t tm st =
     (if op_num st = 0
      then addParentTensor (last (leaf_vec st)) t tm False
             (add_path_tensor (drop (find_index v (leaf_vec st)) (leaf_vec st)) t tm False st)
      else st)"

definition attach_input :: "eva_node \<Rightarrow> node_id \<Rightarrow> string \<Rightarrow> tensor_map \<Rightarrow> init_state \<Rightarrow> init_state tileexp" where
  "attach_input root v t tm st =
     (case producer_map st t of
        Some (_, producer_node) \<Rightarrow>
          and_then (findCommonNode root (leaf_vec st) producer_node v) (\<lambda>(producer_path, consumer_path).
            Inr (add_path_tensor consumer_path t tm True (add_path_tensor producer_path t tm False st)))
      | None \<Rightarrow> Inr (addParentTensor v t tm True st))"

fun tensor_loop :: "eva_node \<Rightarrow> (string \<Rightarrow> string list option) \<Rightarrow> node_id \<Rightarrow> string list \<Rightarrow> init_state \<Rightarrow> init_state tileexp" where
  "tensor_loop root dimName v [] st = Inr st"
| "tensor_loop root dimName v [t] st = Inr (attach_output v t (new_tensor dimName t) st)"
| "tensor_loop root dimName v (t # t1 # ts) st =
     and_then (attach_input root v t (new_tensor dimName t) st) (tensor_loop root dimName v (t1 # ts))"

definition init_tensor_leaf :: "problem \<Rightarrow> eva_node \<Rightarrow> node_id \<Rightarrow> eva_attrs \<Rightarrow> init_state \<Rightarrow> init_state tileexp" where
  "init_tensor_leaf pb root v a st =
     (if kind a = Op
      then and_then (int32 (op_num st - 1)) (\<lambda>k.
           and_then (getInOutTensor pb (nameSub (node_name a))) (\<lambda>tensorName.
           and_then (getDimName pb tensorName) (\<lambda>dimName.
             tensor_loop root dimName v tensorName (st\<lparr>op_num := k\<rparr>))))
      else Inr st)"

fun initTensor :: "problem \<Rightarrow> eva_node \<Rightarrow> node_id \<Rightarrow> eva_node \<Rightarrow> init_state \<Rightarrow> init_state tileexp"
  and initTensors :: "problem \<Rightarrow> eva_node \<Rightarrow> node_id \<Rightarrow> nat \<Rightarrow> eva_node list \<Rightarrow> init_state \<Rightarrow> init_state tileexp"
where
  "initTensor pb root v (EvaNode a cs) st = and_then (initTensors pb root v 0 cs st) (init_tensor_leaf pb root v a)"
| "initTensors pb root v i [] st = Inr st"
| "initTensors pb root v i (c # cs) st =
     and_then (initTensor pb root (i # v) c st) (initTensors pb root v (Suc i) cs)"

text \<open>The two passes over the tree.\<close>

definition init_tensors :: "problem \<Rightarrow> eva_node \<Rightarrow> init_state tileexp" where
  "init_tensors pb root = and_then (initOpTensor pb [] root init_start) (initTensor pb root [] root)"

subsection \<open>The passes as loops over the nodes\<close>

text \<open>The nodes below a node in the order in which the visits of them end, and the visits one after the other.\<close>

fun post_order :: "node_id \<Rightarrow> eva_node \<Rightarrow> (node_id \<times> eva_attrs) list"
  and post_orders :: "node_id \<Rightarrow> nat \<Rightarrow> eva_node list \<Rightarrow> (node_id \<times> eva_attrs) list"
where
  "post_order v (EvaNode a cs) = post_orders v 0 cs @ [(v, a)]"
| "post_orders v i [] = []"
| "post_orders v i (c # cs) = post_order (i # v) c @ post_orders v (Suc i) cs"

fun visit_all :: "(node_id \<Rightarrow> eva_attrs \<Rightarrow> 's \<Rightarrow> 's tileexp) \<Rightarrow> (node_id \<times> eva_attrs) list \<Rightarrow> 's \<Rightarrow> 's tileexp" where
  "visit_all f [] st = Inr st"
| "visit_all f ((v, a) # xs) st = and_then (f v a st) (visit_all f xs)"

lemma and_then_Inr [simp]: "and_then r Inr = r"
  by (cases r) simp_all

lemma and_then_eq_Inr: "and_then r f = Inr y \<longleftrightarrow> (\<exists>x. r = Inr x \<and> f x = Inr y)"
  by (cases r) simp_all

lemma visit_all_append: "visit_all f (xs @ ys) st = and_then (visit_all f xs st) (visit_all f ys)"
  by (induction f xs st rule: visit_all.induct) (simp_all add: and_then_def split: sum.splits)

lemma initOpTensor_visits:
  "initOpTensor pb v t st = visit_all (init_op_leaf pb) (post_order v t) st"
  "initOpTensors pb v i ts st = visit_all (init_op_leaf pb) (post_orders v i ts) st"
  by (induction pb v t st and pb v i ts st rule: initOpTensor_initOpTensors.induct)
    (simp_all add: visit_all_append cong: if_cong, simp_all add: and_then_def split: sum.splits)

lemma initTensor_visits:
  "initTensor pb root v t st = visit_all (init_tensor_leaf pb root) (post_order v t) st"
  "initTensors pb root v i ts st = visit_all (init_tensor_leaf pb root) (post_orders v i ts) st"
  by (induction pb root v t st and pb root v i ts st rule: initTensor_initTensors.induct)
    (simp_all add: visit_all_append, simp_all add: and_then_def split: sum.splits)

subsection \<open>Names of nodes\<close>

text \<open>A node is above another when its name is a proper suffix of the name of the other.\<close>

lemma parent_chain_suffixes: "set (parent_chain v) = {w. strict_suffix w v}"
proof (induction v)
  case (Cons i v)
  have "strict_suffix w (i # v) \<longleftrightarrow> w = v \<or> strict_suffix w v" for w
    using suffix_length_le [of "i # v" v] by (auto simp: strict_suffix_def suffix_Cons)
  then show ?case using Cons by auto
qed (simp add: strict_suffix_def)

lemma parent_chain_nth: "k < length v \<Longrightarrow> parent_chain v ! k = drop (Suc k) v"
  by (induction v arbitrary: k) (auto simp: nth_Cons split: nat.splits)

lemma length_parent_chain [simp]: "length (parent_chain v) = length v"
  by (induction v) auto

lemma post_order_below:
  "(u, a) \<in> set (post_order v t) \<longleftrightarrow> (\<exists>is n. u = rev is @ v \<and> node_below t is = Some n \<and> attrs n = a)"
  "(u, a) \<in> set (post_orders v i ts) \<longleftrightarrow>
     (\<exists>k < length ts. \<exists>is n. u = rev is @ (i + k) # v \<and> node_below (ts ! k) is = Some n \<and> attrs n = a)"
proof (induction v t and v i ts rule: post_order_post_orders.induct)
  case (1 v b cs)
  have "(\<exists>is n. u = rev is @ v \<and> node_below (EvaNode b cs) is = Some n \<and> attrs n = a) \<longleftrightarrow>
      u = v \<and> a = b \<or> (\<exists>k < length cs. \<exists>is n. u = rev is @ k # v \<and> node_below (cs ! k) is = Some n \<and> attrs n = a)" (is "?l \<longleftrightarrow> ?r")
  proof
    assume ?l
    then obtain "is" n where n: "u = rev is @ v" "node_below (EvaNode b cs) is = Some n" "attrs n = a" by blast
    then show ?r by (cases "is") (auto split: if_splits)
  next
    assume ?r
    then consider "u = v" "a = b" | k "is" n where "k < length cs" "u = rev is @ k # v" "node_below (cs ! k) is = Some n" "attrs n = a"
      by blast
    then show ?l
    proof cases
      case 1
      then show ?thesis by (intro exI [of _ "[]"]) simp
    next
      case (2 k "is" n)
      then show ?thesis by (intro exI [of _ "k # is"] exI [of _ n]) simp
    qed
  qed
  then show ?case using 1 by auto
next
  case (3 v i c cs)
  have "(\<exists>k < length (c # cs). \<exists>is n. u = rev is @ (i + k) # v \<and> node_below ((c # cs) ! k) is = Some n \<and> attrs n = a) \<longleftrightarrow>
      (\<exists>is n. u = rev is @ i # v \<and> node_below c is = Some n \<and> attrs n = a) \<or>
      (\<exists>k < length cs. \<exists>is n. u = rev is @ (Suc i + k) # v \<and> node_below (cs ! k) is = Some n \<and> attrs n = a)"
    by (simp add: Ex_less_Suc2)
  then show ?case using 3 by simp
qed simp

lemma last_step: "rev is @ i # v = rev js @ j # v \<Longrightarrow> i = j" for v :: node_id
  using append_same_eq [of "rev is @ [i]" v "rev js @ [j]"] by simp

lemma distinct_post_order:
  "distinct (map fst (post_order v t))"
  "distinct (map fst (post_orders v i ts))"
proof (induction v t and v i ts rule: post_order_post_orders.induct)
  case (1 v b cs)
  have "fst x \<noteq> v" if "x \<in> set (post_orders v 0 cs)" for x
  proof -
    obtain u a where x: "x = (u, a)" by (cases x)
    then show ?thesis using that by (auto simp: post_order_below)
  qed
  then show ?case using 1 by auto
next
  case (3 v i c cs)
  have "fst x \<noteq> fst y" if xy: "x \<in> set (post_order (i # v) c)" "y \<in> set (post_orders v (Suc i) cs)" for x y
  proof -
    obtain u a w b where x: "x = (u, a)" "y = (w, b)" by (cases x, cases y)
    obtain "is" js k where n: "u = rev is @ i # v" "w = rev js @ (Suc i + k) # v"
      using xy [unfolded x] unfolding post_order_below by blast
    show ?thesis
    proof
      assume "fst x = fst y"
      then have "rev is @ i # v = rev js @ (Suc i + k) # v" using x n by simp
      from last_step [OF this] show False by simp
    qed
  qed
  then show ?case using 3 by (auto simp: image_iff)
qed simp

lemma post_order_unique: "(u, a) \<in> set (post_order v t) \<Longrightarrow> (u, b) \<in> set (post_order v t) \<Longrightarrow> a = b"
  using distinct_post_order(1) [of v t] by (metis eq_key_imp_eq_value)

text \<open>The nodes of the whole tree.\<close>

lemma nodes_of_root: "(u, a) \<in> set (post_order [] root) \<longleftrightarrow> (\<exists>n. node_at root u = Some n \<and> attrs n = a)"
  unfolding post_order_below(1) node_at_def by (metis append_Nil2 rev_rev_ident)

lemma node_below_append:
  "node_below t (is @ js) = (case node_below t is of None \<Rightarrow> None | Some n \<Rightarrow> node_below n js)"
  by (induction t "is" rule: node_below.induct) auto

lemma node_at_append:
  "node_at root (us @ v) = (case node_at root v of None \<Rightarrow> None | Some n \<Rightarrow> node_below n (rev us))"
  by (simp add: node_at_def node_below_append)

subsection \<open>What a tree reads and writes\<close>

definition reads :: "problem \<Rightarrow> eva_attrs \<Rightarrow> string set" where
  "reads pb a = (case workloads pb (nameSub (node_name a)) of
     Some w \<Rightarrow> if kind a = Op then set (ins w) else {} | None \<Rightarrow> {})"

definition writes :: "problem \<Rightarrow> eva_attrs \<Rightarrow> string set" where
  "writes pb a = (case workloads pb (nameSub (node_name a)) of
     Some w \<Rightarrow> if kind a = Op then {out w} else {} | None \<Rightarrow> {})"

text \<open>The tensors that the operations of a tree read and write.\<close>

fun tree_reads :: "problem \<Rightarrow> eva_node \<Rightarrow> string set" where
  "tree_reads pb (EvaNode a cs) = reads pb a \<union> \<Union> (set (map (tree_reads pb) cs))"

fun tree_writes :: "problem \<Rightarrow> eva_node \<Rightarrow> string set" where
  "tree_writes pb (EvaNode a cs) = writes pb a \<union> \<Union> (set (map (tree_writes pb) cs))"

lemma tree_reads_post_order:
  "tree_reads pb t = (\<Union>(u, a) \<in> set (post_order v t). reads pb a)"
  "\<Union> (set (map (tree_reads pb) ts)) = (\<Union>(u, a) \<in> set (post_orders v i ts). reads pb a)"
  by (induction v t and v i ts rule: post_order_post_orders.induct) auto

lemma tree_writes_post_order:
  "tree_writes pb t = (\<Union>(u, a) \<in> set (post_order v t). writes pb a)"
  "\<Union> (set (map (tree_writes pb) ts)) = (\<Union>(u, a) \<in> set (post_orders v i ts). writes pb a)"
  by (induction v t and v i ts rule: post_order_post_orders.induct) auto

subsection \<open>The first pass\<close>

text \<open>A map that one of the passes adds: the dimensions of the tensor, and no ranges.\<close>

definition fresh_tensor :: "problem \<Rightarrow> string \<Rightarrow> tensor_map \<Rightarrow> bool" where
  "fresh_tensor pb t tm \<longleftrightarrow> projected_dims (common_shape pb) t = Inr (tensor_dims tm) \<and> dim_ranges tm = []"

lemma dim_names_loop_ok:
  "dim_names_loop sh ns res = Inr d \<Longrightarrow> (\<And>n ds. res n = Some ds \<Longrightarrow> projected_dims sh n = Inr ds) \<Longrightarrow>
     (\<forall>n ds. d n = Some ds \<longrightarrow> projected_dims sh n = Inr ds) \<and> (\<forall>n. n \<in> set ns \<or> res n \<noteq> None \<longrightarrow> d n \<noteq> None)"
proof (induction sh ns res rule: dim_names_loop.induct)
  case (2 sh n ns res)
  obtain ds where ds: "projected_dims sh n = Inr ds" "dim_names_loop sh ns (res(n \<mapsto> ds)) = Inr d"
    using 2(2) by (auto simp: and_then_eq_Inr)
  have "\<And>m es. (res(n \<mapsto> ds)) m = Some es \<Longrightarrow> projected_dims sh m = Inr es"
    using 2(3) ds(1) by (auto split: if_splits)
  from 2(1) [OF ds(2) this] show ?case by auto
qed auto

lemma new_tensor_fresh:
  "getDimName pb ns = Inr d \<Longrightarrow> t \<in> set ns \<Longrightarrow> fresh_tensor pb t (new_tensor d t)"
  using dim_names_loop_ok [of "common_shape pb" ns "\<lambda>_. None" d]
  by (fastforce simp: getDimName_def fresh_tensor_def new_tensor_def split: option.splits)

lemma op_tensor_loop_snoc:
  "op_tensor_loop d v (ts @ [t]) st =
     (if producer_map st t = None
      then Inr (st\<lparr>input_tensors := (input_tensors st)(v := (\<lambda>x. if x \<in> set ts then Some (new_tensor d x) else input_tensors st v x)),
                   output_tensors := (output_tensors st)(v := (output_tensors st v)(t \<mapsto> new_tensor d t)),
                   producer_map := (producer_map st)(t \<mapsto> (new_tensor d t, v))\<rparr>)
      else Inl Assert_error)"
proof (induction ts arbitrary: st)
  case Nil
  then show ?case by (simp add: Let_def add_output_tensors_def fun_upd_def split: option.splits)
next
  case (Cons x ts)
  have "op_tensor_loop d v ((x # ts) @ [t]) st = op_tensor_loop d v (ts @ [t]) (add_input_tensors v x (new_tensor d x) st)"
    by (cases ts) simp_all
  then show ?case using Cons [of "add_input_tensors v x (new_tensor d x) st"]
    by (simp add: add_input_tensors_def fun_eq_iff)
qed

definition leaf_names :: "(node_id \<times> eva_attrs) list \<Rightarrow> node_id list" where
  "leaf_names xs = map fst (filter (\<lambda>(v, a). kind a = Op \<or> kind a = Trans) xs)"

definition op_count :: "(node_id \<times> eva_attrs) list \<Rightarrow> nat" where
  "op_count xs = length (filter (\<lambda>(v, a). kind a = Op) xs)"

lemma leaf_names_simps [simp]:
  "leaf_names [] = []"
  "leaf_names ((v, a) # xs) = (if kind a = Op \<or> kind a = Trans then [v] else []) @ leaf_names xs"
  "leaf_names (xs @ ys) = leaf_names xs @ leaf_names ys"
  by (simp_all add: leaf_names_def)

lemma op_count_simps [simp]:
  "op_count [] = 0"
  "op_count ((v, a) # xs) = (if kind a = Op then 1 else 0) + op_count xs"
  "op_count (xs @ ys) = op_count xs + op_count ys"
  by (simp_all add: op_count_def)

definition well_mapped :: "problem \<Rightarrow> init_state \<Rightarrow> bool" where
  "well_mapped pb st \<longleftrightarrow> (\<forall>v t tm. input_tensors st v t = Some tm \<or> output_tensors st v t = Some tm \<longrightarrow> fresh_tensor pb t tm)"

text \<open>What the first pass has found after some of the nodes.\<close>

definition first_pass :: "problem \<Rightarrow> (node_id \<times> eva_attrs) list \<Rightarrow> init_state \<Rightarrow> bool" where
  "first_pass pb xs st \<longleftrightarrow>
     leaf_vec st = leaf_names xs \<and> op_num st = int (op_count xs) \<and> well_mapped pb st \<and>
     (\<forall>t v. (\<exists>tm. producer_map st t = Some (tm, v)) \<longleftrightarrow> (\<exists>a. (v, a) \<in> set xs \<and> t \<in> writes pb a)) \<and>
     (\<forall>v. dom (input_tensors st v) = {t. \<exists>a. (v, a) \<in> set xs \<and> t \<in> reads pb a}) \<and>
     (\<forall>v. dom (output_tensors st v) = {t. \<exists>a. (v, a) \<in> set xs \<and> t \<in> writes pb a}) \<and>
     (\<forall>v a. (v, a) \<in> set xs \<and> kind a = Op \<longrightarrow> workloads pb (nameSub (node_name a)) \<noteq> None)"

lemma first_passD:
  assumes "first_pass pb xs st"
  shows "leaf_vec st = leaf_names xs" "op_num st = int (op_count xs)" "well_mapped pb st"
    "(\<exists>tm. producer_map st t = Some (tm, v)) \<longleftrightarrow> (\<exists>a. (v, a) \<in> set xs \<and> t \<in> writes pb a)"
    "dom (input_tensors st v) = {t. \<exists>a. (v, a) \<in> set xs \<and> t \<in> reads pb a}"
    "dom (output_tensors st v) = {t. \<exists>a. (v, a) \<in> set xs \<and> t \<in> writes pb a}"
    "\<forall>v a. (v, a) \<in> set xs \<and> kind a = Op \<longrightarrow> workloads pb (nameSub (node_name a)) \<noteq> None"
  using assms unfolding first_pass_def by - (elim conjE, (assumption | (erule allE)+, assumption))+

lemma first_pass_start: "first_pass pb [] init_start"
  by (auto simp: first_pass_def init_start_def well_mapped_def)

lemma reads_writes_not_op [simp]: "kind a \<noteq> Op \<Longrightarrow> reads pb a = {}" "kind a \<noteq> Op \<Longrightarrow> writes pb a = {}"
  by (auto simp: reads_def writes_def split: option.splits)

lemma reads_writes_op:
  "kind a = Op \<Longrightarrow> workloads pb (nameSub (node_name a)) = Some w \<Longrightarrow> reads pb a = set (ins w) \<and> writes pb a = {out w}"
  by (simp add: reads_def writes_def)

lemma first_pass_step:
  assumes "first_pass pb xs st" "init_op_leaf pb v a st = Inr st1"
  shows "first_pass pb (xs @ [(v, a)]) st1"
proof (cases "kind a = Op")
  case False
  then have "st1 = st\<lparr>leaf_vec := leaf_vec st @ leaf_names [(v, a)]\<rparr>"
    using assms(2) by (auto simp: init_op_leaf_def split: if_splits)
  then show ?thesis using assms(1) False by (auto simp: first_pass_def well_mapped_def)
next
  case True
  obtain k names d where s: "int32 (op_num st + 1) = Inr k" "getInOutTensor pb (nameSub (node_name a)) = Inr names"
    "getDimName pb names = Inr d" "op_tensor_loop d v names (st\<lparr>op_num := k, leaf_vec := leaf_vec st @ [v]\<rparr>) = Inr st1"
    using assms(2) True by (auto simp: init_op_leaf_def and_then_eq_Inr)
  obtain w where w: "workloads pb (nameSub (node_name a)) = Some w" "names = ins w @ [out w]"
    using s(2) by (auto simp: getInOutTensor_def split: option.splits)
  note rw = reads_writes_op [OF True w(1)]
  have none: "producer_map st (out w) = None"
    using s(4) unfolding w(2) op_tensor_loop_snoc by (auto split: if_splits)
  then have st1: "st1 = st\<lparr>op_num := op_num st + 1, leaf_vec := leaf_vec st @ [v],
      input_tensors := (input_tensors st)(v := (\<lambda>x. if x \<in> set (ins w) then Some (new_tensor d x) else input_tensors st v x)),
      output_tensors := (output_tensors st)(v := (output_tensors st v)(out w \<mapsto> new_tensor d (out w))),
      producer_map := (producer_map st)(out w \<mapsto> (new_tensor d (out w), v))\<rparr>"
    using s(4) exact [OF s(1)] unfolding w(2) op_tensor_loop_snoc by (auto split: if_splits cong: if_cong)
  have fresh: "fresh_tensor pb t (new_tensor d t)" if "t \<in> set (ins w) \<union> {out w}" for t
    using new_tensor_fresh [OF s(3), of t] that w(2) by simp
  note f = first_passD [OF assms(1)]
  have "well_mapped pb st1"
    using f(3) fresh by (auto simp: well_mapped_def st1)
  moreover have "(\<exists>tm. producer_map st1 t = Some (tm, u)) \<longleftrightarrow> (\<exists>b. (u, b) \<in> set (xs @ [(v, a)]) \<and> t \<in> writes pb b)" for t u
    using f(4) [of t u] none f(4) [of "out w" u] rw by (auto simp: st1)
  moreover have "dom (input_tensors st1 u) = {t. \<exists>b. (u, b) \<in> set (xs @ [(v, a)]) \<and> t \<in> reads pb b}" for u
  proof -
    have "dom (input_tensors st1 u) = dom (input_tensors st u) \<union> (if u = v then set (ins w) else {})"
      by (auto simp: st1 split: if_splits)
    then show ?thesis using f(5) [of u] rw by auto
  qed
  moreover have "dom (output_tensors st1 u) = {t. \<exists>b. (u, b) \<in> set (xs @ [(v, a)]) \<and> t \<in> writes pb b}" for u
  proof -
    have "dom (output_tensors st1 u) = dom (output_tensors st u) \<union> (if u = v then {out w} else {})"
      by (auto simp: st1 split: if_splits)
    then show ?thesis using f(6) [of u] rw by auto
  qed
  moreover have "leaf_vec st1 = leaf_names (xs @ [(v, a)])" "op_num st1 = int (op_count (xs @ [(v, a)]))"
    using f(1,2) True by (simp_all add: st1)
  ultimately show ?thesis using f(7) w(1) unfolding first_pass_def by auto
qed

lemma first_pass_ok:
  "visit_all (init_op_leaf pb) ys st = Inr st1 \<Longrightarrow> first_pass pb xs st \<Longrightarrow> first_pass pb (xs @ ys) st1"
proof (induction ys arbitrary: xs st)
  case (Cons y ys)
  obtain v a where y: "y = (v, a)" by (cases y)
  obtain st0 where "init_op_leaf pb v a st = Inr st0" "visit_all (init_op_leaf pb) ys st0 = Inr st1"
    using Cons.prems(1) y by (auto simp: and_then_eq_Inr)
  then show ?case using Cons.IH [of st0 "xs @ [y]"] first_pass_step [OF Cons.prems(2)] y by simp
qed simp

text \<open>A tensor has one producer.\<close>

lemma first_pass_producer:
  assumes "first_pass pb xs st"
  shows "producer_map st t = None \<longleftrightarrow> (\<forall>(v, a) \<in> set xs. t \<notin> writes pb a)"
    and "(v, a) \<in> set xs \<Longrightarrow> t \<in> writes pb a \<Longrightarrow> \<exists>tm. producer_map st t = Some (tm, v)"
    and "producer_map st t = Some (tm, v) \<Longrightarrow> \<exists>a. (v, a) \<in> set xs \<and> t \<in> writes pb a"
proof -
  have f: "(\<exists>tm. producer_map st t = Some (tm, v)) \<longleftrightarrow> (\<exists>a. (v, a) \<in> set xs \<and> t \<in> writes pb a)" for v
    using assms by (simp add: first_pass_def)
  show "producer_map st t = None \<longleftrightarrow> (\<forall>(v, a) \<in> set xs. t \<notin> writes pb a)"
    using f by (cases "producer_map st t") fastforce+
  show "(v, a) \<in> set xs \<Longrightarrow> t \<in> writes pb a \<Longrightarrow> \<exists>tm. producer_map st t = Some (tm, v)"
    "producer_map st t = Some (tm, v) \<Longrightarrow> \<exists>a. (v, a) \<in> set xs \<and> t \<in> writes pb a"
    using f [of v] by blast+
qed

subsection \<open>The second pass\<close>

lemma add_path_tensor_eq:
  "add_path_tensor path t tm b st = st\<lparr>
     input_tensors := (\<lambda>u. if b \<and> u \<in> set path then (input_tensors st u)(t \<mapsto> tm) else input_tensors st u),
     output_tensors := (\<lambda>u. if \<not> b \<and> u \<in> set path then (output_tensors st u)(t \<mapsto> tm) else output_tensors st u)\<rparr>"
  unfolding add_path_tensor_def
  by (induction path arbitrary: st)
    (auto simp: add_input_tensors_def add_output_tensors_def fun_eq_iff split: if_splits cong: if_cong)

text \<open>
  The nodes that a tensor is attached to as an input and as an output when an operation reads it, and
  the nodes to which the output of the last operation is attached.
\<close>

definition consumer_nodes :: "eva_node \<Rightarrow> init_state \<Rightarrow> node_id \<Rightarrow> string \<Rightarrow> node_id set" where
  "consumer_nodes root st v t = (case producer_map st t of
     None \<Rightarrow> set (parent_chain v)
   | Some (_, p) \<Rightarrow> (case findCommonNode root (leaf_vec st) p v of Inr (_, path) \<Rightarrow> set path | Inl _ \<Rightarrow> {}))"

definition producer_nodes :: "eva_node \<Rightarrow> init_state \<Rightarrow> node_id \<Rightarrow> string \<Rightarrow> node_id set" where
  "producer_nodes root st v t = (case producer_map st t of
     None \<Rightarrow> {}
   | Some (_, p) \<Rightarrow> (case findCommonNode root (leaf_vec st) p v of Inr (path, _) \<Rightarrow> set path | Inl _ \<Rightarrow> {}))"

definition last_nodes :: "init_state \<Rightarrow> node_id \<Rightarrow> node_id set" where
  "last_nodes st v = set (drop (find_index v (leaf_vec st)) (leaf_vec st)) \<union> set (parent_chain (last (leaf_vec st)))"

text \<open>The search for the common node did not fail.\<close>

definition paths_ok :: "eva_node \<Rightarrow> init_state \<Rightarrow> node_id \<Rightarrow> string \<Rightarrow> bool" where
  "paths_ok root st v t \<longleftrightarrow>
     (\<forall>tm p. producer_map st t = Some (tm, p) \<longrightarrow> (\<exists>r. findCommonNode root (leaf_vec st) p v = Inr r))"

text \<open>The members that the second pass does not change, but for the number of operations left.\<close>

definition same_leaves :: "init_state \<Rightarrow> init_state \<Rightarrow> bool" where
  "same_leaves st st1 \<longleftrightarrow> leaf_vec st1 = leaf_vec st \<and> producer_map st1 = producer_map st"

lemma same_leaves_nodes:
  assumes "same_leaves st st1"
  shows "consumer_nodes root st1 = consumer_nodes root st" "producer_nodes root st1 = producer_nodes root st"
    "last_nodes st1 = last_nodes st" "paths_ok root st1 = paths_ok root st"
proof -
  have e: "leaf_vec st1 = leaf_vec st" "producer_map st1 = producer_map st" using assms by (simp_all add: same_leaves_def)
  show "consumer_nodes root st1 = consumer_nodes root st" "producer_nodes root st1 = producer_nodes root st"
    "last_nodes st1 = last_nodes st" "paths_ok root st1 = paths_ok root st"
    unfolding consumer_nodes_def producer_nodes_def last_nodes_def paths_ok_def e by simp_all
qed

lemma attach_input_ok:
  assumes "attach_input root v t tm st = Inr st1"
  shows "st1 = st\<lparr>
    input_tensors := (\<lambda>u. if u \<in> consumer_nodes root st v t then (input_tensors st u)(t \<mapsto> tm) else input_tensors st u),
    output_tensors := (\<lambda>u. if u \<in> producer_nodes root st v t then (output_tensors st u)(t \<mapsto> tm) else output_tensors st u)\<rparr>"
  using assms
  by (auto simp: attach_input_def consumer_nodes_def producer_nodes_def addParentTensor_def add_path_tensor_eq and_then_eq_Inr
      split: option.splits cong: if_cong)

lemma attach_input_ok_iff: "(\<exists>st1. attach_input root v t tm st = Inr st1) \<longleftrightarrow> paths_ok root st v t"
  by (auto simp: attach_input_def paths_ok_def and_then_eq_Inr split: option.splits)

lemma attach_output_eq:
  "attach_output v t tm st = st\<lparr>output_tensors := (\<lambda>u. if op_num st = 0 \<and> u \<in> last_nodes st v
     then (output_tensors st u)(t \<mapsto> tm) else output_tensors st u)\<rparr>"
  by (auto simp: attach_output_def last_nodes_def addParentTensor_def add_path_tensor_eq fun_eq_iff cong: if_cong)

lemma tensor_loop_ok:
  assumes "tensor_loop root d v (ts @ [t]) st = Inr st1"
  shows "same_leaves st st1 \<and> op_num st1 = op_num st \<and> (\<forall>x \<in> set ts. paths_ok root st v x) \<and>
    (\<forall>u. dom (input_tensors st1 u) = dom (input_tensors st u) \<union> {x \<in> set ts. u \<in> consumer_nodes root st v x}) \<and>
    (\<forall>u. dom (output_tensors st1 u) = dom (output_tensors st u) \<union> {x \<in> set ts. u \<in> producer_nodes root st v x} \<union>
       (if op_num st = 0 \<and> u \<in> last_nodes st v then {t} else {})) \<and>
    (well_mapped pb st \<and> (\<forall>x \<in> set (ts @ [t]). fresh_tensor pb x (new_tensor d x)) \<longrightarrow> well_mapped pb st1)"
  using assms
proof (induction ts arbitrary: st)
  case Nil
  then have "st1 = attach_output v t (new_tensor d t) st" by simp
  then show ?case by (auto simp: attach_output_eq same_leaves_def well_mapped_def split: if_splits)
next
  case (Cons x ts)
  obtain st0 where st0: "attach_input root v x (new_tensor d x) st = Inr st0" "tensor_loop root d v (ts @ [t]) st0 = Inr st1"
    using Cons.prems by (cases ts) (auto simp: and_then_eq_Inr)
  note e = attach_input_ok [OF st0(1)]
  have same: "same_leaves st st0" "op_num st0 = op_num st" by (simp_all add: e same_leaves_def)
  moreover have "paths_ok root st v x" using st0(1) attach_input_ok_iff by blast
  moreover have "well_mapped pb st \<and> fresh_tensor pb x (new_tensor d x) \<longrightarrow> well_mapped pb st0"
    by (auto simp: e well_mapped_def split: if_splits)
  moreover have "dom (input_tensors st0 u) = dom (input_tensors st u) \<union> (if u \<in> consumer_nodes root st v x then {x} else {})"
    "dom (output_tensors st0 u) = dom (output_tensors st u) \<union> (if u \<in> producer_nodes root st v x then {x} else {})" for u
    by (auto simp: e split: if_splits)
  ultimately show ?case
    using Cons.IH [OF st0(2)] same unfolding same_leaves_nodes [OF same(1)] by (auto simp: same_leaves_def)
qed

text \<open>What the second pass has attached after some of the nodes, to a state in which the first pass ended.\<close>

definition second_pass :: "problem \<Rightarrow> eva_node \<Rightarrow> init_state \<Rightarrow> (node_id \<times> eva_attrs) list \<Rightarrow> init_state \<Rightarrow> bool" where
  "second_pass pb root st0 ys st \<longleftrightarrow>
     same_leaves st0 st \<and> op_num st = op_num st0 - int (op_count ys) \<and> well_mapped pb st \<and>
     (\<forall>(v, a) \<in> set ys. \<forall>t \<in> reads pb a. paths_ok root st0 v t) \<and>
     (\<forall>u. dom (input_tensors st u) = dom (input_tensors st0 u) \<union>
        {t. \<exists>(v, a) \<in> set ys. t \<in> reads pb a \<and> u \<in> consumer_nodes root st0 v t}) \<and>
     (\<forall>u. dom (output_tensors st u) = dom (output_tensors st0 u) \<union>
        {t. \<exists>(v, a) \<in> set ys. t \<in> reads pb a \<and> u \<in> producer_nodes root st0 v t} \<union>
        {t. \<exists>vs v a ws. ys = vs @ (v, a) # ws \<and> op_num st0 = int (op_count (vs @ [(v, a)])) \<and> t \<in> writes pb a \<and> u \<in> last_nodes st0 v})"

lemma second_passD:
  assumes "second_pass pb root st0 ys st"
  shows "same_leaves st0 st" "op_num st = op_num st0 - int (op_count ys)" "well_mapped pb st"
    "dom (input_tensors st u) = dom (input_tensors st0 u) \<union>
        {t. \<exists>(v, a) \<in> set ys. t \<in> reads pb a \<and> u \<in> consumer_nodes root st0 v t}"
    "dom (output_tensors st u) = dom (output_tensors st0 u) \<union>
        {t. \<exists>(v, a) \<in> set ys. t \<in> reads pb a \<and> u \<in> producer_nodes root st0 v t} \<union>
        {t. \<exists>vs v a ws. ys = vs @ (v, a) # ws \<and> op_num st0 = int (op_count (vs @ [(v, a)])) \<and> t \<in> writes pb a \<and> u \<in> last_nodes st0 v}"
    "\<forall>(v, a) \<in> set ys. \<forall>t \<in> reads pb a. paths_ok root st0 v t"
  using assms unfolding second_pass_def by - (elim conjE, (assumption | erule spec))+

lemma snoc_split: "ys @ [y] = vs @ x # ws \<longleftrightarrow> (ws = [] \<and> ys = vs \<and> y = x) \<or> (\<exists>us. ws = us @ [y] \<and> ys = vs @ x # us)"
  by (cases ws rule: rev_cases) auto

lemma second_pass_step:
  assumes "second_pass pb root st0 ys st" "init_tensor_leaf pb root v a st = Inr st1"
  shows "second_pass pb root st0 (ys @ [(v, a)]) st1"
proof (cases "kind a = Op")
  case False
  have e: "st1 = st" using assms(2) False by (simp add: init_tensor_leaf_def)
  have none: "reads pb a = {}" "writes pb a = {}" using False by simp_all
  have last: "(\<exists>vs w b ws. ys @ [(v, a)] = vs @ (w, b) # ws \<and> op_num st0 = int (op_count (vs @ [(w, b)])) \<and> t \<in> writes pb b \<and> u \<in> last_nodes st0 w) \<longleftrightarrow>
      (\<exists>vs w b ws. ys = vs @ (w, b) # ws \<and> op_num st0 = int (op_count (vs @ [(w, b)])) \<and> t \<in> writes pb b \<and> u \<in> last_nodes st0 w)" for t u
    unfolding snoc_split using none(2) by blast
  show ?thesis
    using assms(1) False none unfolding second_pass_def last e by simp
next
  case True
  obtain k names d where s: "int32 (op_num st - 1) = Inr k" "getInOutTensor pb (nameSub (node_name a)) = Inr names"
    "getDimName pb names = Inr d" "tensor_loop root d v names (st\<lparr>op_num := k\<rparr>) = Inr st1"
    using assms(2) True by (auto simp: init_tensor_leaf_def and_then_eq_Inr)
  obtain w where w: "workloads pb (nameSub (node_name a)) = Some w" "names = ins w @ [out w]"
    using s(2) by (auto simp: getInOutTensor_def split: option.splits)
  note rw = reads_writes_op [OF True w(1)]
  note f = second_passD [OF assms(1)]
  let ?st = "st\<lparr>op_num := k\<rparr>"
  have k: "k = op_num st0 - int (op_count (ys @ [(v, a)]))" using exact [OF s(1)] f(2) True by simp
  have same: "same_leaves st0 ?st" using f(1) by (simp add: same_leaves_def)
  have e: "op_num ?st = k" "input_tensors ?st = input_tensors st" "output_tensors ?st = output_tensors st" by simp_all
  note t = tensor_loop_ok [OF s(4) [unfolded w(2)], where pb = pb, unfolded same_leaves_nodes [OF same] e]
  have t1: "same_leaves ?st st1" "op_num st1 = k" "\<forall>x \<in> set (ins w). paths_ok root st0 v x"
    "\<And>u. dom (input_tensors st1 u) = dom (input_tensors st u) \<union> {x \<in> set (ins w). u \<in> consumer_nodes root st0 v x}"
    "\<And>u. dom (output_tensors st1 u) = dom (output_tensors st u) \<union> {x \<in> set (ins w). u \<in> producer_nodes root st0 v x} \<union>
        (if k = 0 \<and> u \<in> last_nodes st0 v then {out w} else {})"
    using t by blast+
  have "well_mapped pb ?st" using f(3) by (simp add: well_mapped_def)
  moreover have "\<forall>x \<in> set (ins w @ [out w]). fresh_tensor pb x (new_tensor d x)"
    using new_tensor_fresh [OF s(3)] unfolding w(2) by blast
  ultimately have "well_mapped pb st1" using t by blast
  moreover have "same_leaves st0 st1" using t1(1) same by (simp add: same_leaves_def)
  moreover have "\<forall>(v, a) \<in> set (ys @ [(v, a)]). \<forall>t \<in> reads pb a. paths_ok root st0 v t" using t1(3) f(6) rw by auto
  moreover have "op_num st1 = op_num st0 - int (op_count (ys @ [(v, a)]))" using t1(2) k by simp
  moreover have "dom (input_tensors st1 u) = dom (input_tensors st0 u) \<union>
        {t. \<exists>(v, a) \<in> set (ys @ [(v, a)]). t \<in> reads pb a \<and> u \<in> consumer_nodes root st0 v t}" for u
    unfolding t1(4) f(4) using rw by auto
  moreover have "dom (output_tensors st1 u) = dom (output_tensors st0 u) \<union>
        {t. \<exists>(v, a) \<in> set (ys @ [(v, a)]). t \<in> reads pb a \<and> u \<in> producer_nodes root st0 v t} \<union>
        {t. \<exists>vs v' a' ws. ys @ [(v, a)] = vs @ (v', a') # ws \<and> op_num st0 = int (op_count (vs @ [(v', a')])) \<and>
              t \<in> writes pb a' \<and> u \<in> last_nodes st0 v'}" (is "_ = _ \<union> ?mid (ys @ [(v, a)]) \<union> ?end (ys @ [(v, a)])") for u
  proof -
    have "t \<in> ?end (ys @ [(v, a)]) \<longleftrightarrow> t \<in> ?end ys \<or> k = 0 \<and> u \<in> last_nodes st0 v \<and> t = out w" for t
    proof -
      have "k = 0 \<longleftrightarrow> op_num st0 = int (op_count (ys @ [(v, a)]))" using k by auto
      moreover have "t \<in> writes pb a \<longleftrightarrow> t = out w" using rw by simp
      ultimately show ?thesis unfolding snoc_split mem_Collect_eq by blast
    qed
    then have "?end (ys @ [(v, a)]) = ?end ys \<union> {t. k = 0 \<and> u \<in> last_nodes st0 v \<and> t = out w}" by blast
    moreover have "{t. k = 0 \<and> u \<in> last_nodes st0 v \<and> t = out w} = (if k = 0 \<and> u \<in> last_nodes st0 v then {out w} else {})"
      by (simp cong: conj_cong)
    moreover have "?mid (ys @ [(v, a)]) = ?mid ys \<union> {x \<in> set (ins w). u \<in> producer_nodes root st0 v x}"
      using rw by auto
    ultimately show ?thesis unfolding t1(5) f(5) by (simp only: Un_ac)
  qed
  ultimately show ?thesis unfolding second_pass_def by blast
qed

lemma second_pass_ok:
  "visit_all (init_tensor_leaf pb root) zs st = Inr st1 \<Longrightarrow> second_pass pb root st0 ys st \<Longrightarrow> second_pass pb root st0 (ys @ zs) st1"
proof (induction zs arbitrary: ys st)
  case (Cons z zs)
  obtain v a where z: "z = (v, a)" by (cases z)
  obtain st2 where "init_tensor_leaf pb root v a st = Inr st2" "visit_all (init_tensor_leaf pb root) zs st2 = Inr st1"
    using Cons.prems(1) z by (auto simp: and_then_eq_Inr)
  then show ?case using Cons.IH [of st2 "ys @ [z]"] second_pass_step [OF Cons.prems(2)] z by simp
qed simp

subsection \<open>Common nodes\<close>

lemma find_index_member: "x \<in> set xs \<longleftrightarrow> find_index x xs < length xs"
  by (induction xs) auto

lemma nth_find_index: "x \<in> set xs \<Longrightarrow> xs ! find_index x xs = x"
  by (induction xs) auto

lemma target_index_eq:
  "target_index root u ws = (if is_scope root u then length ws else find_index u ws)"
  by (induction ws) auto

text \<open>The search stops at the first ancestor of the producer that is no scope and an ancestor of the consumer.\<close>

lemma common_loop_Some:
  "common_loop root us tp i j = (i1, j1, Some x) \<Longrightarrow>
     i1 = i + find_index x us \<and> x \<in> set us \<and> x \<in> set tp \<and> \<not> is_scope root x \<and> j1 = find_index x tp \<and>
     (\<forall>u \<in> set (take (find_index x us) us). is_scope root u \<or> u \<notin> set tp)"
proof (induction us arbitrary: i j)
  case (Cons u us)
  show ?case
  proof (cases "\<not> is_scope root u \<and> u \<in> set tp")
    case True
    then show ?thesis using Cons.prems by (auto simp: target_index_eq Let_def find_index_member split: if_splits)
  next
    case False
    then obtain j0 where "common_loop root us tp (Suc i) j0 = (i1, j1, Some x)"
      using Cons.prems by (auto simp: target_index_eq Let_def find_index_member split: if_splits)
    from Cons.IH [OF this] show ?thesis using False by auto
  qed
qed simp

lemma common_loop_None:
  "common_loop root us tp i j = (i1, j1, None) \<Longrightarrow> u \<in> set us \<Longrightarrow> u \<in> set tp \<Longrightarrow> is_scope root u"
proof (induction us arbitrary: i j)
  case (Cons w us)
  then show ?case by (auto simp: target_index_eq Let_def find_index_member split: if_splits)
qed simp

lemma strict_suffix_Cons_iff: "strict_suffix w (i # v) \<longleftrightarrow> w = v \<or> strict_suffix w v"
  using suffix_length_le [of "i # v" v] by (auto simp: strict_suffix_def suffix_Cons)

lemma strict_suffix_irrefl_trans:
  "\<not> strict_suffix v v" "strict_suffix u v \<Longrightarrow> strict_suffix v w \<Longrightarrow> strict_suffix u w"
  using suffix_order.less_trans by blast+

lemma take_parent_chain:
  "strict_suffix x c \<Longrightarrow> set (take (find_index x (parent_chain c)) (parent_chain c)) = {u. strict_suffix x u \<and> strict_suffix u c}"
proof (induction c)
  case (Cons i v)
  show ?case
  proof (cases "x = v")
    case True
    have "\<not> (strict_suffix x u \<and> strict_suffix u (i # v))" for u
      using True suffix_order.less_asym [of v u] by (auto simp: strict_suffix_Cons_iff)
    then show ?thesis using True by simp
  next
    case False
    then have "strict_suffix x v" using Cons.prems by (simp add: strict_suffix_Cons_iff)
    then show ?thesis using Cons.IH False by (auto simp: strict_suffix_Cons_iff)
  qed
qed (simp add: strict_suffix_def)

text \<open>The first tile above a producer that is also above the consumer, and the paths below it.\<close>

definition common_node :: "eva_node \<Rightarrow> node_id \<Rightarrow> node_id \<Rightarrow> node_id \<Rightarrow> bool" where
  "common_node root p c x \<longleftrightarrow> strict_suffix x p \<and> strict_suffix x c \<and> \<not> is_scope root x \<and>
     (\<forall>u. strict_suffix x u \<and> strict_suffix u p \<and> strict_suffix u c \<longrightarrow> is_scope root u)"

lemma findCommonNode_ok:
  assumes "findCommonNode root leafs p c = Inr (pp, cp)" "\<not> is_scope root []" "p \<noteq> []" "c \<noteq> []"
  obtains x where "common_node root p c x" "set cp = {u. strict_suffix x u \<and> strict_suffix u c}"
    "pp = (if find_index c leafs = Suc (find_index p leafs) then take (find_index x (parent_chain p) - 1) (parent_chain p)
       else map (\<lambda>k. leafs ! (find_index p leafs + k)) [1..<find_index c leafs - find_index p leafs])"
    "find_index c leafs = Suc (find_index p leafs) \<longrightarrow> find_index x (parent_chain p) \<noteq> 0"
proof -
  have root: "[] \<in> set (parent_chain p)" "[] \<in> set (parent_chain c)"
    using assms(3,4) by (auto simp: parent_chain_suffixes strict_suffix_def)
  obtain i j found where l: "common_loop root (parent_chain p) (parent_chain c) 0 0 = (i, j, found)"
    by (metis prod_cases3)
  have "found \<noteq> None" using common_loop_None [of root _ _ 0 0 i j, OF _ root] l assms(2) by auto
  then obtain x where x: "found = Some x" by auto
  note s = common_loop_Some [OF l [unfolded x]]
  have "common_node root p c x"
    using s by (auto simp: common_node_def parent_chain_suffixes take_parent_chain)
  moreover have "int (find_index c leafs) - int (find_index p leafs) = 1 \<longleftrightarrow> find_index c leafs = Suc (find_index p leafs)"
    by auto
  moreover have "nat (int (find_index c leafs) - int (find_index p leafs)) = find_index c leafs - find_index p leafs" by simp
  moreover have "set cp = {u. strict_suffix x u \<and> strict_suffix u c}"
    using assms(1) s take_parent_chain [of x c] l x
    by (auto simp: findCommonNode_def Let_def and_then_eq_Inr parent_chain_suffixes split: if_splits)
  ultimately show ?thesis
    using assms(1) s l x by (intro that) (auto simp: findCommonNode_def Let_def and_then_eq_Inr split: if_splits)
qed

text \<open>A node that is no scope is on the path of the consumer when the producer is not below it.\<close>

lemma consumer_path_iff:
  assumes "common_node root p c x" "\<not> is_scope root u"
  shows "strict_suffix x u \<and> strict_suffix u c \<longleftrightarrow> strict_suffix u c \<and> \<not> strict_suffix u p"
proof
  assume u: "strict_suffix u c \<and> \<not> strict_suffix u p"
  then have "suffix u c" "suffix x c" using assms(1) by (auto simp: common_node_def strict_suffix_def)
  then have "suffix u x \<or> suffix x u" by (rule suffix_same_cases)
  moreover have "\<not> suffix u x" using u assms(1) by (auto simp: common_node_def intro: suffix_order.le_less_trans)
  ultimately show "strict_suffix x u \<and> strict_suffix u c" using u by (auto simp: strict_suffix_def)
qed (use assms in \<open>auto simp: common_node_def\<close>)

subsection \<open>The tensors of a tile\<close>

lemma init_tensors_passes:
  assumes "init_tensors pb root = Inr st"
  obtains st0 where "first_pass pb (post_order [] root) st0" "second_pass pb root st0 (post_order [] root) st"
proof -
  obtain st0 where s: "visit_all (init_op_leaf pb) (post_order [] root) init_start = Inr st0"
    "visit_all (init_tensor_leaf pb root) (post_order [] root) st0 = Inr st"
    using assms by (auto simp: init_tensors_def and_then_eq_Inr initOpTensor_visits initTensor_visits)
  have f: "first_pass pb (post_order [] root) st0"
    using first_pass_ok [OF s(1) first_pass_start] by simp
  then have "second_pass pb root st0 [] st0"
    by (auto simp: second_pass_def same_leaves_def first_pass_def)
  from second_pass_ok [OF s(2) this] f show ?thesis using that by simp
qed

lemma nodes_below:
  assumes "node_at root v = Some n"
  shows "(u, a) \<in> set (post_order v n) \<longleftrightarrow> (u, a) \<in> set (post_order [] root) \<and> suffix v u"
proof -
  have "(u, a) \<in> set (post_order [] root) \<and> suffix v u \<longleftrightarrow> (\<exists>us m. u = us @ v \<and> node_at root (us @ v) = Some m \<and> attrs m = a)"
    unfolding nodes_of_root suffix_def by auto
  also have "\<dots> \<longleftrightarrow> (\<exists>us m. u = us @ v \<and> node_below n (rev us) = Some m \<and> attrs m = a)"
    by (simp add: node_at_append assms)
  also have "\<dots> \<longleftrightarrow> (u, a) \<in> set (post_order v n)"
    unfolding post_order_below by (metis rev_rev_ident)
  finally show ?thesis by simp
qed

lemma reader_below:
  assumes "node_at root v = Some n" "kind (attrs n) \<noteq> Op"
  shows "t \<in> tree_reads pb n \<longleftrightarrow> (\<exists>u a. (u, a) \<in> set (post_order [] root) \<and> strict_suffix v u \<and> t \<in> reads pb a)"
    and "t \<in> tree_writes pb n \<longleftrightarrow> (\<exists>u a. (u, a) \<in> set (post_order [] root) \<and> strict_suffix v u \<and> t \<in> writes pb a)"
proof -
  have self: "reads pb a = {} \<and> writes pb a = {}" if "(v, a) \<in> set (post_order [] root)" for a
    using that assms by (auto simp: nodes_of_root)
  show "t \<in> tree_reads pb n \<longleftrightarrow> (\<exists>u a. (u, a) \<in> set (post_order [] root) \<and> strict_suffix v u \<and> t \<in> reads pb a)"
  proof -
    have "t \<in> tree_reads pb n \<longleftrightarrow> (\<exists>u a. (u, a) \<in> set (post_order [] root) \<and> suffix v u \<and> t \<in> reads pb a)"
      unfolding tree_reads_post_order(1) [of pb n v] UN_iff Bex_def split_paired_Ex nodes_below [OF assms(1)] by auto
    then show ?thesis using self unfolding strict_suffix_def by blast
  qed
  show "t \<in> tree_writes pb n \<longleftrightarrow> (\<exists>u a. (u, a) \<in> set (post_order [] root) \<and> strict_suffix v u \<and> t \<in> writes pb a)"
  proof -
    have "t \<in> tree_writes pb n \<longleftrightarrow> (\<exists>u a. (u, a) \<in> set (post_order [] root) \<and> suffix v u \<and> t \<in> writes pb a)"
      unfolding tree_writes_post_order(1) [of pb n v] UN_iff Bex_def split_paired_Ex nodes_below [OF assms(1)] by auto
    then show ?thesis using self unfolding strict_suffix_def by blast
  qed
qed

lemma op_not_root:
  "(u, a) \<in> set (post_order [] root) \<Longrightarrow> t \<in> reads pb a \<union> writes pb a \<Longrightarrow> kind (attrs root) = Tile \<Longrightarrow> u \<noteq> []"
  by (auto simp: nodes_of_root node_at_def)

lemma root_no_scope: "kind (attrs root) = Tile \<Longrightarrow> \<not> is_scope root []"
  by (simp add: is_scope_def node_at_def)

lemma consumer_nodes_iff:
  assumes "first_pass pb (post_order [] root) st0" "paths_ok root st0 c t" "kind (attrs root) = Tile"
    and "c \<noteq> []" "\<not> is_scope root v"
  shows "v \<in> consumer_nodes root st0 c t \<longleftrightarrow>
    strict_suffix v c \<and> (\<forall>p a. (p, a) \<in> set (post_order [] root) \<and> t \<in> writes pb a \<longrightarrow> \<not> strict_suffix v p)"
proof (cases "producer_map st0 t")
  case None
  then have "p \<noteq> q \<or> t \<notin> writes pb a" if "(p, a) \<in> set (post_order [] root)" for p a q
    using first_pass_producer(1) [OF assms(1), of t] that by blast
  moreover have "consumer_nodes root st0 c t = set (parent_chain c)" using None by (simp add: consumer_nodes_def)
  ultimately show ?thesis by (auto simp: parent_chain_suffixes)
next
  case (Some z)
  obtain tm p where z: "z = (tm, p)" by (cases z)
  note prod = Some [unfolded z]
  obtain a where a: "(p, a) \<in> set (post_order [] root)" "t \<in> writes pb a"
    using first_pass_producer(3) [OF assms(1) prod] by blast
  have only: "p' = p" if "(p', b) \<in> set (post_order [] root)" "t \<in> writes pb b" for p' b
    using first_pass_producer(2) [OF assms(1) that] prod by simp
  obtain pp cp where r: "findCommonNode root (leaf_vec st0) p c = Inr (pp, cp)"
    using assms(2) prod by (auto simp: paths_ok_def)
  have "p \<noteq> []" using op_not_root [OF a(1)] a(2) assms(3) by blast
  then obtain x where x: "common_node root p c x" "set cp = {u. strict_suffix x u \<and> strict_suffix u c}"
    using findCommonNode_ok [OF r root_no_scope [OF assms(3)] _ assms(4)] by metis
  have "v \<in> consumer_nodes root st0 c t \<longleftrightarrow> strict_suffix v c \<and> \<not> strict_suffix v p"
    using consumer_path_iff [OF x(1) assms(5)] x(2) prod r by (simp add: consumer_nodes_def)
  then show ?thesis using a only by blast
qed

text \<open>C7: the inputs of a tile are the tensors that its operations read and that none of them writes. None has a range
  yet, and all have the dimensions of the problem.\<close>

theorem tile_inputs:
  assumes "init_tensors pb root = Inr st" "kind (attrs root) = Tile"
    and "node_at root v = Some n" "kind (attrs n) = Tile"
  shows "dom (input_tensors st v) = tree_reads pb n - tree_writes pb n \<and>
    (\<forall>t tm. input_tensors st v t = Some tm \<longrightarrow>
       projected_dims (common_shape pb) t = Inr (tensor_dims tm) \<and> dim_ranges tm = [])"
proof -
  let ?xs = "post_order [] root"
  obtain st0 where p: "first_pass pb ?xs st0" "second_pass pb root st0 ?xs st"
    using init_tensors_passes [OF assms(1)] .
  have no_scope: "\<not> is_scope root v" using assms(3,4) by (simp add: is_scope_def)
  have tile: "kind (attrs n) \<noteq> Op" using assms(4) by simp
  note second = second_passD [OF p(2)]
  have own: "dom (input_tensors st0 v) = {}"
    unfolding first_passD(5) [OF p(1)] using assms(3) tile by (auto simp: nodes_of_root)
  have ok: "paths_ok root st0 c t" if "(c, a) \<in> set ?xs" "t \<in> reads pb a" for c a t
    using second(6) that by blast
  have iff: "v \<in> consumer_nodes root st0 c t \<longleftrightarrow>
      strict_suffix v c \<and> (\<forall>p b. (p, b) \<in> set ?xs \<and> t \<in> writes pb b \<longrightarrow> \<not> strict_suffix v p)"
    if "(c, a) \<in> set ?xs" "t \<in> reads pb a" for c a t
    by (rule consumer_nodes_iff [OF p(1) ok [OF that] assms(2) _ no_scope]) (use op_not_root [OF that(1) _ assms(2)] that(2) in blast)
  have "t \<in> dom (input_tensors st v) \<longleftrightarrow> t \<in> tree_reads pb n - tree_writes pb n" for t
  proof -
    have "t \<in> dom (input_tensors st v) \<longleftrightarrow> (\<exists>c a. (c, a) \<in> set ?xs \<and> t \<in> reads pb a \<and> v \<in> consumer_nodes root st0 c t)"
      unfolding second(4) own by blast
    also have "\<dots> \<longleftrightarrow> t \<in> tree_reads pb n - tree_writes pb n"
      unfolding Diff_iff reader_below [OF assms(3) tile, of t pb] using iff by blast
    finally show ?thesis .
  qed
  then have "dom (input_tensors st v) = tree_reads pb n - tree_writes pb n" by blast
  then show ?thesis using second(3) by (simp add: well_mapped_def fresh_tensor_def)
qed
end
