(* ===== verification/Tile_Walk.thy ===== *)
theory Tile_Walk
  imports Tile_Tensors "HOL-Library.AList"
begin

text \<open>
  The walk of the performance analysis over the mapping tree (\<^verbatim>\<open>src/src/loop-analysis/performance.cpp\<close>):
  the loops of a tile with the stacks that they push to, the tensor ranges and data movement of a tile when
  it is entered, the sources and targets of its transfers, and the latencies that are handed up. The
  state is passed explicitly; what is read of the hardware is a parameter. The counts of latencies that the
  code keeps beside the vectors are never read and are left out.
\<close>

subsection \<open>State\<close>

text \<open>
  The members that a node changes during the walk. The stacks have their top first; the maps from names to
  tensors list their entries in the order in which the code iterates over them.
\<close>

record node_state =
  current_dim_range :: "string \<Rightarrow> (int \<times> int) list"
  current_offset :: "string \<Rightarrow> (int \<times> int) list"
  current_dim_skew :: "string \<Rightarrow> int"
  ori_start :: "int list"
  current_start :: "int list"
  in_tensors :: "(string \<times> tensor_map) list"
  out_tensors :: "(string \<times> tensor_map) list"
  node_latency :: latency
  latency_vec :: "latency list list"
  latency_sub_vec :: "latency list"

record perf_state =
  dim_skew :: "string \<Rightarrow> int"
  vec_last_dim :: "string \<Rightarrow> bool list"
  data_movements :: int
  nodes :: "node_id \<Rightarrow> node_state"

text \<open>The tree with its offsets, the leaves that the first passes have found, and the hardware.\<close>

record perf_env =
  eva_root :: eva_node
  leaf_nodes :: "node_id list"
  intercon_attri_map :: "string \<Rightarrow> inter_con option"
  compute_cycles :: "string \<Rightarrow> int option"

definition upd_node :: "node_id \<Rightarrow> (node_state \<Rightarrow> node_state) \<Rightarrow> perf_state \<Rightarrow> perf_state" where
  "upd_node v f st = st\<lparr>nodes := (nodes st)(v := f (nodes st v))\<rparr>"

text \<open>The attributes of a node; a null pointer when there is none.\<close>

definition attrs_at :: "perf_env \<Rightarrow> node_id \<Rightarrow> eva_attrs tileexp" where
  "attrs_at env v = (case node_at (eva_root env) v of Some n \<Rightarrow> Inr (attrs n) | None \<Rightarrow> Inl Null_pointer)"

definition children_at :: "perf_env \<Rightarrow> node_id \<Rightarrow> eva_node list" where
  "children_at env v = (case node_at (eva_root env) v of Some n \<Rightarrow> children n | None \<Rightarrow> [])"

subsection \<open>Operations and transfers\<close>

fun op_volume :: "(string \<Rightarrow> int) \<Rightarrow> string list \<Rightarrow> int \<Rightarrow> int tileexp" where
  "op_volume dim_end [] tmp = Inr tmp"
| "op_volume dim_end (n # ns) tmp = and_then (int64 (tmp * dim_end n)) (op_volume dim_end ns)"

fun op_volumes :: "(string \<Rightarrow> int) \<Rightarrow> (string \<times> tensor_map) list \<Rightarrow> int \<Rightarrow> int tileexp" where
  "op_volumes dim_end [] dm = Inr dm"
| "op_volumes dim_end ((t, tm) # ts) dm =
     and_then (op_volume dim_end (tensor_dims tm) 1) (\<lambda>tmp.
     and_then (int64 (dm + tmp)) (op_volumes dim_end ts))"

definition visitOp :: "perf_env \<Rightarrow> node_id \<Rightarrow> eva_attrs \<Rightarrow> perf_state \<Rightarrow> perf_state tileexp" where
  "visitOp env v a st =
     (let dim_end = foldl (\<lambda>m d. m(dim_name d := loop_end d)) (\<lambda>_. 0) (loopnests a) in
      and_then (op_volumes dim_end (in_tensors (nodes st v)) 0) (\<lambda>input_dm.
      and_then (op_volumes dim_end (out_tensors (nodes st v)) 0) (\<lambda>output_dm.
      and_then (int64 (output_dm + input_dm)) (\<lambda>dm.
      and_then (int64 (data_movements st + dm)) (\<lambda>total.
        Inr (upd_node v (\<lambda>ns. ns\<lparr>node_latency := \<lparr>input_latency = 0, output_latency = 0,
               process_latency = (case compute_cycles env (target_level a) of Some c \<Rightarrow> c | None \<Rightarrow> 0)\<rparr>\<rparr>)
             (st\<lparr>data_movements := total\<rparr>)))))))"

text \<open>A transfer after another one divides no data by the bandwidth of the connection between them.\<close>

definition visitTrans :: "perf_env \<Rightarrow> node_id \<Rightarrow> eva_attrs \<Rightarrow> perf_state \<Rightarrow> perf_state tileexp" where
  "visitTrans env v a st =
     (let idx = find_index v (leaf_nodes env);
          st1 = upd_node v (\<lambda>ns. ns\<lparr>node_latency := no_latency\<rparr>) st in
      if idx = 0 then Inl Out_of_range
      else and_then (attrs_at env (leaf_nodes env ! (idx - 1))) (\<lambda>prev.
        if kind prev = Trans
        then (case intercon_attri_map env (target_level prev @ ''2'' @ target_level a) of
                None \<Rightarrow> Inl Uninitialised
              | Some con \<Rightarrow> if bandwidth con = 0 then Inl Division_by_zero else Inr st1)
        else Inr st1))"

subsection \<open>Sources and targets of transfers\<close>

text \<open>The nearest tile above a node.\<close>

fun nearest_tile :: "perf_env \<Rightarrow> node_id \<Rightarrow> eva_attrs tileexp" where
  "nearest_tile env [] = Inl Null_pointer"
| "nearest_tile env (i # v) = and_then (attrs_at env v) (\<lambda>a. if kind a = Tile then Inr a else nearest_tile env v)"

fun findCurrentNodePosition :: "node_id \<Rightarrow> nat" where
  "findCurrentNodePosition [] = 0"
| "findCurrentNodePosition (i # v) = i"

definition findSource :: "perf_env \<Rightarrow> node_id \<Rightarrow> nat \<Rightarrow> (string \<times> bool) tileexp" where
  "findSource env v pos =
     and_then (attrs_at env v) (\<lambda>a.
       let from_tile = and_then (nearest_tile env v) (\<lambda>p. Inr (target_level p, False)); siblings = children_at env (tl v) in
       if dataflow_mode a = Forward \<and> length siblings \<noteq> 1 \<and> pos \<noteq> 0 \<and> kind (attrs (siblings ! (pos - 1))) = Trans
       then if pos = 1 then Inl Out_of_range
            else let former = attrs (last_leaf (siblings ! (pos - 2))) in
                 if kind former = Op then Inr (target_level former, True) else Inl Assert_error
       else from_tile)"

text \<open>The next sibling of the node or of the first ancestor that has one, which has to be a transfer.\<close>

fun forward_target :: "perf_env \<Rightarrow> node_id \<Rightarrow> (string \<times> bool) tileexp" where
  "forward_target env [] = Inl Null_pointer"
| "forward_target env (i # v) =
     (let siblings = children_at env v in
      if i + 1 = length siblings then forward_target env v
      else if i + 1 < length siblings \<and> kind (attrs (siblings ! (i + 1))) = Trans
      then Inr (target_level (attrs (siblings ! (i + 1))), True) else Inl Assert_error)"

definition findTarget :: "perf_env \<Rightarrow> node_id \<Rightarrow> (string \<times> bool) tileexp" where
  "findTarget env v =
     and_then (attrs_at env v) (\<lambda>a.
       if dataflow_mode a = Forward then forward_target env v
       else and_then (nearest_tile env v) (\<lambda>p. Inr (target_level p, False)))"

function findLastOpTrans :: "eva_node \<Rightarrow> string tileexp" where
  "findLastOpTrans (EvaNode a cs) =
     (if kind a = Op \<or> kind a = Trans then Inr (target_level a)
      else if cs = [] then Inl Out_of_range else findLastOpTrans (last cs))"
  by pat_completeness auto
termination
proof (relation "measure tree_size")
  fix a and cs :: "eva_node list"
  assume "cs \<noteq> []"
  then have "tree_size (last cs) \<le> sum_list (map tree_size cs)" by (intro member_le_sum_list) auto
  then show "(last cs, EvaNode a cs) \<in> measure tree_size" by simp
qed simp

text \<open>The cycles of a transfer, rounded up. A connection that is not known has an uninitialised bandwidth.\<close>

definition transfer_cycles :: "perf_env \<Rightarrow> string \<Rightarrow> string \<Rightarrow> int \<Rightarrow> int tileexp" where
  "transfer_cycles env source target dm =
     (case intercon_attri_map env (source @ ''2'' @ target) of
        None \<Rightarrow> Inl Uninitialised
      | Some con \<Rightarrow>
          and_then (int64 (dm + int (bandwidth con))) (\<lambda>s.
            if bandwidth con = 0 then Inl Division_by_zero
            else Inr (narrow_int ((if s < 1 then - ((1 - s) div int (bandwidth con)) else (s - 1) div int (bandwidth con))))))"

definition getInputLatency :: "perf_env \<Rightarrow> node_id \<Rightarrow> int \<Rightarrow> int \<Rightarrow> int tileexp" where
  "getInputLatency env v dm_tile dm_trans =
     and_then (attrs_at env v) (\<lambda>a.
       let pos = findCurrentNodePosition v in
       if kind a = Scope then Inr 0
       else
         and_then (if dm_trans > 0 \<and> v \<noteq> []
                   then and_then (findSource env v pos) (\<lambda>(source, _). transfer_cycles env source (target_level a) dm_trans)
                   else Inr 0) (\<lambda>l1.
         and_then (if dm_tile > 0 \<and> v \<noteq> []
                   then and_then (findSource env v pos) (\<lambda>(source, _).
                     if target_level a = source then Inr 0 else transfer_cycles env source (target_level a) dm_tile)
                   else Inr 0) (\<lambda>l2. int32 (l1 + l2))))"

definition getOutputLatency :: "perf_env \<Rightarrow> node_id \<Rightarrow> eva_node \<Rightarrow> int \<Rightarrow> int tileexp" where
  "getOutputLatency env v node dm =
     (if kind (attrs node) = Scope \<or> kind (attrs node) = Trans then Inr 0
      else and_then (if dataflow_mode (attrs node) = Forward then findLastOpTrans node else Inr (target_level (attrs node))) (\<lambda>source.
        if v = [] then Inr 0
        else and_then (findTarget env v) (\<lambda>(target, _). transfer_cycles env source target dm)))"

subsection \<open>The tensors of a tile\<close>

fun findFirstLeaf :: "node_id \<Rightarrow> eva_node \<Rightarrow> node_id" where
  "findFirstLeaf v (EvaNode a []) = v"
| "findFirstLeaf v (EvaNode a (c # cs)) = findFirstLeaf (0 # v) c"

text \<open>The tensor that a transfer right before the first leaf brings; no name otherwise.\<close>

definition trans_tensor_name :: "perf_env \<Rightarrow> node_id \<Rightarrow> eva_node \<Rightarrow> perf_state \<Rightarrow> string tileexp" where
  "trans_tensor_name env v node st =
     (let idx = find_index (findFirstLeaf v node) (leaf_nodes env) in
      if idx = 0 then Inr []
      else let prev = leaf_nodes env ! (idx - 1) in
        and_then (attrs_at env prev) (\<lambda>a.
          if kind a = Trans
          then (case out_tensors (nodes st prev) of [] \<Rightarrow> Inl Out_of_range | (t, _) # _ \<Rightarrow> Inr t)
          else Inr []))"

text \<open>The range of a dimension from the tops of the stacks of the node.\<close>

definition node_range :: "node_id \<Rightarrow> eva_node \<Rightarrow> perf_state \<Rightarrow> string \<Rightarrow> (int \<times> int) tileexp" where
  "node_range v node st n =
     tensor_range (\<lambda>m. case current_dim_range (nodes st v) m of [] \<Rightarrow> None | r # _ \<Rightarrow> Some r)
       (\<lambda>m. hd (current_offset (nodes st v) m)) (dim_skew st n) node n"

fun range_loop :: "(string \<Rightarrow> (int \<times> int) tileexp) \<Rightarrow> string list \<Rightarrow> dim_ranges \<Rightarrow> dim_ranges tileexp" where
  "range_loop rng [] m = Inr m"
| "range_loop rng (n # ns) m = and_then (rng n) (\<lambda>r. range_loop rng ns (AList.update n r m))"

definition ranged_tensor :: "(string \<Rightarrow> (int \<times> int) tileexp) \<Rightarrow> tensor_map \<Rightarrow> tensor_map tileexp" where
  "ranged_tensor rng tm =
     and_then (range_loop rng (tensor_dims tm) []) (\<lambda>m. Inr \<lparr>tensor_dims = tensor_dims tm, dim_ranges = m\<rparr>)"

text \<open>The inputs, with the data movement from the tile above and from a transfer; nothing is moved to the root.\<close>

fun input_loop :: "(string \<Rightarrow> (int \<times> int) tileexp) \<Rightarrow> bool \<Rightarrow> string \<Rightarrow> (string \<times> tensor_map) list \<Rightarrow> int \<Rightarrow> int \<Rightarrow>
    ((string \<times> tensor_map) list \<times> int \<times> int) tileexp" where
  "input_loop rng is_root name [] dm_tile dm_trans = Inr ([], dm_tile, dm_trans)"
| "input_loop rng is_root name ((t, tm_before) # ts) dm_tile dm_trans =
     and_then (ranged_tensor rng tm_before) (\<lambda>after.
     and_then (if is_root then Inr 0 else calTensorMapDM tm_before after) (\<lambda>dm.
     and_then (if t = name then Inr dm_tile else int64 (dm_tile + dm)) (\<lambda>dm_tile1.
     and_then (if t = name then int64 (dm_trans + dm) else Inr dm_trans) (\<lambda>dm_trans1.
     and_then (input_loop rng is_root name ts dm_tile1 dm_trans1) (\<lambda>(ts1, dms).
       Inr ((t, after) # ts1, dms))))))"

fun output_loop :: "(string \<Rightarrow> (int \<times> int) tileexp) \<Rightarrow> bool \<Rightarrow> (string \<times> tensor_map) list \<Rightarrow> int \<Rightarrow>
    ((string \<times> tensor_map) list \<times> int) tileexp" where
  "output_loop rng is_root [] dm_tile = Inr ([], dm_tile)"
| "output_loop rng is_root ((t, tm_before) # ts) dm_tile =
     and_then (ranged_tensor rng tm_before) (\<lambda>after.
     and_then (if is_root then Inr 0 else calTensorMapDM_new after) (\<lambda>dm.
     and_then (int64 (dm_tile + dm)) (\<lambda>dm_tile1.
     and_then (output_loop rng is_root ts dm_tile1) (\<lambda>(ts1, dms). Inr ((t, after) # ts1, dms)))))"

text \<open>The two calls of \<open>addCurrentTensor\<close>, with the data moved for the inputs and for the outputs.\<close>

definition add_inputs :: "perf_env \<Rightarrow> node_id \<Rightarrow> eva_node \<Rightarrow> perf_state \<Rightarrow> (perf_state \<times> int \<times> int) tileexp" where
  "add_inputs env v node st =
     and_then (trans_tensor_name env v node st) (\<lambda>name.
     and_then (input_loop (node_range v node st) (v = []) name (in_tensors (nodes st v)) 0 0) (\<lambda>(ts, dm_tile, dm_trans).
       Inr (upd_node v (\<lambda>ns. ns\<lparr>in_tensors := ts\<rparr>) st, dm_tile, dm_trans)))"

definition add_outputs :: "perf_env \<Rightarrow> node_id \<Rightarrow> eva_node \<Rightarrow> perf_state \<Rightarrow> (perf_state \<times> int) tileexp" where
  "add_outputs env v node st =
     and_then (trans_tensor_name env v node st) (\<lambda>name.
     and_then (output_loop (node_range v node st) (v = []) (out_tensors (nodes st v)) 0) (\<lambda>(ts, dm).
       Inr (upd_node v (\<lambda>ns. ns\<lparr>out_tensors := ts\<rparr>) st, dm)))"

subsection \<open>The loops of a tile\<close>

text \<open>What is done once per visit of a tile, in the first iteration of all of its loops.\<close>

definition enter_tile :: "perf_env \<Rightarrow> node_id \<Rightarrow> eva_node \<Rightarrow> perf_state \<Rightarrow> perf_state tileexp" where
  "enter_tile env v node st =
     and_then (add_inputs env v node st) (\<lambda>(st1, dm_tile, dm_trans).
     and_then (add_outputs env v node st1) (\<lambda>(st2, dm_out).
     and_then (int64 (dm_tile + dm_trans)) (\<lambda>dm_in.
     and_then (int64 (dm_in + dm_out)) (\<lambda>dm.
     and_then (int64 (data_movements st2 + dm)) (\<lambda>total.
     and_then (if v = [] then Inr 0 else getInputLatency env v dm_tile dm_trans) (\<lambda>l_in.
     and_then (if v = [] then Inr 0 else getOutputLatency env v node dm_out) (\<lambda>l_out.
       Inr (upd_node v (\<lambda>ns. ns\<lparr>node_latency := (node_latency ns)\<lparr>input_latency := l_in, output_latency := l_out\<rparr>,
              latency_vec := []\<rparr>) (st2\<lparr>data_movements := total\<rparr>)))))))))"

definition isFirstLoop :: "int list \<Rightarrow> int list \<Rightarrow> bool" where
  "isFirstLoop loop_ori loop_current \<longleftrightarrow> list_all (\<lambda>(x, y). x = y) (zip loop_ori loop_current)"

definition offset_of :: "(string \<Rightarrow> int option) \<Rightarrow> string \<Rightarrow> int" where
  "offset_of m n = (case m n of Some x \<Rightarrow> x | None \<Rightarrow> 0)"

text \<open>The start and the end of an iteration \<open>i\<close> of a loop that ends at \<open>e\<close>.\<close>

definition push_iteration :: "node_id \<Rightarrow> eva_attrs \<Rightarrow> string \<Rightarrow> int \<Rightarrow> int \<Rightarrow> perf_state \<Rightarrow> perf_state" where
  "push_iteration v a n e i st =
     upd_node v (\<lambda>ns. ns\<lparr>
         current_dim_range := (current_dim_range ns)(n := (0, e) # current_dim_range ns n),
         current_offset := (current_offset ns)(n := (offset_of (dim_offset a) n, offset_of (last_dim_offset a) n) # current_offset ns n),
         ori_start := 0 # ori_start ns, current_start := i # current_start ns\<rparr>)
       (st\<lparr>vec_last_dim := (vec_last_dim st)(n := vec_last_dim st n @ [\<not> i + 1 < e])\<rparr>)"

definition pop_iteration :: "node_id \<Rightarrow> eva_attrs \<Rightarrow> string \<Rightarrow> perf_state \<Rightarrow> perf_state" where
  "pop_iteration v a n st =
     upd_node v (\<lambda>ns. ns\<lparr>
         current_offset := (current_offset ns)(n := tl (current_offset ns n)),
         current_dim_range := (current_dim_range ns)(n := tl (current_dim_range ns n)),
         ori_start := tl (ori_start ns), current_start := tl (current_start ns),
         current_dim_skew := (current_dim_skew ns)(n := current_dim_skew ns n + offset_of (dim_offset a) n)\<rparr>)
       (st\<lparr>vec_last_dim := (vec_last_dim st)(n := butlast (vec_last_dim st n)),
           dim_skew := (dim_skew st)(n := dim_skew st n + offset_of (dim_offset a) n)\<rparr>)"

fun for_loop :: "nat \<Rightarrow> int \<Rightarrow> (int \<Rightarrow> 's \<Rightarrow> 's tileexp) \<Rightarrow> 's \<Rightarrow> 's tileexp" where
  "for_loop 0 i f st = Inr st"
| "for_loop (Suc k) i f st = and_then (f i st) (for_loop k (i + 1) f)"

text \<open>The loops from one of them inwards; the body visits the children. The loops of the root are always in
  their last iteration.\<close>

fun visitTileLoop :: "perf_env \<Rightarrow> node_id \<Rightarrow> eva_node \<Rightarrow> (perf_state \<Rightarrow> perf_state tileexp) \<Rightarrow> loop_desc list \<Rightarrow>
    perf_state \<Rightarrow> perf_state tileexp" where
  "visitTileLoop env v node body [] st = Inl Out_of_range"
| "visitTileLoop env v node body (d # ds) st =
     (let n = dim_name d; e = (if v = [] then residual_end d else end_of_loop (vec_last_dim st) d) in
      and_then
        (for_loop (nat e) 0
          (\<lambda>i st1.
            let st2 = push_iteration v (attrs node) n e i st1 in
            and_then (if ds = [] \<and> isFirstLoop (ori_start (nodes st2 v)) (current_start (nodes st2 v))
                      then enter_tile env v node st2 else Inr st2) (\<lambda>st3.
            and_then (if ds = [] then body st3 else visitTileLoop env v node body ds st3) (\<lambda>st4.
              Inr (pop_iteration v (attrs node) n st4))))
          (upd_node v (\<lambda>ns. ns\<lparr>current_dim_skew := (current_dim_skew ns)(n := 0)\<rparr>) st))
        (\<lambda>st5. Inr (st5\<lparr>dim_skew := (dim_skew st5)(n := dim_skew st5 n - current_dim_skew (nodes st5 v) n)\<rparr>)))"

subsection \<open>The walk\<close>

definition push_latency :: "node_id \<Rightarrow> node_id \<Rightarrow> perf_state \<Rightarrow> perf_state" where
  "push_latency v child st =
     upd_node v (\<lambda>ns. ns\<lparr>latency_sub_vec := latency_sub_vec ns @ [node_latency (nodes st child)]\<rparr>) st"

definition clear_latencies :: "node_id \<Rightarrow> perf_state \<Rightarrow> perf_state" where
  "clear_latencies v = upd_node v (\<lambda>ns. ns\<lparr>latency_sub_vec := []\<rparr>)"

text \<open>The latencies of the children become an entry; the first of them is accessed.\<close>

definition end_children :: "node_id \<Rightarrow> perf_state \<Rightarrow> perf_state tileexp" where
  "end_children v st =
     (if latency_sub_vec (nodes st v) = [] then Inl Out_of_range
      else Inr (upd_node v (\<lambda>ns. ns\<lparr>latency_vec := latency_vec ns @ [latency_sub_vec ns]\<rparr>) st))"

definition end_tile :: "perf_env \<Rightarrow> node_id \<Rightarrow> eva_node \<Rightarrow> perf_state \<Rightarrow> perf_state tileexp" where
  "end_tile env v node st =
     (let scope = (case children node of
          c # _ \<Rightarrow> if kind (attrs c) = Scope then scope_type (attrs c) else Pipeline | [] \<Rightarrow> Pipeline) in
      and_then (tile_latency (intercon_attri_map env) node (tile_type (attrs node) = Temporal) scope (latency_vec (nodes st v)))
        (\<lambda>l. Inr (if l = 0 then st
                   else upd_node v (\<lambda>ns. ns\<lparr>node_latency := (node_latency ns)\<lparr>process_latency := l\<rparr>\<rparr>) st)))"

fun visit :: "perf_env \<Rightarrow> node_id \<Rightarrow> eva_node \<Rightarrow> perf_state \<Rightarrow> perf_state tileexp"
  and scope_children :: "perf_env \<Rightarrow> node_id \<Rightarrow> nat \<Rightarrow> eva_node list \<Rightarrow> perf_state \<Rightarrow> perf_state tileexp"
  and tile_children :: "perf_env \<Rightarrow> node_id \<Rightarrow> nat \<Rightarrow> eva_node list \<Rightarrow> perf_state \<Rightarrow> perf_state tileexp"
where
  "visit env v (EvaNode a cs) st =
     (case kind a of
        Op \<Rightarrow> visitOp env v a st
      | Trans \<Rightarrow> visitTrans env v a st
      | Scope \<Rightarrow> and_then (scope_children env v 0 cs (clear_latencies v st)) (end_children v)
      | Tile \<Rightarrow> and_then (visitTileLoop env v (EvaNode a cs)
                          (\<lambda>s. and_then (tile_children env v 0 cs (clear_latencies v s)) (end_children v)) (loopnests a) st)
                        (end_tile env v (EvaNode a cs)))"
| "scope_children env v i [] st = Inr st"
| "scope_children env v i (c # cs) st =
     and_then (visit env (i # v) c st) (\<lambda>st1.
       scope_children env v (Suc i) cs (if kind (attrs c) = Trans then st1 else push_latency v (i # v) st1))"
| "tile_children env v i [] st = Inr st"
| "tile_children env v i (c # cs) st =
     and_then (visit env (i # v) c st) (\<lambda>st1.
       if kind (attrs c) = Scope
       then Inr (upd_node v (\<lambda>ns. ns\<lparr>latency_sub_vec := latency_sub_vec (nodes st1 (i # v))\<rparr>) st1)
       else tile_children env v (Suc i) cs (push_latency v (i # v) st1))"

text \<open>The walk starts at the root, with the tensors that the passes have attached.\<close>

definition perf_start :: "(node_id \<Rightarrow> (string \<times> tensor_map) list) \<Rightarrow> (node_id \<Rightarrow> (string \<times> tensor_map) list) \<Rightarrow> perf_state" where
  "perf_start inputs outputs =
     \<lparr>dim_skew = (\<lambda>_. 0), vec_last_dim = (\<lambda>_. []), data_movements = 0,
      nodes = (\<lambda>v. \<lparr>current_dim_range = (\<lambda>_. []), current_offset = (\<lambda>_. []), current_dim_skew = (\<lambda>_. 0), ori_start = [],
        current_start = [], in_tensors = inputs v, out_tensors = outputs v, node_latency = no_latency, latency_vec = [],
        latency_sub_vec = []\<rparr>)\<rparr>"

definition perf_run :: "perf_env \<Rightarrow> (node_id \<Rightarrow> (string \<times> tensor_map) list) \<Rightarrow> (node_id \<Rightarrow> (string \<times> tensor_map) list) \<Rightarrow>
    perf_state tileexp" where
  "perf_run env inputs outputs = visit env [] (eva_root env) (perf_start inputs outputs)"

end
