(* ===== verification/Tile_Visits.thy ===== *)
theory Tile_Visits
  imports Tile_Walk
begin

text \<open>
  What the walk of the performance analysis (\<^verbatim>\<open>src/src/loop-analysis/performance.cpp\<close>, modelled in \<open>Tile_Walk\<close>)
  does to its state: a visit restores the skews, the iterations and the stacks that it has pushed to, and gives
  a tile one entry of latencies for every iteration of its loops.
\<close>

subsection \<open>What a visit leaves as it was\<close>

definition stacks :: "node_state \<Rightarrow> (string \<Rightarrow> (int \<times> int) list) \<times> (string \<Rightarrow> (int \<times> int) list) \<times> int list \<times> int list" where
  "stacks ns = (current_dim_range ns, current_offset ns, ori_start ns, current_start ns)"

text \<open>The skews, the iterations and all stacks are the same, only nodes from \<open>v\<close> downwards may have changed, and of
  the skews that \<open>v\<close> keeps those in \<open>N\<close>.\<close>

definition keeps :: "node_id \<Rightarrow> string set \<Rightarrow> perf_state \<Rightarrow> perf_state \<Rightarrow> bool" where
  "keeps v N st st1 \<longleftrightarrow>
     dim_skew st1 = dim_skew st \<and> vec_last_dim st1 = vec_last_dim st \<and>
     (\<forall>u. stacks (nodes st1 u) = stacks (nodes st u)) \<and>
     (\<forall>u. \<not> suffix v u \<longrightarrow> nodes st1 u = nodes st u) \<and>
     (\<forall>m. m \<notin> N \<longrightarrow> current_dim_skew (nodes st1 v) m = current_dim_skew (nodes st v) m)"

lemma keeps_refl [simp]: "keeps v N st st"
  by (simp add: keeps_def)

lemma keeps_trans: "keeps v N a b \<Longrightarrow> keeps v N b c \<Longrightarrow> keeps v N a c"
  by (simp add: keeps_def)

lemma keeps_mono: "keeps v N a b \<Longrightarrow> N \<subseteq> M \<Longrightarrow> keeps v M a b"
  by (auto simp: keeps_def)

lemma keeps_upd:
  "(\<And>ns. stacks (f ns) = stacks ns \<and> current_dim_skew (f ns) = current_dim_skew ns) \<Longrightarrow> keeps v N st (upd_node v f st)"
  by (auto simp: keeps_def upd_node_def)

lemma keeps_upd_data:
  "(\<And>ns. stacks (f ns) = stacks ns \<and> current_dim_skew (f ns) = current_dim_skew ns) \<Longrightarrow>
     keeps v N st (upd_node v f (st\<lparr>data_movements := x\<rparr>))"
  by (auto simp: keeps_def upd_node_def)

lemma keeps_data [simp]: "keeps v N st (st1\<lparr>data_movements := x\<rparr>) \<longleftrightarrow> keeps v N st st1"
  "keeps v N (st\<lparr>data_movements := x\<rparr>) st1 \<longleftrightarrow> keeps v N st st1"
  by (simp_all add: keeps_def)

text \<open>A child does not touch its parent.\<close>

lemma keeps_child: "keeps (i # v) N st st1 \<Longrightarrow> keeps v {} st st1"
proof -
  assume k: "keeps (i # v) N st st1"
  have "suffix v u" if "suffix (i # v) u" for u using that by (meson suffix_ConsD)
  moreover have "\<not> suffix (i # v) v" using suffix_length_le [of "i # v" v] by auto
  ultimately show ?thesis using k unfolding keeps_def by auto
qed

lemma visitOp_keeps: "visitOp env v a st = Inr st1 \<Longrightarrow> keeps v N st st1"
  by (auto simp: visitOp_def Let_def and_then_eq_Inr stacks_def intro!: keeps_upd_data)

lemma visitTrans_keeps: "visitTrans env v a st = Inr st1 \<Longrightarrow> keeps v N st st1"
  by (auto simp: visitTrans_def Let_def and_then_eq_Inr stacks_def split: if_splits option.splits intro!: keeps_upd)

lemma add_inputs_keeps: "add_inputs env v node st = Inr (st1, dms) \<Longrightarrow> keeps v N st st1"
  by (auto simp: add_inputs_def and_then_eq_Inr stacks_def intro!: keeps_upd)

lemma add_outputs_keeps: "add_outputs env v node st = Inr (st1, dms) \<Longrightarrow> keeps v N st st1"
  by (auto simp: add_outputs_def and_then_eq_Inr stacks_def intro!: keeps_upd)

lemma enter_tile_keeps:
  assumes "enter_tile env v node st = Inr st1"
  shows "keeps v N st st1 \<and> latency_vec (nodes st1 v) = []"
proof -
  obtain st2 dm_tile dm_trans st3 dm_out dm_in dm tot l_in l_out where
    s: "add_inputs env v node st = Inr (st2, dm_tile, dm_trans)" "add_outputs env v node st2 = Inr (st3, dm_out)"
      "st1 = upd_node v (\<lambda>ns. ns\<lparr>node_latency := (node_latency ns)\<lparr>input_latency := l_in, output_latency := l_out\<rparr>,
              latency_vec := []\<rparr>) (st3\<lparr>data_movements := tot\<rparr>)"
    using assms by (auto simp: enter_tile_def and_then_eq_Inr)
  have "keeps v N st3 st1" unfolding s(3) by (rule keeps_upd_data) (simp add: stacks_def)
  then have "keeps v N st st1" using add_inputs_keeps [OF s(1)] add_outputs_keeps [OF s(2)] keeps_trans by blast
  then show ?thesis using s(3) by (simp add: upd_node_def)
qed

lemma end_children_keeps:
  "end_children v st = Inr st1 \<Longrightarrow> keeps v N st st1"
  by (auto simp: end_children_def stacks_def split: if_splits intro!: keeps_upd)

lemma end_tile_keeps:
  "end_tile env v node st = Inr st1 \<Longrightarrow> keeps v N st st1 \<and> latency_vec (nodes st1 v) = latency_vec (nodes st v)"
  by (auto simp: end_tile_def Let_def and_then_eq_Inr stacks_def upd_node_def keeps_def)

lemma push_latency_keeps: "keeps v N st (push_latency v c st)"
  by (auto simp: push_latency_def stacks_def intro!: keeps_upd)

lemma clear_latencies_keeps: "keeps v N st (clear_latencies v st)"
  by (auto simp: clear_latencies_def stacks_def intro!: keeps_upd)

text \<open>An invariant of a loop.\<close>

lemma for_loop_rule:
  assumes "for_loop k i f st = Inr st1" "P i st"
    and "\<And>j s s1. i \<le> j \<Longrightarrow> j < i + int k \<Longrightarrow> P j s \<Longrightarrow> f j s = Inr s1 \<Longrightarrow> P (j + 1) s1"
  shows "P (i + int k) st1"
  using assms
proof (induction k arbitrary: i st)
  case (Suc k)
  obtain s where s: "f i st = Inr s" "for_loop k (i + 1) f s = Inr st1" using Suc.prems(1) by (auto simp: and_then_eq_Inr)
  have "P (i + 1) s" using Suc.prems(2,3) s(1) by simp
  from Suc.IH [OF s(2) this] Suc.prems(3) show ?case by (simp add: algebra_simps)
qed simp

text \<open>The state in the middle of a loop over \<open>n\<close>, before iteration \<open>i\<close>.\<close>

definition in_loop :: "node_id \<Rightarrow> string set \<Rightarrow> string \<Rightarrow> int \<Rightarrow> perf_state \<Rightarrow> int \<Rightarrow> perf_state \<Rightarrow> bool" where
  "in_loop v N n off st i st1 \<longleftrightarrow>
     keeps v N (st\<lparr>dim_skew := (dim_skew st)(n := dim_skew st n + i * off)\<rparr>) st1 \<and> current_dim_skew (nodes st1 v) n = i * off"

lemma pop_after_push:
  assumes "in_loop v (insert n N) n (offset_of (dim_offset a) n) st i st1" "keeps v N (push_iteration v a n e i st1) st2" "n \<notin> N"
  shows "in_loop v (insert n N) n (offset_of (dim_offset a) n) st (i + 1) (pop_iteration v a n st2)"
proof -
  let ?off = "offset_of (dim_offset a) n" and ?p = "push_iteration v a n e i st1"
  have k: "dim_skew st2 = dim_skew ?p" "vec_last_dim st2 = vec_last_dim ?p" "\<And>u. stacks (nodes st2 u) = stacks (nodes ?p u)"
    "\<And>u. \<not> suffix v u \<Longrightarrow> nodes st2 u = nodes ?p u" "\<And>m. m \<notin> N \<Longrightarrow> current_dim_skew (nodes st2 v) m = current_dim_skew (nodes ?p v) m"
    using assms(2) by (simp_all add: keeps_def)
  have l: "dim_skew st1 = (dim_skew st)(n := dim_skew st n + i * ?off)" "vec_last_dim st1 = vec_last_dim st"
    "\<And>u. stacks (nodes st1 u) = stacks (nodes st u)" "\<And>u. \<not> suffix v u \<Longrightarrow> nodes st1 u = nodes st u"
    "\<And>m. m \<notin> insert n N \<Longrightarrow> current_dim_skew (nodes st1 v) m = current_dim_skew (nodes st v) m"
    "current_dim_skew (nodes st1 v) n = i * ?off"
    using assms(1) by (simp_all add: in_loop_def keeps_def)
  have p: "dim_skew ?p = dim_skew st1" "vec_last_dim ?p = (vec_last_dim st1)(n := vec_last_dim st1 n @ [\<not> i + 1 < e])"
    "\<And>u. u \<noteq> v \<Longrightarrow> nodes ?p u = nodes st1 u" "current_dim_skew (nodes ?p v) = current_dim_skew (nodes st1 v)"
    "stacks (nodes ?p v) = ((current_dim_range (nodes st1 v))(n := (0, e) # current_dim_range (nodes st1 v) n),
       (current_offset (nodes st1 v))(n := (?off, offset_of (last_dim_offset a) n) # current_offset (nodes st1 v) n),
       0 # ori_start (nodes st1 v), i # current_start (nodes st1 v))"
    by (simp_all add: push_iteration_def upd_node_def stacks_def)
  have "dim_skew (pop_iteration v a n st2) = (dim_skew st)(n := dim_skew st n + (i + 1) * ?off)"
    by (simp add: pop_iteration_def upd_node_def k(1) p(1) l(1) algebra_simps)
  moreover have "vec_last_dim (pop_iteration v a n st2) = vec_last_dim st"
    by (simp add: pop_iteration_def upd_node_def k(2) p(2) l(2))
  moreover have "stacks (nodes (pop_iteration v a n st2) u) = stacks (nodes st u)" for u
  proof (cases "u = v")
    case True
    have "stacks (nodes st2 v) = stacks (nodes ?p v)" by (rule k(3))
    then have "stacks (nodes (pop_iteration v a n st2) v) = stacks (nodes st1 v)"
      unfolding p(5) by (simp add: pop_iteration_def upd_node_def stacks_def)
    then show ?thesis using l(3) True by simp
  next
    case False
    then show ?thesis using k(3) [of u] p(3) [OF False] l(3) by (simp add: pop_iteration_def upd_node_def)
  qed
  moreover have "nodes (pop_iteration v a n st2) u = nodes st u" if "\<not> suffix v u" for u
    using that k(4) p(3) [of u] l(4) by (auto simp: pop_iteration_def upd_node_def)
  moreover have "current_dim_skew (nodes (pop_iteration v a n st2) v) m = current_dim_skew (nodes st v) m" if "m \<notin> insert n N" for m
    using that k(5) p(4) l(5) by (simp add: pop_iteration_def upd_node_def)
  moreover have "current_dim_skew (nodes (pop_iteration v a n st2) v) n = (i + 1) * ?off"
    using k(5) [OF assms(3)] p(4) l(6) by (simp add: pop_iteration_def upd_node_def algebra_simps)
  ultimately show ?thesis by (simp add: in_loop_def keeps_def)
qed

lemma visitTileLoop_keeps:
  assumes "visitTileLoop env v node body ds st = Inr st1" "distinct (map dim_name ds)"
    and "\<And>s s1. body s = Inr s1 \<Longrightarrow> keeps v {} s s1"
  shows "keeps v (dim_name ` set ds) st st1"
  using assms(1,2)
proof (induction ds arbitrary: st st1)
  case (Cons d ds)
  let ?n = "dim_name d" and ?N = "dim_name ` set ds" and ?off = "offset_of (dim_offset (attrs node)) (dim_name d)"
  define e where "e = (if v = [] then residual_end d else end_of_loop (vec_last_dim st) d)"
  define f where "f i s = (let st2 = push_iteration v (attrs node) ?n e i s in
            and_then (if ds = [] \<and> isFirstLoop (ori_start (nodes st2 v)) (current_start (nodes st2 v))
                      then enter_tile env v node st2 else Inr st2) (\<lambda>st3.
            and_then (if ds = [] then body st3 else visitTileLoop env v node body ds st3) (\<lambda>st4.
              Inr (pop_iteration v (attrs node) ?n st4))))" for i s
  let ?st0 = "upd_node v (\<lambda>ns. ns\<lparr>current_dim_skew := (current_dim_skew ns)(?n := 0)\<rparr>) st"
  obtain st5 where s: "for_loop (nat e) 0 f ?st0 = Inr st5"
    "st1 = st5\<lparr>dim_skew := (dim_skew st5)(?n := dim_skew st5 ?n - current_dim_skew (nodes st5 v) ?n)\<rparr>"
    using Cons.prems(1) unfolding visitTileLoop.simps Let_def [of "dim_name d"] e_def [symmetric]
    by (auto simp: f_def [abs_def] Let_def e_def and_then_eq_Inr)
  have n: "?n \<notin> ?N" "distinct (map dim_name ds)" using Cons.prems(2) by auto
  have step: "in_loop v (insert ?n ?N) ?n ?off st (j + 1) s1" if j: "in_loop v (insert ?n ?N) ?n ?off st j s" "f j s = Inr s1" for j s s1
  proof -
    let ?p = "push_iteration v (attrs node) ?n e j s"
    obtain st3 st4 where t: "(if ds = [] \<and> isFirstLoop (ori_start (nodes ?p v)) (current_start (nodes ?p v))
        then enter_tile env v node ?p else Inr ?p) = Inr st3"
      "(if ds = [] then body st3 else visitTileLoop env v node body ds st3) = Inr st4" "s1 = pop_iteration v (attrs node) ?n st4"
      using j(2) by (auto simp: f_def Let_def and_then_eq_Inr)
    have "keeps v ?N ?p st3" using t(1) enter_tile_keeps by (auto split: if_splits)
    moreover have "keeps v ?N st3 st4"
      using t(2) Cons.IH [of st3 st4] n(2) assms(3) keeps_mono by (auto split: if_splits)
    ultimately have "keeps v ?N ?p st4" by (rule keeps_trans)
    from pop_after_push [OF j(1) this n(1)] show ?thesis using t(3) by simp
  qed
  have "in_loop v (insert ?n ?N) ?n ?off st 0 ?st0"
    by (auto simp: in_loop_def keeps_def upd_node_def stacks_def)
  then have "in_loop v (insert ?n ?N) ?n ?off st (0 + int (nat e)) st5"
    by (rule for_loop_rule [OF s(1)]) (rule step)
  then show ?case unfolding s(2) by (auto simp: in_loop_def keeps_def)
qed simp

text \<open>The dimensions of the loops of every tile are distinct.\<close>

fun tiles_distinct :: "eva_node \<Rightarrow> bool" where
  "tiles_distinct (EvaNode a cs) \<longleftrightarrow> (kind a = Tile \<longrightarrow> distinct (map dim_name (loopnests a))) \<and> list_all tiles_distinct cs"

lemma visit_keeps:
  "visit env v t st = Inr st1 \<Longrightarrow> tiles_distinct t \<Longrightarrow> keeps v UNIV st st1"
  "scope_children env v i cs st = Inr st1 \<Longrightarrow> list_all tiles_distinct cs \<Longrightarrow> keeps v {} st st1"
  "tile_children env v i cs st = Inr st1 \<Longrightarrow> list_all tiles_distinct cs \<Longrightarrow> keeps v {} st st1"
proof (induction env v t st and env v i cs st and env v i cs st arbitrary: st1 and st1 and st1
    rule: visit_scope_children_tile_children.induct)
  case (1 env v a cs st)
  show ?case
  proof (cases "kind a")
    case Tile
    obtain st2 where s: "visitTileLoop env v (EvaNode a cs)
        (\<lambda>s. and_then (tile_children env v 0 cs (clear_latencies v s)) (end_children v)) (loopnests a) st = Inr st2"
      "end_tile env v (EvaNode a cs) st2 = Inr st1"
      using 1(3) Tile by (auto simp: and_then_eq_Inr)
    have d: "distinct (map dim_name (loopnests a))" "list_all tiles_distinct cs" using 1(4) Tile by simp_all
    have "keeps v {} s s1" if b: "and_then (tile_children env v 0 cs (clear_latencies v s)) (end_children v) = Inr s1" for s s1
    proof -
      obtain s2 where s2: "tile_children env v 0 cs (clear_latencies v s) = Inr s2" "end_children v s2 = Inr s1"
        using b by (auto simp: and_then_eq_Inr)
      have "keeps v {} (clear_latencies v s) s2" by (rule 1(1) [OF Tile s2(1) d(2)])
      from keeps_trans [OF keeps_trans [OF clear_latencies_keeps this] end_children_keeps [OF s2(2)]] show ?thesis .
    qed
    then have "keeps v (dim_name ` set (loopnests a)) st st2" by (rule visitTileLoop_keeps [OF s(1) d(1)])
    from keeps_trans [OF keeps_mono [OF this subset_UNIV] end_tile_keeps [OF s(2), THEN conjunct1]] show ?thesis .
  next
    case Scope
    obtain st2 where "scope_children env v 0 cs (clear_latencies v st) = Inr st2" "end_children v st2 = Inr st1"
      using 1(3) Scope by (auto simp: and_then_eq_Inr)
    note s = this
    have "keeps v {} (clear_latencies v st) st2" by (rule 1(2) [OF Scope s(1)]) (use 1(4) in simp)
    from keeps_trans [OF keeps_trans [OF clear_latencies_keeps this] end_children_keeps [OF s(2)]] show ?thesis
      by (rule keeps_mono) simp
  qed (use 1(3) visitOp_keeps visitTrans_keeps in auto)
next
  case (3 env v i c cs st)
  obtain st2 where s: "visit env (i # v) c st = Inr st2"
    "scope_children env v (Suc i) cs (if kind (attrs c) = Trans then st2 else push_latency v (i # v) st2) = Inr st1"
    using 3(3) by (auto simp: and_then_eq_Inr)
  have "keeps v {} st st2" using 3(1) [OF s(1)] 3(4) keeps_child by simp
  moreover have "keeps v {} (if kind (attrs c) = Trans then st2 else push_latency v (i # v) st2) st1"
    using 3(2) s 3(4) by simp
  moreover have "keeps v {} st2 (if kind (attrs c) = Trans then st2 else push_latency v (i # v) st2)"
    using push_latency_keeps by simp
  ultimately show ?case using keeps_trans by metis
next
  case (5 env v i c cs st)
  obtain st2 where s: "visit env (i # v) c st = Inr st2" using 5(3) by (auto simp: and_then_eq_Inr)
  have k: "keeps v {} st st2" using 5(1) [OF s] 5(4) keeps_child by simp
  show ?case
  proof (cases "kind (attrs c) = Scope")
    case True
    have "keeps v {} st2 st1" using 5(3) s True by (auto simp: stacks_def intro!: keeps_upd)
    with k show ?thesis by (rule keeps_trans)
  next
    case False
    then have "keeps v {} (push_latency v (i # v) st2) st1" using 5(2) [OF False] 5(3,4) s by simp
    from keeps_trans [OF keeps_trans [OF k push_latency_keeps] this] show ?thesis .
  qed
qed simp_all

text \<open>C6: a visit leaves the skews, the iterations of the enclosing loops and the stacks of all nodes as they were, and
  changes nothing at nodes that are not below the visited one.\<close>

theorem walk_restores:
  assumes "visit env v t st = Inr st1" "tiles_distinct t"
  shows "dim_skew st1 = dim_skew st \<and> vec_last_dim st1 = vec_last_dim st \<and>
    (\<forall>u. current_dim_range (nodes st1 u) = current_dim_range (nodes st u) \<and> current_offset (nodes st1 u) = current_offset (nodes st u) \<and>
       ori_start (nodes st1 u) = ori_start (nodes st u) \<and> current_start (nodes st1 u) = current_start (nodes st u)) \<and>
    (\<forall>u. \<not> suffix v u \<longrightarrow> nodes st1 u = nodes st u)"
  using visit_keeps(1) [OF assms] by (auto simp: keeps_def stacks_def)

subsection \<open>The iterations of a tile\<close>

lemma isFirstLoop_Cons [simp]: "isFirstLoop (0 # xs) (i # ys) \<longleftrightarrow> i = 0 \<and> isFirstLoop xs ys"
  by (auto simp: isFirstLoop_def)

lemma keeps_firstLoop:
  "keeps v N st st1 \<Longrightarrow> isFirstLoop (ori_start (nodes st1 u)) (current_start (nodes st1 u)) = isFirstLoop (ori_start (nodes st u)) (current_start (nodes st u))"
  unfolding keeps_def stacks_def by (metis prod.inject)

lemma in_loop_vec: "in_loop v N n off st i st1 \<Longrightarrow> vec_last_dim st1 = vec_last_dim st"
  by (simp add: in_loop_def keeps_def)

lemma in_loop_firstLoop:
  "in_loop v N n off st i st1 \<Longrightarrow> isFirstLoop (ori_start (nodes st1 u)) (current_start (nodes st1 u)) = isFirstLoop (ori_start (nodes st u)) (current_start (nodes st u))"
  unfolding in_loop_def using keeps_firstLoop by fastforce

lemma push_simps [simp]:
  "vec_last_dim (push_iteration v a n e i st) = (vec_last_dim st)(n := vec_last_dim st n @ [\<not> i + 1 < e])"
  "dim_skew (push_iteration v a n e i st) = dim_skew st"
  "ori_start (nodes (push_iteration v a n e i st) v) = 0 # ori_start (nodes st v)"
  "current_start (nodes (push_iteration v a n e i st) v) = i # current_start (nodes st v)"
  "latency_vec (nodes (push_iteration v a n e i st) v) = latency_vec (nodes st v)"
  "latency_vec (nodes (pop_iteration v a n st) v) = latency_vec (nodes st v)"
  by (simp_all add: push_iteration_def pop_iteration_def upd_node_def)

lemma length_visit_loops_Cons:
  "length (visit_loops vec (d # ds)) = (\<Sum>i\<leftarrow>[0..end_of_loop vec d - 1].
     length (visit_loops (vec(dim_name d := vec (dim_name d) @ [\<not> i + 1 < end_of_loop vec d])) ds))"
  by (simp add: Let_def length_concat comp_def)

text \<open>The vector of latencies is cleared in the first iteration and gets an entry in each.\<close>

lemma visitTileLoop_latencies:
  assumes "visitTileLoop env v node body ds st = Inr st1" "distinct (map dim_name ds)" "good_loops ds" "ds \<noteq> []"
    and "v = [] \<longrightarrow> (\<forall>d \<in> set ds. isLastLoop (vec_last_dim st) (dim_name d))"
    and "\<And>s s1. body s = Inr s1 \<Longrightarrow> keeps v {} s s1 \<and> length (latency_vec (nodes s1 v)) = Suc (length (latency_vec (nodes s v)))"
  shows "length (latency_vec (nodes st1 v)) =
    (if isFirstLoop (ori_start (nodes st v)) (current_start (nodes st v)) then 0 else length (latency_vec (nodes st v))) +
    length (visit_loops (vec_last_dim st) ds)"
  using assms(1-5)
proof (induction ds arbitrary: st st1)
  case (Cons d ds)
  let ?n = "dim_name d" and ?N = "dim_name ` set ds" and ?off = "offset_of (dim_offset (attrs node)) (dim_name d)"
  let ?first = "isFirstLoop (ori_start (nodes st v)) (current_start (nodes st v))"
  define e where "e = end_of_loop (vec_last_dim st) d"
  have e: "(if v = [] then residual_end d else end_of_loop (vec_last_dim st) d) = e" "0 < e"
    using Cons.prems(3,5) by (auto simp: e_def end_of_loop_def)
  define f where "f i s = (let st2 = push_iteration v (attrs node) ?n e i s in
            and_then (if ds = [] \<and> isFirstLoop (ori_start (nodes st2 v)) (current_start (nodes st2 v))
                      then enter_tile env v node st2 else Inr st2) (\<lambda>st3.
            and_then (if ds = [] then body st3 else visitTileLoop env v node body ds st3) (\<lambda>st4.
              Inr (pop_iteration v (attrs node) ?n st4))))" for i s
  let ?st0 = "upd_node v (\<lambda>ns. ns\<lparr>current_dim_skew := (current_dim_skew ns)(?n := 0)\<rparr>) st"
  obtain st5 where s: "for_loop (nat e) 0 f ?st0 = Inr st5"
    "st1 = st5\<lparr>dim_skew := (dim_skew st5)(?n := dim_skew st5 ?n - current_dim_skew (nodes st5 v) ?n)\<rparr>"
    using Cons.prems(1) unfolding visitTileLoop.simps e(1) by (auto simp: f_def [abs_def] Let_def and_then_eq_Inr)
  have n: "?n \<notin> ?N" "distinct (map dim_name ds)" "good_loops ds" using Cons.prems(2,3) by auto
  define vec where "vec j = (vec_last_dim st)(?n := vec_last_dim st ?n @ [\<not> j + 1 < e])" for j
  define Q where "Q j s1 \<longleftrightarrow> in_loop v (insert ?n ?N) ?n ?off st j s1 \<and>
    length (latency_vec (nodes s1 v)) = (if j = 0 then length (latency_vec (nodes st v))
      else (if ?first then 0 else length (latency_vec (nodes st v))) + (\<Sum>i\<leftarrow>[0..j - 1]. length (visit_loops (vec i) ds)))" for j s1
  have step: "Q (j + 1) s1" if j: "0 \<le> j" "Q j s" "f j s = Inr s1" for j s s1
  proof -
    let ?p = "push_iteration v (attrs node) ?n e j s"
    have loop: "in_loop v (insert ?n ?N) ?n ?off st j s" using j(2) by (simp add: Q_def)
    have first: "isFirstLoop (ori_start (nodes ?p v)) (current_start (nodes ?p v)) \<longleftrightarrow> j = 0 \<and> ?first"
      using in_loop_firstLoop [OF loop] by simp
    have vec: "vec_last_dim ?p = vec j" using in_loop_vec [OF loop] by (simp add: vec_def)
    obtain st3 st4 where t: "(if ds = [] \<and> isFirstLoop (ori_start (nodes ?p v)) (current_start (nodes ?p v))
        then enter_tile env v node ?p else Inr ?p) = Inr st3"
      "(if ds = [] then body st3 else visitTileLoop env v node body ds st3) = Inr st4" "s1 = pop_iteration v (attrs node) ?n st4"
      using j(3) by (auto simp: f_def Let_def and_then_eq_Inr)
    have "keeps v ?N ?p st3" using t(1) enter_tile_keeps by (auto split: if_splits)
    moreover have "keeps v ?N st3 st4"
      using t(2) visitTileLoop_keeps [of env v node body ds st3 st4] n(2) assms(6) keeps_mono by (auto split: if_splits)
    ultimately have "keeps v ?N ?p st4" by (rule keeps_trans)
    from pop_after_push [OF loop this n(1)] have next_loop: "in_loop v (insert ?n ?N) ?n ?off st (j + 1) s1" using t(3) by simp
    have count: "length (latency_vec (nodes s1 v)) =
        (if j = 0 \<and> ?first then 0 else length (latency_vec (nodes s v))) + length (visit_loops (vec j) ds)"
    proof (cases "ds = []")
      case True
      then have "length (latency_vec (nodes st3 v)) = (if j = 0 \<and> ?first then 0 else length (latency_vec (nodes s v)))"
        using t(1) first enter_tile_keeps [of env v node ?p st3] by (auto split: if_splits)
      then show ?thesis using True t(2,3) assms(6) [of st3 st4] by simp
    next
      case False
      then have st3: "st3 = ?p" "visitTileLoop env v node body ds ?p = Inr st4" using t(1,2) by auto
      have "dim_name c \<noteq> ?n" if "c \<in> set ds" for c using that Cons.prems(2) by (auto simp: image_iff)
      then have "v = [] \<longrightarrow> (\<forall>d \<in> set ds. isLastLoop (vec_last_dim ?p) (dim_name d))"
        using Cons.prems(5) in_loop_vec [OF loop] by (simp add: isLastLoop_append)
      from Cons.IH [OF st3(2) n(2,3) False this] show ?thesis
        unfolding first vec t(3) by simp
    qed
    have "[0..j] = [0..j - 1] @ [j]" using j(1) upto_rec2 [of 0 j] by simp
    then show ?thesis using next_loop count j(1,2) by (cases "j = 0") (simp_all add: Q_def)
  qed
  have "Q 0 ?st0" by (auto simp: Q_def in_loop_def keeps_def upd_node_def stacks_def)
  then have "Q (0 + int (nat e)) st5" by (rule for_loop_rule [OF s(1)]) (rule step)
  then have "length (latency_vec (nodes st5 v)) = (if ?first then 0 else length (latency_vec (nodes st v))) +
      (\<Sum>i\<leftarrow>[0..e - 1]. length (visit_loops (vec i) ds))" using e(2) by (simp add: Q_def)
  then show ?case unfolding s(2) length_visit_loops_Cons by (simp add: vec_def e_def)
qed simp

lemma length_visit_loops:
  "good_loops ds \<Longrightarrow> distinct (map dim_name ds) \<Longrightarrow> length (visit_loops vec ds) = (\<Prod>d\<leftarrow>ds. nat (end_of_loop vec d))"
proof (induction ds arbitrary: vec)
  case (Cons d ds)
  have "length (visit_loops (vec(dim_name d := xs)) ds) = (\<Prod>d\<leftarrow>ds. nat (end_of_loop vec d))" for xs
  proof -
    have m: "map (\<lambda>c. nat (end_of_loop (vec(dim_name d := xs)) c)) ds = map (\<lambda>c. nat (end_of_loop vec c)) ds"
    proof (rule map_cong [OF refl])
      fix c assume "c \<in> set ds"
      then have "dim_name c \<noteq> dim_name d" using Cons.prems(2) by (auto simp: image_iff)
      then show "nat (end_of_loop (vec(dim_name d := xs)) c) = nat (end_of_loop vec c)"
        by (simp add: end_of_loop_def isLastLoop_def)
    qed
    have "length (visit_loops (vec(dim_name d := xs)) ds) = (\<Prod>c\<leftarrow>ds. nat (end_of_loop (vec(dim_name d := xs)) c))"
      by (rule Cons.IH) (use Cons.prems in simp_all)
    then show ?thesis unfolding m .
  qed
  then show ?case unfolding length_visit_loops_Cons by (simp add: sum_list_triv)
qed simp

lemma tile_children_latency_vec:
  "tile_children env v i cs st = Inr st1 \<Longrightarrow> list_all tiles_distinct cs \<Longrightarrow> latency_vec (nodes st1 v) = latency_vec (nodes st v)"
proof (induction cs arbitrary: i st)
  case (Cons c cs)
  obtain st2 where s: "visit env (i # v) c st = Inr st2" using Cons.prems(1) by (auto simp: and_then_eq_Inr)
  have "\<not> suffix (i # v) v" using suffix_length_le [of "i # v" v] by auto
  then have same: "nodes st2 v = nodes st v" using visit_keeps(1) [OF s] Cons.prems(2) by (simp add: keeps_def)
  show ?case
  proof (cases "kind (attrs c) = Scope")
    case True
    then show ?thesis using Cons.prems(1) s same by (auto simp: upd_node_def)
  next
    case False
    then have "latency_vec (nodes st1 v) = latency_vec (nodes (push_latency v (i # v) st2) v)"
      using Cons.IH [of "Suc i" "push_latency v (i # v) st2"] Cons.prems s by simp
    then show ?thesis using same by (simp add: push_latency_def upd_node_def)
  qed
qed simp

text \<open>After the visit of a tile its latencies are those of this visit: one entry for every iteration of its own
  loops, of which those run to their residual ends whose enclosing loops are all in their last iteration.\<close>

theorem tile_iterations:
  assumes "visit env v (EvaNode a cs) st = Inr st1" "kind a = Tile" "tiles_distinct (EvaNode a cs)"
    and "good_loops (loopnests a)" "loopnests a \<noteq> []"
    and "ori_start (nodes st v) = []" "v = [] \<longrightarrow> (\<forall>n. vec_last_dim st n = [])"
  shows "length (latency_vec (nodes st1 v)) = length (visit_loops (vec_last_dim st) (loopnests a)) \<and>
    length (visit_loops (vec_last_dim st) (loopnests a)) =
      (\<Prod>d\<leftarrow>loopnests a. nat (if isLastLoop (vec_last_dim st) (dim_name d) then residual_end d else loop_end d))"
proof -
  let ?body = "\<lambda>s. and_then (tile_children env v 0 cs (clear_latencies v s)) (end_children v)"
  obtain st2 where s: "visitTileLoop env v (EvaNode a cs) ?body (loopnests a) st = Inr st2" "end_tile env v (EvaNode a cs) st2 = Inr st1"
    using assms(1,2) by (auto simp: and_then_eq_Inr)
  have d: "distinct (map dim_name (loopnests a))" "list_all tiles_distinct cs" using assms(2,3) by simp_all
  have "keeps v {} s s1 \<and> length (latency_vec (nodes s1 v)) = Suc (length (latency_vec (nodes s v)))" if b: "?body s = Inr s1" for s s1
  proof -
    obtain s2 where s2: "tile_children env v 0 cs (clear_latencies v s) = Inr s2" "end_children v s2 = Inr s1"
      using b by (auto simp: and_then_eq_Inr)
    have k: "keeps v {} (clear_latencies v s) s2" by (rule visit_keeps(3) [OF s2(1) d(2)])
    have "latency_vec (nodes s2 v) = latency_vec (nodes s v)"
      using tile_children_latency_vec [OF s2(1) d(2)] by (simp add: clear_latencies_def upd_node_def)
    moreover have "length (latency_vec (nodes s1 v)) = Suc (length (latency_vec (nodes s2 v)))"
      using s2(2) by (auto simp: end_children_def upd_node_def split: if_splits)
    ultimately show ?thesis
      using keeps_trans [OF keeps_trans [OF clear_latencies_keeps k] end_children_keeps [OF s2(2)]] by simp
  qed
  note body = this
  have "v = [] \<longrightarrow> (\<forall>d \<in> set (loopnests a). isLastLoop (vec_last_dim st) (dim_name d))"
    using assms(7) by (simp add: isLastLoop_def)
  from visitTileLoop_latencies [OF s(1) d(1) assms(4,5) this body]
  have "length (latency_vec (nodes st2 v)) = length (visit_loops (vec_last_dim st) (loopnests a))"
    by (simp add: assms(6) isFirstLoop_def)
  then show ?thesis
    using end_tile_keeps [OF s(2)] length_visit_loops [OF assms(4) d(1), of "vec_last_dim st"] by (simp add: end_of_loop_def)
qed

end
