(* ===== verification/Tile_Ranges.thy ===== *)
theory Tile_Ranges
  imports Tile_Visits
begin

text \<open>
  The tensor ranges that the performance analysis attaches to a tile when it enters it (\<open>addCurrentTensor\<close> in
  \<^verbatim>\<open>src/src/loop-analysis/performance.cpp\<close>), compared with the indices that the loops of the tile and those
  further in visit. The tile is the top of a chain with the offsets that \<open>Tile_Loops\<close> proves to be computed.
\<close>

subsection \<open>The positions that loops visit\<close>

lemma position_bounds:
  assumes "good_loops ds" "path \<in> set (visit_loops vec ds)"
  shows "0 \<le> position n ds path \<and> position n ds path < extent n (isLastLoop vec n) ds"
  using assms
proof (induction ds arbitrary: vec path)
  case (Cons d ds)
  define e where "e = end_of_loop vec d"
  define vec' where "vec' i = vec(dim_name d := vec (dim_name d) @ [\<not> i + 1 < e])" for i
  let ?P = "dim_product (dim_name d) ds"
  obtain i p where p: "path = (dim_name d, i) # p" "p \<in> set (visit_loops (vec' i) ds)" "0 \<le> i" "i \<le> e - 1"
    using Cons.prems(2) by (auto simp: Let_def e_def vec'_def)
  have good: "good_loops ds" using Cons.prems(1) by simp
  have P: "1 \<le> ?P" using dim_product_pos [OF good] .
  have IH: "0 \<le> position n ds p" "position n ds p < extent n (isLastLoop (vec' i) n) ds" using Cons.IH [OF good p(2)] by simp_all
  show ?case
  proof (cases "dim_name d = n")
    case True
    have pos: "position n (d # ds) path = i * dim_product n ds + position n ds p" using True p(1) by simp
    have ext: "extent n (isLastLoop vec n) (d # ds) = (e - 1) * dim_product n ds + extent n (isLastLoop vec n) ds"
      using True by (simp add: e_def end_of_loop_def)
    have "0 \<le> i * dim_product n ds" using p(3) P True by simp
    moreover have "i * dim_product n ds + extent n (isLastLoop (vec' i) n) ds \<le> (e - 1) * dim_product n ds + extent n (isLastLoop vec n) ds"
    proof (cases "i + 1 < e")
      case last: True
      then have "(i + 1) * dim_product n ds \<le> (e - 1) * dim_product n ds" using P True by (intro mult_right_mono) auto
      moreover have "extent n (isLastLoop (vec' i) n) ds = dim_product n ds"
        using last True by (simp add: vec'_def isLastLoop_append extent_False)
      moreover have "1 \<le> extent n (isLastLoop vec n) ds" using extent_bounds [OF good] by simp
      ultimately show ?thesis by (simp add: algebra_simps)
    next
      case False
      then have "i = e - 1" using p(4) by simp
      then show ?thesis using False True by (simp add: vec'_def isLastLoop_append)
    qed
    ultimately show ?thesis unfolding pos ext using IH by linarith
  next
    case False
    then show ?thesis using IH p(1) by (simp add: vec'_def isLastLoop_append)
  qed
qed simp

lemma visited_positions:
  assumes "good_loops ds"
  shows "position n ds ` set (visit_loops vec ds) = {0..<extent n (isLastLoop vec n) ds}"
proof (rule set_eqI, rule iffI)
  fix x assume "x \<in> {0..<extent n (isLastLoop vec n) ds}"
  moreover have "1 \<le> extent m (isLastLoop vec m) ds" for m using extent_bounds [OF assms] by simp
  ultimately have "\<forall>m. 0 \<le> (if m = n then x else 0) \<and> (if m = n then x else 0) < extent m (isLastLoop vec m) ds"
    by (auto intro: order.strict_trans2 [OF zero_less_one])
  from visits_reach [OF assms this] obtain path where "path \<in> set (visit_loops vec ds)" "position n ds path = x" by auto
  then show "x \<in> position n ds ` set (visit_loops vec ds)" by blast
qed (use position_bounds [OF assms] in auto)

text \<open>The last iterations cover as much as the others when no loop of the dimension ends early.\<close>

lemma extent_full:
  assumes "good_loops ds"
  shows "extent n True ds = dim_product n ds \<longleftrightarrow> (\<forall>d \<in> set ds. dim_name d = n \<longrightarrow> residual_end d = loop_end d)"
  using assms
proof (induction ds)
  case (Cons d ds)
  have good: "good_loops ds" "1 \<le> residual_end d" "residual_end d \<le> loop_end d" using Cons.prems by simp_all
  show ?case
  proof (cases "dim_name d = n")
    case True
    have P: "1 \<le> dim_product n ds" and x: "extent n True ds \<le> dim_product n ds"
      using dim_product_pos [OF good(1)] extent_bounds [OF good(1)] by simp_all
    have "extent n True (d # ds) = dim_product n (d # ds) \<longleftrightarrow>
        (loop_end d - residual_end d) * dim_product n ds + (dim_product n ds - extent n True ds) = 0"
      using True by (auto simp: algebra_simps)
    also have "\<dots> \<longleftrightarrow> (loop_end d - residual_end d) * dim_product n ds = 0 \<and> dim_product n ds - extent n True ds = 0"
      by (rule add_nonneg_eq_0_iff) (use good P x in simp_all)
    also have "\<dots> \<longleftrightarrow> residual_end d = loop_end d \<and> extent n True ds = dim_product n ds" using P by auto
    finally show ?thesis using True Cons.IH [OF good(1)] by simp
  next
    case False
    then show ?thesis using Cons.IH [OF good(1)] by simp
  qed
qed simp

subsection \<open>Entering a tile\<close>

text \<open>The state in which a tile is entered: all of its loops are in their first iteration.\<close>

fun first_iteration :: "node_id \<Rightarrow> eva_attrs \<Rightarrow> loop_desc list \<Rightarrow> perf_state \<Rightarrow> perf_state" where
  "first_iteration v a [] st = st"
| "first_iteration v a (d # ds) st = first_iteration v a ds
     (push_iteration v a (dim_name d) (if v = [] then residual_end d else end_of_loop (vec_last_dim st) d) 0
       (upd_node v (\<lambda>ns. ns\<lparr>current_dim_skew := (current_dim_skew ns)(dim_name d := 0)\<rparr>) st))"

definition tensors :: "node_state \<Rightarrow> (string \<times> tensor_map) list \<times> (string \<times> tensor_map) list" where
  "tensors ns = (in_tensors ns, out_tensors ns)"

lemma tensors_push [simp]:
  "tensors (nodes (push_iteration v a n e i st) u) = tensors (nodes st u)"
  "tensors (nodes (pop_iteration v a n st) u) = tensors (nodes st u)"
  by (simp_all add: tensors_def push_iteration_def pop_iteration_def upd_node_def)

lemma visitTileLoop_tensors:
  assumes "visitTileLoop env v node body ds st = Inr st1" "distinct (map dim_name ds)" "good_loops ds" "ds \<noteq> []"
    and "\<And>s s1. body s = Inr s1 \<Longrightarrow> keeps v {} s s1 \<and> tensors (nodes s1 v) = tensors (nodes s v)"
  shows "if isFirstLoop (ori_start (nodes st v)) (current_start (nodes st v))
    then \<exists>st2. enter_tile env v node (first_iteration v (attrs node) ds st) = Inr st2 \<and> tensors (nodes st1 v) = tensors (nodes st2 v)
    else tensors (nodes st1 v) = tensors (nodes st v)"
  using assms(1-4)
proof (induction ds arbitrary: st st1)
  case (Cons d ds)
  let ?n = "dim_name d" and ?N = "dim_name ` set ds" and ?off = "offset_of (dim_offset (attrs node)) (dim_name d)"
  let ?first = "isFirstLoop (ori_start (nodes st v)) (current_start (nodes st v))"
  define e where "e = (if v = [] then residual_end d else end_of_loop (vec_last_dim st) d)"
  have e: "0 < e" using Cons.prems(3) by (auto simp: e_def end_of_loop_def)
  define f where "f i s = (let st2 = push_iteration v (attrs node) ?n e i s in
            and_then (if ds = [] \<and> isFirstLoop (ori_start (nodes st2 v)) (current_start (nodes st2 v))
                      then enter_tile env v node st2 else Inr st2) (\<lambda>st3.
            and_then (if ds = [] then body st3 else visitTileLoop env v node body ds st3) (\<lambda>st4.
              Inr (pop_iteration v (attrs node) ?n st4))))" for i s
  define st0 where "st0 = upd_node v (\<lambda>ns. ns\<lparr>current_dim_skew := (current_dim_skew ns)(?n := 0)\<rparr>) st"
  obtain st5 where s: "for_loop (nat e) 0 f st0 = Inr st5"
    "st1 = st5\<lparr>dim_skew := (dim_skew st5)(?n := dim_skew st5 ?n - current_dim_skew (nodes st5 v) ?n)\<rparr>"
    using Cons.prems(1) unfolding visitTileLoop.simps Let_def [of "dim_name d"] e_def [symmetric] st0_def
    by (auto simp: f_def [abs_def] Let_def e_def and_then_eq_Inr)
  have n: "?n \<notin> ?N" "distinct (map dim_name ds)" "good_loops ds" using Cons.prems(2,3) by auto
  define enters where "enters s1 \<longleftrightarrow> (if ?first
    then \<exists>st2. enter_tile env v node (first_iteration v (attrs node) (d # ds) st) = Inr st2 \<and> tensors (nodes s1 v) = tensors (nodes st2 v)
    else tensors (nodes s1 v) = tensors (nodes st v))" for s1 :: perf_state
  define Q where "Q j s1 \<longleftrightarrow> in_loop v (insert ?n ?N) ?n ?off st j s1 \<and> (if j = 0 then s1 = st0 else enters s1)" for j s1
  have step: "Q (j + 1) s1" if j: "0 \<le> j" "Q j s" "f j s = Inr s1" for j s s1
  proof -
    let ?p = "push_iteration v (attrs node) ?n e j s"
    have loop: "in_loop v (insert ?n ?N) ?n ?off st j s" using j(2) by (simp add: Q_def)
    have first: "isFirstLoop (ori_start (nodes ?p v)) (current_start (nodes ?p v)) \<longleftrightarrow> j = 0 \<and> ?first"
      using in_loop_firstLoop [OF loop] by simp
    obtain st3 st4 where t: "(if ds = [] \<and> isFirstLoop (ori_start (nodes ?p v)) (current_start (nodes ?p v))
        then enter_tile env v node ?p else Inr ?p) = Inr st3"
      "(if ds = [] then body st3 else visitTileLoop env v node body ds st3) = Inr st4" "s1 = pop_iteration v (attrs node) ?n st4"
      using j(3) by (auto simp: f_def Let_def and_then_eq_Inr)
    have "keeps v ?N ?p st3" using t(1) enter_tile_keeps by (auto split: if_splits)
    moreover have "keeps v ?N st3 st4"
      using t(2) visitTileLoop_keeps [of env v node body ds st3 st4] n(2) assms(5) keeps_mono by (auto split: if_splits)
    ultimately have "keeps v ?N ?p st4" by (rule keeps_trans)
    from pop_after_push [OF loop this n(1)] have next_loop: "in_loop v (insert ?n ?N) ?n ?off st (j + 1) s1" using t(3) by simp
    have goes: "if j = 0 \<and> ?first
        then \<exists>st2. enter_tile env v node (first_iteration v (attrs node) ds ?p) = Inr st2 \<and> tensors (nodes s1 v) = tensors (nodes st2 v)
        else tensors (nodes s1 v) = tensors (nodes s v)"
    proof (cases "ds = []")
      case True
      then show ?thesis using t first assms(5) [of st3 st4] by (auto split: if_splits)
    next
      case False
      then have "st3 = ?p" "visitTileLoop env v node body ds ?p = Inr st4" using t(1,2) by auto
      from Cons.IH [OF this(2) n(2,3) False] show ?thesis unfolding first t(3) tensors_push .
    qed
    have "enters s1"
    proof (cases "j = 0")
      case True
      then have "s = st0" using j(2) by (simp add: Q_def)
      moreover have "first_iteration v (attrs node) (d # ds) st = first_iteration v (attrs node) ds (push_iteration v (attrs node) ?n e 0 st0)"
        by (simp add: st0_def e_def)
      moreover have "tensors (nodes st0 v) = tensors (nodes st v)" by (simp add: st0_def tensors_def upd_node_def)
      ultimately show ?thesis using goes True by (simp add: enters_def del: first_iteration.simps cong: if_cong)
    next
      case False
      then have "enters s" "tensors (nodes s1 v) = tensors (nodes s v)" using goes j(2) by (simp_all add: Q_def)
      then show ?thesis unfolding enters_def by (simp only:)
    qed
    then show ?thesis using next_loop j(1) by (simp add: Q_def)
  qed
  have "Q 0 st0" by (auto simp: Q_def in_loop_def keeps_def upd_node_def stacks_def st0_def)
  then have "Q (0 + int (nat e)) st5" by (rule for_loop_rule [OF s(1)]) (rule step)
  then have "enters st5" using e by (simp add: Q_def)
  then show ?case unfolding s(2) enters_def by (simp del: first_iteration.simps cong: if_cong)
qed simp

lemma tile_children_tensors:
  "tile_children env v i cs st = Inr st1 \<Longrightarrow> list_all tiles_distinct cs \<Longrightarrow> tensors (nodes st1 v) = tensors (nodes st v)"
proof (induction cs arbitrary: i st)
  case (Cons c cs)
  obtain st2 where s: "visit env (i # v) c st = Inr st2" using Cons.prems(1) by (auto simp: and_then_eq_Inr)
  have "\<not> suffix (i # v) v" using suffix_length_le [of "i # v" v] by auto
  then have same: "nodes st2 v = nodes st v" using visit_keeps(1) [OF s] Cons.prems(2) by (simp add: keeps_def)
  show ?case
  proof (cases "kind (attrs c) = Scope")
    case True
    then show ?thesis using Cons.prems(1) s same by (auto simp: upd_node_def tensors_def)
  next
    case False
    then have "tensors (nodes st1 v) = tensors (nodes (push_latency v (i # v) st2) v)"
      using Cons.IH [of "Suc i" "push_latency v (i # v) st2"] Cons.prems s by simp
    then show ?thesis using same by (simp add: push_latency_def upd_node_def tensors_def)
  qed
qed simp

text \<open>The visit of a tile attaches the ranges of the first iteration of its loops.\<close>

lemma visit_tile_enters:
  assumes "visit env v (EvaNode a cs) st = Inr st1" "kind a = Tile" "tiles_distinct (EvaNode a cs)"
    and "good_loops (loopnests a)" "loopnests a \<noteq> []" "ori_start (nodes st v) = []"
  shows "\<exists>st2. enter_tile env v (EvaNode a cs) (first_iteration v a (loopnests a) st) = Inr st2 \<and>
    tensors (nodes st1 v) = tensors (nodes st2 v)"
proof -
  let ?body = "\<lambda>s. and_then (tile_children env v 0 cs (clear_latencies v s)) (end_children v)"
  obtain st2 where s: "visitTileLoop env v (EvaNode a cs) ?body (loopnests a) st = Inr st2" "end_tile env v (EvaNode a cs) st2 = Inr st1"
    using assms(1,2) by (auto simp: and_then_eq_Inr)
  have d: "distinct (map dim_name (loopnests a))" "list_all tiles_distinct cs" using assms(2,3) by simp_all
  have body: "keeps v {} s s1 \<and> tensors (nodes s1 v) = tensors (nodes s v)" if b: "?body s = Inr s1" for s s1
  proof -
    obtain s2 where s2: "tile_children env v 0 cs (clear_latencies v s) = Inr s2" "end_children v s2 = Inr s1"
      using b by (auto simp: and_then_eq_Inr)
    have k: "keeps v {} (clear_latencies v s) s2" by (rule visit_keeps(3) [OF s2(1) d(2)])
    have "tensors (nodes s1 v) = tensors (nodes s2 v)"
      using s2(2) by (auto simp: end_children_def upd_node_def tensors_def split: if_splits)
    then show ?thesis
      using keeps_trans [OF keeps_trans [OF clear_latencies_keeps k] end_children_keeps [OF s2(2)]]
        tile_children_tensors [OF s2(1) d(2)] by (simp add: clear_latencies_def upd_node_def tensors_def)
  qed
  have "tensors (nodes st1 v) = tensors (nodes st2 v)"
    using s(2) by (auto simp: end_tile_def Let_def and_then_eq_Inr upd_node_def tensors_def)
  then show ?thesis
    using visitTileLoop_tensors [OF s(1) d(1) assms(4,5) body] by (simp add: assms(6) isFirstLoop_def)
qed

lemma first_iteration_simps:
  assumes "distinct (map dim_name ds)"
  shows "dim_skew (first_iteration v a ds st) = dim_skew st"
    and "d \<in> set ds \<Longrightarrow> current_dim_range (nodes (first_iteration v a ds st) v) (dim_name d) =
      (0, if v = [] then residual_end d else end_of_loop (vec_last_dim st) d) # current_dim_range (nodes st v) (dim_name d)"
    and "d \<in> set ds \<Longrightarrow> current_offset (nodes (first_iteration v a ds st) v) (dim_name d) =
      (offset_of (dim_offset a) (dim_name d), offset_of (last_dim_offset a) (dim_name d)) # current_offset (nodes st v) (dim_name d)"
    and "n \<notin> dim_name ` set ds \<Longrightarrow> current_dim_range (nodes (first_iteration v a ds st) v) n = current_dim_range (nodes st v) n"
    and "n \<notin> dim_name ` set ds \<Longrightarrow> current_offset (nodes (first_iteration v a ds st) v) n = current_offset (nodes st v) n"
proof -
  note defs = push_iteration_def upd_node_def
  show skew: "dim_skew (first_iteration v a ds st) = dim_skew st" by (induction ds arbitrary: st) (simp_all add: defs)
  show out: "current_dim_range (nodes (first_iteration v a es s) v) n = current_dim_range (nodes s v) n"
    if "n \<notin> dim_name ` set es" for n es s
    using that by (induction es arbitrary: s) (simp_all add: defs)
  show out_offset: "current_offset (nodes (first_iteration v a es s) v) n = current_offset (nodes s v) n"
    if "n \<notin> dim_name ` set es" for n es s
    using that by (induction es arbitrary: s) (simp_all add: defs)
  have later: "dim_name c \<noteq> dim_name d" if "d \<in> set es" "distinct (map dim_name (c # es))" for c d es
    using that by (auto simp: image_iff)
  show "current_dim_range (nodes (first_iteration v a ds st) v) (dim_name d) =
      (0, if v = [] then residual_end d else end_of_loop (vec_last_dim st) d) # current_dim_range (nodes st v) (dim_name d)"
    if "d \<in> set ds"
    using that assms
  proof (induction ds arbitrary: st)
    case (Cons c ds)
    show ?case
    proof (cases "d \<in> set ds")
      case True
      then show ?thesis using Cons later [OF True Cons.prems(2)] by (simp add: defs end_of_loop_def isLastLoop_def)
    next
      case False
      then have "d = c" "dim_name d \<notin> dim_name ` set ds" using Cons.prems by auto
      then show ?thesis using out by (simp add: defs)
    qed
  qed simp
  show "current_offset (nodes (first_iteration v a ds st) v) (dim_name d) =
      (offset_of (dim_offset a) (dim_name d), offset_of (last_dim_offset a) (dim_name d)) # current_offset (nodes st v) (dim_name d)"
    if "d \<in> set ds"
    using that assms
  proof (induction ds arbitrary: st)
    case (Cons c ds)
    show ?case
    proof (cases "d \<in> set ds")
      case True
      then show ?thesis using Cons later [OF True Cons.prems(2)] by (simp add: defs)
    next
      case False
      then have "d = c" "dim_name d \<notin> dim_name ` set ds" using Cons.prems by auto
      then show ?thesis using out_offset by (simp add: defs)
    qed
  qed simp
qed

text \<open>The ranges that are attached when a tile is entered are the ranges of its dimensions at that time.\<close>

lemma range_loop_ranges:
  "range_loop rng ns m = Inr m1 \<Longrightarrow> (\<forall>n \<in> set ns. \<exists>r. rng n = Inr r \<and> map_of m1 n = Some r) \<and> (\<forall>n. n \<notin> set ns \<longrightarrow> map_of m1 n = map_of m n)"
proof (induction ns arbitrary: m)
  case (Cons k ns)
  obtain r where r: "rng k = Inr r" "range_loop rng ns (AList.update k r m) = Inr m1" using Cons.prems by (auto simp: and_then_eq_Inr)
  from Cons.IH [OF r(2)] r(1) show ?case by (cases "k \<in> set ns") (auto simp: update_conv')
qed simp

definition has_ranges :: "(string \<Rightarrow> (int \<times> int) tileexp) \<Rightarrow> tensor_map \<Rightarrow> bool" where
  "has_ranges rng tm \<longleftrightarrow> (\<forall>n \<in> set (tensor_dims tm). \<exists>r. rng n = Inr r \<and> map_of (dim_ranges tm) n = Some r)"

lemma ranged_tensor_ranges: "ranged_tensor rng tm = Inr tm1 \<Longrightarrow> has_ranges rng tm1"
  using range_loop_ranges by (fastforce simp: ranged_tensor_def and_then_eq_Inr has_ranges_def)

lemma input_loop_ranges: "input_loop rng is_root name ts a b = Inr (ts1, dms) \<Longrightarrow> (t, tm) \<in> set ts1 \<Longrightarrow> has_ranges rng tm"
proof (induction ts arbitrary: a b ts1 dms)
  case (Cons p ts)
  then show ?case using ranged_tensor_ranges by (cases p) (fastforce simp: and_then_eq_Inr)
qed simp

lemma output_loop_ranges: "output_loop rng is_root ts a = Inr (ts1, dms) \<Longrightarrow> (t, tm) \<in> set ts1 \<Longrightarrow> has_ranges rng tm"
proof (induction ts arbitrary: a ts1 dms)
  case (Cons p ts)
  then show ?case using ranged_tensor_ranges by (cases p) (fastforce simp: and_then_eq_Inr)
qed simp

lemma enter_tile_ranges:
  assumes "enter_tile env v node s = Inr s1" "(t, tm) \<in> set (in_tensors (nodes s1 v)) \<union> set (out_tensors (nodes s1 v))"
  shows "has_ranges (node_range v node s) tm"
proof -
  obtain st2 dm_tile dm_trans st3 dm_out l_in l_out tot where
    s: "add_inputs env v node s = Inr (st2, dm_tile, dm_trans)" "add_outputs env v node st2 = Inr (st3, dm_out)"
      "s1 = upd_node v (\<lambda>ns. ns\<lparr>node_latency := (node_latency ns)\<lparr>input_latency := l_in, output_latency := l_out\<rparr>,
              latency_vec := []\<rparr>) (st3\<lparr>data_movements := tot\<rparr>)"
    using assms(1) by (auto simp: enter_tile_def and_then_eq_Inr)
  obtain ts name where i: "input_loop (node_range v node s) (v = []) name (in_tensors (nodes s v)) 0 0 = Inr (ts, dm_tile, dm_trans)"
    "st2 = upd_node v (\<lambda>ns. ns\<lparr>in_tensors := ts\<rparr>) s"
    using s(1) by (auto simp: add_inputs_def and_then_eq_Inr)
  obtain os where o: "output_loop (node_range v node st2) (v = []) (out_tensors (nodes st2 v)) 0 = Inr (os, dm_out)"
    "st3 = upd_node v (\<lambda>ns. ns\<lparr>out_tensors := os\<rparr>) st2"
    using s(2) by (auto simp: add_outputs_def and_then_eq_Inr)
  have same: "node_range v node st2 = node_range v node s"
    unfolding i(2) by (rule ext) (simp add: node_range_def upd_node_def)
  have "(t, tm) \<in> set ts \<or> (t, tm) \<in> set os" using assms(2) unfolding s(3) o(2) i(2) by (auto simp: upd_node_def)
  then show ?thesis using input_loop_ranges [OF i(1)] output_loop_ranges [OF o(1)] same by auto
qed

subsection \<open>What the ranges cover\<close>

text \<open>The loops below the first level of a chain that has one of the dimension.\<close>

fun inner_loops :: "string \<Rightarrow> eva_attrs list \<Rightarrow> loop_desc list" where
  "inner_loops n [] = []"
| "inner_loops n (a # as) = (if n \<in> dim_name ` set (loopnests a) then loops_of as else inner_loops n as)"

text \<open>The search gives the extents, and the offset in the last iteration is that of the loops further in.\<close>

lemma entered_range:
  assumes "good_chain (a # as)" "good_loops (loops_of (a # as))" "n \<in> dim_name ` set (loops_of (a # as))"
    and "current_dim_range (nodes st v) = (\<lambda>_. [])" "v = [] \<longrightarrow> (\<forall>n. vec_last_dim st n = [])"
  defines "node \<equiv> chain (with_offsets (a # as))"
  shows "node_range v node (first_iteration v (attrs node) (loopnests a) st) n =
    Inr (dim_skew st n, dim_skew st n +
      (if n \<in> dim_name ` set (loopnests a) \<and> \<not> isLastLoop (vec_last_dim st) n
       then dim_product n (loops_of (a # as)) - dim_product n (loops_of as) + extent n True (loops_of as)
       else extent n True (loops_of (a # as))))"
proof -
  have dist: "distinct (map dim_name (loopnests a))" using assms(1) by simp
  note fi = first_iteration_simps [OF dist, where st = st and v = v and a = "attrs node"]
  show ?thesis
  proof (cases "n \<in> dim_name ` set (loopnests a)")
    case True
    then obtain d where d: "d \<in> set (loopnests a)" "dim_name d = n" by auto
    have e: "(if v = [] then residual_end d else end_of_loop (vec_last_dim st) d) = end_of_loop (vec_last_dim st) d"
      using assms(5) by (simp add: end_of_loop_def isLastLoop_def)
    have off: "offset_of (dim_offset (attrs node)) n = dim_product n (loops_of as)"
      "offset_of (last_dim_offset (attrs node)) n = extent n True (loops_of as)"
      using True by (simp_all add: node_def chain_Cons offset_of_def offset_map_def del: chain.simps)
    have r: "node_range v node (first_iteration v (attrs node) (loopnests a) st) n =
        Inr (dim_skew st n, (end_of_loop (vec_last_dim st) d - 1) * dim_product n (loops_of as) + extent n True (loops_of as) + dim_skew st n)"
      using fi(1) fi(2) [OF d(1)] fi(3) [OF d(1)]
      unfolding e d(2) off by (simp add: node_range_def tensor_range_def)
    have p: "dim_product n (loops_of (a # as)) = loop_end d * dim_product n (loops_of as)"
      "extent n True (loops_of (a # as)) = (residual_end d - 1) * dim_product n (loops_of as) + extent n True (loops_of as)"
      using single_loop [OF dist d(1)] d(2) by (simp_all add: dim_product_append extent_append)
    show ?thesis unfolding r p using True d(2) by (simp add: end_of_loop_def algebra_simps)
  next
    case False
    have "current_dim_range (nodes (first_iteration v (attrs node) (loopnests a) st) v) n = []"
      using fi(4) [OF False] assms(4) by simp
    then show ?thesis
      using bfs_chain [OF assms(1-3)] False fi(1) by (auto simp: node_range_def tensor_range_def node_def algebra_simps)
  qed
qed


subsection \<open>An example\<close>

text \<open>A tile over an operation, below a root whose loop of the same dimension is not in its last iteration.\<close>

definition example_tile :: "node_type \<Rightarrow> string \<Rightarrow> int \<Rightarrow> int \<Rightarrow> eva_attrs" where
  "example_tile k level e r = \<lparr>kind = k, node_name = level, target_level = level, dataflow_mode = Write_back,
     tile_type = Temporal, scope_type = Pipeline, loopnests = [\<lparr>dim_name = ''M'', loop_end = e, residual_end = r\<rparr>],
     dim_offset = (\<lambda>_. None), last_dim_offset = (\<lambda>_. None)\<rparr>"

definition example_chain :: "eva_attrs list" where
  "example_chain = [example_tile Tile ''L1'' 2 2, example_tile Op ''PE'' 4 1]"

definition example_env :: perf_env where
  "example_env = \<lparr>eva_root = chain (with_offsets (example_tile Tile ''DRAM'' 3 3 # example_chain)), leaf_nodes = [[0, 0]],
     intercon_attri_map = (\<lambda>_. Some \<lparr>bandwidth = 2, con_type = HD, fanin = 1, fanout = 1\<rparr>),
     compute_cycles = (\<lambda>_. Some 7)\<rparr>"

definition example_start :: perf_state where
  "example_start = (perf_start (\<lambda>_. [(''A'', \<lparr>tensor_dims = [''M''], dim_ranges = []\<rparr>)]) (\<lambda>_. []))\<lparr>vec_last_dim := (\<lambda>_. [])(''M'' := [False])\<rparr>"

definition example_visit :: "perf_state tileexp" where
  "example_visit = visit example_env [0] (chain (with_offsets example_chain)) example_start"

lemma for_loop_numeral [simp]: "for_loop (numeral k) i f st = and_then (f i st) (for_loop (pred_numeral k) (i + 1) f)"
  by (simp add: numeral_eq_Suc)

lemma example_simps [simp]:
  "kind (example_tile k l e r) = k" "target_level (example_tile k l e r) = l" "dataflow_mode (example_tile k l e r) = Write_back"
  "tile_type (example_tile k l e r) = Temporal" "loopnests (example_tile k l e r) = [\<lparr>dim_name = ''M'', loop_end = e, residual_end = r\<rparr>]"
  "dim_offset (example_tile k l e r) = (\<lambda>_. None)" "last_dim_offset (example_tile k l e r) = (\<lambda>_. None)"
  by (simp_all add: example_tile_def)

lemma example_attrs:
  "\<exists>r a b. with_offsets example_chain = [a, b] \<and> with_offsets (example_tile Tile ''DRAM'' 3 3 # example_chain) = [r, a, b] \<and>
     kind r = Tile \<and> target_level r = ''DRAM'' \<and> kind b = Op \<and> target_level b = ''PE'' \<and>
     loopnests b = [\<lparr>dim_name = ''M'', loop_end = 4, residual_end = 1\<rparr>] \<and>
     kind a = Tile \<and> target_level a = ''L1'' \<and> dataflow_mode a = Write_back \<and> tile_type a = Temporal \<and>
     loopnests a = [\<lparr>dim_name = ''M'', loop_end = 2, residual_end = 2\<rparr>] \<and> dim_offset a ''M'' = Some 4 \<and> last_dim_offset a ''M'' = Some 1"
  by (simp add: example_chain_def offset_map_def)

lemma example_visit_returns:
  "\<exists>st. example_visit = Inr st \<and> in_tensors (nodes st [0]) = [(''A'', \<lparr>tensor_dims = [''M''], dim_ranges = [(''M'', 0, 5)]\<rparr>)]"
proof -
  obtain r a b where a: "with_offsets example_chain = [a, b]" "with_offsets (example_tile Tile ''DRAM'' 3 3 # example_chain) = [r, a, b]"
    "kind r = Tile" "target_level r = ''DRAM''" "kind b = Op" "target_level b = ''PE''"
    "loopnests b = [\<lparr>dim_name = ''M'', loop_end = 4, residual_end = 1\<rparr>]"
    "kind a = Tile" "target_level a = ''L1''" "dataflow_mode a = Write_back" "tile_type a = Temporal"
    "loopnests a = [\<lparr>dim_name = ''M'', loop_end = 2, residual_end = 2\<rparr>]" "dim_offset a ''M'' = Some 4" "last_dim_offset a ''M'' = Some 1"
    using example_attrs by blast
  note walk = example_visit_def example_start_def perf_start_def example_env_def attrs_at_def children_at_def node_at_def
    isFirstLoop_def end_of_loop_def isLastLoop_def upd_node_def push_iteration_def pop_iteration_def offset_of_def
    push_latency_def clear_latencies_def end_children_def end_tile_def visitOp_def
  note entry = enter_tile_def add_inputs_def add_outputs_def trans_tensor_name_def node_range_def tensor_range_def ranged_tensor_def
    calTensorMapDM_def getInputLatency_def getOutputLatency_def findSource_def findTarget_def transfer_cycles_def signed_int_def
  note cost = getInterConNode_def tile_latency_def computeLatency_def computeScopeLatency_def no_latency_def narrow_int_def
    transfer_latency_def add_latency_def
  show ?thesis by (simp del: with_offsets.simps add: a walk entry cost Let_def)
qed

lemma example_good:
  "good_chain example_chain" "\<forall>d \<in> set (loops_of example_chain). 1 \<le> residual_end d \<and> residual_end d \<le> loop_end d"
  "tiles_distinct (chain (with_offsets example_chain))"
  by (simp_all add: example_chain_def)

lemma example_start_simps:
  "stacks (nodes example_start v) = (\<lambda>_. [], \<lambda>_. [], [], [])" "ori_start (nodes example_start v) = []"
  "vec_last_dim example_start = (\<lambda>_. [])(''M'' := [False])" "dim_skew example_start = (\<lambda>_. 0)"
  by (simp_all add: example_start_def perf_start_def stacks_def)

theorem walk_restores_witness:
  "\<exists>st. example_visit = Inr st \<and> vec_last_dim st ''M'' = [False] \<and> current_start (nodes st [0]) = []"
proof -
  obtain st where st: "example_visit = Inr st" using example_visit_returns by blast
  show ?thesis
    using walk_restores [OF st [unfolded example_visit_def] example_good(3)] st
    by (intro exI [of _ st]) (simp add: example_start_def perf_start_def)
qed

theorem tile_iterations_witness: "\<exists>st. example_visit = Inr st \<and> length (latency_vec (nodes st [0])) = 2"
proof -
  obtain st where st: "example_visit = Inr st" using example_visit_returns by blast
  obtain a cs where a: "chain (with_offsets example_chain) = EvaNode a cs" "kind a = Tile"
    "loopnests a = [\<lparr>dim_name = ''M'', loop_end = 2, residual_end = 2\<rparr>]"
    using example_attrs by fastforce
  show ?thesis
    using tile_iterations [of example_env "[0]" a cs example_start st] st example_good(3)
    by (simp add: example_visit_def a example_start_simps)
qed


end
