(* ===== verification/Tile_Outputs.thy ===== *)
theory Tile_Outputs
  imports Tile_Tensors
begin

text \<open>
  The outputs that the passes of \<open>Tile_Tensors\<close> leave at the operations, transfers and tiles, and the
  mappings for which the passes return. The transfers between two operations get what the operations
  before them write and those after them read.
\<close>

subsection \<open>The tensors of the leaves\<close>

lemma check_children_member:
  "check_children ids bounds inherited cs = Inr () \<Longrightarrow> c \<in> set cs \<Longrightarrow> check_loop_count ids bounds inherited c = Inr ()"
  by (induction cs) (auto simp: and_then_eq_Inr)

lemma checked_below:
  "check_loop_count ids bounds inherited t = Inr () \<Longrightarrow> node_below t is = Some n \<Longrightarrow>
     \<exists>inh. check_loop_count ids bounds inh n = Inr ()"
proof (induction t "is" arbitrary: inherited rule: node_below.induct)
  case (2 t i "is")
  obtain a cs where t: "t = EvaNode a cs" by (cases t)
  have i: "i < length cs" "node_below (cs ! i) is = Some n" using 2(3) t by (auto split: if_splits)
  then have "cs \<noteq> []" by auto
  then obtain inh where "check_children ids bounds inh cs = Inr ()"
    using 2(2) t by (auto split: node_type.splits if_splits simp: and_then_eq_Inr)
  then show ?case using 2(1) [of inh] i t check_children_member nth_mem by fastforce
qed auto

text \<open>In a tree that has passed the check of the loop counts, the operations and transfers are the leaves.\<close>

lemma checked_leaf:
  assumes "loop_count_pass ids bounds root = Inr ()" "node_at root v = Some n"
  shows "kind (attrs n) = Op \<or> kind (attrs n) = Trans \<longleftrightarrow> children n = []"
proof -
  have "check_loop_count ids bounds [] root = Inr ()" using assms(1) by (simp add: loop_count_pass_def split: if_splits)
  then obtain inh where "check_loop_count ids bounds inh n = Inr ()"
    using checked_below assms(2) unfolding node_at_def by blast
  then show ?thesis by (cases n) (auto split: node_type.splits if_splits)
qed

lemma leaf_above_nothing:
  assumes "loop_count_pass ids bounds root = Inr ()" "(v, a) \<in> set (post_order [] root)" "kind a = Op \<or> kind a = Trans"
    and "(u, b) \<in> set (post_order [] root)"
  shows "\<not> strict_suffix v u"
proof
  assume "strict_suffix v u"
  then obtain us where u: "u = us @ v" "us \<noteq> []" by (auto simp: strict_suffix_def suffix_def)
  obtain n m where n: "node_at root v = Some n" "attrs n = a" and m: "node_at root u = Some m"
    using assms(2,4) by (auto simp: nodes_of_root)
  have "children n = []" using checked_leaf [OF assms(1) n(1)] assms(3) n(2) by simp
  then have "node_below n (rev us) = None" using u(2) by (cases "rev us") auto
  then show False using m n(1) u(1) by (simp add: node_at_append)
qed

text \<open>The leaves of the tree, in the order of the code.\<close>

definition tree_leaves :: "eva_node \<Rightarrow> (node_id \<times> eva_attrs) list" where
  "tree_leaves root = filter (\<lambda>(v, a). kind a = Op \<or> kind a = Trans) (post_order [] root)"

lemma leaf_names_tree: "leaf_names (post_order [] root) = map fst (tree_leaves root)"
  by (simp add: leaf_names_def tree_leaves_def)

lemma distinct_leaves: "distinct (map fst (tree_leaves root))"
  using distinct_post_order(1) [of "[]" root] by (simp add: tree_leaves_def distinct_map_filter)

lemma find_index_nth: "distinct xs \<Longrightarrow> k < length xs \<Longrightarrow> find_index (xs ! k) xs = k"
  by (metis find_index_member nth_eq_iff_index_eq nth_find_index nth_mem)

lemma op_leaf_index:
  assumes "(v, a) \<in> set (post_order [] root)" "t \<in> reads pb a \<union> writes pb a"
  obtains k where "k < length (tree_leaves root)" "tree_leaves root ! k = (v, a)"
    "find_index v (map fst (tree_leaves root)) = k"
proof -
  have "kind a = Op" using assms(2) by (cases "kind a = Op") auto
  then have "(v, a) \<in> set (tree_leaves root)" using assms(1) by (simp add: tree_leaves_def)
  then obtain k where k: "k < length (tree_leaves root)" "tree_leaves root ! k = (v, a)" by (metis in_set_conv_nth)
  then have "find_index v (map fst (tree_leaves root)) = k"
    using find_index_nth [OF distinct_leaves, of k root] by simp
  then show ?thesis using k that by blast
qed

lemma leaf_member:
  assumes "i < length (tree_leaves root)"
  shows "(fst (tree_leaves root ! i), snd (tree_leaves root ! i)) \<in> set (post_order [] root)"
    and "kind (snd (tree_leaves root ! i)) = Op \<or> kind (snd (tree_leaves root ! i)) = Trans"
  using nth_mem [OF assms] by (auto simp: tree_leaves_def split: prod.splits)

lemma leaf_name_eq:
  "i < length (tree_leaves root) \<Longrightarrow> j < length (tree_leaves root) \<Longrightarrow> fst (tree_leaves root ! i) = fst (tree_leaves root ! j) \<longleftrightarrow> i = j"
  using distinct_leaves [of root] by (metis length_map nth_eq_iff_index_eq nth_map)

text \<open>The nodes to which a tensor is attached as an output when an operation reads it, when another writes it.\<close>

lemma producer_path:
  assumes "first_pass pb (post_order [] root) st0" "paths_ok root st0 c t" "kind (attrs root) = Tile"
    and "(c, b) \<in> set (post_order [] root)" "t \<in> reads pb b"
  obtains (nowhere) "\<And>i. i < length (tree_leaves root) \<Longrightarrow> t \<notin> writes pb (snd (tree_leaves root ! i))"
      "producer_nodes root st0 c t = {}"
    | (path) kp kc x where "kp < length (tree_leaves root)" "kc < length (tree_leaves root)" "fst (tree_leaves root ! kc) = c"
      "\<And>i. i < length (tree_leaves root) \<Longrightarrow> t \<in> writes pb (snd (tree_leaves root ! i)) \<longleftrightarrow> i = kp"
      "common_node root (fst (tree_leaves root ! kp)) c x"
      "kc = Suc kp \<Longrightarrow> producer_nodes root st0 c t = set (take (find_index x (parent_chain (fst (tree_leaves root ! kp))) - 1)
         (parent_chain (fst (tree_leaves root ! kp))))"
      "kc \<noteq> Suc kp \<Longrightarrow> producer_nodes root st0 c t = (\<lambda>i. fst (tree_leaves root ! i)) ` {kp<..<kc}"
proof (cases "producer_map st0 t")
  case None
  then have "t \<notin> writes pb (snd (tree_leaves root ! i))" if "i < length (tree_leaves root)" for i
    using first_pass_producer(1) [OF assms(1), of t] leaf_member(1) [OF that] by blast
  then show ?thesis using None nowhere by (simp add: producer_nodes_def)
next
  case (Some z)
  let ?ls = "tree_leaves root"
  obtain kc where kc: "kc < length ?ls" "?ls ! kc = (c, b)" "find_index c (map fst ?ls) = kc"
    using op_leaf_index [OF assms(4)] assms(5) by blast
  obtain tm p where z: "z = (tm, p)" by (cases z)
  note prod = Some [unfolded z]
  obtain a where a: "(p, a) \<in> set (post_order [] root)" "t \<in> writes pb a"
    using first_pass_producer(3) [OF assms(1) prod] by blast
  obtain kp where kp: "kp < length ?ls" "?ls ! kp = (p, a)" "find_index p (map fst ?ls) = kp"
    using op_leaf_index [OF a(1)] a(2) by blast
  have pa: "fst (?ls ! kp) = p" "snd (?ls ! kp) = a" using kp(2) by simp_all
  have only: "t \<in> writes pb (snd (?ls ! i)) \<longleftrightarrow> i = kp" if i: "i < length ?ls" for i
  proof
    assume "t \<in> writes pb (snd (?ls ! i))"
    then have "fst (?ls ! i) = p" using first_pass_producer(2) [OF assms(1) leaf_member(1) [OF i], of t] prod by simp
    then show "i = kp" using leaf_name_eq [OF i kp(1)] pa(1) by simp
  qed (use pa(2) a(2) in simp)
  have L: "leaf_vec st0 = map fst ?ls" using first_passD(1) [OF assms(1)] leaf_names_tree by simp
  obtain pp cp where r: "findCommonNode root (leaf_vec st0) p c = Inr (pp, cp)"
    using assms(2) prod by (auto simp: paths_ok_def)
  have ne: "p \<noteq> []" "c \<noteq> []"
    using op_not_root [OF a(1)] op_not_root [OF assms(4)] a(2) assms(3,5) by blast+
  obtain x where x: "common_node root p c x" "pp = (if kc = Suc kp then take (find_index x (parent_chain p) - 1) (parent_chain p)
      else map (\<lambda>k. map fst ?ls ! (kp + k)) [1..<kc - kp])"
    using findCommonNode_ok [OF r root_no_scope [OF assms(3)] ne] unfolding L kc(3) kp(3) by metis
  have pp: "producer_nodes root st0 c t = set pp" using prod r by (simp add: producer_nodes_def)
  have "set (map (\<lambda>k. map fst ?ls ! (kp + k)) [1..<kc - kp]) = (\<lambda>i. map fst ?ls ! i) ` (+) kp ` {1..<kc - kp}"
    by (simp only: image_image set_map set_upt)
  also have "(+) kp ` {1..<kc - kp} = {kp<..<kc}"
    by (cases "kp < kc") (auto simp: image_add_atLeastLessThan)
  also have "(\<lambda>i. map fst ?ls ! i) ` {kp<..<kc} = (\<lambda>i. fst (?ls ! i)) ` {kp<..<kc}"
    using kc(1) by (intro image_cong) simp_all
  finally have between: "set (map (\<lambda>k. map fst ?ls ! (kp + k)) [1..<kc - kp]) = (\<lambda>i. fst (?ls ! i)) ` {kp<..<kc}" .
  show ?thesis
  proof (rule path [OF kp(1) kc(1) _ only], unfold pa(1))
    show "fst (?ls ! kc) = c" using kc(2) by simp
    show "common_node root p c x" by (rule x(1))
    show "producer_nodes root st0 c t = set (take (find_index x (parent_chain p) - 1) (parent_chain p))" if "kc = Suc kp"
      using that pp x(2) by simp
    show "producer_nodes root st0 c t = (\<lambda>i. fst (?ls ! i)) ` {kp<..<kc}" if "kc \<noteq> Suc kp"
      using that between unfolding pp x(2) by simp
  qed
qed

text \<open>Leaves on the way between two others, and tiles above the first one.\<close>

lemma producer_leaf_iff:
  assumes "first_pass pb (post_order [] root) st0" "paths_ok root st0 c t" "loop_count_pass ids bounds root = Inr ()"
    and "(c, b) \<in> set (post_order [] root)" "t \<in> reads pb b" "k < length (tree_leaves root)"
  shows "fst (tree_leaves root ! k) \<in> producer_nodes root st0 c t \<longleftrightarrow>
    (\<exists>i < k. \<exists>j > k. j < length (tree_leaves root) \<and> fst (tree_leaves root ! j) = c \<and> t \<in> writes pb (snd (tree_leaves root ! i)))"
proof -
  let ?ls = "tree_leaves root"
  have tile: "kind (attrs root) = Tile" using assms(3) by (simp add: loop_count_pass_def split: if_splits)
  from assms(1,2) tile assms(4,5) show ?thesis
  proof (cases rule: producer_path)
    case nowhere
    then show ?thesis using assms(6) by auto
  next
    case (path kp kc x)
    have "fst (?ls ! k) \<in> producer_nodes root st0 c t \<longleftrightarrow> kp < k \<and> k < kc"
    proof (cases "kc = Suc kp")
      case True
      have "fst (?ls ! k) \<notin> set (parent_chain (fst (?ls ! kp)))"
        using leaf_above_nothing [OF assms(3) leaf_member [OF assms(6)] leaf_member(1) [OF path(1)]] by (simp add: parent_chain_suffixes)
      then show ?thesis unfolding path(6) [OF True] using True by (auto dest: in_set_takeD)
    next
      case False
      have "fst (?ls ! k) = fst (?ls ! i) \<longleftrightarrow> k = i" if "kp < i \<and> i < kc" for i
        using leaf_name_eq [OF assms(6), of i] path(2) that by simp
      then show ?thesis unfolding path(7) [OF False] image_iff Bex_def greaterThanLessThan_iff by blast
    qed
    also have "\<dots> \<longleftrightarrow> (\<exists>i < k. \<exists>j > k. j < length ?ls \<and> fst (?ls ! j) = c \<and> t \<in> writes pb (snd (?ls ! i)))"
    proof
      assume "\<exists>i < k. \<exists>j > k. j < length ?ls \<and> fst (?ls ! j) = c \<and> t \<in> writes pb (snd (?ls ! i))"
      then obtain i j where ij: "i < k" "k < j" "j < length ?ls" "fst (?ls ! j) = c" "t \<in> writes pb (snd (?ls ! i))" by blast
      then have "i = kp" "j = kc" using path(4) [of i] leaf_name_eq [of j root kc] path(2,3) assms(6) by auto
      then show "kp < k \<and> k < kc" using ij by simp
    next
      assume "kp < k \<and> k < kc"
      then show "\<exists>i < k. \<exists>j > k. j < length ?ls \<and> fst (?ls ! j) = c \<and> t \<in> writes pb (snd (?ls ! i))"
        using path(1-4) by blast
    qed
    finally show ?thesis .
  qed
qed

lemma filter_split: "filter P xs = us @ x # zs \<Longrightarrow> \<exists>vs ws. xs = vs @ x # ws \<and> filter P ws = zs"
proof (induction xs arbitrary: us)
  case (Cons y xs)
  show ?case
  proof (cases "P y \<and> us = []")
    case True
    then show ?thesis using Cons.prems by (intro exI [of _ "[]"] exI [of _ xs]) simp
  next
    case False
    then have "\<exists>us1. filter P xs = us1 @ x # zs" using Cons.prems by (cases us) (auto split: if_splits)
    then obtain vs ws where "xs = vs @ x # ws" "filter P ws = zs" using Cons.IH by blast
    then show ?thesis by (intro exI [of _ "y # vs"] exI [of _ ws]) simp
  qed
qed simp

text \<open>The last operation is the one after which no other comes; its output reaches the leaves from there on.\<close>

lemma last_op_split:
  "(\<exists>vs v a ws. xs = vs @ (v, a) # ws \<and> int (op_count xs) = int (op_count (vs @ [(v, a)])) \<and> t \<in> writes pb a \<and> P v) \<longleftrightarrow>
   (\<exists>i < length ls. t \<in> writes pb (snd (ls ! i)) \<and> P (fst (ls ! i)) \<and> (\<forall>j. i < j \<and> j < length ls \<longrightarrow> kind (snd (ls ! j)) \<noteq> Op))"
  if "ls = filter (\<lambda>(v, a). kind a = Op \<or> kind a = Trans) xs"
proof
  assume "\<exists>vs v a ws. xs = vs @ (v, a) # ws \<and> int (op_count xs) = int (op_count (vs @ [(v, a)])) \<and> t \<in> writes pb a \<and> P v"
  then obtain vs v a ws where s: "xs = vs @ (v, a) # ws" "op_count ws = 0" "t \<in> writes pb a" "P v" by auto
  let ?f = "filter (\<lambda>(v, a). kind a = Op \<or> kind a = Trans)"
  have "kind a = Op" using s(3) by (cases "kind a = Op") auto
  then have ls: "ls = ?f vs @ (v, a) # ?f ws" using that s(1) by simp
  have none: "kind b \<noteq> Op" if "(w, b) \<in> set ws" for w b
    using s(2) that by (auto simp: op_count_def filter_empty_conv)
  have "kind (snd (ls ! j)) \<noteq> Op" if "length (?f vs) < j" "j < length ls" for j
  proof -
    have "ls ! j = ?f ws ! (j - Suc (length (?f vs)))" "j - Suc (length (?f vs)) < length (?f ws)"
      using that ls by (auto simp: nth_append nth_Cons' not_less)
    then have "ls ! j \<in> set ws" using nth_mem [of "j - Suc (length (?f vs))" "?f ws"] by simp
    then show ?thesis using none [of "fst (ls ! j)"] by simp
  qed
  then show "\<exists>i < length ls. t \<in> writes pb (snd (ls ! i)) \<and> P (fst (ls ! i)) \<and> (\<forall>j. i < j \<and> j < length ls \<longrightarrow> kind (snd (ls ! j)) \<noteq> Op)"
    using ls s(3,4) by (intro exI [of _ "length (?f vs)"]) (simp add: nth_append)
next
  assume "\<exists>i < length ls. t \<in> writes pb (snd (ls ! i)) \<and> P (fst (ls ! i)) \<and> (\<forall>j. i < j \<and> j < length ls \<longrightarrow> kind (snd (ls ! j)) \<noteq> Op)"
  then obtain i where i: "i < length ls" "t \<in> writes pb (snd (ls ! i))" "P (fst (ls ! i))"
    "\<And>j. i < j \<Longrightarrow> j < length ls \<Longrightarrow> kind (snd (ls ! j)) \<noteq> Op" by blast
  obtain v a where va: "ls ! i = (v, a)" by (cases "ls ! i")
  have "filter (\<lambda>(v, a). kind a = Op \<or> kind a = Trans) xs = take i ls @ (v, a) # drop (Suc i) ls"
    unfolding that [symmetric] using id_take_nth_drop [OF i(1)] va by (simp only:)
  from filter_split [OF this] obtain vs ws where s: "xs = vs @ (v, a) # ws"
    "filter (\<lambda>(v, a). kind a = Op \<or> kind a = Trans) ws = drop (Suc i) ls" by blast
  have "kind b \<noteq> Op" if wb: "(w, b) \<in> set ws" for w b
  proof
    assume "kind b = Op"
    then have "(w, b) \<in> set (drop (Suc i) ls)" using wb unfolding s(2) [symmetric] by simp
    then obtain j where "j < length (drop (Suc i) ls)" "drop (Suc i) ls ! j = (w, b)" by (metis in_set_conv_nth)
    moreover have "Suc i + j < length ls" using calculation(1) by simp
    ultimately show False using i(4) [of "Suc i + j"] \<open>kind b = Op\<close> by simp
  qed
  then have "op_count ws = 0" by (auto simp: op_count_def filter_empty_conv)
  then show "\<exists>vs v a ws. xs = vs @ (v, a) # ws \<and> int (op_count xs) = int (op_count (vs @ [(v, a)])) \<and> t \<in> writes pb a \<and> P v"
    using s(1) i(2,3) va by (intro exI [of _ vs] exI [of _ v] exI [of _ a] exI [of _ ws]) simp
qed

lemma writes_of_leaves:
  "(\<exists>a. (v, a) \<in> set (post_order [] root) \<and> t \<in> writes pb a) \<longleftrightarrow> t \<in> writes pb (snd (tree_leaves root ! k))"
  "(\<exists>a. (v, a) \<in> set (post_order [] root) \<and> t \<in> reads pb a) \<longleftrightarrow> t \<in> reads pb (snd (tree_leaves root ! k))"
  if "k < length (tree_leaves root)" "v = fst (tree_leaves root ! k)"
proof -
  have "(v, snd (tree_leaves root ! k)) \<in> set (post_order [] root)"
    using nth_mem [OF that(1)] that(2) by (auto simp: tree_leaves_def split: prod.splits)
  then show "(\<exists>a. (v, a) \<in> set (post_order [] root) \<and> t \<in> writes pb a) \<longleftrightarrow> t \<in> writes pb (snd (tree_leaves root ! k))"
    "(\<exists>a. (v, a) \<in> set (post_order [] root) \<and> t \<in> reads pb a) \<longleftrightarrow> t \<in> reads pb (snd (tree_leaves root ! k))"
    using post_order_unique by metis+
qed

lemma last_nodes_leaf:
  assumes "leaf_vec st0 = map fst (tree_leaves root)" "loop_count_pass ids bounds root = Inr ()"
    and "i < length (tree_leaves root)" "k < length (tree_leaves root)"
  shows "fst (tree_leaves root ! k) \<in> last_nodes st0 (fst (tree_leaves root ! i)) \<longleftrightarrow> i \<le> k"
proof -
  let ?ls = "tree_leaves root"
  have member: "(fst (?ls ! j), snd (?ls ! j)) \<in> set (post_order [] root)" "kind (snd (?ls ! j)) = Op \<or> kind (snd (?ls ! j)) = Trans"
    if "j < length ?ls" for j
    using nth_mem [OF that] by (auto simp: tree_leaves_def split: prod.splits)
  have "last (leaf_vec st0) = fst (?ls ! (length ?ls - 1))"
    using assms(1,3) by (cases "?ls" rule: rev_cases) auto
  then have "fst (?ls ! k) \<notin> set (parent_chain (last (leaf_vec st0)))"
    using leaf_above_nothing [OF assms(2) member [OF assms(4)] member(1) [of "length ?ls - 1"]] assms(4)
    by (auto simp: parent_chain_suffixes)
  moreover have "fst (?ls ! k) \<in> set (drop i (map fst ?ls)) \<longleftrightarrow> i \<le> k"
  proof
    assume "fst (?ls ! k) \<in> set (drop i (map fst ?ls))"
    then obtain j where j: "j < length (map fst ?ls) - i" "map fst ?ls ! (i + j) = map fst ?ls ! k"
      using assms(4) by (auto simp: in_set_conv_nth)
    then have "i + j = k" using nth_eq_iff_index_eq [OF distinct_leaves [of root], of "i + j" k] assms(4) by simp
    then show "i \<le> k" by simp
  next
    assume "i \<le> k"
    then have "drop i (map fst ?ls) ! (k - i) = fst (?ls ! k)" "k - i < length (drop i (map fst ?ls))" using assms(4) by simp_all
    then show "fst (?ls ! k) \<in> set (drop i (map fst ?ls))" by (metis nth_mem)
  qed
  moreover have "find_index (fst (?ls ! i)) (map fst ?ls) = i"
    using find_index_nth [OF distinct_leaves, of i root] assms(3) by simp
  ultimately show ?thesis by (simp add: last_nodes_def assms(1))
qed

text \<open>An operation has its inputs and its output. Besides, a leaf has as outputs the tensors that a leaf before it
  writes and one after it reads, and the output of the last operation when that is not after it.\<close>

theorem leaf_tensors:
  assumes "init_tensors pb root = Inr st" "loop_count_pass ids bounds root = Inr ()"
    and "ls = tree_leaves root" "k < length ls"
  shows "dom (output_tensors st (fst (ls ! k))) = writes pb (snd (ls ! k)) \<union>
      {t. \<exists>i < k. \<exists>j > k. j < length ls \<and> t \<in> writes pb (snd (ls ! i)) \<and> t \<in> reads pb (snd (ls ! j))} \<union>
      {t. \<exists>i \<le> k. t \<in> writes pb (snd (ls ! i)) \<and> (\<forall>j. i < j \<and> j < length ls \<longrightarrow> kind (snd (ls ! j)) \<noteq> Op)}"
proof -
  let ?xs = "post_order [] root" and ?u = "fst (ls ! k)"
  obtain st0 where p: "first_pass pb ?xs st0" "second_pass pb root st0 ?xs st"
    using init_tensors_passes [OF assms(1)] .
  note second = second_passD [OF p(2)] and k = assms(4) [unfolded assms(3)]
  have L: "leaf_vec st0 = map fst ls" using first_passD(1) [OF p(1)] assms(3) leaf_names_tree by simp
  have own: "dom (output_tensors st0 ?u) = writes pb (snd (ls ! k))"
    unfolding first_passD(6) [OF p(1)] using writes_of_leaves(1) [OF k] assms(3) by blast
  have mid: "(\<exists>(c, b) \<in> set ?xs. t \<in> reads pb b \<and> ?u \<in> producer_nodes root st0 c t) \<longleftrightarrow>
      (\<exists>i < k. \<exists>j > k. j < length ls \<and> t \<in> writes pb (snd (ls ! i)) \<and> t \<in> reads pb (snd (ls ! j)))" for t
  proof
    assume "\<exists>(c, b) \<in> set ?xs. t \<in> reads pb b \<and> ?u \<in> producer_nodes root st0 c t"
    then obtain c b where c: "(c, b) \<in> set ?xs" "t \<in> reads pb b" "?u \<in> producer_nodes root st0 c t" by blast
    then have ok: "paths_ok root st0 c t" using second(6) by blast
    obtain i j where ij: "i < k" "j > k" "j < length ls" "fst (ls ! j) = c" "t \<in> writes pb (snd (ls ! i))"
      using producer_leaf_iff [OF p(1) ok assms(2) c(1,2) k] c(3) unfolding assms(3) by blast
    then have "t \<in> reads pb (snd (ls ! j))" using writes_of_leaves(2) [of j root c t pb] c(1,2) assms(3) by blast
    then show "\<exists>i < k. \<exists>j > k. j < length ls \<and> t \<in> writes pb (snd (ls ! i)) \<and> t \<in> reads pb (snd (ls ! j))" using ij by blast
  next
    assume "\<exists>i < k. \<exists>j > k. j < length ls \<and> t \<in> writes pb (snd (ls ! i)) \<and> t \<in> reads pb (snd (ls ! j))"
    then obtain i j where ij: "i < k" "j > k" "j < length ls" "t \<in> writes pb (snd (ls ! i))" "t \<in> reads pb (snd (ls ! j))" by blast
    then obtain b where b: "(fst (ls ! j), b) \<in> set ?xs" "t \<in> reads pb b"
      using writes_of_leaves(2) [of j root "fst (ls ! j)" t pb] assms(3) by blast
    have "paths_ok root st0 (fst (ls ! j)) t" using second(6) b by blast
    then have "?u \<in> producer_nodes root st0 (fst (ls ! j)) t"
      using producer_leaf_iff [OF p(1) _ assms(2) b k] ij unfolding assms(3) by blast
    then show "\<exists>(c, b) \<in> set ?xs. t \<in> reads pb b \<and> ?u \<in> producer_nodes root st0 c t" using b by blast
  qed
  have final: "(\<exists>vs v a ws. ?xs = vs @ (v, a) # ws \<and> op_num st0 = int (op_count (vs @ [(v, a)])) \<and> t \<in> writes pb a \<and> ?u \<in> last_nodes st0 v) \<longleftrightarrow>
      (\<exists>i \<le> k. t \<in> writes pb (snd (ls ! i)) \<and> (\<forall>j. i < j \<and> j < length ls \<longrightarrow> kind (snd (ls ! j)) \<noteq> Op))" for t
  proof -
    have "?u \<in> last_nodes st0 (fst (ls ! i)) \<longleftrightarrow> i \<le> k" if "i < length ls" for i
      using last_nodes_leaf [OF L [unfolded assms(3)] assms(2) _ k] that unfolding assms(3) by blast
    moreover have "i \<le> k \<Longrightarrow> i < length ls" for i using assms(4) by simp
    ultimately show ?thesis
      unfolding first_passD(2) [OF p(1)] last_op_split [OF assms(3) [unfolded tree_leaves_def], of t pb "\<lambda>v. ?u \<in> last_nodes st0 v"]
      by blast
  qed
  show ?thesis unfolding second(5) own mid final by simp
qed

subsection \<open>The outputs of a tile\<close>

lemma take_parent_chain_but_one:
  "strict_suffix x p \<Longrightarrow> set (take (find_index x (parent_chain p) - 1) (parent_chain p)) =
     {u. u \<noteq> [] \<and> strict_suffix x (tl u) \<and> strict_suffix u p}"
proof (induction p)
  case (Cons i v)
  show ?case
  proof (cases "x = v")
    case True
    have "\<not> (u \<noteq> [] \<and> strict_suffix v (tl u) \<and> (u = v \<or> strict_suffix u v))" for u
      using suffix_length_less [of v "tl u"] suffix_length_less [of u v] by auto
    then show ?thesis using True by (auto simp: strict_suffix_Cons_iff)
  next
    case False
    then have x: "strict_suffix x v" using Cons.prems by (simp add: strict_suffix_Cons_iff)
    obtain w j where v: "v = j # w" using x by (cases v) (auto simp: strict_suffix_def)
    show ?thesis
    proof (cases "x = w")
      case True
      have "\<not> (u \<noteq> [] \<and> strict_suffix w (tl u) \<and> (u = v \<or> strict_suffix u v))" for u
        using suffix_length_less [of w "tl u"] suffix_length_less [of u v] v by auto
      then show ?thesis using True False v by (auto simp: strict_suffix_Cons_iff)
    next
      case ne: False
      then have "strict_suffix x w" using x v by (simp add: strict_suffix_Cons_iff)
      have "set (take (find_index x (parent_chain (i # v)) - 1) (parent_chain (i # v))) =
          insert v (set (take (find_index x (parent_chain v) - 1) (parent_chain v)))"
        using False ne v by simp
      moreover have "{u. u \<noteq> [] \<and> strict_suffix x (tl u) \<and> strict_suffix u (i # v)} =
          insert v {u. u \<noteq> [] \<and> strict_suffix x (tl u) \<and> strict_suffix u v}"
      proof -
        have "v \<noteq> []" "strict_suffix x (tl v)" using v \<open>strict_suffix x w\<close> by simp_all
        then show ?thesis unfolding strict_suffix_Cons_iff [of _ i v] by blast
      qed
      ultimately show ?thesis using Cons.IH [OF x] by simp
    qed
  qed
qed (simp add: strict_suffix_def)

lemma tile_no_leaf:
  assumes "node_at root v = Some n" "kind (attrs n) = Tile" "i < length (tree_leaves root)"
  shows "fst (tree_leaves root ! i) \<noteq> v"
proof
  assume v: "fst (tree_leaves root ! i) = v"
  have "attrs n = snd (tree_leaves root ! i)"
    using leaf_member(1) [OF assms(3)] assms(1) unfolding v nodes_of_root by simp
  then show False using leaf_member(2) [OF assms(3)] assms(2) by simp
qed

lemma above_both:
  assumes "common_node root p c x" "\<not> is_scope root v" "strict_suffix v p"
  shows "v \<noteq> [] \<and> strict_suffix x (tl v) \<longleftrightarrow> \<not> strict_suffix v c \<and> (is_scope root (tl v) \<or> \<not> strict_suffix (tl v) c)"
proof
  assume v: "v \<noteq> [] \<and> strict_suffix x (tl v)"
  then have t: "strict_suffix (tl v) v" "strict_suffix x v"
    using strict_suffix_irrefl_trans(2) [of x "tl v" v] by simp_all
  then have "strict_suffix (tl v) p" using assms(3) strict_suffix_irrefl_trans(2) by blast
  then show "\<not> strict_suffix v c \<and> (is_scope root (tl v) \<or> \<not> strict_suffix (tl v) c)"
    using assms v t(2) unfolding common_node_def by blast
next
  assume v: "\<not> strict_suffix v c \<and> (is_scope root (tl v) \<or> \<not> strict_suffix (tl v) c)"
  have "suffix v p" "suffix x p" using assms(1,3) by (auto simp: common_node_def strict_suffix_def)
  then have "suffix v x \<or> suffix x v" by (rule suffix_same_cases)
  moreover have "\<not> suffix v x" using v assms(1) by (auto simp: common_node_def intro: suffix_order.le_less_trans)
  ultimately have x: "strict_suffix x v" by (auto simp: strict_suffix_def)
  then obtain i w where w: "v = i # w" by (cases v) (auto simp: strict_suffix_def)
  have "x \<noteq> w" using v w assms(1) by (auto simp: common_node_def)
  then show "v \<noteq> [] \<and> strict_suffix x (tl v)" using x w by (simp add: strict_suffix_Cons_iff)
qed

lemma producer_tile_iff:
  assumes "first_pass pb (post_order [] root) st0" "paths_ok root st0 c t" "kind (attrs root) = Tile"
    and "(c, b) \<in> set (post_order [] root)" "t \<in> reads pb b"
    and "node_at root v = Some n" "kind (attrs n) = Tile"
  shows "v \<in> producer_nodes root st0 c t \<longleftrightarrow>
    (\<exists>i. Suc i < length (tree_leaves root) \<and> fst (tree_leaves root ! Suc i) = c \<and> t \<in> writes pb (snd (tree_leaves root ! i)) \<and>
       strict_suffix v (fst (tree_leaves root ! i)) \<and> \<not> strict_suffix v c \<and> (is_scope root (tl v) \<or> \<not> strict_suffix (tl v) c))"
proof -
  let ?ls = "tree_leaves root"
  have no_scope: "\<not> is_scope root v" using assms(6,7) by (simp add: is_scope_def)
  from assms(1-5) show ?thesis
  proof (cases rule: producer_path)
    case nowhere
    then show ?thesis by auto
  next
    case (path kp kc x)
    have "v \<in> producer_nodes root st0 c t \<longleftrightarrow> kc = Suc kp \<and> strict_suffix v (fst (?ls ! kp)) \<and> v \<noteq> [] \<and> strict_suffix x (tl v)"
    proof (cases "kc = Suc kp")
      case True
      have "strict_suffix x (fst (?ls ! kp))" using path(5) by (simp add: common_node_def)
      then show ?thesis using True unfolding path(6) [OF True] by (subst take_parent_chain_but_one) auto
    next
      case False
      have "v \<noteq> fst (?ls ! i)" if "i \<in> {kp<..<kc}" for i
        using tile_no_leaf [OF assms(6,7), of i] that path(2) by auto
      then show ?thesis using False unfolding path(7) [OF False] by blast
    qed
    also have "\<dots> \<longleftrightarrow> kc = Suc kp \<and> strict_suffix v (fst (?ls ! kp)) \<and> \<not> strict_suffix v c \<and>
        (is_scope root (tl v) \<or> \<not> strict_suffix (tl v) c)"
      using above_both [OF path(5) no_scope] by blast
    also have "\<dots> \<longleftrightarrow> (\<exists>i. Suc i < length ?ls \<and> fst (?ls ! Suc i) = c \<and> t \<in> writes pb (snd (?ls ! i)) \<and>
       strict_suffix v (fst (?ls ! i)) \<and> \<not> strict_suffix v c \<and> (is_scope root (tl v) \<or> \<not> strict_suffix (tl v) c))" (is "?l \<longleftrightarrow> ?r")
    proof
      assume ?r
      then obtain i where i: "Suc i < length ?ls" "fst (?ls ! Suc i) = c" "t \<in> writes pb (snd (?ls ! i))"
        "strict_suffix v (fst (?ls ! i)) \<and> \<not> strict_suffix v c \<and> (is_scope root (tl v) \<or> \<not> strict_suffix (tl v) c)" by blast
      have "i = kp" "Suc i = kc" using path(4) [of i] leaf_name_eq [of "Suc i" root kc] i(1-3) path(2,3) by auto
      then show ?l using i(4) by simp
    next
      assume ?l
      then show ?r using path(1-4) by (intro exI [of _ kp]) simp
    qed
    finally show ?thesis .
  qed
qed

text \<open>A tile has as an output the tensor that its last leaf writes when the next leaf, outside of the tile, reads it;
  but not when the parent of the tile is a tile that holds that leaf too. The output of the last operation is
  an output of every node above the last leaf.\<close>

theorem tile_outputs:
  assumes "init_tensors pb root = Inr st" "kind (attrs root) = Tile"
    and "node_at root v = Some n" "kind (attrs n) = Tile" "ls = tree_leaves root"
  shows "dom (output_tensors st v) =
      {t. \<exists>i. Suc i < length ls \<and> t \<in> writes pb (snd (ls ! i)) \<and> t \<in> reads pb (snd (ls ! Suc i)) \<and>
         strict_suffix v (fst (ls ! i)) \<and> \<not> strict_suffix v (fst (ls ! Suc i)) \<and>
         (is_scope root (tl v) \<or> \<not> strict_suffix (tl v) (fst (ls ! Suc i)))} \<union>
      {t. strict_suffix v (fst (last ls)) \<and>
         (\<exists>i < length ls. t \<in> writes pb (snd (ls ! i)) \<and> (\<forall>j. i < j \<and> j < length ls \<longrightarrow> kind (snd (ls ! j)) \<noteq> Op))}"
proof -
  let ?xs = "post_order [] root"
  let ?between = "\<lambda>i. strict_suffix v (fst (ls ! i)) \<and> \<not> strict_suffix v (fst (ls ! Suc i)) \<and>
         (is_scope root (tl v) \<or> \<not> strict_suffix (tl v) (fst (ls ! Suc i)))"
  obtain st0 where p: "first_pass pb ?xs st0" "second_pass pb root st0 ?xs st"
    using init_tensors_passes [OF assms(1)] .
  note second = second_passD [OF p(2)]
  have own: "dom (output_tensors st0 v) = {}"
    unfolding first_passD(6) [OF p(1)] using assms(3,4) by (auto simp: nodes_of_root)
  have mid: "(\<exists>(c, b) \<in> set ?xs. t \<in> reads pb b \<and> v \<in> producer_nodes root st0 c t) \<longleftrightarrow>
      (\<exists>i. Suc i < length ls \<and> t \<in> writes pb (snd (ls ! i)) \<and> t \<in> reads pb (snd (ls ! Suc i)) \<and> ?between i)" for t
  proof
    assume "\<exists>(c, b) \<in> set ?xs. t \<in> reads pb b \<and> v \<in> producer_nodes root st0 c t"
    then obtain c b where c: "(c, b) \<in> set ?xs" "t \<in> reads pb b" "v \<in> producer_nodes root st0 c t" by blast
    have "paths_ok root st0 c t" using second(6) c(1,2) by blast
    from producer_tile_iff [OF p(1) this assms(2) c(1,2) assms(3,4)] c(3)
    obtain i where i: "Suc i < length ls" "fst (ls ! Suc i) = c" "t \<in> writes pb (snd (ls ! i))" "?between i"
      unfolding assms(5) by blast
    then have "t \<in> reads pb (snd (ls ! Suc i))" using writes_of_leaves(2) [of "Suc i" root c t pb] c(1,2) assms(5) by blast
    then show "\<exists>i. Suc i < length ls \<and> t \<in> writes pb (snd (ls ! i)) \<and> t \<in> reads pb (snd (ls ! Suc i)) \<and> ?between i"
      using i by blast
  next
    assume "\<exists>i. Suc i < length ls \<and> t \<in> writes pb (snd (ls ! i)) \<and> t \<in> reads pb (snd (ls ! Suc i)) \<and> ?between i"
    then obtain i where i: "Suc i < length ls" "t \<in> writes pb (snd (ls ! i))" "t \<in> reads pb (snd (ls ! Suc i))" "?between i" by blast
    then obtain b where b: "(fst (ls ! Suc i), b) \<in> set ?xs" "t \<in> reads pb b"
      using writes_of_leaves(2) [of "Suc i" root "fst (ls ! Suc i)" t pb] assms(5) by blast
    have "paths_ok root st0 (fst (ls ! Suc i)) t" using second(6) b by blast
    from producer_tile_iff [OF p(1) this assms(2) b assms(3,4)] i
    have "v \<in> producer_nodes root st0 (fst (ls ! Suc i)) t" unfolding assms(5) by blast
    then show "\<exists>(c, b) \<in> set ?xs. t \<in> reads pb b \<and> v \<in> producer_nodes root st0 c t" using b by blast
  qed
  have L: "leaf_vec st0 = map fst ls" using first_passD(1) [OF p(1)] assms(5) leaf_names_tree by simp
  have last: "v \<in> last_nodes st0 (fst (ls ! i)) \<longleftrightarrow> strict_suffix v (fst (last ls))" if "i < length ls" for i
  proof -
    have "ls \<noteq> []" using that by auto
    moreover have "v \<notin> set (map fst ls)"
      using tile_no_leaf [OF assms(3,4)] unfolding assms(5) in_set_conv_nth by fastforce
    ultimately show ?thesis by (auto simp: last_nodes_def L last_map parent_chain_suffixes dest: in_set_dropD)
  qed
  have final: "(\<exists>vs w a ws. ?xs = vs @ (w, a) # ws \<and> op_num st0 = int (op_count (vs @ [(w, a)])) \<and> t \<in> writes pb a \<and> v \<in> last_nodes st0 w) \<longleftrightarrow>
      strict_suffix v (fst (last ls)) \<and>
      (\<exists>i < length ls. t \<in> writes pb (snd (ls ! i)) \<and> (\<forall>j. i < j \<and> j < length ls \<longrightarrow> kind (snd (ls ! j)) \<noteq> Op))" for t
    unfolding first_passD(2) [OF p(1)] last_op_split [OF assms(5) [unfolded tree_leaves_def], of t pb "\<lambda>w. v \<in> last_nodes st0 w"]
    using last by blast
  show ?thesis unfolding second(5) own mid final by simp
qed

subsection \<open>When the passes return\<close>

lemma common_loop_from: "common_loop root us tp i j = (i1, j1, f) \<Longrightarrow> i \<le> i1"
  by (induction us arbitrary: i j) (fastforce simp: Let_def split: if_splits)+

lemma findCommonNode_returns:
  assumes "p \<noteq> []"
  shows "(\<exists>r. findCommonNode root leafs p c = Inr r) \<longleftrightarrow>
    \<not> (find_index c leafs = Suc (find_index p leafs) \<and> \<not> is_scope root (tl p) \<and> strict_suffix (tl p) c)"
proof -
  obtain k w where p: "p = k # w" using assms by (cases p) auto
  obtain i j f where l: "common_loop root (parent_chain p) (parent_chain c) 0 0 = (i, j, f)" by (metis prod_cases3)
  have "i = 0 \<longleftrightarrow> \<not> is_scope root (tl p) \<and> strict_suffix (tl p) c"
  proof (cases "\<not> is_scope root w \<and> w \<in> set (parent_chain c)")
    case True
    then have "find_index w (parent_chain c) < length (parent_chain c)" by (intro iffD1 [OF find_index_member]) blast
    then have "i = 0" using True l p by (simp add: Let_def target_index_eq)
    then show ?thesis using True p by (simp add: parent_chain_suffixes)
  next
    case False
    then obtain j0 where "common_loop root (parent_chain w) (parent_chain c) (Suc 0) j0 = (i, j, f)"
      using l p by (auto simp: Let_def target_index_eq find_index_member split: if_splits)
    then show ?thesis using common_loop_from False p by (fastforce simp: parent_chain_suffixes)
  qed
  moreover have "int (find_index c leafs) - int (find_index p leafs) = 1 \<longleftrightarrow> find_index c leafs = Suc (find_index p leafs)" by auto
  ultimately show ?thesis using l by (auto simp: findCommonNode_def Let_def and_then_eq_Inr)
qed

lemma dim_names_loop_returns:
  "(\<exists>d. dim_names_loop sh ns res = Inr d) \<longleftrightarrow> (\<forall>n \<in> set ns. \<exists>ds. projected_dims sh n = Inr ds)"
proof (induction ns arbitrary: res)
  case (Cons n ns)
  show ?case by (cases "projected_dims sh n") (simp_all add: Cons)
qed simp

text \<open>The problem knows an operation and the dimensions of its tensors.\<close>

definition op_known :: "problem \<Rightarrow> eva_attrs \<Rightarrow> bool" where
  "op_known pb a \<longleftrightarrow> (kind a = Op \<longrightarrow> (\<exists>w. workloads pb (nameSub (node_name a)) = Some w \<and>
     (\<forall>t \<in> set (ins w @ [out w]). \<exists>ds. projected_dims (common_shape pb) t = Inr ds)))"

text \<open>The outputs of the operations among some nodes.\<close>

definition op_outs :: "problem \<Rightarrow> (node_id \<times> eva_attrs) list \<Rightarrow> string list" where
  "op_outs pb xs = concat (map (\<lambda>(v, a). case workloads pb (nameSub (node_name a)) of
     Some w \<Rightarrow> if kind a = Op then [out w] else [] | None \<Rightarrow> []) xs)"

lemma op_outs_simps [simp]:
  "op_outs pb [] = []" "op_outs pb (xs @ ys) = op_outs pb xs @ op_outs pb ys"
  by (simp_all add: op_outs_def)

lemma set_op_outs: "set (op_outs pb xs) = (\<Union>(v, a) \<in> set xs. writes pb a)"
  by (induction xs) (auto simp: op_outs_def writes_def split: option.splits if_splits)

lemma init_op_leaf_returns:
  assumes "first_pass pb xs st"
  shows "(\<exists>st1. init_op_leaf pb v a st = Inr st1) \<longleftrightarrow>
    (kind a = Op \<longrightarrow> op_count xs + 1 < 2 ^ 31) \<and> op_known pb a \<and> set (op_outs pb [(v, a)]) \<inter> set (op_outs pb xs) = {}"
proof (cases "kind a = Op")
  case True
  have n: "(\<exists>k. int32 (op_num st + 1) = Inr k) \<longleftrightarrow> op_count xs + 1 < 2 ^ 31"
    unfolding first_passD(2) [OF assms] by (auto simp: signed_int_def)
  show ?thesis
  proof (cases "workloads pb (nameSub (node_name a))")
    case None
    then show ?thesis using True by (auto simp: init_op_leaf_def getInOutTensor_def op_known_def and_then_eq_Inr)
  next
    case (Some w)
    have "producer_map st (out w) = None \<longleftrightarrow> set (op_outs pb [(v, a)]) \<inter> set (op_outs pb xs) = {}"
      using first_pass_producer(1) [OF assms, of "out w"] Some True unfolding set_op_outs by (auto simp: writes_def)
    moreover have "(\<exists>d. getDimName pb (ins w @ [out w]) = Inr d) \<longleftrightarrow> op_known pb a"
      unfolding getDimName_def dim_names_loop_returns using Some True by (simp add: op_known_def)
    ultimately show ?thesis
      using Some True n by (auto simp: init_op_leaf_def getInOutTensor_def and_then_eq_Inr op_tensor_loop_snoc)
  qed
qed (simp add: init_op_leaf_def op_known_def op_outs_def split: option.splits)

lemma first_pass_returns:
  "(\<exists>st. visit_all (init_op_leaf pb) xs init_start = Inr st) \<longleftrightarrow>
     op_count xs < 2 ^ 31 \<and> (\<forall>(v, a) \<in> set xs. op_known pb a) \<and> distinct (op_outs pb xs)"
proof (induction xs rule: rev_induct)
  case (snoc x xs)
  obtain v a where x: "x = (v, a)" by (cases x)
  have d: "distinct (op_outs pb [(v, a)])" by (auto simp: op_outs_def split: option.splits)
  show ?case
  proof (cases "\<exists>st. visit_all (init_op_leaf pb) xs init_start = Inr st")
    case True
    then obtain st where st: "visit_all (init_op_leaf pb) xs init_start = Inr st" by blast
    have f: "first_pass pb xs st" using first_pass_ok [OF st first_pass_start] by simp
    have "(\<exists>st1. visit_all (init_op_leaf pb) (xs @ [x]) init_start = Inr st1) \<longleftrightarrow> (\<exists>st1. init_op_leaf pb v a st = Inr st1)"
      by (simp add: visit_all_append st x and_then_eq_Inr)
    then show ?thesis using init_op_leaf_returns [OF f, of v a] snoc True d x by auto
  next
    case False
    then have "\<nexists>st. visit_all (init_op_leaf pb) (xs @ [x]) init_start = Inr st" by (auto simp: visit_all_append and_then_eq_Inr)
    then show ?thesis using snoc False by auto
  qed
qed simp

lemma tensor_loop_returns:
  "(\<exists>st1. tensor_loop root d v (ts @ [t]) st = Inr st1) \<longleftrightarrow> (\<forall>x \<in> set ts. paths_ok root st v x)"
proof (induction ts arbitrary: st)
  case (Cons x ts)
  have l: "tensor_loop root d v ((x # ts) @ [t]) st =
      and_then (attach_input root v x (new_tensor d x) st) (tensor_loop root d v (ts @ [t]))" by (cases ts) simp_all
  show ?case
  proof (cases "attach_input root v x (new_tensor d x) st")
    case (Inl e)
    then show ?thesis using l attach_input_ok_iff [of root v x "new_tensor d x" st] by simp
  next
    case (Inr st0)
    have "same_leaves st st0" by (simp add: attach_input_ok [OF Inr] same_leaves_def)
    then show ?thesis
      using l Inr Cons.IH [of st0] attach_input_ok_iff [of root v x "new_tensor d x" st] by (auto simp: same_leaves_nodes)
  qed
qed simp

lemma init_tensor_leaf_returns:
  assumes "second_pass pb root st0 ys st" "op_num st0 = int k" "op_count (ys @ [(v, a)]) \<le> k" "k < 2 ^ 31" "op_known pb a"
  shows "(\<exists>st1. init_tensor_leaf pb root v a st = Inr st1) \<longleftrightarrow> (\<forall>t \<in> reads pb a. paths_ok root st0 v t)"
proof (cases "kind a = Op")
  case True
  obtain w where w: "workloads pb (nameSub (node_name a)) = Some w" "\<forall>t \<in> set (ins w @ [out w]). \<exists>ds. projected_dims (common_shape pb) t = Inr ds"
    using assms(5) True by (auto simp: op_known_def)
  obtain d where d: "getDimName pb (ins w @ [out w]) = Inr d"
    using w(2) dim_names_loop_returns unfolding getDimName_def by metis
  have "op_num st = int k - int (op_count ys)" "op_count ys < k"
    using second_passD(2) [OF assms(1)] assms(2,3) True by simp_all
  then have n: "int32 (op_num st - 1) = Inr (op_num st - 1)" using assms(4) by (simp add: signed_int_def)
  have same: "same_leaves st0 (st\<lparr>op_num := op_num st - 1\<rparr>)"
    using second_passD(1) [OF assms(1)] by (simp add: same_leaves_def)
  show ?thesis
    using tensor_loop_returns [of root d v "ins w" "out w" "st\<lparr>op_num := op_num st - 1\<rparr>"] True w(1) d n
    by (simp add: init_tensor_leaf_def getInOutTensor_def same_leaves_nodes [OF same] reads_def)
qed (simp add: init_tensor_leaf_def)

lemma second_pass_returns:
  assumes "first_pass pb xs st0" "op_count xs < 2 ^ 31"
  shows "op_count ys \<le> op_count xs \<Longrightarrow> \<forall>(v, a) \<in> set ys. op_known pb a \<Longrightarrow>
    (\<exists>st. visit_all (init_tensor_leaf pb root) ys st0 = Inr st) \<longleftrightarrow> (\<forall>(v, a) \<in> set ys. \<forall>t \<in> reads pb a. paths_ok root st0 v t)"
proof (induction ys rule: rev_induct)
  case (snoc y ys)
  obtain v a where y: "y = (v, a)" by (cases y)
  have IH: "(\<exists>st. visit_all (init_tensor_leaf pb root) ys st0 = Inr st) \<longleftrightarrow> (\<forall>(v, a) \<in> set ys. \<forall>t \<in> reads pb a. paths_ok root st0 v t)"
    by (rule snoc.IH) (use snoc.prems in simp_all)
  show ?case
  proof (cases "\<exists>st. visit_all (init_tensor_leaf pb root) ys st0 = Inr st")
    case True
    then obtain st where st: "visit_all (init_tensor_leaf pb root) ys st0 = Inr st" by blast
    have "second_pass pb root st0 [] st0"
      using first_passD(3) [OF assms(1)] by (simp add: second_pass_def same_leaves_def)
    then have "second_pass pb root st0 ys st" using second_pass_ok [OF st] by fastforce
    then have "(\<exists>st1. init_tensor_leaf pb root v a st = Inr st1) \<longleftrightarrow> (\<forall>t \<in> reads pb a. paths_ok root st0 v t)"
      using init_tensor_leaf_returns first_passD(2) [OF assms(1)] snoc.prems assms(2) y by simp
    moreover have "(\<exists>st1. visit_all (init_tensor_leaf pb root) (ys @ [y]) st0 = Inr st1) \<longleftrightarrow> (\<exists>st1. init_tensor_leaf pb root v a st = Inr st1)"
      by (simp add: visit_all_append st y and_then_eq_Inr)
    ultimately show ?thesis using IH True y by simp
  next
    case False
    then have "\<nexists>st. visit_all (init_tensor_leaf pb root) (ys @ [y]) st0 = Inr st" by (auto simp: visit_all_append and_then_eq_Inr)
    then show ?thesis using IH False by auto
  qed
qed simp

lemma paths_ok_iff:
  assumes "first_pass pb (post_order [] root) st0" "kind (attrs root) = Tile" "ls = tree_leaves root"
  shows "(\<forall>(c, b) \<in> set (post_order [] root). \<forall>t \<in> reads pb b. paths_ok root st0 c t) \<longleftrightarrow>
    (\<forall>i. Suc i < length ls \<and> writes pb (snd (ls ! i)) \<inter> reads pb (snd (ls ! Suc i)) \<noteq> {} \<longrightarrow>
       is_scope root (tl (fst (ls ! i))) \<or> \<not> strict_suffix (tl (fst (ls ! i))) (fst (ls ! Suc i)))" (is "?l \<longleftrightarrow> ?r")
proof -
  have L: "leaf_vec st0 = map fst ls" using first_passD(1) [OF assms(1)] assms(3) leaf_names_tree by simp
  have index: "find_index (fst (ls ! i)) (map fst ls) = i" if "i < length ls" for i
    using find_index_nth [OF distinct_leaves, of i root] that assms(3) by simp
  have member: "(fst (ls ! i), snd (ls ! i)) \<in> set (post_order [] root)" if "i < length ls" for i
    using leaf_member(1) that assms(3) by simp
  show ?thesis
  proof
    assume l: ?l
    show ?r
    proof (intro allI impI)
      fix i assume i: "Suc i < length ls \<and> writes pb (snd (ls ! i)) \<inter> reads pb (snd (ls ! Suc i)) \<noteq> {}"
      then obtain t where t: "t \<in> writes pb (snd (ls ! i))" "t \<in> reads pb (snd (ls ! Suc i))" by blast
      have m: "(fst (ls ! i), snd (ls ! i)) \<in> set (post_order [] root)" using member [of i] i by simp
      have ne: "fst (ls ! i) \<noteq> []" using op_not_root [OF m] t(1) assms(2) by blast
      have "paths_ok root st0 (fst (ls ! Suc i)) t" using l member [of "Suc i"] t(2) i by blast
      moreover obtain tm where "producer_map st0 t = Some (tm, fst (ls ! i))"
        using first_pass_producer(2) [OF assms(1) m t(1)] by blast
      ultimately have "\<exists>r. findCommonNode root (map fst ls) (fst (ls ! i)) (fst (ls ! Suc i)) = Inr r"
        unfolding paths_ok_def L by blast
      then show "is_scope root (tl (fst (ls ! i))) \<or> \<not> strict_suffix (tl (fst (ls ! i))) (fst (ls ! Suc i))"
        unfolding findCommonNode_returns [OF ne] using index [of i] index [of "Suc i"] i by simp
    qed
  next
    assume r: ?r
    have "paths_ok root st0 c t" if c: "(c, b) \<in> set (post_order [] root)" "t \<in> reads pb b" for c b t
      unfolding paths_ok_def
    proof (intro allI impI)
      fix tm p assume prod: "producer_map st0 t = Some (tm, p)"
      obtain a where a: "(p, a) \<in> set (post_order [] root)" "t \<in> writes pb a"
        using first_pass_producer(3) [OF assms(1) prod] by blast
      obtain kp where kp: "kp < length ls" "ls ! kp = (p, a)" "find_index p (map fst ls) = kp"
        using op_leaf_index [OF a(1)] a(2) unfolding assms(3) by blast
      obtain kc where kc: "kc < length ls" "ls ! kc = (c, b)" "find_index c (map fst ls) = kc"
        using op_leaf_index [OF c(1)] c(2) unfolding assms(3) by blast
      have ne: "p \<noteq> []" using op_not_root [OF a(1)] a(2) assms(2) by blast
      have "is_scope root (tl p) \<or> \<not> strict_suffix (tl p) c" if "kc = Suc kp"
        using r [rule_format, of kp] kp(2) kc(1,2) a(2) c(2) that by auto
      then show "\<exists>q. findCommonNode root (leaf_vec st0) p c = Inr q"
        unfolding findCommonNode_returns [OF ne] L kp(3) kc(3) by blast
    qed
    then show ?l by blast
  qed
qed

lemma init_tensors_iff:
  assumes "kind (attrs root) = Tile" "op_count (post_order [] root) < 2 ^ 31" "ls = tree_leaves root"
  shows "(\<exists>st. init_tensors pb root = Inr st) \<longleftrightarrow>
    (\<forall>(v, a) \<in> set ls. op_known pb a) \<and> distinct (op_outs pb ls) \<and>
    (\<forall>i. Suc i < length ls \<and> writes pb (snd (ls ! i)) \<inter> reads pb (snd (ls ! Suc i)) \<noteq> {} \<longrightarrow>
       is_scope root (tl (fst (ls ! i))) \<or> \<not> strict_suffix (tl (fst (ls ! i))) (fst (ls ! Suc i)))"
proof -
  let ?xs = "post_order [] root"
  have known: "(\<forall>(v, a) \<in> set ls. op_known pb a) \<longleftrightarrow> (\<forall>(v, a) \<in> set ?xs. op_known pb a)"
    unfolding assms(3) tree_leaves_def by (auto simp: op_known_def)
  have "op_outs pb (filter (\<lambda>(v, a). kind a = Op \<or> kind a = Trans) xs) = op_outs pb xs" for xs
    by (induction xs) (auto simp: op_outs_def split: option.splits if_splits)
  then have outs: "op_outs pb ls = op_outs pb ?xs" by (simp add: assms(3) tree_leaves_def)
  have run: "(\<exists>st. init_tensors pb root = Inr st) \<longleftrightarrow>
      (\<exists>st0. visit_all (init_op_leaf pb) ?xs init_start = Inr st0 \<and> (\<exists>st. visit_all (init_tensor_leaf pb root) ?xs st0 = Inr st))"
    by (auto simp: init_tensors_def and_then_eq_Inr initOpTensor_visits initTensor_visits)
  show ?thesis
  proof (cases "\<exists>st0. visit_all (init_op_leaf pb) ?xs init_start = Inr st0")
    case True
    then obtain st0 where st0: "visit_all (init_op_leaf pb) ?xs init_start = Inr st0" by blast
    have f: "first_pass pb ?xs st0" using first_pass_ok [OF st0 first_pass_start] by simp
    have ok: "(\<forall>(v, a) \<in> set ?xs. op_known pb a) \<and> distinct (op_outs pb ?xs)" using True first_pass_returns by blast
    then have "(\<exists>st. visit_all (init_tensor_leaf pb root) ?xs st0 = Inr st) \<longleftrightarrow>
        (\<forall>(v, a) \<in> set ?xs. \<forall>t \<in> reads pb a. paths_ok root st0 v t)"
      using second_pass_returns [OF f assms(2)] by simp
    then show ?thesis unfolding run known outs using st0 ok paths_ok_iff [OF f assms(1,3)] by simp
  next
    case False
    then have "\<not> ((\<forall>(v, a) \<in> set ?xs. op_known pb a) \<and> distinct (op_outs pb ?xs))" using first_pass_returns assms(2) by blast
    then show ?thesis using False unfolding run known outs by blast
  qed
qed

text \<open>When only scopes have several children, an operation and the next leaf never share the tile above the operation.\<close>

fun scopes_branch :: "eva_node \<Rightarrow> bool" where
  "scopes_branch (EvaNode a cs) \<longleftrightarrow> (1 < length cs \<longrightarrow> kind a = Scope) \<and> list_all scopes_branch cs"

lemma scopes_branch_at:
  assumes "scopes_branch root" "node_at root v = Some n" "1 < length (children n)"
  shows "kind (attrs n) = Scope"
proof -
  have "scopes_branch t \<Longrightarrow> node_below t is = Some m \<Longrightarrow> scopes_branch m" for t "is" m
  proof (induction t "is" rule: node_below.induct)
    case (2 t i "is")
    then show ?case by (cases t) (auto simp: list_all_length split: if_splits)
  qed simp
  then have "scopes_branch n" using assms(1,2) unfolding node_at_def by blast
  then show ?thesis using assms(3) by (cases n) simp
qed

lemma scopes_separate:
  assumes "loop_count_pass ids bounds root = Inr ()" "ls = tree_leaves root" "Suc i < length ls"
    and "scopes_branch root"
  shows "is_scope root (tl (fst (ls ! i))) \<or> \<not> strict_suffix (tl (fst (ls ! i))) (fst (ls ! Suc i))"
proof (rule disjCI)
  let ?p = "fst (ls ! i)" and ?c = "fst (ls ! Suc i)"
  have i: "i < length (tree_leaves root)" "Suc i < length (tree_leaves root)" using assms(2,3) by simp_all
  assume "\<not> \<not> strict_suffix (tl ?p) ?c"
  then have above: "strict_suffix (tl ?p) ?c" by simp
  have no: "\<not> strict_suffix ?p ?c"
    using leaf_above_nothing [OF assms(1) leaf_member [OF i(1)] leaf_member(1) [OF i(2)]] assms(2) by simp
  have ne: "?p \<noteq> ?c" using leaf_name_eq [OF i] assms(2) by simp
  have "?p \<noteq> []" using above no by (cases ?p) auto
  then obtain k w where p: "?p = k # w" by (cases ?p) auto
  obtain zs where zs: "?c = zs @ w" "zs \<noteq> []" using above p by (auto simp: strict_suffix_def suffix_def)
  then obtain us j where c: "?c = us @ j # w" by (cases zs rule: rev_cases) auto
  have "j \<noteq> k"
  proof
    assume "j = k"
    then show False using no ne p c by (auto simp: strict_suffix_def suffix_def)
  qed
  obtain n m where "node_at root (k # w) = Some n" "node_at root (us @ j # w) = Some m"
    using leaf_member(1) [OF i(1)] leaf_member(1) [OF i(2)]
    unfolding p [unfolded assms(2)] c [unfolded assms(2)] nodes_of_root by blast
  then obtain q where q: "node_at root w = Some q" "k < length (children q)" "j < length (children q)"
    using node_at_append [of root "[k]" w] node_at_append [of root "us @ [j]" w]
    by (auto split: option.splits if_splits)
  then have "1 < length (children q)" using \<open>j \<noteq> k\<close> by linarith
  then show "is_scope root (tl ?p)" using scopes_branch_at [OF assms(4) q(1)] q(1) p by (simp add: is_scope_def)
qed

subsection \<open>A fused pair of operations\<close>

text \<open>Two operations in tiles of their own in a scope, with a transfer between them.\<close>

definition leaf_attrs :: "node_type \<Rightarrow> string \<Rightarrow> eva_attrs" where
  "leaf_attrs k n = \<lparr>kind = k, node_name = n, target_level = '''', dataflow_mode = Forward, tile_type = Temporal,
     scope_type = Sequential, loopnests = [], dim_offset = (\<lambda>_. None), last_dim_offset = (\<lambda>_. None)\<rparr>"

definition fused_mapping :: eva_node where
  "fused_mapping = EvaNode (leaf_attrs Tile ''Tile'') [EvaNode (leaf_attrs Scope ''Scope'')
     [EvaNode (leaf_attrs Tile ''Tile'') [EvaNode (leaf_attrs Op ''Op::A'') []],
      EvaNode (leaf_attrs Trans ''Trans'') [],
      EvaNode (leaf_attrs Tile ''Tile'') [EvaNode (leaf_attrs Op ''Op::B'') []]]]"

definition fused_problem :: problem where
  "fused_problem = \<lparr>
     workloads = [''A'' \<mapsto> \<lparr>ins = [''X''], out = ''Y''\<rparr>, ''B'' \<mapsto> \<lparr>ins = [''Y'', ''W''], out = ''Z''\<rparr>],
     common_shape = \<lparr>DataSpaceNameToID = [''X'' \<mapsto> 0, ''Y'' \<mapsto> 1, ''W'' \<mapsto> 2, ''Z'' \<mapsto> 3],
       Projections = [[[0]], [[0]], [[0]], [[0]]], FactorizedDimensionIDToName = [0 \<mapsto> ''M'']\<rparr>\<rparr>"

lemmas fused_defs = fused_mapping_def fused_problem_def leaf_attrs_def

lemma fused_ops: "nameSub ''Op::A'' = ''A''" "nameSub ''Op::B'' = ''B''"
  by (simp_all add: nameSub_def)

lemma fused_kind [simp]: "kind (leaf_attrs k n) = k"
  by (simp add: leaf_attrs_def)

lemma fused_tensors:
  "writes fused_problem (leaf_attrs Op ''Op::A'') = {''Y''}" "writes fused_problem (leaf_attrs Op ''Op::B'') = {''Z''}"
  "reads fused_problem (leaf_attrs Op ''Op::A'') = {''X''}" "reads fused_problem (leaf_attrs Op ''Op::B'') = {''Y'', ''W''}"
  by (simp_all add: reads_def writes_def fused_ops fused_defs)

lemma fused_accepted: "loop_count_pass (\<lambda>_. None) (\<lambda>_. None) fused_mapping = Inr ()"
  by (simp add: loop_count_pass_def fused_defs get_loop_count_def matches_bounds_def)

lemma fused_leaves: "tree_leaves fused_mapping =
    [([0, 0, 0], leaf_attrs Op ''Op::A''), ([1, 0], leaf_attrs Trans ''Trans''), ([0, 2, 0], leaf_attrs Op ''Op::B'')]"
  by (simp add: tree_leaves_def fused_defs)

lemma fused_leaf:
  "length (tree_leaves fused_mapping) = 3" "tree_leaves fused_mapping ! 0 = ([0, 0, 0], leaf_attrs Op ''Op::A'')"
  "tree_leaves fused_mapping ! 1 = ([1, 0], leaf_attrs Trans ''Trans'')" "tree_leaves fused_mapping ! 2 = ([0, 2, 0], leaf_attrs Op ''Op::B'')"
  "last (tree_leaves fused_mapping) = ([0, 2, 0], leaf_attrs Op ''Op::B'')"
  by (simp_all add: fused_leaves)

lemma fused_returns: "\<exists>st. init_tensors fused_problem fused_mapping = Inr st"
proof -
  let ?ls = "tree_leaves fused_mapping"
  have "kind (attrs fused_mapping) = Tile" "op_count (post_order [] fused_mapping) < 2 ^ 31"
    by (simp_all add: fused_defs)
  note iff = init_tensors_iff [OF this refl, of fused_problem]
  have "\<forall>(v, a) \<in> set ?ls. op_known fused_problem a"
    unfolding fused_leaves by (simp add: op_known_def fused_ops fused_defs projected_dims_def)
  moreover have "distinct (op_outs fused_problem ?ls)"
    unfolding fused_leaves by (simp add: op_outs_def fused_ops fused_defs)
  moreover have "writes fused_problem (snd (?ls ! i)) \<inter> reads fused_problem (snd (?ls ! Suc i)) = {}" if "Suc i < length ?ls" for i
    using that unfolding fused_leaves by (auto simp: less_Suc_eq leaf_attrs_def)
  ultimately show ?thesis using iff by blast
qed

subsection \<open>When the passes return and what they leave\<close>

text \<open>C8: in an accepted mapping in which only scopes have several children, the passes return if and only if the problem
  knows every operation and the dimensions of its tensors, and no two operations write the same tensor.\<close>

theorem init_tensors_returns:
  assumes "loop_count_pass ids bounds root = Inr ()" "scopes_branch root" "op_count (post_order [] root) < 2 ^ 31"
  shows "(\<exists>st. init_tensors pb root = Inr st) \<longleftrightarrow>
    (\<forall>(v, a) \<in> set (tree_leaves root). op_known pb a) \<and> distinct (op_outs pb (tree_leaves root))"
proof -
  have tile: "kind (attrs root) = Tile" using assms(1) by (simp add: loop_count_pass_def split: if_splits)
  show ?thesis
    using init_tensors_iff [OF tile assms(3) refl] scopes_separate [OF assms(1) refl _ assms(2)] by blast
qed

theorem init_tensors_returns_witness: "\<exists>st. init_tensors fused_problem fused_mapping = Inr st"
proof -
  have b: "scopes_branch fused_mapping" "op_count (post_order [] fused_mapping) < 2 ^ 31" by (simp_all add: fused_defs)
  have "\<forall>(v, a) \<in> set (tree_leaves fused_mapping). op_known fused_problem a"
    "distinct (op_outs fused_problem (tree_leaves fused_mapping))"
    unfolding fused_leaves by (simp_all add: op_known_def op_outs_def fused_ops fused_defs projected_dims_def)
  then show ?thesis using init_tensors_returns [OF fused_accepted b, of fused_problem] by blast
qed

text \<open>The passes fail when an operation is a child of a tile that also holds the next leaf, and that reads its
  output: the code erases the path of the producer from before its first element.\<close>

theorem direct_children_fail:
  assumes "kind (attrs root) = Tile" "op_count (post_order [] root) < 2 ^ 31" "ls = tree_leaves root" "Suc i < length ls"
    and "writes pb (snd (ls ! i)) \<inter> reads pb (snd (ls ! Suc i)) \<noteq> {}"
    and "\<not> is_scope root (tl (fst (ls ! i)))" "strict_suffix (tl (fst (ls ! i))) (fst (ls ! Suc i))"
  shows "\<exists>e. init_tensors pb root = Inl e"
  using init_tensors_iff [OF assms(1-3), of pb] assms(4-7) by (cases "init_tensors pb root") auto

definition direct_mapping :: eva_node where
  "direct_mapping = EvaNode (leaf_attrs Tile ''Tile'')
     [EvaNode (leaf_attrs Op ''Op::A'') [], EvaNode (leaf_attrs Op ''Op::B'') []]"

theorem direct_children_fail_witness:
  "loop_count_pass (\<lambda>_. None) (\<lambda>_. None) direct_mapping = Inr () \<and> (\<exists>e. init_tensors fused_problem direct_mapping = Inl e)"
proof -
  have ls: "tree_leaves direct_mapping = [([0], leaf_attrs Op ''Op::A''), ([1], leaf_attrs Op ''Op::B'')]"
    by (simp add: tree_leaves_def direct_mapping_def leaf_attrs_def)
  have "\<exists>e. init_tensors fused_problem direct_mapping = Inl e"
  proof (rule direct_children_fail [OF _ _ refl, of _ 0])
    show "writes fused_problem (snd (tree_leaves direct_mapping ! 0)) \<inter> reads fused_problem (snd (tree_leaves direct_mapping ! Suc 0)) \<noteq> {}"
      unfolding ls by (simp add: fused_tensors)
  qed (simp_all add: ls, simp_all add: direct_mapping_def leaf_attrs_def is_scope_def node_at_def strict_suffix_def)
  then show ?thesis
    by (simp add: loop_count_pass_def direct_mapping_def leaf_attrs_def get_loop_count_def matches_bounds_def)
qed

text \<open>In the fused pair, the tensor between the two operations does not leave the tile that holds both.\<close>

theorem tile_inputs_witness:
  "\<exists>st. init_tensors fused_problem fused_mapping = Inr st \<and> dom (input_tensors st []) = {''X'', ''W''} \<and>
     dom (input_tensors st [2, 0]) = {''Y'', ''W''}"
proof -
  obtain st where st: "init_tensors fused_problem fused_mapping = Inr st" using fused_returns by blast
  have tile: "kind (attrs fused_mapping) = Tile" by (simp add: fused_defs)
  have "node_at fused_mapping [] = Some fused_mapping" by (simp add: node_at_def)
  from tile_inputs [OF st tile this tile] have "dom (input_tensors st []) = {''X'', ''W''}"
    by (simp add: fused_mapping_def fused_tensors insert_Diff_if insert_commute)
  moreover have "dom (input_tensors st [2, 0]) = {''Y'', ''W''}"
    using tile_inputs [OF st tile, of "[2, 0]"]
    by (simp add: node_at_def fused_mapping_def fused_tensors)
  ultimately show ?thesis using st by blast
qed

lemma three_leaves:
  fixes P Q :: "nat \<Rightarrow> bool" and R :: "nat \<Rightarrow> nat \<Rightarrow> bool"
  shows "(\<exists>i < 1. \<exists>j > 1. j < 3 \<and> R i j) \<longleftrightarrow> R 0 2"
    and "(\<exists>i \<le> 1. P i \<and> (\<forall>j. i < j \<and> j < 3 \<longrightarrow> Q j)) \<longleftrightarrow> P 0 \<and> Q 1 \<and> Q 2 \<or> P 1 \<and> Q 2"
    and "(\<exists>i. Suc i < 3 \<and> P i) \<longleftrightarrow> P 0 \<or> P 1"
    and "(\<exists>i < 3. P i \<and> (\<forall>j. i < j \<and> j < 3 \<longrightarrow> Q j)) \<longleftrightarrow> P 0 \<and> Q 1 \<and> Q 2 \<or> P 1 \<and> Q 2 \<or> P 2"
proof -
  have "(i < 1 \<longleftrightarrow> i = 0) \<and> (i \<le> 1 \<longleftrightarrow> i = 0 \<or> i = 1) \<and> (1 < i \<and> i < 3 \<longleftrightarrow> i = 2) \<and> (0 < i \<and> i < 3 \<longleftrightarrow> i = 1 \<or> i = 2) \<and>
      (i < 3 \<longleftrightarrow> i = 0 \<or> i = 1 \<or> i = 2) \<and> \<not> (2 < i \<and> i < 3) \<and>
      (Suc i < 3 \<longleftrightarrow> i = 0 \<or> i = 1)" for i :: nat by linarith
  then show "(\<exists>i < 1. \<exists>j > 1. j < 3 \<and> R i j) \<longleftrightarrow> R 0 2"
    "(\<exists>i \<le> 1. P i \<and> (\<forall>j. i < j \<and> j < 3 \<longrightarrow> Q j)) \<longleftrightarrow> P 0 \<and> Q 1 \<and> Q 2 \<or> P 1 \<and> Q 2"
    "(\<exists>i. Suc i < 3 \<and> P i) \<longleftrightarrow> P 0 \<or> P 1"
    "(\<exists>i < 3. P i \<and> (\<forall>j. i < j \<and> j < 3 \<longrightarrow> Q j)) \<longleftrightarrow> P 0 \<and> Q 1 \<and> Q 2 \<or> P 1 \<and> Q 2 \<or> P 2"
    by metis+
qed

theorem leaf_tensors_witness:
  "\<exists>st. init_tensors fused_problem fused_mapping = Inr st \<and> dom (output_tensors st [1, 0]) = {''Y''}"
proof -
  obtain st where st: "init_tensors fused_problem fused_mapping = Inr st" using fused_returns by blast
  have k: "1 < length (tree_leaves fused_mapping)" by (simp add: fused_leaves)
  have "dom (output_tensors st [1, 0]) = {''Y''}"
    using leaf_tensors [OF st fused_accepted refl k] unfolding fused_leaf three_leaves by (auto simp: fused_tensors)
  then show ?thesis using st by blast
qed

theorem tile_outputs_witness:
  "\<exists>st. init_tensors fused_problem fused_mapping = Inr st \<and> dom (output_tensors st []) = {''Z''}"
proof -
  obtain st where st: "init_tensors fused_problem fused_mapping = Inr st" using fused_returns by blast
  have tile: "kind (attrs fused_mapping) = Tile" by (simp add: fused_defs)
  have at: "node_at fused_mapping [] = Some fused_mapping" by (simp add: node_at_def)
  have "dom (output_tensors st []) = {''Z''}"
    unfolding tile_outputs [OF st tile at tile refl] fused_leaf three_leaves by (simp add: fused_tensors strict_suffix_def fused_leaves)
  then show ?thesis using st by blast
qed

end
