(* ===== verification/Tile_Evaluate.thy ===== *)
theory Tile_Evaluate
  imports Tile_Ranges Tile_Outputs
begin

text \<open>
  The evaluation of a mapping (\<open>Evaluator::evaluate\<close> in \<^verbatim>\<open>src/src/loop-analysis/common.cpp\<close>), composed of the
  passes that the other theories model, and its result in closed form for a tile with one operation. That
  the walk returns there is part of the theorem: \<open>visitTileLoop_returns\<close> reduces it to single visits of the children.
\<close>

subsection \<open>The evaluation\<close>

text \<open>
  \<open>evaluate\<close>: the loop count check, the offsets and tensors of the nodes, and the walk, which gives the data
  movement and the latency (that the code stores as a floating-point number). The order in which the code
  iterates over an unordered map is a parameter.
\<close>

definition evaluate :: "((string \<Rightarrow> tensor_map option) \<Rightarrow> (string \<times> tensor_map) list) \<Rightarrow> problem \<Rightarrow> (string \<Rightarrow> nat option) \<Rightarrow>
    (nat \<Rightarrow> int option) \<Rightarrow> (string \<Rightarrow> inter_con option) \<Rightarrow> (string \<Rightarrow> int option) \<Rightarrow> eva_node \<Rightarrow> (int \<times> int) tileexp" where
  "evaluate order pb ids bounds intercon cycles root =
     and_then (loop_count_pass ids bounds root) (\<lambda>_.
     and_then (get_offset (init_offset root)) (\<lambda>tree.
     and_then (init_tensors pb tree) (\<lambda>st.
     and_then (perf_run \<lparr>eva_root = tree, leaf_nodes = leaf_vec st, intercon_attri_map = intercon, compute_cycles = cycles\<rparr>
                 (\<lambda>v. order (input_tensors st v)) (\<lambda>v. order (output_tensors st v))) (\<lambda>perf.
       Inr (data_movements perf, process_latency (node_latency (nodes perf [])))))))"

subsection \<open>Loops whose bodies return\<close>

lemma for_loop_total:
  assumes "P i st" "\<And>j s. i \<le> j \<Longrightarrow> j < i + int k \<Longrightarrow> P j s \<Longrightarrow> \<exists>s1. f j s = Inr s1 \<and> P (j + 1) s1"
  shows "\<exists>st1. for_loop k i f st = Inr st1 \<and> P (i + int k) st1"
  using assms
proof (induction k arbitrary: i st)
  case (Suc k)
  obtain s where s: "f i st = Inr s" "P (i + 1) s" using Suc.prems(2) [of i st] Suc.prems(1) by auto
  from Suc.IH [OF s(2)] Suc.prems(2) show ?case by (simp add: s(1) algebra_simps)
qed simp

text \<open>What a statement about the number of visits so far does not depend on.\<close>

definition unaffected :: "node_id \<Rightarrow> (nat \<Rightarrow> perf_state \<Rightarrow> bool) \<Rightarrow> bool" where
  "unaffected v J \<longleftrightarrow> (\<forall>k s.
     (\<forall>a n e i. J k (push_iteration v a n e i s) = J k s) \<and> (\<forall>a n. J k (pop_iteration v a n s) = J k s) \<and>
     (\<forall>c. J k (upd_node v (\<lambda>ns. ns\<lparr>current_dim_skew := c ns\<rparr>) s) = J k s) \<and> (\<forall>g. J k (s\<lparr>dim_skew := g\<rparr>) = J k s))"

text \<open>The loops return when entering the tile and all visits of the children do, and they count the visits.\<close>

lemma visitTileLoop_returns:
  assumes "distinct (map dim_name ds)" "good_loops ds" "ds \<noteq> []"
    and "v = [] \<longrightarrow> (\<forall>d \<in> set ds. isLastLoop (vec_last_dim st) (dim_name d))" "unaffected v J"
    and "\<And>k s. J k s \<Longrightarrow> k < K \<Longrightarrow> \<exists>s1. body s = Inr s1 \<and> J (Suc k) s1 \<and> keeps v {} s s1"
    and "if isFirstLoop (ori_start (nodes st v)) (current_start (nodes st v))
      then k = 0 \<and> (\<exists>s. enter_tile env v node (first_iteration v (attrs node) ds st) = Inr s \<and> J 0 s) else J k st"
    and "k + length (visit_loops (vec_last_dim st) ds) \<le> K"
  shows "\<exists>st1. visitTileLoop env v node body ds st = Inr st1 \<and> J (k + length (visit_loops (vec_last_dim st) ds)) st1 \<and>
    keeps v (dim_name ` set ds) st st1"
  using assms(1-4,7,8)
proof (induction ds arbitrary: st k)
  case (Cons d ds)
  let ?n = "dim_name d" and ?N = "dim_name ` set ds" and ?off = "offset_of (dim_offset (attrs node)) (dim_name d)"
  let ?first = "isFirstLoop (ori_start (nodes st v)) (current_start (nodes st v))"
  define e where "e = end_of_loop (vec_last_dim st) d"
  have e: "(if v = [] then residual_end d else end_of_loop (vec_last_dim st) d) = e" "0 < e"
    using Cons.prems(2,4) by (auto simp: e_def end_of_loop_def)
  define f where "f i s = (let st2 = push_iteration v (attrs node) ?n e i s in
            and_then (if ds = [] \<and> isFirstLoop (ori_start (nodes st2 v)) (current_start (nodes st2 v))
                      then enter_tile env v node st2 else Inr st2) (\<lambda>st3.
            and_then (if ds = [] then body st3 else visitTileLoop env v node body ds st3) (\<lambda>st4.
              Inr (pop_iteration v (attrs node) ?n st4))))" for i s
  define st0 where "st0 = upd_node v (\<lambda>ns. ns\<lparr>current_dim_skew := (current_dim_skew ns)(?n := 0)\<rparr>) st"
  have n: "?n \<notin> ?N" "distinct (map dim_name ds)" "good_loops ds" using Cons.prems(1,2) by auto
  define vec where "vec j = (vec_last_dim st)(?n := vec_last_dim st ?n @ [\<not> j + 1 < e])" for j
  define cnt where "cnt j = (\<Sum>i\<leftarrow>[0..j - 1]. length (visit_loops (vec i) ds))" for j
  have cnt_step: "cnt (j + 1) = cnt j + length (visit_loops (vec j) ds)" if "0 \<le> j" for j
  proof -
    have "[0..j] = [0..j - 1] @ [j]" using that upto_rec2 [of 0 j] by simp
    then show ?thesis by (simp add: cnt_def)
  qed
  have cnt_all: "length (visit_loops (vec_last_dim st) (d # ds)) = cnt e"
    unfolding length_visit_loops_Cons by (simp add: cnt_def vec_def e_def)
  have cnt_mono: "cnt i \<le> cnt (i + int m)" if "0 \<le> i" for i m
  proof (induction m)
    case (Suc m)
    have "i + int (Suc m) = i + int m + 1" by simp
    then have "cnt (i + int (Suc m)) = cnt (i + int m) + length (visit_loops (vec (i + int m)) ds)"
      using cnt_step [of "i + int m"] that by (simp only:)
    then show ?case using Suc by simp
  qed simp
  define Q where "Q j s1 \<longleftrightarrow> in_loop v (insert ?n ?N) ?n ?off st j s1 \<and> (if j = 0 then s1 = st0 else J (k + cnt j) s1)" for j and s1 :: perf_state
  have step: "\<exists>s1. f j s = Inr s1 \<and> Q (j + 1) s1" if j: "0 \<le> j" "j < 0 + int (nat e)" "Q j s" for j s
  proof -
    let ?p = "push_iteration v (attrs node) ?n e j s"
    have loop: "in_loop v (insert ?n ?N) ?n ?off st j s" using j(3) by (simp add: Q_def)
    have first: "isFirstLoop (ori_start (nodes ?p v)) (current_start (nodes ?p v)) \<longleftrightarrow> j = 0 \<and> ?first"
      using in_loop_firstLoop [OF loop] by simp
    have vec: "vec_last_dim ?p = vec j" using in_loop_vec [OF loop] by (simp add: vec_def)
    have bound: "k + cnt j + length (visit_loops (vec j) ds) \<le> K"
    proof -
      have "cnt (j + 1) \<le> cnt e" using cnt_mono [of "j + 1" "nat (e - (j + 1))"] j(1,2) by (simp split: if_splits)
      then show ?thesis using Cons.prems(6) cnt_step [OF j(1)] unfolding cnt_all by simp
    qed
    have J: "J (k + cnt j) ?p" if "\<not> (j = 0 \<and> ?first)"
    proof (cases "j = 0")
      case True
      then have "J k st" "s = st0" using that Cons.prems(5) j(3) by (auto simp: Q_def)
      then show ?thesis using assms(5) True by (simp add: unaffected_def st0_def cnt_def)
    next
      case False
      then show ?thesis using j(3) assms(5) by (simp add: Q_def unaffected_def)
    qed
    have enter: "k + cnt j = 0 \<and> (\<exists>s1. enter_tile env v node (first_iteration v (attrs node) ds ?p) = Inr s1 \<and> J 0 s1)"
      if t: "j = 0 \<and> ?first"
    proof -
      have "first_iteration v (attrs node) (d # ds) st = first_iteration v (attrs node) ds (push_iteration v (attrs node) ?n e 0 st0)"
        by (simp add: st0_def e(1) del: e_def)
      then show ?thesis using Cons.prems(5) t j(3) by (simp add: Q_def cnt_def)
    qed
    have "\<exists>st3 st4. (if ds = [] \<and> isFirstLoop (ori_start (nodes ?p v)) (current_start (nodes ?p v))
        then enter_tile env v node ?p else Inr ?p) = Inr st3 \<and>
      (if ds = [] then body st3 else visitTileLoop env v node body ds st3) = Inr st4 \<and> J (k + cnt j + length (visit_loops (vec j) ds)) st4 \<and>
      keeps v ?N ?p st4"
    proof (cases "ds = []")
      case True
      have "\<exists>st3. (if isFirstLoop (ori_start (nodes ?p v)) (current_start (nodes ?p v)) then enter_tile env v node ?p else Inr ?p) = Inr st3 \<and>
          J (k + cnt j) st3 \<and> keeps v ?N ?p st3"
        using J enter enter_tile_keeps [of env v node ?p] True unfolding first by (cases "j = 0 \<and> ?first") auto
      then obtain st3 where st3: "(if isFirstLoop (ori_start (nodes ?p v)) (current_start (nodes ?p v)) then enter_tile env v node ?p else Inr ?p) = Inr st3"
          "J (k + cnt j) st3" "keeps v ?N ?p st3" by blast
      have len: "length (visit_loops (vec j) ds) = 1" using True by simp
      obtain st4 where "body st3 = Inr st4" "J (Suc (k + cnt j)) st4" "keeps v {} st3 st4"
        using assms(6) [OF st3(2)] bound unfolding len by auto
      note st4 = this
      have "keeps v ?N ?p st4" using keeps_trans [OF st3(3) keeps_mono [OF st4(3)]] by simp
      moreover have "J (k + cnt j + length (visit_loops (vec j) ds)) st4" using st4(2) len by simp
      ultimately show ?thesis
        using st3(1) st4(1) True by (intro exI [of _ st3] exI [of _ st4]) (simp only: simp_thms if_True)
    next
      case False
      have "dim_name c \<noteq> ?n" if "c \<in> set ds" for c using that Cons.prems(1) by (auto simp: image_iff)
      then have "v = [] \<longrightarrow> (\<forall>d \<in> set ds. isLastLoop (vec_last_dim ?p) (dim_name d))"
        using Cons.prems(4) in_loop_vec [OF loop] by (simp add: isLastLoop_append)
      moreover have "if isFirstLoop (ori_start (nodes ?p v)) (current_start (nodes ?p v))
        then k + cnt j = 0 \<and> (\<exists>s. enter_tile env v node (first_iteration v (attrs node) ds ?p) = Inr s \<and> J 0 s) else J (k + cnt j) ?p"
        using J enter unfolding first by simp
      ultimately show ?thesis using Cons.IH [OF n(2,3) False, of ?p "k + cnt j"] bound False unfolding vec by auto
    qed
    then obtain st3 st4 where t: "(if ds = [] \<and> isFirstLoop (ori_start (nodes ?p v)) (current_start (nodes ?p v))
        then enter_tile env v node ?p else Inr ?p) = Inr st3"
      "(if ds = [] then body st3 else visitTileLoop env v node body ds st3) = Inr st4"
      "J (k + cnt j + length (visit_loops (vec j) ds)) st4" "keeps v ?N ?p st4" by blast
    have "f j s = Inr (pop_iteration v (attrs node) ?n st4)" unfolding f_def Let_def t(1) using t(2) by (simp add: and_then_def)
    moreover have "Q (j + 1) (pop_iteration v (attrs node) ?n st4)"
      using pop_after_push [OF loop t(4) n(1)] t(3) assms(5) j(1) by (simp add: Q_def unaffected_def cnt_step add.assoc)
    ultimately show ?thesis by blast
  qed
  have "Q 0 st0" by (auto simp: Q_def in_loop_def keeps_def upd_node_def stacks_def st0_def)
  from for_loop_total [where P = Q, OF this step] obtain st5 where st5: "for_loop (nat e) 0 f st0 = Inr st5" "Q e st5" using e(2) by fastforce
  let ?st1 = "st5\<lparr>dim_skew := (dim_skew st5)(?n := dim_skew st5 ?n - current_dim_skew (nodes st5 v) ?n)\<rparr>"
  have "visitTileLoop env v node body (d # ds) st = Inr ?st1"
    using st5(1) unfolding visitTileLoop.simps e(1) by (simp add: f_def [abs_def] Let_def st0_def and_then_def)
  moreover have "J (k + length (visit_loops (vec_last_dim st) (d # ds))) ?st1"
    using st5(2) assms(5) e(2) unfolding cnt_all by (simp add: Q_def unaffected_def)
  moreover have "keeps v (dim_name ` set (d # ds)) st ?st1"
    using st5(2) by (auto simp: Q_def in_loop_def keeps_def)
  ultimately show ?case by blast
qed simp

subsection \<open>The volume of an operation\<close>

text \<open>The elements of a tensor in one iteration of the operation.\<close>

definition volume :: "loop_desc list \<Rightarrow> tensor_map \<Rightarrow> int" where
  "volume ds tm = (\<Prod>n\<leftarrow>tensor_dims tm. dim_product n ds)"

lemma prod_pos: "\<forall>n \<in> set ns. 1 \<le> f n \<Longrightarrow> 1 \<le> (\<Prod>n\<leftarrow>ns. f n)" for f :: "string \<Rightarrow> int"
proof (induction ns)
  case (Cons n ns)
  then show ?case using mult_mono [of 1 "f n" 1 "\<Prod>n\<leftarrow>ns. f n"] by simp
qed simp

lemma op_volume_ok:
  assumes "\<forall>n \<in> set ns. 1 \<le> f n" "1 \<le> tmp" "tmp * (\<Prod>n\<leftarrow>ns. f n) < 2 ^ 63"
  shows "op_volume f ns tmp = Inr (tmp * (\<Prod>n\<leftarrow>ns. f n))"
  using assms
proof (induction ns arbitrary: tmp)
  case (Cons n ns)
  have p: "1 \<le> (\<Prod>n\<leftarrow>ns. f n)" using prod_pos [of ns f] Cons.prems(1) by simp
  have t: "1 \<le> tmp * f n" using Cons.prems(1,2) mult_mono [of 1 tmp 1 "f n"] by simp
  then have "tmp * f n \<le> tmp * f n * (\<Prod>n\<leftarrow>ns. f n)" using p mult_left_mono [of 1 "\<Prod>n\<leftarrow>ns. f n" "tmp * f n"] by simp
  then have "int64 (tmp * f n) = Inr (tmp * f n)" using Cons.prems(3) t by (simp add: signed_int_def mult.assoc)
  then show ?case using Cons.IH [of "tmp * f n"] Cons.prems t by (simp add: and_then_def mult.assoc)
qed (simp add: and_then_def)

lemma op_volumes_ok:
  assumes "\<forall>(t, tm) \<in> set ts. \<forall>n \<in> set (tensor_dims tm). 1 \<le> f n" "0 \<le> dm"
    and "dm + (\<Sum>(t, tm)\<leftarrow>ts. \<Prod>n\<leftarrow>tensor_dims tm. f n) < 2 ^ 63"
  shows "op_volumes f ts dm = Inr (dm + (\<Sum>(t, tm)\<leftarrow>ts. \<Prod>n\<leftarrow>tensor_dims tm. f n))"
  using assms
proof (induction ts arbitrary: dm)
  case (Cons x ts)
  obtain t tm where x: "x = (t, tm)" by (cases x)
  let ?v = "\<Prod>n\<leftarrow>tensor_dims tm. f n"
  have v: "1 \<le> ?v" using prod_pos [of "tensor_dims tm" f] Cons.prems(1) x by simp
  have rest: "0 \<le> (\<Sum>(t, tm)\<leftarrow>ts. \<Prod>n\<leftarrow>tensor_dims tm. f n)"
    using Cons.prems(1) prod_pos [of _ f] by (intro sum_list_nonneg) fastforce
  have "op_volume f (tensor_dims tm) 1 = Inr ?v"
    using op_volume_ok [of "tensor_dims tm" f 1] Cons.prems rest x by simp
  moreover have "int64 (dm + ?v) = Inr (dm + ?v)" using Cons.prems(2,3) rest v x by (simp add: signed_int_def)
  ultimately show ?case using Cons.IH [of "dm + ?v"] Cons.prems v x by (simp add: and_then_def)
qed simp

lemma loop_ends_map:
  "distinct (map dim_name ds) \<Longrightarrow> d \<in> set ds \<Longrightarrow> foldl (\<lambda>m d. m(dim_name d := loop_end d)) m0 ds (dim_name d) = dim_product (dim_name d) ds"
proof (induction ds arbitrary: m0)
  case (Cons c ds)
  have out: "foldl (\<lambda>m d. m(dim_name d := loop_end d)) m es n = m n" if "n \<notin> dim_name ` set es" for es n and m :: "string \<Rightarrow> int"
    using that by (induction es arbitrary: m) auto
  show ?case
  proof (cases "d \<in> set ds")
    case True
    then show ?thesis using Cons by (auto simp: image_iff)
  next
    case False
    then have "d = c" "dim_name d \<notin> dim_name ` set ds" using Cons.prems by auto
    then show ?thesis using out [of "dim_name c" ds] by (simp add: dim_product_absent del: fun_upd_apply) simp
  qed
qed simp

text \<open>An operation moves the volumes of its tensors and takes the cycles of its level.\<close>

lemma visitOp_ok:
  assumes "kind b = Op" "distinct (map dim_name (loopnests b))" "good_loops (loopnests b)" "compute_cycles env (target_level b) = Some c"
    and "ts = in_tensors (nodes s v) @ out_tensors (nodes s v)"
    and "\<forall>(t, tm) \<in> set ts. set (tensor_dims tm) \<subseteq> dim_name ` set (loopnests b)"
    and "0 \<le> data_movements s" "data_movements s + (\<Sum>(t, tm)\<leftarrow>ts. volume (loopnests b) tm) < 2 ^ 63"
  shows "visit env v (EvaNode b []) s = Inr (upd_node v (\<lambda>ns. ns\<lparr>node_latency := \<lparr>input_latency = 0, output_latency = 0,
    process_latency = c\<rparr>\<rparr>) (s\<lparr>data_movements := data_movements s + (\<Sum>(t, tm)\<leftarrow>ts. volume (loopnests b) tm)\<rparr>))"
proof -
  define f where "f = foldl (\<lambda>m d. m(dim_name d := loop_end d)) (\<lambda>_. 0) (loopnests b)"
  have f: "f n = dim_product n (loopnests b)" "1 \<le> f n" if "n \<in> dim_name ` set (loopnests b)" for n
    using that loop_ends_map [OF assms(2)] dim_product_pos [OF assms(3)] by (auto simp: f_def)
  have vol: "(\<Prod>n\<leftarrow>tensor_dims tm. f n) = volume (loopnests b) tm" "0 \<le> volume (loopnests b) tm" "\<forall>n \<in> set (tensor_dims tm). 1 \<le> f n"
    if "(t, tm) \<in> set ts" for t tm
  proof -
    have sub: "set (tensor_dims tm) \<subseteq> dim_name ` set (loopnests b)" using assms(6) that by fast
    show pos: "\<forall>n \<in> set (tensor_dims tm). 1 \<le> f n" using f(2) sub by blast
    show eq: "(\<Prod>n\<leftarrow>tensor_dims tm. f n) = volume (loopnests b) tm"
      unfolding volume_def using f(1) sub by (intro arg_cong [of _ _ prod_list] map_cong) auto
    show "0 \<le> volume (loopnests b) tm" using prod_pos [OF pos] eq by simp
  qed
  have sums: "(\<Sum>(t, tm)\<leftarrow>us. \<Prod>n\<leftarrow>tensor_dims tm. f n) = (\<Sum>(t, tm)\<leftarrow>us. volume (loopnests b) tm)"
    "0 \<le> (\<Sum>(t, tm)\<leftarrow>us. volume (loopnests b) tm)" if "set us \<subseteq> set ts" for us
  proof -
    show "(\<Sum>(t, tm)\<leftarrow>us. \<Prod>n\<leftarrow>tensor_dims tm. f n) = (\<Sum>(t, tm)\<leftarrow>us. volume (loopnests b) tm)"
      using that vol(1) by (intro arg_cong [of _ _ sum_list] map_cong) auto
    show "0 \<le> (\<Sum>(t, tm)\<leftarrow>us. volume (loopnests b) tm)" using that vol(2) by (intro sum_list_nonneg) auto
  qed
  let ?i = "in_tensors (nodes s v)" and ?o = "out_tensors (nodes s v)"
  have split: "(\<Sum>(t, tm)\<leftarrow>ts. volume (loopnests b) tm) = (\<Sum>(t, tm)\<leftarrow>?i. volume (loopnests b) tm) + (\<Sum>(t, tm)\<leftarrow>?o. volume (loopnests b) tm)"
    unfolding assms(5) by simp
  have i: "set ?i \<subseteq> set ts" and o: "set ?o \<subseteq> set ts" using assms(5) by auto
  have "op_volumes f ?i 0 = Inr (\<Sum>(t, tm)\<leftarrow>?i. volume (loopnests b) tm)" "op_volumes f ?o 0 = Inr (\<Sum>(t, tm)\<leftarrow>?o. volume (loopnests b) tm)"
    using op_volumes_ok [of ?i f 0] op_volumes_ok [of ?o f 0] sums [OF i] sums [OF o] assms(7,8) vol(3) i o unfolding split by auto
  moreover have "int64 x = Inr x" if "0 \<le> x" "x < 2 ^ 63" for x :: int using that by (simp add: signed_int_def)
  ultimately show ?thesis
    using assms(1,4,7,8) sums(2) [OF i] sums(2) [OF o] unfolding split
    by (simp add: visitOp_def Let_def f_def [symmetric] and_then_def add.commute)
qed

subsection \<open>A tile with one operation\<close>

lemma two_level_tensors:
  assumes "init_tensors pb (EvaNode a [EvaNode b []]) = Inr st" "kind a = Tile" "kind b = Op"
  shows "leaf_vec st = [[0]]" "well_mapped pb st"
    "dom (input_tensors st [0]) = reads pb b" "dom (output_tensors st [0]) = writes pb b"
    "dom (input_tensors st v) \<subseteq> reads pb b \<union> writes pb b" "dom (output_tensors st v) \<subseteq> reads pb b \<union> writes pb b"
proof -
  let ?root = "EvaNode a [EvaNode b []]"
  have order: "post_order [] ?root = [([0], b), ([], a)]" by simp
  obtain st0 where p: "first_pass pb [([0], b), ([], a)] st0" "second_pass pb ?root st0 [([0], b), ([], a)] st"
    using init_tensors_passes [OF assms(1)] unfolding order by blast
  note first = first_passD [OF p(1)] and second = second_passD [OF p(2)]
  have only: "c = b \<or> c = a" if "[([0], b), ([], a)] = vs @ (u, c) # ws" for vs u c ws
    using arg_cong [OF that, of set] by auto
  have none: "reads pb a = {}" "writes pb a = {}" using assms(2) by simp_all
  have leafs: "leaf_vec st0 = [[0]]" using first(1) assms(2,3) by simp
  then show "leaf_vec st = [[0]]" using second(1) by (simp add: same_leaves_def)
  show "well_mapped pb st" by (rule second(3))
  show "dom (input_tensors st [0]) = reads pb b" unfolding second(4) first(5) using none by auto
  have "producer_nodes ?root st0 [0] t = {}" for t
  proof (cases "producer_map st0 t")
    case (Some x)
    then obtain tm q where q: "producer_map st0 t = Some (tm, q)" by (cases x) auto
    then have "q = [0]" using first(4) [of t q] none by auto
    moreover have "\<not> is_scope ?root []" using assms(2) by (simp add: is_scope_def node_at_def)
    ultimately show ?thesis using q leafs by (simp add: producer_nodes_def findCommonNode_def)
  qed (simp add: producer_nodes_def)
  then show "dom (output_tensors st [0]) = writes pb b" unfolding second(5) first(6) using none by (auto dest: only)
  show "dom (input_tensors st v) \<subseteq> reads pb b \<union> writes pb b" unfolding second(4) first(5) using none by auto
  show "dom (output_tensors st v) \<subseteq> reads pb b \<union> writes pb b" unfolding second(5) first(6) using none by (auto dest: only)
qed

text \<open>Attaching ranges to the tensors of the root moves no data.\<close>

lemma ranged_tensor_returns:
  assumes "\<forall>n \<in> set (tensor_dims tm). \<exists>r. rng n = Inr r"
  shows "\<exists>tm1. ranged_tensor rng tm = Inr tm1"
proof -
  have "\<exists>m1. range_loop rng ns m = Inr m1" if "\<forall>n \<in> set ns. \<exists>r. rng n = Inr r" for ns m
    using that by (induction ns arbitrary: m) (auto simp: and_then_def)
  from this [OF assms, of "[]"] show ?thesis by (auto simp: ranged_tensor_def and_then_def)
qed

lemma root_tensors:
  assumes "\<forall>(t, tm) \<in> set ts. \<forall>n \<in> set (tensor_dims tm). \<exists>r. rng n = Inr r"
  shows "\<exists>ts1. input_loop rng True name ts 0 0 = Inr (ts1, 0, 0)" "\<exists>ts1. output_loop rng True ts 0 = Inr (ts1, 0)"
proof -
  have zero: "int64 0 = Inr 0" by (simp add: signed_int_def)
  show "\<exists>ts1. input_loop rng True name ts 0 0 = Inr (ts1, 0, 0)"
    using assms
  proof (induction ts)
    case (Cons x ts)
    obtain t tm where x: "x = (t, tm)" by (cases x)
    obtain tm1 where "ranged_tensor rng tm = Inr tm1" using ranged_tensor_returns [of tm rng] Cons.prems x by auto
    then show ?case using Cons x zero by (auto simp: and_then_def)
  qed simp
  show "\<exists>ts1. output_loop rng True ts 0 = Inr (ts1, 0)"
    using assms
  proof (induction ts)
    case (Cons x ts)
    obtain t tm where x: "x = (t, tm)" by (cases x)
    obtain tm1 where "ranged_tensor rng tm = Inr tm1" using ranged_tensor_returns [of tm rng] Cons.prems x by auto
    then show ?case using Cons x zero by (auto simp: and_then_def)
  qed simp
qed

lemma sum_over_names:
  "distinct (map fst xs) \<Longrightarrow> \<forall>(t, y) \<in> set xs. g y = h t \<Longrightarrow> (\<Sum>(t, y)\<leftarrow>xs. g y) = (\<Sum>t\<in>fst ` set xs. h t)" for g :: "'y \<Rightarrow> int"
  by (induction xs) auto

lemma with_offsets_reads [simp]:
  "reads pb (b\<lparr>dim_offset := x, last_dim_offset := y\<rparr>) = reads pb b"
  "writes pb (b\<lparr>dim_offset := x, last_dim_offset := y\<rparr>) = writes pb b"
  "op_known pb (b\<lparr>dim_offset := x, last_dim_offset := y\<rparr>) = op_known pb b"
  by (simp_all add: reads_def writes_def op_known_def split: option.split)

text \<open>The root is entered without moving data, as long as all of its dimensions have a loop.\<close>

lemma enter_root:
  assumes "leaf_nodes env = [[0]]" "node = EvaNode a [EvaNode b []]" "data_movements s = 0"
    and "\<forall>(t, tm) \<in> set (in_tensors (nodes s [])) \<union> set (out_tensors (nodes s [])). \<forall>n \<in> set (tensor_dims tm). \<exists>r. node_range [] node s n = Inr r"
  shows "\<exists>s1. enter_tile env [] node s = Inr s1 \<and> data_movements s1 = 0 \<and> nodes s1 [0] = nodes s [0] \<and> latency_vec (nodes s1 []) = [] \<and>
    process_latency (node_latency (nodes s1 [])) = process_latency (node_latency (nodes s []))"
proof -
  have name: "trans_tensor_name env [] node st = Inr []" for st
    using assms(1,2) by (simp add: trans_tensor_name_def Let_def)
  have all: "\<forall>(t, tm) \<in> set (in_tensors (nodes s [])). \<forall>n \<in> set (tensor_dims tm). \<exists>r. node_range [] node s n = Inr r"
    "\<forall>(t, tm) \<in> set (out_tensors (nodes s [])). \<forall>n \<in> set (tensor_dims tm). \<exists>r. node_range [] node s n = Inr r"
    using assms(4) by auto
  obtain ts1 where ts1: "input_loop (node_range [] node s) True [] (in_tensors (nodes s [])) 0 0 = Inr (ts1, 0, 0)"
    using root_tensors(1) [OF all(1)] by blast
  define st2 where "st2 = upd_node [] (\<lambda>ns. ns\<lparr>in_tensors := ts1\<rparr>) s"
  have i: "add_inputs env [] node s = Inr (st2, 0, 0)" by (simp add: add_inputs_def name and_then_def ts1 st2_def)
  have same: "node_range [] node st2 = node_range [] node s"
    unfolding st2_def by (rule ext) (simp add: node_range_def upd_node_def)
  have outs: "out_tensors (nodes st2 []) = out_tensors (nodes s [])" by (simp add: st2_def upd_node_def)
  obtain os where os: "output_loop (node_range [] node s) True (out_tensors (nodes s [])) 0 = Inr (os, 0)"
    using root_tensors(2) [OF all(2)] by blast
  have o: "add_outputs env [] node st2 = Inr (upd_node [] (\<lambda>ns. ns\<lparr>out_tensors := os\<rparr>) st2, 0)"
    using os outs by (simp add: add_outputs_def name and_then_def same)
  have "int64 0 = Inr 0" by (simp add: signed_int_def)
  then show ?thesis using assms(3)
    by (simp add: enter_tile_def i o and_then_def) (simp add: st2_def upd_node_def)
qed

lemma children_keep:
  assumes "and_then (tile_children env v 0 cs (clear_latencies v s)) (end_children v) = Inr s1" "list_all tiles_distinct cs"
  shows "keeps v {} s s1"
proof -
  obtain s2 where s2: "tile_children env v 0 cs (clear_latencies v s) = Inr s2" "end_children v s2 = Inr s1"
    using assms(1) by (auto simp: and_then_eq_Inr)
  from keeps_trans [OF keeps_trans [OF clear_latencies_keeps visit_keeps(3) [OF s2(1) assms(2)]] end_children_keeps [OF s2(2)]] show ?thesis .
qed

text \<open>One visit of the operation.\<close>

lemma one_visit:
  assumes "kind b = Op" "distinct (map dim_name (loopnests b))" "good_loops (loopnests b)" "compute_cycles env (target_level b) = Some c"
    and "\<forall>(t, tm) \<in> set (ins_b @ outs_b). set (tensor_dims tm) \<subseteq> dim_name ` set (loopnests b)"
    and V: "V = (\<Sum>(t, tm)\<leftarrow>ins_b @ outs_b. volume (loopnests b) tm)" "0 \<le> V" "int N * V < 2 ^ 63"
    and J: "J = (\<lambda>k s. data_movements s = int k * V \<and> in_tensors (nodes s [0]) = ins_b \<and> out_tensors (nodes s [0]) = outs_b \<and>
      latency_vec (nodes s []) = replicate k [\<lparr>input_latency = 0, output_latency = 0, process_latency = c\<rparr>] \<and>
      process_latency (node_latency (nodes s [])) = 0)"
    and "J k s" "k < N"
  shows "\<exists>s1. and_then (tile_children env [] 0 [EvaNode b []] (clear_latencies [] s)) (end_children []) = Inr s1 \<and> J (Suc k) s1 \<and> keeps [] {} s s1"
proof -
  let ?s = "clear_latencies [] s"
  have s: "in_tensors (nodes ?s [0]) = ins_b" "out_tensors (nodes ?s [0]) = outs_b" "data_movements ?s = int k * V"
    using assms(10) by (simp_all add: J clear_latencies_def upd_node_def)
  have "int k * V + V \<le> int N * V"
    using assms(11) V(2) mult_right_mono [of "int (Suc k)" "int N" V] by (simp add: algebra_simps)
  then have visit: "visit env [0] (EvaNode b []) ?s = Inr (upd_node [0] (\<lambda>ns. ns\<lparr>node_latency :=
      \<lparr>input_latency = 0, output_latency = 0, process_latency = c\<rparr>\<rparr>) (?s\<lparr>data_movements := int k * V + V\<rparr>))"
    using visitOp_ok [OF assms(1-4), where s = ?s and v = "[0]" and ts = "ins_b @ outs_b"] assms(5) V(2,3) s unfolding V(1) [symmetric] by simp
  define s2 where "s2 = push_latency [] [0] (upd_node [0] (\<lambda>ns. ns\<lparr>node_latency :=
      \<lparr>input_latency = 0, output_latency = 0, process_latency = c\<rparr>\<rparr>) (?s\<lparr>data_movements := int k * V + V\<rparr>))"
  have "tile_children env [] 0 [EvaNode b []] ?s = Inr s2"
    using assms(1) by (simp del: visit.simps add: visit and_then_def s2_def)
  moreover have "end_children [] s2 = Inr (upd_node [] (\<lambda>ns. ns\<lparr>latency_vec := latency_vec ns @ [latency_sub_vec ns]\<rparr>) s2)"
    by (simp add: end_children_def s2_def push_latency_def upd_node_def)
  moreover have "J (Suc k) (upd_node [] (\<lambda>ns. ns\<lparr>latency_vec := latency_vec ns @ [latency_sub_vec ns]\<rparr>) s2)"
    using assms(10) unfolding J
    by (simp add: s2_def push_latency_def clear_latencies_def upd_node_def algebra_simps replicate_append_same [symmetric] del: replicate.simps)
      (simp add: replicate_append_same)
  ultimately have "\<exists>s1. and_then (tile_children env [] 0 [EvaNode b []] ?s) (end_children []) = Inr s1 \<and> J (Suc k) s1"
    by (simp add: and_then_def)
  then obtain s1 where s1: "and_then (tile_children env [] 0 [EvaNode b []] ?s) (end_children []) = Inr s1" "J (Suc k) s1" by blast
  then show ?thesis using children_keep [OF s1(1)] assms(1) by auto
qed

text \<open>The number of elements of a tensor in one iteration of an operation.\<close>

definition tensor_elements :: "problem \<Rightarrow> loop_desc list \<Rightarrow> string \<Rightarrow> int" where
  "tensor_elements pb ds t = (case projected_dims (common_shape pb) t of
     Inr ns \<Rightarrow> \<Prod>n\<leftarrow>ns. dim_product n ds | Inl _ \<Rightarrow> 0)"


lemma first_iteration_keeps:
  "data_movements (first_iteration v a ds s) = data_movements s" "u \<noteq> v \<Longrightarrow> nodes (first_iteration v a ds s) u = nodes s u"
  "tensors (nodes (first_iteration v a ds s) v) = tensors (nodes s v)"
  "node_latency (nodes (first_iteration v a ds s) v) = node_latency (nodes s v)"
  by (induction ds arbitrary: s) (simp_all add: push_iteration_def upd_node_def tensors_def)

lemma iterations_of_root:
  assumes "good_loops ds" "distinct (map dim_name ds)"
  shows "int (length (visit_loops (\<lambda>_. []) ds)) = (\<Prod>d\<leftarrow>ds. residual_end d)"
proof -
  have "int (\<Prod>d\<leftarrow>es. nat (residual_end d)) = (\<Prod>d\<leftarrow>es. residual_end d)" if "good_loops es" for es
    using that by (induction es) auto
  then show ?thesis using length_visit_loops [OF assms, of "\<lambda>_. []"] assms(1) by (simp add: end_of_loop_def isLastLoop_def)
qed

text \<open>The latency of a temporal tile whose child has no transfers.\<close>

lemma tile_latency_ones:
  assumes "intercon (target_level a @ ''2'' @ target_level b) = Some con" "kind b = Op" "0 \<le> c" "c < 2 ^ 31" "0 < k"
  shows "tile_latency intercon (EvaNode a [EvaNode b []]) True Pipeline
    (replicate k [\<lparr>input_latency = 0, output_latency = 0, process_latency = c\<rparr>]) = Inr (int k * c)"
proof -
  let ?l = "\<lparr>input_latency = 0, output_latency = 0, process_latency = c\<rparr>"
  have con: "getInterConNode intercon (EvaNode a [EvaNode b []]) 0 = Inr con"
    using assms(1,2) by (simp add: getInterConNode_def Let_def and_then_def)
  have "\<forall>l \<in> set (replicate k ?l). small_latency l" using assms(3,4) by (simp add: small_latency_def)
  from temporal_loop_ones [where con = "getInterConNode intercon (EvaNode a [EvaNode b []])" and c = con and t = no_latency, OF con this]
  have "temporal_loop (getInterConNode intercon (EvaNode a [EvaNode b []])) Pipeline (replicate k [?l]) no_latency =
      Inr \<lparr>input_latency = 0, output_latency = 0, process_latency = int k * c\<rparr>"
    by (simp add: no_latency_def pipeline_transfer_def sum_list_replicate split: if_splits)
  then show ?thesis using assms(3,5) con by (simp add: tile_latency_def computeLatency_def and_then_def)
qed

lemma ordered_tensors:
  assumes "well_mapped pb st" "f = input_tensors st v \<or> f = output_tensors st v"
    and "distinct (map fst (order f))" "map_of (order f) = f"
  shows "(t, tm) \<in> set (order f) \<Longrightarrow> t \<in> dom f \<and> projected_dims (common_shape pb) t = Inr (tensor_dims tm)"
    and "(\<Sum>(t, tm)\<leftarrow>order f. volume ds tm) = (\<Sum>t\<in>dom f. tensor_elements pb ds t)"
proof -
  have f: "f t = Some tm" if "(t, tm) \<in> set (order f)" for t tm
    using that assms(3,4) by (metis map_of_eq_Some_iff)
  have fresh: "projected_dims (common_shape pb) t = Inr (tensor_dims tm)" if "(t, tm) \<in> set (order f)" for t tm
    using f [OF that] assms(1,2) by (auto simp: well_mapped_def fresh_tensor_def)
  show "(t, tm) \<in> set (order f) \<Longrightarrow> t \<in> dom f \<and> projected_dims (common_shape pb) t = Inr (tensor_dims tm)"
    using f fresh by auto
  have "\<forall>(t, tm) \<in> set (order f). volume ds tm = tensor_elements pb ds t"
    using fresh by (auto simp: volume_def tensor_elements_def)
  from sum_over_names [OF assms(3) this] show "(\<Sum>(t, tm)\<leftarrow>order f. volume ds tm) = (\<Sum>t\<in>dom f. tensor_elements pb ds t)"
    using dom_map_of_conv_image_fst [of "order f"] assms(4) by simp
qed


text \<open>Three iterations over an operation on blocks of four, of which the last has one element.\<close>

definition vector_problem :: problem where
  "vector_problem = \<lparr>workloads = (\<lambda>n. if n = ''PE'' then Some \<lparr>ins = [''X''], out = ''Y''\<rparr> else None),
     common_shape = \<lparr>DataSpaceNameToID = (\<lambda>_. Some 0), Projections = [[[0]]], FactorizedDimensionIDToName = (\<lambda>_. Some ''M'')\<rparr>\<rparr>"

definition listed :: "(string \<Rightarrow> tensor_map option) \<Rightarrow> (string \<times> tensor_map) list" where
  "listed m = map (\<lambda>t. (t, the (m t))) (filter (\<lambda>t. m t \<noteq> None) [''X'', ''Y''])"


end
