(* ===== verification/Hash_Primes.thy ===== *)
theory Hash_Primes
  imports Prelude
begin

text \<open>
  The prime sizes of the hash tables of libiberty (\<^verbatim>\<open>gdb-15.1/libiberty/hashtab.c\<close>): the table of
  primes with the multipliers that replace a division by the prime or by the prime less two, the search
  for the prime that is large enough, and the remainder by a multiplication. The remainder is proved to
  be the one of the C operator \<^verbatim>\<open>%\<close> for every entry and every hash value, and the sizes up to 524287
  to be primes, which the second hash of the open addressing needs.
\<close>

type_synonym hashval_t = uint32

text \<open>How a function of \<^verbatim>\<open>hashtab.c\<close> fails: it calls \<^verbatim>\<open>abort\<close>, or it reads outside of an array.\<close>

datatype htab_error = Abort | Out_of_bounds

subsection \<open>The table of primes\<close>

datatype prime_ent = prime_ent (prime: hashval_t) (inv: hashval_t) (inv_m2: hashval_t) (shift: nat)

definition prime_tab :: "prime_ent list" where
  "prime_tab = [
   prime_ent 7 0x24924925 0x9999999b 2,
   prime_ent 13 0x3b13b13c 0x745d1747 3,
   prime_ent 31 0x08421085 0x1a7b9612 4,
   prime_ent 61 0x0c9714fc 0x15b1e5f8 5,
   prime_ent 127 0x02040811 0x0624dd30 6,
   prime_ent 251 0x05197f7e 0x073260a5 7,
   prime_ent 509 0x01824366 0x02864fc8 8,
   prime_ent 1021 0x00c0906d 0x014191f7 9,
   prime_ent 2039 0x0121456f 0x0161e69e 10,
   prime_ent 4093 0x00300902 0x00501908 11,
   prime_ent 8191 0x00080041 0x00180241 12,
   prime_ent 16381 0x000c0091 0x00140191 13,
   prime_ent 32749 0x002605a5 0x002a06e6 14,
   prime_ent 65521 0x000f00e2 0x00110122 15,
   prime_ent 131071 0x00008001 0x00018003 16,
   prime_ent 262139 0x00014002 0x0001c004 17,
   prime_ent 524287 0x00002001 0x00006001 18,
   prime_ent 1048573 0x00003001 0x00005001 19,
   prime_ent 2097143 0x00004801 0x00005801 20,
   prime_ent 4194301 0x00000c01 0x00001401 21,
   prime_ent 8388593 0x00001e01 0x00002201 22,
   prime_ent 16777213 0x00000301 0x00000501 23,
   prime_ent 33554393 0x00001381 0x00001481 24,
   prime_ent 67108859 0x00000141 0x000001c1 25,
   prime_ent 134217689 0x000004e1 0x00000521 26,
   prime_ent 268435399 0x00000391 0x000003b1 27,
   prime_ent 536870909 0x00000019 0x00000029 28,
   prime_ent 1073741789 0x0000008d 0x00000095 29,
   prime_ent 2147483647 0x00000003 0x00000007 30,
   prime_ent 0xfffffffb 0x00000006 0x00000008 31]"

abbreviation prime_at :: "nat \<Rightarrow> nat" where
  "prime_at i \<equiv> unat (prime (prime_tab ! i))"

lemma length_prime_tab [simp]: "length prime_tab = 30"
  by (simp add: prime_tab_def)

function higher_prime_loop :: "nat \<Rightarrow> nat \<Rightarrow> nat \<Rightarrow> nat" where
  "higher_prime_loop n low high =
    (if low \<ge> high then low
     else let mid = low + (high - low) div 2 in
       if n > prime_at mid then higher_prime_loop n (mid + 1) high
       else higher_prime_loop n low mid)"
  by pat_completeness auto
termination
  by (relation "measure (\<lambda>(n, low, high). high - low)") auto

declare higher_prime_loop.simps [simp del]

text \<open>After the loop the code reads the entry it found; with an index of 30 that is outside the table.\<close>

definition higher_prime_index :: "nat \<Rightarrow> htab_error + nat" where
  "higher_prime_index n =
    (let low = higher_prime_loop n 0 (length prime_tab) in
     if low \<ge> length prime_tab then Inl Out_of_bounds
     else if n > prime_at low then Inl Abort
     else Inr low)"

subsection \<open>The search\<close>

lemma all_upto: "list_all P [0..<n] \<Longrightarrow> i < n \<Longrightarrow> P i"
  by (simp add: list_all_iff)

lemma prime_at_Suc_less: "i < 29 \<Longrightarrow> prime_at i < prime_at (Suc i)"
  by (rule all_upto [where n = 29]) (simp_all add: prime_tab_def upt_rec)

lemma prime_at_mono: "i \<le> j \<Longrightarrow> j < 30 \<Longrightarrow> prime_at i \<le> prime_at j"
proof (induction j)
  case (Suc j)
  then show ?case using prime_at_Suc_less [of j] by (cases "i = Suc j") auto
qed simp

lemma prime_at_less: "i < j \<Longrightarrow> j < 30 \<Longrightarrow> prime_at i < prime_at j"
  using prime_at_Suc_less [of i] prime_at_mono [of "Suc i" j] by simp

lemma prime_at_ends [simp]: "prime_at 0 = 7" "prime_at 29 = 4294967291"
  by (simp_all add: prime_tab_def)

lemma prime_at_ge_7: "i < 30 \<Longrightarrow> 7 \<le> prime_at i"
  using prime_at_mono [of 0 i] by simp

lemma higher_prime_loop_spec:
  "low \<le> high \<Longrightarrow> high \<le> 30 \<Longrightarrow>
   \<forall>j < low. prime_at j < n \<Longrightarrow> \<forall>j. high \<le> j \<and> j < 30 \<longrightarrow> n \<le> prime_at j \<Longrightarrow>
   (let i = higher_prime_loop n low high in
      i \<le> high \<and> (\<forall>j < i. prime_at j < n) \<and> (\<forall>j. i \<le> j \<and> j < 30 \<longrightarrow> n \<le> prime_at j))"
proof (induction n low high rule: higher_prime_loop.induct)
  case (1 n low high)
  define mid where "mid = low + (high - low) div 2"
  show ?case
  proof (cases "low \<ge> high")
    case True
    with 1 show ?thesis by (simp add: higher_prime_loop.simps Let_def)
  next
    case False
    then have mid: "low \<le> mid" "mid < high" "mid < 30" using "1.prems"(2) by (auto simp: mid_def)
    have up: "\<forall>j < mid + 1. prime_at j < n" if "n > prime_at mid"
      using that mid(3) by (auto simp: less_Suc_eq_le intro: le_less_trans [OF prime_at_mono])
    have down: "\<forall>j. mid \<le> j \<and> j < 30 \<longrightarrow> n \<le> prime_at j" if "\<not> n > prime_at mid"
      using that mid prime_at_mono [of mid] by (fastforce intro: order_trans)
    show ?thesis
    proof (cases "n > prime_at mid")
      case True
      with 1 False mid up show ?thesis
        by (simp add: higher_prime_loop.simps [of n low high] mid_def [symmetric] Let_def)
    next
      case lower: False
      with 1 False mid down have "let i = higher_prime_loop n low mid in
          i \<le> mid \<and> (\<forall>j < i. prime_at j < n) \<and> (\<forall>j. i \<le> j \<and> j < 30 \<longrightarrow> n \<le> prime_at j)"
        by (simp add: mid_def [symmetric] Let_def)
      with lower False mid show ?thesis
        by (simp add: higher_prime_loop.simps [of n low high] mid_def [symmetric] Let_def)
    qed
  qed
qed

lemma higher_prime_index_cases:
  "case higher_prime_index n of
     Inr i \<Rightarrow> i < 30 \<and> n \<le> prime_at i \<and> (\<forall>j < i. prime_at j < n)
   | Inl e \<Rightarrow> e = Out_of_bounds \<and> 4294967291 < n"
proof -
  let ?i = "higher_prime_loop n 0 30"
  have s: "?i \<le> 30" "\<forall>j < ?i. prime_at j < n" "\<forall>j. ?i \<le> j \<and> j < 30 \<longrightarrow> n \<le> prime_at j"
    using higher_prime_loop_spec [of 0 30 n] by (simp_all add: Let_def)
  show ?thesis
  proof (cases "?i < 30")
    case True
    then have "n \<le> prime_at ?i" using s(3) by blast
    then have "\<not> prime_at ?i < n" by simp
    with True s(2) \<open>n \<le> prime_at ?i\<close> show ?thesis by (simp add: higher_prime_index_def Let_def)
  next
    case False
    then have "29 < ?i" by simp
    then have "prime_at 29 < n" using s(2) by blast
    with False show ?thesis by (simp add: higher_prime_index_def Let_def)
  qed
qed

lemma higher_prime_index_ok:
  assumes "n \<le> 4294967291"
  obtains i where "higher_prime_index n = Inr i" "i < 30" "n \<le> prime_at i"
    "\<forall>j < i. prime_at j < n"
  using higher_prime_index_cases [of n] assms by (auto split: sum.splits)

subsection \<open>The remainder by a multiplication\<close>

definition htab_mod_1 :: "hashval_t \<Rightarrow> hashval_t \<Rightarrow> hashval_t \<Rightarrow> nat \<Rightarrow> hashval_t" where
  "htab_mod_1 x y v s =
    (let t1 = ucast (drop_bit 32 (ucast x * ucast v :: uint64)) :: hashval_t;
         t2 = x - t1;
         t3 = drop_bit 1 t2;
         t4 = t1 + t3;
         q = drop_bit s t4
     in x - q * y)"

definition htab_mod :: "hashval_t \<Rightarrow> nat \<Rightarrow> hashval_t" where
  "htab_mod hash i = (let p = prime_tab ! i in htab_mod_1 hash (prime p) (inv p) (shift p))"

definition htab_mod_m2 :: "hashval_t \<Rightarrow> nat \<Rightarrow> hashval_t" where
  "htab_mod_m2 hash i =
    (let p = prime_tab ! i in 1 + htab_mod_1 hash (prime p - 2) (inv_m2 p) (shift p))"

text \<open>
  A multiplier for \<open>y\<close>: a number \<open>2 ^ 32 + v\<close> that exceeds \<open>2 ^ (33 + s) / y\<close> by at most
  \<open>2 ^ (s + 1) / y\<close>, as \<^verbatim>\<open>choose_multiplier\<close> computes it.
\<close>

definition multiplier :: "nat \<Rightarrow> nat \<Rightarrow> nat \<Rightarrow> bool" where
  "multiplier y v s \<longleftrightarrow> 0 < y \<and>
     2 ^ (33 + s) \<le> (2 ^ 32 + v) * y \<and> (2 ^ 32 + v) * y \<le> 2 ^ (33 + s) + 2 ^ (s + 1)"

lemma multiplier_div:
  assumes m: "multiplier y v s" and x: "x < 2 ^ 32"
  shows "((2 ^ 32 + v) * x) div 2 ^ (33 + s) = x div y"
proof -
  define M where "M = (2::nat) ^ (33 + s)"
  define e where "e = (2 ^ 32 + v) * y - M"
  have y: "0 < y" and e: "(2 ^ 32 + v) * y = M + e" "e \<le> 2 ^ (s + 1)"
    using m by (auto simp: multiplier_def M_def e_def)
  have M: "0 < M" "2 ^ 32 * 2 ^ (s + 1) = M"
    by (simp_all add: M_def power_add)
  have xe: "x * e < M"
  proof (cases "e = 0")
    case False
    then have "x * e < 2 ^ 32 * e" using x by simp
    also have "\<dots> \<le> 2 ^ 32 * 2 ^ (s + 1)" using e(2) by (intro mult_le_mono2)
    finally show ?thesis using M(2) by simp
  qed (use M in simp)
  have "((2 ^ 32 + v) * x) div M = (((2 ^ 32 + v) * x) * y) div (M * y)"
    using y by simp
  also have "((2 ^ 32 + v) * x) * y = x * M + x * e"
    using arg_cong [OF e(1), of "\<lambda>z. x * z"] by (simp add: algebra_simps)
  also have "(x * M + x * e) div (M * y) = ((x * M + x * e) div M) div y"
    by (simp add: div_mult2_eq)
  also have "(x * M + x * e) div M = x"
    using xe M(1) by simp
  finally show ?thesis by (simp add: M_def)
qed

lemma unat_multiply_high:
  fixes x v :: hashval_t
  shows "unat (ucast (drop_bit 32 (ucast x * ucast v :: uint64)) :: hashval_t) = unat x * unat v div 2 ^ 32"
proof -
  have lt: "unat x * unat v < 2 ^ 64"
    using mult_strict_mono' [of "unat x" "2 ^ 32" "unat v" "2 ^ 32"] unat_bound [of x] unat_bound [of v]
    by simp
  have "unat (ucast x * ucast v :: uint64) = unat x * unat v"
    using lt by (simp add: unat_word_ariths unsigned_ucast_eq take_bit_nat_eq_self
        less_trans [OF unat_bound, simplified] flip: take_bit_eq_mod)
  then show ?thesis
    using lt by (simp add: unsigned_ucast_eq take_bit_nat_eq_self unat_drop_bit_eq drop_bit_eq_div
        less_mult_imp_div_less unat_div)
qed

lemma htab_mod_1_is_mod:
  assumes m: "multiplier (unat y) (unat v) s"
  shows "htab_mod_1 x y v s = x mod y"
proof -
  let ?X = "unat x" and ?t = "unat x * unat v div 2 ^ 32"
  define t1 where "t1 = (ucast (drop_bit 32 (ucast x * ucast v :: uint64)) :: hashval_t)"
  have t1: "unat t1 = ?t" unfolding t1_def by (rule unat_multiply_high)
  have "?t \<le> ?X"
    using unat_bound [of v] div_le_mono [of "?X * unat v" "?X * 2 ^ 32" "2 ^ 32"] by simp
  then have t2: "unat (x - t1) = ?X - ?t" by (simp add: unat_sub t1 word_le_nat_alt)
  have t3: "unat (drop_bit 1 (x - t1)) = (?X - ?t) div 2"
    by (simp only: unat_drop_bit_eq t2) (simp add: drop_bit_eq_div)
  have "unat t1 + unat (drop_bit 1 (x - t1)) < 2 ^ LENGTH(32)"
    unfolding t1 t3 using \<open>?t \<le> ?X\<close> unat_bound [of x] by linarith
  then have t4: "unat (t1 + drop_bit 1 (x - t1)) = ?t + (?X - ?t) div 2"
    unfolding unat_add_lem by (simp only: t1 t3)
  have "unat (drop_bit s (t1 + drop_bit 1 (x - t1))) = (?t + (?X - ?t) div 2) div 2 ^ s"
    by (simp only: unat_drop_bit_eq t4) (simp add: drop_bit_eq_div)
  also have "?t + (?X - ?t) div 2 = (?X + ?t) div 2" using \<open>?t \<le> ?X\<close> by linarith
  also have "?X + ?t = ((2 ^ 32 + unat v) * ?X) div 2 ^ 32"
    by (simp add: algebra_simps)
  also have "((2 ^ 32 + unat v) * ?X) div 2 ^ 32 div 2 div 2 ^ s = ((2 ^ 32 + unat v) * ?X) div 2 ^ (33 + s)"
    by (simp add: div_mult2_eq [symmetric] power_add)
  also have "\<dots> = ?X div unat y"
    by (rule multiplier_div [OF m]) (use unat_bound [of x] in simp)
  also have "\<dots> = unat (x div y)" by (simp add: unat_div)
  finally have "drop_bit s (t1 + drop_bit 1 (x - t1)) = x div y" by (simp add: word_unat_eq_iff)
  then show ?thesis
    by (simp add: htab_mod_1_def t1_def [symmetric] Let_def minus_div_mult_eq_mod)
qed

lemma prime_tab_multipliers:
  "i < 30 \<Longrightarrow> multiplier (prime_at i) (unat (inv (prime_tab ! i))) (shift (prime_tab ! i))"
  by (rule all_upto [where n = 30]) (simp_all add: prime_tab_def upt_rec multiplier_def)

lemma prime_tab_multipliers_m2:
  "i < 30 \<Longrightarrow>
   multiplier (unat (prime (prime_tab ! i) - 2)) (unat (inv_m2 (prime_tab ! i))) (shift (prime_tab ! i))"
  by (rule all_upto [where n = 30]) (simp_all add: prime_tab_def upt_rec multiplier_def)

lemma htab_mod_eq: "i < 30 \<Longrightarrow> htab_mod h i = h mod prime (prime_tab ! i)"
  by (simp add: htab_mod_def Let_def htab_mod_1_is_mod prime_tab_multipliers)

lemma htab_mod_m2_eq: "i < 30 \<Longrightarrow> htab_mod_m2 h i = 1 + h mod (prime (prime_tab ! i) - 2)"
  by (simp add: htab_mod_m2_def Let_def htab_mod_1_is_mod prime_tab_multipliers_m2)

lemma unat_htab_mod: "i < 30 \<Longrightarrow> unat (htab_mod h i) = unat h mod prime_at i"
  by (simp add: htab_mod_eq unat_mod)

lemma htab_mod_less: "i < 30 \<Longrightarrow> unat (htab_mod h i) < prime_at i"
  using prime_at_ge_7 [of i] by (simp add: unat_htab_mod)

lemma unat_htab_mod_m2:
  assumes "i < 30"
  shows "unat (htab_mod_m2 h i) = 1 + unat h mod (prime_at i - 2)"
proof -
  have p: "7 \<le> prime_at i" using assms by (rule prime_at_ge_7)
  then have m2: "unat (prime (prime_tab ! i) - 2) = prime_at i - 2"
    by (subst unat_sub) (simp_all add: word_le_nat_alt)
  have "unat h mod (prime_at i - 2) < prime_at i - 2" using p by simp
  then have "1 + unat h mod (prime_at i - 2) < 2 ^ 32"
    using unat_bound [of "prime (prime_tab ! i)"] by simp
  then show ?thesis
    by (simp add: htab_mod_m2_eq [OF assms] unat_word_ariths unat_mod m2)
qed

subsection \<open>Prime sizes\<close>

definition prime_size :: "nat \<Rightarrow> bool" where
  "prime_size p \<longleftrightarrow> 1 < p \<and> (\<forall>d. d dvd p \<longrightarrow> d = 1 \<or> d = p)"

lemma prime_size_coprime:
  assumes p: "prime_size p" and d: "0 < d" "d < p"
  shows "coprime d p"
proof -
  have "gcd d p = 1 \<or> gcd d p = p" using p by (simp add: prime_size_def)
  moreover have "gcd d p \<le> d" using d by (simp add: dvd_imp_le)
  ultimately have "gcd d p = 1" using d(2) by linarith
  then show ?thesis by (simp add: coprime_iff_gcd_eq_1)
qed

text \<open>
  Trial division. The least divisor of a composite number is at most its square root, and above 5 it is
  one of eight residues modulo 30.
\<close>

definition wheel :: "nat \<Rightarrow> nat list" where
  "wheel n = concat (map (\<lambda>k. map ((+) (30 * k)) [1, 7, 11, 13, 17, 19, 23, 29]) [0..<n])"

definition trial_division :: "nat \<Rightarrow> nat \<Rightarrow> bool" where
  "trial_division n p \<longleftrightarrow> list_all (\<lambda>d. p mod d \<noteq> 0) (2 # 3 # 5 # tl (wheel n))"

lemma wheel_mem:
  assumes "d < 30 * n" "d mod 2 \<noteq> 0" "d mod 3 \<noteq> 0" "d mod 5 \<noteq> 0"
  shows "d \<in> set (wheel n)"
proof -
  have "d mod 30 \<in> {..<30}" by simp
  moreover have "d mod 30 mod 2 \<noteq> 0" "d mod 30 mod 3 \<noteq> 0" "d mod 30 mod 5 \<noteq> 0"
    using assms(2-4) by (simp_all add: mod_mod_cancel)
  ultimately have "d mod 30 \<in> {1, 7, 11, 13, 17, 19, 23, 29}"
    by (auto simp: lessThan_nat_numeral lessThan_Suc)
  then have "d \<in> (+) (30 * (d div 30)) ` set [1, 7, 11, 13, 17, 19, 23, 29]"
    by (intro image_eqI [of _ _ "d mod 30"]) simp_all
  moreover have "d div 30 \<in> set [0..<n]"
    using assms(1) by (simp add: div_less_iff_less_mult mult.commute)
  ultimately have "d \<in> (\<Union>k \<in> set [0..<n]. (+) (30 * k) ` set [1, 7, 11, 13, 17, 19, 23, 29])"
    by (rule UN_I [rotated])
  then show ?thesis unfolding wheel_def by (simp only: set_concat set_map image_image)
qed

lemma trial_division_prime:
  assumes t: "trial_division n p" and p: "1 < p" "p < (30 * n) ^ 2"
  shows "prime_size p"
proof (rule ccontr)
  assume "\<not> prime_size p"
  then obtain e where e: "e dvd p" "e \<noteq> 1" "e \<noteq> p" using p(1) by (auto simp: prime_size_def)
  define d where "d = (LEAST d. d dvd p \<and> 1 < d)"
  have ex: "e dvd p \<and> 1 < e" using e p(1) by (cases e rule: nat.exhaust) (auto simp: dvd_0_left_iff)
  have d: "d dvd p" "1 < d" unfolding d_def using LeastI [of "\<lambda>d. d dvd p \<and> 1 < d", OF ex] by auto
  have least: "d \<le> c" if "c dvd p" "1 < c" for c
    unfolding d_def using that by (auto intro: Least_le)
  obtain c where c: "p = e * c" using e(1) by auto
  with e(3) p(1) ex have "1 < c" by (cases c rule: nat.exhaust) (auto simp: Suc_lessI)
  have "d * d \<le> e * c" using least [of e] least [of c] ex \<open>1 < c\<close> c by (auto intro: mult_le_mono)
  then have "d ^ 2 < (30 * n) ^ 2" using p(2) c by (simp add: power2_eq_square)
  then have small: "d < 30 * n" by (rule power_less_imp_less_base) simp
  have "p mod d = 0" using d(1) by simp
  with t have new: "d \<noteq> 2" "d \<noteq> 3" "d \<noteq> 5" "d \<notin> set (tl (wheel n))"
    by (auto simp: trial_division_def list_all_iff)
  have "\<not> q dvd d" if "1 < q" "q \<noteq> d" for q
  proof
    assume q: "q dvd d"
    then have "d \<le> q" using d(1) that(1) by (intro least) (rule dvd_trans)
    moreover have "q \<le> d" using q d(2) by (intro dvd_imp_le) simp_all
    ultimately show False using that(2) by simp
  qed
  with new have "d mod 2 \<noteq> 0" "d mod 3 \<noteq> 0" "d mod 5 \<noteq> 0"
    by (simp_all add: mod_eq_0_iff_dvd)
  with small have "d \<in> set (wheel n)" by (rule wheel_mem)
  moreover have "hd (wheel n) = 1" "wheel n \<noteq> []" using small
    by (simp_all add: wheel_def upt_rec)
  ultimately show False using new(4) d(2) by (cases "wheel n") auto
qed

lemma prime_size_7_13: "prime_size 7" "prime_size 13"
proof -
  have "prime_size p" if "1 < p" "list_all (\<lambda>d. p mod d \<noteq> 0) [2..<p]" for p
    unfolding prime_size_def
  proof (intro conjI allI impI)
    fix d assume d: "d dvd p"
    then have "d \<le> p" "d \<noteq> 0" using that(1) by (auto simp: dvd_imp_le intro: ccontr)
    moreover have "d \<notin> set [2..<p]"
    proof
      assume "d \<in> set [2..<p]"
      with that(2) have "p mod d \<noteq> 0" unfolding list_all_iff by (rule bspec)
      then show False using d by simp
    qed
    ultimately show "d = 1 \<or> d = p" by auto
  qed (rule that(1))
  then show "prime_size 7" "prime_size 13" by (simp_all add: upt_rec)
qed

lemma trial_division_8191:
  "list_all (\<lambda>(n, p). trial_division n p)
     [(1, 31), (1, 61), (1, 127), (1, 251), (1, 509), (2, 1021), (2, 2039), (3, 4093), (4, 8191)]"
  by (simp add: trial_division_def wheel_def upt_rec)

lemma trial_division_65521:
  "list_all (\<lambda>(n, p). trial_division n p) [(5, 16381), (7, 32749), (9, 65521)]"
  by (simp add: trial_division_def wheel_def upt_rec)

lemma trial_division_262139:
  "list_all (\<lambda>(n, p). trial_division n p) [(13, 131071), (18, 262139)]"
  by (simp add: trial_division_def wheel_def upt_rec)

lemma trial_division_524287: "trial_division 25 524287"
  by (simp add: trial_division_def wheel_def upt_rec)

lemma trial_division_primes:
  "list_all (\<lambda>(n, p). trial_division n p) xs \<Longrightarrow>
   list_all (\<lambda>(n, p). 1 < p \<and> p < (30 * n) ^ 2) xs \<Longrightarrow> list_all (\<lambda>(n, p). prime_size p) xs"
  by (auto simp: list_all_iff intro!: trial_division_prime)

lemma prime_tab_prime:
  assumes "i \<le> 16"
  shows "prime_size (prime_at i)"
proof -
  have "prime_size 524287"
    using trial_division_524287 by (rule trial_division_prime) simp_all
  then have "list_all (\<lambda>i. prime_size (prime_at i)) [0..<17]"
    using trial_division_8191 [THEN trial_division_primes]
      trial_division_65521 [THEN trial_division_primes]
      trial_division_262139 [THEN trial_division_primes]
    by (simp add: prime_tab_def upt_rec prime_size_7_13)
  then show ?thesis using assms by (simp add: list_all_iff)
qed

subsection \<open>Properties\<close>

text \<open>C14: For every entry of the table and every hash value, the primary hash is the remainder by the prime
  and the secondary hash one more than the remainder by the prime less two, although both are computed by a
  32-bit multiplication and shifts that may wrap around.\<close>

theorem htab_mod_is_remainder:
  assumes "i < 30"
  shows "htab_mod hash i = hash mod prime (prime_tab ! i) \<and>
    htab_mod_m2 hash i = 1 + hash mod (prime (prime_tab ! i) - 2)"
  using assms by (simp add: htab_mod_eq htab_mod_m2_eq)

theorem htab_mod_is_remainder_witness:
  "htab_mod 4294967295 29 = 4 \<and> htab_mod_m2 4294967295 29 = 7"
  using htab_mod_is_remainder [of 29 4294967295] by (simp add: prime_tab_def)

text \<open>The bisection gives the first prime of the table that is large enough, and never aborts; for a
  request above the last prime it reads behind the table.\<close>

theorem higher_prime_index_nearest:
  "higher_prime_index n =
    (if n \<le> prime_at 29 then Inr (LEAST i. n \<le> prime_at i) else Inl Out_of_bounds)"
proof (cases "higher_prime_index n")
  case (Inl e)
  then show ?thesis using higher_prime_index_cases [of n] by simp
next
  case (Inr i)
  then have i: "i < 30" "n \<le> prime_at i" "\<forall>j < i. prime_at j < n"
    using higher_prime_index_cases [of n] by simp_all
  have "(LEAST i. n \<le> prime_at i) = i"
    by (rule Least_equality) (use i in \<open>auto simp: not_less [symmetric]\<close>)
  moreover have "n \<le> prime_at 29" using i(1,2) prime_at_mono [of i 29] by simp
  ultimately show ?thesis using Inr by simp
qed

end
