(* ===== verification/Hash_Functions.thy ===== *)
theory Hash_Functions
  imports Hash_Primes
begin

text \<open>
  The functions that make objects the keys of a hash table: the ones of
  \<^verbatim>\<open>gdb-15.1/libiberty/hashtab.c\<close> for strings, pointers and blocks of bytes, and the ones of
  \<^verbatim>\<open>gdb-15.1/libiberty/filename_cmp.c\<close> for file names. The locale \<open>htab_keys\<close> holds what a table
  relies on: an equivalence, and equal hash values for equivalent objects.
\<close>

locale htab_keys =
  fixes hsh :: "'a \<Rightarrow> hashval_t"
    and equ :: "'a \<Rightarrow> 'a \<Rightarrow> bool"
  assumes eq_refl: "equ x x"
    and eq_sym: "equ x y \<Longrightarrow> equ y x"
    and eq_trans: "equ x y \<Longrightarrow> equ y z \<Longrightarrow> equ x z"
    and eq_hash: "equ x y \<Longrightarrow> hsh x = hsh y"
begin

lemma eq_commute: "equ x y \<longleftrightarrow> equ y x"
  by (auto intro: eq_sym)

lemma eq_trans_sym: "equ z x \<Longrightarrow> equ z y \<Longrightarrow> equ x y"
  by (blast intro: eq_trans eq_sym)

end

subsection \<open>Strings\<close>

text \<open>
  A C string is the list of its characters, which a zero or the end of the list ends.
\<close>

type_synonym cstring = "uint8 list"

fun hash_string_loop :: "hashval_t \<Rightarrow> cstring \<Rightarrow> hashval_t" where
  "hash_string_loop r [] = r"
| "hash_string_loop r (c # cs) =
    (if c = 0 then r else hash_string_loop (r * 67 + ucast c - 113) cs)"

definition htab_hash_string :: "cstring \<Rightarrow> hashval_t" where
  "htab_hash_string s = hash_string_loop 0 s"

text \<open>\<^verbatim>\<open>strcmp\<close> of the C library: the sign of the difference of the first characters that differ.\<close>

abbreviation char_at :: "cstring \<Rightarrow> uint8" where
  "char_at s \<equiv> (case s of [] \<Rightarrow> 0 | c # _ \<Rightarrow> c)"

fun strcmp :: "cstring \<Rightarrow> cstring \<Rightarrow> int" where
  "strcmp [] s2 = (if char_at s2 = 0 then 0 else -1)"
| "strcmp (c # cs) s2 =
    (if c \<noteq> char_at s2 then sgn (uint c - uint (char_at s2))
     else if c = 0 then 0
     else strcmp cs (tl s2))"

definition htab_eq_string :: "cstring \<Rightarrow> cstring \<Rightarrow> bool" where
  "htab_eq_string a b \<longleftrightarrow> strcmp a b = 0"

text \<open>The characters before the end of a string.\<close>

definition chars :: "cstring \<Rightarrow> uint8 list" where
  "chars = takeWhile (\<lambda>c. c \<noteq> 0)"

lemma strcmp_0: "strcmp a b = 0 \<longleftrightarrow> chars a = chars b"
  by (induction a b rule: strcmp.induct)
    (auto simp: chars_def sgn_0_0 word_uint_eq_iff [symmetric] split: list.splits)

lemma hash_string_loop_chars: "hash_string_loop r s = hash_string_loop r (chars s)"
  by (induction r s rule: hash_string_loop.induct) (auto simp: chars_def)

interpretation str: htab_keys htab_hash_string htab_eq_string
proof unfold_locales
  fix x y assume "htab_eq_string x y"
  then have "chars x = chars y" by (simp add: htab_eq_string_def strcmp_0)
  then show "htab_hash_string x = htab_hash_string y"
    unfolding htab_hash_string_def by (metis hash_string_loop_chars)
qed (simp_all add: htab_eq_string_def strcmp_0)

subsection \<open>File names\<close>

text \<open>
  The two flags are the macros \<^verbatim>\<open>HAVE_DOS_BASED_FILE_SYSTEM\<close> and \<^verbatim>\<open>HAVE_CASE_INSENSITIVE_FILE_SYSTEM\<close>.
\<close>

definition TOLOWER :: "uint8 \<Rightarrow> uint8" where
  "TOLOWER c = (if 65 \<le> c \<and> c \<le> 90 then c + 32 else c)"

text \<open>
  The value a character is compared by: \<^verbatim>\<open>char\<close> is signed, and \<^verbatim>\<open>TOLOWER\<close> gives an unsigned one.
\<close>

definition cmp_char :: "bool \<Rightarrow> bool \<Rightarrow> uint8 \<Rightarrow> int" where
  "cmp_char dos ci ch =
    (let c = sint ch;
         c = (if ci then uint (TOLOWER ch) else c)
     in if dos \<and> c = 47 then 92 else c)"

function filename_cmp_loop :: "bool \<Rightarrow> bool \<Rightarrow> cstring \<Rightarrow> cstring \<Rightarrow> int" where
  "filename_cmp_loop dos ci s1 s2 =
    (let c1 = cmp_char dos ci (char_at s1); c2 = cmp_char dos ci (char_at s2) in
     if c1 \<noteq> c2 then c1 - c2
     else if c1 = 0 then 0
     else filename_cmp_loop dos ci (tl s1) (tl s2))"
  by pat_completeness auto

lemma cmp_char_zero: "cmp_char dos ci 0 = 0"
  by (simp add: cmp_char_def TOLOWER_def)

termination filename_cmp_loop
  by (relation "measure (\<lambda>(dos, ci, s1, s2). length s1)")
    (auto simp: cmp_char_zero split: list.splits)

declare filename_cmp_loop.simps [simp del]

definition filename_cmp :: "bool \<Rightarrow> bool \<Rightarrow> cstring \<Rightarrow> cstring \<Rightarrow> int" where
  "filename_cmp dos ci s1 s2 =
    (if \<not> dos \<and> \<not> ci then strcmp s1 s2 else filename_cmp_loop dos ci s1 s2)"

fun filename_ncmp_loop :: "bool \<Rightarrow> bool \<Rightarrow> cstring \<Rightarrow> cstring \<Rightarrow> nat \<Rightarrow> int" where
  "filename_ncmp_loop dos ci s1 s2 0 = 0"
| "filename_ncmp_loop dos ci s1 s2 (Suc n) =
    (let c1 = cmp_char dos ci (char_at s1); c2 = cmp_char dos ci (char_at s2) in
     if c1 = 0 \<or> c1 \<noteq> c2 then c1 - c2
     else filename_ncmp_loop dos ci (tl s1) (tl s2) n)"

text \<open>\<^verbatim>\<open>strncmp\<close> of the C library.\<close>

fun strncmp :: "cstring \<Rightarrow> cstring \<Rightarrow> nat \<Rightarrow> int" where
  "strncmp s1 s2 0 = 0"
| "strncmp s1 s2 (Suc n) =
    (if char_at s1 \<noteq> char_at s2 then sgn (uint (char_at s1) - uint (char_at s2))
     else if char_at s1 = 0 then 0
     else strncmp (tl s1) (tl s2) n)"

definition filename_ncmp :: "bool \<Rightarrow> bool \<Rightarrow> cstring \<Rightarrow> cstring \<Rightarrow> nat \<Rightarrow> int" where
  "filename_ncmp dos ci s1 s2 n =
    (if \<not> dos \<and> \<not> ci then strncmp s1 s2 n
     else if n = 0 then 0
     else filename_ncmp_loop dos ci s1 s2 n)"

fun filename_hash_loop :: "hashval_t \<Rightarrow> cstring \<Rightarrow> hashval_t" where
  "filename_hash_loop r [] = r"
| "filename_hash_loop r (c # cs) =
    (if c = 0 then r
     else let c = (if c = 92 then 47 else c); c = TOLOWER c
       in filename_hash_loop (r * 67 + ucast c - 113) cs)"

definition filename_hash :: "cstring \<Rightarrow> hashval_t" where
  "filename_hash s = filename_hash_loop 0 s"

definition filename_eq :: "bool \<Rightarrow> bool \<Rightarrow> cstring \<Rightarrow> cstring \<Rightarrow> bool" where
  "filename_eq dos ci s1 s2 \<longleftrightarrow> filename_cmp dos ci s1 s2 = 0"

definition hash_char :: "uint8 \<Rightarrow> uint8" where
  "hash_char c = TOLOWER (if c = 92 then 47 else c)"

lemma TOLOWER_inj: "TOLOWER c = TOLOWER d \<Longrightarrow> c \<noteq> d \<Longrightarrow>
   (65 \<le> c \<and> c \<le> 90 \<and> d = c + 32) \<or> (65 \<le> d \<and> d \<le> 90 \<and> c = d + 32)"
  by (auto simp: TOLOWER_def split: if_splits)

lemma TOLOWER_simps [simp]: "TOLOWER 0 = 0" "TOLOWER c = 0 \<longleftrightarrow> c = 0" "TOLOWER c = 92 \<longleftrightarrow> c = 92"
  "TOLOWER c = 47 \<longleftrightarrow> c = 47" "92 = TOLOWER c \<longleftrightarrow> c = 92" "TOLOWER 92 = 92"
  by (auto simp: TOLOWER_def word_le_nat_alt word_unat_eq_iff unat_word_ariths)

lemma byte_consts:
  fixes c d :: uint8
  shows "uint c = uint d \<longleftrightarrow> c = d" "sint c = sint d \<longleftrightarrow> c = d"
    "uint c = 0 \<longleftrightarrow> c = 0" "sint c = 0 \<longleftrightarrow> c = 0"
    "uint c = 92 \<longleftrightarrow> c = 92" "sint c = 92 \<longleftrightarrow> c = 92"
    "uint c = 47 \<longleftrightarrow> c = 47" "sint c = 47 \<longleftrightarrow> c = 47"
    "92 = uint c \<longleftrightarrow> c = 92" "92 = sint c \<longleftrightarrow> c = 92"
proof -
  show u: "uint c = uint d \<longleftrightarrow> c = d" and s: "sint c = sint d \<longleftrightarrow> c = d" for c d :: uint8
    by (simp_all add: word_uint_eq_iff [symmetric] signed_word_eqI) (metis signed_word_eqI)
  show "uint c = 0 \<longleftrightarrow> c = 0" "uint c = 92 \<longleftrightarrow> c = 92" "uint c = 47 \<longleftrightarrow> c = 47" "92 = uint c \<longleftrightarrow> c = 92"
    using u [of c 0] u [of c 92] u [of c 47] by auto
  show "sint c = 0 \<longleftrightarrow> c = 0" "sint c = 92 \<longleftrightarrow> c = 92" "sint c = 47 \<longleftrightarrow> c = 47" "92 = sint c \<longleftrightarrow> c = 92"
    using s [of c 0] s [of c 92] s [of c 47] by auto
qed

lemma cmp_char_0 [simp]: "cmp_char dos ci c = 0 \<longleftrightarrow> c = 0"
  by (auto simp: cmp_char_def Let_def byte_consts)

lemma cmp_char_hash: "cmp_char dos ci c = cmp_char dos ci d \<Longrightarrow> hash_char c = hash_char d"
  by (auto simp: cmp_char_def hash_char_def Let_def byte_consts split: if_splits)

lemma filename_hash_loop_Cons: "filename_hash_loop r (c # cs) =
   (if c = 0 then r else filename_hash_loop (r * 67 + ucast (hash_char c) - 113) cs)"
  by (simp add: hash_char_def Let_def)

lemma filename_cmp_loop_0:
  "filename_cmp_loop dos ci a b = 0 \<longleftrightarrow>
   map (cmp_char dos ci) (chars a) = map (cmp_char dos ci) (chars b)"
proof (induction dos ci a b rule: filename_cmp_loop.induct)
  case (1 dos ci a b)
  then show ?case
    by (subst filename_cmp_loop.simps)
      (auto simp: Let_def chars_def cmp_char_zero split: list.splits)
qed

lemma filename_eq_iff:
  "filename_eq dos ci a b \<longleftrightarrow> map (cmp_char dos ci) (chars a) = map (cmp_char dos ci) (chars b)"
proof (cases "dos \<or> ci")
  case False
  have "map (cmp_char False False) xs = map (cmp_char False False) ys \<longleftrightarrow> xs = ys" for xs ys
    by (rule inj_map_eq_map) (auto simp: inj_def cmp_char_def byte_consts)
  with False show ?thesis by (simp add: filename_eq_def filename_cmp_def strcmp_0)
qed (auto simp: filename_eq_def filename_cmp_def filename_cmp_loop_0)

text \<open>The comparison of \<open>n\<close> characters is that of the first \<open>n\<close> characters of both names.\<close>

lemma strncmp_0: "strncmp a b n = 0 \<longleftrightarrow> take n (chars a) = take n (chars b)"
  by (induction a b n rule: strncmp.induct)
    (auto simp: chars_def sgn_0_0 word_uint_eq_iff [symmetric] split: list.splits)

lemma filename_ncmp_loop_0:
  "filename_ncmp_loop dos ci a b n = 0 \<longleftrightarrow>
   map (cmp_char dos ci) (take n (chars a)) = map (cmp_char dos ci) (take n (chars b))"
  by (induction dos ci a b n rule: filename_ncmp_loop.induct)
    (auto simp: Let_def chars_def cmp_char_zero split: list.splits)

lemma filename_ncmp_eq:
  "filename_ncmp dos ci a b n = 0 \<longleftrightarrow> filename_eq dos ci (take n (chars a)) (take n (chars b))"
proof -
  have c: "chars (take n (chars s)) = take n (chars s)" for s
    unfolding chars_def takeWhile_eq_all_conv by (auto dest!: in_set_takeD set_takeWhileD)
  have "map (cmp_char False False) xs = map (cmp_char False False) ys \<longleftrightarrow> xs = ys" for xs ys
    by (rule inj_map_eq_map) (auto simp: inj_def cmp_char_def byte_consts)
  then show ?thesis
    by (cases "dos \<or> ci")
      (auto simp: filename_ncmp_def filename_eq_iff c strncmp_0 filename_ncmp_loop_0)
qed

lemma filename_hash_loop_eq:
  "map (cmp_char dos ci) (chars a) = map (cmp_char dos ci) (chars b) \<Longrightarrow>
   filename_hash_loop r a = filename_hash_loop r b"
proof (induction r a arbitrary: b rule: filename_hash_loop.induct)
  case (1 r)
  then show ?case by (cases b) (auto simp: chars_def)
next
  case (2 r c cs)
  show ?case
  proof (cases "c = 0")
    case True
    with 2(2) show ?thesis by (cases b) (auto simp: chars_def split: if_splits)
  next
    case False
    with 2(2) obtain d ds where b: "b = d # ds" "d \<noteq> 0" "cmp_char dos ci c = cmp_char dos ci d"
      "map (cmp_char dos ci) (chars cs) = map (cmp_char dos ci) (chars ds)"
      by (cases b) (auto simp: chars_def split: if_splits)
    from b(3) have "hash_char c = hash_char d" by (rule cmp_char_hash)
    then have "filename_hash_loop r (d # ds) = filename_hash_loop (r * 67 + ucast (hash_char c) - 113) ds"
      using b(2) by (simp only: filename_hash_loop_Cons if_False)
    also have "\<dots> = filename_hash_loop (r * 67 + ucast (hash_char c) - 113) cs"
      unfolding hash_char_def by (rule 2(1) [symmetric, OF False refl refl]) (rule b(4))
    finally show ?thesis using False b(1) by (simp only: filename_hash_loop_Cons if_False)
  qed
qed

interpretation filename: htab_keys filename_hash "filename_eq dos ci" for dos ci
proof unfold_locales
  fix x y assume "filename_eq dos ci x y"
  then show "filename_hash x = filename_hash y"
    unfolding filename_hash_def filename_eq_iff by (rule filename_hash_loop_eq)
qed (simp_all add: filename_eq_iff)

text \<open>\<open>lrealpath\<close> gives the name in its canonical form; it asks the file system.\<close>

definition canonical_filename_eq ::
    "(cstring \<Rightarrow> cstring) \<Rightarrow> bool \<Rightarrow> bool \<Rightarrow> cstring \<Rightarrow> cstring \<Rightarrow> bool" where
  "canonical_filename_eq lrealpath dos ci a b = filename_eq dos ci (lrealpath a) (lrealpath b)"

subsection \<open>Mixing three words\<close>

definition mix :: "uint32 \<Rightarrow> uint32 \<Rightarrow> uint32 \<Rightarrow> uint32 \<times> uint32 \<times> uint32" where
  "mix a b c =
    (let a = a - b; a = a - c; a = a XOR drop_bit 13 c;
         b = b - c; b = b - a; b = b XOR push_bit 8 a;
         c = c - a; c = c - b; c = c XOR drop_bit 13 (b AND 0xffffffff);
         a = a - b; a = a - c; a = a XOR drop_bit 12 (c AND 0xffffffff);
         b = b - c; b = b - a; b = (b XOR push_bit 16 a) AND 0xffffffff;
         c = c - a; c = c - b; c = (c XOR drop_bit 5 b) AND 0xffffffff;
         a = a - b; a = a - c; a = (a XOR drop_bit 3 c) AND 0xffffffff;
         b = b - c; b = b - a; b = (b XOR push_bit 10 a) AND 0xffffffff;
         c = c - a; c = c - b; c = (c XOR drop_bit 15 b) AND 0xffffffff
     in (a, b, c))"

definition unmix :: "uint32 \<Rightarrow> uint32 \<Rightarrow> uint32 \<Rightarrow> uint32 \<times> uint32 \<times> uint32" where
  "unmix a b c =
    (let c = (c XOR drop_bit 15 b) + b + a;
         b = (b XOR push_bit 10 a) + a + c;
         a = (a XOR drop_bit 3 c) + c + b;
         c = (c XOR drop_bit 5 b) + b + a;
         b = (b XOR push_bit 16 a) + a + c;
         a = (a XOR drop_bit 12 c) + c + b;
         c = (c XOR drop_bit 13 b) + b + a;
         b = (b XOR push_bit 8 a) + a + c;
         a = (a XOR drop_bit 13 c) + c + b
     in (a, b, c))"

lemma xor_shift_cancel: "((x XOR s) XOR s) = (x :: uint32)"
  by (simp add: xor.assoc)

lemma and_all [simp]: "x AND 0xffffffff = (x :: uint32)"
proof -
  have "(0xffffffff :: uint32) = - 1" by simp
  then show ?thesis by (simp only: and.right_neutral)
qed

lemma unmix_mix: "(case mix a b c of (a', b', c') \<Rightarrow> unmix a' b' c') = (a, b, c)"
proof -
  define a1 where "a1 = (a - b - c) XOR drop_bit 13 c"
  define b1 where "b1 = (b - c - a1) XOR push_bit 8 a1"
  define c1 where "c1 = (c - a1 - b1) XOR drop_bit 13 b1"
  define a2 where "a2 = (a1 - b1 - c1) XOR drop_bit 12 c1"
  define b2 where "b2 = (b1 - c1 - a2) XOR push_bit 16 a2"
  define c2 where "c2 = (c1 - a2 - b2) XOR drop_bit 5 b2"
  define a3 where "a3 = (a2 - b2 - c2) XOR drop_bit 3 c2"
  define b3 where "b3 = (b2 - c2 - a3) XOR push_bit 10 a3"
  define c3 where "c3 = (c2 - a3 - b3) XOR drop_bit 15 b3"
  note steps = a1_def b1_def c1_def a2_def b2_def c2_def a3_def b3_def c3_def
  have "mix a b c = (a3, b3, c3)"
    by (simp only: mix_def Let_def and_all steps [symmetric])
  have s: "c3 XOR drop_bit 15 b3 = c2 - a3 - b3" "b3 XOR push_bit 10 a3 = b2 - c2 - a3"
    "a3 XOR drop_bit 3 c2 = a2 - b2 - c2" "c2 XOR drop_bit 5 b2 = c1 - a2 - b2"
    "b2 XOR push_bit 16 a2 = b1 - c1 - a2" "a2 XOR drop_bit 12 c1 = a1 - b1 - c1"
    "c1 XOR drop_bit 13 b1 = c - a1 - b1" "b1 XOR push_bit 8 a1 = b - c - a1"
    "a1 XOR drop_bit 13 c = a - b - c"
    by (simp_all only: steps xor_shift_cancel)
  have "unmix a3 b3 c3 = (a, b, c)"
    by (simp add: unmix_def Let_def s)
  with \<open>mix a b c = (a3, b3, c3)\<close> show ?thesis by simp
qed

subsection \<open>Pointers\<close>

text \<open>The shift of the signed \<^verbatim>\<open>intptr_t\<close> copies its sign.\<close>

definition hash_pointer :: "uint64 \<Rightarrow> hashval_t" where
  "hash_pointer v =
    (let a = 0x9e3779b9; b = 0x9e3779b9;
         a = a + ucast (signed_drop_bit 32 v);
         b = b + ucast (v AND (push_bit 32 1 - 1));
         c = 0x42135234;
         (a, b, c) = mix a b c
     in c)"

definition eq_pointer :: "uint64 \<Rightarrow> uint64 \<Rightarrow> bool" where
  "eq_pointer p1 p2 \<longleftrightarrow> p1 = p2"

interpretation pointer: htab_keys hash_pointer eq_pointer
  by unfold_locales (auto simp: eq_pointer_def)

subsection \<open>Blocks of bytes\<close>

text \<open>
  The word at an offset of the key, read at once from an aligned address by a little-endian host, and
  put together from its bytes.
\<close>

definition load_aligned :: "uint8 list \<Rightarrow> nat \<Rightarrow> hashval_t" where
  "load_aligned k i = word_rcat (rev (take 4 (drop i k)))"

definition load_bytes :: "uint8 list \<Rightarrow> nat \<Rightarrow> hashval_t" where
  "load_bytes k i =
    ucast (k ! i) + push_bit 8 (ucast (k ! (i + 1))) + push_bit 16 (ucast (k ! (i + 2)))
      + push_bit 24 (ucast (k ! (i + 3)))"

fun hash_blocks :: "(uint8 list \<Rightarrow> nat \<Rightarrow> hashval_t) \<Rightarrow> uint8 list \<Rightarrow> nat \<Rightarrow> hashval_t \<Rightarrow> hashval_t \<Rightarrow>
    hashval_t \<Rightarrow> uint8 list \<times> nat \<times> hashval_t \<times> hashval_t \<times> hashval_t" where
  "hash_blocks load k len a b c =
    (if len \<ge> 12 then
       let a = a + load k 0; b = b + load k 4; c = c + load k 8;
           (a, b, c) = mix a b c
       in hash_blocks load (drop 12 k) (len - 12) a b c
     else (k, len, a, b, c))"

declare hash_blocks.simps [simp del]

text \<open>The last bytes: the cases of the switch fall through, so each applies to all greater lengths.\<close>

definition hash_last_bytes :: "uint8 list \<Rightarrow> nat \<Rightarrow> hashval_t \<Rightarrow> hashval_t \<Rightarrow> hashval_t \<Rightarrow>
    hashval_t \<times> hashval_t \<times> hashval_t" where
  "hash_last_bytes k len a b c =
    (let c = (if len \<ge> 11 then c + push_bit 24 (ucast (k ! 10)) else c);
         c = (if len \<ge> 10 then c + push_bit 16 (ucast (k ! 9)) else c);
         c = (if len \<ge> 9 then c + push_bit 8 (ucast (k ! 8)) else c);
         b = (if len \<ge> 8 then b + push_bit 24 (ucast (k ! 7)) else b);
         b = (if len \<ge> 7 then b + push_bit 16 (ucast (k ! 6)) else b);
         b = (if len \<ge> 6 then b + push_bit 8 (ucast (k ! 5)) else b);
         b = (if len \<ge> 5 then b + ucast (k ! 4) else b);
         a = (if len \<ge> 4 then a + push_bit 24 (ucast (k ! 3)) else a);
         a = (if len \<ge> 3 then a + push_bit 16 (ucast (k ! 2)) else a);
         a = (if len \<ge> 2 then a + push_bit 8 (ucast (k ! 1)) else a);
         a = (if len \<ge> 1 then a + ucast (k ! 0) else a)
     in (a, b, c))"

text \<open>The length is kept in a variable of type \<^verbatim>\<open>hashval_t\<close>, so that of a longer key a part is hashed.\<close>

definition iterative_hash :: "bool \<Rightarrow> bool \<Rightarrow> uint8 list \<Rightarrow> hashval_t \<Rightarrow> hashval_t" where
  "iterative_hash words_bigendian aligned k initval =
    (let len = length k mod 2 ^ 32;
         a = 0x9e3779b9; b = 0x9e3779b9; c = initval;
         load = (if \<not> words_bigendian \<and> aligned then load_aligned else load_bytes);
         (k', len, a, b, c) = hash_blocks load k len a b c;
         c = c + of_nat (length k);
         (a, b, c) = hash_last_bytes k' len a b c;
         (a, b, c) = mix a b c
     in c)"

lemma load_aligned_bytes:
  assumes "i + 4 \<le> length k"
  shows "load_aligned k i = load_bytes k i"
proof -
  have "take 4 (drop i k) = [k ! i, k ! (i + 1), k ! (i + 2), k ! (i + 3)]"
    using assms by (intro nth_equalityI) (auto simp: nth_Cons numeral_eq_Suc less_Suc_eq split: nat.splits)
  then have "load_aligned k i = word_rcat [k ! (i + 3), k ! (i + 2), k ! (i + 1), k ! i]"
    by (simp add: load_aligned_def)
  also have "\<dots> = load_bytes k i"
    by (simp add: load_bytes_def word_rcat_def push_bit_eq_mult algebra_simps)
  finally show ?thesis .
qed

lemma hash_blocks_load:
  "len \<le> length k \<Longrightarrow> (\<And>k i. i + 4 \<le> length k \<Longrightarrow> load k i = load' k i) \<Longrightarrow>
   hash_blocks load k len a b c = hash_blocks load' k len a b c"
proof (induction load k len a b c rule: hash_blocks.induct)
  case (1 load k len a b c)
  show ?case
  proof (cases "len \<ge> 12")
    case True
    then have l: "load k 0 = load' k 0" "load k 4 = load' k 4" "load k 8 = load' k 8"
      using 1(2,3) by auto
    have "hash_blocks load (drop 12 k) (len - 12) a' b' c' = hash_blocks load' (drop 12 k) (len - 12) a' b' c'"
      if "mix (a + load k 0) (b + load k 4) (c + load k 8) = (a', b', c')" for a' b' c'
      using True 1(2,3) that by (intro 1(1)) auto
    with True l show ?thesis
      by (simp add: hash_blocks.simps [of _ k len] Let_def split: prod.split)
  qed (simp add: hash_blocks.simps)
qed

lemma iterative_hash_alignment: "iterative_hash be al k v = iterative_hash be al' k v"
proof -
  have "hash_blocks load_aligned k (length k mod 2 ^ 32) a b c =
      hash_blocks load_bytes k (length k mod 2 ^ 32) a b c" for a b c
    by (rule hash_blocks_load) (auto intro: load_aligned_bytes)
  then show ?thesis by (simp add: iterative_hash_def Let_def)
qed

subsection \<open>Properties\<close>

text \<open>File names that compare equal have the same hash value, whatever the conventions of the file
  system about slashes and the case of letters, and the comparison is an equivalence: a hash table can
  rely on the two functions.\<close>

theorem filename_hash_respects_eq:
  "equivp (filename_eq dos ci) \<and> (\<forall>a b. filename_eq dos ci a b \<longrightarrow> filename_hash a = filename_hash b)"
proof (intro conjI allI impI)
  show "equivp (filename_eq dos ci)"
    by (rule equivpI) (auto simp: filename_eq_iff reflp_def symp_def transp_def)
qed (rule filename.eq_hash)

theorem filename_hash_respects_eq_witness:
  "filename_eq True True [97, 47, 66] [65, 92, 98] \<and>
   filename_hash [97, 47, 66] = filename_hash [65, 92, 98]"
proof -
  have "filename_eq True True [97, 47, 66] [65, 92, 98]"
    by (simp add: filename_eq_iff chars_def cmp_char_def TOLOWER_def)
  then show ?thesis using filename_hash_respects_eq [of True True] by blast
qed

end
