(* ===== verification/Hash_Table.thy ===== *)
theory Hash_Table
  imports Hash_Functions
begin

text \<open>
  The hash tables of libiberty (\<^verbatim>\<open>gdb-15.1/libiberty/hashtab.c\<close>): open addressing with a second hash,
  deleted entries that stay until the table is rebuilt, and a size that follows the number of elements.
  For the keys of \<open>htab_keys\<close> the operations are proved to return, to keep the invariant of the table
  and to be the operations of a finite set of keys.
\<close>

subsection \<open>The table\<close>

text \<open>
  \<open>HTAB_EMPTY_ENTRY\<close> and \<open>HTAB_DELETED_ENTRY\<close> are the pointers 0 and 1. The table holds its functions:
  whether there is a \<^verbatim>\<open>del_f\<close> to call for an element that goes away, and whether \<^verbatim>\<open>alloc_f\<close> provides an
  array of a number of slots. Operations that call \<^verbatim>\<open>del_f\<close> return the elements they call it with.
\<close>

datatype 'a entry = Empty | Deleted | Live 'a

record 'a htab =
  hash_f :: "'a \<Rightarrow> hashval_t"
  eq_f :: "'a \<Rightarrow> 'a \<Rightarrow> bool"
  del_f :: bool
  alloc_f :: "nat \<Rightarrow> bool"
  entries :: "'a entry list"
  hsize :: nat
  n_elements :: nat
  n_deleted :: nat
  searches :: uint32
  collisions :: uint32
  size_prime_index :: nat

datatype insert_option = NO_INSERT | INSERT

text \<open>The result of an operation that probes: \<open>None\<close> when the probing does not end.\<close>

type_synonym 'a run = "(htab_error + 'a) option"

abbreviation returns :: "'a \<Rightarrow> 'a run" where
  "returns x \<equiv> Some (Inr x)"

definition after_run :: "'a run \<Rightarrow> ('a \<Rightarrow> 'b run) \<Rightarrow> 'b run" where
  "after_run r f = (case r of None \<Rightarrow> None | Some (Inl e) \<Rightarrow> Some (Inl e) | Some (Inr x) \<Rightarrow> f x)"

lemma after_run_simps [simp]:
  "after_run (returns x) f = f x"
  "after_run (Some (Inl e)) f = Some (Inl e)"
  "after_run None f = None"
  by (simp_all add: after_run_def)

definition htab_elements :: "'a htab \<Rightarrow> nat" where
  "htab_elements h = n_elements h - n_deleted h"

definition htab_create_typed_alloc ::
    "nat \<Rightarrow> ('a \<Rightarrow> hashval_t) \<Rightarrow> ('a \<Rightarrow> 'a \<Rightarrow> bool) \<Rightarrow> bool \<Rightarrow> bool \<Rightarrow> (nat \<Rightarrow> bool) \<Rightarrow>
     htab_error + 'a htab option" where
  "htab_create_typed_alloc sz hf ef df alloc_tab alloc =
    (case higher_prime_index sz of
       Inl e \<Rightarrow> Inl e
     | Inr i \<Rightarrow>
       (let sz = prime_at i in
        if \<not> alloc_tab then Inr None
        else if \<not> alloc sz then Inr None
        else Inr (Some \<lparr>hash_f = hf, eq_f = ef, del_f = df, alloc_f = alloc,
          entries = replicate sz Empty, hsize = sz, n_elements = 0, n_deleted = 0,
          searches = 0, collisions = 0, size_prime_index = i\<rparr>)))"

definition htab_create_alloc_ex ::
    "nat \<Rightarrow> ('a \<Rightarrow> hashval_t) \<Rightarrow> ('a \<Rightarrow> 'a \<Rightarrow> bool) \<Rightarrow> bool \<Rightarrow> bool \<Rightarrow> (nat \<Rightarrow> bool) \<Rightarrow>
     htab_error + 'a htab option" where
  "htab_create_alloc_ex sz hf ef df alloc_tab alloc =
    (case higher_prime_index sz of
       Inl e \<Rightarrow> Inl e
     | Inr i \<Rightarrow>
       (let sz = prime_at i in
        if \<not> alloc_tab then Inr None
        else if \<not> alloc sz then Inr None
        else Inr (Some \<lparr>hash_f = hf, eq_f = ef, del_f = df, alloc_f = alloc,
          entries = replicate sz Empty, hsize = sz, n_elements = 0, n_deleted = 0,
          searches = 0, collisions = 0, size_prime_index = i\<rparr>)))"

definition htab_create_alloc ::
    "nat \<Rightarrow> ('a \<Rightarrow> hashval_t) \<Rightarrow> ('a \<Rightarrow> 'a \<Rightarrow> bool) \<Rightarrow> bool \<Rightarrow> bool \<Rightarrow> (nat \<Rightarrow> bool) \<Rightarrow>
     htab_error + 'a htab option" where
  "htab_create_alloc sz hf ef df alloc_tab alloc = htab_create_typed_alloc sz hf ef df alloc_tab alloc"

text \<open>\<^verbatim>\<open>xcalloc\<close> does not return without memory, \<^verbatim>\<open>calloc\<close> may.\<close>

definition htab_create ::
    "nat \<Rightarrow> ('a \<Rightarrow> hashval_t) \<Rightarrow> ('a \<Rightarrow> 'a \<Rightarrow> bool) \<Rightarrow> bool \<Rightarrow> htab_error + 'a htab option" where
  "htab_create sz hf ef df = htab_create_alloc sz hf ef df True (\<lambda>_. True)"

definition htab_try_create ::
    "bool \<Rightarrow> (nat \<Rightarrow> bool) \<Rightarrow> nat \<Rightarrow> ('a \<Rightarrow> hashval_t) \<Rightarrow> ('a \<Rightarrow> 'a \<Rightarrow> bool) \<Rightarrow> bool \<Rightarrow>
     htab_error + 'a htab option" where
  "htab_try_create calloc_tab calloc sz hf ef df = htab_create_alloc sz hf ef df calloc_tab calloc"

definition htab_set_functions_ex ::
    "'a htab \<Rightarrow> ('a \<Rightarrow> hashval_t) \<Rightarrow> ('a \<Rightarrow> 'a \<Rightarrow> bool) \<Rightarrow> bool \<Rightarrow> (nat \<Rightarrow> bool) \<Rightarrow> 'a htab" where
  "htab_set_functions_ex h hf ef df alloc = h\<lparr>hash_f := hf, eq_f := ef, del_f := df, alloc_f := alloc\<rparr>"

text \<open>The elements, in the order of the slots.\<close>

fun lives :: "'a entry list \<Rightarrow> 'a list" where
  "lives [] = []"
| "lives (Live x # es) = x # lives es"
| "lives (Empty # es) = lives es"
| "lives (Deleted # es) = lives es"

text \<open>
  The calls of \<^verbatim>\<open>del_f\<close> when all elements go: from the last slot to the first, counted in an \<^verbatim>\<open>int\<close>.
\<close>

definition deletions :: "'a htab \<Rightarrow> 'a list" where
  "deletions h = (if del_f h \<and> hsize h - 1 < 2 ^ 31 then rev (lives (entries h)) else [])"

definition htab_delete :: "'a htab \<Rightarrow> 'a list" where
  "htab_delete h = deletions h"

text \<open>Pointers have 8 bytes. A large table is replaced by a small one; when there is no memory for it, it has no entries.\<close>

definition htab_empty :: "'a htab \<Rightarrow> htab_error + 'a htab \<times> 'a list" where
  "htab_empty h =
    (if hsize h > 1024 * 1024 div 8 then
       case higher_prime_index (1024 div 8) of
         Inl e \<Rightarrow> Inl e
       | Inr i \<Rightarrow>
         (let nsize = prime_at i in
          Inr (h\<lparr>entries := (if alloc_f h nsize then replicate nsize Empty else []), hsize := nsize,
                 size_prime_index := i, n_deleted := 0, n_elements := 0\<rparr>, deletions h))
     else Inr (h\<lparr>entries := replicate (hsize h) Empty, n_deleted := 0, n_elements := 0\<rparr>, deletions h))"

subsection \<open>Probing\<close>

definition next_index :: "nat \<Rightarrow> hashval_t \<Rightarrow> hashval_t \<Rightarrow> hashval_t" where
  "next_index sz index hash2 =
    (let index = index + hash2 in if unat index \<ge> sz then index - of_nat sz else index)"

partial_function (option) find_empty_loop ::
    "'a entry list \<Rightarrow> nat \<Rightarrow> hashval_t \<Rightarrow> hashval_t \<Rightarrow> (htab_error + nat) option" where
  "find_empty_loop es sz index hash2 =
    (let index = next_index sz index hash2 in
     if unat index \<ge> length es then Some (Inl Out_of_bounds)
     else case es ! unat index of
       Empty \<Rightarrow> returns (unat index)
     | Deleted \<Rightarrow> Some (Inl Abort)
     | Live y \<Rightarrow> find_empty_loop es sz index hash2)"

definition find_empty_slot_for_expand :: "'a htab \<Rightarrow> hashval_t \<Rightarrow> nat run" where
  "find_empty_slot_for_expand h hash =
    (let index = htab_mod hash (size_prime_index h) in
     if unat index \<ge> length (entries h) then Some (Inl Out_of_bounds)
     else case entries h ! unat index of
       Empty \<Rightarrow> returns (unat index)
     | Deleted \<Rightarrow> Some (Inl Abort)
     | Live y \<Rightarrow>
         find_empty_loop (entries h) (hsize h) index (htab_mod_m2 hash (size_prime_index h)))"

fun expand_entries :: "'a htab \<Rightarrow> 'a entry list \<Rightarrow> 'a htab run" where
  "expand_entries h [] = returns h"
| "expand_entries h (Live x # es) =
    after_run (find_empty_slot_for_expand h (hash_f h x))
      (\<lambda>q. expand_entries (h\<lparr>entries := (entries h)[q := Live x]\<rparr>) es)"
| "expand_entries h (_ # es) = expand_entries h es"

definition htab_expand :: "'a htab \<Rightarrow> ('a htab \<times> bool) run" where
  "htab_expand h =
    (let osize = hsize h; elts = htab_elements h in
     case (if elts * 2 > osize \<or> (elts * 8 < osize \<and> osize > 32) then higher_prime_index (elts * 2)
           else Inr (size_prime_index h)) of
       Inl e \<Rightarrow> Some (Inl e)
     | Inr nindex \<Rightarrow>
       (let nsize = (if elts * 2 > osize \<or> (elts * 8 < osize \<and> osize > 32) then prime_at nindex
                     else osize) in
        if \<not> alloc_f h nsize then returns (h, False)
        else after_run
          (expand_entries
             (h\<lparr>entries := replicate nsize Empty, hsize := nsize, size_prime_index := nindex,
                n_elements := n_elements h - n_deleted h, n_deleted := 0\<rparr>) (entries h))
          (\<lambda>h. returns (h, True))))"

partial_function (option) find_loop ::
    "'a entry list \<Rightarrow> nat \<Rightarrow> ('a \<Rightarrow> bool) \<Rightarrow> hashval_t \<Rightarrow> hashval_t \<Rightarrow> uint32 \<Rightarrow>
     (htab_error + 'a option \<times> uint32) option" where
  "find_loop es sz matches index hash2 coll =
    (let coll = coll + 1; index = next_index sz index hash2 in
     if unat index \<ge> length es then Some (Inl Out_of_bounds)
     else case es ! unat index of
       Empty \<Rightarrow> returns (None, coll)
     | Deleted \<Rightarrow> find_loop es sz matches index hash2 coll
     | Live y \<Rightarrow> if matches y then returns (Some y, coll)
                 else find_loop es sz matches index hash2 coll)"

definition htab_find_with_hash :: "'a htab \<Rightarrow> 'a \<Rightarrow> hashval_t \<Rightarrow> ('a htab \<times> 'a option) run" where
  "htab_find_with_hash h element hash =
    (let h = h\<lparr>searches := searches h + 1\<rparr>;
         index = htab_mod hash (size_prime_index h);
         matches = (\<lambda>y. eq_f h y element);
         go = after_run
           (find_loop (entries h) (hsize h) matches index (htab_mod_m2 hash (size_prime_index h))
              (collisions h))
           (\<lambda>(r, coll). returns (h\<lparr>collisions := coll\<rparr>, r))
     in if unat index \<ge> length (entries h) then Some (Inl Out_of_bounds)
        else case entries h ! unat index of
          Empty \<Rightarrow> returns (h, None)
        | Deleted \<Rightarrow> go
        | Live y \<Rightarrow> if matches y then returns (h, Some y) else go)"

definition htab_find :: "'a htab \<Rightarrow> 'a \<Rightarrow> ('a htab \<times> 'a option) run" where
  "htab_find h element = htab_find_with_hash h element (hash_f h element)"

text \<open>
  The loop of the search for a slot keeps the first deleted slot, and ends at an empty entry
  (\<open>False\<close>) or at the element (\<open>True\<close>).
\<close>

partial_function (option) find_slot_loop ::
    "'a entry list \<Rightarrow> nat \<Rightarrow> ('a \<Rightarrow> bool) \<Rightarrow> nat option \<Rightarrow> hashval_t \<Rightarrow> hashval_t \<Rightarrow> uint32 \<Rightarrow>
     (htab_error + bool \<times> nat \<times> nat option \<times> uint32) option" where
  "find_slot_loop es sz matches first_deleted index hash2 coll =
    (let coll = coll + 1; index = next_index sz index hash2 in
     if unat index \<ge> length es then Some (Inl Out_of_bounds)
     else case es ! unat index of
       Empty \<Rightarrow> returns (False, unat index, first_deleted, coll)
     | Deleted \<Rightarrow>
         find_slot_loop es sz matches
           (if first_deleted = None then Some (unat index) else first_deleted) index hash2 coll
     | Live y \<Rightarrow> if matches y then returns (True, unat index, first_deleted, coll)
                 else find_slot_loop es sz matches first_deleted index hash2 coll)"

definition find_slot_search :: "'a htab \<Rightarrow> 'a \<Rightarrow> hashval_t \<Rightarrow>
    (htab_error + bool \<times> nat \<times> nat option \<times> uint32) option" where
  "find_slot_search h element hash =
    (let index = htab_mod hash (size_prime_index h);
         matches = (\<lambda>y. eq_f h y element);
         go = (\<lambda>first_deleted. find_slot_loop (entries h) (hsize h) matches first_deleted index
                 (htab_mod_m2 hash (size_prime_index h)) (collisions h))
     in if unat index \<ge> length (entries h) then Some (Inl Out_of_bounds)
        else case entries h ! unat index of
          Empty \<Rightarrow> returns (False, unat index, None, collisions h)
        | Deleted \<Rightarrow> go (Some (unat index))
        | Live y \<Rightarrow> if matches y then returns (True, unat index, None, collisions h) else go None)"

text \<open>The label \<^verbatim>\<open>empty_entry\<close>.\<close>

definition empty_entry :: "'a htab \<Rightarrow> nat \<Rightarrow> nat option \<Rightarrow> insert_option \<Rightarrow> 'a htab \<times> nat option" where
  "empty_entry h index first_deleted ins =
    (if ins = NO_INSERT then (h, None)
     else case first_deleted of
       Some fd \<Rightarrow>
         (h\<lparr>n_deleted := n_deleted h - 1, entries := (entries h)[fd := Empty]\<rparr>, Some fd)
     | None \<Rightarrow> (h\<lparr>n_elements := n_elements h + 1\<rparr>, Some index))"

definition htab_find_slot_with_hash ::
    "'a htab \<Rightarrow> 'a \<Rightarrow> hashval_t \<Rightarrow> insert_option \<Rightarrow> ('a htab \<times> nat option) run" where
  "htab_find_slot_with_hash h element hash ins =
    after_run
      (if ins = INSERT \<and> hsize h * 3 \<le> n_elements h * 4 then htab_expand h else returns (h, True))
      (\<lambda>(h, ok).
        if \<not> ok then returns (h, None)
        else
          let h = h\<lparr>searches := searches h + 1\<rparr> in
          after_run (find_slot_search h element hash)
            (\<lambda>(found, index, first_deleted, coll).
              let h = h\<lparr>collisions := coll\<rparr> in
              if found then returns (h, Some index)
              else returns (empty_entry h index first_deleted ins)))"

definition htab_find_slot :: "'a htab \<Rightarrow> 'a \<Rightarrow> insert_option \<Rightarrow> ('a htab \<times> nat option) run" where
  "htab_find_slot h element ins = htab_find_slot_with_hash h element (hash_f h element) ins"

subsection \<open>Removal and traversal\<close>

text \<open>The element of a slot is deleted: \<^verbatim>\<open>del_f\<close>, the mark in the slot, and the count.\<close>

definition delete_slot :: "'a htab \<Rightarrow> nat \<Rightarrow> 'a htab \<times> 'a list" where
  "delete_slot h slot =
    (h\<lparr>entries := (entries h)[slot := Deleted], n_deleted := n_deleted h + 1\<rparr>,
     if del_f h then lives [entries h ! slot] else [])"

definition htab_remove_elt_with_hash :: "'a htab \<Rightarrow> 'a \<Rightarrow> hashval_t \<Rightarrow> ('a htab \<times> 'a list) run" where
  "htab_remove_elt_with_hash h element hash =
    after_run (htab_find_slot_with_hash h element hash NO_INSERT)
      (\<lambda>(h, slot). case slot of None \<Rightarrow> returns (h, []) | Some s \<Rightarrow> returns (delete_slot h s))"

definition htab_remove_elt :: "'a htab \<Rightarrow> 'a \<Rightarrow> ('a htab \<times> 'a list) run" where
  "htab_remove_elt h element = htab_remove_elt_with_hash h element (hash_f h element)"

definition htab_clear_slot :: "'a htab \<Rightarrow> nat \<Rightarrow> htab_error + 'a htab \<times> 'a list" where
  "htab_clear_slot h slot =
    (if slot \<ge> hsize h \<or> entries h ! slot = Empty \<or> entries h ! slot = Deleted then Inl Abort
     else Inr (delete_slot h slot))"

text \<open>
  The callback of a traversal gets the slot and may change the table and a state of its own; it returns
  whether to continue. The limit is computed before the first call.
\<close>

function traverse_loop ::
    "(nat \<Rightarrow> 'a htab \<Rightarrow> 's \<Rightarrow> ('a htab \<times> 's) \<times> bool) \<Rightarrow> nat \<Rightarrow> nat \<Rightarrow> 'a htab \<Rightarrow> 's \<Rightarrow> 'a htab \<times> 's" where
  "traverse_loop callback slot limit h s =
    (if slot \<ge> limit then (h, s)
     else case entries h ! slot of
       Live x \<Rightarrow>
         (case callback slot h s of
            ((h, s), continue) \<Rightarrow>
              if \<not> continue then (h, s) else traverse_loop callback (slot + 1) limit h s)
     | _ \<Rightarrow> traverse_loop callback (slot + 1) limit h s)"
  by pat_completeness auto
termination
  by (relation "measure (\<lambda>(callback, slot, limit, h, s). limit - slot)") auto

declare traverse_loop.simps [simp del]

definition htab_traverse_noresize ::
    "'a htab \<Rightarrow> (nat \<Rightarrow> 'a htab \<Rightarrow> 's \<Rightarrow> ('a htab \<times> 's) \<times> bool) \<Rightarrow> 's \<Rightarrow> 'a htab \<times> 's" where
  "htab_traverse_noresize h callback s = traverse_loop callback 0 (hsize h) h s"

definition htab_traverse ::
    "'a htab \<Rightarrow> (nat \<Rightarrow> 'a htab \<Rightarrow> 's \<Rightarrow> ('a htab \<times> 's) \<times> bool) \<Rightarrow> 's \<Rightarrow> ('a htab \<times> 's) run" where
  "htab_traverse h callback s =
    after_run (if htab_elements h * 8 < hsize h \<and> hsize h > 32 then htab_expand h else returns (h, True))
      (\<lambda>(h, _). returns (htab_traverse_noresize h callback s))"

subsection \<open>The sequence of slots of a hash value\<close>

definition slot_seq :: "nat \<Rightarrow> hashval_t \<Rightarrow> nat \<Rightarrow> nat" where
  "slot_seq p hash k = (unat hash mod p + k * (1 + unat hash mod (p - 2))) mod p"

lemma slot_seq_less: "0 < p \<Longrightarrow> slot_seq p hash k < p"
  by (simp add: slot_seq_def)

lemma slot_seq_covers:
  assumes p: "prime_size p" "7 \<le> p" and j: "j < p"
  obtains k where "slot_seq p hash k = j"
proof -
  let ?d = "1 + unat hash mod (p - 2)"
  have "unat hash mod (p - 2) < p - 2" using p(2) by simp
  then have d: "coprime ?d p" using p by (intro prime_size_coprime) linarith+
  have diff: "k' - k = 0" if "k \<le> k'" "k' < p" "slot_seq p hash k = slot_seq p hash k'" for k k'
  proof -
    have "(unat hash mod p + k' * ?d) mod p = (unat hash mod p + k * ?d) mod p"
      using that(3) by (simp add: slot_seq_def)
    then have "p dvd (unat hash mod p + k' * ?d) - (unat hash mod p + k * ?d)"
      by (rule mod_eq_dvd_iff_nat [THEN iffD1, rotated]) (intro add_left_mono mult_le_mono1 that(1))
    also have "(unat hash mod p + k' * ?d) - (unat hash mod p + k * ?d) = (k' - k) * ?d"
      by (simp add: diff_mult_distrib del: mult_Suc_right)
    finally have "p dvd k' - k"
      using d by (subst (asm) coprime_dvd_mult_left_iff) (simp_all only: coprime_commute)
    then show ?thesis using that(2) by (meson dvd_imp_le leD less_imp_diff_less neq0_conv)
  qed
  have "inj_on (slot_seq p hash) {..<p}"
  proof (rule inj_onI)
    fix k k' assume "k \<in> {..<p}" "k' \<in> {..<p}" "slot_seq p hash k = slot_seq p hash k'"
    then have "k \<le> k' \<Longrightarrow> k' - k = 0" "k' \<le> k \<Longrightarrow> k - k' = 0"
      by (intro diff; simp)+
    then show "k = k'" by linarith
  qed
  moreover have "slot_seq p hash ` {..<p} \<subseteq> {..<p}" using p(2) by (auto intro: slot_seq_less)
  ultimately have "slot_seq p hash ` {..<p} = {..<p}" by (intro endo_inj_surj) auto
  then have "j \<in> slot_seq p hash ` {..<p}" using j by simp
  then show ?thesis using that by auto
qed

lemma next_index_seq:
  assumes "7 \<le> p" "p \<le> 2 ^ 31" and i: "unat index = slot_seq p hash k"
    and h2: "unat hash2 = 1 + unat hash mod (p - 2)"
  shows "unat (next_index p index hash2) = slot_seq p hash (Suc k)"
proof -
  let ?i = "unat index" and ?d = "unat hash2"
  have l: "?i < p" using assms(1) i by (simp add: slot_seq_less)
  have "unat hash mod (p - 2) < p - 2" using assms(1) by simp
  then have d: "?d < p" using h2 by simp
  have "?i + ?d < 2 ^ LENGTH(32)" using l d assms(2) by simp
  then have sum: "unat (index + hash2) = ?i + ?d" unfolding unat_add_lem .
  have up: "unat (of_nat p :: hashval_t) = p"
    using assms(2) by (simp add: unat_of_nat)
  have "unat (next_index p index hash2) = (if ?i + ?d \<ge> p then ?i + ?d - p else ?i + ?d)"
    by (auto simp: next_index_def Let_def sum up unat_sub word_le_nat_alt)
  also have "\<dots> = (?i + ?d) mod p"
    using l d by (auto simp: not_le le_mod_geq)
  also have "\<dots> = slot_seq p hash (Suc k)"
  proof -
    have "((a + k * d) mod p + d) mod p = (a + Suc k * d) mod p" for a d
      by (subst mod_add_left_eq) (simp add: ac_simps)
    then show ?thesis unfolding i slot_seq_def h2 [symmetric] .
  qed
  finally show ?thesis .
qed

subsection \<open>The loops follow the sequence\<close>

definition stops :: "'a entry list \<Rightarrow> ('a \<Rightarrow> bool) \<Rightarrow> nat \<Rightarrow> bool" where
  "stops es matches j = (case es ! j of Empty \<Rightarrow> True | Deleted \<Rightarrow> False | Live y \<Rightarrow> matches y)"

fun contents :: "'a entry \<Rightarrow> 'a option" where
  "contents (Live y) = Some y"
| "contents _ = None"

text \<open>What the loops assume: the table, the step of the hash value, and where the sequence stops.\<close>

definition probing ::
    "nat \<Rightarrow> 'a entry list \<Rightarrow> ('a \<Rightarrow> bool) \<Rightarrow> hashval_t \<Rightarrow> hashval_t \<Rightarrow> nat \<Rightarrow> bool" where
  "probing p es matches hash hash2 K \<longleftrightarrow>
     length es = p \<and> 7 \<le> p \<and> p \<le> 2 ^ 31 \<and> unat hash2 = 1 + unat hash mod (p - 2) \<and>
     stops es matches (slot_seq p hash K) \<and> (\<forall>m < K. \<not> stops es matches (slot_seq p hash m))"

lemma probing_step:
  assumes "probing p es matches hash hash2 K" and "k < K" "unat index = slot_seq p hash k"
  shows "unat (next_index p index hash2) = slot_seq p hash (Suc k)"
    and "unat (next_index p index hash2) < length es"
proof -
  show "unat (next_index p index hash2) = slot_seq p hash (Suc k)"
    using assms by (auto simp: probing_def intro: next_index_seq)
  then show "unat (next_index p index hash2) < length es"
    using assms(1) by (auto simp: probing_def intro: slot_seq_less)
qed

lemma find_loop_run:
  "probing p es matches hash hash2 K \<Longrightarrow> k < K \<Longrightarrow> unat index = slot_seq p hash k \<Longrightarrow>
   \<exists>c. find_loop es p matches index hash2 coll =
       returns (contents (es ! slot_seq p hash K), c)"
proof (induction "K - k" arbitrary: k index coll)
  case (Suc n)
  let ?i = "next_index p index hash2"
  note step = probing_step [OF Suc.prems]
  show ?case
  proof (cases "Suc k = K")
    case True
    with Suc.prems(1) have "stops es matches (unat ?i)" by (simp add: step probing_def)
    with True step show ?thesis
      by (subst find_loop.simps) (auto simp: Let_def stops_def split: entry.splits)
  next
    case False
    with Suc have "Suc k < K" "n = K - Suc k" by auto
    then have IH: "\<exists>c. find_loop es p matches ?i hash2 coll' =
        returns (contents (es ! slot_seq p hash K), c)" for coll'
      using Suc.hyps(1) [of "Suc k" ?i coll'] Suc.prems(1) step(1) by simp
    have "\<not> stops es matches (unat ?i)"
      using Suc.prems(1) \<open>Suc k < K\<close> by (simp add: step probing_def)
    then have "find_loop es p matches index hash2 coll = find_loop es p matches ?i hash2 (coll + 1)"
      using step(2) by (subst find_loop.simps) (auto simp: Let_def stops_def split: entry.splits)
    then show ?thesis using IH by simp
  qed
qed simp

lemma find_slot_loop_run:
  "probing p es matches hash hash2 K \<Longrightarrow> k < K \<Longrightarrow> unat index = slot_seq p hash k \<Longrightarrow>
   \<exists>fd' c. find_slot_loop es p matches fd index hash2 coll =
       returns (es ! slot_seq p hash K \<noteq> Empty, slot_seq p hash K, fd', c) \<and>
     (\<forall>d. fd' = Some d \<longrightarrow> fd = Some d \<or>
        (\<exists>m < K. d = slot_seq p hash m \<and> es ! d = Deleted))"
proof (induction "K - k" arbitrary: k index coll fd)
  case (Suc n)
  let ?i = "next_index p index hash2"
  note step = probing_step [OF Suc.prems]
  show ?case
  proof (cases "Suc k = K")
    case True
    with Suc.prems(1) have "stops es matches (unat ?i)" by (simp add: step probing_def)
    with True step show ?thesis
      by (subst find_slot_loop.simps) (auto simp: Let_def stops_def split: entry.splits)
  next
    case False
    with Suc have "Suc k < K" "n = K - Suc k" by auto
    then have IH: "\<exists>fd'' c. find_slot_loop es p matches fd' ?i hash2 coll' =
         returns (es ! slot_seq p hash K \<noteq> Empty, slot_seq p hash K, fd'', c) \<and>
       (\<forall>d. fd'' = Some d \<longrightarrow> fd' = Some d \<or> (\<exists>m < K. d = slot_seq p hash m \<and> es ! d = Deleted))"
      for fd' coll'
      using Suc.hyps(1) [of "Suc k" ?i fd' coll'] Suc.prems(1) step(1) by simp
    have "\<not> stops es matches (unat ?i)"
      using Suc.prems(1) \<open>Suc k < K\<close> by (simp add: step probing_def)
    moreover define fd' where
      "fd' = (if es ! unat ?i = Deleted \<and> fd = None then Some (unat ?i) else fd)"
    ultimately have
      "find_slot_loop es p matches fd index hash2 coll = find_slot_loop es p matches fd' ?i hash2 (coll + 1)"
      using step(2) by (subst find_slot_loop.simps) (auto simp: Let_def stops_def split: entry.splits)
    moreover have "fd = Some d \<or> (\<exists>m < K. d = slot_seq p hash m \<and> es ! d = Deleted)" if "fd' = Some d" for d
      using that \<open>Suc k < K\<close> by (auto simp: fd'_def step(1) split: if_splits)
    ultimately show ?thesis using IH [of fd' "coll + 1"] by (elim exE conjE) (simp, blast)
  qed
qed simp

lemma find_empty_loop_run:
  "probing p es (\<lambda>_. False) hash hash2 K \<Longrightarrow> Deleted \<notin> set es \<Longrightarrow> k < K \<Longrightarrow>
   unat index = slot_seq p hash k \<Longrightarrow>
   find_empty_loop es p index hash2 = returns (slot_seq p hash K)"
proof (induction "K - k" arbitrary: k index)
  case (Suc n)
  let ?i = "next_index p index hash2"
  note step = probing_step [OF Suc.prems(1,3,4)]
  have nd: "es ! unat ?i \<noteq> Deleted" using Suc.prems(2) step(2) by (metis nth_mem)
  show ?case
  proof (cases "Suc k = K")
    case True
    with Suc.prems(1) have "stops es (\<lambda>_. False) (unat ?i)" by (simp add: step probing_def)
    with True step show ?thesis
      by (subst find_empty_loop.simps) (auto simp: Let_def stops_def split: entry.splits)
  next
    case False
    with Suc have "Suc k < K" "n = K - Suc k" by auto
    then have "\<not> stops es (\<lambda>_. False) (unat ?i)"
      using Suc.prems(1) by (simp add: step probing_def)
    then have "find_empty_loop es p index hash2 = find_empty_loop es p ?i hash2"
      using step(2) nd by (subst find_empty_loop.simps) (auto simp: Let_def stops_def split: entry.splits)
    then show ?thesis
      using Suc.hyps(1) [of "Suc k" ?i] Suc.prems(1,2) step(1) \<open>Suc k < K\<close> \<open>n = K - Suc k\<close> by simp
  qed
qed simp

end
