(* ===== verification/Hash_Set.thy ===== *)
theory Hash_Set
  imports Hash_Table
begin

text \<open>
  The hash table of \<open>Hash_Table\<close> as a set of keys. The invariant says that every element is found by the
  probing of its hash value before an empty entry, that no two elements are equal, that the size is one of
  the first 17 primes, that the counters count, and that an empty entry is left, at which every search
  ends. All operations keep it, and return.
\<close>

subsection \<open>Entries\<close>

definition used :: "'a entry list \<Rightarrow> nat" where
  "used es = length (filter (\<lambda>e. e \<noteq> Empty) es)"

definition dead :: "'a entry list \<Rightarrow> nat" where
  "dead es = length (filter (\<lambda>e. e = Deleted) es)"

named_theorems entry_simps \<open>counts and contents of a list of entries after a store\<close>

lemma length_filter_update:
  "s < length es \<Longrightarrow> length (filter P (es[s := e])) + (if P (es ! s) then 1 else 0) =
     length (filter P es) + (if P e then 1 else 0)"
proof (induction es arbitrary: s)
  case (Cons a es)
  then show ?case using Cons.IH [of "s - 1"] by (cases s) (auto split: if_splits)
qed simp

lemma used_update [entry_simps]:
  "s < length es \<Longrightarrow> used (es[s := e]) =
     (if es ! s = Empty then (if e = Empty then used es else used es + 1)
      else (if e = Empty then used es - 1 else used es))"
  using length_filter_update [of s es "\<lambda>e. e \<noteq> Empty" e] by (auto simp: used_def split: if_splits)

lemma dead_update [entry_simps]:
  "s < length es \<Longrightarrow> dead (es[s := e]) =
     (if es ! s = Deleted then (if e = Deleted then dead es else dead es - 1)
      else (if e = Deleted then dead es + 1 else dead es))"
  using length_filter_update [of s es "\<lambda>e. e = Deleted" e] by (auto simp: dead_def split: if_splits)

lemma counts_replicate [simp]:
  "used (replicate n Empty) = 0" "dead (replicate n Empty) = 0" "lives (replicate n Empty) = []"
  by (induction n) (auto simp: used_def dead_def)

lemma used_lives: "used es = length (lives es) + dead es"
  by (induction es rule: lives.induct) (auto simp: used_def dead_def)

lemma used_le: "used es \<le> length es"
  by (simp add: used_def)

lemma mem_lives: "x \<in> set (lives es) \<longleftrightarrow> Live x \<in> set es"
  by (induction es rule: lives.induct) auto

lemma mem_lives_nth: "x \<in> set (lives es) \<longleftrightarrow> (\<exists>j < length es. es ! j = Live x)"
  unfolding mem_lives by (auto simp: in_set_conv_nth)

lemma ex_empty:
  assumes "used es < length es"
  obtains j where "j < length es" "es ! j = Empty"
proof -
  have "filter (\<lambda>e. e \<noteq> Empty) es \<noteq> es" using assms by (auto simp: used_def)
  then obtain e where "e \<in> set es" "e = Empty" by (meson filter_True)
  then show ?thesis using that by (auto simp: in_set_conv_nth)
qed

lemma lives_store:
  assumes "s < length es" "contents (es ! s) = None"
  shows "set (lives (es[s := Live x])) = insert x (set (lives es))"
proof -
  have "y \<in> set (lives (es[s := Live x])) \<longleftrightarrow> y = x \<or> y \<in> set (lives es)" for y
    using assms by (auto simp: mem_lives_nth nth_list_update split: if_splits) (metis contents.simps(1) option.distinct(1))
  then show ?thesis by blast
qed

subsection \<open>The layout of the entries\<close>

definition layout :: "('a \<Rightarrow> hashval_t) \<Rightarrow> ('a \<Rightarrow> 'a \<Rightarrow> bool) \<Rightarrow> nat \<Rightarrow> 'a entry list \<Rightarrow> bool" where
  "layout hsh equ p es \<longleftrightarrow>
     length es = p \<and>
     (\<forall>j < p. \<forall>x. es ! j = Live x \<longrightarrow>
        (\<exists>k. slot_seq p (hsh x) k = j \<and> (\<forall>m < k. es ! slot_seq p (hsh x) m \<noteq> Empty))) \<and>
     (\<forall>i < p. \<forall>j < p. \<forall>x y. es ! i = Live x \<and> es ! j = Live y \<and> equ x y \<longrightarrow> i = j)"

definition good_size :: "nat \<Rightarrow> bool" where
  "good_size p \<longleftrightarrow> prime_size p \<and> 7 \<le> p \<and> p \<le> 2 ^ 31"

lemma good_size_prime_at:
  assumes "i \<le> 16"
  shows "good_size (prime_at i)"
proof -
  have "prime_at i \<le> prime_at 16" using assms by (intro prime_at_mono) auto
  also have "prime_at 16 = 524287" by (simp add: prime_tab_def)
  finally show ?thesis using assms by (simp add: good_size_def prime_tab_prime prime_at_ge_7)
qed

lemma layout_length: "layout hsh equ p es \<Longrightarrow> length es = p"
  by (simp add: layout_def)

lemma layout_reach:
  assumes "layout hsh equ p es" "es ! j = Live x" "j < p"
  obtains k where "slot_seq p (hsh x) k = j" "\<forall>m < k. es ! slot_seq p (hsh x) m \<noteq> Empty"
  using assms unfolding layout_def by blast

lemma layout_unique:
  "layout hsh equ p es \<Longrightarrow> es ! i = Live x \<Longrightarrow> es ! j = Live y \<Longrightarrow> equ x y \<Longrightarrow> i < p \<Longrightarrow> j < p \<Longrightarrow> i = j"
  unfolding layout_def by blast

lemma layout_empty [simp]: "layout hsh equ p (replicate p Empty)"
  by (simp add: layout_def)

lemma layout_store:
  assumes l: "layout hsh equ p es" and s: "s < p" "contents (es ! s) = None"
    and path: "slot_seq p (hsh x) m = s" "\<forall>m' < m. es ! slot_seq p (hsh x) m' \<noteq> Empty"
    and new: "\<forall>y \<in> set (lives es). \<not> equ x y \<and> \<not> equ y x"
  shows "layout hsh equ p (es[s := Live x])"
proof -
  have len: "length es = p" using l by (rule layout_length)
  have new': "\<not> equ x y \<and> \<not> equ y x" if "es ! j = Live y" "j < p" for j y
    using new that len by (auto simp: mem_lives_nth)
  have "\<exists>k. slot_seq p (hsh y) k = j \<and> (\<forall>m < k. es[s := Live x] ! slot_seq p (hsh y) m \<noteq> Empty)"
    if "es[s := Live x] ! j = Live y" "j < p" for j y
  proof (cases "j = s")
    case True
    with that s len have "y = x" by simp
    with path True len s(1) show ?thesis by (intro exI [of _ m]) (auto simp: nth_list_update)
  next
    case False
    then have "es ! j = Live y" using that by simp
    then obtain k where "slot_seq p (hsh y) k = j" "\<forall>m < k. es ! slot_seq p (hsh y) m \<noteq> Empty"
      using layout_reach [OF l _ \<open>j < p\<close>] by blast
    then show ?thesis using len s(1) by (intro exI [of _ k]) (auto simp: nth_list_update)
  qed
  moreover have "i = j" if "es[s := Live x] ! i = Live y" "es[s := Live x] ! j = Live z" "equ y z"
    "i < p" "j < p" for i j y z
    using that new' layout_unique [OF l, of i y j z] len
    by (cases "i = s"; cases "j = s") auto
  ultimately show ?thesis using len unfolding layout_def by (auto 4 3)
qed

lemma layout_delete:
  assumes l: "layout hsh equ p es" and s: "s < p"
  shows "layout hsh equ p (es[s := Deleted])"
proof -
  have len: "length es = p" using l by (rule layout_length)
  have "\<exists>k. slot_seq p (hsh y) k = j \<and> (\<forall>m < k. es[s := Deleted] ! slot_seq p (hsh y) m \<noteq> Empty)"
    if "es[s := Deleted] ! j = Live y" "j < p" for j y
  proof -
    have "es ! j = Live y" using that len s by (auto simp: nth_list_update split: if_splits)
    then obtain k where "slot_seq p (hsh y) k = j" "\<forall>m < k. es ! slot_seq p (hsh y) m \<noteq> Empty"
      using layout_reach [OF l _ \<open>j < p\<close>] by blast
    then show ?thesis using len s by (intro exI [of _ k]) (auto simp: nth_list_update)
  qed
  moreover have "i = j" if "es[s := Deleted] ! i = Live y" "es[s := Deleted] ! j = Live z" "equ y z"
    "i < p" "j < p" for i j y z
    using that layout_unique [OF l, of i y j z] len s by (auto simp: nth_list_update split: if_splits)
  ultimately show ?thesis using len unfolding layout_def by (auto 4 3)
qed

lemma lives_delete:
  assumes l: "layout hsh equ p es" and s: "s < p" "es ! s = Live x" and r: "\<And>y. equ y y"
  shows "set (lives (es[s := Deleted])) = set (lives es) - {x}"
proof -
  have "y \<in> set (lives (es[s := Deleted])) \<longleftrightarrow> y \<in> set (lives es) \<and> y \<noteq> x" for y
    using layout_unique [OF l, of _ y s x] s r layout_length [OF l]
    by (auto simp: mem_lives_nth nth_list_update split: if_splits) (metis entry.inject)
  then show ?thesis by blast
qed

lemma layout_pairwise:
  assumes "layout hsh equ p es"
  shows "sorted_wrt (\<lambda>x y. \<not> equ x y) (lives es)"
proof -
  have "\<forall>i j x y. i < j \<and> j < length es \<and> es ! i = Live x \<and> es ! j = Live y \<longrightarrow> \<not> equ x y \<Longrightarrow>
      sorted_wrt (\<lambda>x y. \<not> equ x y) (lives es)" for es
  proof (induction es rule: lives.induct)
    case (2 x es)
    then have "\<not> equ x y" if "y \<in> set (lives es)" for y
      using that 2(2) [rule_format, of 0 "Suc j" for j] by (auto simp: mem_lives_nth)
    moreover have "sorted_wrt (\<lambda>x y. \<not> equ x y) (lives es)"
      using 2(2) by (intro 2(1)) (metis Suc_less_eq length_Cons nth_Cons_Suc)
    ultimately show ?case by simp
  next
    case (3 es)
    then show ?case by simp (metis Suc_less_eq nth_Cons_Suc)
  next
    case (4 es)
    then show ?case by simp (metis Suc_less_eq nth_Cons_Suc)
  qed simp
  then show ?thesis using assms unfolding layout_def by (metis order.strict_trans less_irrefl)
qed

lemma slot_seq_0: "unat (htab_mod hash i) = slot_seq (prime_at i) hash 0" if "i < 30"
  using that prime_at_ge_7 [OF that] by (simp add: unat_htab_mod slot_seq_def)

text \<open>Where the probing of a hash value stops.\<close>

lemma probing_stop:
  assumes g: "good_size (prime_at i)" and i: "i < 30" and len: "length es = prime_at i"
    and u: "used es < prime_at i"
  obtains K where "probing (prime_at i) es matches hash (htab_mod_m2 hash i) K"
proof -
  let ?s = "slot_seq (prime_at i) hash"
  obtain j where j: "j < prime_at i" "es ! j = Empty" using u len ex_empty [of es] by auto
  from g have "prime_size (prime_at i)" "7 \<le> prime_at i" by (simp_all add: good_size_def)
  then obtain k where "?s k = j" using j(1) by (rule slot_seq_covers)
  then have "stops es matches (?s k)" using j(2) by (simp add: stops_def)
  then have "stops es matches (?s (LEAST k. stops es matches (?s k)))" by (rule LeastI)
  moreover have "\<forall>m < (LEAST k. stops es matches (?s k)). \<not> stops es matches (?s m)"
    by (auto dest: not_less_Least)
  ultimately have "probing (prime_at i) es matches hash (htab_mod_m2 hash i) (LEAST k. stops es matches (?s k))"
    using g unfolding probing_def good_size_def
    by (elim conjE) (intro conjI len unat_htab_mod_m2 [OF i])
  then show ?thesis by (rule that)
qed

lemma probing_before:
  "probing p es matches hash hash2 K \<Longrightarrow> m < K \<Longrightarrow> es ! slot_seq p hash m \<noteq> Empty"
  by (auto simp: probing_def stops_def split: entry.splits)

lemma probing_less: "probing p es matches hash hash2 K \<Longrightarrow> slot_seq p hash m < length es"
  by (auto simp: probing_def intro: slot_seq_less)

lemma probing_0:
  "probing p es matches hash hash2 K \<Longrightarrow> stops es matches (slot_seq p hash 0) \<longleftrightarrow> K = 0"
  unfolding probing_def by (cases K) auto

lemma htab_find_run:
  assumes p: "probing (hsize h) (entries h) (\<lambda>y. eq_f h y x) hash
      (htab_mod_m2 hash (size_prime_index h)) K"
    and i: "hsize h = prime_at (size_prime_index h)" "size_prime_index h < 30"
  shows "\<exists>c. htab_find_with_hash h x hash =
    returns (h\<lparr>searches := searches h + 1, collisions := c\<rparr>,
      contents (entries h ! slot_seq (hsize h) hash K))"
proof -
  have s0: "unat (htab_mod hash (size_prime_index h)) = slot_seq (hsize h) hash 0"
    using slot_seq_0 [OF i(2)] i(1) by simp
  note bound = probing_less [OF p, of 0]
  show ?thesis
  proof (cases "K = 0")
    case True
    then have "stops (entries h) (\<lambda>y. eq_f h y x) (slot_seq (hsize h) hash 0)"
      using probing_0 [OF p] by simp
    with True bound show ?thesis
      by (intro exI [of _ "collisions h"])
        (auto simp: htab_find_with_hash_def Let_def s0 stops_def split: entry.splits)
  next
    case False
    then have ns: "\<not> stops (entries h) (\<lambda>y. eq_f h y x) (slot_seq (hsize h) hash 0)"
      using probing_0 [OF p] by simp
    obtain c where "find_loop (entries h) (hsize h) (\<lambda>y. eq_f h y x)
        (htab_mod hash (size_prime_index h)) (htab_mod_m2 hash (size_prime_index h)) (collisions h) =
        returns (contents (entries h ! slot_seq (hsize h) hash K), c)"
      using find_loop_run [OF p _ s0] False by blast
    with ns bound show ?thesis
      by (intro exI [of _ c])
        (auto simp: htab_find_with_hash_def Let_def s0 stops_def split: entry.splits)
  qed
qed

lemma find_slot_search_run:
  assumes p: "probing (hsize h) (entries h) (\<lambda>y. eq_f h y x) hash
      (htab_mod_m2 hash (size_prime_index h)) K"
    and i: "hsize h = prime_at (size_prime_index h)" "size_prime_index h < 30"
  shows "\<exists>fd c. find_slot_search h x hash =
      returns (entries h ! slot_seq (hsize h) hash K \<noteq> Empty, slot_seq (hsize h) hash K, fd, c) \<and>
    (\<forall>d. fd = Some d \<longrightarrow> (\<exists>m < K. d = slot_seq (hsize h) hash m \<and> entries h ! d = Deleted))"
proof -
  have s0: "unat (htab_mod hash (size_prime_index h)) = slot_seq (hsize h) hash 0"
    using slot_seq_0 [OF i(2)] i(1) by simp
  note bound = probing_less [OF p, of 0]
  show ?thesis
  proof (cases "K = 0")
    case True
    then have "stops (entries h) (\<lambda>y. eq_f h y x) (slot_seq (hsize h) hash 0)"
      using probing_0 [OF p] by simp
    with True bound show ?thesis
      by (auto simp: find_slot_search_def Let_def s0 stops_def split: entry.splits)
  next
    case False
    then have ns: "\<not> stops (entries h) (\<lambda>y. eq_f h y x) (slot_seq (hsize h) hash 0)"
      using probing_0 [OF p] by simp
    define fd where "fd = (if entries h ! slot_seq (hsize h) hash 0 = Deleted
      then Some (slot_seq (hsize h) hash 0) else None)"
    obtain fd' c where "find_slot_loop (entries h) (hsize h) (\<lambda>y. eq_f h y x) fd
        (htab_mod hash (size_prime_index h)) (htab_mod_m2 hash (size_prime_index h)) (collisions h) =
        returns (entries h ! slot_seq (hsize h) hash K \<noteq> Empty, slot_seq (hsize h) hash K, fd', c)"
      and fd': "\<forall>d. fd' = Some d \<longrightarrow> fd = Some d \<or>
        (\<exists>m < K. d = slot_seq (hsize h) hash m \<and> entries h ! d = Deleted)"
      using find_slot_loop_run [OF p _ s0, of fd "collisions h"] False by blast
    then have "find_slot_search h x hash =
        returns (entries h ! slot_seq (hsize h) hash K \<noteq> Empty, slot_seq (hsize h) hash K, fd', c)"
      using ns bound
      by (auto simp: find_slot_search_def Let_def s0 stops_def fd_def split: entry.splits)
    moreover have "\<exists>m < K. d = slot_seq (hsize h) hash m \<and> entries h ! d = Deleted"
      if "fd' = Some d" for d
      using fd' [rule_format, OF that] False by (auto simp: fd_def split: if_splits)
    ultimately show ?thesis by blast
  qed
qed

lemma find_slot_search_searches [simp]:
  "find_slot_search (h\<lparr>searches := s\<rparr>) x hash = find_slot_search h x hash"
  by (auto simp: find_slot_search_def Let_def split: entry.split)

lemma find_empty_slot_run:
  assumes p: "probing (hsize h) (entries h) (\<lambda>_. False) hash (htab_mod_m2 hash (size_prime_index h)) K"
    and nd: "Deleted \<notin> set (entries h)"
    and i: "hsize h = prime_at (size_prime_index h)" "size_prime_index h < 30"
  shows "find_empty_slot_for_expand h hash = returns (slot_seq (hsize h) hash K)"
proof -
  have s0: "unat (htab_mod hash (size_prime_index h)) = slot_seq (hsize h) hash 0"
    using slot_seq_0 [OF i(2)] i(1) by simp
  note bound = probing_less [OF p, of 0]
  have nd0: "entries h ! slot_seq (hsize h) hash 0 \<noteq> Deleted" using nd bound by (metis nth_mem)
  show ?thesis
    using find_empty_loop_run [OF p nd _ s0] probing_0 [OF p] bound nd0
    by (cases "K = 0")
      (auto simp: find_empty_slot_for_expand_def Let_def s0 stops_def split: entry.splits)
qed

subsection \<open>The invariant\<close>

definition htab_inv :: "('a \<Rightarrow> hashval_t) \<Rightarrow> ('a \<Rightarrow> 'a \<Rightarrow> bool) \<Rightarrow> 'a htab \<Rightarrow> bool" where
  "htab_inv hsh equ h \<longleftrightarrow>
     hash_f h = hsh \<and> eq_f h = equ \<and>
     size_prime_index h \<le> 16 \<and> hsize h = prime_at (size_prime_index h) \<and>
     layout hsh equ (hsize h) (entries h) \<and>
     n_elements h = used (entries h) \<and> n_deleted h = dead (entries h) \<and>
     used (entries h) < hsize h"

definition elements :: "'a htab \<Rightarrow> 'a set" where
  "elements h = set (lives (entries h))"

text \<open>
  An insertion as the comment on \<open>htab_find_slot_with_hash\<close> prescribes it: the element is written into the
  slot, when that is empty. The result is whether there was an element, or \<open>None\<close> without memory.
\<close>

definition htab_store :: "'a htab \<Rightarrow> 'a \<Rightarrow> ('a htab \<times> bool option) run" where
  "htab_store h x =
    after_run (htab_find_slot h x INSERT)
      (\<lambda>(h, slot). case slot of
         None \<Rightarrow> returns (h, None)
       | Some s \<Rightarrow>
           if entries h ! s \<noteq> Empty then returns (h, Some True)
           else returns (h\<lparr>entries := (entries h)[s := Live x]\<rparr>, Some False))"

context htab_keys
begin

lemma not_found:
  assumes l: "layout hsh equ p es"
    and K: "probing p es (\<lambda>y. equ y x) (hsh x) h2 K" "es ! slot_seq p (hsh x) K = Empty"
    and y: "y \<in> set (lives es)"
  shows "\<not> equ y x"
proof
  assume e: "equ y x"
  then have h: "hsh y = hsh x" by (rule eq_hash)
  have len: "length es = p" using l by (rule layout_length)
  then obtain j where j: "j < p" "es ! j = Live y" using y by (auto simp: mem_lives_nth)
  then obtain k where k: "slot_seq p (hsh x) k = j" "\<forall>m < k. es ! slot_seq p (hsh x) m \<noteq> Empty"
    using layout_reach [OF l j(2,1)] h by auto
  have "stops es (\<lambda>y. equ y x) (slot_seq p (hsh x) k)" using k(1) j(2) e by (simp add: stops_def)
  then have "K \<le> k" using K(1) by (meson not_le probing_def)
  with k K(2) j(2) show False by (cases "K = k") auto
qed

lemma inv_probing:
  assumes "htab_inv hsh equ h"
  obtains K where "probing (hsize h) (entries h) (\<lambda>y. eq_f h y x) (hsh x)
      (htab_mod_m2 (hsh x) (size_prime_index h)) K"
proof -
  from assms have "size_prime_index h \<le> 16" "hsize h = prime_at (size_prime_index h)"
    "length (entries h) = hsize h" "used (entries h) < hsize h"
    by (auto simp: htab_inv_def dest: layout_length)
  then show ?thesis
    using that probing_stop [OF good_size_prime_at, of "size_prime_index h" "entries h"] by auto
qed

lemma found_matches:
  assumes "htab_inv hsh equ h"
    and "probing (hsize h) (entries h) (\<lambda>y. eq_f h y x) (hsh x) h2 K"
    and "entries h ! slot_seq (hsize h) (hsh x) K \<noteq> Empty"
  obtains y where "entries h ! slot_seq (hsize h) (hsh x) K = Live y" "equ y x" "y \<in> elements h"
proof -
  let ?s = "slot_seq (hsize h) (hsh x) K"
  have "stops (entries h) (\<lambda>y. equ y x) ?s" and l: "?s < length (entries h)"
    using assms(1,2) probing_less [OF assms(2)] by (auto simp: htab_inv_def probing_def)
  with assms(3) obtain y where "entries h ! ?s = Live y" "equ y x"
    by (auto simp: stops_def split: entry.splits)
  then show ?thesis using that l by (auto simp: elements_def mem_lives_nth)
qed

lemma find_correct:
  assumes inv: "htab_inv hsh equ h"
  shows "\<exists>r s c. htab_find h x = returns (h\<lparr>searches := s, collisions := c\<rparr>, r) \<and>
    (case r of Some y \<Rightarrow> y \<in> elements h \<and> equ y x | None \<Rightarrow> \<forall>y \<in> elements h. \<not> equ y x)"
proof -
  obtain K where K: "probing (hsize h) (entries h) (\<lambda>y. eq_f h y x) (hsh x)
      (htab_mod_m2 (hsh x) (size_prime_index h)) K"
    using inv by (rule inv_probing)
  let ?s = "slot_seq (hsize h) (hsh x) K"
  have f: "hash_f h = hsh" "eq_f h = equ" "layout hsh equ (hsize h) (entries h)"
    "hsize h = prime_at (size_prime_index h)" "size_prime_index h < 30"
    using inv by (auto simp: htab_inv_def)
  obtain c where run: "htab_find h x =
      returns (h\<lparr>searches := searches h + 1, collisions := c\<rparr>, contents (entries h ! ?s))"
    using htab_find_run [OF K f(4,5)] f(1) by (auto simp: htab_find_def)
  have "case contents (entries h ! ?s) of
      Some y \<Rightarrow> y \<in> elements h \<and> equ y x | None \<Rightarrow> \<forall>y \<in> elements h. \<not> equ y x"
  proof (cases "entries h ! ?s = Empty")
    case True
    have "probing (hsize h) (entries h) (\<lambda>y. equ y x) (hsh x) (htab_mod_m2 (hsh x) (size_prime_index h)) K"
      using K f(2) by simp
    with True show ?thesis using not_found [OF f(3)] by (auto simp: elements_def)
  next
    case False
    with inv K obtain y where "entries h ! ?s = Live y" "equ y x" "y \<in> elements h"
      by (rule found_matches)
    then show ?thesis by simp
  qed
  with run show ?thesis by blast
qed

lemma find_slot_correct:
  assumes inv: "htab_inv hsh equ h"
  obtains found s fd c where "find_slot_search h x (hsh x) = returns (found, s, fd, c)"
    and "s < hsize h"
    and "found \<Longrightarrow> \<exists>y. entries h ! s = Live y \<and> equ y x"
    and "\<not> found \<Longrightarrow> entries h ! s = Empty \<and> (\<forall>y \<in> elements h. \<not> equ y x)"
    and "\<And>d. fd = Some d \<Longrightarrow> d < hsize h \<and> entries h ! d = Deleted"
    and "\<And>t. t = (case fd of None \<Rightarrow> s | Some d \<Rightarrow> d) \<Longrightarrow>
      \<exists>m. slot_seq (hsize h) (hsh x) m = t \<and>
        (\<forall>m' < m. entries h ! slot_seq (hsize h) (hsh x) m' \<noteq> Empty)"
proof -
  obtain K where K: "probing (hsize h) (entries h) (\<lambda>y. eq_f h y x) (hsh x)
      (htab_mod_m2 (hsh x) (size_prime_index h)) K"
    using inv by (rule inv_probing)
  let ?s = "slot_seq (hsize h) (hsh x)"
  have f: "eq_f h = equ" "layout hsh equ (hsize h) (entries h)" "length (entries h) = hsize h"
    "hsize h = prime_at (size_prime_index h)" "size_prime_index h < 30"
    using inv by (auto simp: htab_inv_def dest: layout_length)
  have K': "probing (hsize h) (entries h) (\<lambda>y. equ y x) (hsh x) (htab_mod_m2 (hsh x) (size_prime_index h)) K"
    using K f(1) by simp
  obtain fd c where run: "find_slot_search h x (hsh x) = returns (entries h ! ?s K \<noteq> Empty, ?s K, fd, c)"
    and fd: "\<forall>d. fd = Some d \<longrightarrow> (\<exists>m < K. d = ?s m \<and> entries h ! d = Deleted)"
    using find_slot_search_run [OF K f(4,5)] by blast
  have bound: "?s m < hsize h" for m using probing_less [OF K] f(3) by simp
  show ?thesis
  proof (rule that [OF run bound])
    show "\<exists>y. entries h ! ?s K = Live y \<and> equ y x" if "entries h ! ?s K \<noteq> Empty"
      using found_matches [OF inv K that] by blast
    show "entries h ! ?s K = Empty \<and> (\<forall>y \<in> elements h. \<not> equ y x)" if "\<not> entries h ! ?s K \<noteq> Empty"
      using not_found [OF f(2) K'] that by (auto simp: elements_def)
    show "d < hsize h \<and> entries h ! d = Deleted" if "fd = Some d" for d
      using fd [rule_format, OF that] bound by blast
    show "\<exists>m. ?s m = t \<and> (\<forall>m' < m. entries h ! ?s m' \<noteq> Empty)"
      if t: "t = (case fd of None \<Rightarrow> ?s K | Some d \<Rightarrow> d)" for t
    proof (cases fd)
      case None
      with t show ?thesis using probing_before [OF K] by auto
    next
      case (Some d)
      then obtain m where "m < K" "d = ?s m" using fd by blast
      with t Some show ?thesis using probing_before [OF K] by (intro exI [of _ m]) auto
    qed
  qed
qed

lemma inv_counters:
  assumes "htab_inv hsh equ h"
  shows "htab_elements h = length (lives (entries h))" "htab_elements h < hsize h" "7 \<le> hsize h"
  using assms used_lives [of "entries h"] prime_at_ge_7 [of "size_prime_index h"]
  by (auto simp: htab_inv_def htab_elements_def)

lemma inv_observers [simp]:
  "htab_inv hsh equ (h\<lparr>searches := s\<rparr>) \<longleftrightarrow> htab_inv hsh equ h"
  "htab_inv hsh equ (h\<lparr>collisions := c\<rparr>) \<longleftrightarrow> htab_inv hsh equ h"
  "elements (h\<lparr>searches := s\<rparr>) = elements h"
  "elements (h\<lparr>collisions := c\<rparr>) = elements h"
  by (simp_all add: htab_inv_def elements_def)

subsection \<open>Removal\<close>

lemma delete_slot_correct:
  assumes inv: "htab_inv hsh equ h" and s: "s < hsize h" "entries h ! s = Live y"
  shows "htab_inv hsh equ (fst (delete_slot h s))"
    and "elements (fst (delete_slot h s)) = elements h - {y}"
    and "snd (delete_slot h s) = (if del_f h then [y] else [])"
proof -
  have l: "layout hsh equ (hsize h) (entries h)" "length (entries h) = hsize h"
    using inv by (auto simp: htab_inv_def dest: layout_length)
  show "htab_inv hsh equ (fst (delete_slot h s))"
    using inv s l layout_delete [OF l(1) s(1)]
    by (simp add: htab_inv_def delete_slot_def entry_simps)
  show "elements (fst (delete_slot h s)) = elements h - {y}"
    unfolding elements_def delete_slot_def
    using lives_delete [OF l(1) s eq_refl] by simp
  show "snd (delete_slot h s) = (if del_f h then [y] else [])"
    using s by (simp add: delete_slot_def)
qed

lemma unique_match:
  assumes inv: "htab_inv hsh equ h" and "y \<in> elements h" "z \<in> elements h" "equ y x" "equ z x"
  shows "y = z"
proof -
  have l: "layout hsh equ (hsize h) (entries h)" "length (entries h) = hsize h"
    using inv by (auto simp: htab_inv_def dest: layout_length)
  obtain i j where "i < hsize h" "entries h ! i = Live y" "j < hsize h" "entries h ! j = Live z"
    using assms(2,3) l(2) by (auto simp: elements_def mem_lives_nth)
  moreover have "equ y z" using assms(4,5) eq_sym eq_trans by blast
  ultimately show ?thesis using layout_unique [OF l(1)] by (metis entry.inject)
qed

lemma remove_correct:
  assumes inv: "htab_inv hsh equ h"
  shows "\<exists>h' gone. htab_remove_elt h x = returns (h', gone) \<and> htab_inv hsh equ h' \<and>
    elements h' = {y \<in> elements h. \<not> equ y x} \<and>
    set gone = (if del_f h then {y \<in> elements h. equ y x} else {})"
proof -
  obtain found s fd c where run: "find_slot_search h x (hsh x) = returns (found, s, fd, c)"
    and s: "s < hsize h" and found: "found \<Longrightarrow> \<exists>y. entries h ! s = Live y \<and> equ y x"
    and not: "\<not> found \<Longrightarrow> entries h ! s = Empty \<and> (\<forall>y \<in> elements h. \<not> equ y x)"
    using find_slot_correct [OF inv, of x] by metis
  let ?h = "h\<lparr>searches := searches h + 1, collisions := c\<rparr>"
  have "find_slot_search (h\<lparr>searches := searches h + 1\<rparr>) x (hsh x) = returns (found, s, fd, c)"
    using run by simp
  moreover have "hash_f h = hsh" using inv by (simp add: htab_inv_def)
  ultimately have r: "htab_remove_elt h x = returns (if found then delete_slot ?h s else (?h, []))"
    by (simp add: htab_remove_elt_def htab_remove_elt_with_hash_def htab_find_slot_with_hash_def
        Let_def empty_entry_def)
  show ?thesis
  proof (cases found)
    case True
    then obtain y where y: "entries h ! s = Live y" "equ y x" using found by blast
    have "length (entries h) = hsize h" using inv by (auto simp: htab_inv_def dest: layout_length)
    then have "y \<in> elements h" using y(1) s by (auto simp: elements_def mem_lives_nth)
    then have only: "z = y" if "z \<in> elements h" "equ z x" for z
      using unique_match [OF inv] that y(2) by blast
    have inv': "htab_inv hsh equ ?h" using inv by simp
    have sy: "s < hsize ?h" "entries ?h ! s = Live y" using s y(1) by simp_all
    note d = delete_slot_correct [OF inv' sy]
    have "elements ?h - {y} = {z \<in> elements h. \<not> equ z x}"
      using only y(2) by auto
    then have e: "elements (fst (delete_slot ?h s)) = {z \<in> elements h. \<not> equ z x}"
      using d(2) by simp
    have "{z \<in> elements h. equ z x} = {y}" using only y(2) \<open>y \<in> elements h\<close> by blast
    then have g: "set (snd (delete_slot ?h s)) = (if del_f h then {z \<in> elements h. equ z x} else {})"
      using d(3) by simp
    have "htab_remove_elt h x = returns (fst (delete_slot ?h s), snd (delete_slot ?h s))"
      using True r by simp
    with d(1) e g show ?thesis by blast
  next
    case False
    with r not inv show ?thesis by auto
  qed
qed

subsection \<open>Rebuilding the table\<close>

lemma find_empty_correct:
  assumes i: "hsize h = prime_at (size_prime_index h)" "size_prime_index h \<le> 16"
    and len: "length (entries h) = hsize h" and nd: "Deleted \<notin> set (entries h)"
    and u: "used (entries h) < hsize h"
  obtains m where "find_empty_slot_for_expand h hash = returns (slot_seq (hsize h) hash m)"
    "slot_seq (hsize h) hash m < hsize h" "entries h ! slot_seq (hsize h) hash m = Empty"
    "\<forall>m' < m. entries h ! slot_seq (hsize h) hash m' \<noteq> Empty"
proof -
  have i30: "size_prime_index h < 30" using i(2) by simp
  have "length (entries h) = prime_at (size_prime_index h)" "used (entries h) < prime_at (size_prime_index h)"
    using len u i(1) by simp_all
  with good_size_prime_at [OF i(2)] i30 obtain K where
    "probing (prime_at (size_prime_index h)) (entries h) (\<lambda>_. False) hash
       (htab_mod_m2 hash (size_prime_index h)) K"
    by (rule probing_stop)
  then have K: "probing (hsize h) (entries h) (\<lambda>_. False) hash (htab_mod_m2 hash (size_prime_index h)) K"
    using i(1) by simp
  have "entries h ! slot_seq (hsize h) hash K = Empty"
    using K by (auto simp: probing_def stops_def split: entry.splits)
  then show ?thesis
    using that [OF find_empty_slot_run [OF K nd i(1) i30]] probing_before [OF K] probing_less [OF K] len
    by simp
qed

lemma expand_entries_correct:
  assumes "hash_f h = hsh" "hsize h = prime_at (size_prime_index h)" "size_prime_index h \<le> 16"
    and "layout hsh equ (hsize h) (entries h)" "Deleted \<notin> set (entries h)"
    and "sorted_wrt (\<lambda>x y. \<not> equ x y) (lives rest)"
    and "\<forall>x \<in> set (lives rest). \<forall>y \<in> set (lives (entries h)). \<not> equ y x"
    and "used (entries h) + length (lives rest) < hsize h"
  shows "\<exists>es. expand_entries h rest = returns (h\<lparr>entries := es\<rparr>) \<and>
    layout hsh equ (hsize h) es \<and> Deleted \<notin> set es \<and>
    set (lives es) = set (lives (entries h)) \<union> set (lives rest) \<and>
    used es = used (entries h) + length (lives rest)"
  using assms
proof (induction rest arbitrary: h rule: lives.induct)
  case (1 h)
  then show ?case by (intro exI [of _ "entries h"]) simp
next
  case (2 x rest h)
  have len: "length (entries h) = hsize h" using 2(5) by (rule layout_length)
  obtain m where run: "find_empty_slot_for_expand h (hsh x) = returns (slot_seq (hsize h) (hsh x) m)"
    and q: "slot_seq (hsize h) (hsh x) m < hsize h" "entries h ! slot_seq (hsize h) (hsh x) m = Empty"
    and path: "\<forall>m' < m. entries h ! slot_seq (hsize h) (hsh x) m' \<noteq> Empty"
    using find_empty_correct [OF 2(3,4) len 2(6), of "hsh x"] 2(9) by auto
  define es where "es = (entries h)[slot_seq (hsize h) (hsh x) m := Live x]"
  have new: "\<forall>y \<in> set (lives (entries h)). \<not> equ x y \<and> \<not> equ y x"
    using 2(8) by (auto simp: eq_commute)
  have es: "layout hsh equ (hsize h) es" "set (lives es) = insert x (set (lives (entries h)))"
    "used es = used (entries h) + 1"
    unfolding es_def using layout_store [OF 2(5) q(1) _ refl path new] q len
      lives_store [of "slot_seq (hsize h) (hsh x) m" "entries h" x]
    by (simp_all add: entry_simps)
  have "Deleted \<notin> set es"
    unfolding es_def using 2(6) set_update_subset_insert by fastforce
  moreover have "sorted_wrt (\<lambda>x y. \<not> equ x y) (lives rest)" using 2(7) by simp
  moreover have "\<forall>z \<in> set (lives rest). \<forall>y \<in> set (lives es). \<not> equ y z" using 2(7,8) es(2) by auto
  ultimately have "\<exists>es'. expand_entries (h\<lparr>entries := es\<rparr>) rest = returns (h\<lparr>entries := es'\<rparr>) \<and>
    layout hsh equ (hsize h) es' \<and> Deleted \<notin> set es' \<and>
    set (lives es') = set (lives es) \<union> set (lives rest) \<and> used es' = used es + length (lives rest)"
    using 2(1) [of "h\<lparr>entries := es\<rparr>"] 2(2,3,4,9) es by simp
  then show ?case using run 2(2) es by (auto simp: es_def [symmetric])
next
  case (3 rest h)
  then show ?case using 3(1) [of h] by simp
next
  case (4 rest h)
  then show ?case using 4(1) [of h] by simp
qed

lemma index_bound:
  assumes "n \<le> 524287"
  obtains i where "higher_prime_index n = Inr i" "i \<le> 16" "n \<le> prime_at i"
proof -
  have p16: "prime_at 16 = 524287" by (simp add: prime_tab_def)
  have "n \<le> 4294967291" using assms by simp
  then obtain i where i: "higher_prime_index n = Inr i" "n \<le> prime_at i" "\<forall>j < i. prime_at j < n"
    by (rule higher_prime_index_ok)
  have "i \<le> 16" using i(3) p16 assms by (metis not_le)
  then show ?thesis using that i by blast
qed

lemma expand_correct:
  assumes inv: "htab_inv hsh equ h" and small: "htab_elements h * 2 \<le> 524287"
  shows "\<exists>h' ok. htab_expand h = returns (h', ok) \<and>
    (\<not> ok \<longrightarrow> h' = h \<and> (\<exists>n. \<not> alloc_f h n)) \<and>
    (ok \<longrightarrow> htab_inv hsh equ h' \<and> elements h' = elements h \<and> n_deleted h' = 0 \<and>
       n_elements h' + 1 < hsize h' \<and> del_f h' = del_f h \<and> alloc_f h' = alloc_f h)"
proof -
  let ?e = "htab_elements h"
  let ?c = "?e * 2 > hsize h \<or> (?e * 8 < hsize h \<and> hsize h > 32)"
  have f: "hash_f h = hsh" "eq_f h = equ" "size_prime_index h \<le> 16" "hsize h = prime_at (size_prime_index h)"
    "layout hsh equ (hsize h) (entries h)" "n_elements h - n_deleted h = ?e"
    using inv by (auto simp: htab_inv_def htab_elements_def)
  obtain i where i: "(if ?c then higher_prime_index (?e * 2) else Inr (size_prime_index h)) = Inr i"
    "i \<le> 16" "?e * 2 \<le> prime_at i" "(if ?c then prime_at i else hsize h) = prime_at i"
  proof (cases ?c)
    case True
    from small obtain i where "higher_prime_index (?e * 2) = Inr i" "i \<le> 16" "?e * 2 \<le> prime_at i"
      by (rule index_bound)
    with True show ?thesis by (intro that [of i]) simp_all
  next
    case False
    with f show ?thesis by (intro that [of "size_prime_index h"]) auto
  qed
  have e: "length (lives (entries h)) = ?e" "?e + 1 < prime_at i"
    using inv_counters [OF inv] i(3) prime_at_ge_7 [of i] i(2) by auto
  define n where "n = h\<lparr>entries := replicate (prime_at i) Empty, hsize := prime_at i,
    size_prime_index := i, n_elements := ?e, n_deleted := 0\<rparr>"
  have run: "htab_expand h = (if alloc_f h (prime_at i)
      then after_run (expand_entries n (entries h)) (\<lambda>h. returns (h, True)) else returns (h, False))"
    unfolding htab_expand_def Let_def i(1) sum.case i(4) f(6) n_def by (simp only: if_not_P split: if_split) simp
  have "\<exists>es. expand_entries n (entries h) = returns (n\<lparr>entries := es\<rparr>) \<and>
      layout hsh equ (hsize n) es \<and> Deleted \<notin> set es \<and>
      set (lives es) = set (lives (entries n)) \<union> set (lives (entries h)) \<and>
      used es = used (entries n) + length (lives (entries h))"
    by (rule expand_entries_correct) (use f i e layout_pairwise [OF f(5)] in \<open>auto simp: n_def\<close>)
  then obtain es where es: "expand_entries n (entries h) = returns (n\<lparr>entries := es\<rparr>)"
    "layout hsh equ (prime_at i) es" "Deleted \<notin> set es" "set (lives es) = elements h" "used es = ?e"
    by (auto simp: n_def elements_def e(1))
  have "dead es = 0" using es(3) by (auto simp: dead_def filter_empty_conv)
  then have "htab_inv hsh equ (n\<lparr>entries := es\<rparr>)" "elements (n\<lparr>entries := es\<rparr>) = elements h"
    "n_deleted (n\<lparr>entries := es\<rparr>) = 0" "n_elements (n\<lparr>entries := es\<rparr>) + 1 < hsize (n\<lparr>entries := es\<rparr>)"
    using f i(2) es e by (simp_all add: htab_inv_def elements_def n_def)
  moreover have "del_f (n\<lparr>entries := es\<rparr>) = del_f h" "alloc_f (n\<lparr>entries := es\<rparr>) = alloc_f h"
    by (simp_all add: n_def)
  ultimately show ?thesis using run es(1)
    by (cases "alloc_f h (prime_at i)") auto
qed

subsection \<open>Insertion\<close>

definition write_slot :: "'a \<Rightarrow> 'a htab \<times> nat option \<Rightarrow> 'a htab \<times> bool option" where
  "write_slot x r = (case r of
     (h, None) \<Rightarrow> (h, None)
   | (h, Some s) \<Rightarrow>
       if entries h ! s \<noteq> Empty then (h, Some True)
       else (h\<lparr>entries := (entries h)[s := Live x]\<rparr>, Some False))"

text \<open>The part of an insertion after the table was made large enough.\<close>

lemma store_found:
  assumes inv: "htab_inv hsh equ h" and room: "n_elements h + 1 < hsize h"
    and run: "find_slot_search h x (hsh x) = returns (found, s, fd, c)"
  shows "\<exists>h'. write_slot x (let h = h\<lparr>collisions := c\<rparr> in
        if found then (h, Some s) else empty_entry h s fd INSERT) = (h', Some found) \<and>
      htab_inv hsh equ h' \<and> found = (\<exists>y \<in> elements h. equ y x) \<and>
      elements h' = (if found then elements h else insert x (elements h)) \<and>
      del_f h' = del_f h \<and> alloc_f h' = alloc_f h"
proof -
  have f: "layout hsh equ (hsize h) (entries h)" "length (entries h) = hsize h"
    "n_elements h = used (entries h)" "n_deleted h = dead (entries h)"
    using inv by (auto simp: htab_inv_def dest: layout_length)
  have s: "s < hsize h" "found \<Longrightarrow> \<exists>y. entries h ! s = Live y \<and> equ y x"
    "\<not> found \<Longrightarrow> entries h ! s = Empty \<and> (\<forall>y \<in> elements h. \<not> equ y x)"
    "\<And>d. fd = Some d \<Longrightarrow> d < hsize h \<and> entries h ! d = Deleted"
    "\<exists>m. slot_seq (hsize h) (hsh x) m = (case fd of None \<Rightarrow> s | Some d \<Rightarrow> d) \<and>
        (\<forall>m' < m. entries h ! slot_seq (hsize h) (hsh x) m' \<noteq> Empty)"
    using find_slot_correct [OF inv, of x] run by (metis Inr_inject option.inject prod.inject)+
  show ?thesis
  proof (cases found)
    case True
    then obtain y where y: "entries h ! s = Live y" "equ y x" using s(2) by blast
    then have "y \<in> elements h" using s(1) f(2) by (auto simp: elements_def mem_lives_nth)
    with True y inv show ?thesis
      by (intro exI [of _ "h\<lparr>collisions := c\<rparr>"]) (auto simp: write_slot_def)
  next
    case False
    define t where "t = (case fd of None \<Rightarrow> s | Some d \<Rightarrow> d)"
    have t: "t < hsize h" "contents (entries h ! t) = None"
      using s(1,3,4) False by (auto simp: t_def split: option.splits)
    have new: "\<forall>y \<in> set (lives (entries h)). \<not> equ x y \<and> \<not> equ y x"
      using s(3) False by (auto simp: elements_def eq_commute)
    define es where "es = (entries h)[t := Live x]"
    have es: "layout hsh equ (hsize h) es" "set (lives es) = insert x (set (lives (entries h)))"
      unfolding es_def using s(5) t new layout_store [OF f(1)] lives_store [of t "entries h" x] f(2)
      by (auto simp: t_def [symmetric])
    have upd: "(entries h)[t := Empty, t := Live x] = es" "t < length (entries h)"
      using t(1) f(2) by (simp_all add: es_def)
    define h' where "h' = h\<lparr>collisions := c, entries := es,
      n_elements := (if fd = None then n_elements h + 1 else n_elements h),
      n_deleted := (if fd = None then n_deleted h else n_deleted h - 1)\<rparr>"
    have "write_slot x (empty_entry (h\<lparr>collisions := c\<rparr>) s fd INSERT) = (h', Some False)"
      using s(3) False upd
      by (cases fd) (simp_all add: write_slot_def empty_entry_def h'_def t_def es_def)
    moreover have "used es = n_elements h'" "dead es = n_deleted h'"
      using s(3,4) False f(2,3,4) t(1)
      by (auto simp: es_def t_def h'_def entry_simps split: option.splits)
    then have "htab_inv hsh equ h'"
      using inv es(1) room by (auto simp: htab_inv_def h'_def split: if_splits)
    moreover have "elements h' = insert x (elements h)"
      using es(2) by (simp add: elements_def h'_def)
    ultimately show ?thesis using False s(3) by (auto simp: h'_def)
  qed
qed

lemma store_correct:
  assumes inv: "htab_inv hsh equ h" and small: "htab_elements h * 2 \<le> 524287"
  shows "\<exists>h' r. htab_store h x = returns (h', r) \<and> htab_inv hsh equ h' \<and>
    del_f h' = del_f h \<and> alloc_f h' = alloc_f h \<and>
    (case r of
       None \<Rightarrow> h' = h \<and> (\<exists>n. \<not> alloc_f h n)
     | Some seen \<Rightarrow> seen = (\<exists>y \<in> elements h. equ y x) \<and>
         elements h' = (if seen then elements h else insert x (elements h)))"
proof -
  let ?full = "hsize h * 3 \<le> n_elements h * 4"
  obtain h1 ok where run: "(if ?full then htab_expand h else returns (h, True)) = returns (h1, ok)"
    and fail: "\<not> ok \<Longrightarrow> h1 = h \<and> (\<exists>n. \<not> alloc_f h n)"
    and ok: "ok \<Longrightarrow> htab_inv hsh equ h1 \<and> elements h1 = elements h \<and>
       n_elements h1 + 1 < hsize h1 \<and> del_f h1 = del_f h \<and> alloc_f h1 = alloc_f h"
  proof (cases ?full)
    case True
    then show ?thesis using that expand_correct [OF inv small] by auto
  next
    case False
    then have "n_elements h + 1 < hsize h" using inv_counters(3) [OF inv] by linarith
    with False inv show ?thesis using that [of h True] by simp
  qed
  have hf: "hash_f h = hsh" using inv by (simp add: htab_inv_def)
  have store: "htab_store h x = after_run (htab_find_slot_with_hash h x (hsh x) INSERT)
      (\<lambda>r. returns (write_slot x r))"
    unfolding htab_store_def htab_find_slot_def hf write_slot_def
    by (auto intro!: arg_cong [of _ _ "after_run _"] simp: fun_eq_iff split: option.split)
  show ?thesis
  proof (cases ok)
    case False
    with run fail inv show ?thesis
      by (auto simp: store htab_find_slot_with_hash_def write_slot_def)
  next
    case True
    note inv1 = ok [OF True]
    let ?h2 = "h1\<lparr>searches := searches h1 + 1\<rparr>"
    have inv2: "htab_inv hsh equ ?h2" "n_elements ?h2 + 1 < hsize ?h2" using inv1 by simp_all
    obtain found s fd c where search: "find_slot_search ?h2 x (hsh x) = returns (found, s, fd, c)"
      using find_slot_correct [OF inv2(1), of x] by metis
    have "htab_store h x = returns (write_slot x (let h = ?h2\<lparr>collisions := c\<rparr> in
        if found then (h, Some s) else empty_entry h s fd INSERT))"
      using run True search by (simp add: store htab_find_slot_with_hash_def Let_def)
    with store_found [OF inv2 search] inv1 show ?thesis by (elim exE) auto
  qed
qed

subsection \<open>New and emptied tables\<close>

lemma empty_inv:
  assumes "hash_f h = hsh" "eq_f h = equ" "size_prime_index h \<le> 16"
    and "hsize h = prime_at (size_prime_index h)" "entries h = replicate (hsize h) Empty"
    and "n_elements h = 0" "n_deleted h = 0"
  shows "htab_inv hsh equ h" "elements h = {}"
  using assms prime_at_ge_7 [of "size_prime_index h"] by (simp_all add: htab_inv_def elements_def)

lemma create_correct:
  assumes "n \<le> 524287"
  shows "\<exists>h. htab_create_typed_alloc n hsh equ df True al = (if al (hsize h) then Inr (Some h) else Inr None) \<and>
    htab_inv hsh equ h \<and> elements h = {} \<and> n \<le> hsize h \<and> del_f h = df \<and> alloc_f h = al"
proof -
  obtain i where i: "higher_prime_index n = Inr i" "i \<le> 16" "n \<le> prime_at i"
    using assms by (rule index_bound)
  define h where "h = \<lparr>hash_f = hsh, eq_f = equ, del_f = df, alloc_f = al,
    entries = replicate (prime_at i) Empty, hsize = prime_at i, n_elements = 0, n_deleted = 0,
    searches = 0, collisions = 0, size_prime_index = i\<rparr>"
  have "htab_create_typed_alloc n hsh equ df True al = (if al (hsize h) then Inr (Some h) else Inr None)"
    by (simp add: htab_create_typed_alloc_def i Let_def h_def)
  moreover have "htab_inv hsh equ h" "elements h = {}"
    by (rule empty_inv; simp add: h_def i)+
  moreover have "n \<le> hsize h" "del_f h = df" "alloc_f h = al" using i(3) by (simp_all add: h_def)
  ultimately show ?thesis by blast
qed

lemma inv_small: "htab_inv hsh equ h \<Longrightarrow> hsize h \<le> 524287"
  using prime_at_mono [of "size_prime_index h" 16] by (simp add: htab_inv_def prime_tab_def)

lemma inv_card:
  assumes "htab_inv hsh equ h"
  shows "card (elements h) = htab_elements h" "distinct (lives (entries h))"
proof -
  have "layout hsh equ (hsize h) (entries h)" using assms unfolding htab_inv_def by blast
  then have "sorted_wrt (\<lambda>x y. \<not> equ x y) (lives (entries h))" by (rule layout_pairwise)
  moreover have "sorted_wrt (\<lambda>x y. \<not> equ x y) xs \<Longrightarrow> distinct xs" for xs
    by (induction xs) (auto simp: eq_refl)
  ultimately show d: "distinct (lives (entries h))" by blast
  show "card (elements h) = htab_elements h"
    using d inv_counters(1) [OF assms] by (simp add: elements_def distinct_card)
qed

lemma empty_correct:
  assumes inv: "htab_inv hsh equ h" and al: "\<And>n. alloc_f h n"
  shows "\<exists>h' gone. htab_empty h = Inr (h', gone) \<and> htab_inv hsh equ h' \<and> elements h' = {} \<and>
    del_f h' = del_f h \<and> alloc_f h' = alloc_f h \<and>
    set gone = (if del_f h then elements h else {}) \<and> distinct gone"
proof -
  have d: "deletions h = (if del_f h then rev (lives (entries h)) else [])"
  proof -
    have "hsize h - 1 < 2 ^ 31" using inv_small [OF inv] by simp
    then show ?thesis by (simp only: deletions_def simp_thms)
  qed
  have f: "hash_f h = hsh" "eq_f h = equ" "size_prime_index h \<le> 16" "hsize h = prime_at (size_prime_index h)"
    using inv by (simp_all add: htab_inv_def)
  obtain i where i: "higher_prime_index (1024 div 8) = Inr i" "i \<le> 16" "1024 div 8 \<le> prime_at i"
    by (rule index_bound [of "1024 div 8"]) simp_all
  define h' where "h' = (if hsize h > 1024 * 1024 div 8
    then h\<lparr>entries := replicate (prime_at i) Empty, hsize := prime_at i, size_prime_index := i,
           n_deleted := 0, n_elements := 0\<rparr>
    else h\<lparr>entries := replicate (hsize h) Empty, n_deleted := 0, n_elements := 0\<rparr>)"
  have "htab_empty h = Inr (h', deletions h)"
    unfolding htab_empty_def i(1) h'_def by (simp add: al Let_def)
  moreover have "htab_inv hsh equ h'" "elements h' = {}"
    by (rule empty_inv; use f i in \<open>simp add: h'_def\<close>)+
  moreover have "del_f h' = del_f h" "alloc_f h' = alloc_f h" by (simp_all add: h'_def)
  ultimately show ?thesis using d inv_card(2) [OF inv] by (auto simp: elements_def)
qed

end

subsection \<open>Traversal\<close>

text \<open>A callback that leaves the table alone and always continues.\<close>

lemma traverse_loop_lives:
  "(\<And>i h s. callback i h s = ((h, f (entries h ! i) s), True)) \<Longrightarrow>
   traverse_loop callback i (length (entries h)) h s =
     (h, foldl (\<lambda>s x. f (Live x) s) s (lives (drop i (entries h))))"
proof (induction "length (entries h) - i" arbitrary: i s)
  case 0
  then show ?case by (subst traverse_loop.simps) simp
next
  case (Suc n)
  then have i: "i < length (entries h)" "n = length (entries h) - Suc i" by auto
  then have "drop i (entries h) = entries h ! i # drop (Suc i) (entries h)"
    by (simp add: Cons_nth_drop_Suc)
  then show ?case
    using Suc.hyps(1) [OF i(2) Suc.prems] i(1) Suc.prems
    by (subst traverse_loop.simps) (auto split: entry.splits)
qed

subsection \<open>Properties\<close>

text \<open>C13: A search returns for every table that satisfies the invariant, changes only the counters of
  searches and collisions, and gives the element equal to the key, or nothing when there is none.\<close>

theorem htab_find_refines:
  assumes "htab_keys hsh equ" "htab_inv hsh equ h"
  shows "\<exists>r s c. htab_find h x = returns (h\<lparr>searches := s, collisions := c\<rparr>, r) \<and>
    (case r of Some y \<Rightarrow> y \<in> elements h \<and> equ y x | None \<Rightarrow> \<forall>y \<in> elements h. \<not> equ y x)"
  using assms by (rule htab_keys.find_correct)

text \<open>C11: Asking for a slot with \<open>INSERT\<close> and writing the element into it when it is empty adds the
  element to the set unless an equal one is there, which is reported; it returns and keeps the invariant,
  also when the table has to be enlarged, shrunk or cleaned of deleted entries first, and leaves the table
  as it was when there is no memory for that.\<close>

theorem htab_insert_refines:
  assumes "htab_keys hsh equ" "htab_inv hsh equ h" "card (elements h) \<le> 262143"
  shows "\<exists>h' r. htab_store h x = returns (h', r) \<and> htab_inv hsh equ h' \<and>
    del_f h' = del_f h \<and> alloc_f h' = alloc_f h \<and>
    (case r of
       None \<Rightarrow> h' = h \<and> (\<exists>n. \<not> alloc_f h n)
     | Some present \<Rightarrow> present = (\<exists>y \<in> elements h. equ y x) \<and>
         elements h' = (if present then elements h else insert x (elements h)))"
proof -
  have "htab_elements h * 2 \<le> 524287"
    using htab_keys.inv_card(1) [OF assms(1,2)] assms(3) by simp
  with assms(1,2) show ?thesis by (rule htab_keys.store_correct)
qed


text \<open>A table of strings with the one element \<open>''a''\<close>, for the witnesses.\<close>

lemma string_table:
  obtains h where "htab_inv htab_hash_string htab_eq_string h" "elements h = {[97]}" "del_f h"
proof -
  obtain h where h: "htab_inv htab_hash_string htab_eq_string h" "elements h = {}" "del_f h"
    "alloc_f h = (\<lambda>_. True)"
    using str.create_correct [of 5 True "\<lambda>_. True"] by auto
  have "htab_elements h * 2 \<le> 524287" using str.inv_card(1) [OF h(1)] h(2) by simp
  from str.store_correct [OF h(1) this, of "[97]"] h show ?thesis
    by (elim exE) (auto intro: that split: option.splits)
qed

theorem htab_find_refines_witness:
  "\<exists>h h'. htab_inv htab_hash_string htab_eq_string h \<and> htab_find h [97, 0, 98] = returns (h', Some [97])"
proof -
  obtain h where h: "htab_inv htab_hash_string htab_eq_string h" "elements h = {[97]}"
    using string_table by blast
  have eq: "htab_eq_string [97] [97, 0, 98]" by (simp add: htab_eq_string_def)
  obtain r s c where r: "htab_find h [97, 0, 98] = returns (h\<lparr>searches := s, collisions := c\<rparr>, r)"
    "case r of Some y \<Rightarrow> y \<in> {[97]} \<and> htab_eq_string y [97, 0, 98]
     | None \<Rightarrow> \<forall>y \<in> {[97]}. \<not> htab_eq_string y [97, 0, 98]"
    using htab_find_refines [OF str.htab_keys_axioms h(1), of "[97, 0, 98]"] unfolding h(2) by blast
  then have "r = Some [97]" using eq by (cases r) simp_all
  with h(1) r(1) show ?thesis by blast
qed

theorem htab_insert_refines_witness:
  "\<exists>h h' r. htab_inv htab_hash_string htab_eq_string h \<and> htab_store h [97, 0, 98] = returns (h', r) \<and>
     r \<noteq> Some False"
proof -
  obtain h where h: "htab_inv htab_hash_string htab_eq_string h" "elements h = {[97]}"
    using string_table by blast
  have eq: "htab_eq_string [97] [97, 0, 98]" by (simp add: htab_eq_string_def)
  have "card (elements h) \<le> 262143" using h(2) by simp
  from htab_insert_refines [OF str.htab_keys_axioms h(1) this, of "[97, 0, 98]"] obtain h' r where
    r: "htab_store h [97, 0, 98] = returns (h', r)"
      "\<forall>b. r = Some b \<longrightarrow> b = (\<exists>y \<in> {[97]}. htab_eq_string y [97, 0, 98])"
    unfolding h(2) by (auto split: option.splits)
  then have "r \<noteq> Some False" using eq by auto
  with h(1) r(1) show ?thesis by blast
qed


end
