(* ===== verification/Seen_Cache.thy ===== *)
theory Seen_Cache
  imports Hash_Set
begin

text \<open>
  The cache of file names already seen (\<^verbatim>\<open>gdb-15.1/gdb/filename-seen-cache.c\<close>), a client of the hash table
  with file names as keys: for every sequence of names the cache answers whether a name equal to it came
  before.
\<close>

subsection \<open>The class \<open>filename_seen_cache\<close>\<close>

text \<open>
  The constructor: \<^verbatim>\<open>xcalloc\<close> does not fail. The two flags are those of \<open>filename_cmp\<close>.
\<close>

definition INITIAL_FILENAME_SEEN_CACHE_SIZE :: nat where
  "INITIAL_FILENAME_SEEN_CACHE_SIZE = 100"

definition filename_seen_cache :: "bool \<Rightarrow> bool \<Rightarrow> htab_error + cstring htab option" where
  "filename_seen_cache dos ci =
    htab_create_alloc INITIAL_FILENAME_SEEN_CACHE_SIZE filename_hash (filename_eq dos ci) False
      True (\<lambda>_. True)"

definition seen_cache_clear :: "'a htab \<Rightarrow> htab_error + 'a htab" where
  "seen_cache_clear h = (case htab_empty h of Inl e \<Rightarrow> Inl e | Inr (h, _) \<Rightarrow> Inr h)"

text \<open>Without memory the code reads through a null pointer.\<close>

definition seen :: "'a htab \<Rightarrow> 'a \<Rightarrow> ('a htab \<times> bool) run" where
  "seen h file =
    after_run (htab_find_slot h file INSERT)
      (\<lambda>(h, slot). case slot of
         None \<Rightarrow> Some (Inl Out_of_bounds)
       | Some s \<Rightarrow>
           if entries h ! s \<noteq> Empty then returns (h, True)
           else returns (h\<lparr>entries := (entries h)[s := Live file]\<rparr>, False))"

definition seen_cache_traverse :: "'a htab \<Rightarrow> ('a \<Rightarrow> 's \<Rightarrow> 's) \<Rightarrow> 's \<Rightarrow> 's" where
  "seen_cache_traverse h callback s =
    snd (htab_traverse_noresize h
      (\<lambda>slot h s. ((h, case contents (entries h ! slot) of None \<Rightarrow> s | Some file \<Rightarrow> callback file s), True)) s)"

text \<open>A client that asks for one file name after the other.\<close>

fun seen_all :: "'a htab \<Rightarrow> 'a list \<Rightarrow> ('a htab \<times> bool list) run" where
  "seen_all h [] = returns (h, [])"
| "seen_all h (file # files) =
    after_run (seen h file)
      (\<lambda>(h, b). after_run (seen_all h files) (\<lambda>(h, bs). returns (h, b # bs)))"

subsection \<open>The answers\<close>

lemma seen_store: "seen h x = after_run (htab_store h x)
    (\<lambda>(h, r). case r of None \<Rightarrow> Some (Inl Out_of_bounds) | Some b \<Rightarrow> returns (h, b))"
  unfolding seen_def htab_store_def after_run_def
  by (auto split: option.splits sum.splits prod.splits if_splits)

lemma seen_cache_traverse_foldl:
  assumes "length (entries h) = hsize h"
  shows "seen_cache_traverse h callback s = foldl (\<lambda>s x. callback x s) s (lives (entries h))"
proof -
  let ?f = "\<lambda>e s. case contents e of None \<Rightarrow> s | Some file \<Rightarrow> callback file s"
  show ?thesis
    unfolding seen_cache_traverse_def htab_traverse_noresize_def
    using traverse_loop_lives [of "\<lambda>slot h s. ((h, ?f (entries h ! slot) s), True)" ?f 0 h s] assms
    by simp
qed

context htab_keys
begin

lemma seen_correct:
  assumes inv: "htab_inv hsh equ h" and al: "\<And>n. alloc_f h n" and small: "card (elements h) \<le> 262143"
  shows "\<exists>h'. seen h x = returns (h', \<exists>y \<in> elements h. equ y x) \<and> htab_inv hsh equ h' \<and>
    (\<forall>n. alloc_f h' n) \<and>
    elements h' = (if \<exists>y \<in> elements h. equ y x then elements h else insert x (elements h))"
proof -
  have "htab_elements h * 2 \<le> 524287" using small inv_card(1) [OF inv] by simp
  from store_correct [OF inv this, of x] obtain h' r where
    r: "htab_store h x = returns (h', r)" "htab_inv hsh equ h'" "alloc_f h' = alloc_f h"
    "case r of None \<Rightarrow> h' = h \<and> (\<exists>n. \<not> alloc_f h n)
     | Some b \<Rightarrow> b = (\<exists>y \<in> elements h. equ y x) \<and>
         elements h' = (if b then elements h else insert x (elements h))"
    by blast
  then show ?thesis using al by (cases r) (auto simp: seen_store)
qed

lemma seen_all_correct:
  assumes "htab_inv hsh equ h" and "\<forall>n. alloc_f h n" and "card (elements h) + length xs \<le> 262144"
    and "elements h \<subseteq> set past" "\<forall>x \<in> set past. \<exists>y \<in> elements h. equ y x"
  shows "\<exists>h'. seen_all h xs =
      returns (h', map (\<lambda>i. \<exists>y \<in> set past \<union> set (take i xs). equ y (xs ! i)) [0..<length xs]) \<and>
    htab_inv hsh equ h' \<and> elements h' \<subseteq> set past \<union> set xs \<and>
    (\<forall>x \<in> set past \<union> set xs. \<exists>y \<in> elements h'. equ y x)"
  using assms
proof (induction xs arbitrary: h past)
  case (Cons x xs)
  have same: "(\<exists>y \<in> elements h. equ y z) \<longleftrightarrow> (\<exists>y \<in> set past. equ y z)" for z
    using Cons.prems(4,5) by (meson eq_trans subsetD)
  have "card (elements h) \<le> 262143" using Cons.prems(3) by simp
  from seen_correct [OF Cons.prems(1) Cons.prems(2) [rule_format] this, of x] obtain h1 where
    h1: "seen h x = returns (h1, \<exists>y \<in> elements h. equ y x)" "htab_inv hsh equ h1" "\<forall>n. alloc_f h1 n"
    "elements h1 = (if \<exists>y \<in> elements h. equ y x then elements h else insert x (elements h))"
    by blast
  have "finite (elements h)" by (simp add: elements_def)
  then have "card (elements h1) + length xs \<le> 262144"
    using Cons.prems(3) h1(4) by (auto simp: card_insert_if)
  moreover have "elements h1 \<subseteq> set (past @ [x])" using h1(4) Cons.prems(4) by auto
  moreover have "\<forall>z \<in> set (past @ [x]). \<exists>y \<in> elements h1. equ y z"
    using h1(4) Cons.prems(5) eq_refl by auto
  ultimately obtain h' where h': "seen_all h1 xs = returns (h',
      map (\<lambda>i. \<exists>y \<in> set (past @ [x]) \<union> set (take i xs). equ y (xs ! i)) [0..<length xs])"
    "htab_inv hsh equ h'" "elements h' \<subseteq> set (past @ [x]) \<union> set xs"
    "\<forall>z \<in> set (past @ [x]) \<union> set xs. \<exists>y \<in> elements h'. equ y z"
    using Cons.IH [OF h1(2,3)] by blast
  have "map (\<lambda>i. \<exists>y \<in> set past \<union> set (take i (x # xs)). equ y ((x # xs) ! i)) [0..<length (x # xs)] =
      (\<exists>y \<in> elements h. equ y x) #
      map (\<lambda>i. \<exists>y \<in> set (past @ [x]) \<union> set (take i xs). equ y (xs ! i)) [0..<length xs]"
    by (simp add: same map_upt_Suc del: upt_Suc)
  with h1(1) h' show ?case by auto
qed auto

end

subsection \<open>Properties\<close>

text \<open>C10: For every sequence of up to 262144 file names, and under all conventions of the file system, the
  cache answers for each name whether an equal one came before it; it always returns, through all
  enlargements of the table. Afterwards a traversal gives one representative of each class of equal names.\<close>

theorem seen_cache_answers:
  assumes "length fs \<le> 262144"
  shows "\<exists>h h'. filename_seen_cache dos ci = Inr (Some h) \<and>
    seen_all h fs = returns (h', map (\<lambda>i. \<exists>j < i. filename_eq dos ci (fs ! j) (fs ! i)) [0..<length fs]) \<and>
    (let names = seen_cache_traverse h' (\<lambda>f fs. fs @ [f]) [] in
       set names \<subseteq> set fs \<and> (\<forall>f \<in> set fs. \<exists>!g. g \<in> set names \<and> filename_eq dos ci g f))"
proof -
  let ?eq = "filename_eq dos ci"
  obtain h where h: "filename_seen_cache dos ci = Inr (Some h)" "htab_inv filename_hash ?eq h"
    "elements h = {}" "\<forall>n. alloc_f h n"
    using filename.create_correct [of INITIAL_FILENAME_SEEN_CACHE_SIZE dos ci False "\<lambda>_. True"]
    by (auto simp: filename_seen_cache_def htab_create_alloc_def INITIAL_FILENAME_SEEN_CACHE_SIZE_def)
  with assms obtain h' where h': "seen_all h fs =
      returns (h', map (\<lambda>i. \<exists>y \<in> set [] \<union> set (take i fs). ?eq y (fs ! i)) [0..<length fs])"
    "htab_inv filename_hash ?eq h'" "elements h' \<subseteq> set [] \<union> set fs"
    "\<forall>f \<in> set [] \<union> set fs. \<exists>y \<in> elements h'. ?eq y f"
    using filename.seen_all_correct [OF h(2,4), of fs "[]"] by auto
  have "map (\<lambda>i. \<exists>y \<in> set [] \<union> set (take i fs). ?eq y (fs ! i)) [0..<length fs] =
      map (\<lambda>i. \<exists>j < i. ?eq (fs ! j) (fs ! i)) [0..<length fs]"
    by (auto simp: in_set_conv_nth) (metis nth_take, metis in_set_conv_nth length_take min.absorb4 nth_take)
  moreover have "seen_cache_traverse h' (\<lambda>f fs. fs @ [f]) [] = lives (entries h')"
  proof -
    have "length (entries h') = hsize h'" using h'(2) unfolding htab_inv_def by (blast dest: layout_length)
    moreover have "foldl (\<lambda>fs f. fs @ [f]) ys xs = ys @ xs" for xs ys :: "cstring list"
      by (induction xs arbitrary: ys) auto
    ultimately show ?thesis by (simp add: seen_cache_traverse_foldl)
  qed
  moreover have "\<exists>!g. g \<in> elements h' \<and> ?eq g f" if "f \<in> set fs" for f
    using h'(4) that filename.unique_match [OF h'(2)] by (metis UnI2)
  ultimately show ?thesis using h(1) h'(1,3) by (auto simp: elements_def Let_def)
qed

theorem seen_cache_answers_witness:
  "\<exists>h h'. filename_seen_cache True True = Inr (Some h) \<and>
     seen_all h [[97, 47, 66], [98], [65, 92, 98]] = returns (h', [False, False, True])"
proof -
  have eq: "filename_eq True True [97, 47, 66] [65, 92, 98]" "\<not> filename_eq True True [97, 47, 66] [98]"
    by (simp_all add: filename_eq_iff chars_def cmp_char_def TOLOWER_def)
  have "(\<exists>j < (1::nat). P j) = P 0" "(\<exists>j < (2::nat). P j) = (P 0 \<or> P 1)" for P
    by (auto simp: less_Suc_eq numeral_2_eq_2)
  then have "map (\<lambda>i. \<exists>j < i. filename_eq True True ([[97, 47, 66], [98], [65, 92, 98]] ! j)
      ([[97, 47, 66], [98], [65, 92, 98]] ! i)) [0, 1, 2] = [False, False, True]"
    using eq by simp
  moreover have "[0..<length [[97, 47, 66::uint8], [98], [65, 92, 98]]] = [0, 1, 2]"
    by (simp add: upt_rec)
  ultimately show ?thesis
    using seen_cache_answers [of "[[97, 47, 66], [98], [65, 92, 98]]" True True]
    by (simp only: Let_def) (auto simp del: upt.simps)
qed

end
