(* ===== verification/Partition.thy ===== *)
theory Partition
  imports Prelude
begin

text \<open>
  Partitions of a set of integers into classes (\<^verbatim>\<open>gdb-15.1/libiberty/partition.c\<close>): the elements of a class form a
  circular list and are labelled with a canonical element. The locale \<open>union_find\<close> states what a client relies
  on; \<open>partition_union\<close> is proved to provide it, and to relabel more elements than its comments say.
\<close>

subsection \<open>Elements\<close>

text \<open>A pointer to the next element is its index.\<close>

record partition_elem =
  next_elem :: nat
  class_element :: nat
  class_count :: uint32

record partition_def =
  num_elements :: nat
  elements :: "partition_elem list"

definition partition_new :: "nat \<Rightarrow> partition_def" where
  "partition_new n = \<lparr>num_elements = n, elements = map (\<lambda>e. \<lparr>next_elem = e, class_element = e, class_count = 1\<rparr>) [0..<n]\<rparr>"

definition partition_find :: "partition_def \<Rightarrow> nat \<Rightarrow> nat" where
  "partition_find part e = class_element (elements part ! e)"

text \<open>The loop over the list of \<open>e2\<close>; it does not end when the list does not come back to \<open>e2\<close>.\<close>

partial_function (option) relabel :: "nat \<Rightarrow> nat \<Rightarrow> nat \<Rightarrow> partition_elem list \<Rightarrow> partition_elem list option" where
  "relabel c e2 p es =
     (if p = e2 then Some es
      else if p < length es then relabel c e2 (next_elem (es ! p)) (es[p := (es ! p)\<lparr>class_element := c\<rparr>])
      else None)"

declare relabel.simps [code]

text \<open>An access outside of the array is undefined, which is \<open>None\<close> as well.\<close>

definition unite :: "partition_elem list \<Rightarrow> nat \<Rightarrow> nat \<Rightarrow> (partition_elem list \<times> nat) option" where
  "unite es elem1 elem2 =
     (let c = class_element (es ! elem1); c2 = class_element (es ! elem2) in
      if c < length es \<and> c2 < length es
      then let es1 = es[c := (es ! c)\<lparr>class_count := class_count (es ! c) + class_count (es ! c2)\<rparr>];
               es2 = es1[elem2 := (es1 ! elem2)\<lparr>class_element := c\<rparr>]
           in Option.bind (relabel c elem2 (next_elem (es2 ! elem2)) es2) (\<lambda>es3.
                let old_next = next_elem (es3 ! elem1);
                    es4 = es3[elem1 := (es3 ! elem1)\<lparr>next_elem := next_elem (es3 ! elem2)\<rparr>]
                in Some (es4[elem2 := (es4 ! elem2)\<lparr>next_elem := old_next\<rparr>], c))
      else None)"

definition partition_union :: "partition_def \<Rightarrow> nat \<Rightarrow> nat \<Rightarrow> (partition_def \<times> nat) option" where
  "partition_union part elem1 elem2 =
     (let es = elements part in
      if elem1 < length es \<and> elem2 < length es
      then if class_element (es ! elem1) = class_element (es ! elem2) then Some (part, class_element (es ! elem1))
           else map_option (\<lambda>(es1, c). (part\<lparr>elements := es1\<rparr>, c))
                  (if class_count (es ! elem1) < class_count (es ! elem2) then unite es elem2 elem1 else unite es elem1 elem2)
      else None)"

subsection \<open>Circular lists\<close>

text \<open>The elements from \<open>p\<close> on, up to but not including \<open>q\<close>.\<close>

fun path :: "partition_elem list \<Rightarrow> nat \<Rightarrow> nat list \<Rightarrow> nat \<Rightarrow> bool" where
  "path es p [] q \<longleftrightarrow> p = q"
| "path es p (x # xs) q \<longleftrightarrow> x = p \<and> p < length es \<and> path es (next_elem (es ! p)) xs q"

lemma path_append: "path es p (xs @ ys) q \<longleftrightarrow> (\<exists>r. path es p xs r \<and> path es r ys q)"
  by (induction xs arbitrary: p) auto

lemma path_cong:
  "length es1 = length es \<Longrightarrow> \<forall>x \<in> set xs. next_elem (es1 ! x) = next_elem (es ! x) \<Longrightarrow> path es1 p xs q = path es p xs q"
  by (induction xs arbitrary: p) auto

lemma path_bound: "path es p xs q \<Longrightarrow> x \<in> set xs \<Longrightarrow> x < length es"
  by (induction xs arbitrary: p) auto

lemma path_rotate:
  assumes "path es e xs e" "distinct xs" "x \<in> set xs"
  shows "\<exists>ys. path es x ys x \<and> distinct ys \<and> set ys = set xs \<and> length ys = length xs"
proof -
  obtain us vs where xs: "xs = us @ x # vs" using split_list [OF assms(3)] by blast
  have "path es e (us @ x # vs) e" using assms(1) xs by simp
  then obtain r where r: "path es e us r" "path es r (x # vs) e" unfolding path_append by blast
  then have "path es x ((x # vs) @ us) x" unfolding path_append by auto
  then show ?thesis using assms(2) xs by (intro exI [of _ "(x # vs) @ us"]) auto
qed

lemma relabel_path:
  assumes "path es p xs e2" "distinct xs" "e2 \<notin> set xs"
  shows "\<exists>es1. relabel c e2 p es = Some es1 \<and> length es1 = length es \<and>
    (\<forall>i < length es. es1 ! i = (if i \<in> set xs then (es ! i)\<lparr>class_element := c\<rparr> else es ! i))"
  using assms
proof (induction xs arbitrary: es p)
  case Nil
  then show ?case by (subst relabel.simps) auto
next
  case (Cons x xs)
  let ?es = "es[p := (es ! p)\<lparr>class_element := c\<rparr>]"
  have p: "x = p" "p < length es" "p \<noteq> e2" "p \<notin> set xs" using Cons.prems by auto
  have "path ?es (next_elem (es ! p)) xs e2"
    using Cons.prems(1) path_cong [of ?es es xs "next_elem (es ! p)" e2] by (auto simp: nth_list_update)
  then obtain es1 where es1: "relabel c e2 (next_elem (es ! p)) ?es = Some es1" "length es1 = length es"
    "\<forall>i < length es. es1 ! i = (if i \<in> set xs then (?es ! i)\<lparr>class_element := c\<rparr> else ?es ! i)"
    using Cons.IH [of ?es "next_elem (es ! p)"] Cons.prems by auto
  moreover have "relabel c e2 p es = Some es1" using es1(1) p by (subst relabel.simps) simp
  ultimately show ?case using p by (auto simp: nth_list_update)
qed

text \<open>Two circles become one when the successors of one element of each are exchanged.\<close>

lemma splice:
  assumes "path es e1 (e1 # ys) e1" "path es e2 (e2 # zs) e2" "distinct (e1 # ys)" "distinct (e2 # zs)" "set (e1 # ys) \<inter> set (e2 # zs) = {}"
    and "length es1 = length es" "next_elem (es1 ! e1) = next_elem (es ! e2)" "next_elem (es1 ! e2) = next_elem (es ! e1)"
    and "\<forall>x \<in> set ys \<union> set zs. next_elem (es1 ! x) = next_elem (es ! x)"
  shows "path es1 e1 (e1 # zs @ e2 # ys) e1"
proof -
  have same: "\<forall>x \<in> set zs. next_elem (es1 ! x) = next_elem (es ! x)" "\<forall>x \<in> set ys. next_elem (es1 ! x) = next_elem (es ! x)"
    using assms(3-5,9) by auto
  have "path es1 (next_elem (es ! e2)) zs e2" unfolding path_cong [OF assms(6) same(1)] using assms(2) by simp
  moreover have "path es1 (next_elem (es ! e1)) ys e1" unfolding path_cong [OF assms(6) same(2)] using assms(1) by simp
  ultimately show ?thesis using assms(1,2,6,7,8) by (auto simp: path_append)
qed

subsection \<open>Well-formed partitions\<close>

definition class_of :: "partition_elem list \<Rightarrow> nat \<Rightarrow> nat set" where
  "class_of es e = {x. x < length es \<and> class_element (es ! x) = class_element (es ! e)}"

definition circles :: "partition_elem list \<Rightarrow> bool" where
  "circles es \<longleftrightarrow> length es < 2 ^ 31 \<and> (\<forall>e < length es.
     class_element (es ! e) \<in> class_of es e \<and> unat (class_count (es ! class_element (es ! e))) = card (class_of es e) \<and>
     (\<exists>xs. path es e xs e \<and> distinct xs \<and> set xs = class_of es e))"

lemma class_of_simps [simp]:
  "x \<in> class_of es e \<longleftrightarrow> x < length es \<and> class_element (es ! x) = class_element (es ! e)"
  by (simp add: class_of_def)

lemma finite_class [simp]: "finite (class_of es e)"
  by (simp add: class_of_def)

lemma circle_split:
  assumes "circles es" "e < length es"
  obtains ys where "path es e (e # ys) e" "distinct (e # ys)" "set (e # ys) = class_of es e"
proof -
  obtain xs where xs: "path es e xs e" "distinct xs" "set xs = class_of es e" using assms unfolding circles_def by blast
  then have "e \<in> set xs" using assms(2) by simp
  then obtain x ys where "xs = x # ys" by (cases xs) auto
  then show ?thesis using xs that by auto
qed

text \<open>What the array holds after a union: the class of \<open>b\<close> has the label of \<open>a\<close>, and two successors are exchanged.\<close>

definition united :: "partition_elem list \<Rightarrow> nat \<Rightarrow> nat \<Rightarrow> partition_elem list \<Rightarrow> bool" where
  "united es a b es1 \<longleftrightarrow> length es1 = length es \<and>
     (\<forall>i < length es. class_element (es1 ! i) = (if i \<in> class_of es b then class_element (es ! a) else class_element (es ! i)) \<and>
        class_count (es1 ! i) = (if i = class_element (es ! a)
          then class_count (es ! i) + class_count (es ! class_element (es ! b)) else class_count (es ! i)) \<and>
        next_elem (es1 ! i) = next_elem (es ! (if i = a then b else if i = b then a else i)))"

lemma unite_united:
  assumes "circles es" "a < length es" "b < length es" "class_element (es ! a) \<noteq> class_element (es ! b)"
  shows "\<exists>es1. unite es a b = Some (es1, class_element (es ! a)) \<and> united es a b es1"
proof -
  define c where "c = class_element (es ! a)"
  define c2 where "c2 = class_element (es ! b)"
  have bound: "c < length es" "c2 < length es" using assms(1-3) by (auto simp: circles_def c_def c2_def)
  obtain zs where zs: "path es b (b # zs) b" "distinct (b # zs)" "set (b # zs) = class_of es b"
    using circle_split [OF assms(1,3)] .
  define es2 where "es2 = (es[c := (es ! c)\<lparr>class_count := class_count (es ! c) + class_count (es ! c2)\<rparr>])
    [b := (es[c := (es ! c)\<lparr>class_count := class_count (es ! c) + class_count (es ! c2)\<rparr>] ! b)\<lparr>class_element := c\<rparr>]"
  have len: "length es2 = length es" by (simp add: es2_def)
  have es2: "class_element (es2 ! i) = (if i = b then c else class_element (es ! i)) \<and>
      class_count (es2 ! i) = (if i = c then class_count (es ! i) + class_count (es ! c2) else class_count (es ! i)) \<and>
      next_elem (es2 ! i) = next_elem (es ! i)" if "i < length es" for i
    using that bound by (auto simp: es2_def nth_list_update)
  have "path es2 (next_elem (es ! b)) zs b"
  proof -
    have "x < length es" if "x \<in> set zs" for x
    proof -
      have "x \<in> class_of es b" using that unfolding zs(3) [symmetric] by simp
      then show ?thesis by simp
    qed
    then have same: "\<forall>x \<in> set zs. next_elem (es2 ! x) = next_elem (es ! x)" using es2 by blast
    show ?thesis unfolding path_cong [OF len same] using zs(1) by simp
  qed
  then obtain es3 where es3: "relabel c b (next_elem (es2 ! b)) es2 = Some es3" "length es3 = length es"
    "\<forall>i < length es. es3 ! i = (if i \<in> set zs then (es2 ! i)\<lparr>class_element := c\<rparr> else es2 ! i)"
    using relabel_path [of es2 "next_elem (es2 ! b)" zs b c] zs(2) es2 [OF assms(3)] len by auto
  have cl: "class_element (es3 ! i) = (if i \<in> class_of es b then c else class_element (es ! i))"
    "class_count (es3 ! i) = (if i = c then class_count (es ! i) + class_count (es ! c2) else class_count (es ! i))"
    "next_elem (es3 ! i) = next_elem (es ! i)" if "i < length es" for i
    using es3(3) es2 [OF that] that unfolding zs(3) [symmetric] by auto
  define es4 where "es4 = es3[a := (es3 ! a)\<lparr>next_elem := next_elem (es3 ! b)\<rparr>]"
  define es5 where "es5 = es4[b := (es4 ! b)\<lparr>next_elem := next_elem (es3 ! a)\<rparr>]"
  have "unite es a b = Some (es5, c)"
    using bound es3(1) unfolding unite_def Let_def c_def [symmetric] c2_def [symmetric] es2_def [symmetric]
    by (simp add: es5_def es4_def)
  moreover have "united es a b es5"
  proof -
    have ne: "a \<noteq> b" using assms(4) by auto
    have "class_element (es5 ! i) = class_element (es3 ! i) \<and> class_count (es5 ! i) = class_count (es3 ! i) \<and>
        next_elem (es5 ! i) = next_elem (es3 ! (if i = a then b else if i = b then a else i))" if "i < length es" for i
      using that ne es3(2) assms(2,3) by (auto simp: es5_def es4_def nth_list_update)
    note es5 = this
    have "length es5 = length es" using es3(2) by (simp add: es5_def es4_def)
    moreover have "next_elem (es3 ! (if i = a then b else if i = b then a else i)) = next_elem (es ! (if i = a then b else if i = b then a else i))"
      if "i < length es" for i by (rule cl(3)) (use that assms(2,3) in simp)
    ultimately show ?thesis
      unfolding united_def c_def [symmetric] c2_def [symmetric] using cl(1,2) es5 by (intro conjI allI impI) simp_all
  qed
  ultimately show ?thesis unfolding c_def by blast
qed

lemma united_circles:
  assumes "circles es" "a < length es" "b < length es" "class_element (es ! a) \<noteq> class_element (es ! b)" "united es a b es1"
  shows "circles es1"
    and "x < length es \<Longrightarrow> class_of es1 x = (if x \<in> class_of es a \<union> class_of es b then class_of es a \<union> class_of es b else class_of es x)"
proof -
  define c where "c = class_element (es ! a)"
  let ?U = "class_of es a \<union> class_of es b"
  have u: "length es1 = length es"
    "\<And>i. i < length es \<Longrightarrow> class_element (es1 ! i) = (if i \<in> class_of es b then c else class_element (es ! i))"
    "\<And>i. i < length es \<Longrightarrow> class_count (es1 ! i) = (if i = c then class_count (es ! i) + class_count (es ! class_element (es ! b)) else class_count (es ! i))"
    "\<And>i. i < length es \<Longrightarrow> next_elem (es1 ! i) = next_elem (es ! (if i = a then b else if i = b then a else i))"
    using assms(5) by (simp_all add: united_def c_def)
  have can: "class_element (es ! e) < length es" "class_element (es ! class_element (es ! e)) = class_element (es ! e)"
    "unat (class_count (es ! class_element (es ! e))) = card (class_of es e)" if "e < length es" for e
    using assms(1) that by (simp_all add: circles_def)
  have cls: "class_of es1 x = (if x \<in> ?U then ?U else class_of es x)" if "x < length es" for x
    using that u(1,2) can assms(4) by (auto simp: c_def class_of_def split: if_splits)
  then show "x < length es \<Longrightarrow> class_of es1 x = (if x \<in> ?U then ?U else class_of es x)" by blast
  obtain ys where ys: "path es a (a # ys) a" "distinct (a # ys)" "set (a # ys) = class_of es a" using circle_split [OF assms(1,2)] .
  obtain zs where zs: "path es b (b # zs) b" "distinct (b # zs)" "set (b # zs) = class_of es b" using circle_split [OF assms(1,3)] .
  have disj: "class_of es a \<inter> class_of es b = {}" using assms(4) by auto
  have big: "path es1 a (a # zs @ b # ys) a"
  proof (rule splice [OF ys(1) zs(1) ys(2) zs(2)])
    show "set (a # ys) \<inter> set (b # zs) = {}" unfolding ys(3) zs(3) by (rule disj)
    show "length es1 = length es" by (rule u(1))
    have ne: "a \<noteq> b" using assms(4) by auto
    show "next_elem (es1 ! a) = next_elem (es ! b)" using u(4) [OF assms(2)] by simp
    show "next_elem (es1 ! b) = next_elem (es ! a)" using u(4) [OF assms(3)] ne by simp
    show "\<forall>x \<in> set ys \<union> set zs. next_elem (es1 ! x) = next_elem (es ! x)"
    proof
      fix x assume "x \<in> set ys \<union> set zs"
      then have x: "x \<in> set (a # ys) \<and> x \<noteq> a \<or> x \<in> set (b # zs) \<and> x \<noteq> b" using ys(2) zs(2) by auto
      then have "x \<noteq> a \<and> x \<noteq> b \<and> x < length es"
        unfolding ys(3) zs(3) using assms(4) by auto
      then show "next_elem (es1 ! x) = next_elem (es ! x)" using u(4) [of x] by simp
    qed
  qed
  have dist: "distinct (a # zs @ b # ys)" "set (a # zs @ b # ys) = ?U"
    using ys(2,3) zs(2,3) disj by auto
  have len: "length es < 2 ^ 31" using assms(1) by (simp add: circles_def)
  have small: "card ?U \<le> length es"
    using card_mono [of "{..<length es}" ?U] by (auto simp: subset_iff)
  have card: "card ?U = card (class_of es a) + card (class_of es b)" by (rule card_Un_disjoint) (use disj in auto)
  have "class_element (es1 ! e) \<in> class_of es1 e \<and> unat (class_count (es1 ! class_element (es1 ! e))) = card (class_of es1 e) \<and>
      (\<exists>xs. path es1 e xs e \<and> distinct xs \<and> set xs = class_of es1 e)" if e: "e < length es" for e
  proof (cases "e \<in> ?U")
    case True
    then have label: "class_element (es1 ! e) = c" "class_of es1 e = ?U" using u(2) [OF e] cls [OF e] by (auto simp: c_def)
    have "c \<in> ?U" using can(1,2) [OF assms(2)] by (simp add: c_def)
    moreover have "unat (class_count (es1 ! c)) = card ?U"
    proof -
      have "class_count (es1 ! c) = class_count (es ! c) + class_count (es ! class_element (es ! b))"
        using u(3) can(1) [OF assms(2)] by (simp add: c_def)
      moreover
      have "unat (class_count (es ! c)) + unat (class_count (es ! class_element (es ! b))) < 2 ^ 31"
        using can(3) [OF assms(2)] can(3) [OF assms(3)] card small len unfolding c_def by linarith
      then have "unat (class_count (es ! c)) + unat (class_count (es ! class_element (es ! b))) < 2 ^ 32" by simp
      ultimately show ?thesis using can(3) [OF assms(2)] can(3) [OF assms(3)] card unfolding c_def
        by (simp add: unat_plus_if' )
    qed
    moreover have "\<exists>xs. path es1 e xs e \<and> distinct xs \<and> set xs = ?U"
      using path_rotate [OF big dist(1)] True unfolding dist(2) by blast
    ultimately show ?thesis unfolding label by blast
  next
    case False
    then have label: "class_element (es1 ! e) = class_element (es ! e)" "class_of es1 e = class_of es e"
      using u(2) [OF e] cls [OF e] e by auto
    obtain xs where xs: "path es e xs e" "distinct xs" "set xs = class_of es e" using assms(1) e unfolding circles_def by blast
    have "next_elem (es1 ! x) = next_elem (es ! x)" if "x \<in> set xs" for x
      using that False e u(4) [of x] assms(2,3) unfolding xs(3) by (auto split: if_splits)
    then have "path es1 e xs e" using path_cong [OF u(1)] xs(1) by blast
    moreover have "class_element (es ! e) \<noteq> c" using False e by (simp add: c_def)
    then have "class_count (es1 ! class_element (es ! e)) = class_count (es ! class_element (es ! e))"
      using u(3) can(1) [OF e] by simp
    ultimately show ?thesis unfolding label using xs(2,3) can [OF e] by auto
  qed
  then show "circles es1" using len u(1) unfolding circles_def by simp
qed

subsection \<open>Unions\<close>

definition part_ok :: "nat \<Rightarrow> partition_def \<Rightarrow> bool" where
  "part_ok n part \<longleftrightarrow> num_elements part = n \<and> length (elements part) = n \<and> circles (elements part)"

lemma partition_new_ok: "n < 2 ^ 31 \<Longrightarrow> part_ok n (partition_new n)"
proof -
  assume n: "n < 2 ^ 31"
  let ?es = "elements (partition_new n)"
  have es: "length ?es = n" "\<And>e. e < n \<Longrightarrow> ?es ! e = \<lparr>next_elem = e, class_element = e, class_count = 1\<rparr>"
    by (simp_all add: partition_new_def)
  have cls: "class_of ?es e = {e}" if "e < n" for e using es that by auto
  have "path ?es e [e] e" if "e < n" for e using es that by simp
  then have "circles ?es" unfolding circles_def es(1) using n cls es by (auto intro!: exI [of _ "[_]"])
  then show ?thesis by (simp add: part_ok_def es(1) partition_new_def)
qed

lemma partition_union_ok:
  assumes "part_ok n part" "x < n" "y < n"
  shows "\<exists>part1 c. partition_union part x y = Some (part1, c) \<and> part_ok n part1 \<and> c = partition_find part1 x \<and>
    (\<forall>i < n. \<forall>j < n. partition_find part1 i = partition_find part1 j \<longleftrightarrow> partition_find part i = partition_find part j \<or>
       partition_find part i = partition_find part x \<and> partition_find part j = partition_find part y \<or>
       partition_find part i = partition_find part y \<and> partition_find part j = partition_find part x)"
proof (cases "partition_find part x = partition_find part y")
  case True
  then show ?thesis using assms by (intro exI [of _ part] exI [of _ "partition_find part x"])
    (auto simp: partition_union_def partition_find_def part_ok_def)
next
  case False
  let ?es = "elements part"
  define a where "a = (if class_count (?es ! x) < class_count (?es ! y) then y else x)"
  define b where "b = (if class_count (?es ! x) < class_count (?es ! y) then x else y)"
  have es: "circles ?es" "length ?es = n" using assms(1) by (simp_all add: part_ok_def)
  have ab: "a < length ?es" "b < length ?es" "class_element (?es ! a) \<noteq> class_element (?es ! b)"
    using False assms es by (auto simp: a_def b_def partition_find_def)
  obtain es1 where es1: "unite ?es a b = Some (es1, class_element (?es ! a))" "united ?es a b es1"
    using unite_united [OF es(1) ab] by blast
  have u: "partition_union part x y = Some (part\<lparr>elements := es1\<rparr>, class_element (?es ! a))"
    using es1(1) False assms(2,3) es(2) by (auto simp: partition_union_def Let_def a_def b_def partition_find_def)
  have f: "partition_find (part\<lparr>elements := es1\<rparr>) i =
      (if partition_find part i = partition_find part b then partition_find part a else partition_find part i)" if "i < n" for i
    using es1(2) that es(2) by (simp add: united_def partition_find_def)
  have "part_ok n (part\<lparr>elements := es1\<rparr>)"
    using united_circles(1) [OF es(1) ab es1(2)] es1(2) assms(1) by (simp add: part_ok_def united_def)
  moreover have "class_element (?es ! a) = partition_find (part\<lparr>elements := es1\<rparr>) x"
    using f assms(2) by (auto simp: a_def b_def partition_find_def)
  moreover have "partition_find (part\<lparr>elements := es1\<rparr>) i = partition_find (part\<lparr>elements := es1\<rparr>) j \<longleftrightarrow>
      partition_find part i = partition_find part j \<or>
       partition_find part i = partition_find part x \<and> partition_find part j = partition_find part y \<or>
       partition_find part i = partition_find part y \<and> partition_find part j = partition_find part x" if "i < n" "j < n" for i j
    using f [OF that(1)] f [OF that(2)] by (auto simp: a_def b_def split: if_splits)
  ultimately show ?thesis using u by blast
qed

subsection \<open>Printing\<close>

definition elem_compare :: "nat \<Rightarrow> nat \<Rightarrow> int" where
  "elem_compare e1 e2 = (if e1 < e2 then - 1 else if e1 > e2 then 1 else 0)"

text \<open>\<open>qsort\<close> of the C library: the elements in the order of the comparison function.\<close>

fun qsort_insert :: "('a \<Rightarrow> 'a \<Rightarrow> int) \<Rightarrow> 'a \<Rightarrow> 'a list \<Rightarrow> 'a list" where
  "qsort_insert cmp x [] = [x]"
| "qsort_insert cmp x (y # ys) = (if cmp x y \<le> 0 then x # y # ys else y # qsort_insert cmp x ys)"

definition qsort :: "('a \<Rightarrow> 'a \<Rightarrow> int) \<Rightarrow> 'a list \<Rightarrow> 'a list" where
  "qsort cmp xs = foldr (qsort_insert cmp) xs []"

text \<open>The conversion \<open>%d\<close> of a number that is not negative.\<close>

fun decimal :: "nat \<Rightarrow> string" where
  "decimal n = (if n < 10 then [char_of (48 + n)] else decimal (n div 10) @ [char_of (48 + n mod 10)])"

declare decimal.simps [simp del]

text \<open>The elements from \<open>c\<close> on are put into the buffer, which has \<open>room\<close> left, and flagged.\<close>

fun collect :: "partition_elem list \<Rightarrow> nat \<Rightarrow> nat \<Rightarrow> nat \<Rightarrow> bool list \<Rightarrow> (nat list \<times> bool list) option" where
  "collect es room 0 c flags = Some ([], flags)"
| "collect es room (Suc k) c flags =
     (if 0 < room \<and> c < length es \<and> c < length flags
      then map_option (\<lambda>(cs, flags1). (c # cs, flags1)) (collect es (room - 1) k (next_elem (es ! c)) (flags[c := True]))
      else None)"

fun print_spaced :: "nat list \<Rightarrow> string" where
  "print_spaced [] = ''''"
| "print_spaced (c # cs) = decimal c @ concat (map (\<lambda>c. '' '' @ decimal c) cs)"

fun print_from :: "partition_def \<Rightarrow> nat list \<Rightarrow> bool list \<Rightarrow> string option" where
  "print_from part [] flags = Some ''''"
| "print_from part (e # rest) flags =
     (if flags ! e then print_from part rest flags
      else let es = elements part; count = unat (class_count (es ! class_element (es ! e))) in
        Option.bind (collect es (num_elements part) count e flags) (\<lambda>(cs, flags1).
          map_option (\<lambda>out. ''('' @ print_spaced (qsort elem_compare cs) @ '')'' @ out) (print_from part rest flags1)))"

definition partition_print :: "partition_def \<Rightarrow> string option" where
  "partition_print part =
     map_option (\<lambda>out. ''['' @ out @ '']'') (print_from part [0..<num_elements part] (replicate (num_elements part) False))"

lemma qsort_insert_insort: "qsort_insert elem_compare x ys = insort x ys"
  by (induction ys) (auto simp: elem_compare_def)

lemma qsort_sort: "qsort elem_compare xs = sort xs"
  by (induction xs) (simp_all add: qsort_def qsort_insert_insort)

lemma collect_path:
  assumes "path es p xs q" "distinct xs" "length xs \<le> room" "length flags = length es"
  shows "\<exists>flags1. collect es room (length xs) p flags = Some (xs, flags1) \<and> length flags1 = length es \<and>
    (\<forall>i < length es. flags1 ! i \<longleftrightarrow> flags ! i \<or> i \<in> set xs)"
  using assms
proof (induction xs arbitrary: p room flags)
  case Nil
  then show ?case by simp
next
  case (Cons x xs)
  have "path es (next_elem (es ! p)) xs q" "length xs \<le> room - 1" "length (flags[p := True]) = length es" using Cons.prems by auto
  then obtain flags1 where f: "collect es (room - 1) (length xs) (next_elem (es ! p)) (flags[p := True]) = Some (xs, flags1)"
    "length flags1 = length es" "\<forall>i < length es. flags1 ! i \<longleftrightarrow> flags[p := True] ! i \<or> i \<in> set xs"
    using Cons.IH [of "next_elem (es ! p)" "room - 1" "flags[p := True]"] Cons.prems(2) by auto
  then show ?case using Cons.prems by (auto simp: nth_list_update)
qed

text \<open>The text of the classes whose least element is one of \<open>xs\<close>.\<close>

definition classes_text :: "partition_elem list \<Rightarrow> nat list \<Rightarrow> string" where
  "classes_text es xs = concat (map (\<lambda>e. ''('' @ print_spaced (sorted_list_of_set (class_of es e)) @ '')'')
     (filter (\<lambda>e. \<forall>x \<in> class_of es e. e \<le> x) xs))"

lemma print_from_text:
  assumes "circles (elements part)" "num_elements part = length (elements part)"
    and "length flags = length (elements part)" "e \<le> length (elements part)"
    and "\<forall>i < length (elements part). flags ! i \<longleftrightarrow> (\<exists>x \<in> class_of (elements part) i. x < e)"
  shows "print_from part [e..<length (elements part)] flags = Some (classes_text (elements part) [e..<length (elements part)])"
  using assms(3-5)
proof (induction "length (elements part) - e" arbitrary: e flags)
  case 0
  then show ?case by (simp add: classes_text_def)
next
  case (Suc k)
  let ?es = "elements part"
  have e: "e < length ?es" "k = length ?es - Suc e" "Suc e \<le> length ?es" using Suc.hyps(2) by auto
  have list: "[e..<length ?es] = e # [Suc e..<length ?es]" using e(1) by (simp add: upt_rec)
  show ?case
  proof (cases "flags ! e")
    case True
    then obtain x where x: "x \<in> class_of ?es e" "x < e" using Suc.prems(3) e(1) by blast
    have "\<forall>i < length ?es. flags ! i \<longleftrightarrow> (\<exists>x \<in> class_of ?es i. x < Suc e)"
      using Suc.prems(3) x by (auto simp: less_Suc_eq)
    then have "print_from part [Suc e..<length ?es] flags = Some (classes_text ?es [Suc e..<length ?es])"
      by (rule Suc.hyps(1) [OF e(2) Suc.prems(1) e(3)])
    moreover have "\<not> (\<forall>x \<in> class_of ?es e. e \<le> x)" using x by (meson not_le)
    ultimately show ?thesis unfolding list using True by (simp del: class_of_simps add: classes_text_def)
  next
    case False
    then have least: "\<forall>x \<in> class_of ?es e. e \<le> x" using Suc.prems(3) e(1) False by (meson not_le)
    obtain xs where xs: "path ?es e xs e" "distinct xs" "set xs = class_of ?es e"
      and count: "unat (class_count (?es ! class_element (?es ! e))) = card (class_of ?es e)"
      using assms(1) e(1) unfolding circles_def by blast
    have len: "length xs = card (class_of ?es e)" using xs(2,3) distinct_card by metis
    have "card (class_of ?es e) \<le> card {..<length ?es}" by (rule card_mono) auto
    then have room: "length xs \<le> num_elements part" using len assms(2) by simp
    obtain flags1 where f: "collect ?es (num_elements part) (length xs) e flags = Some (xs, flags1)" "length flags1 = length ?es"
      "\<forall>i < length ?es. flags1 ! i \<longleftrightarrow> flags ! i \<or> i \<in> set xs"
      using collect_path [OF xs(1,2) room Suc.prems(1)] by blast
    have "flags1 ! i \<longleftrightarrow> (\<exists>x \<in> class_of ?es i. x < Suc e)" if "i < length ?es" for i
    proof -
      have "i \<in> set xs \<longleftrightarrow> e \<in> class_of ?es i" using that e(1) xs(3) by auto
      then show ?thesis using f(3) Suc.prems(3) that by (auto simp: less_Suc_eq)
    qed
    then have rest: "print_from part [Suc e..<length ?es] flags1 = Some (classes_text ?es [Suc e..<length ?es])"
      using Suc.hyps(1) [OF e(2) f(2) e(3)] by blast
    have "sort xs = sorted_list_of_set (class_of ?es e)" using xs(2,3) sorted_list_of_set_sort_remdups [of xs] by (simp add: distinct_remdups_id)
    then show ?thesis unfolding list using False rest f(1) least count len
      by (simp add: classes_text_def qsort_sort Let_def)
  qed
qed

text \<open>C40: Printing a partition writes every class once, its elements in increasing order, and the classes in the order of
  their least elements; the loop that follows a circular list stays within the buffer.
\<close>

theorem partition_print_classes:
  assumes "part_ok n part"
  shows "partition_print part = Some (''['' @ classes_text (elements part) [0..<n] @ '']'')"
proof -
  have "print_from part [0..<length (elements part)] (replicate (num_elements part) False) =
      Some (classes_text (elements part) [0..<length (elements part)])"
    by (rule print_from_text) (use assms in \<open>simp_all add: part_ok_def\<close>)
  then show ?thesis using assms by (simp add: partition_print_def part_ok_def)
qed

theorem partition_print_classes_witness:
  "part_ok 4 (partition_new 4) \<and> partition_print (partition_new 4) = Some (''['' @ classes_text (elements (partition_new 4)) [0..<4] @ '']'')"
  using partition_new_ok [of 4] partition_print_classes [of 4 "partition_new 4"] by simp

subsection \<open>The interface\<close>

text \<open>What a client relies on: a union merges the classes of two elements and nothing else. Numbers of elements are \<open>int\<close>s.\<close>

locale union_find =
  fixes fresh :: "nat \<Rightarrow> 'p"
    and join :: "'p \<Rightarrow> nat \<Rightarrow> nat \<Rightarrow> 'p option"
    and find :: "'p \<Rightarrow> nat \<Rightarrow> nat"
    and valid :: "nat \<Rightarrow> 'p \<Rightarrow> bool"
  assumes fresh_valid: "n < 2 ^ 31 \<Longrightarrow> valid n (fresh n)"
    and fresh_find: "i < n \<Longrightarrow> j < n \<Longrightarrow> find (fresh n) i = find (fresh n) j \<longleftrightarrow> i = j"
    and join_law: "valid n p \<Longrightarrow> x < n \<Longrightarrow> y < n \<Longrightarrow> \<exists>q. join p x y = Some q \<and> valid n q \<and>
      (\<forall>i < n. \<forall>j < n. find q i = find q j \<longleftrightarrow> find p i = find p j \<or>
         find p i = find p x \<and> find p j = find p y \<or> find p i = find p y \<and> find p j = find p x)"

text \<open>A client that unites one pair after another.\<close>

fun unions :: "('p \<Rightarrow> nat \<Rightarrow> nat \<Rightarrow> 'p option) \<Rightarrow> 'p \<Rightarrow> (nat \<times> nat) list \<Rightarrow> 'p option" where
  "unions join p [] = Some p"
| "unions join p ((x, y) # us) = Option.bind (join p x y) (\<lambda>q. unions join q us)"

definition kernel :: "nat \<Rightarrow> (nat \<Rightarrow> nat) \<Rightarrow> (nat \<times> nat) set" where
  "kernel n f = {(i, j). i < n \<and> j < n \<and> f i = f j}"

lemma kernel_closed: "i < n \<Longrightarrow> (i, j) \<in> (kernel n f)\<^sup>* \<longleftrightarrow> (i, j) \<in> kernel n f"
proof
  assume i: "i < n"
  show "(i, j) \<in> kernel n f" if "(i, j) \<in> (kernel n f)\<^sup>*"
    using that i by (induction rule: rtrancl_induct) (auto simp: kernel_def)
qed auto

lemma kernel_merge:
  assumes "x < n" "y < n" "\<forall>i < n. \<forall>j < n. g i = g j \<longleftrightarrow> f i = f j \<or> f i = f x \<and> f j = f y \<or> f i = f y \<and> f j = f x"
  shows "(kernel n g \<union> B)\<^sup>* = (kernel n f \<union> {(x, y), (y, x)} \<union> B)\<^sup>*"
proof (rule rtrancl_subset)
  let ?S = "kernel n f \<union> {(x, y), (y, x)} \<union> B"
  show "?S \<subseteq> kernel n g \<union> B" using assms by (auto simp: kernel_def)
  have via: "(i, j) \<in> ?S\<^sup>*" if "(i, u) \<in> ?S" "(u, v) \<in> ?S" "(v, j) \<in> ?S" for i u v j
    using that by (meson r_into_rtrancl rtrancl.rtrancl_into_rtrancl)
  show "kernel n g \<union> B \<subseteq> ?S\<^sup>*"
  proof
    fix p assume p: "p \<in> kernel n g \<union> B"
    obtain i j where ij: "p = (i, j)" by (cases p)
    show "p \<in> ?S\<^sup>*"
    proof (cases "p \<in> B")
      case False
      then have k: "i < n" "j < n" "g i = g j" using p ij by (auto simp: kernel_def)
      then consider "f i = f j" | "f i = f x" "f j = f y" | "f i = f y" "f j = f x" using assms(3) by blast
      then show ?thesis
      proof cases
        case 1 then show ?thesis using k ij by (auto simp: kernel_def)
      next
        case 2 then show ?thesis unfolding ij by (intro via [of i x y j]) (use k assms(1,2) in \<open>auto simp: kernel_def\<close>)
      next
        case 3 then show ?thesis unfolding ij by (intro via [of i y x j]) (use k assms(1,2) in \<open>auto simp: kernel_def\<close>)
      qed
    qed auto
  qed
qed

context union_find
begin

lemma unions_kernel:
  assumes "valid n p" "set us \<subseteq> {..<n} \<times> {..<n}"
  shows "\<exists>q. unions join p us = Some q \<and> valid n q \<and>
    (\<forall>i < n. \<forall>j < n. find q i = find q j \<longleftrightarrow> (i, j) \<in> (kernel n (find p) \<union> (set us \<union> (set us)\<inverse>))\<^sup>*)"
  using assms
proof (induction us arbitrary: p)
  case Nil
  have "find p i = find p j \<longleftrightarrow> (i, j) \<in> (kernel n (find p))\<^sup>*" if "i < n" "j < n" for i j
    unfolding kernel_closed [OF that(1)] using that by (simp add: kernel_def)
  then show ?case using Nil.prems(1) by simp
next
  case (Cons u us)
  obtain x y where u: "u = (x, y)" by (cases u)
  then have xy: "x < n" "y < n" "set us \<subseteq> {..<n} \<times> {..<n}" using Cons.prems(2) by auto
  obtain q where q: "join p x y = Some q" "valid n q"
    "\<forall>i < n. \<forall>j < n. find q i = find q j \<longleftrightarrow> find p i = find p j \<or>
       find p i = find p x \<and> find p j = find p y \<or> find p i = find p y \<and> find p j = find p x"
    using join_law [OF Cons.prems(1) xy(1,2)] by blast
  obtain r where r: "unions join q us = Some r" "valid n r"
    "\<forall>i < n. \<forall>j < n. find r i = find r j \<longleftrightarrow> (i, j) \<in> (kernel n (find q) \<union> (set us \<union> (set us)\<inverse>))\<^sup>*"
    using Cons.IH [OF q(2) xy(3)] by blast
  have "kernel n (find p) \<union> {(x, y), (y, x)} \<union> (set us \<union> (set us)\<inverse>) = kernel n (find p) \<union> (set (u # us) \<union> (set (u # us))\<inverse>)"
    using u by auto
  then show ?case using q(1) r u kernel_merge [OF xy(1,2) q(3), of "set us \<union> (set us)\<inverse>"] by simp
qed

lemma unions_closure:
  assumes "n < 2 ^ 31" "set us \<subseteq> {..<n} \<times> {..<n}"
  shows "\<exists>q. unions join (fresh n) us = Some q \<and> valid n q \<and>
    (\<forall>i < n. \<forall>j < n. find q i = find q j \<longleftrightarrow> (i, j) \<in> (set us \<union> (set us)\<inverse>)\<^sup>*)"
proof -
  have "kernel n (find (fresh n)) \<subseteq> Id" using fresh_find by (auto simp: kernel_def)
  then have "(kernel n (find (fresh n)) \<union> X)\<^sup>* = X\<^sup>*" for X
    by (metis Un_commute le_iff_sup rtrancl_Un_rtrancl rtrancl_reflcl)
  then show ?thesis using unions_kernel [OF fresh_valid [OF assms(1)] assms(2)] by simp
qed

end

definition join_partition :: "partition_def \<Rightarrow> nat \<Rightarrow> nat \<Rightarrow> partition_def option" where
  "join_partition part x y = map_option fst (partition_union part x y)"

lemma join_partition_law:
  assumes "part_ok n part" "x < n" "y < n"
  shows "\<exists>q. join_partition part x y = Some q \<and> part_ok n q \<and>
    (\<forall>i < n. \<forall>j < n. partition_find q i = partition_find q j \<longleftrightarrow> partition_find part i = partition_find part j \<or>
       partition_find part i = partition_find part x \<and> partition_find part j = partition_find part y \<or>
       partition_find part i = partition_find part y \<and> partition_find part j = partition_find part x)"
proof -
  obtain part1 c where p: "partition_union part x y = Some (part1, c)" "part_ok n part1"
    "\<forall>i < n. \<forall>j < n. partition_find part1 i = partition_find part1 j \<longleftrightarrow> partition_find part i = partition_find part j \<or>
       partition_find part i = partition_find part x \<and> partition_find part j = partition_find part y \<or>
       partition_find part i = partition_find part y \<and> partition_find part j = partition_find part x"
    using partition_union_ok [OF assms] by blast
  have "join_partition part x y = Some part1" by (simp add: join_partition_def p(1))
  then show ?thesis using p(2,3) by blast
qed

interpretation pu: union_find partition_new join_partition partition_find part_ok
  by unfold_locales (simp add: partition_new_ok, simp add: partition_find_def partition_new_def, rule join_partition_law)

text \<open>C39: Starting from a new partition, unions never run into undefined behaviour nor loop forever, and afterwards two
  elements have the same canonical element exactly when the pairs that were united connect them.
\<close>

theorem unions_are_closure:
  assumes "n < 2 ^ 31" "set us \<subseteq> {..<n} \<times> {..<n}"
  shows "\<exists>part. unions join_partition (partition_new n) us = Some part \<and>
    (\<forall>i < n. \<forall>j < n. partition_find part i = partition_find part j \<longleftrightarrow> (i, j) \<in> (set us \<union> (set us)\<inverse>)\<^sup>*)"
  using pu.unions_closure [OF assms] by blast

theorem unions_are_closure_witness:
  "\<exists>part. unions join_partition (partition_new 4) [(0, 2), (3, 1)] = Some part \<and>
    (\<forall>i < 4. \<forall>j < 4. partition_find part i = partition_find part j \<longleftrightarrow> (i, j) \<in> ({(0, 2), (3, 1)} \<union> {(0, 2), (3, 1)}\<inverse>)\<^sup>*)"
  using unions_are_closure [of 4 "[(0, 2), (3, 1)]"] by simp

lemma partition_print_example:
  "Option.bind (unions join_partition (partition_new 4) [(0, 2), (3, 1)]) partition_print = Some ''[(0 2)(1 3)]''"
  by code_simp

subsection \<open>The elements that are relabelled\<close>

fun union_work :: "partition_def \<Rightarrow> (nat \<times> nat) list \<Rightarrow> nat option" where
  "union_work part [] = Some 0"
| "union_work part ((x, y) # us) = Option.bind (partition_union part x y) (\<lambda>(q, c).
     map_option (\<lambda>w. length (filter (\<lambda>i. partition_find q i \<noteq> partition_find part i) [0..<num_elements part]) + w) (union_work q us))"

text \<open>After the unions of \<open>1\<close>, \<dots>, \<open>m\<close> with \<open>0\<close>, the canonical element is \<open>m\<close>, but the count of \<open>0\<close> is still one.\<close>

definition grown :: "nat \<Rightarrow> nat \<Rightarrow> partition_def \<Rightarrow> bool" where
  "grown n m part \<longleftrightarrow> part_ok n part \<and> class_count (elements part ! 0) = 1 \<and>
     (\<forall>x < n. partition_find part x = (if x \<le> m then m else x) \<and> (m < x \<longrightarrow> class_count (elements part ! x) = 1))"

lemma grow:
  assumes "grown n m part" "Suc m < n"
  shows "\<exists>q c. partition_union part (Suc m) 0 = Some (q, c) \<and> grown n (Suc m) q"
proof -
  let ?es = "elements part"
  have es: "circles ?es" "length ?es = n" "num_elements part = n" "part_ok n part"
    using assms(1) by (simp_all add: grown_def part_ok_def)
  have cls: "\<And>x. x < n \<Longrightarrow> class_element (?es ! x) = (if x \<le> m then m else x)"
    and cnt: "class_count (?es ! 0) = 1" "\<And>x. x < n \<Longrightarrow> m < x \<Longrightarrow> class_count (?es ! x) = 1"
    using assms(1) by (simp_all add: grown_def partition_find_def)
  have ab: "Suc m < length ?es" "0 < length ?es" "class_element (?es ! Suc m) \<noteq> class_element (?es ! 0)"
    using assms(2) es(2) cls [of "Suc m"] cls [of 0] by auto
  obtain es1 where es1: "unite ?es (Suc m) 0 = Some (es1, class_element (?es ! Suc m))" "united ?es (Suc m) 0 es1"
    using unite_united [OF es(1) ab] by blast
  let ?q = "part\<lparr>elements := es1\<rparr>"
  have u: "partition_union part (Suc m) 0 = Some (?q, class_element (?es ! Suc m))"
    using es1(1) ab cnt(1) cnt(2) [of "Suc m"] assms(2) by (simp add: partition_union_def Let_def)
  have len: "length es1 = n" using es1(2) es(2) by (simp add: united_def)
  have "part_ok n ?q" using united_circles(1) [OF es(1) ab es1(2)] es(3) len by (simp add: part_ok_def)
  moreover have "class_count (es1 ! 0) = 1"
    using es1(2) ab(2) cnt(1) cls [of "Suc m"] assms(2) by (simp add: united_def)
  moreover have "class_element (es1 ! x) = (if x \<le> Suc m then Suc m else x)" if "x < n" for x
    using es1(2) es(2) that cls [OF that] cls [of 0] cls [of "Suc m"] assms(2) by (auto simp: united_def)
  moreover have "class_count (es1 ! x) = 1" if "x < n" "Suc m < x" for x
    using es1(2) es(2) that cnt(2) [of x] cls [of "Suc m"] assms(2) by (simp add: united_def)
  ultimately have "grown n (Suc m) ?q" by (simp add: grown_def partition_find_def)
  then show ?thesis using u by blast
qed

lemma grown_work:
  assumes "grown n m part" "m + k < n"
  shows "\<exists>w. union_work part (map (\<lambda>x. (x, 0)) [Suc m..<Suc (m + k)]) = Some w \<and> w = (\<Sum>x = Suc m..<Suc (m + k). x)"
  using assms
proof (induction k arbitrary: m part)
  case 0
  then show ?case by simp
next
  case (Suc k)
  obtain q c where q: "partition_union part (Suc m) 0 = Some (q, c)" "grown n (Suc m) q"
    using grow [OF Suc.prems(1)] Suc.prems(2) by auto
  obtain w where w: "union_work q (map (\<lambda>x. (x, 0)) [Suc (Suc m)..<Suc (Suc m + k)]) = Some w" "w = (\<Sum>x = Suc (Suc m)..<Suc (Suc m + k). x)"
    using Suc.IH [OF q(2)] Suc.prems(2) by auto
  have n: "num_elements part = n" "Suc m < n" using Suc.prems by (simp_all add: grown_def part_ok_def)
  have "filter (\<lambda>i. partition_find q i \<noteq> partition_find part i) [0..<n] = filter (\<lambda>i. i < Suc m) [0..<n]"
    using Suc.prems(1) q(2) by (intro filter_cong) (auto simp: grown_def)
  moreover have "length (filter (\<lambda>i. i < Suc m) [0..<n]) = Suc m"
  proof -
    have "{i. i < n \<and> i < Suc m} = {..<Suc m}" using n(2) by auto
    then show ?thesis by (simp add: length_filter_conv_card cong: conj_cong)
  qed
  ultimately have work: "length (filter (\<lambda>i. partition_find q i \<noteq> partition_find part i) [0..<num_elements part]) = Suc m"
    by (simp only: n(1))
  have list: "[Suc m..<Suc (m + Suc k)] = Suc m # [Suc (Suc m)..<Suc (Suc m + k)]" by (simp add: upt_rec)
  show ?case unfolding list using q(1) w work by (simp add: sum.atLeast_Suc_lessThan)
qed

text \<open>Although the comments say that the shorter list is always scanned, uniting \<open>1\<close>, \<dots>, \<open>n - 1\<close> with \<open>0\<close> relabels
  the whole class of \<open>0\<close> each time, \<open>n (n - 1) / 2\<close> elements: \<open>partition_union\<close> compares the counts of the elements it
  is given, which are valid for canonical elements only.
\<close>

theorem unions_relabel_quadratic:
  assumes "n < 2 ^ 31"
  shows "union_work (partition_new n) (map (\<lambda>x. (x, 0)) [1..<n]) = Some (n * (n - 1) div 2)"
proof (cases n)
  case (Suc m)
  have "grown n 0 (partition_new n)"
    using partition_new_ok [OF assms] Suc by (auto simp: grown_def partition_find_def partition_new_def nth_append simp del: upt_Suc)
  then obtain w where w: "union_work (partition_new n) (map (\<lambda>x. (x, 0)) [Suc 0..<Suc (0 + m)]) = Some w" "w = (\<Sum>x = Suc 0..<Suc (0 + m). x)"
    using grown_work [of n 0 "partition_new n" m] Suc by (metis add_0 lessI)
  have "(\<Sum>x = Suc 0..<Suc m. x) = n * (n - 1) div 2"
  proof -
    have "(\<Sum>x = Suc 0..<Suc m. x) = \<Sum> {0..m}"
      by (simp add: atLeastLessThanSuc_atLeastAtMost sum.atLeast_Suc_atMost)
    also have "\<dots> = m * Suc m div 2" by (rule gauss_sum_nat)
    finally show ?thesis using Suc by (simp add: mult.commute)
  qed
  then show ?thesis using w Suc by simp
qed (simp add: partition_new_def)

theorem unions_relabel_quadratic_witness:
  "union_work (partition_new 5) (map (\<lambda>x. (x, 0)) [1..<5]) = Some 10"
  using unions_relabel_quadratic [of 5] by simp

end
