(* ===== verification/Dcache_Blocks.thy ===== *)
theory Dcache_Blocks
  imports Prelude
begin

text \<open>
  The blocks of the data cache (\<^verbatim>\<open>gdb-15.1/gdb/dcache.c\<close>) and their doubly linked circular lists. A pointer to a block
  is a number, the store gives the contents of every block, and a list is the pointer to its first block.
\<close>

subsection \<open>Blocks and lists\<close>

record dcache_block =
  blk_prev :: nat
  blk_next :: nat
  blk_addr :: CORE_ADDR
  blk_refs :: int
  blk_data :: "uint8 list"

type_synonym store = "nat \<Rightarrow> dcache_block"

definition set_next :: "nat \<Rightarrow> nat \<Rightarrow> store \<Rightarrow> store" where
  "set_next p q st = st(p := (st p)\<lparr>blk_next := q\<rparr>)"

definition set_prev :: "nat \<Rightarrow> nat \<Rightarrow> store \<Rightarrow> store" where
  "set_prev p q st = st(p := (st p)\<lparr>blk_prev := q\<rparr>)"

definition append_block :: "store \<Rightarrow> nat option \<Rightarrow> nat \<Rightarrow> store \<times> nat option" where
  "append_block st blist block =
     (case blist of
        Some h \<Rightarrow>
          let st1 = set_next block h st;
              st2 = set_prev block (blk_prev (st1 h)) st1;
              st3 = set_next (blk_prev (st2 block)) block st2
          in (set_prev h block st3, blist)
      | None \<Rightarrow> (set_prev block block (set_next block block st), Some block))"

definition remove_block :: "store \<Rightarrow> nat option \<Rightarrow> nat \<Rightarrow> store \<times> nat option" where
  "remove_block st blist block =
     (if blk_next (st block) = block then (st, None)
      else let st1 = set_prev (blk_next (st block)) (blk_prev (st block)) st;
               st2 = set_next (blk_prev (st1 block)) (blk_next (st1 block)) st1
           in (st2, if blist = Some block then Some (blk_next (st2 block)) else blist))"

text \<open>
  The iteration over a list, which the function may change: \<open>hd\<close> reads the pointer to the list and \<open>nxt\<close> a link. It
  does not return when the links do not come back to the first block.
\<close>

partial_function (option) each_block ::
  "('s \<Rightarrow> nat option) \<Rightarrow> ('s \<Rightarrow> nat \<Rightarrow> nat) \<Rightarrow> (nat \<Rightarrow> 's \<Rightarrow> 's) \<Rightarrow> nat \<Rightarrow> 's \<Rightarrow> 's option" where
  "each_block blist nxt func db s =
     (let next_db = nxt s db; s1 = func db s in
      case blist s1 of
        None \<Rightarrow> Some s1
      | Some h \<Rightarrow> if next_db = h then Some s1 else each_block blist nxt func next_db s1)"

declare each_block.simps [code]

definition for_each_block :: "('s \<Rightarrow> nat option) \<Rightarrow> ('s \<Rightarrow> nat \<Rightarrow> nat) \<Rightarrow> (nat \<Rightarrow> 's \<Rightarrow> 's) \<Rightarrow> 's \<Rightarrow> 's option" where
  "for_each_block blist nxt func s = (case blist s of None \<Rightarrow> Some s | Some db \<Rightarrow> each_block blist nxt func db s)"

subsection \<open>Rings\<close>

text \<open>The links from \<open>a\<close> through \<open>xs\<close> to \<open>q\<close>, in both directions.\<close>

fun chain :: "store \<Rightarrow> nat \<Rightarrow> nat list \<Rightarrow> nat \<Rightarrow> bool" where
  "chain st a [] q \<longleftrightarrow> blk_next (st a) = q \<and> blk_prev (st q) = a"
| "chain st a (x # xs) q \<longleftrightarrow> blk_next (st a) = x \<and> blk_prev (st x) = a \<and> chain st x xs q"

fun ring :: "store \<Rightarrow> nat list \<Rightarrow> bool" where
  "ring st [] \<longleftrightarrow> True"
| "ring st (x # xs) \<longleftrightarrow> distinct (x # xs) \<and> chain st x xs x"

lemma chain_append [simp]: "chain st a (xs @ y # ys) q \<longleftrightarrow> chain st a xs y \<and> chain st y ys q"
  by (induction xs arbitrary: a) auto

lemma chain_cong:
  "\<forall>x \<in> set (a # xs). blk_next (st1 x) = blk_next (st x) \<Longrightarrow> \<forall>x \<in> set (xs @ [q]). blk_prev (st1 x) = blk_prev (st x) \<Longrightarrow>
   chain st1 a xs q \<longleftrightarrow> chain st a xs q"
  by (induction xs arbitrary: a) auto

lemma chain_keep:
  assumes "chain st a xs q" "\<And>x. x = a \<or> x \<in> set xs \<Longrightarrow> blk_next (st1 x) = blk_next (st x)"
    and "\<And>x. x \<in> set xs \<or> x = q \<Longrightarrow> blk_prev (st1 x) = blk_prev (st x)"
  shows "chain st1 a xs q"
  using chain_cong [of a xs st1 st q] assms by auto

lemma ring_distinct: "ring st xs \<Longrightarrow> distinct xs"
  by (cases xs) auto

lemma ring_cong:
  "\<forall>x \<in> set xs. blk_next (st1 x) = blk_next (st x) \<and> blk_prev (st1 x) = blk_prev (st x) \<Longrightarrow> ring st1 xs \<longleftrightarrow> ring st xs"
  by (cases xs) (auto simp: chain_cong [of _ _ st1 st])

lemma block_ring_rotate: "ring st (us @ vs) \<Longrightarrow> ring st (vs @ us)"
  by (cases us; cases vs) auto

lemma chain_last: "chain st a xs q \<Longrightarrow> blk_prev (st q) = last (a # xs)"
  by (induction xs arbitrary: a) auto

lemma links [simp]:
  "blk_next (set_next p q st x) = (if x = p then q else blk_next (st x))"
  "blk_prev (set_next p q st x) = blk_prev (st x)"
  "blk_prev (set_prev p q st x) = (if x = p then q else blk_prev (st x))"
  "blk_next (set_prev p q st x) = blk_next (st x)"
  "blk_addr (set_next p q st x) = blk_addr (st x)" "blk_addr (set_prev p q st x) = blk_addr (st x)"
  "blk_data (set_next p q st x) = blk_data (st x)" "blk_data (set_prev p q st x) = blk_data (st x)"
  by (simp_all add: set_next_def set_prev_def)

definition list_head :: "nat list \<Rightarrow> nat option" where
  "list_head xs = (case xs of [] \<Rightarrow> None | x # _ \<Rightarrow> Some x)"

lemma list_head_simps [simp]:
  "list_head [] = None" "list_head (x # xs) = Some x" "list_head xs = None \<longleftrightarrow> xs = []"
  by (simp_all add: list_head_def split: list.split)

text \<open>The new block comes last, so that the head stays the oldest one.\<close>

lemma append_block_ring:
  assumes "ring st xs" "b \<notin> set xs"
  shows "\<exists>st1. append_block st (list_head xs) b = (st1, list_head (xs @ [b])) \<and> ring st1 (xs @ [b]) \<and>
    (\<forall>x. x \<notin> set xs \<and> x \<noteq> b \<longrightarrow> st1 x = st x) \<and> (\<forall>x. blk_addr (st1 x) = blk_addr (st x) \<and> blk_data (st1 x) = blk_data (st x))"
proof (cases xs)
  case Nil
  then show ?thesis by (auto simp: append_block_def set_next_def set_prev_def)
next
  case (Cons h ys)
  define l where "l = last xs"
  have h: "chain st h ys h" "distinct (h # ys)" "b \<noteq> h" "b \<notin> set ys" using assms Cons by auto
  have l: "blk_prev (st h) = l" "l \<in> set xs" using chain_last [OF h(1)] Cons by (simp_all add: l_def)
  then have lb: "l \<noteq> b" using assms(2) by auto
  define st1 where "st1 = set_prev h b (set_next l b (set_prev b l (set_next b h st)))"
  have e: "append_block st (list_head xs) b = (st1, list_head (xs @ [b]))"
    using h(3) l(1) lb Cons by (simp add: append_block_def st1_def Let_def)
  have n: "blk_next (st1 x) = (if x = l then b else if x = b then h else blk_next (st x))"
    "blk_prev (st1 x) = (if x = h then b else if x = b then l else blk_prev (st x))" for x
    using lb h(3) by (auto simp: st1_def)
  have c: "chain st1 h ys b"
  proof (cases ys rule: rev_cases)
    case Nil
    then show ?thesis using n h(3) Cons by (simp add: l_def)
  next
    case (snoc zs z)
    then have z: "z = l" "z \<notin> set (h # zs)" using h(2) Cons by (auto simp: l_def)
    have "chain st h zs z" using h(1) snoc by simp
    then have "chain st1 h zs z"
    proof (rule chain_keep)
      show "blk_next (st1 x) = blk_next (st x)" if "x = h \<or> x \<in> set zs" for x using that n(1) [of x] z h(2-4) snoc by auto
      show "blk_prev (st1 x) = blk_prev (st x)" if "x \<in> set zs \<or> x = z" for x using that n(2) [of x] z h(2-4) snoc by auto
    qed
    moreover have "chain st1 z [] b" using n z h snoc by auto
    ultimately show ?thesis using snoc by simp
  qed
  have "chain st1 b [] h" using n h(3) lb by simp
  then have "ring st1 (xs @ [b])" using c h Cons by auto
  moreover have "st1 x = st x" if "x \<notin> set xs" "x \<noteq> b" for x
  proof -
    have "x \<noteq> h" "x \<noteq> l" using that l(2) Cons by auto
    then show ?thesis using that(2) by (simp add: st1_def set_next_def set_prev_def)
  qed
  moreover have "blk_addr (st1 x) = blk_addr (st x) \<and> blk_data (st1 x) = blk_data (st x)" for x by (simp add: st1_def)
  ultimately show ?thesis using e by blast
qed

text \<open>Removing any block of the ring; when it is the first one, the second becomes the head.\<close>

lemma remove_block_ring:
  assumes "ring st (us @ b # vs)"
  shows "\<exists>st1. remove_block st (list_head (us @ b # vs)) b = (st1, list_head (us @ vs)) \<and> ring st1 (us @ vs) \<and>
    (\<forall>x. x \<notin> set (us @ vs) \<longrightarrow> st1 x = st x) \<and> (\<forall>x. blk_addr (st1 x) = blk_addr (st x) \<and> blk_data (st1 x) = blk_data (st x))"
proof (cases "vs @ us")
  case Nil
  then show ?thesis using assms by (auto simp: remove_block_def)
next
  case (Cons y ys)
  have r: "ring st (b # y # ys)" using block_ring_rotate [OF assms] Cons by simp
  define l where "l = last (y # ys)"
  have b: "blk_next (st b) = y" "blk_prev (st b) = l" "y \<noteq> b" using r chain_last [of st y ys b] by (auto simp: l_def)
  have lb: "l \<noteq> b" using r by (auto simp: l_def)
  define st1 where "st1 = set_next l y (set_prev y l st)"
  have n: "blk_next (st1 x) = (if x = l then y else blk_next (st x))" "blk_prev (st1 x) = (if x = y then l else blk_prev (st x))" for x
    by (auto simp: st1_def)
  have "chain st1 y ys y"
  proof (cases ys rule: rev_cases)
    case Nil
    then show ?thesis using n by (simp add: l_def)
  next
    case (snoc zs z)
    then have z: "z = l" "z \<notin> set (y # zs)" "y \<notin> set (zs @ [z])" using r by (auto simp: l_def)
    have "chain st y zs z" using r snoc by simp
    then have "chain st1 y zs z"
    proof (rule chain_keep)
      show "blk_next (st1 x) = blk_next (st x)" if "x = y \<or> x \<in> set zs" for x using that n(1) [of x] z by auto
      show "blk_prev (st1 x) = blk_prev (st x)" if "x \<in> set zs \<or> x = z" for x using that n(2) [of x] z by auto
    qed
    moreover have "chain st1 z [] y" using n z by auto
    ultimately show ?thesis using snoc by simp
  qed
  then have "ring st1 (vs @ us)" using r Cons by simp
  then have ring: "ring st1 (us @ vs)" by (rule block_ring_rotate)
  have heads: "(if list_head (us @ b # vs) = Some b then Some y else list_head (us @ b # vs)) = list_head (us @ vs)"
  proof (cases us)
    case Nil
    then show ?thesis using Cons by simp
  next
    case c: (Cons u us1)
    then have "u \<noteq> b" using ring_distinct [OF assms] by auto
    then show ?thesis using c by simp
  qed
  have "remove_block st (list_head (us @ b # vs)) b = (st1, list_head (us @ vs))"
    unfolding heads [symmetric] using b lb by (simp add: remove_block_def Let_def st1_def)
  moreover have "st1 x = st x" if "x \<notin> set (us @ vs)" for x
  proof -
    have "x \<notin> set (y # ys)" using that Cons by (metis Un_iff set_append)
    then have "x \<noteq> y" "x \<noteq> l" by (auto simp: l_def)
    then show ?thesis by (simp add: st1_def set_next_def set_prev_def)
  qed
  moreover have "blk_addr (st1 x) = blk_addr (st x) \<and> blk_data (st1 x) = blk_data (st x)" for x by (simp add: st1_def)
  ultimately show ?thesis using ring by blast
qed

text \<open>
  The iteration over a ring calls the function on every block, in order, when each call leaves the head and the links of the blocks
  that are still to come.
\<close>

lemma each_block_ring:
  assumes "\<And>zs b ws s. xs = zs @ b # ws \<Longrightarrow> R zs s \<Longrightarrow> R (zs @ [b]) (func b s) \<and> blist (func b s) = Some h \<and>
      nxt s b = (if ws = [] then h else hd ws)"
    and "distinct xs" "h = hd xs" "xs \<noteq> []" "R [] s"
  shows "\<exists>s1. each_block blist nxt func h s = Some s1 \<and> R xs s1"
proof -
  have "\<exists>s1. each_block blist nxt func b s = Some s1 \<and> R xs s1" if "xs = zs @ b # ws" "R zs s" for zs b ws s
    using that
  proof (induction ws arbitrary: zs b s)
    case Nil
    then show ?case using assms(1) [of zs b "[]" s] by (subst each_block.simps) (simp add: Let_def)
  next
    case (Cons w ws)
    have step: "R (zs @ [b]) (func b s)" "blist (func b s) = Some h" "nxt s b = w" using assms(1) [OF Cons.prems] by auto
    have "w \<noteq> h" using assms(2,3) Cons.prems(1) by (cases zs) auto
    moreover have "\<exists>s1. each_block blist nxt func w (func b s) = Some s1 \<and> R xs s1"
      by (rule Cons.IH [of "zs @ [b]"]) (use Cons.prems(1) step(1) in simp_all)
    ultimately show ?case using step by (subst each_block.simps) (simp add: Let_def)
  qed
  from this [of "[]" h "tl xs" s] show ?thesis using assms(3-5) by simp
qed

end
