(* ===== verification/Memattr.thy ===== *)
theory Memattr
  imports Prelude
begin

text \<open>
  Memory regions and their attributes (\<^verbatim>\<open>gdb-15.1/gdb/memattr.c\<close>, \<^verbatim>\<open>memattr.h\<close>, \<open>target_memory_map\<close> of
  \<^verbatim>\<open>target.c\<close>): the list of regions that the target supplies or the user defines, its commands, and the lookup of the
  region of an address, which every access to memory starts with.
\<close>

subsection \<open>Regions\<close>

datatype mem_access_mode = MEM_NONE | MEM_RW | MEM_RO | MEM_WO | MEM_FLASH

datatype mem_access_width = MEM_WIDTH_UNSPECIFIED | MEM_WIDTH_8 | MEM_WIDTH_16 | MEM_WIDTH_32 | MEM_WIDTH_64

record mem_attrib =
  access_mode :: mem_access_mode
  access_width :: mem_access_width
  attr_hwbreak :: int
  attr_cache :: int
  attr_verify :: int
  blocksize :: int

definition default_mem_attrib :: mem_attrib where
  "default_mem_attrib = \<lparr>access_mode = MEM_RW, access_width = MEM_WIDTH_UNSPECIFIED, attr_hwbreak = 0, attr_cache = 0,
     attr_verify = 0, blocksize = - 1\<rparr>"

definition unknown_mem_attrib :: mem_attrib where
  "unknown_mem_attrib = default_mem_attrib\<lparr>access_mode := MEM_NONE\<rparr>"

text \<open>An upper bound of 0 stands for the top of the address space.\<close>

record mem_region =
  region_lo :: CORE_ADDR
  region_hi :: CORE_ADDR
  region_number :: int
  enabled_p :: bool
  region_attrib :: mem_attrib

definition new_mem_region :: "CORE_ADDR \<Rightarrow> CORE_ADDR \<Rightarrow> mem_attrib \<Rightarrow> mem_region" where
  "new_mem_region lo hi attrib = \<lparr>region_lo = lo, region_hi = hi, region_number = 0, enabled_p = True, region_attrib = attrib\<rparr>"

definition in_region :: "CORE_ADDR \<Rightarrow> mem_region \<Rightarrow> bool" where
  "in_region addr m \<longleftrightarrow> addr \<ge> region_lo m \<and> (addr < region_hi m \<or> region_hi m = 0)"

text \<open>The flag \<open>mem_use_target\<close> is the comparison of the pointer \<open>mem_region_list\<close>; the numbers are counted by \<open>mem_number\<close>.\<close>

record mem_state =
  user_mem_region_list :: "mem_region list"
  target_mem_region_list :: "mem_region list"
  mem_use_target :: bool
  mem_number :: int
  target_mem_regions_valid :: bool
  inaccessible_by_default :: bool

definition mem_region_list :: "mem_state \<Rightarrow> mem_region list" where
  "mem_region_list st = (if mem_use_target st then target_mem_region_list st else user_mem_region_list st)"

definition set_mem_region_list :: "mem_region list \<Rightarrow> mem_state \<Rightarrow> mem_state" where
  "set_mem_region_list rs st =
     (if mem_use_target st then st\<lparr>target_mem_region_list := rs\<rparr> else st\<lparr>user_mem_region_list := rs\<rparr>)"

subsection \<open>Regions of the target\<close>

fun overlapping :: "mem_region list \<Rightarrow> bool" where
  "overlapping (last_one # this_one # rs) \<longleftrightarrow> region_hi last_one > region_lo this_one \<or> overlapping (this_one # rs)"
| "overlapping _ \<longleftrightarrow> False"

text \<open>The regions that the target reports are sorted, numbered, and dropped when they overlap.\<close>

definition target_memory_map :: "mem_region list \<Rightarrow> mem_region list" where
  "target_memory_map reported =
     (let rs = map2 (\<lambda>ix r. r\<lparr>region_number := int ix\<rparr>) [0..<length reported] (sort_key region_lo reported) in
      if overlapping rs then [] else rs)"

definition require_user_regions :: "mem_state \<Rightarrow> mem_state" where
  "require_user_regions st =
     (if \<not> mem_use_target st then st
      else let st1 = st\<lparr>mem_use_target := False\<rparr> in
        if target_mem_region_list st1 = [] then st1 else st1\<lparr>user_mem_region_list := target_mem_region_list st1\<rparr>)"

text \<open>The first argument is what the target reports.\<close>

definition require_target_regions :: "mem_region list \<Rightarrow> mem_state \<Rightarrow> mem_state" where
  "require_target_regions reported st =
     (if mem_use_target st \<and> \<not> target_mem_regions_valid st
      then st\<lparr>target_mem_regions_valid := True, target_mem_region_list := target_memory_map reported\<rparr> else st)"

definition invalidate_target_mem_regions :: "mem_state \<Rightarrow> mem_state" where
  "invalidate_target_mem_regions st =
     (if \<not> target_mem_regions_valid st then st
      else st\<lparr>target_mem_regions_valid := False, target_mem_region_list := []\<rparr>)"

subsection \<open>Regions of the user\<close>

text \<open>\<open>std::lower_bound\<close> over a sorted list.\<close>

definition lower_bound :: "mem_region list \<Rightarrow> CORE_ADDR \<Rightarrow> nat" where
  "lower_bound rs lo = length (takeWhile (\<lambda>r. region_lo r < lo) rs)"

definition clash :: "CORE_ADDR \<Rightarrow> CORE_ADDR \<Rightarrow> mem_region \<Rightarrow> bool" where
  "clash lo hi n \<longleftrightarrow>
     lo \<ge> region_lo n \<and> (lo < region_hi n \<or> region_hi n = 0) \<or>
     hi > region_lo n \<and> (hi \<le> region_hi n \<or> region_hi n = 0) \<or>
     lo \<le> region_lo n \<and> (hi \<ge> region_hi n \<and> region_hi n \<noteq> 0 \<or> hi = 0)"

datatype mem_message = Invalid_region | Overlapping_region | No_region int

definition create_user_mem_region :: "CORE_ADDR \<Rightarrow> CORE_ADDR \<Rightarrow> mem_attrib \<Rightarrow> mem_state \<Rightarrow> mem_state \<times> mem_message option" where
  "create_user_mem_region lo hi attrib st =
     (let rs = user_mem_region_list st; ix = lower_bound rs lo; newobj = new_mem_region lo hi attrib in
      if lo \<ge> hi \<and> hi \<noteq> 0 then (st, Some Invalid_region)
      else if \<exists>n \<in> set (take 1 (drop ix rs) @ (if ix = 0 then [] else [rs ! (ix - 1)])). clash lo hi n
      then (st, Some Overlapping_region)
      else let num = mem_number st + 1 in
        (st\<lparr>mem_number := num, user_mem_region_list := take ix rs @ [newobj\<lparr>region_number := num\<rparr>] @ drop ix rs\<rparr>, None))"

definition user_mem_clear :: "mem_state \<Rightarrow> mem_state" where
  "user_mem_clear st = st\<lparr>user_mem_region_list := []\<rparr>"

text \<open>The attributes of the command \<open>mem\<close>; the error is the token.\<close>

definition mem_token :: "CORE_ADDR \<Rightarrow> CORE_ADDR \<Rightarrow> mem_attrib \<Rightarrow> string \<Rightarrow> mem_attrib option" where
  "mem_token lo hi attrib tok =
     (if tok = ''rw'' then Some (attrib\<lparr>access_mode := MEM_RW\<rparr>)
      else if tok = ''ro'' then Some (attrib\<lparr>access_mode := MEM_RO\<rparr>)
      else if tok = ''wo'' then Some (attrib\<lparr>access_mode := MEM_WO\<rparr>)
      else if tok = ''8'' then Some (attrib\<lparr>access_width := MEM_WIDTH_8\<rparr>)
      else if tok = ''16'' then (if lo mod 2 \<noteq> 0 \<or> hi mod 2 \<noteq> 0 then None else Some (attrib\<lparr>access_width := MEM_WIDTH_16\<rparr>))
      else if tok = ''32'' then (if lo mod 4 \<noteq> 0 \<or> hi mod 4 \<noteq> 0 then None else Some (attrib\<lparr>access_width := MEM_WIDTH_32\<rparr>))
      else if tok = ''64'' then (if lo mod 8 \<noteq> 0 \<or> hi mod 8 \<noteq> 0 then None else Some (attrib\<lparr>access_width := MEM_WIDTH_64\<rparr>))
      else if tok = ''cache'' then Some (attrib\<lparr>attr_cache := 1\<rparr>)
      else if tok = ''nocache'' then Some (attrib\<lparr>attr_cache := 0\<rparr>)
      else None)"

text \<open>The words of the arguments, as \<^verbatim>\<open>gdb/cli/cli-utils.c\<close> splits them.\<close>

definition is_space :: "char \<Rightarrow> bool" where
  "is_space c \<longleftrightarrow> c = CHR '' '' \<or> (9 \<le> (of_char c :: nat) \<and> (of_char c :: nat) \<le> 13)"

definition skip_spaces :: "string \<Rightarrow> string" where
  "skip_spaces s = dropWhile is_space s"

definition skip_to_space :: "string \<Rightarrow> string" where
  "skip_to_space s = dropWhile (\<lambda>c. \<not> is_space c) s"

definition extract_arg :: "string \<Rightarrow> string \<times> string" where
  "extract_arg arg =
     (case skip_spaces arg of
        [] \<Rightarrow> ([], [])
      | c # cs \<Rightarrow> (c # takeWhile (\<lambda>c. \<not> is_space c) cs, skip_to_space cs))"

lemma extract_arg_shorter: "extract_arg arg = (c # cs, rest) \<Longrightarrow> length rest < length arg"
  using length_dropWhile_le [of is_space arg] length_dropWhile_le [of "\<lambda>c. \<not> is_space c"]
  by (fastforce simp: extract_arg_def skip_spaces_def skip_to_space_def split: list.splits intro: le_less_trans)

function mem_tokens :: "CORE_ADDR \<Rightarrow> CORE_ADDR \<Rightarrow> mem_attrib \<Rightarrow> string \<Rightarrow> mem_attrib option" where
  "mem_tokens lo hi attrib args =
     (case extract_arg args of
        ([], rest) \<Rightarrow> Some attrib
      | (c # cs, rest) \<Rightarrow>
          (case mem_token lo hi attrib (c # cs) of None \<Rightarrow> None | Some attrib \<Rightarrow> mem_tokens lo hi attrib rest))"
  by pat_completeness auto

termination by (relation "measure (\<lambda>(lo, hi, attrib, args). length args)") (auto dest: extract_arg_shorter [OF sym])

declare mem_tokens.simps [simp del]

text \<open>
  The command over its argument string; \<open>eval\<close> is \<open>parse_and_eval_address\<close>, which may raise an error. The list has been
  switched to that of the user when an error is raised, so that the state is returned with it.
\<close>

definition mem_command :: "(string \<Rightarrow> CORE_ADDR option) \<Rightarrow> string option \<Rightarrow> mem_state \<Rightarrow> mem_state \<times> (gdb_error + mem_message option)" where
  "mem_command eval args st =
     (case args of
        None \<Rightarrow> (st, Inl Error)
      | Some s \<Rightarrow>
          if s = ''auto'' then
            (if mem_use_target st then (st, Inr None) else ((user_mem_clear st)\<lparr>mem_use_target := True\<rparr>, Inr None))
          else let st1 = require_user_regions st; (low, s1) = extract_arg s; (high, s2) = extract_arg s1 in
            if low = [] then (st1, Inl Error)
            else (case eval low of
                None \<Rightarrow> (st1, Inl Error)
              | Some lo \<Rightarrow>
                  if high = [] then (st1, Inl Error)
                  else (case eval high of
                      None \<Rightarrow> (st1, Inl Error)
                    | Some hi \<Rightarrow>
                        (case mem_tokens lo hi default_mem_attrib s2 of
                           None \<Rightarrow> (st1, Inl Error)
                         | Some attrib \<Rightarrow> let (st2, msg) = create_user_mem_region lo hi attrib st1 in (st2, Inr msg)))))"

subsection \<open>Enabling, disabling and deleting\<close>

fun set_enabled :: "bool \<Rightarrow> int \<Rightarrow> mem_region list \<Rightarrow> mem_region list option" where
  "set_enabled b num [] = None"
| "set_enabled b num (m # ms) =
     (if region_number m = num then Some (m\<lparr>enabled_p := b\<rparr> # ms) else map_option ((#) m) (set_enabled b num ms))"

definition mem_enable :: "int \<Rightarrow> mem_state \<Rightarrow> mem_state \<times> mem_message option" where
  "mem_enable num st =
     (case set_enabled True num (mem_region_list st) of
        Some rs \<Rightarrow> (set_mem_region_list rs st, None) | None \<Rightarrow> (st, Some (No_region num)))"

definition mem_disable :: "int \<Rightarrow> mem_state \<Rightarrow> mem_state \<times> mem_message option" where
  "mem_disable num st =
     (case set_enabled False num (mem_region_list st) of
        Some rs \<Rightarrow> (set_mem_region_list rs st, None) | None \<Rightarrow> (st, Some (No_region num)))"

text \<open>
  \<open>std::remove_if\<close> moves the elements that are kept to the front and leaves the rest of the sequence as it is; \<open>erase\<close>
  of an iterator removes the one element it points to.
\<close>

definition remove_if :: "('a \<Rightarrow> bool) \<Rightarrow> 'a list \<Rightarrow> 'a list \<times> nat" where
  "remove_if P xs = (let ys = filter (\<lambda>x. \<not> P x) xs in (ys @ drop (length ys) xs, length ys))"

definition erase :: "nat \<Rightarrow> 'a list \<Rightarrow> 'a list" where
  "erase i xs = take i xs @ drop (Suc i) xs"

definition mem_delete :: "int \<Rightarrow> mem_state \<Rightarrow> mem_state \<times> mem_message option" where
  "mem_delete num st =
     (let (rs, it) = remove_if (\<lambda>m. region_number m = num) (mem_region_list st) in
      if it \<noteq> length rs then (set_mem_region_list (erase it rs) st, None) else (set_mem_region_list rs st, Some (No_region num)))"

text \<open>The commands over the numbers that are parsed; the cache is invalidated by the caller of the model.\<close>

fun each_number :: "(int \<Rightarrow> mem_state \<Rightarrow> mem_state \<times> mem_message option) \<Rightarrow> int list \<Rightarrow> mem_state \<Rightarrow> mem_state \<times> mem_message list" where
  "each_number f [] st = (st, [])"
| "each_number f (num # nums) st =
     (let (st1, msg) = f num st; (st2, msgs) = each_number f nums st1
      in (st2, (case msg of Some e \<Rightarrow> e # msgs | None \<Rightarrow> msgs)))"

definition set_all :: "bool \<Rightarrow> mem_state \<Rightarrow> mem_state" where
  "set_all b st = set_mem_region_list (map (\<lambda>m. m\<lparr>enabled_p := b\<rparr>) (mem_region_list st)) st"

definition enable_mem_command :: "int list option \<Rightarrow> mem_state \<Rightarrow> mem_state \<times> mem_message list" where
  "enable_mem_command args st = (let st1 = require_user_regions st in
     case args of None \<Rightarrow> (set_all True st1, []) | Some nums \<Rightarrow> each_number mem_enable nums st1)"

definition disable_mem_command :: "int list option \<Rightarrow> mem_state \<Rightarrow> mem_state \<times> mem_message list" where
  "disable_mem_command args st = (let st1 = require_user_regions st in
     case args of None \<Rightarrow> (set_all False st1, []) | Some nums \<Rightarrow> each_number mem_disable nums st1)"

text \<open>\<open>yes\<close> is the answer to the query.\<close>

definition delete_mem_command :: "bool \<Rightarrow> int list option \<Rightarrow> mem_state \<Rightarrow> mem_state \<times> mem_message list" where
  "delete_mem_command yes args st = (let st1 = require_user_regions st in
     case args of None \<Rightarrow> (if yes then user_mem_clear st1 else st1, []) | Some nums \<Rightarrow> each_number mem_delete nums st1)"

subsection \<open>Lookup\<close>

definition narrow :: "CORE_ADDR \<Rightarrow> mem_region \<Rightarrow> CORE_ADDR \<Rightarrow> CORE_ADDR \<Rightarrow> CORE_ADDR \<times> CORE_ADDR" where
  "narrow addr m lo hi =
     (if addr \<ge> region_hi m \<and> lo < region_hi m then region_hi m else lo,
      if addr \<le> region_lo m \<and> (hi = 0 \<or> hi > region_lo m) then region_lo m else hi)"

text \<open>The loop over the regions: the region of the address, or the bounds of the hole.\<close>

fun lookup_loop :: "CORE_ADDR \<Rightarrow> mem_region list \<Rightarrow> CORE_ADDR \<Rightarrow> CORE_ADDR \<Rightarrow> mem_region + (CORE_ADDR \<times> CORE_ADDR)" where
  "lookup_loop addr [] lo hi = Inr (lo, hi)"
| "lookup_loop addr (m # ms) lo hi =
     (if \<not> enabled_p m then lookup_loop addr ms lo hi
      else if in_region addr m then Inl m
      else let (lo1, hi1) = narrow addr m lo hi in lookup_loop addr ms lo1 hi1)"

definition lookup_mem_region :: "mem_region list \<Rightarrow> CORE_ADDR \<Rightarrow> mem_state \<Rightarrow> mem_state \<times> mem_region" where
  "lookup_mem_region reported addr st =
     (let st1 = require_target_regions reported st; rs = mem_region_list st1 in
      (st1, case lookup_loop addr rs 0 0 of
         Inl m \<Rightarrow> m
       | Inr (lo, hi) \<Rightarrow> new_mem_region lo hi
           (if inaccessible_by_default st1 \<and> rs \<noteq> [] then unknown_mem_attrib else default_mem_attrib)))"


subsection \<open>Disjoint regions\<close>

definition proper :: "mem_region \<Rightarrow> bool" where
  "proper m \<longleftrightarrow> region_lo m < region_hi m \<or> region_hi m = 0"

definition ends_before :: "mem_region \<Rightarrow> mem_region \<Rightarrow> bool" where
  "ends_before a b \<longleftrightarrow> region_hi a \<noteq> 0 \<and> region_hi a \<le> region_lo b"

definition regions_ok :: "mem_region list \<Rightarrow> bool" where
  "regions_ok rs \<longleftrightarrow> (\<forall>m \<in> set rs. proper m) \<and> sorted_wrt ends_before rs"

definition disjoint_regions :: "mem_region \<Rightarrow> mem_region \<Rightarrow> bool" where
  "disjoint_regions a b \<longleftrightarrow> \<not> (\<exists>x. in_region x a \<and> in_region x b)"

lemma disjoint_iff:
  assumes "proper a" "proper b"
  shows "disjoint_regions a b \<longleftrightarrow> ends_before a b \<or> ends_before b a"
proof
  assume d: "disjoint_regions a b"
  let ?x = "max (region_lo a) (region_lo b)"
  have "\<not> (in_region ?x a \<and> in_region ?x b)" using d by (auto simp: disjoint_regions_def)
  then show "ends_before a b \<or> ends_before b a"
    using assms by (auto simp: proper_def ends_before_def in_region_def max_def split: if_splits)
qed (use assms in \<open>auto simp: disjoint_regions_def proper_def ends_before_def in_region_def\<close>)

lemma clash_iff:
  assumes "proper n" "lo < hi \<or> hi = 0"
  shows "clash lo hi n \<longleftrightarrow> \<not> disjoint_regions (new_mem_region lo hi attrib) n"
proof -
  have "proper (new_mem_region lo hi attrib)" using assms(2) by (simp add: proper_def new_mem_region_def)
  note d = disjoint_iff [OF this assms(1)]
  show ?thesis unfolding d using assms
    by (auto simp: clash_def proper_def ends_before_def new_mem_region_def)
qed

lemma ends_before_trans: "proper b \<Longrightarrow> ends_before a b \<Longrightarrow> ends_before b c \<Longrightarrow> ends_before a c"
  by (auto simp: proper_def ends_before_def)

definition add_region :: "CORE_ADDR \<Rightarrow> CORE_ADDR \<Rightarrow> mem_attrib \<Rightarrow> int \<Rightarrow> mem_region" where
  "add_region lo hi attrib num = (new_mem_region lo hi attrib)\<lparr>region_number := num\<rparr>"

lemma add_region_simps [simp]:
  "region_lo (add_region lo hi attrib num) = lo" "region_hi (add_region lo hi attrib num) = hi"
  "region_number (add_region lo hi attrib num) = num" "enabled_p (add_region lo hi attrib num)"
  "region_attrib (add_region lo hi attrib num) = attrib"
  by (simp_all add: add_region_def new_mem_region_def)

lemma disjoint_number: "disjoint_regions (new_mem_region lo hi attrib) n \<longleftrightarrow> disjoint_regions (add_region lo hi attrib num) n"
  by (simp add: disjoint_regions_def in_region_def add_region_def new_mem_region_def)

text \<open>Only the two neighbours of the place of insertion need to be compared.\<close>

lemma neighbours_suffice:
  fixes lo hi :: CORE_ADDR and attrib :: mem_attrib and num :: int
  assumes "regions_ok rs" "lo < hi \<or> hi = 0"
  defines "xs \<equiv> takeWhile (\<lambda>r. region_lo r < lo) rs" and "ys \<equiv> dropWhile (\<lambda>r. region_lo r < lo) rs"
    and "new \<equiv> add_region lo hi attrib num"
  assumes near: "\<forall>n \<in> set (take 1 ys @ (if xs = [] then [] else [last xs])). disjoint_regions new n"
  shows "(\<forall>x \<in> set xs. ends_before x new) \<and> (\<forall>y \<in> set ys. ends_before new y)"
proof (intro conjI ballI)
  have rs: "rs = xs @ ys" by (simp add: xs_def ys_def)
  have ok: "\<And>m. m \<in> set rs \<Longrightarrow> proper m" "sorted_wrt ends_before (xs @ ys)" "proper new"
    using assms(1,2) rs by (auto simp: regions_ok_def new_def proper_def)
  show "ends_before x new" if x: "x \<in> set xs" for x
  proof -
    have below: "region_lo m < lo" if "m \<in> set xs" for m using that by (auto simp: xs_def dest: set_takeWhileD)
    have last: "last xs \<in> set xs" "disjoint_regions new (last xs)" using x near by (auto split: if_splits)
    have pl: "proper (last xs)" using ok(1) [of "last xs"] rs last(1) by simp
    have "\<not> ends_before new (last xs)"
      using below [OF last(1)] assms(2) by (auto simp: ends_before_def new_def)
    then have el: "ends_before (last xs) new" using disjoint_iff [OF ok(3) pl] last(2) by simp
    have px: "proper x" using ok(1) [of x] rs x by simp
    obtain us where us: "xs = us @ [last xs]" using x by (metis append_butlast_last_id empty_iff empty_set)
    have "x = last xs \<or> ends_before x (last xs)"
      using ok(2) x us by (metis Un_iff empty_iff insert_iff list.set(1,2) set_append sorted_wrt_append)
    then show ?thesis using el ends_before_trans [OF pl] by blast
  qed
  show "ends_before new y" if y: "y \<in> set ys" for y
  proof -
    obtain z zs where z: "ys = z # zs" using y by (cases ys) auto
    then have lz: "\<not> region_lo z < lo" using hd_dropWhile [of "\<lambda>r. region_lo r < lo" rs] by (auto simp: ys_def)
    have pz: "proper z" "disjoint_regions new z" using ok(1) [of z] rs z near by auto
    have "\<not> ends_before z new" using lz pz(1) by (auto simp: ends_before_def new_def proper_def)
    then have e: "ends_before new z" using disjoint_iff [OF ok(3) pz(1)] pz(2) by simp
    have "y = z \<or> ends_before z y" using ok(2) z y by (auto simp: sorted_wrt_append)
    then show ?thesis using e ends_before_trans [OF pz(1)] by blast
  qed
qed

lemma insertion_point:
  fixes rs :: "mem_region list" and lo :: CORE_ADDR
  defines "xs \<equiv> takeWhile (\<lambda>r. region_lo r < lo) rs" and "ys \<equiv> dropWhile (\<lambda>r. region_lo r < lo) rs"
  shows "take (lower_bound rs lo) rs = xs" "drop (lower_bound rs lo) rs = ys"
    "lower_bound rs lo = 0 \<longleftrightarrow> xs = []" "xs \<noteq> [] \<Longrightarrow> rs ! (lower_bound rs lo - 1) = last xs"
proof -
  show t: "take (lower_bound rs lo) rs = xs" "drop (lower_bound rs lo) rs = ys"
    by (simp_all add: lower_bound_def xs_def ys_def takeWhile_eq_take [symmetric] dropWhile_eq_drop [symmetric])
  show "lower_bound rs lo = 0 \<longleftrightarrow> xs = []" by (simp add: lower_bound_def xs_def)
  assume xs: "xs \<noteq> []"
  have "rs = xs @ ys" by (simp add: xs_def ys_def)
  then have "rs ! (length xs - 1) = xs ! (length xs - 1)" using xs by (simp add: nth_append)
  then show "rs ! (lower_bound rs lo - 1) = last xs" using xs by (simp add: lower_bound_def xs_def [symmetric] last_conv_nth)
qed

lemma create_region_cases:
  assumes "regions_ok (user_mem_region_list st)" and new: "new = add_region lo hi attrib (mem_number st + 1)"
  shows "\<exists>st1 msg. create_user_mem_region lo hi attrib st = (st1, msg) \<and> regions_ok (user_mem_region_list st1) \<and>
    (msg = None \<longleftrightarrow> (lo < hi \<or> hi = 0) \<and> (\<forall>m \<in> set (user_mem_region_list st). disjoint_regions new m)) \<and>
    (msg = None \<longrightarrow> (\<exists>xs ys. user_mem_region_list st = xs @ ys \<and> st1 = st\<lparr>mem_number := mem_number st + 1, user_mem_region_list := xs @ [new] @ ys\<rparr>)) \<and>
    (msg \<noteq> None \<longrightarrow> st1 = st)"
proof (cases "lo < hi \<or> hi = 0")
  case True
  let ?rs = "user_mem_region_list st"
  define xs where "xs = takeWhile (\<lambda>r. region_lo r < lo) ?rs"
  define ys where "ys = dropWhile (\<lambda>r. region_lo r < lo) ?rs"
  define near where "near = take 1 ys @ (if xs = [] then [] else [last xs])"
  have rs: "?rs = xs @ ys" by (simp add: xs_def ys_def)
  have ok: "\<And>m. m \<in> set ?rs \<Longrightarrow> proper m" using assms(1) by (simp add: regions_ok_def)
  have sub: "set near \<subseteq> set ?rs" using set_take_subset [of 1 ys] by (auto simp: near_def rs)
  have near: "take 1 (drop (lower_bound ?rs lo) ?rs) @ (if lower_bound ?rs lo = 0 then [] else [?rs ! (lower_bound ?rs lo - 1)]) = near"
    using insertion_point(2-4) [where rs = ?rs and lo = lo] by (auto simp: near_def xs_def ys_def)
  have clash: "(\<exists>n \<in> set near. clash lo hi n) \<longleftrightarrow> (\<exists>n \<in> set near. \<not> disjoint_regions new n)"
    using clash_iff [OF ok True] sub unfolding new disjoint_number [symmetric] by (meson subsetD)
  have ne: "\<not> (lo \<ge> hi \<and> hi \<noteq> 0)" using True by auto
  have "create_user_mem_region lo hi attrib st =
      (if \<exists>n \<in> set near. clash lo hi n then (st, Some Overlapping_region)
       else (st\<lparr>mem_number := mem_number st + 1, user_mem_region_list := take (lower_bound ?rs lo) ?rs @ [new] @ drop (lower_bound ?rs lo) ?rs\<rparr>, None))"
    using ne by (simp only: create_user_mem_region_def Let_def near if_False new add_region_def)
  note body = this [unfolded clash insertion_point(1,2), folded xs_def ys_def]
  show ?thesis
  proof (cases "\<exists>n \<in> set near. \<not> disjoint_regions new n")
    case bad: True
    then have "create_user_mem_region lo hi attrib st = (st, Some Overlapping_region)"
      unfolding body by (simp only: if_True)
    moreover have "\<not> (\<forall>m \<in> set ?rs. disjoint_regions new m)" using bad sub by blast
    ultimately show ?thesis using assms(1) by blast
  next
    case False
    let ?st1 = "st\<lparr>mem_number := mem_number st + 1, user_mem_region_list := xs @ [new] @ ys\<rparr>"
    have r: "create_user_mem_region lo hi attrib st = (?st1, None)"
      unfolding body using False by (simp only: if_False)
    have e: "(\<forall>x \<in> set xs. ends_before x new) \<and> (\<forall>y \<in> set ys. ends_before new y)"
      unfolding new xs_def ys_def
      by (rule neighbours_suffice [OF assms(1) True]) (use False in \<open>auto simp: near_def new xs_def ys_def\<close>)
    have pn: "proper new" using True by (simp add: new proper_def)
    have "\<forall>x \<in> set xs. \<forall>y \<in> set ys. ends_before x y" using assms(1) rs by (simp add: regions_ok_def sorted_wrt_append)
    then have "regions_ok (xs @ [new] @ ys)"
      using assms(1) rs e pn by (auto simp: regions_ok_def sorted_wrt_append)
    moreover have "\<forall>m \<in> set ?rs. disjoint_regions new m"
      using e disjoint_iff [OF pn ok] unfolding rs by auto
    moreover have "\<exists>us vs. ?rs = us @ vs \<and> ?st1 = st\<lparr>mem_number := mem_number st + 1, user_mem_region_list := us @ [new] @ vs\<rparr>"
      using rs by blast
    ultimately show ?thesis using r True by simp
  qed
next
  case False
  then have "create_user_mem_region lo hi attrib st = (st, Some Invalid_region)" by (auto simp: create_user_mem_region_def Let_def)
  then show ?thesis using False assms(1) by auto
qed

text \<open>C20: A new region is refused exactly when it is empty or shares an address with a region of the list, although only its
  two neighbours are compared; an accepted region is added, with a fresh number, and the list stays sorted and disjoint.
\<close>

theorem create_region_exact:
  assumes "regions_ok (user_mem_region_list st)" and new: "new = add_region lo hi attrib (mem_number st + 1)"
  shows "\<exists>st1 msg. create_user_mem_region lo hi attrib st = (st1, msg) \<and> regions_ok (user_mem_region_list st1) \<and>
    (msg = None \<longleftrightarrow> (lo < hi \<or> hi = 0) \<and> (\<forall>m \<in> set (user_mem_region_list st). disjoint_regions new m)) \<and>
    (msg = None \<longrightarrow> set (user_mem_region_list st1) = insert new (set (user_mem_region_list st)) \<and> mem_number st1 = mem_number st + 1) \<and>
    (msg \<noteq> None \<longrightarrow> st1 = st)"
proof -
  obtain st1 msg where c: "create_user_mem_region lo hi attrib st = (st1, msg)" "regions_ok (user_mem_region_list st1)"
    "msg = None \<longleftrightarrow> (lo < hi \<or> hi = 0) \<and> (\<forall>m \<in> set (user_mem_region_list st). disjoint_regions new m)"
    "msg = None \<longrightarrow> (\<exists>xs ys. user_mem_region_list st = xs @ ys \<and>
       st1 = st\<lparr>mem_number := mem_number st + 1, user_mem_region_list := xs @ [new] @ ys\<rparr>)"
    "msg \<noteq> None \<longrightarrow> st1 = st"
    using create_region_cases [OF assms] by (elim exE conjE) (rule that)
  have "set (user_mem_region_list st1) = insert new (set (user_mem_region_list st)) \<and> mem_number st1 = mem_number st + 1" if "msg = None"
    using mp [OF c(4) that] by (elim exE conjE) simp
  then show ?thesis using c(1-3,5) by blast
qed

theorem create_region_exact_witness:
  "\<exists>st1. create_user_mem_region 16 32 default_mem_attrib
      \<lparr>user_mem_region_list = [add_region 32 0 default_mem_attrib 1], target_mem_region_list = [], mem_use_target = False,
        mem_number = 1, target_mem_regions_valid = False, inaccessible_by_default = True\<rparr> = (st1, None) \<and>
    set (user_mem_region_list st1) = {add_region 16 32 default_mem_attrib 2, add_region 32 0 default_mem_attrib 1}"
proof -
  let ?st = "\<lparr>user_mem_region_list = [add_region 32 0 default_mem_attrib 1], target_mem_region_list = [], mem_use_target = False,
    mem_number = 1, target_mem_regions_valid = False, inaccessible_by_default = True\<rparr>"
  have ok: "regions_ok (user_mem_region_list ?st)" by (simp add: regions_ok_def proper_def)
  have "disjoint_regions (add_region 16 32 default_mem_attrib 2) (add_region 32 0 default_mem_attrib 1)"
    by (auto simp: disjoint_regions_def in_region_def)
  then show ?thesis using create_region_exact [OF ok refl, of 16 32 default_mem_attrib] by auto
qed

subsection \<open>The lookup\<close>

text \<open>The hole that the loop has found so far ends where a region begins, and begins where one ends.\<close>

lemma lookup_loop_hit: "lookup_loop addr ms lo hi = Inl m \<Longrightarrow> m \<in> set ms \<and> enabled_p m \<and> in_region addr m"
  by (induction addr ms lo hi rule: lookup_loop.induct) (auto split: if_splits prod.splits)

lemma lookup_loop_hole:
  assumes "\<forall>m \<in> set ms. enabled_p m \<longrightarrow> proper m" "lo \<le> addr \<and> (hi = 0 \<or> addr < hi)" "lookup_loop addr ms lo hi = Inr (lo1, hi1)"
  shows "lo \<le> lo1 \<and> lo1 \<le> addr \<and> (hi1 = 0 \<or> addr < hi1) \<and> (hi \<noteq> 0 \<longrightarrow> hi1 \<noteq> 0 \<and> hi1 \<le> hi) \<and>
    (\<forall>m \<in> set ms. enabled_p m \<longrightarrow> region_hi m \<noteq> 0 \<and> region_hi m \<le> lo1 \<or> hi1 \<noteq> 0 \<and> hi1 \<le> region_lo m) \<and>
    (lo1 = lo \<or> (\<exists>m \<in> set ms. enabled_p m \<and> lo1 = region_hi m \<and> lo1 \<noteq> 0)) \<and>
    (hi1 = hi \<or> (\<exists>m \<in> set ms. enabled_p m \<and> hi1 = region_lo m \<and> hi1 \<noteq> 0))"
  using assms
proof (induction ms arbitrary: lo hi)
  case Nil
  then show ?case by simp
next
  case (Cons m ms)
  show ?case
  proof (cases "enabled_p m")
    case False
    then show ?thesis using Cons.IH [of lo hi] Cons.prems by auto
  next
    case True
    then have m: "proper m" "\<not> in_region addr m" using Cons.prems(1,3) by (auto split: if_splits)
    obtain lo2 hi2 where n: "narrow addr m lo hi = (lo2, hi2)" by (cases "narrow addr m lo hi")
    have rest: "lookup_loop addr ms lo2 hi2 = Inr (lo1, hi1)" using Cons.prems(3) True m(2) n by simp
    have step: "lo \<le> lo2" "lo2 \<le> addr" "hi2 = 0 \<or> addr < hi2" "hi \<noteq> 0 \<longrightarrow> hi2 \<noteq> 0 \<and> hi2 \<le> hi"
      "region_hi m \<noteq> 0 \<and> region_hi m \<le> lo2 \<or> hi2 \<noteq> 0 \<and> hi2 \<le> region_lo m"
      "lo2 = lo \<or> lo2 = region_hi m \<and> lo2 \<noteq> 0" "hi2 = hi \<or> hi2 = region_lo m \<and> hi2 \<noteq> 0"
      using n m Cons.prems(2) by (auto simp: narrow_def proper_def in_region_def split: if_splits)
    have ih: "lo2 \<le> lo1 \<and> lo1 \<le> addr \<and> (hi1 = 0 \<or> addr < hi1) \<and> (hi2 \<noteq> 0 \<longrightarrow> hi1 \<noteq> 0 \<and> hi1 \<le> hi2) \<and>
      (\<forall>m \<in> set ms. enabled_p m \<longrightarrow> region_hi m \<noteq> 0 \<and> region_hi m \<le> lo1 \<or> hi1 \<noteq> 0 \<and> hi1 \<le> region_lo m) \<and>
      (lo1 = lo2 \<or> (\<exists>m \<in> set ms. enabled_p m \<and> lo1 = region_hi m \<and> lo1 \<noteq> 0)) \<and>
      (hi1 = hi2 \<or> (\<exists>m \<in> set ms. enabled_p m \<and> hi1 = region_lo m \<and> hi1 \<noteq> 0))"
      by (rule Cons.IH) (use Cons.prems(1) step(2,3) rest in auto)
    have "lo \<le> lo1" "hi \<noteq> 0 \<longrightarrow> hi1 \<noteq> 0 \<and> hi1 \<le> hi" using ih step(1,4) by auto
    moreover have "region_hi m \<noteq> 0 \<and> region_hi m \<le> lo1 \<or> hi1 \<noteq> 0 \<and> hi1 \<le> region_lo m" using ih step(5) by auto
    moreover have "lo1 = lo \<or> (\<exists>x \<in> set (m # ms). enabled_p x \<and> lo1 = region_hi x \<and> lo1 \<noteq> 0)" using ih step(6) True by auto
    moreover have "hi1 = hi \<or> (\<exists>x \<in> set (m # ms). enabled_p x \<and> hi1 = region_lo x \<and> hi1 \<noteq> 0)" using ih step(7) True by auto
    ultimately show ?thesis using ih by simp
  qed
qed

text \<open>The widest range around an address that meets no enabled region.\<close>

definition widest_hole :: "mem_region list \<Rightarrow> CORE_ADDR \<Rightarrow> mem_region \<Rightarrow> bool" where
  "widest_hole rs addr r \<longleftrightarrow> in_region addr r \<and> (\<forall>m \<in> set rs. enabled_p m \<longrightarrow> disjoint_regions r m) \<and>
     (\<forall>q. proper q \<and> in_region addr q \<and> (\<forall>m \<in> set rs. enabled_p m \<longrightarrow> disjoint_regions q m) \<longrightarrow> (\<forall>x. in_region x q \<longrightarrow> in_region x r))"

lemma lookup_hole_widest:
  assumes "\<forall>m \<in> set rs. enabled_p m \<longrightarrow> proper m" "lookup_loop addr rs 0 0 = Inr (lo, hi)"
  shows "widest_hole rs addr (new_mem_region lo hi attrib)"
proof -
  let ?r = "new_mem_region lo hi attrib"
  have h: "lo \<le> addr" "hi = 0 \<or> addr < hi"
    "\<forall>m \<in> set rs. enabled_p m \<longrightarrow> region_hi m \<noteq> 0 \<and> region_hi m \<le> lo \<or> hi \<noteq> 0 \<and> hi \<le> region_lo m"
    "lo = 0 \<or> (\<exists>m \<in> set rs. enabled_p m \<and> lo = region_hi m \<and> lo \<noteq> 0)"
    "hi = 0 \<or> (\<exists>m \<in> set rs. enabled_p m \<and> hi = region_lo m \<and> hi \<noteq> 0)"
    using lookup_loop_hole [OF assms(1) _ assms(2)] by simp_all
  have pr: "proper ?r" "in_region addr ?r" using h(1,2) by (auto simp: proper_def in_region_def new_mem_region_def)
  have "disjoint_regions ?r m" if "m \<in> set rs" "enabled_p m" for m
  proof -
    have "proper m" using assms(1) that by blast
    then show ?thesis using h(3) that disjoint_iff [OF pr(1)] by (auto simp: ends_before_def new_mem_region_def)
  qed
  moreover have "in_region x ?r" if q: "proper q" "in_region addr q" "\<forall>m \<in> set rs. enabled_p m \<longrightarrow> disjoint_regions q m" "in_region x q" for q x
  proof -
    have apart: "ends_before q m \<or> ends_before m q" if "m \<in> set rs" "enabled_p m" for m
      using disjoint_iff [OF q(1)] assms(1) q(3) that by blast
    have "lo \<le> x"
    proof (cases "lo = 0")
      case False
      then obtain m where m: "m \<in> set rs" "enabled_p m" "lo = region_hi m" using h(4) by blast
      then have "proper m" using assms(1) by blast
      then have "\<not> ends_before q m" using q(2) m(3) h(1) False by (auto simp: ends_before_def in_region_def proper_def)
      then show ?thesis using apart [OF m(1,2)] m(3) q(4) by (auto simp: ends_before_def in_region_def)
    qed simp
    moreover have "hi = 0 \<or> x < hi"
    proof (cases "hi = 0")
      case False
      then obtain m where m: "m \<in> set rs" "enabled_p m" "hi = region_lo m" using h(5) by blast
      then have "proper m" using assms(1) by blast
      then have "\<not> ends_before m q" using q(2) m(3) h(2) False by (auto simp: ends_before_def in_region_def proper_def)
      then show ?thesis using apart [OF m(1,2)] m(3) q(4) by (auto simp: ends_before_def in_region_def)
    qed simp
    ultimately show ?thesis by (auto simp: in_region_def new_mem_region_def)
  qed
  ultimately show ?thesis using pr(2) unfolding widest_hole_def by blast
qed

lemma lookup_region_cases:
  assumes rs: "rs = mem_region_list (require_target_regions reported st)" and "\<forall>m \<in> set rs. enabled_p m \<longrightarrow> proper m"
    and r: "r = snd (lookup_mem_region reported addr st)"
  shows "r \<in> set rs \<and> enabled_p r \<and> in_region addr r \<or>
    (\<forall>m \<in> set rs. enabled_p m \<longrightarrow> \<not> in_region addr m) \<and> widest_hole rs addr r \<and>
      access_mode (region_attrib r) = (if inaccessible_by_default st \<and> rs \<noteq> [] then MEM_NONE else MEM_RW)"
proof (cases "lookup_loop addr rs 0 0")
  case (Inl m)
  then show ?thesis using lookup_loop_hit [OF Inl] by (simp add: r lookup_mem_region_def rs Let_def)
next
  case (Inr h)
  obtain lo hi where h: "h = (lo, hi)" by (cases h)
  define attrib where "attrib = (if inaccessible_by_default st \<and> rs \<noteq> [] then unknown_mem_attrib else default_mem_attrib)"
  have "inaccessible_by_default (require_target_regions reported st) = inaccessible_by_default st"
    by (simp add: require_target_regions_def)
  then have rn: "r = new_mem_region lo hi attrib"
    using Inr h by (simp add: r lookup_mem_region_def rs [symmetric] Let_def attrib_def)
  have w: "widest_hole rs addr r"
    unfolding rn by (rule lookup_hole_widest) (use assms(2) Inr h in \<open>simp_all add: rs\<close>)
  then have "\<forall>m \<in> set rs. enabled_p m \<longrightarrow> \<not> in_region addr m" by (auto simp: widest_hole_def disjoint_regions_def)
  moreover have "access_mode (region_attrib r) = (if inaccessible_by_default st \<and> rs \<noteq> [] then MEM_NONE else MEM_RW)"
    by (simp add: rn new_mem_region_def attrib_def unknown_mem_attrib_def default_mem_attrib_def)
  ultimately show ?thesis using w by blast
qed

text \<open>C19: The lookup of an address returns an enabled region that contains it or, when there is none, the widest range around it that
  meets no enabled region, which is inaccessible exactly when regions are defined and the user wants it so.
\<close>

theorem lookup_region_exact:
  assumes rs: "rs = mem_region_list (require_target_regions reported st)" and "\<forall>m \<in> set rs. enabled_p m \<longrightarrow> proper m"
    and r: "r = snd (lookup_mem_region reported addr st)"
  shows "r \<in> set rs \<and> enabled_p r \<and> in_region addr r \<or>
    (\<forall>m \<in> set rs. enabled_p m \<longrightarrow> \<not> in_region addr m) \<and> widest_hole rs addr r \<and>
      access_mode (region_attrib r) = (if inaccessible_by_default st \<and> rs \<noteq> [] then MEM_NONE else MEM_RW)"
  by (rule lookup_region_cases [OF assms])

theorem lookup_region_exact_witness:
  "let st = \<lparr>user_mem_region_list = [add_region 16 32 default_mem_attrib 1], target_mem_region_list = [], mem_use_target = False,
      mem_number = 1, target_mem_regions_valid = False, inaccessible_by_default = True\<rparr>;
    r = snd (lookup_mem_region [] 40 st) in
    widest_hole [add_region 16 32 default_mem_attrib 1] 40 r \<and> access_mode (region_attrib r) = MEM_NONE"
proof -
  let ?st = "\<lparr>user_mem_region_list = [add_region 16 32 default_mem_attrib 1], target_mem_region_list = [], mem_use_target = False,
      mem_number = 1, target_mem_regions_valid = False, inaccessible_by_default = True\<rparr>"
  have rs: "[add_region 16 32 default_mem_attrib 1] = mem_region_list (require_target_regions [] ?st)"
    by (simp add: mem_region_list_def require_target_regions_def)
  have "\<forall>m \<in> set [add_region 16 32 default_mem_attrib 1]. enabled_p m \<longrightarrow> proper m" by (simp add: proper_def)
  then show ?thesis using lookup_region_exact [OF rs _ refl, of 40]
    by (auto simp: Let_def in_region_def)
qed

text \<open>The addresses of the region that is found have the same attributes when they are looked up themselves.\<close>

lemma regions_ok_unique: "regions_ok rs \<Longrightarrow> m \<in> set rs \<Longrightarrow> n \<in> set rs \<Longrightarrow> in_region x m \<Longrightarrow> in_region x n \<Longrightarrow> m = n"
proof -
  assume ok: "regions_ok rs" and m: "m \<in> set rs" "n \<in> set rs" "in_region x m" "in_region x n"
  have apart: "\<not> ends_before m n" "\<not> ends_before n m" using m(3,4) by (auto simp: ends_before_def in_region_def)
  obtain i j where i: "i < length rs" "rs ! i = m" and j: "j < length rs" "rs ! j = n" using m(1,2) by (auto simp: in_set_conv_nth)
  have "sorted_wrt ends_before rs" using ok by (simp add: regions_ok_def)
  then have "i < j \<Longrightarrow> ends_before m n" "j < i \<Longrightarrow> ends_before n m" using i j by (auto simp: sorted_wrt_iff_nth_less)
  then have "i = j" using apart by (meson nat_neq_iff)
  then show "m = n" using i j by simp
qed

lemma lookup_alike:
  assumes "regions_ok (mem_region_list (require_target_regions reported st))"
    and "in_region x (snd (lookup_mem_region reported a st))"
  shows "region_attrib (snd (lookup_mem_region reported x st)) = region_attrib (snd (lookup_mem_region reported a st))"
proof -
  define rs where "rs = mem_region_list (require_target_regions reported st)"
  have ok: "regions_ok rs" "\<forall>m \<in> set rs. enabled_p m \<longrightarrow> proper m" using assms(1) by (simp_all add: rs_def regions_ok_def)
  note look = lookup_mem_region_def Let_def rs_def [symmetric]
  show ?thesis
  proof (cases "lookup_loop a rs 0 0")
    case (Inl m)
    then have m: "m \<in> set rs" "enabled_p m" "in_region x m" using lookup_loop_hit [OF Inl] assms(2) by (simp_all add: look)
    show ?thesis
    proof (cases "lookup_loop x rs 0 0")
      case n: (Inl n)
      then have "n = m" using lookup_loop_hit [OF n] regions_ok_unique [OF ok(1) _ m(1)] m(3) by blast
      then show ?thesis using Inl n by (simp add: look)
    next
      case (Inr h)
      obtain lo hi where h: "h = (lo, hi)" by (cases h)
      have "widest_hole rs x (new_mem_region lo hi undefined)" by (rule lookup_hole_widest [OF ok(2)]) (use Inr h in simp)
      then have "in_region x (new_mem_region lo hi undefined)" "disjoint_regions (new_mem_region lo hi undefined) m"
        using m(1,2) unfolding widest_hole_def by blast+
      then show ?thesis using m(3) unfolding disjoint_regions_def by blast
    qed
  next
    case (Inr h)
    obtain lo hi where h: "h = (lo, hi)" by (cases h)
    have w: "widest_hole rs a (new_mem_region lo hi undefined)" by (rule lookup_hole_widest [OF ok(2)]) (use Inr h in simp)
    have x: "in_region x (new_mem_region lo hi undefined)" using assms(2) Inr h by (simp add: look new_mem_region_def in_region_def)
    show ?thesis
    proof (cases "lookup_loop x rs 0 0")
      case (Inl n)
      have n: "n \<in> set rs" "enabled_p n" "in_region x n" using lookup_loop_hit [OF Inl] by blast+
      have "disjoint_regions (new_mem_region lo hi undefined) n" using w n(1,2) unfolding widest_hole_def by blast
      then show ?thesis using x n(3) unfolding disjoint_regions_def by blast
    next
      case k: (Inr k)
      then show ?thesis using Inr h by (cases k) (simp add: look new_mem_region_def)
    qed
  qed
qed

lemma lookup_contains:
  assumes "regions_ok (mem_region_list (require_target_regions reported st))"
  shows "in_region a (snd (lookup_mem_region reported a st))"
proof -
  have "\<forall>m \<in> set (mem_region_list (require_target_regions reported st)). enabled_p m \<longrightarrow> proper m" using assms by (simp add: regions_ok_def)
  from lookup_region_cases [OF refl this refl, of a] show ?thesis unfolding widest_hole_def by blast
qed

lemma require_target_twice: "require_target_regions reported (require_target_regions reported st) = require_target_regions reported st"
  by (simp add: require_target_regions_def)

lemma lookup_twice: "lookup_mem_region reported a (require_target_regions reported st) = lookup_mem_region reported a st"
  by (simp add: lookup_mem_region_def require_target_twice)

subsection \<open>The commands\<close>

lemma remove_if_one:
  assumes "xs = us @ x # vs" "P x" "\<forall>y \<in> set us \<union> set vs. \<not> P y"
  shows "erase (snd (remove_if P xs)) (fst (remove_if P xs)) = us @ vs" "snd (remove_if P xs) < length (fst (remove_if P xs))"
proof -
  have f: "filter (\<lambda>x. \<not> P x) xs = us @ vs" using assms by (simp add: filter_id_conv)
  have "drop (length us + length vs) xs = [last (x # vs)]"
    using assms(1) by (cases vs rule: rev_cases) auto
  then have r: "remove_if P xs = ((us @ vs) @ [last (x # vs)], length (us @ vs))" by (simp add: remove_if_def Let_def f)
  then show "erase (snd (remove_if P xs)) (fst (remove_if P xs)) = us @ vs" "snd (remove_if P xs) < length (fst (remove_if P xs))"
    by (simp_all add: erase_def)
qed

lemma remove_if_none: "\<forall>x \<in> set xs. \<not> P x \<Longrightarrow> remove_if P xs = (xs, length xs)"
  by (simp add: remove_if_def Let_def filter_id_conv)

lemma region_lists [simp]:
  "mem_region_list (set_mem_region_list rs st) = rs"
  "mem_use_target (set_mem_region_list rs st) = mem_use_target st"
  "mem_number (set_mem_region_list rs st) = mem_number st"
  by (simp_all add: set_mem_region_list_def mem_region_list_def)

lemma mem_delete_filter:
  assumes "distinct (map region_number (mem_region_list st))"
  shows "mem_delete num st =
    (set_mem_region_list (filter (\<lambda>m. region_number m \<noteq> num) (mem_region_list st)) st,
     if num \<in> region_number ` set (mem_region_list st) then None else Some (No_region num))"
proof (cases "num \<in> region_number ` set (mem_region_list st)")
  case True
  let ?P = "\<lambda>m. region_number m = num"
  obtain m where m: "m \<in> set (mem_region_list st)" "region_number m = num" using True by blast
  obtain us vs where split: "mem_region_list st = us @ m # vs" using split_list [OF m(1)] by blast
  have others: "\<forall>y \<in> set us \<union> set vs. \<not> ?P y" 
  proof -
    have "region_number m \<notin> region_number ` (set us \<union> set vs)" using assms unfolding split by (simp add: image_Un)
    then show ?thesis using m(2) by (metis image_eqI)
  qed
  then have "filter (\<lambda>m. region_number m \<noteq> num) (mem_region_list st) = us @ vs"
    unfolding split using m(2) by (simp add: filter_id_conv)
  note kept = this
  obtain rs it where r: "remove_if ?P (mem_region_list st) = (rs, it)" by (cases "remove_if ?P (mem_region_list st)")
  have "erase it rs = us @ vs" "it < length rs" using remove_if_one [where P = ?P, OF split m(2) others] by (simp_all only: r fst_conv snd_conv)
  then show ?thesis unfolding mem_delete_def r kept using True by simp
next
  case False
  then have none: "\<forall>m \<in> set (mem_region_list st). \<not> region_number m = num" by auto
  then have "filter (\<lambda>m. region_number m \<noteq> num) (mem_region_list st) = mem_region_list st" by (simp add: filter_id_conv)
  then show ?thesis using False remove_if_none [of "mem_region_list st" "\<lambda>m. region_number m = num"] none
    by (simp add: mem_delete_def)
qed

text \<open>When no two regions have the same number, deleting a number removes its region and nothing else, and a number that no
  region has is reported.
\<close>

theorem mem_delete_exact:
  assumes "distinct (map region_number (mem_region_list st))"
  shows "mem_delete num st =
    (set_mem_region_list (filter (\<lambda>m. region_number m \<noteq> num) (mem_region_list st)) st,
     if num \<in> region_number ` set (mem_region_list st) then None else Some (No_region num))"
  by (rule mem_delete_filter [OF assms])

theorem mem_delete_exact_witness:
  "fst (mem_delete 1 \<lparr>user_mem_region_list = [add_region 16 32 default_mem_attrib 1, add_region 32 0 default_mem_attrib 2],
      target_mem_region_list = [], mem_use_target = False, mem_number = 2, target_mem_regions_valid = False, inaccessible_by_default = True\<rparr>) =
    \<lparr>user_mem_region_list = [add_region 32 0 default_mem_attrib 2], target_mem_region_list = [], mem_use_target = False,
      mem_number = 2, target_mem_regions_valid = False, inaccessible_by_default = True\<rparr>"
  by (subst mem_delete_exact) (simp_all add: mem_region_list_def set_mem_region_list_def)

text \<open>Lists of the user, as long as the target supplies none.\<close>

definition user_ok :: "mem_state \<Rightarrow> bool" where
  "user_ok st \<longleftrightarrow> target_mem_region_list st = [] \<and> regions_ok (user_mem_region_list st) \<and>
     distinct (map region_number (user_mem_region_list st)) \<and> (\<forall>m \<in> set (user_mem_region_list st). region_number m \<le> mem_number st)"

lemma regions_ok_bounds:
  "regions_ok rs \<longleftrightarrow> (\<forall>b \<in> set (map (\<lambda>m. (region_lo m, region_hi m)) rs). fst b < snd b \<or> snd b = 0) \<and>
     sorted_wrt (\<lambda>a b. snd a \<noteq> 0 \<and> snd a \<le> fst b) (map (\<lambda>m. (region_lo m, region_hi m)) rs)"
  by (simp add: regions_ok_def proper_def ends_before_def [abs_def] sorted_wrt_map)

lemma same_bounds_ok:
  assumes "map (\<lambda>m. (region_lo m, region_hi m)) rs1 = map (\<lambda>m. (region_lo m, region_hi m)) rs"
    and "map region_number rs1 = map region_number rs" "user_ok st" "\<not> mem_use_target st" "mem_region_list st = rs"
  shows "user_ok (set_mem_region_list rs1 st)"
proof -
  have rs: "user_mem_region_list st = rs" using assms(4,5) by (simp add: mem_region_list_def)
  have "\<forall>k \<in> set (map region_number rs). k \<le> mem_number st" using assms(3) rs by (simp add: user_ok_def)
  then have "\<forall>m \<in> set rs1. region_number m \<le> mem_number st" unfolding assms(2) [symmetric] by simp
  then show ?thesis using assms rs by (simp add: user_ok_def regions_ok_bounds [of rs1] regions_ok_bounds [of rs] set_mem_region_list_def)
qed

lemma set_enabled_same:
  "set_enabled b num rs = Some rs1 \<Longrightarrow> map (\<lambda>m. (region_lo m, region_hi m)) rs1 = map (\<lambda>m. (region_lo m, region_hi m)) rs \<and>
    map region_number rs1 = map region_number rs"
  by (induction rs arbitrary: rs1) (auto split: if_splits)

definition user_list :: "mem_state \<Rightarrow> bool" where
  "user_list st \<longleftrightarrow> user_ok st \<and> \<not> mem_use_target st"

lemma user_list_ops:
  assumes "user_list st"
  shows "user_list (fst (mem_enable num st))" "user_list (fst (mem_disable num st))" "user_list (fst (mem_delete num st))"
    and "user_list (set_all b st)"
proof -
  have st: "user_ok st" "\<not> mem_use_target st" using assms by (simp_all add: user_list_def)
  show "user_list (fst (mem_enable num st))"
  proof (cases "set_enabled True num (mem_region_list st)")
    case (Some rs1)
    show ?thesis using same_bounds_ok [OF _ _ st refl, of rs1] set_enabled_same [OF Some] st(2)
      by (simp add: mem_enable_def Some user_list_def)
  qed (use assms in \<open>simp add: mem_enable_def\<close>)
  show "user_list (fst (mem_disable num st))"
  proof (cases "set_enabled False num (mem_region_list st)")
    case (Some rs1)
    show ?thesis using same_bounds_ok [OF _ _ st refl, of rs1] set_enabled_same [OF Some] st(2)
      by (simp add: mem_disable_def Some user_list_def)
  qed (use assms in \<open>simp add: mem_disable_def\<close>)
  show "user_list (set_all b st)"
    using same_bounds_ok [OF _ _ st refl, of "map (\<lambda>m. m\<lparr>enabled_p := b\<rparr>) (mem_region_list st)"] st(2)
    by (simp add: set_all_def user_list_def comp_def)
  have rs: "mem_region_list st = user_mem_region_list st" using st(2) by (simp add: mem_region_list_def)
  have d: "distinct (map region_number (mem_region_list st))" using st(1) rs by (simp add: user_ok_def)
  have "regions_ok (filter P (user_mem_region_list st))" for P
    using st(1) by (auto simp: user_ok_def regions_ok_def intro: sorted_wrt_filter)
  moreover have "distinct (map region_number (filter P (user_mem_region_list st)))" for P
    using d unfolding rs by (rule distinct_map_filter)
  ultimately show "user_list (fst (mem_delete num st))"
    using st unfolding mem_delete_filter [OF d] by (simp add: user_list_def user_ok_def set_mem_region_list_def mem_region_list_def)
qed

lemma user_list_each:
  assumes "\<And>num st. user_list st \<Longrightarrow> user_list (fst (f num st))"
  shows "user_list st \<Longrightarrow> user_list (fst (each_number f nums st))"
proof (induction nums arbitrary: st)
  case (Cons num nums)
  then have "user_list (fst (each_number f nums (fst (f num st))))" using assms by blast
  then show ?case by (simp add: case_prod_beta)
qed simp

lemma user_list_create:
  assumes "user_list st"
  shows "user_list (fst (create_user_mem_region lo hi attrib st))"
proof -
  have st: "user_ok st" "\<not> mem_use_target st" using assms by (simp_all add: user_list_def)
  let ?new = "add_region lo hi attrib (mem_number st + 1)"
  have ok: "regions_ok (user_mem_region_list st)" using st(1) by (simp add: user_ok_def)
  obtain st1 msg where c: "create_user_mem_region lo hi attrib st = (st1, msg)" "regions_ok (user_mem_region_list st1)"
    "msg = None \<longrightarrow> (\<exists>xs ys. user_mem_region_list st = xs @ ys \<and>
       st1 = st\<lparr>mem_number := mem_number st + 1, user_mem_region_list := xs @ [?new] @ ys\<rparr>)"
    "msg \<noteq> None \<longrightarrow> st1 = st"
    using create_region_cases [OF ok refl, of lo hi attrib] by blast
  show ?thesis
  proof (cases msg)
    case None
    then obtain xs ys where x: "user_mem_region_list st = xs @ ys"
      "st1 = st\<lparr>mem_number := mem_number st + 1, user_mem_region_list := xs @ [?new] @ ys\<rparr>" using c(3) by blast
    have "\<forall>m \<in> set (xs @ ys). region_number m \<le> mem_number st" using st(1) x(1) by (simp add: user_ok_def)
    then have fresh: "mem_number st + 1 \<notin> region_number ` set (xs @ ys)" "\<forall>m \<in> set (xs @ ys). region_number m \<le> mem_number st + 1" by fastforce+
    then show ?thesis using st c(1,2) x by (simp add: user_list_def user_ok_def image_Un)
  qed (use assms c in simp)
qed

lemma user_list_require: "user_ok st \<Longrightarrow> user_list (require_user_regions st)"
  by (simp add: user_list_def user_ok_def require_user_regions_def Let_def)

lemma user_ok_clear: "target_mem_region_list st = [] \<Longrightarrow> user_ok (user_mem_clear st)"
  by (simp add: user_ok_def user_mem_clear_def regions_ok_def)



text \<open>
  The regions of the target are numbered from 0, and their copy does not advance \<open>mem_number\<close>: the first region that the user adds
  has the number of the second region of the target, and deleting it leaves a region twice.
\<close>

definition three_regions :: "mem_region list" where
  "three_regions = [add_region 4096 8192 default_mem_attrib 0, add_region 8192 12288 default_mem_attrib 0, add_region 12288 16384 default_mem_attrib 0]"

lemma delete_duplicate_number:
  "let st = require_target_regions three_regions \<lparr>user_mem_region_list = [], target_mem_region_list = [], mem_use_target = True,
       mem_number = 0, target_mem_regions_valid = False, inaccessible_by_default = True\<rparr>;
     (st1, msg) = create_user_mem_region 0 4096 default_mem_attrib (require_user_regions st);
     (st2, msgs) = delete_mem_command False (Some [1]) st1 in
   msg = None \<and> map region_number (user_mem_region_list st1) = [1, 0, 1, 2] \<and> map region_lo (user_mem_region_list st2) = [4096, 12288, 12288]"
  by code_simp

text \<open>A region up to the top of the address space is not found to overlap the regions behind it.\<close>

lemma overlap_behind_top:
  "let rs = target_memory_map [add_region 4096 0 default_mem_attrib 0, add_region 8192 12288 default_mem_attrib 0] in
   length rs = 2 \<and> in_region 8192 (rs ! 0) \<and> in_region 8192 (rs ! 1)"
  by code_simp

end
