(* ===== verification/Dcache.thy ===== *)
theory Dcache
  imports Dcache_Blocks Memattr Splay
begin

text \<open>
  The cache of target memory (\<^verbatim>\<open>gdb-15.1/gdb/dcache.c\<close>): lines of memory found through a splay tree, in the order in which they
  were allocated, of which the oldest is evicted when the cache is full. The operations are written over any provider of the
  interface \<open>ordered_map\<close>; the locale \<open>line_cache\<close> has what holds for all of them, and is interpreted on the splay tree.
\<close>

subsection \<open>The cache\<close>

type_synonym ptid = "int \<times> int \<times> int"

definition null_ptid :: ptid where "null_ptid = (0, 0, 0)"

text \<open>The heap is part of the state: the blocks, the next one to be allocated, and those that were freed.\<close>

record 't dcache_struct =
  dtree :: 't
  oldest :: "nat option"
  freelist :: "nat option"
  dc_size :: int
  line_size :: CORE_ADDR
  dc_ptid :: ptid
  proc_target :: "nat option"
  blocks :: store
  next_block :: nat
  freed :: "nat list"

text \<open>
  What the cache uses: the operations of the tree, memory allocation (the contents of a new block of a number and a size), the
  region of an address, reads of raw memory (the bytes put into the buffer, and whether the whole read succeeded), and the two settings.
\<close>

record 't dcache_env =
  tree_ops :: "('t, CORE_ADDR, nat) map_ops"
  xmalloc :: "nat \<Rightarrow> nat \<Rightarrow> dcache_block"
  region_of :: "CORE_ADDR \<Rightarrow> mem_region"
  read_raw :: "CORE_ADDR \<Rightarrow> nat \<Rightarrow> uint8 list \<times> bool"
  dcache_size :: uint32
  dcache_line_size :: uint32

definition LINE_SIZE_MASK :: "'t dcache_struct \<Rightarrow> CORE_ADDR" where
  "LINE_SIZE_MASK d = line_size d - 1"

definition XFORM :: "'t dcache_struct \<Rightarrow> CORE_ADDR \<Rightarrow> CORE_ADDR" where
  "XFORM d x = x AND LINE_SIZE_MASK d"

definition MASK :: "'t dcache_struct \<Rightarrow> CORE_ADDR \<Rightarrow> CORE_ADDR" where
  "MASK d x = x AND NOT (LINE_SIZE_MASK d)"

definition dcache_init :: "'t dcache_env \<Rightarrow> 't \<Rightarrow> 't dcache_struct" where
  "dcache_init env t = \<lparr>dtree = t, oldest = None, freelist = None, dc_size = 0, line_size = ucast (dcache_line_size env),
     dc_ptid = null_ptid, proc_target = None, blocks = (\<lambda>b. xmalloc env b 0), next_block = 0, freed = []\<rparr>"

definition free_block :: "nat \<Rightarrow> 't dcache_struct \<Rightarrow> 't dcache_struct" where
  "free_block b d = d\<lparr>freed := freed d @ [b]\<rparr>"

definition next_of :: "'t dcache_struct \<Rightarrow> nat \<Rightarrow> nat" where
  "next_of d b = blk_next (blocks d b)"

definition append_to :: "nat \<Rightarrow> 't dcache_struct \<Rightarrow> 't dcache_struct" where
  "append_to b d = (let (st, h) = append_block (blocks d) (oldest d) b in d\<lparr>blocks := st, oldest := h\<rparr>)"

definition append_free :: "nat \<Rightarrow> 't dcache_struct \<Rightarrow> 't dcache_struct" where
  "append_free b d = (let (st, h) = append_block (blocks d) (freelist d) b in d\<lparr>blocks := st, freelist := h\<rparr>)"

definition remove_from :: "nat \<Rightarrow> 't dcache_struct \<Rightarrow> 't dcache_struct" where
  "remove_from b d = (let (st, h) = remove_block (blocks d) (oldest d) b in d\<lparr>blocks := st, oldest := h\<rparr>)"

definition remove_free :: "nat \<Rightarrow> 't dcache_struct \<Rightarrow> 't dcache_struct" where
  "remove_free b d = (let (st, h) = remove_block (blocks d) (freelist d) b in d\<lparr>blocks := st, freelist := h\<rparr>)"

definition tree_remove :: "'t dcache_env \<Rightarrow> CORE_ADDR \<Rightarrow> 't dcache_struct \<Rightarrow> 't dcache_struct" where
  "tree_remove env k d = d\<lparr>dtree := op_remove (tree_ops env) (dtree d) k\<rparr>"

definition invalidate_block :: "'t dcache_env \<Rightarrow> nat \<Rightarrow> 't dcache_struct \<Rightarrow> 't dcache_struct" where
  "invalidate_block env b d = append_free b (tree_remove env (blk_addr (blocks d b)) d)"

text \<open>Both lists are freed; the tree is deleted before.\<close>

definition dcache_free :: "'t dcache_struct \<Rightarrow> 't dcache_struct option" where
  "dcache_free d = Option.bind (for_each_block oldest next_of free_block d) (for_each_block freelist next_of free_block)"

definition dcache_invalidate :: "'t dcache_env \<Rightarrow> 't dcache_struct \<Rightarrow> 't dcache_struct option" where
  "dcache_invalidate env d =
     Option.bind (for_each_block oldest next_of (invalidate_block env) d) (\<lambda>d1.
       let d2 = d1\<lparr>oldest := None, dc_size := 0, dc_ptid := null_ptid, proc_target := None\<rparr> in
       if line_size d2 \<noteq> ucast (dcache_line_size env)
       then map_option (\<lambda>d3. d3\<lparr>freelist := None, line_size := ucast (dcache_line_size env)\<rparr>) (for_each_block freelist next_of free_block d2)
       else Some d2)"

definition dcache_hit :: "'t dcache_env \<Rightarrow> 't dcache_struct \<Rightarrow> CORE_ADDR \<Rightarrow> 't dcache_struct \<times> nat option" where
  "dcache_hit env d addr =
     (let (t, node) = op_lookup (tree_ops env) (dtree d) (MASK d addr); d1 = d\<lparr>dtree := t\<rparr> in
      case node of
        None \<Rightarrow> (d1, None)
      | Some (_, db) \<Rightarrow> (d1\<lparr>blocks := (blocks d1)(db := (blocks d1 db)\<lparr>blk_refs := blk_refs (blocks d1 db) + 1\<rparr>)\<rparr>, Some db))"

definition dcache_invalidate_line :: "'t dcache_env \<Rightarrow> 't dcache_struct \<Rightarrow> CORE_ADDR \<Rightarrow> 't dcache_struct" where
  "dcache_invalidate_line env d addr =
     (case dcache_hit env d addr of
        (d1, None) \<Rightarrow> d1
      | (d1, Some db) \<Rightarrow>
          let d2 = append_free db (remove_from db (tree_remove env (blk_addr (blocks d1 db)) d1))
          in d2\<lparr>dc_size := dc_size d2 - 1\<rparr>)"

text \<open>The conversion of an unsigned number to the type \<open>int\<close>, and the bytes of a buffer that a read overwrites.\<close>

definition to_int :: "CORE_ADDR \<Rightarrow> int" where
  "to_int w = sint (ucast w :: 32 word)"

definition put_bytes :: "nat \<Rightarrow> 'a list \<Rightarrow> 'a list \<Rightarrow> 'a list" where
  "put_bytes i bs xs = take i xs @ bs @ drop (i + length bs) xs"

text \<open>The loop over the regions of a line; \<open>my\<close> is the offset of \<open>myaddr\<close> in the data.\<close>

definition region_len :: "mem_region \<Rightarrow> CORE_ADDR \<Rightarrow> int \<Rightarrow> int" where
  "region_len region memaddr len =
     (if region_hi region = 0 \<or> memaddr + word_of_int len < region_hi region then len else to_int (region_hi region - memaddr))"

partial_function (option) read_line_loop ::
  "'t dcache_env \<Rightarrow> CORE_ADDR \<Rightarrow> int \<Rightarrow> int \<Rightarrow> uint8 list \<Rightarrow> (uint8 list \<times> bool) option" where
  "read_line_loop env memaddr my len data =
     (if len > 0 then
        let region = region_of env memaddr; reg_len = region_len region memaddr len in
        if access_mode (region_attrib region) = MEM_WO
        then read_line_loop env (memaddr + word_of_int reg_len) (my + reg_len) (len - reg_len) data
        else let (bs, ok) = read_raw env memaddr (nat reg_len); data1 = put_bytes (nat my) bs data in
          if \<not> ok then Some (data1, False)
          else read_line_loop env (memaddr + word_of_int reg_len) (my + reg_len) (len - reg_len) data1
      else Some (data, True))"

declare read_line_loop.simps [code]

definition dcache_read_line :: "'t dcache_env \<Rightarrow> 't dcache_struct \<Rightarrow> nat \<Rightarrow> ('t dcache_struct \<times> bool) option" where
  "dcache_read_line env d db =
     map_option (\<lambda>(data, ok). (d\<lparr>blocks := (blocks d)(db := (blocks d db)\<lparr>blk_data := data\<rparr>)\<rparr>, ok))
       (read_line_loop env (blk_addr (blocks d db)) 0 (to_int (line_size d)) (blk_data (blocks d db)))"

text \<open>The block for a new line: the oldest one when the cache is full, a free one, or a new one.\<close>

definition take_block :: "'t dcache_env \<Rightarrow> 't dcache_struct \<Rightarrow> ('t dcache_struct \<times> nat) option" where
  "take_block env d =
     (if word_of_int (dc_size d) \<ge> dcache_size env then
        (case oldest d of
           None \<Rightarrow> None
         | Some db \<Rightarrow> let d1 = remove_from db d in Some (tree_remove env (blk_addr (blocks d1 db)) d1, db))
      else
        (case freelist d of
           Some db \<Rightarrow> Some ((remove_free db d)\<lparr>dc_size := dc_size d + 1\<rparr>, db)
         | None \<Rightarrow> Some (d\<lparr>blocks := (blocks d)(next_block d := xmalloc env (next_block d) (unat (line_size d))),
             next_block := next_block d + 1, dc_size := dc_size d + 1\<rparr>, next_block d)))"

definition dcache_alloc :: "'t dcache_env \<Rightarrow> 't dcache_struct \<Rightarrow> CORE_ADDR \<Rightarrow> ('t dcache_struct \<times> nat) option" where
  "dcache_alloc env d addr =
     map_option (\<lambda>(d1, db).
       let d2 = d1\<lparr>blocks := (blocks d1)(db := (blocks d1 db)\<lparr>blk_addr := MASK d1 addr, blk_refs := 0\<rparr>)\<rparr>;
           d3 = append_to db d2
       in (d3\<lparr>dtree := op_insert (tree_ops env) (dtree d3) (blk_addr (blocks d3 db)) db\<rparr>, db)) (take_block env d)"

definition data_at :: "'t dcache_struct \<Rightarrow> nat \<Rightarrow> CORE_ADDR \<Rightarrow> uint8" where
  "data_at d db addr = blk_data (blocks d db) ! unat (XFORM d addr)"

definition dcache_peek_byte :: "'t dcache_env \<Rightarrow> 't dcache_struct \<Rightarrow> CORE_ADDR \<Rightarrow> ('t dcache_struct \<times> uint8 option) option" where
  "dcache_peek_byte env d addr =
     (case dcache_hit env d addr of
        (d1, Some db) \<Rightarrow> Some (d1, Some (data_at d1 db addr))
      | (d1, None) \<Rightarrow>
          Option.bind (dcache_alloc env d1 addr) (\<lambda>(d2, db).
            map_option (\<lambda>(d3, ok). (d3, if ok then Some (data_at d3 db addr) else None)) (dcache_read_line env d2 db)))"

definition dcache_poke_byte :: "'t dcache_env \<Rightarrow> 't dcache_struct \<Rightarrow> CORE_ADDR \<Rightarrow> uint8 \<Rightarrow> 't dcache_struct" where
  "dcache_poke_byte env d addr v =
     (case dcache_hit env d addr of
        (d1, None) \<Rightarrow> d1
      | (d1, Some db) \<Rightarrow>
          d1\<lparr>blocks := (blocks d1)(db := (blocks d1 db)\<lparr>blk_data := (blk_data (blocks d1 db))[unat (XFORM d1 addr) := v]\<rparr>)\<rparr>)"

definition dcache_splay_tree_compare :: "CORE_ADDR \<Rightarrow> CORE_ADDR \<Rightarrow> int" where
  "dcache_splay_tree_compare a b = (if a > b then 1 else if a = b then 0 else - 1)"

subsection \<open>Transfers\<close>

datatype target_xfer_status = TARGET_XFER_EOF | TARGET_XFER_OK | TARGET_XFER_UNAVAILABLE | TARGET_XFER_E_IO

text \<open>The bytes from \<open>addr\<close> on, as far as they can be read; the line of a byte that cannot is discarded.\<close>

fun peek_bytes :: "'t dcache_env \<Rightarrow> 't dcache_struct \<Rightarrow> CORE_ADDR \<Rightarrow> nat \<Rightarrow> ('t dcache_struct \<times> uint8 list) option" where
  "peek_bytes env d addr 0 = Some (d, [])"
| "peek_bytes env d addr (Suc n) =
     Option.bind (dcache_peek_byte env d addr) (\<lambda>(d1, r).
       case r of
         None \<Rightarrow> Some (dcache_invalidate_line env d1 addr, [])
       | Some v \<Rightarrow> map_option (\<lambda>(d2, vs). (d2, v # vs)) (peek_bytes env d1 (addr + 1) n))"

text \<open>
  A read through the cache by the process \<open>cur\<close> of the target \<open>proc\<close>, with the status, the bytes and the number of units transferred;
  \<open>raw_xfer\<close> is \<open>raw_memory_xfer_partial\<close>.
\<close>

definition dcache_read_memory_partial ::
  "'t dcache_env \<Rightarrow> (CORE_ADDR \<Rightarrow> nat \<Rightarrow> target_xfer_status \<times> uint8 list \<times> nat) \<Rightarrow> nat option \<Rightarrow> ptid \<Rightarrow>
   't dcache_struct \<Rightarrow> CORE_ADDR \<Rightarrow> nat \<Rightarrow> ('t dcache_struct \<times> target_xfer_status \<times> uint8 list \<times> nat) option" where
  "dcache_read_memory_partial env raw_xfer proc cur d memaddr len =
     Option.bind
       (if proc \<noteq> proc_target d \<or> cur \<noteq> dc_ptid d
        then map_option (\<lambda>d1. d1\<lparr>dc_ptid := cur, proc_target := proc\<rparr>) (dcache_invalidate env d) else Some d) (\<lambda>d1.
     map_option (\<lambda>(d2, vs).
       (d2, if vs = [] then raw_xfer memaddr len else (TARGET_XFER_OK, vs, length vs))) (peek_bytes env d1 memaddr len))"

fun dcache_update :: "'t dcache_env \<Rightarrow> 't dcache_struct \<Rightarrow> target_xfer_status \<Rightarrow> CORE_ADDR \<Rightarrow> uint8 list \<Rightarrow> 't dcache_struct" where
  "dcache_update env d status memaddr [] = d"
| "dcache_update env d status memaddr (v # vs) =
     dcache_update env
       (if status = TARGET_XFER_OK then dcache_poke_byte env d memaddr v else dcache_invalidate_line env d memaddr)
       status (memaddr + 1) vs"

subsection \<open>Settings\<close>

text \<open>The cache, if there is one, is that of the current address space; the new value is in \<open>env\<close>.\<close>

definition invalidate_current :: "'t dcache_env \<Rightarrow> 't dcache_struct option \<Rightarrow> 't dcache_struct option option" where
  "invalidate_current env cache = (case cache of None \<Rightarrow> Some None | Some d \<Rightarrow> map_option Some (dcache_invalidate env d))"

definition set_dcache_size :: "'t dcache_env \<Rightarrow> 't dcache_struct option \<Rightarrow> ('t dcache_env \<times> (gdb_error + 't dcache_struct option)) option" where
  "set_dcache_size env cache =
     (if dcache_size env = 0 then Some (env\<lparr>dcache_size := 4096\<rparr>, Inl Error)
      else map_option (\<lambda>c. (env, Inr c)) (invalidate_current env cache))"

definition set_dcache_line_size :: "'t dcache_env \<Rightarrow> 't dcache_struct option \<Rightarrow> ('t dcache_env \<times> (gdb_error + 't dcache_struct option)) option" where
  "set_dcache_line_size env cache =
     (if dcache_line_size env < 2 \<or> dcache_line_size env AND (dcache_line_size env - 1) \<noteq> 0
      then Some (env\<lparr>dcache_line_size := 64\<rparr>, Inl Error)
      else map_option (\<lambda>c. (env, Inr c)) (invalidate_current env cache))"


subsection \<open>Alignment\<close>

lemma line_mask_small: "i < 2 ^ n \<Longrightarrow> of_nat i AND mask n = (of_nat i :: 64 word)"
proof -
  assume a: "i < 2 ^ n"
  have "take_bit n (of_nat i :: 64 word) = of_nat (take_bit n i)" by (rule take_bit_of_nat)
  also have "take_bit n i = i" using a by (simp add: take_bit_nat_eq_self)
  finally show ?thesis by (simp add: take_bit_eq_mask)
qed

lemma and_split: "(x AND w) + (x AND NOT w) = (x :: 64 word)"
proof -
  have "(x AND w) + (x AND NOT w) = (x AND w) OR (x AND NOT w)"
    by (rule disjunctive_add_eq_or) (auto intro!: bit_word_eqI simp: bit_simps)
  also have "\<dots> = x" by (simp flip: bit.conj_disj_distrib)
  finally show ?thesis .
qed

lemma and_mask_offset:
  assumes "k AND NOT (mask n) = (k :: 64 word)" "i < 2 ^ n"
  shows "(k + of_nat i) AND mask n = of_nat i \<and> (k + of_nat i) AND NOT (mask n) = k"
proof -
  have k: "k AND mask n = 0" using and_split [of k "mask n"] assms(1) by simp
  have "k AND of_nat i = (k AND mask n) AND of_nat i" using line_mask_small [OF assms(2)] by (metis and.assoc and.commute)
  then have o: "k + of_nat i = k OR of_nat i" using k by (intro disjunctive_add_eq_or) simp
  have "(k OR of_nat i) AND mask n = of_nat i" by (simp add: bit.conj_disj_distrib2 k line_mask_small [OF assms(2)])
  moreover have "of_nat i AND NOT (mask n) = (0 :: 64 word)"
    by (subst line_mask_small [OF assms(2), symmetric]) (simp add: and.assoc)
  then have "(k OR of_nat i) AND NOT (mask n) = k" by (simp add: bit.conj_disj_distrib2 assms(1))
  ultimately show ?thesis unfolding o by blast
qed

lemma unat_and_mask: "n < 64 \<Longrightarrow> unat (x AND mask n) < 2 ^ n" for x :: "64 word"
  by (simp flip: take_bit_eq_mask add: unsigned_take_bit_eq)

definition power_line :: "'t dcache_struct \<Rightarrow> bool" where
  "power_line d \<longleftrightarrow> (\<exists>n. 1 \<le> n \<and> n \<le> 30 \<and> line_size d = 2 ^ n)"

lemma power_lineE:
  assumes "power_line d"
  obtains n where "1 \<le> n" "n \<le> 30" "unat (line_size d) = 2 ^ n" "LINE_SIZE_MASK d = mask n" "line_size d = 2 ^ n"
proof -
  obtain n where n: "1 \<le> n" "n \<le> 30" "line_size d = 2 ^ n" using assms by (auto simp: power_line_def)
  have "(2::nat) ^ n \<le> 2 ^ 30" by (rule power_increasing) (use n in auto)
  then have "(2::nat) ^ n < 2 ^ 64" by simp
  then have "unat (of_nat (2 ^ n) :: 64 word) = 2 ^ n" unfolding unsigned_of_nat by (subst take_bit_nat_eq_self) simp_all
  then have "unat ((2::64 word) ^ n) = 2 ^ n" by simp
  then show ?thesis using that n by (simp add: LINE_SIZE_MASK_def mask_eq_exp_minus_1)
qed

lemma line_offset:
  assumes "power_line d" "MASK d k = k" "i < unat (line_size d)"
  shows "MASK d (k + of_nat i) = k" "unat (XFORM d (k + of_nat i)) = i"
proof -
  obtain n where n: "n \<le> 30" "unat (line_size d) = 2 ^ n" "LINE_SIZE_MASK d = mask n" using assms(1) by (rule power_lineE)
  have o: "(k + of_nat i) AND mask n = of_nat i \<and> (k + of_nat i) AND NOT (mask n) = k"
    by (rule and_mask_offset) (use assms(2,3) n in \<open>simp_all add: MASK_def\<close>)
  then show "MASK d (k + of_nat i) = k" by (simp add: MASK_def n)
  have "(2::nat) ^ n \<le> 2 ^ 30" by (rule power_increasing) (use n in auto)
  then have "i < 2 ^ 64" using assms(3) n(2) by simp
  then show "unat (XFORM d (k + of_nat i)) = i" using o by (simp add: XFORM_def n unsigned_of_nat take_bit_nat_eq_self)
qed

lemma line_split:
  assumes "power_line d"
  shows "MASK d (MASK d a) = MASK d a" "unat (XFORM d a) < unat (line_size d)" "MASK d a + of_nat (unat (XFORM d a)) = a"
proof -
  obtain n where n: "n \<le> 30" "unat (line_size d) = 2 ^ n" "LINE_SIZE_MASK d = mask n" using assms by (rule power_lineE)
  show "MASK d (MASK d a) = MASK d a" by (simp add: MASK_def and.assoc)
  show "unat (XFORM d a) < unat (line_size d)" using unat_and_mask [of n a] n by (simp add: XFORM_def)
  show "MASK d a + of_nat (unat (XFORM d a)) = a" using and_split [of a "LINE_SIZE_MASK d"] by (simp add: MASK_def XFORM_def add.commute)
qed

subsection \<open>The two lists\<close>

definition rings :: "'t dcache_struct \<Rightarrow> nat list \<Rightarrow> nat list \<Rightarrow> bool" where
  "rings d ls fs \<longleftrightarrow> ring (blocks d) ls \<and> ring (blocks d) fs \<and> distinct (ls @ fs) \<and>
     oldest d = list_head ls \<and> freelist d = list_head fs"

definition same_data :: "store \<Rightarrow> store \<Rightarrow> bool" where
  "same_data st st1 \<longleftrightarrow> (\<forall>x. blk_addr (st1 x) = blk_addr (st x) \<and> blk_data (st1 x) = blk_data (st x))"

lemma same_dataD: "same_data st st1 \<Longrightarrow> blk_addr (st1 x) = blk_addr (st x)" "same_data st st1 \<Longrightarrow> blk_data (st1 x) = blk_data (st x)"
  by (simp_all add: same_data_def)

lemma same_data_trans: "same_data a b \<Longrightarrow> same_data b c \<Longrightarrow> same_data a c"
  by (simp add: same_data_def)

lemma append_to_rings:
  assumes "rings d ls fs" and "b \<notin> set (ls @ fs)"
  shows "\<exists>st. append_to b d = d\<lparr>blocks := st, oldest := list_head (ls @ [b])\<rparr> \<and>
    rings (d\<lparr>blocks := st, oldest := list_head (ls @ [b])\<rparr>) (ls @ [b]) fs \<and> same_data (blocks d) st"
proof -
  have r: "ring (blocks d) ls" "ring (blocks d) fs" "distinct (ls @ fs)" "oldest d = list_head ls" "freelist d = list_head fs"
    using assms by (simp_all add: rings_def)
  obtain st where st: "append_block (blocks d) (list_head ls) b = (st, list_head (ls @ [b]))" "ring st (ls @ [b])"
    "\<forall>x. x \<notin> set ls \<and> x \<noteq> b \<longrightarrow> st x = blocks d x" "\<forall>x. blk_addr (st x) = blk_addr (blocks d x) \<and> blk_data (st x) = blk_data (blocks d x)"
    using append_block_ring [OF r(1), of b] assms(2) by (simp, elim exE conjE) (rule that)
  have "ring st fs \<longleftrightarrow> ring (blocks d) fs"
  proof (intro ring_cong ballI)
    fix x assume "x \<in> set fs"
    then have "x \<notin> set ls \<and> x \<noteq> b" using assms(2) r(3) by auto
    then have "st x = blocks d x" using st(3) by blast
    then show "blk_next (st x) = blk_next (blocks d x) \<and> blk_prev (st x) = blk_prev (blocks d x)" by simp
  qed
  then have "rings (d\<lparr>blocks := st, oldest := list_head (ls @ [b])\<rparr>) (ls @ [b]) fs"
    using st(2) r assms(2) by (simp add: rings_def)
  moreover have "append_to b d = d\<lparr>blocks := st, oldest := list_head (ls @ [b])\<rparr>"
    unfolding append_to_def r(4,5) using st(1) by (simp add: append_to_def)
  moreover have "same_data (blocks d) st" using st(4) by (simp add: same_data_def)
  ultimately show ?thesis by blast
qed

lemma append_free_rings:
  assumes "rings d ls fs" and "b \<notin> set (ls @ fs)"
  shows "\<exists>st. append_free b d = d\<lparr>blocks := st, freelist := list_head (fs @ [b])\<rparr> \<and>
    rings (d\<lparr>blocks := st, freelist := list_head (fs @ [b])\<rparr>) ls (fs @ [b]) \<and> same_data (blocks d) st"
proof -
  have r: "ring (blocks d) ls" "ring (blocks d) fs" "distinct (ls @ fs)" "oldest d = list_head ls" "freelist d = list_head fs"
    using assms by (simp_all add: rings_def)
  obtain st where st: "append_block (blocks d) (list_head fs) b = (st, list_head (fs @ [b]))" "ring st (fs @ [b])"
    "\<forall>x. x \<notin> set fs \<and> x \<noteq> b \<longrightarrow> st x = blocks d x" "\<forall>x. blk_addr (st x) = blk_addr (blocks d x) \<and> blk_data (st x) = blk_data (blocks d x)"
    using append_block_ring [OF r(2), of b] assms(2) by (simp, elim exE conjE) (rule that)
  have "ring st ls \<longleftrightarrow> ring (blocks d) ls"
  proof (intro ring_cong ballI)
    fix x assume "x \<in> set ls"
    then have "x \<notin> set fs \<and> x \<noteq> b" using assms(2) r(3) by auto
    then have "st x = blocks d x" using st(3) by blast
    then show "blk_next (st x) = blk_next (blocks d x) \<and> blk_prev (st x) = blk_prev (blocks d x)" by simp
  qed
  then have "rings (d\<lparr>blocks := st, freelist := list_head (fs @ [b])\<rparr>) ls (fs @ [b])"
    using st(2) r assms(2) by (simp add: rings_def)
  moreover have "append_free b d = d\<lparr>blocks := st, freelist := list_head (fs @ [b])\<rparr>"
    unfolding append_free_def r(4,5) using st(1) by (simp add: append_free_def)
  moreover have "same_data (blocks d) st" using st(4) by (simp add: same_data_def)
  ultimately show ?thesis by blast
qed

lemma remove_from_rings:
  assumes "rings d ls fs" and "ls = us @ b # vs"
  shows "\<exists>st. remove_from b d = d\<lparr>blocks := st, oldest := list_head (us @ vs)\<rparr> \<and>
    rings (d\<lparr>blocks := st, oldest := list_head (us @ vs)\<rparr>) (us @ vs) fs \<and> same_data (blocks d) st"
proof -
  have r: "ring (blocks d) ls" "ring (blocks d) fs" "distinct (ls @ fs)" "oldest d = list_head ls" "freelist d = list_head fs"
    using assms by (simp_all add: rings_def)
  obtain st where st: "remove_block (blocks d) (list_head ls) b = (st, list_head (us @ vs))" "ring st (us @ vs)"
    "\<forall>x. x \<notin> set (us @ vs) \<longrightarrow> st x = blocks d x" "\<forall>x. blk_addr (st x) = blk_addr (blocks d x) \<and> blk_data (st x) = blk_data (blocks d x)"
    using remove_block_ring [OF r(1) [unfolded assms(2)], folded assms(2)] by (elim exE conjE) (rule that)
  have "ring st fs \<longleftrightarrow> ring (blocks d) fs"
  proof (intro ring_cong ballI)
    fix x assume "x \<in> set fs"
    then have "x \<notin> set (us @ vs)" using assms(2) r(3) by auto
    then have "st x = blocks d x" using st(3) by blast
    then show "blk_next (st x) = blk_next (blocks d x) \<and> blk_prev (st x) = blk_prev (blocks d x)" by simp
  qed
  then have "rings (d\<lparr>blocks := st, oldest := list_head (us @ vs)\<rparr>) (us @ vs) fs"
    using st(2) r assms(2) by (simp add: rings_def)
  moreover have "remove_from b d = d\<lparr>blocks := st, oldest := list_head (us @ vs)\<rparr>"
    unfolding remove_from_def r(4,5) using st(1) by (simp add: remove_from_def)
  moreover have "same_data (blocks d) st" using st(4) by (simp add: same_data_def)
  ultimately show ?thesis by blast
qed

lemma remove_free_rings:
  assumes "rings d ls fs" and "fs = us @ b # vs"
  shows "\<exists>st. remove_free b d = d\<lparr>blocks := st, freelist := list_head (us @ vs)\<rparr> \<and>
    rings (d\<lparr>blocks := st, freelist := list_head (us @ vs)\<rparr>) ls (us @ vs) \<and> same_data (blocks d) st"
proof -
  have r: "ring (blocks d) ls" "ring (blocks d) fs" "distinct (ls @ fs)" "oldest d = list_head ls" "freelist d = list_head fs"
    using assms by (simp_all add: rings_def)
  obtain st where st: "remove_block (blocks d) (list_head fs) b = (st, list_head (us @ vs))" "ring st (us @ vs)"
    "\<forall>x. x \<notin> set (us @ vs) \<longrightarrow> st x = blocks d x" "\<forall>x. blk_addr (st x) = blk_addr (blocks d x) \<and> blk_data (st x) = blk_data (blocks d x)"
    using remove_block_ring [OF r(2) [unfolded assms(2)], folded assms(2)] by (elim exE conjE) (rule that)
  have "ring st ls \<longleftrightarrow> ring (blocks d) ls"
  proof (intro ring_cong ballI)
    fix x assume "x \<in> set ls"
    then have "x \<notin> set (us @ vs)" using assms(2) r(3) by auto
    then have "st x = blocks d x" using st(3) by blast
    then show "blk_next (st x) = blk_next (blocks d x) \<and> blk_prev (st x) = blk_prev (blocks d x)" by simp
  qed
  then have "rings (d\<lparr>blocks := st, freelist := list_head (us @ vs)\<rparr>) ls (us @ vs)"
    using st(2) r assms(2) by (simp add: rings_def)
  moreover have "remove_free b d = d\<lparr>blocks := st, freelist := list_head (us @ vs)\<rparr>"
    unfolding remove_free_def r(4,5) using st(1) by (simp add: remove_free_def)
  moreover have "same_data (blocks d) st" using st(4) by (simp add: same_data_def)
  ultimately show ?thesis by blast
qed

text \<open>What every operation keeps: the tree finds exactly the lines of the list of lines, by their aligned addresses.\<close>

definition lines_ok :: "('t \<Rightarrow> bool) \<Rightarrow> ('t \<Rightarrow> CORE_ADDR \<rightharpoonup> nat) \<Rightarrow> 't dcache_struct \<Rightarrow> nat list \<Rightarrow> nat list \<Rightarrow> bool" where
  "lines_ok valid content d ls fs \<longleftrightarrow> rings d ls fs \<and> power_line d \<and> dc_size d = int (length ls) \<and>
     (\<forall>b \<in> set (ls @ fs). b < next_block d \<and> length (blk_data (blocks d b)) = unat (line_size d)) \<and>
     (\<forall>b \<in> set ls. MASK d (blk_addr (blocks d b)) = blk_addr (blocks d b)) \<and>
     valid (dtree d) \<and> (\<forall>k b. content (dtree d) k = Some b \<longleftrightarrow> b \<in> set ls \<and> blk_addr (blocks d b) = k)"

end
