(* ===== verification/Dcache_Lines.thy ===== *)
theory Dcache_Lines
  imports Dcache
begin

text \<open>
  What holds of the data cache over any ordered map (locale \<open>line_cache\<close>): every operation keeps the invariant \<open>lines_ok\<close> of
  \<open>Dcache\<close>, the lines are replaced in the order of their allocation, and invalidating the cache returns all blocks to the free list.
\<close>

definition same_frame :: "'t dcache_struct \<Rightarrow> 't dcache_struct \<Rightarrow> bool" where
  "same_frame d d1 \<longleftrightarrow> line_size d1 = line_size d \<and> dc_ptid d1 = dc_ptid d \<and> proc_target d1 = proc_target d \<and> freed d1 = freed d"

lemma same_frame_refl [simp]: "same_frame d d"
  by (simp add: same_frame_def)

lemma same_frame_trans: "same_frame a b \<Longrightarrow> same_frame b c \<Longrightarrow> same_frame a c"
  by (simp add: same_frame_def)

lemma same_line_size:
  "line_size d1 = line_size d \<Longrightarrow> MASK d1 = MASK d" "line_size d1 = line_size d \<Longrightarrow> XFORM d1 = XFORM d"
  "line_size d1 = line_size d \<Longrightarrow> power_line d1 = power_line d"
  by (simp_all add: fun_eq_iff MASK_def XFORM_def LINE_SIZE_MASK_def power_line_def)

lemmas same_frameD = same_frame_def [THEN iffD1, THEN conjunct1, THEN same_line_size(1)]
  same_frame_def [THEN iffD1, THEN conjunct1, THEN same_line_size(2)]

text \<open>The contents of the lines of a list are kept.\<close>

definition keeps :: "nat list \<Rightarrow> 't dcache_struct \<Rightarrow> 't dcache_struct \<Rightarrow> bool" where
  "keeps xs d d1 \<longleftrightarrow> (\<forall>b \<in> set xs. blk_addr (blocks d1 b) = blk_addr (blocks d b) \<and> blk_data (blocks d1 b) = blk_data (blocks d b))"

lemma keeps_lines_refl [simp]: "keeps xs d d"
  by (simp add: keeps_def)

lemma keeps_lines_trans: "keeps xs a b \<Longrightarrow> keeps xs b c \<Longrightarrow> keeps xs a c"
  by (simp add: keeps_def)

lemma keeps_subset: "keeps xs a b \<Longrightarrow> set ys \<subseteq> set xs \<Longrightarrow> keeps ys a b"
  by (auto simp: keeps_def)

lemma lines_okD:
  assumes "lines_ok valid content d ls fs"
  shows "rings d ls fs" "power_line d" "dc_size d = int (length ls)" "valid (dtree d)"
    and "b \<in> set ls \<or> b \<in> set fs \<Longrightarrow> b < next_block d" "b \<in> set ls \<or> b \<in> set fs \<Longrightarrow> length (blk_data (blocks d b)) = unat (line_size d)"
    and "b \<in> set ls \<Longrightarrow> MASK d (blk_addr (blocks d b)) = blk_addr (blocks d b)"
    and "content (dtree d) k = Some b \<longleftrightarrow> b \<in> set ls \<and> blk_addr (blocks d b) = k"
  using assms by (auto simp: lines_ok_def)

lemma lines_okI:
  assumes "rings d ls fs" "power_line d" "dc_size d = int (length ls)" "valid (dtree d)"
    and "\<And>b. b \<in> set ls \<or> b \<in> set fs \<Longrightarrow> b < next_block d \<and> length (blk_data (blocks d b)) = unat (line_size d)"
    and "\<And>b. b \<in> set ls \<Longrightarrow> MASK d (blk_addr (blocks d b)) = blk_addr (blocks d b)"
    and "\<And>k b. content (dtree d) k = Some b \<longleftrightarrow> b \<in> set ls \<and> blk_addr (blocks d b) = k"
  shows "lines_ok valid content d ls fs"
  using assms by (auto simp: lines_ok_def)

lemma lines_ok_transfer:
  assumes "lines_ok valid content d ls fs" "rings d1 ls fs" "line_size d1 = line_size d" "dc_size d1 = dc_size d"
    and "next_block d \<le> next_block d1" "valid (dtree d1)" "content (dtree d1) = content (dtree d)"
    and "\<And>x. x \<in> set ls \<or> x \<in> set fs \<Longrightarrow>
      blk_addr (blocks d1 x) = blk_addr (blocks d x) \<and> length (blk_data (blocks d1 x)) = length (blk_data (blocks d x))"
  shows "lines_ok valid content d1 ls fs"
proof (rule lines_okI)
  note o = lines_okD [OF assms(1)]
  show "rings d1 ls fs" "power_line d1" "dc_size d1 = int (length ls)" "valid (dtree d1)"
    using assms(2-6) o(2,3) by (simp_all add: same_line_size(3) [OF assms(3)])
  show "x < next_block d1 \<and> length (blk_data (blocks d1 x)) = unat (line_size d1)" if "x \<in> set ls \<or> x \<in> set fs" for x
    using o(5,6) [OF that] assms(3,5) assms(8) [OF that] by simp
  show "MASK d1 (blk_addr (blocks d1 x)) = blk_addr (blocks d1 x)" if "x \<in> set ls" for x
    using o(7) [OF that] assms(8) [of x] that by (simp add: same_line_size(1) [OF assms(3)])
  show "content (dtree d1) k = Some x \<longleftrightarrow> x \<in> set ls \<and> blk_addr (blocks d1 x) = k" for k x
    using o(8) [of k x] assms(7) assms(8) [of x] by auto
qed

definition malloc_ok :: "'t dcache_env \<Rightarrow> bool" where
  "malloc_ok env \<longleftrightarrow> (\<forall>b n. length (blk_data (xmalloc env b n)) = n)"

lemma rings_cong:
  assumes "rings d ls fs" "oldest d1 = oldest d" "freelist d1 = freelist d"
    and "\<And>x. x \<in> set ls \<or> x \<in> set fs \<Longrightarrow> blk_next (blocks d1 x) = blk_next (blocks d x) \<and> blk_prev (blocks d1 x) = blk_prev (blocks d x)"
  shows "rings d1 ls fs"
proof -
  have "ring (blocks d1) ls \<longleftrightarrow> ring (blocks d) ls" "ring (blocks d1) fs \<longleftrightarrow> ring (blocks d) fs"
    by (rule ring_cong; use assms(4) in blast)+
  then show ?thesis using assms(1-3) by (simp add: rings_def)
qed

text \<open>The address and the data of one block may change, as long as its length is kept.\<close>

definition set_block :: "nat \<Rightarrow> dcache_block \<Rightarrow> 't dcache_struct \<Rightarrow> 't dcache_struct" where
  "set_block b blk d = d\<lparr>blocks := (blocks d)(b := blk)\<rparr>"

lemma set_block_simps [simp]:
  "dtree (set_block b blk d) = dtree d" "oldest (set_block b blk d) = oldest d" "freelist (set_block b blk d) = freelist d"
  "dc_size (set_block b blk d) = dc_size d" "line_size (set_block b blk d) = line_size d" "next_block (set_block b blk d) = next_block d"
  "blocks (set_block b blk d) x = (if x = b then blk else blocks d x)" "same_frame d (set_block b blk d)"
  by (simp_all add: set_block_def same_frame_def)

lemma set_data_ok:
  assumes "lines_ok valid content d ls fs" "length data = unat (line_size d)"
  shows "lines_ok valid content (set_block b ((blocks d b)\<lparr>blk_data := data\<rparr>) d) ls fs"
proof (rule lines_ok_transfer [OF assms(1)])
  show "rings (set_block b ((blocks d b)\<lparr>blk_data := data\<rparr>) d) ls fs" by (rule rings_cong [OF lines_okD(1) [OF assms(1)]]) auto
qed (use lines_okD(4,6) [OF assms(1)] assms(2) in auto)

text \<open>The cache over the operations of an ordered map, for the environments that use them.\<close>

definition env_ok :: "('t, CORE_ADDR, nat) map_ops \<Rightarrow> 't dcache_env \<Rightarrow> bool" where
  "env_ok ops env \<longleftrightarrow> tree_ops env = ops \<and> malloc_ok env \<and> dcache_size env \<noteq> 0"

lemma env_okD: "env_ok ops env \<Longrightarrow> tree_ops env = ops" "env_ok ops env \<Longrightarrow> malloc_ok env" "env_ok ops env \<Longrightarrow> dcache_size env \<noteq> 0"
  by (simp_all add: env_ok_def)

text \<open>The cache is full when it has as many lines as the setting allows.\<close>

definition full :: "'t dcache_env \<Rightarrow> 't dcache_struct \<Rightarrow> bool" where
  "full env d \<longleftrightarrow> word_of_int (dc_size d) \<ge> dcache_size env"

lemma full_nonempty: "full env d \<Longrightarrow> dcache_size env \<noteq> 0 \<Longrightarrow> dc_size d \<noteq> 0"
  by (auto simp: full_def)

locale line_cache = ordered_map ops valid content
  for ops :: "('t, CORE_ADDR, nat) map_ops" and valid content
begin

abbreviation ok :: "'t dcache_struct \<Rightarrow> nat list \<Rightarrow> nat list \<Rightarrow> bool" where
  "ok \<equiv> lines_ok valid content"

abbreviation found :: "'t dcache_struct \<Rightarrow> CORE_ADDR \<Rightarrow> nat option" where
  "found d a \<equiv> content (dtree d) (MASK d a)"

lemma hit_spec:
  assumes "ok d ls fs" and env: "env_ok ops env"
  shows "\<exists>d1. dcache_hit env d a = (d1, found d a) \<and> ok d1 ls fs \<and> keeps (ls @ fs) d d1 \<and> same_frame d d1 \<and>
    content (dtree d1) = content (dtree d) \<and> next_block d1 = next_block d"
proof -
  note o = lines_okD [OF assms(1)]
  note env_ops = env_okD(1) [OF env]
  obtain t node where t: "op_lookup ops (dtree d) (MASK d a) = (t, node)" by (cases "op_lookup ops (dtree d) (MASK d a)")
  have r: "node = map_option (Pair (MASK d a)) (found d a)" "valid t" "content t = content (dtree d)"
    using lookup_result [OF o(4), of "MASK d a"] lookup_valid [OF o(4), of "MASK d a"] lookup_content [OF o(4), of "MASK d a"] t by simp_all
  let ?d1 = "d\<lparr>dtree := t\<rparr>"
  have rg: "rings ?d1 ls fs" by (rule rings_cong [OF o(1)]) simp_all
  have ok1: "ok ?d1 ls fs"
    by (rule lines_ok_transfer [OF assms(1) rg]) (use r in simp_all)
  show ?thesis
  proof (cases "found d a")
    case None
    then show ?thesis using ok1 r t by (intro exI [of _ ?d1]) (simp add: dcache_hit_def env_ops keeps_def same_frame_def)
  next
    case (Some b)
    let ?d2 = "?d1\<lparr>blocks := (blocks ?d1)(b := (blocks ?d1 b)\<lparr>blk_refs := blk_refs (blocks ?d1 b) + 1\<rparr>)\<rparr>"
    note o1 = lines_okD [OF ok1]
    have rg: "rings ?d2 ls fs" by (rule rings_cong [OF o1(1)]) auto
    have "ok ?d2 ls fs"
      by (rule lines_ok_transfer [OF ok1 rg]) (use o1 in auto)
    then show ?thesis using Some r t by (intro exI [of _ ?d2]) (simp add: dcache_hit_def env_ops keeps_def same_frame_def)
  qed
qed

text \<open>A block that is in neither list, while the tree has the remaining lines.\<close>

definition detached :: "'t dcache_struct \<Rightarrow> nat list \<Rightarrow> nat list \<Rightarrow> nat \<Rightarrow> bool" where
  "detached d ls fs b \<longleftrightarrow> rings d ls fs \<and> power_line d \<and> dc_size d = int (length ls) + 1 \<and> b \<notin> set (ls @ fs) \<and> valid (dtree d) \<and>
     (\<forall>x \<in> set (b # ls @ fs). x < next_block d \<and> length (blk_data (blocks d x)) = unat (line_size d)) \<and>
     (\<forall>x \<in> set ls. MASK d (blk_addr (blocks d x)) = blk_addr (blocks d x)) \<and>
     (\<forall>k x. content (dtree d) k = Some x \<longleftrightarrow> x \<in> set ls \<and> blk_addr (blocks d x) = k)"

lemma take_oldest:
  assumes "ok d ls fs" "full env d" and env: "env_ok ops env"
  shows "\<exists>d1 b ls1. take_block env d = Some (d1, b) \<and> ls = b # ls1 \<and> detached d1 ls1 fs b \<and> keeps ls1 d d1 \<and> same_frame d d1"
proof -
  note o = lines_okD [OF assms(1)]
  obtain b ls1 where ls: "ls = b # ls1" using full_nonempty [OF assms(2) env_okD(3) [OF env]] o(3) by (cases ls) auto
  then have h: "oldest d = Some b" using o(1) by (simp add: rings_def)
  obtain st where st: "remove_from b d = d\<lparr>blocks := st, oldest := list_head ls1\<rparr>"
    "rings (d\<lparr>blocks := st, oldest := list_head ls1\<rparr>) ls1 fs" "same_data (blocks d) st"
    using remove_from_rings [OF o(1), of "[]" b ls1] ls by auto
  note sd = same_dataD [OF st(3)]
  let ?d1 = "d\<lparr>blocks := st, oldest := list_head ls1, dtree := op_remove ops (dtree d) (blk_addr (blocks d b))\<rparr>"
  have t: "take_block env d = Some (?d1, b)"
    using assms(2) h st(1) sd(1) [of b] by (simp add: take_block_def full_def tree_remove_def env_okD(1) [OF env] Let_def)
  have dist: "distinct (b # ls1 @ fs)" using o(1) ls by (simp add: rings_def)
  have rg: "rings ?d1 ls1 fs" by (rule rings_cong [OF st(2)]) simp_all
  have c: "content (dtree ?d1) k = Some x \<longleftrightarrow> x \<in> set ls1 \<and> blk_addr (blocks ?d1 x) = k" for k x
  proof -
    have "content (dtree d) (blk_addr (blocks d b)) = Some b" using o(8) ls by simp
    then show ?thesis using o(8) [of k x] o(8) [of "blk_addr (blocks d b)" x] remove_content [OF o(4)] ls dist
      by (auto simp: sd(1))
  qed
  have "detached ?d1 ls1 fs b"
    unfolding detached_def
    using rg o(2,3,4) o(5,6,7) dist ls c by (auto simp: MASK_def LINE_SIZE_MASK_def power_line_def sd remove_valid)
  moreover have "keeps ls1 d ?d1" "same_frame d ?d1" using sd by (simp_all add: keeps_def same_frame_def)
  ultimately show ?thesis using t ls by blast
qed

lemma take_free:
  assumes "ok d ls fs" "\<not> full env d" and env: "env_ok ops env"
  shows "\<exists>d1 b fs1. take_block env d = Some (d1, b) \<and> detached d1 ls fs1 b \<and> keeps ls d d1 \<and> same_frame d d1"
proof (cases fs)
  note o = lines_okD [OF assms(1)]
  case (Cons b fs1)
  then have h: "freelist d = Some b" using o(1) by (simp add: rings_def)
  obtain st where st: "remove_free b d = d\<lparr>blocks := st, freelist := list_head fs1\<rparr>"
    "rings (d\<lparr>blocks := st, freelist := list_head fs1\<rparr>) ls fs1" "same_data (blocks d) st"
    using remove_free_rings [OF o(1), of "[]" b fs1] Cons by auto
  note sd = same_dataD [OF st(3)]
  let ?d1 = "d\<lparr>blocks := st, freelist := list_head fs1, dc_size := dc_size d + 1\<rparr>"
  have t: "take_block env d = Some (?d1, b)"
    using assms(2) h st(1) by (simp add: take_block_def full_def)
  have dist: "distinct (b # ls @ fs1)" using o(1) Cons by (auto simp: rings_def)
  have rg: "rings ?d1 ls fs1" by (rule rings_cong [OF st(2)]) simp_all
  have "detached ?d1 ls fs1 b"
    unfolding detached_def
    using rg o(2,3,4) o(5,6,7,8) dist Cons by (auto simp: MASK_def LINE_SIZE_MASK_def power_line_def sd)
  moreover have "keeps ls d ?d1" "same_frame d ?d1" using sd by (simp_all add: keeps_def same_frame_def)
  ultimately show ?thesis using t by blast
next
  note o = lines_okD [OF assms(1)]
  case Nil
  then have h: "freelist d = None" using o(1) by (simp add: rings_def)
  let ?b = "next_block d"
  let ?d1 = "d\<lparr>blocks := (blocks d)(?b := xmalloc env ?b (unat (line_size d))), next_block := ?b + 1, dc_size := dc_size d + 1\<rparr>"
  have t: "take_block env d = Some (?d1, ?b)"
    using assms(2) h by (simp add: take_block_def full_def)
  have new: "?b \<notin> set ls" using o(5) by (metis less_irrefl)
  have rg: "rings ?d1 ls []" by (rule rings_cong [OF o(1) [unfolded Nil]]) (use new in auto)
  have "length (blk_data (xmalloc env ?b (unat (line_size d)))) = unat (line_size d)" using env_okD(2) [OF env] by (simp add: malloc_ok_def)
  then have "detached ?d1 ls [] ?b"
    unfolding detached_def
    using rg o(2,3,4) o(5,6,7,8) new Nil by (auto simp: MASK_def LINE_SIZE_MASK_def power_line_def less_Suc_eq)
  moreover have "keeps ls d ?d1" "same_frame d ?d1" using new by (auto simp: keeps_def same_frame_def)
  ultimately show ?thesis using t by blast
qed

lemma alloc_spec:
  assumes "ok d ls fs" "found d a = None" and env: "env_ok ops env"
  shows "\<exists>d1 b ls1 fs1. dcache_alloc env d a = Some (d1, b) \<and> ok d1 (ls1 @ [b]) fs1 \<and> ls1 = (if full env d then tl ls else ls) \<and>
    blk_addr (blocks d1 b) = MASK d a \<and> keeps ls1 d d1 \<and> same_frame d d1"
proof -
  obtain d1 b ls1 fs1 where t: "take_block env d = Some (d1, b)" "detached d1 ls1 fs1 b" "keeps ls1 d d1" "same_frame d d1"
    "ls1 = (if full env d then tl ls else ls)"
  proof (cases "full env d")
    case True
    from take_oldest [OF assms(1) True env] show ?thesis using that True by fastforce
  next
    case False
    from take_free [OF assms(1) False env] show ?thesis using that False by fastforce
  qed
  note dt = t(2) [unfolded detached_def]
  have ls: "line_size d1 = line_size d" using t(4) by (simp add: same_frame_def)
  let ?blk = "(blocks d1 b)\<lparr>blk_addr := MASK d1 a, blk_refs := 0\<rparr>"
  let ?d2 = "set_block b ?blk d1"
  have rg: "rings ?d2 ls1 fs1" by (rule rings_cong) (use dt in auto)
  obtain st where st: "append_to b ?d2 = ?d2\<lparr>blocks := st, oldest := list_head (ls1 @ [b])\<rparr>"
    "rings (?d2\<lparr>blocks := st, oldest := list_head (ls1 @ [b])\<rparr>) (ls1 @ [b]) fs1" "same_data (blocks ?d2) st"
    using append_to_rings [OF rg, of b] dt by auto
  note sd = same_dataD [OF st(3)]
  let ?d4 = "?d2\<lparr>blocks := st, oldest := list_head (ls1 @ [b]), dtree := op_insert ops (dtree d1) (MASK d1 a) b\<rparr>"
  have al: "dcache_alloc env d a = Some (?d4, b)"
    using t(1) st(1) sd(1) [of b] by (simp add: dcache_alloc_def Let_def env_okD(1) [OF env] set_block_def)
  have fr: "found d a = content (dtree d) (MASK d1 a)" using same_line_size(1) [OF ls] by simp
  have none: "x \<notin> set ls1 \<or> blk_addr (blocks d1 x) \<noteq> MASK d1 a" for x
  proof (rule ccontr)
    assume "\<not> ?thesis"
    then have x: "x \<in> set ls1" "blk_addr (blocks d1 x) = MASK d1 a" by auto
    then have "x \<in> set ls" using t(5) by (auto dest: list.set_sel(2) split: if_splits) (cases ls; auto)
    moreover have "blk_addr (blocks d x) = MASK d1 a" using x t(3) by (simp add: keeps_def)
    ultimately have "content (dtree d) (MASK d1 a) = Some x" using lines_okD(8) [OF assms(1)] by blast
    then show False using assms(2) fr by simp
  qed
  have rg4: "rings ?d4 (ls1 @ [b]) fs1" by (rule rings_cong [OF st(2)]) simp_all
  have pl: "power_line ?d4" using dt by (simp add: same_line_size(3) [of ?d4 d1])
  have mk: "MASK ?d4 = MASK d1" by (rule same_line_size(1)) simp
  have b: "b \<notin> set ls1" "b \<notin> set fs1" using dt by simp_all
  have ad: "blk_addr (st x) = (if x = b then MASK d1 a else blk_addr (blocks d1 x))" "length (blk_data (st x)) = length (blk_data (blocks d1 x))" for x
    using sd [of x] by simp_all
  have "ok ?d4 (ls1 @ [b]) fs1"
  proof (rule lines_okI)
    show "rings ?d4 (ls1 @ [b]) fs1" "power_line ?d4" by (rule rg4, rule pl)
    show "dc_size ?d4 = int (length (ls1 @ [b]))" "valid (dtree ?d4)" using dt by (simp_all add: insert_valid)
    show "x < next_block ?d4 \<and> length (blk_data (blocks ?d4 x)) = unat (line_size ?d4)" if "x \<in> set (ls1 @ [b]) \<or> x \<in> set fs1" for x
      using that dt ad(2) [of x] by auto
    show "MASK ?d4 (blk_addr (blocks ?d4 x)) = blk_addr (blocks ?d4 x)" if "x \<in> set (ls1 @ [b])" for x
      unfolding mk using that dt ad(1) [of x] line_split(1) [of d1 a] by auto
    show "content (dtree ?d4) k = Some x \<longleftrightarrow> x \<in> set (ls1 @ [b]) \<and> blk_addr (blocks ?d4 x) = k" for k x
      using dt none [of x] b ad(1) [of x] by (auto simp: insert_content)
  qed
  moreover have "blk_addr (blocks ?d4 b) = MASK d a" using ad(1) [of b] same_line_size(1) [OF ls] by simp
  moreover have "keeps ls1 d1 ?d4" using b sd by (auto simp: keeps_def)
  then have "keeps ls1 d ?d4" by (rule keeps_lines_trans [OF t(3)])
  moreover have "same_frame d ?d4" using t(4) by (simp add: same_frame_def set_block_def)
  ultimately show ?thesis using al t(5) by blast
qed

end

context line_cache
begin

text \<open>A line that is discarded goes to the end of the free list.\<close>

lemma invalidate_line_spec:
  assumes "ok d ls fs" and env: "env_ok ops env"
  shows "\<exists>ls1 fs1. ok (dcache_invalidate_line env d a) ls1 fs1 \<and> keeps (ls1 @ fs1) d (dcache_invalidate_line env d a) \<and>
    same_frame d (dcache_invalidate_line env d a) \<and> length ls1 \<le> length ls \<and>
    set ls1 = {b \<in> set ls. blk_addr (blocks d b) \<noteq> MASK d a}"
proof -
  obtain d1 where d1: "dcache_hit env d a = (d1, found d a)" "ok d1 ls fs" "keeps (ls @ fs) d d1" "same_frame d d1"
    "content (dtree d1) = content (dtree d)"
    using hit_spec [OF assms] by blast
  note o = lines_okD [OF d1(2)]
  have addr: "blk_addr (blocks d1 x) = blk_addr (blocks d x)" "blk_data (blocks d1 x) = blk_data (blocks d x)" if "x \<in> set (ls @ fs)" for x
    using d1(3) that by (simp_all add: keeps_def)
  show ?thesis
  proof (cases "found d a")
    case None
    then have "blk_addr (blocks d x) \<noteq> MASK d a" if "x \<in> set ls" for x
      using lines_okD(8) [OF assms(1), of "MASK d a" x] that by simp
    then have "set ls = {b \<in> set ls. blk_addr (blocks d b) \<noteq> MASK d a}" by blast
    moreover have "dcache_invalidate_line env d a = d1" using d1(1) None by (simp add: dcache_invalidate_line_def)
    ultimately show ?thesis using d1(2-4) by blast
  next
    case (Some b)
    then have b: "b \<in> set ls" "blk_addr (blocks d1 b) = MASK d a"
      using o(8) [of "MASK d a" b] d1(5) by auto
    obtain us vs where ls: "ls = us @ b # vs" using split_list [OF b(1)] by blast
    let ?t = "op_remove ops (dtree d1) (blk_addr (blocks d1 b))"
    let ?d2 = "d1\<lparr>dtree := ?t\<rparr>"
    have rg: "rings ?d2 ls fs" by (rule rings_cong [OF o(1)]) simp_all
    obtain st where st: "remove_from b ?d2 = ?d2\<lparr>blocks := st, oldest := list_head (us @ vs)\<rparr>"
      "rings (?d2\<lparr>blocks := st, oldest := list_head (us @ vs)\<rparr>) (us @ vs) fs" "same_data (blocks ?d2) st"
      using remove_from_rings [OF rg ls] by blast
    have dist: "distinct (us @ b # vs @ fs)" using o(1) ls by (simp add: rings_def)
    let ?d3 = "?d2\<lparr>blocks := st, oldest := list_head (us @ vs)\<rparr>"
    have "b \<notin> set ((us @ vs) @ fs)" using dist by simp
    then obtain st1 where st1: "append_free b ?d3 = ?d3\<lparr>blocks := st1, freelist := list_head (fs @ [b])\<rparr>"
      "rings (?d3\<lparr>blocks := st1, freelist := list_head (fs @ [b])\<rparr>) (us @ vs) (fs @ [b])" "same_data (blocks ?d3) st1"
      using append_free_rings [OF st(2)] by blast
    have sd: "blk_addr (st1 x) = blk_addr (blocks d1 x)" "blk_data (st1 x) = blk_data (blocks d1 x)" for x
      using same_dataD [OF st(3), of x] same_dataD [OF st1(3), of x] by simp_all
    let ?d4 = "d1\<lparr>dtree := ?t, blocks := st1, oldest := list_head (us @ vs), freelist := list_head (fs @ [b]), dc_size := dc_size d1 - 1\<rparr>"
    have e: "dcache_invalidate_line env d a = ?d4"
      using d1(1) Some st(1) st1(1) by (simp add: dcache_invalidate_line_def tree_remove_def env_okD(1) [OF env] Let_def)
    have lsz: "line_size ?d4 = line_size d1" by simp
    have "ok ?d4 (us @ vs) (fs @ [b])"
    proof (rule lines_okI)
      show "rings ?d4 (us @ vs) (fs @ [b])" by (rule rings_cong [OF st1(2)]) simp_all
      show "power_line ?d4" using o(2) by (simp add: power_line_def)
      show "dc_size ?d4 = int (length (us @ vs))" using o(3) ls by simp
      show "valid (dtree ?d4)" using o(4) by (simp add: remove_valid)
      show "x < next_block ?d4 \<and> length (blk_data (blocks ?d4 x)) = unat (line_size ?d4)" if "x \<in> set (us @ vs) \<or> x \<in> set (fs @ [b])" for x
      proof -
        have "x \<in> set ls \<or> x \<in> set fs" using that ls by auto
        from o(5,6) [OF this] show ?thesis by (simp add: sd)
      qed
      show "MASK ?d4 (blk_addr (blocks ?d4 x)) = blk_addr (blocks ?d4 x)" if "x \<in> set (us @ vs)" for x
        using o(7) [of x] that ls same_line_size(1) [OF lsz] by (auto simp: sd)
      show "content (dtree ?d4) k = Some x \<longleftrightarrow> x \<in> set (us @ vs) \<and> blk_addr (blocks ?d4 x) = k" for k x
      proof -
        have "content (dtree d1) (blk_addr (blocks d1 b)) = Some b" using o(8) b(1) by blast
        then have "x \<in> set ls \<and> blk_addr (blocks d1 x) = blk_addr (blocks d1 b) \<longleftrightarrow> x = b"
          using o(8) [of "blk_addr (blocks d1 b)" x] by auto
        then show ?thesis using o(8) [of k x] remove_content [OF o(4)] ls dist by (auto simp: sd)
      qed
    qed
    moreover have "set (us @ vs) = {x \<in> set ls. blk_addr (blocks d x) \<noteq> MASK d a}"
    proof -
      have "x \<in> set ls \<Longrightarrow> blk_addr (blocks d x) = MASK d a \<longleftrightarrow> x = b" for x
        using lines_okD(8) [OF assms(1), of "MASK d a" x] Some by auto
      then show ?thesis using ls dist by auto
    qed
    moreover have "keeps ((us @ vs) @ (fs @ [b])) d ?d4" using addr ls by (auto simp: keeps_def sd)
    moreover have "same_frame d ?d4" using d1(4) by (simp add: same_frame_def)
    moreover have "length (us @ vs) \<le> length ls" using ls by simp
    ultimately show ?thesis unfolding e by blast
  qed
qed

lemma poke_ok:
  assumes "ok d ls fs" and env: "env_ok ops env"
  shows "\<exists>d1. dcache_poke_byte env d a v =
      (case found d a of None \<Rightarrow> d1 | Some b \<Rightarrow> set_block b ((blocks d1 b)\<lparr>blk_data := (blk_data (blocks d1 b))[unat (XFORM d a) := v]\<rparr>) d1) \<and>
    ok (dcache_poke_byte env d a v) ls fs \<and> same_frame d (dcache_poke_byte env d a v) \<and> keeps (ls @ fs) d d1"
proof -
  obtain d1 where d1: "dcache_hit env d a = (d1, found d a)" "ok d1 ls fs" "keeps (ls @ fs) d d1" "same_frame d d1"
    using hit_spec [OF assms] by blast
  have x: "XFORM d1 = XFORM d" by (rule same_line_size(2)) (use d1(4) in \<open>simp add: same_frame_def\<close>)
  show ?thesis
  proof (cases "found d a")
    case None
    then show ?thesis using d1 by (auto simp: dcache_poke_byte_def)
  next
    case (Some b)
    let ?data = "(blk_data (blocks d1 b))[unat (XFORM d a) := v]"
    have b: "b \<in> set ls" using lines_okD(8) [OF assms(1), of "MASK d a" b] Some by simp
    have e: "dcache_poke_byte env d a v = set_block b ((blocks d1 b)\<lparr>blk_data := ?data\<rparr>) d1"
      using Some d1(1) x by (simp add: dcache_poke_byte_def set_block_def)
    have "ok (set_block b ((blocks d1 b)\<lparr>blk_data := ?data\<rparr>) d1) ls fs"
      by (rule set_data_ok [OF d1(2)]) (use lines_okD(6) [OF d1(2)] b in simp)
    moreover have "same_frame d (set_block b ((blocks d1 b)\<lparr>blk_data := ?data\<rparr>) d1)"
      using d1(4) same_frame_trans by (metis set_block_simps(8))
    ultimately show ?thesis unfolding e using Some d1(3) by auto
  qed
qed

text \<open>
  Invalidating the cache puts the blocks on the free list one after the other, although the loop still follows their links: a link is
  read before its block is moved.
\<close>

lemma ring_next: "ring st (zs @ b # ws) \<Longrightarrow> blk_next (st b) = (if ws = [] then hd (zs @ [b]) else hd ws)"
  using block_ring_rotate [of st zs "b # ws"] by (cases ws; cases zs) auto

definition moved :: "'t dcache_struct \<Rightarrow> nat list \<Rightarrow> nat list \<Rightarrow> nat list \<Rightarrow> 't dcache_struct \<Rightarrow> bool" where
  "moved d ls fs zs s \<longleftrightarrow> (\<exists>ws t st. ls = zs @ ws \<and> s = d\<lparr>dtree := t, blocks := st, freelist := list_head (fs @ zs)\<rparr> \<and>
     ring st (fs @ zs) \<and> (\<forall>x \<in> set ws. st x = blocks d x) \<and> same_data (blocks d) st \<and> valid t \<and>
     (\<forall>k x. content t k = Some x \<longleftrightarrow> x \<in> set ws \<and> blk_addr (blocks d x) = k))"

lemma moved_step:
  assumes "ok d ls fs" "ls = zs @ b # ws" "moved d ls fs zs s" and env: "env_ok ops env"
  shows "moved d ls fs (zs @ [b]) (invalidate_block env b s) \<and> oldest (invalidate_block env b s) = Some (hd ls) \<and>
    next_of s b = (if ws = [] then hd ls else hd ws)"
proof -
  note o = lines_okD [OF assms(1)]
  have dist: "distinct (zs @ b # ws @ fs)" using o(1) assms(2) by (simp add: rings_def)
  obtain t st where s: "s = d\<lparr>dtree := t, blocks := st, freelist := list_head (fs @ zs)\<rparr>" "ring st (fs @ zs)"
    "\<forall>x \<in> set (b # ws). st x = blocks d x" "same_data (blocks d) st" "valid t"
    "\<forall>k x. content t k = Some x \<longleftrightarrow> x \<in> set (b # ws) \<and> blk_addr (blocks d x) = k"
  proof -
    from assms(3) obtain ws1 t st where "ls = zs @ ws1" "s = d\<lparr>dtree := t, blocks := st, freelist := list_head (fs @ zs)\<rparr>" "ring st (fs @ zs)"
      "\<forall>x \<in> set ws1. st x = blocks d x" "same_data (blocks d) st" "valid t"
      "\<forall>k x. content t k = Some x \<longleftrightarrow> x \<in> set ws1 \<and> blk_addr (blocks d x) = k" unfolding moved_def by blast
    moreover have "ws1 = b # ws" using calculation(1) assms(2) by simp
    ultimately show ?thesis using that by blast
  qed
  let ?t = "op_remove ops t (blk_addr (blocks d b))"
  have nb: "b \<notin> set (fs @ zs)" using dist by auto
  obtain st1 where st1: "append_block st (list_head (fs @ zs)) b = (st1, list_head ((fs @ zs) @ [b]))" "ring st1 ((fs @ zs) @ [b])"
    "\<forall>x. x \<notin> set (fs @ zs) \<and> x \<noteq> b \<longrightarrow> st1 x = st x" "\<forall>x. blk_addr (st1 x) = blk_addr (st x) \<and> blk_data (st1 x) = blk_data (st x)"
    using append_block_ring [OF s(2) nb] by (elim exE conjE) (rule that)
  have inv: "invalidate_block env b s = d\<lparr>dtree := ?t, blocks := st1, freelist := list_head (fs @ zs @ [b])\<rparr>"
    using st1(1) s(3) by (simp add: invalidate_block_def append_free_def tree_remove_def env_okD(1) [OF env] s(1))
  have c: "content ?t k = Some x \<longleftrightarrow> x \<in> set ws \<and> blk_addr (blocks d x) = k" for k x
  proof -
    have "content t (blk_addr (blocks d b)) = Some b" using s(6) by simp
    then have "x \<in> set (b # ws) \<and> blk_addr (blocks d x) = blk_addr (blocks d b) \<longleftrightarrow> x = b"
      using s(6) by (metis option.inject)
    then show ?thesis using s(6) remove_content [OF s(5)] dist by auto
  qed
  have "moved d ls fs (zs @ [b]) (invalidate_block env b s)"
    unfolding moved_def
  proof (intro exI conjI)
    show "ls = (zs @ [b]) @ ws" using assms(2) by simp
    show "invalidate_block env b s = d\<lparr>dtree := ?t, blocks := st1, freelist := list_head (fs @ zs @ [b])\<rparr>" by (rule inv)
    show "ring st1 (fs @ zs @ [b])" using st1(2) by simp
    show "\<forall>x \<in> set ws. st1 x = blocks d x"
    proof
      fix x assume x: "x \<in> set ws"
      then have "x \<notin> set (fs @ zs) \<and> x \<noteq> b" using dist by auto
      then show "st1 x = blocks d x" using st1(3) s(3) x by simp
    qed
    show "same_data (blocks d) st1" using st1(4) s(4) by (simp add: same_data_def)
    show "valid ?t" using s(5) by (simp add: remove_valid)
    show "\<forall>k x. content ?t k = Some x \<longleftrightarrow> x \<in> set ws \<and> blk_addr (blocks d x) = k" using c by blast
  qed
  moreover have old: "oldest d = Some (hd ls)" using o(1) assms(2) by (cases zs) (simp_all add: rings_def)
  moreover have "ring (blocks d) (zs @ b # ws)" using o(1) assms(2) by (simp add: rings_def)
  from ring_next [OF this] have "blk_next (blocks d b) = (if ws = [] then hd ls else hd ws)" using assms(2) by (cases zs) simp_all
  ultimately show ?thesis using s(3) inv by (simp add: next_of_def s(1))
qed

lemma each_invalidate:
  assumes "ok d ls fs" and env: "env_ok ops env"
  shows "\<exists>s. for_each_block oldest next_of (invalidate_block env) d = Some s \<and> moved d ls fs ls s"
proof (cases ls)
  note o = lines_okD [OF assms(1)]
  have "moved d ls fs [] d" unfolding moved_def
    by (rule exI [of _ ls], rule exI [of _ "dtree d"], rule exI [of _ "blocks d"])
      (use o in \<open>simp add: rings_def same_data_def\<close>)
  note start = this
  case Nil
  then have "oldest d = None" using o(1) by (simp add: rings_def)
  then show ?thesis using start Nil by (simp add: for_each_block_def)
next
  note o = lines_okD [OF assms(1)]
  have start: "moved d ls fs [] d" unfolding moved_def
    by (rule exI [of _ ls], rule exI [of _ "dtree d"], rule exI [of _ "blocks d"])
      (use o in \<open>simp add: rings_def same_data_def\<close>)
  case (Cons h ys)
  have "\<exists>s1. each_block oldest next_of (invalidate_block env) h d = Some s1 \<and> moved d ls fs ls s1"
  proof (rule each_block_ring [where R = "moved d ls fs"])
    show "moved d ls fs (zs @ [b]) (invalidate_block env b s) \<and> oldest (invalidate_block env b s) = Some h \<and>
        next_of s b = (if ws = [] then h else hd ws)" if "ls = zs @ b # ws" "moved d ls fs zs s" for zs b ws s
      using moved_step [OF assms(1) that env] Cons by simp
    show "distinct ls" using o(1) by (simp add: rings_def)
  qed (use Cons start in simp_all)
  moreover have "oldest d = Some h" using o(1) Cons by (simp add: rings_def)
  ultimately show ?thesis by (simp add: for_each_block_def)
qed

text \<open>Freeing every block of a ring: the links are still read, but not changed.\<close>

lemma each_free:
  assumes "ring (blocks d) xs" "blist d = list_head xs" "\<And>bs. blist (d\<lparr>freed := bs\<rparr>) = blist d"
  shows "for_each_block blist next_of free_block d = Some (d\<lparr>freed := freed d @ xs\<rparr>)"
proof (cases xs)
  case Nil
  then show ?thesis using assms(2) by (simp add: for_each_block_def)
next
  case (Cons h ys)
  have "\<exists>s1. each_block blist next_of free_block h d = Some s1 \<and> s1 = d\<lparr>freed := freed d @ xs\<rparr>"
  proof (rule each_block_ring [where R = "\<lambda>zs s. s = d\<lparr>freed := freed d @ zs\<rparr>"])
    show "free_block b s = d\<lparr>freed := freed d @ zs @ [b]\<rparr> \<and> blist (free_block b s) = Some h \<and> next_of s b = (if ws = [] then h else hd ws)"
      if "xs = zs @ b # ws" "s = d\<lparr>freed := freed d @ zs\<rparr>" for zs b ws s
    proof -
      have "free_block b s = d\<lparr>freed := freed d @ zs @ [b]\<rparr>" using that(2) by (simp add: free_block_def)
      moreover have "next_of s b = (if ws = [] then h else hd ws)"
      proof -
        have "ring (blocks d) (zs @ b # ws)" using assms(1) that(1) by simp
        from ring_next [OF this] show ?thesis using that Cons by (cases zs) (simp_all add: next_of_def)
      qed
      ultimately show ?thesis using assms(2,3) Cons by simp
    qed
  qed (use Cons ring_distinct [OF assms(1)] in simp_all)
  then show ?thesis using assms(2) Cons by (simp add: for_each_block_def)
qed

lemma invalidate_spec:
  assumes "ok d ls fs" and env: "env_ok ops env" and line: "dcache_line_size env = 2 ^ n" "1 \<le> n" "n \<le> 30"
  shows "\<exists>d1 fs1. dcache_invalidate env d = Some d1 \<and> ok d1 [] fs1 \<and> line_size d1 = 2 ^ n \<and>
    (fs1, freed d1) = (if line_size d = 2 ^ n then (fs @ ls, freed d) else ([], freed d @ fs @ ls)) \<and>
    dc_ptid d1 = null_ptid \<and> proc_target d1 = None"
proof -
  note o = lines_okD [OF assms(1)]
  have size: "ucast (dcache_line_size env) = (2 :: 64 word) ^ n"
  proof -
    have "(2::nat) ^ n \<le> 2 ^ 30" by (rule power_increasing) (use line in auto)
    then have "(2::nat) ^ n < 2 ^ 32" by simp
    then have "unat (of_nat (2 ^ n) :: 32 word) = 2 ^ n" unfolding unsigned_of_nat by (subst take_bit_nat_eq_self) simp_all
    then have u: "unat ((2 :: 32 word) ^ n) = 2 ^ n" by simp
    have "ucast ((2 :: 32 word) ^ n) = (of_nat (unat ((2 :: 32 word) ^ n)) :: 64 word)" by (rule of_nat_unat [symmetric])
    then show ?thesis unfolding line(1) u by simp
  qed
  obtain s where s: "for_each_block oldest next_of (invalidate_block env) d = Some s" "moved d ls fs ls s"
    using each_invalidate [OF assms(1) env] by blast
  obtain t st where m: "s = d\<lparr>dtree := t, blocks := st, freelist := list_head (fs @ ls)\<rparr>" "ring st (fs @ ls)" "same_data (blocks d) st" "valid t"
    "content t = Map.empty"
    using s(2) by (auto simp: moved_def fun_eq_iff)
  let ?d2 = "s\<lparr>oldest := None, dc_size := 0, dc_ptid := null_ptid, proc_target := None\<rparr>"
  note sd = same_dataD [OF m(3)]
  have dist: "distinct (fs @ ls)" using o(1) by (auto simp: rings_def)
  show ?thesis
  proof (cases "line_size d = 2 ^ n")
    case True
    then have "dcache_invalidate env d = Some ?d2" using s(1) size m(1) by (simp add: dcache_invalidate_def)
    moreover have "ok ?d2 [] (fs @ ls)"
      by (rule lines_okI) (use m o(2,5,6) dist in \<open>auto simp: rings_def power_line_def sd\<close>)
    ultimately show ?thesis using True m(1) by auto
  next
    case False
    let ?d3 = "?d2\<lparr>freed := freed d @ fs @ ls, freelist := None, line_size := 2 ^ n\<rparr>"
    have "for_each_block freelist next_of free_block ?d2 = Some (?d2\<lparr>freed := freed ?d2 @ fs @ ls\<rparr>)"
      by (rule each_free) (use m(1,2) in simp_all)
    then have "dcache_invalidate env d = Some ?d3" using s(1) size m(1) False by (simp add: dcache_invalidate_def)
    moreover have "power_line ?d3" using line(2,3) by (auto simp: power_line_def)
    then have "ok ?d3 [] []"
      by (intro lines_okI) (use m in \<open>auto simp: rings_def\<close>)
    ultimately show ?thesis using False m(1) by auto
  qed
qed

lemma free_spec:
  assumes "ok d ls fs"
  shows "\<exists>d1. dcache_free d = Some d1 \<and> freed d1 = freed d @ ls @ fs"
proof -
  have r: "ring (blocks d) ls" "ring (blocks d) fs" "oldest d = list_head ls" "freelist d = list_head fs"
    using lines_okD(1) [OF assms] by (simp_all add: rings_def)
  have 1: "for_each_block oldest next_of free_block d = Some (d\<lparr>freed := freed d @ ls\<rparr>)"
    by (rule each_free) (use r in simp_all)
  have 2: "for_each_block freelist next_of free_block (d\<lparr>freed := freed d @ ls\<rparr>) = Some (d\<lparr>freed := freed d @ ls @ fs\<rparr>)"
    using each_free [of "d\<lparr>freed := freed d @ ls\<rparr>" fs freelist] r by simp
  show ?thesis using 1 2 by (simp add: dcache_free_def)
qed

lemma init_ok:
  assumes "valid t" "content t = Map.empty" and line: "ucast (dcache_line_size env) = (2 :: 64 word) ^ n" "1 \<le> n" "n \<le> 30"
  shows "ok (dcache_init env t) [] []"
  by (rule lines_okI) (use assms in \<open>auto simp: dcache_init_def rings_def power_line_def\<close>)

end

end
