(* ===== verification/Dcache_Coherence.thy ===== *)
theory Dcache_Coherence
  imports Dcache_Lines
begin

text \<open>
  The data cache and the memory of the target: every readable byte of a line is that of the memory. Reads, failed reads, evictions and
  the updates that follow a write keep it so, whatever the regions of memory are, and reads return what the memory holds.
\<close>

subsection \<open>What the cache is filled with\<close>

definition readable :: "'t dcache_env \<Rightarrow> CORE_ADDR \<Rightarrow> bool" where
  "readable env a \<longleftrightarrow> access_mode (region_attrib (region_of env a)) \<noteq> MEM_WO"

text \<open>A raw read of at most a line that succeeds puts the bytes of the memory into the buffer, and one that fails stays within the buffer.\<close>

definition reads_memory :: "'t dcache_env \<Rightarrow> (CORE_ADDR \<Rightarrow> uint8) \<Rightarrow> bool" where
  "reads_memory env mem \<longleftrightarrow> (\<forall>a n. n \<le> 2 ^ 30 \<longrightarrow> (let (bs, ok) = read_raw env a n in
     length bs \<le> n \<and> (ok \<longrightarrow> length bs = n \<and> (\<forall>i < n. bs ! i = mem (a + of_nat i)))))"

text \<open>A lookup gives a region that contains the address, and the addresses of one region can be read alike.\<close>

definition regions_tile :: "'t dcache_env \<Rightarrow> bool" where
  "regions_tile env \<longleftrightarrow> (\<forall>a. in_region a (region_of env a) \<and>
     (\<forall>x. in_region x (region_of env a) \<longrightarrow> readable env x = readable env a))"

text \<open>No region ends within the last line of the address space, where the sum of address and length is 0.\<close>

definition tops_ok :: "'t dcache_env \<Rightarrow> 't dcache_struct \<Rightarrow> bool" where
  "tops_ok env d \<longleftrightarrow> (\<forall>a. region_hi (region_of env a) = 0 \<or>
     unat (region_hi (region_of env a)) + max (unat (line_size d)) (unat (dcache_line_size env)) \<le> 2 ^ 64)"

lemma to_int_small: "unat w < 2 ^ 31 \<Longrightarrow> to_int w = int (unat w)"
proof -
  assume w: "unat w < 2 ^ 31"
  have "to_int w = signed_take_bit 31 (int (unat w))" by (simp add: to_int_def signed_ucast_eq)
  also have "\<dots> = int (unat w)" 
  proof (rule signed_take_bit_int_eq_self)
    show "- (2 ^ 31) \<le> int (unat w)" by (rule order.trans [where b = 0]) simp_all
    have "int (unat w) < int (2 ^ 31)" using w by (simp only: of_nat_less_iff)
    then show "int (unat w) < 2 ^ 31" by (simp only: of_nat_power of_nat_numeral)
  qed
  finally show ?thesis .
qed

lemma unat_add_small: "unat a + n < 2 ^ 64 \<Longrightarrow> unat (a + of_nat n :: 64 word) = unat a + n"
  by (simp add: unat_plus_if' unsigned_of_nat take_bit_nat_eq_self)

text \<open>The part of a line that a region covers.\<close>

lemma region_len_part:
  assumes "in_region a r" "0 < len" "len \<le> 2 ^ 30" "unat a + len \<le> 2 ^ 64" "unat a + len = 2 ^ 64 \<Longrightarrow> region_hi r = 0"
  shows "\<exists>n. region_len r a (int len) = int n \<and> 0 < n \<and> n \<le> len \<and> (\<forall>i < n. in_region (a + of_nat i) r)"
proof -
  have lo: "region_lo r \<le> a + of_nat i" if "i < len" for i
    using assms(1,4) that unat_add_small [of a i] by (auto simp: in_region_def word_le_nat_alt)
  show ?thesis
  proof (cases "region_hi r = 0")
    case True
    then show ?thesis using lo assms(2) by (intro exI [of _ len]) (auto simp: region_len_def in_region_def)
  next
    case hi: False
    then have small: "unat a + len < 2 ^ 64" using assms(4,5) by fastforce
    have len: "unat (a + word_of_int (int len)) = unat a + len" using unat_add_small [OF small] by simp
    show ?thesis
    proof (cases "a + word_of_int (int len) < region_hi r")
      case True
      have "in_region (a + of_nat i) r" if "i < len" for i
      proof -
        have "unat (a + of_nat i) < unat (region_hi r)"
          using that unat_add_small [of a i] small True len by (simp add: word_less_nat_alt)
        then show ?thesis using lo [OF that] by (simp add: in_region_def word_less_nat_alt)
      qed
      then show ?thesis using True assms(2) by (intro exI [of _ len]) (simp add: region_len_def)
    next
      case False
      let ?n = "unat (region_hi r - a)"
      have a: "a < region_hi r" using assms(1) hi by (simp add: in_region_def)
      then have n: "?n = unat (region_hi r) - unat a" by (simp add: unat_sub less_imp_le)
      then have n1: "0 < ?n" "?n \<le> len" using a False len by (simp_all add: word_less_nat_alt)
      have "to_int (region_hi r - a) = int ?n" by (rule to_int_small) (use n1(2) assms(3) in simp)
      moreover have "in_region (a + of_nat i) r" if "i < ?n" for i
      proof -
        have "unat (a + of_nat i) < unat (region_hi r)" using that n1(2) unat_add_small [of a i] small n by linarith
        then show ?thesis using lo [of i] that n1(2) by (simp add: in_region_def word_less_nat_alt)
      qed
      ultimately show ?thesis using hi False n1 by (intro exI [of _ ?n]) (simp add: region_len_def)
    qed
  qed
qed

lemma put_bytes_length: "i + length bs \<le> length xs \<Longrightarrow> length (put_bytes i bs xs) = length xs"
  by (simp add: put_bytes_def)

lemma put_bytes_nth:
  "i + length bs \<le> length xs \<Longrightarrow> j < length xs \<Longrightarrow>
   put_bytes i bs xs ! j = (if i \<le> j \<and> j < i + length bs then bs ! (j - i) else xs ! j)"
  by (auto simp: put_bytes_def nth_append min_def)

text \<open>Reading a line returns, leaves the bytes before it alone, and on success has put the memory into its readable bytes.\<close>

lemma read_line_returns:
  assumes "regions_tile env" "reads_memory env mem"
    and "unat a + len \<le> 2 ^ 64" "\<And>x. unat a + len = 2 ^ 64 \<Longrightarrow> a \<le> x \<Longrightarrow> region_hi (region_of env x) = 0"
    and "len \<le> 2 ^ 30" "my + len = length data"
  shows "\<exists>data1 ok. read_line_loop env a (int my) (int len) data = Some (data1, ok) \<and> length data1 = length data \<and>
    (\<forall>j < my. data1 ! j = data ! j) \<and> (ok \<longrightarrow> (\<forall>i < len. readable env (a + of_nat i) \<longrightarrow> data1 ! (my + i) = mem (a + of_nat i)))"
  using assms(3-6)
proof (induction len arbitrary: a my data rule: less_induct)
  case (less len)
  show ?case
  proof (cases "len = 0")
    case True
    then have "read_line_loop env a (int my) (int len) data = Some (data, True)" by (subst read_line_loop.simps) simp
    then show ?thesis using True by (intro exI [of _ data] exI [of _ True]) simp
  next
    case False
    let ?r = "region_of env a"
    have "in_region a ?r" using assms(1) by (simp add: regions_tile_def)
    then obtain n where n: "region_len ?r a (int len) = int n" "0 < n" "n \<le> len" "\<forall>i < n. in_region (a + of_nat i) ?r"
      using region_len_part [of a ?r len] False less.prems by auto
    have alike: "readable env (a + of_nat i) = readable env a" if "i < n" for i
      using assms(1) n(4) that unfolding regions_tile_def by blast
    have step: "a + word_of_int (int n) = a + of_nat n" "int my + int n = int (my + n)" "int len - int n = int (len - n)"
      using n(3) by simp_all
    have prem: "unat (a + of_nat n) + (len - n) \<le> 2 ^ 64" "len - n \<le> 2 ^ 30" "my + n + (len - n) = length data"
      "\<And>x. unat (a + of_nat n) + (len - n) = 2 ^ 64 \<Longrightarrow> a + of_nat n \<le> x \<Longrightarrow> region_hi (region_of env x) = 0"
    proof -
      show "len - n \<le> 2 ^ 30" "my + n + (len - n) = length data" using n(3) less.prems(3,4) by simp_all
      show "unat (a + of_nat n) + (len - n) \<le> 2 ^ 64"
      proof (cases "unat a + n < 2 ^ 64")
        case True
        then show ?thesis using unat_add_small [of a n] n(3) less.prems(1) by simp
      next
        case False
        then have "n = len" using n(3) less.prems(1) by simp
        then show ?thesis using unat_bound [of "a + of_nat n"] by simp
      qed
      fix x assume x: "unat (a + of_nat n) + (len - n) = 2 ^ 64" "a + of_nat n \<le> x"
      have "unat a + n < 2 ^ 64"
      proof (rule ccontr)
        assume "\<not> unat a + n < 2 ^ 64"
        then have "n = len" using n(3) less.prems(1) by simp
        then show False using x(1) unat_bound [of "a + of_nat n"] by simp
      qed
      then have "unat (a + of_nat n) = unat a + n" by (rule unat_add_small)
      then show "region_hi (region_of env x) = 0" using x less.prems(2) [of x] n(3) by (simp add: word_le_nat_alt)
    qed
    have pos: "(int len > 0) = True" using False by simp
    show ?thesis
    proof (cases "readable env a")
      case False
      then have wo: "access_mode (region_attrib ?r) = MEM_WO" by (simp add: readable_def)
      have e: "read_line_loop env a (int my) (int len) data = read_line_loop env (a + of_nat n) (int (my + n)) (int (len - n)) data"
        using wo by (subst read_line_loop.simps) (simp only: pos if_True Let_def n(1) step simp_thms)
      obtain data1 ok where r: "read_line_loop env (a + of_nat n) (int (my + n)) (int (len - n)) data = Some (data1, ok)" "length data1 = length data"
        "\<forall>j < my + n. data1 ! j = data ! j"
        "ok \<longrightarrow> (\<forall>i < len - n. readable env (a + of_nat n + of_nat i) \<longrightarrow> data1 ! (my + n + i) = mem (a + of_nat n + of_nat i))"
        using less.IH [OF _ prem(1) prem(4) prem(2,3)] n(2,3) by auto
      have "data1 ! (my + i) = mem (a + of_nat i)" if "ok" "i < len" "readable env (a + of_nat i)" for i
      proof -
        have i: "n \<le> i" using that(3) alike [of i] False by (meson not_le)
        then have x: "a + of_nat n + of_nat (i - n) = a + of_nat i" by (simp add: of_nat_diff)
        have "i - n < len - n" "my + n + (i - n) = my + i" using i that(2) by simp_all
        then show ?thesis using mp [OF r(4) that(1), rule_format, of "i - n"] that(3) unfolding x by simp
      qed
      then show ?thesis unfolding e using r(1-3) by auto
    next
      case True
      then have rd: "access_mode (region_attrib ?r) \<noteq> MEM_WO" by (simp add: readable_def)
      obtain bs ok where b: "read_raw env a n = (bs, ok)" by (cases "read_raw env a n")
      have "let (bs, ok) = read_raw env a n in length bs \<le> n \<and> (ok \<longrightarrow> length bs = n \<and> (\<forall>i < n. bs ! i = mem (a + of_nat i)))"
        using assms(2) n(3) less.prems(3) unfolding reads_memory_def by (meson le_trans)
      then have bs: "length bs \<le> n" "ok \<Longrightarrow> length bs = n" "\<And>i. ok \<Longrightarrow> i < n \<Longrightarrow> bs ! i = mem (a + of_nat i)" unfolding b by auto
      have fits: "my + length bs \<le> length data" using bs(1) n(3) less.prems(4) by simp
      let ?data = "put_bytes my bs data"
      have put: "length ?data = length data" "\<And>j. j < my \<Longrightarrow> ?data ! j = data ! j" "\<And>i. i < length bs \<Longrightarrow> ?data ! (my + i) = bs ! i"
        using put_bytes_length [OF fits] put_bytes_nth [OF fits] fits by auto
      show ?thesis
      proof (cases ok)
        case False
        have "read_line_loop env a (int my) (int len) data = Some (?data, False)"
          using rd False by (subst read_line_loop.simps) (simp only: pos if_True if_False Let_def n(1) nat_int b prod.case simp_thms)
        then show ?thesis using put by auto
      next
        case True
        have e: "read_line_loop env a (int my) (int len) data = read_line_loop env (a + of_nat n) (int (my + n)) (int (len - n)) ?data"
          using rd True by (subst read_line_loop.simps) (simp only: pos if_True if_False Let_def n(1) nat_int b prod.case simp_thms step)
        obtain data1 ok1 where r: "read_line_loop env (a + of_nat n) (int (my + n)) (int (len - n)) ?data = Some (data1, ok1)" "length data1 = length ?data"
          "\<forall>j < my + n. data1 ! j = ?data ! j"
          "ok1 \<longrightarrow> (\<forall>i < len - n. readable env (a + of_nat n + of_nat i) \<longrightarrow> data1 ! (my + n + i) = mem (a + of_nat n + of_nat i))"
          using less.IH [OF _ prem(1) prem(4) prem(2), of "my + n" ?data] prem(3) put(1) n(2,3) by auto
        have "data1 ! (my + i) = mem (a + of_nat i)" if "ok1" "i < len" "readable env (a + of_nat i)" for i
        proof (cases "i < n")
          case True
          then have "data1 ! (my + i) = ?data ! (my + i)" using r(3) by simp
          then show ?thesis using put(3) [of i] bs(2,3) True \<open>ok\<close> by simp
        next
          case False
          then have x: "a + of_nat n + of_nat (i - n) = a + of_nat i" by (simp add: of_nat_diff)
          have "i - n < len - n" "my + n + (i - n) = my + i" using False that(2) by simp_all
          then show ?thesis using mp [OF r(4) that(1), rule_format, of "i - n"] that(3) unfolding x by simp
        qed
        then show ?thesis unfolding e using r(1-3) put(1,2) by auto
      qed
    qed
  qed
qed


subsection \<open>Coherent lines\<close>

definition coherent_line :: "'t dcache_env \<Rightarrow> (CORE_ADDR \<Rightarrow> uint8) \<Rightarrow> 't dcache_struct \<Rightarrow> nat \<Rightarrow> bool" where
  "coherent_line env mem d b \<longleftrightarrow> (\<forall>i < unat (line_size d). readable env (blk_addr (blocks d b) + of_nat i) \<longrightarrow>
     blk_data (blocks d b) ! i = mem (blk_addr (blocks d b) + of_nat i))"

definition coherent :: "'t dcache_env \<Rightarrow> (CORE_ADDR \<Rightarrow> uint8) \<Rightarrow> 't dcache_struct \<Rightarrow> nat list \<Rightarrow> bool" where
  "coherent env mem d ls \<longleftrightarrow> (\<forall>b \<in> set ls. coherent_line env mem d b)"

lemma coherent_line_keeps:
  assumes "line_size d1 = line_size d" "keeps xs d d1" "b \<in> set xs"
  shows "coherent_line env mem d1 b = coherent_line env mem d b"
  using assms by (simp add: coherent_line_def keeps_def)

lemma coherent_keeps:
  assumes "same_frame d d1" "keeps xs d d1" "set ls1 \<subseteq> set xs" "set ls1 \<subseteq> set ls" "coherent env mem d ls"
  shows "coherent env mem d1 ls1"
  using assms coherent_line_keeps [of d1 d xs] unfolding coherent_def same_frame_def by blast

lemma top_line:
  assumes "power_line d" "MASK d k = k"
  shows "unat k + unat (line_size d) \<le> 2 ^ 64"
proof (rule ccontr)
  assume big: "\<not> ?thesis"
  define i where "i = 2 ^ 64 - unat k"
  have k: "unat k < 2 ^ 64" using unat_bound [of k] by simp
  then have i: "0 < i" "i < unat (line_size d)" using big by (simp_all add: i_def)
  have "of_nat (unat k + i) = (of_nat (2 ^ 64) :: 64 word)" using k by (simp add: i_def)
  then have "k + of_nat i = 0" by simp
  then have "XFORM d (k + of_nat i) = 0" by (simp add: XFORM_def)
  then show False using line_offset(2) [OF assms i(2)] i(1) by simp
qed

context line_cache
begin

lemma read_line_spec:
  assumes "ok d ls fs" "b \<in> set ls" "regions_tile env" "reads_memory env mem" "tops_ok env d"
  shows "\<exists>data r. dcache_read_line env d b = Some (set_block b ((blocks d b)\<lparr>blk_data := data\<rparr>) d, r) \<and>
    ok (set_block b ((blocks d b)\<lparr>blk_data := data\<rparr>) d) ls fs \<and>
    (r \<longrightarrow> coherent_line env mem (set_block b ((blocks d b)\<lparr>blk_data := data\<rparr>) d) b)"
proof -
  note o = lines_okD [OF assms(1)]
  let ?k = "blk_addr (blocks d b)"
  obtain n where n: "n \<le> 30" "unat (line_size d) = 2 ^ n" using o(2) by (rule power_lineE)
  have small: "unat (line_size d) \<le> 2 ^ 30" unfolding n(2) by (rule power_increasing) (use n(1) in auto)
  then have len: "to_int (line_size d) = int (unat (line_size d))" by (intro to_int_small) simp
  have top: "unat ?k + unat (line_size d) \<le> 2 ^ 64" by (rule top_line [OF o(2) o(7) [OF assms(2)]])
  have none: "region_hi (region_of env x) = 0" if "unat ?k + unat (line_size d) = 2 ^ 64" "?k \<le> x" for x
  proof (rule ccontr)
    assume hi: "region_hi (region_of env x) \<noteq> 0"
    have "in_region x (region_of env x)" using assms(3) by (simp add: regions_tile_def)
    then have "unat ?k < unat (region_hi (region_of env x))" using hi that(2) by (simp add: in_region_def word_less_nat_alt word_le_nat_alt)
    moreover have "unat (region_hi (region_of env x)) + unat (line_size d) \<le> 2 ^ 64"
    proof -
      have "unat (region_hi (region_of env x)) + max (unat (line_size d)) (unat (dcache_line_size env)) \<le> 2 ^ 64"
        using assms(5) hi unfolding tops_ok_def by blast
      then show ?thesis using max.cobounded1 [of "unat (line_size d)" "unat (dcache_line_size env)"] by linarith
    qed
    ultimately show False using that(1) by linarith
  qed
  obtain data r where r: "read_line_loop env ?k (int 0) (int (unat (line_size d))) (blk_data (blocks d b)) = Some (data, r)"
    "length data = length (blk_data (blocks d b))"
    "r \<longrightarrow> (\<forall>i < unat (line_size d). readable env (?k + of_nat i) \<longrightarrow> data ! (0 + i) = mem (?k + of_nat i))"
    using read_line_returns [OF assms(3,4) top none small, of 0 "blk_data (blocks d b)"] o(6) [of b] assms(2) by auto
  have "dcache_read_line env d b = Some (set_block b ((blocks d b)\<lparr>blk_data := data\<rparr>) d, r)"
    using r(1) unfolding dcache_read_line_def len by (simp add: set_block_def)
  moreover have "ok (set_block b ((blocks d b)\<lparr>blk_data := data\<rparr>) d) ls fs"
    by (rule set_data_ok [OF assms(1)]) (use r(2) o(6) [of b] assms(2) in simp)
  moreover have "r \<longrightarrow> coherent_line env mem (set_block b ((blocks d b)\<lparr>blk_data := data\<rparr>) d) b"
    using r(3) by (simp add: coherent_line_def)
  ultimately show ?thesis by blast
qed

lemma line_byte:
  assumes "ok d ls fs" "coherent_line env mem d b" "b \<in> set ls" "blk_addr (blocks d b) = MASK d a" "readable env a"
  shows "data_at d b a = mem a"
proof -
  note s = line_split [OF lines_okD(2) [OF assms(1)], of a]
  show ?thesis using assms(2,4,5) s(2,3) by (auto simp: coherent_line_def data_at_def)
qed

text \<open>
  A byte that is read is that of the memory. When its line cannot be read, the line is in the cache with what was read of it, and all
  other lines are coherent.
\<close>

lemma peek_spec:
  assumes "ok d ls fs" and env: "env_ok ops env" and "regions_tile env" "reads_memory env mem" "tops_ok env d" "coherent env mem d ls" "length ls < 2 ^ 32"
  shows "\<exists>d1 r ls1 fs1. dcache_peek_byte env d a = Some (d1, r) \<and> ok d1 ls1 fs1 \<and> same_frame d d1 \<and>
    length ls1 \<le> max (length ls) (unat (dcache_size env)) \<and>
    (case r of
       Some v \<Rightarrow> coherent env mem d1 ls1 \<and> (readable env a \<longrightarrow> v = mem a)
     | None \<Rightarrow> \<forall>b \<in> set ls1. blk_addr (blocks d1 b) \<noteq> MASK d a \<longrightarrow> coherent_line env mem d1 b)"
proof -
  obtain d1 where d1: "dcache_hit env d a = (d1, found d a)" "ok d1 ls fs" "keeps (ls @ fs) d d1" "same_frame d d1"
    "content (dtree d1) = content (dtree d)"
    using hit_spec [OF assms(1) env] by blast
  have m1: "MASK d1 = MASK d" by (rule same_line_size(1)) (use d1(4) in \<open>simp add: same_frame_def\<close>)
  have c1: "coherent env mem d1 ls" by (rule coherent_keeps [OF d1(4,3) _ _ assms(6)]) auto
  show ?thesis
  proof (cases "found d a")
    case (Some b)
    then have b: "b \<in> set ls" "blk_addr (blocks d1 b) = MASK d1 a"
      using lines_okD(8) [OF d1(2), of "MASK d a" b] d1(5) m1 by simp_all
    have "readable env a \<longrightarrow> data_at d1 b a = mem a"
    proof
      have "coherent_line env mem d1 b" using c1 b(1) by (simp add: coherent_def)
      then show "readable env a \<Longrightarrow> data_at d1 b a = mem a" by (rule line_byte [OF d1(2) _ b])
    qed
    moreover have "dcache_peek_byte env d a = Some (d1, Some (data_at d1 b a))" using Some d1(1) by (simp add: dcache_peek_byte_def)
    ultimately show ?thesis using d1(2,4) c1 by (intro exI [of _ d1] exI [of _ "Some (data_at d1 b a)"] exI [of _ ls] exI [of _ fs]) simp
  next
    case None
    have "found d1 a = None" using None d1(5) m1 by simp
    from alloc_spec [OF d1(2) this env] obtain d2 b ls1 fs1 where d2: "dcache_alloc env d1 a = Some (d2, b)" "ok d2 (ls1 @ [b]) fs1"
      "ls1 = (if full env d1 then tl ls else ls)" "blk_addr (blocks d2 b) = MASK d1 a" "keeps ls1 d1 d2" "same_frame d1 d2" by blast
    have sub: "set ls1 \<subseteq> set ls" unfolding d2(3) by (cases ls) auto
    have c2: "coherent env mem d2 ls1" by (rule coherent_keeps [OF d2(6,5) _ sub c1]) simp
    have fr: "same_frame d d2" by (rule same_frame_trans [OF d1(4) d2(6)])
    then have tops: "tops_ok env d2" using assms(5) by (simp add: tops_ok_def same_frame_def)
    obtain data r where r: "dcache_read_line env d2 b = Some (set_block b ((blocks d2 b)\<lparr>blk_data := data\<rparr>) d2, r)"
      "ok (set_block b ((blocks d2 b)\<lparr>blk_data := data\<rparr>) d2) (ls1 @ [b]) fs1"
      "r \<longrightarrow> coherent_line env mem (set_block b ((blocks d2 b)\<lparr>blk_data := data\<rparr>) d2) b"
      using read_line_spec [OF d2(2) _ assms(3,4) tops, of b] by auto
    let ?d3 = "set_block b ((blocks d2 b)\<lparr>blk_data := data\<rparr>) d2"
    have m3: "MASK ?d3 = MASK d" by (rule same_line_size(1)) (use fr in \<open>simp add: same_frame_def\<close>)
    have b3: "blk_addr (blocks ?d3 b) = MASK ?d3 a" using d2(4) m1 m3 by simp
    have bn: "b \<notin> set ls1" using lines_okD(1) [OF d2(2)] by (simp add: rings_def)
    then have c3: "coherent env mem ?d3 ls1" using c2 by (auto simp: coherent_def coherent_line_def)
    have p: "dcache_peek_byte env d a = Some (?d3, if r then Some (data_at ?d3 b a) else None)"
      using d1(1) None d2(1) r(1) by (simp add: dcache_peek_byte_def)
    have fr3: "same_frame d ?d3" by (rule same_frame_trans [OF fr]) simp
    have len: "length (ls1 @ [b]) \<le> max (length ls) (unat (dcache_size env))"
    proof (cases "full env d1")
      case True
      then have "ls \<noteq> []" using full_nonempty [OF True env_okD(3) [OF env]] lines_okD(3) [OF d1(2)] by auto
      then show ?thesis using d2(3) True by (cases ls) auto
    next
      case False
      have "unat (word_of_int (int (length ls)) :: 32 word) = length ls" using assms(7) by (simp add: unsigned_of_nat take_bit_nat_eq_self)
      then have "length ls < unat (dcache_size env)" using False lines_okD(3) [OF d1(2)] by (simp add: full_def word_le_nat_alt)
      then show ?thesis using d2(3) False by simp
    qed
    show ?thesis
    proof (cases r)
      case True
      then have cb: "coherent_line env mem ?d3 b" using r(3) by simp
      then have "coherent env mem ?d3 (ls1 @ [b])" using c3 by (simp add: coherent_def)
      moreover have "readable env a \<longrightarrow> data_at ?d3 b a = mem a" using line_byte [OF r(2) cb _ b3] by simp
      ultimately show ?thesis using p r(2) fr3 len True
        by (intro exI [of _ ?d3] exI [of _ "Some (data_at ?d3 b a)"] exI [of _ "ls1 @ [b]"] exI [of _ fs1]) simp
    next
      case False
      have "\<forall>x \<in> set (ls1 @ [b]). blk_addr (blocks ?d3 x) \<noteq> MASK d a \<longrightarrow> coherent_line env mem ?d3 x"
        using c3 b3 m3 by (auto simp: coherent_def)
      then show ?thesis using p r(2) fr3 len False
        by (intro exI [of _ ?d3] exI [of _ "None"] exI [of _ "ls1 @ [b]"] exI [of _ fs1]) simp
    qed
  qed
qed

lemma peek_bytes_spec:
  assumes env: "env_ok ops env" and "regions_tile env" "reads_memory env mem"
    and "ok d ls fs" "tops_ok env d" "coherent env mem d ls" "length ls < 2 ^ 32"
  shows "\<exists>d1 vs ls1 fs1. peek_bytes env d a n = Some (d1, vs) \<and> ok d1 ls1 fs1 \<and> same_frame d d1 \<and>
    length ls1 \<le> max (length ls) (unat (dcache_size env)) \<and> coherent env mem d1 ls1 \<and> length vs \<le> n \<and>
    (\<forall>i < length vs. readable env (a + of_nat i) \<longrightarrow> vs ! i = mem (a + of_nat i))"
  using assms(4-7)
proof (induction n arbitrary: d ls fs a)
  case 0
  then show ?case by (intro exI [of _ d] exI [of _ "[]"] exI [of _ ls] exI [of _ fs]) simp
next
  case (Suc n)
  obtain d1 r ls1 fs1 where p: "dcache_peek_byte env d a = Some (d1, r)" "ok d1 ls1 fs1" "same_frame d d1"
    "length ls1 \<le> max (length ls) (unat (dcache_size env))"
    "case r of Some v \<Rightarrow> coherent env mem d1 ls1 \<and> (readable env a \<longrightarrow> v = mem a)
       | None \<Rightarrow> \<forall>b \<in> set ls1. blk_addr (blocks d1 b) \<noteq> MASK d a \<longrightarrow> coherent_line env mem d1 b"
    using peek_spec [OF Suc.prems(1) env assms(2,3) Suc.prems(2-4)] by blast
  show ?case
  proof (cases r)
    case None
    let ?d2 = "dcache_invalidate_line env d1 a"
    obtain ls2 fs2 where i: "ok ?d2 ls2 fs2" "keeps (ls2 @ fs2) d1 ?d2" "same_frame d1 ?d2" "length ls2 \<le> length ls1"
      "set ls2 = {b \<in> set ls1. blk_addr (blocks d1 b) \<noteq> MASK d1 a}"
      using invalidate_line_spec [OF p(2) env, of a] by blast
    have m: "MASK d1 = MASK d" by (rule same_line_size(1)) (use p(3) in \<open>simp add: same_frame_def\<close>)
    have "coherent env mem d1 ls2" using p(5) None i(5) m by (simp add: coherent_def)
    from coherent_keeps [OF i(3,2) _ subset_refl this] have "coherent env mem ?d2 ls2" by simp
    moreover have "peek_bytes env d a (Suc n) = Some (?d2, [])" using p(1) None by simp
    ultimately show ?thesis using i(1,4) p(4) same_frame_trans [OF p(3) i(3)]
      by (intro exI [of _ ?d2] exI [of _ "[]"] exI [of _ ls2] exI [of _ fs2]) simp
  next
    case (Some v)
    have tops: "tops_ok env d1" using Suc.prems(2) p(3) by (simp add: tops_ok_def same_frame_def)
    have c: "coherent env mem d1 ls1" "readable env a \<Longrightarrow> v = mem a" using p(5) Some by simp_all
    have "unat (dcache_size env) < 2 ^ 32" using unat_bound [of "dcache_size env"] by simp
    then have "length ls1 < 2 ^ 32" using p(4) Suc.prems(4) by linarith
    from Suc.IH [OF p(2) tops c(1) this, of "a + 1"] obtain d2 vs ls2 fs2 where
      q: "peek_bytes env d1 (a + 1) n = Some (d2, vs)" "ok d2 ls2 fs2" "same_frame d1 d2" "length ls2 \<le> max (length ls1) (unat (dcache_size env))"
      "coherent env mem d2 ls2" "length vs \<le> n" "\<forall>i < length vs. readable env (a + 1 + of_nat i) \<longrightarrow> vs ! i = mem (a + 1 + of_nat i)" by blast
    have "(v # vs) ! i = mem (a + of_nat i)" if "i < length (v # vs)" "readable env (a + of_nat i)" for i
    proof (cases i)
      case 0
      then show ?thesis using c(2) that(2) by simp
    next
      case (Suc j)
      have a: "a + of_nat i = a + 1 + of_nat j" using Suc by simp
      then show ?thesis using q(7) [rule_format, of j] that(1) that(2) [unfolded a] Suc unfolding a by simp
    qed
    moreover have "peek_bytes env d a (Suc n) = Some (d2, v # vs)" using p(1) Some q(1) by simp
    moreover have "length ls2 \<le> max (length ls) (unat (dcache_size env))" using q(4) p(4) by linarith
    ultimately show ?thesis using q(2,5,6) same_frame_trans [OF p(3) q(3)]
      by (intro exI [of _ d2] exI [of _ "v # vs"] exI [of _ ls2] exI [of _ fs2]) simp
  qed
qed

lemma read_partial_spec:
  assumes "ok d ls fs" and env: "env_ok ops env" and "regions_tile env" "reads_memory env mem" "tops_ok env d" "length ls < 2 ^ 32"
    and "proc = proc_target d \<and> cur = dc_ptid d \<Longrightarrow> coherent env mem d ls"
    and line: "dcache_line_size env = 2 ^ n" "1 \<le> n" "n \<le> 30"
  shows "\<exists>d1 st vs k ls1 fs1. dcache_read_memory_partial env raw_xfer proc cur d a len = Some (d1, st, vs, k) \<and>
    ok d1 ls1 fs1 \<and> coherent env mem d1 ls1 \<and> proc_target d1 = proc \<and> dc_ptid d1 = cur \<and>
    length ls1 \<le> max (length ls) (unat (dcache_size env)) \<and> tops_ok env d1 \<and>
    ((st, vs, k) = raw_xfer a len \<or> st = TARGET_XFER_OK \<and> k = length vs \<and> 0 < k \<and> k \<le> len \<and>
      (\<forall>i < k. readable env (a + of_nat i) \<longrightarrow> vs ! i = mem (a + of_nat i)))"
proof -
  obtain d1 ls1 fs1 where d1: "(if proc \<noteq> proc_target d \<or> cur \<noteq> dc_ptid d
      then map_option (\<lambda>d1. d1\<lparr>dc_ptid := cur, proc_target := proc\<rparr>) (dcache_invalidate env d) else Some d) = Some d1"
    "ok d1 ls1 fs1" "coherent env mem d1 ls1" "tops_ok env d1" "proc_target d1 = proc" "dc_ptid d1 = cur" "length ls1 \<le> length ls"
  proof (cases "proc \<noteq> proc_target d \<or> cur \<noteq> dc_ptid d")
    case True
    obtain d1 fs1 where i: "dcache_invalidate env d = Some d1" "ok d1 [] fs1" "line_size d1 = 2 ^ n"
      using invalidate_spec [OF assms(1) env line] by blast
    let ?d2 = "d1\<lparr>dc_ptid := cur, proc_target := proc\<rparr>"
    have "rings ?d2 [] fs1" by (rule rings_cong [OF lines_okD(1) [OF i(2)]]) simp_all
    then have o: "ok ?d2 [] fs1" by (rule lines_ok_transfer [OF i(2)]) (use lines_okD(4) [OF i(2)] in simp_all)
    have "(2::nat) ^ n \<le> 2 ^ 30" by (rule power_increasing) (use line in auto)
    then have p: "(2::nat) ^ n < 2 ^ 32" by simp
    then have "unat (of_nat (2 ^ n) :: 32 word) = 2 ^ n" unfolding unsigned_of_nat by (subst take_bit_nat_eq_self) simp_all
    moreover have "unat (of_nat (2 ^ n) :: 64 word) = 2 ^ n" using p unfolding unsigned_of_nat by (subst take_bit_nat_eq_self) simp_all
    ultimately have s: "unat (line_size ?d2) = unat (dcache_line_size env)" using i(3) line(1) by simp
    have "tops_ok env ?d2"
      unfolding tops_ok_def s max.idem
    proof
      fix a
      show "region_hi (region_of env a) = 0 \<or> unat (region_hi (region_of env a)) + unat (dcache_line_size env) \<le> 2 ^ 64"
      proof -
        have "region_hi (region_of env a) = 0 \<or>
            unat (region_hi (region_of env a)) + max (unat (line_size d)) (unat (dcache_line_size env)) \<le> 2 ^ 64"
          using assms(5) unfolding tops_ok_def by blast
        then show ?thesis using max.cobounded2 [of "unat (dcache_line_size env)" "unat (line_size d)"] by linarith
      qed
    qed
    then show ?thesis using that [of ?d2 "[]" fs1] True i(1) o by (simp add: coherent_def)
  next
    case False
    then have own: "proc = proc_target d" "cur = dc_ptid d" by auto
    have "coherent env mem d ls" using assms(7) own by blast
    then show ?thesis by (intro that [of d ls fs]) (use own assms(1,5) in simp_all)
  qed
  have "length ls1 < 2 ^ 32" using d1(7) assms(6) by simp
  from peek_bytes_spec [OF env assms(3,4) d1(2,4,3) this, of a len] obtain d2 vs ls2 fs2 where
    p: "peek_bytes env d1 a len = Some (d2, vs)" "ok d2 ls2 fs2" "same_frame d1 d2" "length ls2 \<le> max (length ls1) (unat (dcache_size env))"
      "coherent env mem d2 ls2" "length vs \<le> len" "\<forall>i < length vs. readable env (a + of_nat i) \<longrightarrow> vs ! i = mem (a + of_nat i)" by blast
  obtain st bs k where x: "(if vs = [] then raw_xfer a len else (TARGET_XFER_OK, vs, length vs)) = (st, bs, k)" by (metis prod_cases3)
  have e: "dcache_read_memory_partial env raw_xfer proc cur d a len = Some (d2, st, bs, k)"
    unfolding dcache_read_memory_partial_def d1(1) using p(1) x by simp
  have own: "proc_target d2 = proc" "dc_ptid d2 = cur" using p(3) d1(5,6) by (simp_all add: same_frame_def)
  have "length ls2 \<le> max (length ls) (unat (dcache_size env))" using p(4) d1(7) by linarith
  moreover have "(st, bs, k) = raw_xfer a len \<or> st = TARGET_XFER_OK \<and> k = length bs \<and> 0 < k \<and> k \<le> len \<and>
      (\<forall>i < k. readable env (a + of_nat i) \<longrightarrow> bs ! i = mem (a + of_nat i))"
    using x p(6,7) by (cases "vs = []") auto
  moreover have "tops_ok env d2" using d1(4) p(3) by (simp add: tops_ok_def same_frame_def)
  ultimately show ?thesis using e p(2,5) own by blast
qed

text \<open>A byte that is written to memory and to the cache, and one of which only its line was discarded.\<close>

lemma poke_coherent:
  assumes "ok d ls fs" and env: "env_ok ops env" and "coherent env mem d ls"
  shows "coherent env (mem(a := v)) (dcache_poke_byte env d a v) ls"
proof -
  let ?d2 = "dcache_poke_byte env d a v"
  obtain d1 where d1: "?d2 = (case found d a of None \<Rightarrow> d1
      | Some b \<Rightarrow> set_block b ((blocks d1 b)\<lparr>blk_data := (blk_data (blocks d1 b))[unat (XFORM d a) := v]\<rparr>) d1)"
    "ok ?d2 ls fs" "same_frame d ?d2" "keeps (ls @ fs) d d1"
    using poke_ok [OF assms(1) env, of a v] by blast
  have lsz: "line_size ?d2 = line_size d" using d1(3) by (simp add: same_frame_def)
  note o = lines_okD [OF assms(1)]
  show ?thesis
    unfolding coherent_def coherent_line_def
  proof (intro ballI allI impI)
    fix b i assume b: "b \<in> set ls" "i < unat (line_size ?d2)" and rd: "readable env (blk_addr (blocks ?d2 b) + of_nat i)"
    have i: "i < unat (line_size d)" using b(2) lsz by simp
    have k: "blk_addr (blocks d1 b) = blk_addr (blocks d b)" "blk_data (blocks d1 b) = blk_data (blocks d b)"
      using d1(4) b(1) by (simp_all add: keeps_def)
    have addr: "blk_addr (blocks ?d2 b) = blk_addr (blocks d b)" using d1(1) k(1) by (auto split: option.splits)
    let ?k = "blk_addr (blocks d b)"
    have off: "MASK d (?k + of_nat i) = ?k" "unat (XFORM d (?k + of_nat i)) = i"
      using line_offset [OF o(2) o(7) [OF b(1)] i] by simp_all
    have old: "blk_data (blocks d b) ! i = mem (?k + of_nat i)"
      using assms(3) b(1) i rd addr by (simp add: coherent_def coherent_line_def)
    have len: "length (blk_data (blocks d b)) = unat (line_size d)" using o(6) b(1) by simp
    show "blk_data (blocks ?d2 b) ! i = (mem(a := v)) (blk_addr (blocks ?d2 b) + of_nat i)"
    proof (cases "?k + of_nat i = a")
      case True
      then have "MASK d a = ?k" "unat (XFORM d a) = i" using off by auto
      then have "found d a = Some b" using o(8) b(1) by simp
      then show ?thesis using d1(1) True k \<open>unat (XFORM d a) = i\<close> len i by (simp add: addr [unfolded d1(1)])
    next
      case False
      have "blk_data (blocks ?d2 b) ! i = blk_data (blocks d b) ! i"
      proof (cases "found d a")
        case None
        then show ?thesis using d1(1) k by simp
      next
        case (Some c)
        show ?thesis
        proof (cases "c = b")
          case True
          then have "MASK d a = ?k" using Some o(8) by simp
          moreover have "unat (XFORM d a) \<noteq> i" using line_split(3) [OF o(2), of a] False calculation by metis
          ultimately show ?thesis using d1(1) Some True k by simp
        next
          case False
          then show ?thesis using d1(1) Some k by simp
        qed
      qed
      then show ?thesis using old False addr by simp
    qed
  qed
qed

lemma discard_coherent:
  assumes "ok d ls fs" and env: "env_ok ops env" and "coherent env mem d ls"
    and "ok (dcache_invalidate_line env d a) ls1 fs1" "keeps (ls1 @ fs1) d (dcache_invalidate_line env d a)"
      "same_frame d (dcache_invalidate_line env d a)" "set ls1 = {b \<in> set ls. blk_addr (blocks d b) \<noteq> MASK d a}"
  shows "coherent env (mem(a := v)) (dcache_invalidate_line env d a) ls1"
proof -
  note o = lines_okD [OF assms(1)]
  have "coherent env (mem(a := v)) d ls1"
    unfolding coherent_def coherent_line_def
  proof (intro ballI allI impI)
    fix b i assume b: "b \<in> set ls1" "i < unat (line_size d)" and rd: "readable env (blk_addr (blocks d b) + of_nat i)"
    then have bl: "b \<in> set ls" "blk_addr (blocks d b) \<noteq> MASK d a" using assms(7) by auto
    have "blk_addr (blocks d b) + of_nat i \<noteq> a" using line_offset(1) [OF o(2) o(7) [OF bl(1)] b(2)] bl(2) by metis
    then show "blk_data (blocks d b) ! i = (mem(a := v)) (blk_addr (blocks d b) + of_nat i)"
      using assms(3) bl(1) b(2) rd by (simp add: coherent_def coherent_line_def)
  qed
  from coherent_keeps [OF assms(6,5) _ subset_refl this] show ?thesis by simp
qed

end

text \<open>The memory after a write of some bytes from an address on.\<close>

fun write_memory :: "CORE_ADDR \<Rightarrow> uint8 list \<Rightarrow> (CORE_ADDR \<Rightarrow> uint8) \<Rightarrow> CORE_ADDR \<Rightarrow> uint8" where
  "write_memory a [] mem = mem"
| "write_memory a (v # vs) mem = write_memory (a + 1) vs (mem(a := v))"

definition touched :: "CORE_ADDR \<Rightarrow> nat \<Rightarrow> CORE_ADDR set" where
  "touched a n = (\<lambda>i. a + of_nat i) ` {..<n}"

lemma touched_Suc: "touched a (Suc n) = insert a (touched (a + 1) n)"
proof -
  have "touched a (Suc n) = insert a ((\<lambda>i. a + of_nat (Suc i)) ` {..<n})"
    unfolding touched_def lessThan_Suc_eq_insert_0 by (simp add: image_image)
  also have "(\<lambda>i. a + of_nat (Suc i)) = (\<lambda>i. a + 1 + of_nat i)" by (simp add: fun_eq_iff)
  finally show ?thesis by (simp add: touched_def)
qed

context line_cache
begin

lemma update_written:
  assumes "ok d ls fs" and env: "env_ok ops env" and "coherent env mem d ls"
  shows "ok (dcache_update env d TARGET_XFER_OK a vs) ls fs \<and> same_frame d (dcache_update env d TARGET_XFER_OK a vs) \<and>
    coherent env (write_memory a vs mem) (dcache_update env d TARGET_XFER_OK a vs) ls"
  using assms(1,3)
proof (induction vs arbitrary: d a mem)
  case (Cons v vs)
  let ?d1 = "dcache_poke_byte env d a v"
  have o: "ok ?d1 ls fs" "same_frame d ?d1" using poke_ok [OF Cons.prems(1) env, of a v] by blast+
  have c: "coherent env (mem(a := v)) ?d1 ls" by (rule poke_coherent [OF Cons.prems(1) env Cons.prems(2)])
  note ih = Cons.IH [OF o(1) c, of "a + 1"]
  have "same_frame d (dcache_update env ?d1 TARGET_XFER_OK (a + 1) vs)"
    by (rule same_frame_trans [OF o(2)]) (use ih in blast)
  moreover have "dcache_update env d TARGET_XFER_OK a (v # vs) = dcache_update env ?d1 TARGET_XFER_OK (a + 1) vs" by simp
  ultimately show ?case unfolding write_memory.simps using ih by (simp only: simp_thms)
qed simp

lemma update_discarded:
  assumes "ok d ls fs" and env: "env_ok ops env" and "coherent env mem d ls" "st \<noteq> TARGET_XFER_OK"
    and "\<forall>x. x \<notin> touched a (length vs) \<longrightarrow> mem1 x = mem x"
  shows "\<exists>ls1 fs1. ok (dcache_update env d st a vs) ls1 fs1 \<and> same_frame d (dcache_update env d st a vs) \<and>
    length ls1 \<le> length ls \<and> coherent env mem1 (dcache_update env d st a vs) ls1"
  using assms(1,3,5)
proof (induction vs arbitrary: d a mem ls fs)
  case Nil
  then have "mem1 = mem" by (auto simp: touched_def)
  then show ?case using Nil by (intro exI [of _ ls] exI [of _ fs]) simp
next
  case (Cons v vs)
  let ?d1 = "dcache_invalidate_line env d a"
  obtain ls1 fs1 where i: "ok ?d1 ls1 fs1" "keeps (ls1 @ fs1) d ?d1" "same_frame d ?d1" "length ls1 \<le> length ls"
    "set ls1 = {b \<in> set ls. blk_addr (blocks d b) \<noteq> MASK d a}"
    using invalidate_line_spec [OF Cons.prems(1) env, of a] by blast
  have c: "coherent env (mem(a := mem1 a)) ?d1 ls1" by (rule discard_coherent [OF Cons.prems(1) env Cons.prems(2) i(1-3,5)])
  have "\<forall>x. x \<notin> touched (a + 1) (length vs) \<longrightarrow> mem1 x = (mem(a := mem1 a)) x"
    using Cons.prems(3) by (simp add: touched_Suc)
  from Cons.IH [OF i(1) c this] obtain ls2 fs2 where
    "ok (dcache_update env ?d1 st (a + 1) vs) ls2 fs2" "same_frame ?d1 (dcache_update env ?d1 st (a + 1) vs)" "length ls2 \<le> length ls1"
    "coherent env mem1 (dcache_update env ?d1 st (a + 1) vs) ls2" by blast
  then show ?case using assms(4) i(3,4) same_frame_trans [OF i(3)] by (intro exI [of _ ls2] exI [of _ fs2]) simp
qed

end

subsection \<open>The cache over the splay tree\<close>

interpretation lines: comparator dcache_splay_tree_compare
  by unfold_locales (auto simp: dcache_splay_tree_compare_def)

interpretation dc: line_cache splay_ops "splay_valid dcache_splay_tree_compare" splay_content
  by unfold_locales

type_synonym dcache = "(CORE_ADDR, nat) splay_tree dcache_struct"

definition cache_ok :: "dcache \<Rightarrow> nat list \<Rightarrow> nat list \<Rightarrow> bool" where
  "cache_ok = lines_ok (splay_valid dcache_splay_tree_compare) splay_content"

definition empty_tree :: "(CORE_ADDR, nat) splay_tree" where
  "empty_tree = splay_tree_new dcache_splay_tree_compare False False"

lemma empty_tree: "splay_valid dcache_splay_tree_compare empty_tree" "splay_content empty_tree = Map.empty"
  by (simp_all add: empty_tree_def splay_tree_new_def splay_valid_def splay_content_def entries_def)

lemma line_size_cast:
  assumes "dcache_line_size env = 2 ^ n" "n \<le> 30"
  shows "ucast (dcache_line_size env) = (2 :: 64 word) ^ n" "unat (dcache_line_size env) = 2 ^ n"
proof -
  have "(2::nat) ^ n \<le> 2 ^ 30" by (rule power_increasing) (use assms(2) in auto)
  then have "(2::nat) ^ n < 2 ^ 32" by simp
  then have "unat (of_nat (2 ^ n) :: 32 word) = 2 ^ n" unfolding unsigned_of_nat by (subst take_bit_nat_eq_self) simp_all
  then have u: "unat ((2 :: 32 word) ^ n) = 2 ^ n" by simp
  then show "unat (dcache_line_size env) = 2 ^ n" using assms(1) by simp
  have "ucast ((2 :: 32 word) ^ n) = (of_nat (unat ((2 :: 32 word) ^ n)) :: 64 word)" by (rule of_nat_unat [symmetric])
  then show "ucast (dcache_line_size env) = (2 :: 64 word) ^ n" unfolding assms(1) u by simp
qed

lemma new_cache_ok:
  assumes "dcache_line_size env = 2 ^ n" "1 \<le> n" "n \<le> 30"
  shows "cache_ok (dcache_init env empty_tree) [] []"
  unfolding cache_ok_def by (rule dc.init_ok [OF empty_tree line_size_cast(1) assms(2,3)]) (use assms in simp_all)

text \<open>C17: A read through the cache returns. What it takes from the cache are the bytes of the target's memory, wherever a region does
  not forbid reading; otherwise it is the result of the uncached read. The cache stays coherent with the memory, belongs to the
  process that read, and does not grow beyond the number of lines that is set, whether lines are found, filled, evicted or
  discarded since they could not be read.
\<close>

theorem dcache_read_coherent:
  assumes "cache_ok d ls fs" "env_ok splay_ops env" "regions_tile env" "reads_memory env mem" "tops_ok env d"
    and "dcache_line_size env = 2 ^ n" "1 \<le> n" "n \<le> 30" "length ls \<le> unat (dcache_size env)"
    and "proc = proc_target d \<and> cur = dc_ptid d \<Longrightarrow> coherent env mem d ls"
  shows "\<exists>d1 st vs k ls1 fs1. dcache_read_memory_partial env raw_xfer proc cur d a len = Some (d1, st, vs, k) \<and>
    cache_ok d1 ls1 fs1 \<and> coherent env mem d1 ls1 \<and> proc_target d1 = proc \<and> dc_ptid d1 = cur \<and>
    length ls1 \<le> unat (dcache_size env) \<and>
    ((st, vs, k) = raw_xfer a len \<or> st = TARGET_XFER_OK \<and> k = length vs \<and> 0 < k \<and> k \<le> len \<and>
      (\<forall>i < k. readable env (a + of_nat i) \<longrightarrow> vs ! i = mem (a + of_nat i)))"
proof -
  have "length ls < 2 ^ 32" using assms(9) unat_bound [of "dcache_size env"] by simp
  then show ?thesis
    using dc.read_partial_spec [OF assms(1) [unfolded cache_ok_def] assms(2-5) _ assms(10,6-8), where raw_xfer = raw_xfer and a = a and len = len]
      assms(9) unfolding cache_ok_def max_absorb2 [OF assms(9)] by blast
qed

text \<open>An environment with flat memory, whose bytes are their addresses, without any region.\<close>

definition flat_env :: "(CORE_ADDR, nat) splay_tree dcache_env" where
  "flat_env = \<lparr>tree_ops = splay_ops, xmalloc = (\<lambda>b n. \<lparr>blk_prev = 0, blk_next = 0, blk_addr = 0, blk_refs = 0, blk_data = replicate n 0\<rparr>),
     region_of = (\<lambda>a. new_mem_region 0 0 default_mem_attrib), read_raw = (\<lambda>a n. (map (\<lambda>i. ucast (a + of_nat i)) [0..<n], True)),
     dcache_size = 2, dcache_line_size = 4\<rparr>"

lemma flat_env_ok:
  "env_ok splay_ops flat_env" "regions_tile flat_env" "reads_memory flat_env ucast" "readable flat_env a"
  "tops_ok flat_env d"
  by (simp_all add: env_ok_def malloc_ok_def flat_env_def regions_tile_def in_region_def new_mem_region_def reads_memory_def readable_def
      default_mem_attrib_def tops_ok_def)

theorem dcache_read_coherent_witness:
  "\<exists>d1 st vs k. dcache_read_memory_partial flat_env (\<lambda>a n. (TARGET_XFER_E_IO, [], 0)) (Some 1) (7, 7, 0) (dcache_init flat_env empty_tree) 6 5 =
     Some (d1, st, vs, k) \<and> dc_ptid d1 = (7, 7, 0) \<and>
     ((st, vs, k) = (TARGET_XFER_E_IO, [], 0) \<or> st = TARGET_XFER_OK \<and> 0 < k \<and> k \<le> 5 \<and> (\<forall>i < k. vs ! i = ucast (6 + of_nat i :: CORE_ADDR)))"
proof -
  have line: "dcache_line_size flat_env = 2 ^ 2" by (simp add: flat_env_def)
  have "\<exists>d1 st vs k ls1 fs1. dcache_read_memory_partial flat_env (\<lambda>a n. (TARGET_XFER_E_IO, [], 0)) (Some 1) (7, 7, 0)
      (dcache_init flat_env empty_tree) 6 5 = Some (d1, st, vs, k) \<and>
    cache_ok d1 ls1 fs1 \<and> coherent flat_env ucast d1 ls1 \<and> proc_target d1 = Some 1 \<and> dc_ptid d1 = (7, 7, 0) \<and>
    length ls1 \<le> unat (dcache_size flat_env) \<and>
    ((st, vs, k) = (TARGET_XFER_E_IO, [], 0) \<or> st = TARGET_XFER_OK \<and> k = length vs \<and> 0 < k \<and> k \<le> 5 \<and>
      (\<forall>i < k. readable flat_env (6 + of_nat i) \<longrightarrow> vs ! i = ucast (6 + of_nat i :: CORE_ADDR)))"
    by (rule dcache_read_coherent [OF new_cache_ok [OF line] flat_env_ok(1-3,5) line])
      (simp_all add: dcache_init_def null_ptid_def)
  then show ?thesis using flat_env_ok(4) by blast
qed

text \<open>After bytes were written to memory, updating the cache keeps it coherent with the new memory. After a write that failed, it
  is coherent with whatever the memory now holds at the bytes in question, as their lines are discarded.
\<close>

theorem dcache_update_coherent:
  assumes "cache_ok d ls fs" "env_ok splay_ops env" "coherent env mem d ls"
    and "if st = TARGET_XFER_OK then mem1 = write_memory a vs mem else \<forall>x. x \<notin> touched a (length vs) \<longrightarrow> mem1 x = mem x"
  shows "\<exists>ls1 fs1. cache_ok (dcache_update env d st a vs) ls1 fs1 \<and> coherent env mem1 (dcache_update env d st a vs) ls1 \<and> length ls1 \<le> length ls"
proof (cases "st = TARGET_XFER_OK")
  case True
  then show ?thesis using dc.update_written [OF assms(1) [unfolded cache_ok_def] assms(2,3), of a vs] assms(4)
    unfolding cache_ok_def by auto
next
  case False
  then show ?thesis using dc.update_discarded [OF assms(1) [unfolded cache_ok_def] assms(2,3) False, of a vs mem1] assms(4)
    unfolding cache_ok_def by auto
qed

theorem dcache_update_coherent_witness:
  "\<exists>ls1 fs1. cache_ok (dcache_update flat_env (dcache_init flat_env empty_tree) TARGET_XFER_OK 6 [1, 2]) ls1 fs1 \<and>
     coherent flat_env (ucast(6 := 1, 7 := 2)) (dcache_update flat_env (dcache_init flat_env empty_tree) TARGET_XFER_OK 6 [1, 2]) ls1"
proof -
  have line: "dcache_line_size flat_env = 2 ^ 2" by (simp add: flat_env_def)
  have c: "coherent flat_env ucast (dcache_init flat_env empty_tree) []" by (simp add: coherent_def)
  show ?thesis
    using dcache_update_coherent [OF new_cache_ok [OF line] flat_env_ok(1) c, of TARGET_XFER_OK "ucast(6 := 1, 7 := 2)" 6 "[1, 2]"] by auto
qed

text \<open>C18: Invalidating the cache returns, although the loop moves the very blocks whose links it follows: all lines end up on the
  free list, or freed, each block once, when the line size has changed.
\<close>

theorem dcache_invalidate_returns:
  assumes "cache_ok d ls fs" "env_ok splay_ops env" "dcache_line_size env = 2 ^ n" "1 \<le> n" "n \<le> 30"
  shows "\<exists>d1 fs1. dcache_invalidate env d = Some d1 \<and> cache_ok d1 [] fs1 \<and> line_size d1 = 2 ^ n \<and>
    (fs1, freed d1) = (if line_size d = 2 ^ n then (fs @ ls, freed d) else ([], freed d @ fs @ ls)) \<and>
    dc_ptid d1 = null_ptid \<and> proc_target d1 = None"
  using dc.invalidate_spec [OF assms(1) [unfolded cache_ok_def] assms(2-5)] unfolding cache_ok_def .

theorem dcache_invalidate_returns_witness:
  "\<exists>d1. dcache_invalidate (flat_env\<lparr>dcache_line_size := 8\<rparr>) (dcache_init flat_env empty_tree) = Some d1 \<and> line_size d1 = 8"
proof -
  have line: "dcache_line_size flat_env = 2 ^ 2" by (simp add: flat_env_def)
  have env: "env_ok splay_ops (flat_env\<lparr>dcache_line_size := 8\<rparr>)" "dcache_line_size (flat_env\<lparr>dcache_line_size := 8\<rparr>) = 2 ^ 3"
    by (simp_all add: env_ok_def malloc_ok_def flat_env_def)
  show ?thesis using dcache_invalidate_returns [OF new_cache_ok [OF line] env] by auto
qed

text \<open>A line of half the address space of an \<open>int\<close> is not read at all, since its length is negative as an \<open>int\<close>; the read succeeds.\<close>

lemma huge_line_not_read:
  "line_size d = 2 ^ 31 \<Longrightarrow> dcache_read_line env d b = Some (d\<lparr>blocks := (blocks d)(b := blocks d b)\<rparr>, True)"
proof -
  assume l: "line_size d = 2 ^ 31"
  have "to_int (2 ^ 31) = - (2 ^ 31)" by code_simp
  then have "read_line_loop env (blk_addr (blocks d b)) 0 (to_int (line_size d)) (blk_data (blocks d b)) = Some (blk_data (blocks d b), True)"
    unfolding l by (subst read_line_loop.simps) simp
  then show ?thesis by (simp add: dcache_read_line_def)
qed

text \<open>A region that ends within the last line of the address space is read beyond its end, as the end of the line is 0.\<close>

lemma top_line_overrun:
  "region_len (new_mem_region 0 (- 32) default_mem_attrib) (- 64) 64 = 64 \<and> region_len (new_mem_region 0 (- 96) default_mem_attrib) (- 128) 64 = 32"
  by code_simp

end
