(* ===== verification/Target_Memory.thy ===== *)
theory Target_Memory
  imports Dcache_Coherence
begin

text \<open>
  Transfers of target memory (\<^verbatim>\<open>gdb-15.1/gdb/target.c\<close>, \<^verbatim>\<open>target-dcache.c\<close>): the check of the region, the data cache, the stack of
  targets below it, and the loops that read and write whole ranges. The targets themselves, which talk to a process, are parameters.
\<close>

subsection \<open>Targets\<close>

datatype target_object = TARGET_OBJECT_MEMORY | TARGET_OBJECT_RAW_MEMORY | TARGET_OBJECT_STACK_MEMORY | TARGET_OBJECT_CODE_MEMORY

type_synonym xfer_result = "target_xfer_status \<times> uint8 list \<times> nat"

text \<open>
  A target of the stack, over a state \<open>'w\<close> of the debugged system: a read gives a status, the bytes and \<open>*xfered_len\<close>, a write the
  new state, a status and \<open>*xfered_len\<close>. The last argument is the value of \<open>*xfered_len\<close> before the call.
\<close>

record 'w target_ops =
  has_all_memory :: bool
  xfer_read :: "'w \<Rightarrow> CORE_ADDR \<Rightarrow> nat \<Rightarrow> nat \<Rightarrow> xfer_result"
  xfer_write :: "'w \<Rightarrow> CORE_ADDR \<Rightarrow> uint8 list \<Rightarrow> nat \<Rightarrow> 'w \<times> target_xfer_status \<times> nat"

text \<open>
  What a transfer depends on: the targets, from the top, the regions they report, memory allocation, the settings of the cache, the
  current inferior and its process target, the trace frame, the sections of the executable (for unmapped overlays and trusted
  read-only sections), the bits of an address that count, and inserted breakpoints.
\<close>

record 'w memory_ctx =
  target_stack :: "'w target_ops list"
  reported_regions :: "mem_region list"
  ctx_xmalloc :: "nat \<Rightarrow> nat \<Rightarrow> dcache_block"
  ctx_dcache_size :: uint32
  ctx_line_size :: uint32
  stack_cache_enabled :: bool
  code_cache_enabled :: bool
  inferior_ptid :: ptid
  process_target :: "nat option"
  traceframe_number :: int
  exec_sections :: "CORE_ADDR \<Rightarrow> nat \<Rightarrow> xfer_result option"
  remove_non_address_bits :: "CORE_ADDR \<Rightarrow> CORE_ADDR"
  show_memory_breakpoints :: bool
  breakpoint_shadows :: "CORE_ADDR \<Rightarrow> uint8 list \<Rightarrow> uint8 list"
  breakpoint_insns :: "CORE_ADDR \<Rightarrow> uint8 list \<Rightarrow> uint8 list"
  memory_xfer_limit :: nat
  may_write_memory :: bool

record 'w memory_sys =
  sys_world :: 'w
  sys_regions :: mem_state
  sys_cache :: "dcache option"

subsection \<open>The check of the region\<close>

text \<open>The length that may be transferred, or none when the access is not permitted.\<close>

definition memory_xfer_check_region :: "mem_region \<Rightarrow> bool \<Rightarrow> CORE_ADDR \<Rightarrow> nat \<Rightarrow> nat option gdb" where
  "memory_xfer_check_region region write memaddr len =
     (let reg_len = (if memaddr + of_nat len < region_hi region \<or> region_hi region = 0 then len else unat (region_hi region - memaddr)) in
      case access_mode (region_attrib region) of
        MEM_RO \<Rightarrow> if write then Inr None else Inr (Some reg_len)
      | MEM_WO \<Rightarrow> if write then Inr (Some reg_len) else Inr None
      | MEM_FLASH \<Rightarrow> if write then Inl Error else Inr (Some reg_len)
      | MEM_NONE \<Rightarrow> Inr None
      | MEM_RW \<Rightarrow> Inr (Some reg_len))"

subsection \<open>The stack of targets\<close>

definition stops :: "'w target_ops \<Rightarrow> 'w target_ops list \<Rightarrow> target_xfer_status \<Rightarrow> bool" where
  "stops t ts res \<longleftrightarrow> res = TARGET_XFER_OK \<or> res = TARGET_XFER_UNAVAILABLE \<or> has_all_memory t \<or> ts = []"

text \<open>The loop of \<open>raw_memory_xfer_partial\<close>, which goes on to the target beneath.\<close>

fun raw_read :: "'w target_ops list \<Rightarrow> 'w \<Rightarrow> CORE_ADDR \<Rightarrow> nat \<Rightarrow> nat \<Rightarrow> xfer_result" where
  "raw_read [] w memaddr len xfered = (TARGET_XFER_E_IO, [], xfered)"
| "raw_read (t # ts) w memaddr len xfered =
     (let (res, bs, k) = xfer_read t w memaddr len xfered in
      if stops t ts res then (res, bs, k) else raw_read ts w memaddr len k)"

fun raw_write :: "'w target_ops list \<Rightarrow> 'w \<Rightarrow> CORE_ADDR \<Rightarrow> uint8 list \<Rightarrow> nat \<Rightarrow> 'w \<times> target_xfer_status \<times> nat" where
  "raw_write [] w memaddr bs xfered = (w, TARGET_XFER_E_IO, xfered)"
| "raw_write (t # ts) w memaddr bs xfered =
     (let (w1, res, k) = xfer_write t w memaddr bs xfered in
      if stops t ts res then (w1, res, k) else raw_write ts w1 memaddr bs k)"

subsection \<open>Reading a range\<close>

text \<open>
  The loop of \<open>target_read\<close> over a state: the bytes, and the number of units or \<open>TARGET_XFER_E_IO\<close>, which is \<open>- 1\<close>. An
  addressable unit is a byte. \<open>None\<close> is a transfer that does not return.
\<close>

type_synonym 's reader = "'s \<Rightarrow> CORE_ADDR \<Rightarrow> nat \<Rightarrow> ('s \<times> xfer_result) gdb option"

function read_loop :: "'s reader \<Rightarrow> 's \<Rightarrow> CORE_ADDR \<Rightarrow> nat \<Rightarrow> nat \<Rightarrow> uint8 list \<Rightarrow> ('s \<times> uint8 list \<times> int) gdb option" where
  "read_loop xfer s offset len xfered_total buf =
     (if xfered_total < len then
        (case xfer s (offset + of_nat xfered_total) (len - xfered_total) of
           None \<Rightarrow> None
         | Some (Inl e) \<Rightarrow> Some (Inl e)
         | Some (Inr (s1, st, bs, k)) \<Rightarrow>
             if st = TARGET_XFER_EOF then Some (Inr (s1, buf, int xfered_total))
             else if st = TARGET_XFER_OK then
               (if k = 0 then Some (Inl Assertion_failed) else read_loop xfer s1 offset len (xfered_total + k) (buf @ bs))
             else Some (Inr (s1, buf, - 1)))
      else Some (Inr (s, buf, int len)))"
  by pat_completeness auto

termination by (relation "measure (\<lambda>(xfer, s, offset, len, xfered_total, buf). len - xfered_total)") auto

declare read_loop.simps [simp del]

text \<open>The last check of \<open>target_xfer_partial\<close>.\<close>

definition check_progress :: "xfer_result \<Rightarrow> xfer_result gdb" where
  "check_progress r = (case r of (st, bs, k) \<Rightarrow>
     if (st = TARGET_XFER_OK \<or> st = TARGET_XFER_UNAVAILABLE) \<and> k = 0 then Inl Assertion_failed else Inr r)"

text \<open>\<open>target_xfer_partial\<close> for raw memory, which does not change the state.\<close>

definition raw_memory_partial :: "'w memory_ctx \<Rightarrow> mem_state \<Rightarrow> 'w \<Rightarrow> CORE_ADDR \<Rightarrow> nat \<Rightarrow> xfer_result gdb" where
  "raw_memory_partial ctx rs w offset len =
     (if len = 0 then Inr (TARGET_XFER_EOF, [], 0)
      else case memory_xfer_check_region (snd (lookup_mem_region (reported_regions ctx) offset rs)) False offset len of
        Inl e \<Rightarrow> Inl e
      | Inr None \<Rightarrow> Inr (TARGET_XFER_E_IO, [], 0)
      | Inr (Some reg_len) \<Rightarrow> check_progress (raw_read (target_stack ctx) w offset reg_len 0))"

text \<open>
  \<open>target_read_raw_memory\<close>: the bytes put into the buffer, and whether all were read. A failed assertion, which a target that keeps
  to its contract does not cause, counts as a failure.
\<close>

definition target_read_raw_memory :: "'w memory_ctx \<Rightarrow> mem_state \<Rightarrow> 'w \<Rightarrow> CORE_ADDR \<Rightarrow> nat \<Rightarrow> uint8 list \<times> bool" where
  "target_read_raw_memory ctx rs w memaddr len =
     (case read_loop (\<lambda>u offset n. Some (map_sum id (Pair u) (raw_memory_partial ctx rs w offset n))) () memaddr len 0 [] of
        Some (Inr (u, bs, n)) \<Rightarrow> (bs, n = int len)
      | _ \<Rightarrow> ([], False))"

definition cache_env :: "'w memory_ctx \<Rightarrow> mem_state \<Rightarrow> 'w \<Rightarrow> (CORE_ADDR, nat) splay_tree dcache_env" where
  "cache_env ctx rs w = \<lparr>tree_ops = splay_ops, xmalloc = ctx_xmalloc ctx,
     region_of = (\<lambda>a. snd (lookup_mem_region (reported_regions ctx) a rs)), read_raw = target_read_raw_memory ctx rs w,
     dcache_size = ctx_dcache_size ctx, dcache_line_size = ctx_line_size ctx\<rparr>"

subsection \<open>Partial transfers\<close>

definition target_dcache_get_or_init :: "'w memory_ctx \<Rightarrow> 'w memory_sys \<Rightarrow> dcache" where
  "target_dcache_get_or_init ctx sys =
     (case sys_cache sys of Some d \<Rightarrow> d | None \<Rightarrow> dcache_init (cache_env ctx (sys_regions sys) (sys_world sys)) empty_tree)"

definition cached_access :: "'w memory_ctx \<Rightarrow> target_object \<Rightarrow> mem_region \<Rightarrow> bool" where
  "cached_access ctx object region \<longleftrightarrow> inferior_ptid ctx \<noteq> null_ptid \<and> traceframe_number ctx = - 1 \<and>
     (attr_cache (region_attrib region) \<noteq> 0 \<or> stack_cache_enabled ctx \<and> object = TARGET_OBJECT_STACK_MEMORY \<or>
      code_cache_enabled ctx \<and> object = TARGET_OBJECT_CODE_MEMORY)"

definition memory_read_partial_1 :: "'w memory_ctx \<Rightarrow> target_object \<Rightarrow> 'w memory_sys reader" where
  "memory_read_partial_1 ctx object sys memaddr len =
     (case exec_sections ctx memaddr len of
        Some r \<Rightarrow> Some (Inr (sys, r))
      | None \<Rightarrow>
          let (rs, region) = lookup_mem_region (reported_regions ctx) memaddr (sys_regions sys); sys1 = sys\<lparr>sys_regions := rs\<rparr> in
          case memory_xfer_check_region region False memaddr len of
            Inl e \<Rightarrow> Some (Inl e)
          | Inr None \<Rightarrow> Some (Inr (sys1, TARGET_XFER_E_IO, [], 0))
          | Inr (Some reg_len) \<Rightarrow>
              let raw = (\<lambda>a n. raw_read (target_stack ctx) (sys_world sys1) a n 0) in
              if cached_access ctx object region
              then map_option (\<lambda>(d, r). Inr (sys1\<lparr>sys_cache := Some d\<rparr>, r))
                     (dcache_read_memory_partial (cache_env ctx rs (sys_world sys1)) raw (process_target ctx) (inferior_ptid ctx)
                        (target_dcache_get_or_init ctx sys1) memaddr reg_len)
              else Some (Inr (sys1, raw memaddr reg_len)))"

text \<open>A raw write, and the cache that follows it; \<open>*xfered_len\<close> is 0 before, unless a target changes it.\<close>

definition raw_memory_write :: "'w memory_ctx \<Rightarrow> 'w memory_sys \<Rightarrow> CORE_ADDR \<Rightarrow> uint8 list \<Rightarrow> 'w memory_sys \<times> target_xfer_status \<times> nat" where
  "raw_memory_write ctx sys memaddr bs =
     (let (w, res, k) = raw_write (target_stack ctx) (sys_world sys) memaddr bs 0; sys1 = sys\<lparr>sys_world := w\<rparr> in
      (case sys_cache sys1 of
         Some d \<Rightarrow>
           if inferior_ptid ctx \<noteq> null_ptid \<and> (stack_cache_enabled ctx \<or> code_cache_enabled ctx)
           then sys1\<lparr>sys_cache := Some (dcache_update (cache_env ctx (sys_regions sys) w) d res memaddr (take k bs))\<rparr> else sys1
       | None \<Rightarrow> sys1, res, k))"

definition memory_write_partial_1 ::
  "'w memory_ctx \<Rightarrow> 'w memory_sys \<Rightarrow> CORE_ADDR \<Rightarrow> uint8 list \<Rightarrow> ('w memory_sys \<times> target_xfer_status \<times> nat) gdb" where
  "memory_write_partial_1 ctx sys memaddr bs =
     (let (rs, region) = lookup_mem_region (reported_regions ctx) memaddr (sys_regions sys); sys1 = sys\<lparr>sys_regions := rs\<rparr> in
      case memory_xfer_check_region region True memaddr (length bs) of
        Inl e \<Rightarrow> Inl e
      | Inr None \<Rightarrow> Inr (sys1, TARGET_XFER_E_IO, 0)
      | Inr (Some reg_len) \<Rightarrow> Inr (raw_memory_write ctx sys1 memaddr (take reg_len bs)))"

definition memory_read_partial :: "'w memory_ctx \<Rightarrow> target_object \<Rightarrow> 'w memory_sys reader" where
  "memory_read_partial ctx object sys memaddr len =
     (if len = 0 then Some (Inr (sys, TARGET_XFER_EOF, [], 0))
      else let memaddr = remove_non_address_bits ctx memaddr in
        map_option (map_sum id (\<lambda>(sys1, st, bs, k).
            (sys1, st, if st = TARGET_XFER_OK \<and> \<not> show_memory_breakpoints ctx then breakpoint_shadows ctx memaddr bs else bs, k)))
          (memory_read_partial_1 ctx object sys memaddr len))"

definition memory_write_partial ::
  "'w memory_ctx \<Rightarrow> 'w memory_sys \<Rightarrow> CORE_ADDR \<Rightarrow> uint8 list \<Rightarrow> ('w memory_sys \<times> target_xfer_status \<times> nat) gdb" where
  "memory_write_partial ctx sys memaddr writebuf =
     (if writebuf = [] then Inr (sys, TARGET_XFER_EOF, 0)
      else let memaddr = remove_non_address_bits ctx memaddr; buf = breakpoint_insns ctx memaddr (take (memory_xfer_limit ctx) writebuf)
        in memory_write_partial_1 ctx sys memaddr buf)"

definition target_read_partial :: "'w memory_ctx \<Rightarrow> target_object \<Rightarrow> 'w memory_sys reader" where
  "target_read_partial ctx object sys offset len =
     (if len = 0 then Some (Inr (sys, TARGET_XFER_EOF, [], 0))
      else if object = TARGET_OBJECT_RAW_MEMORY
      then Some (map_sum id (Pair (sys\<lparr>sys_regions := fst (lookup_mem_region (reported_regions ctx) offset (sys_regions sys))\<rparr>))
             (raw_memory_partial ctx (sys_regions sys) (sys_world sys) offset len))
      else map_option (\<lambda>r. case r of Inl e \<Rightarrow> Inl e | Inr (sys1, x) \<Rightarrow> map_sum id (Pair sys1) (check_progress x))
             (memory_read_partial ctx object sys offset len))"

definition target_write_partial ::
  "'w memory_ctx \<Rightarrow> target_object \<Rightarrow> 'w memory_sys \<Rightarrow> CORE_ADDR \<Rightarrow> uint8 list \<Rightarrow> ('w memory_sys \<times> target_xfer_status \<times> nat) gdb" where
  "target_write_partial ctx object sys offset bs =
     (if bs = [] then Inr (sys, TARGET_XFER_EOF, 0)
      else if \<not> may_write_memory ctx then Inl Error
      else case
        (if object = TARGET_OBJECT_RAW_MEMORY then memory_write_partial_1 ctx sys offset bs else memory_write_partial ctx sys offset bs) of
          Inl e \<Rightarrow> Inl e
        | Inr (sys1, st, k) \<Rightarrow>
            if (st = TARGET_XFER_OK \<or> st = TARGET_XFER_UNAVAILABLE) \<and> k = 0 then Inl Assertion_failed else Inr (sys1, st, k))"

subsection \<open>Whole transfers\<close>

definition target_read ::
  "'w memory_ctx \<Rightarrow> target_object \<Rightarrow> 'w memory_sys \<Rightarrow> CORE_ADDR \<Rightarrow> nat \<Rightarrow> ('w memory_sys \<times> uint8 list \<times> int) gdb option" where
  "target_read ctx object sys offset len = read_loop (target_read_partial ctx object) sys offset len 0 []"

text \<open>\<open>target_read_memory\<close>, \<open>target_read_stack\<close> and \<open>target_read_code\<close>, by their object.\<close>

definition target_read_memory ::
  "'w memory_ctx \<Rightarrow> target_object \<Rightarrow> 'w memory_sys \<Rightarrow> CORE_ADDR \<Rightarrow> nat \<Rightarrow> ('w memory_sys \<times> uint8 list \<times> int) gdb option" where
  "target_read_memory ctx object sys memaddr len =
     map_option (map_sum id (\<lambda>(sys1, bs, n). (sys1, bs, if n = int len then 0 else - 1))) (target_read ctx object sys memaddr len)"

function write_loop :: "'w memory_ctx \<Rightarrow> target_object \<Rightarrow> 'w memory_sys \<Rightarrow> CORE_ADDR \<Rightarrow> uint8 list \<Rightarrow> nat \<Rightarrow> ('w memory_sys \<times> int) gdb" where
  "write_loop ctx object sys offset bs xfered_total =
     (if xfered_total < length bs then
        (case target_write_partial ctx object sys (offset + of_nat xfered_total) (drop xfered_total bs) of
           Inl e \<Rightarrow> Inl e
         | Inr (sys1, st, k) \<Rightarrow>
             if st \<noteq> TARGET_XFER_OK then Inr (sys1, if st = TARGET_XFER_EOF then int xfered_total else - 1)
             else if k = 0 then Inl Assertion_failed
             else write_loop ctx object sys1 offset bs (xfered_total + k))
      else Inr (sys, int (length bs)))"
  by pat_completeness auto

termination by (relation "measure (\<lambda>(ctx, object, sys, offset, bs, xfered_total). length bs - xfered_total)") auto

declare write_loop.simps [simp del]

text \<open>\<open>target_write_with_progress\<close> and \<open>target_write\<close>; the progress callback only reports.\<close>

definition target_write :: "'w memory_ctx \<Rightarrow> target_object \<Rightarrow> 'w memory_sys \<Rightarrow> CORE_ADDR \<Rightarrow> uint8 list \<Rightarrow> ('w memory_sys \<times> int) gdb" where
  "target_write ctx object sys offset bs = write_loop ctx object sys offset bs 0"

definition target_write_memory :: "'w memory_ctx \<Rightarrow> target_object \<Rightarrow> 'w memory_sys \<Rightarrow> CORE_ADDR \<Rightarrow> uint8 list \<Rightarrow> ('w memory_sys \<times> int) gdb" where
  "target_write_memory ctx object sys memaddr bs =
     map_sum id (\<lambda>(sys1, n). (sys1, if n = int (length bs) then 0 else - 1)) (target_write ctx object sys memaddr bs)"

subsection \<open>Invalidating the cache\<close>

definition target_dcache_invalidate :: "'w memory_ctx \<Rightarrow> 'w memory_sys \<Rightarrow> 'w memory_sys option" where
  "target_dcache_invalidate ctx sys =
     (case sys_cache sys of
        None \<Rightarrow> Some sys
      | Some d \<Rightarrow> map_option (\<lambda>d1. sys\<lparr>sys_cache := Some d1\<rparr>) (dcache_invalidate (cache_env ctx (sys_regions sys) (sys_world sys)) d))"

text \<open>The user turns the cache for the stack or for code on or off.\<close>

definition set_stack_cache :: "bool \<Rightarrow> 'w memory_ctx \<Rightarrow> 'w memory_sys \<Rightarrow> ('w memory_ctx \<times> 'w memory_sys) option" where
  "set_stack_cache on ctx sys =
     map_option (Pair (ctx\<lparr>stack_cache_enabled := on\<rparr>))
       (if stack_cache_enabled ctx \<noteq> on then target_dcache_invalidate ctx sys else Some sys)"

definition set_code_cache :: "bool \<Rightarrow> 'w memory_ctx \<Rightarrow> 'w memory_sys \<Rightarrow> ('w memory_ctx \<times> 'w memory_sys) option" where
  "set_code_cache on ctx sys =
     map_option (Pair (ctx\<lparr>code_cache_enabled := on\<rparr>))
       (if code_cache_enabled ctx \<noteq> on then target_dcache_invalidate ctx sys else Some sys)"

end
