(* ===== verification/Target_Transfers.thy ===== *)
theory Target_Transfers
  imports Target_Memory
begin

text \<open>
  What transfers of target memory promise: with targets that keep to their contract, reads through the cache return the memory, and
  writes reach the memory and leave the cache coherent, provided that one of the caches for the stack and for code is enabled.
\<close>

subsection \<open>The contract of the targets\<close>

definition good_read :: "(CORE_ADDR \<Rightarrow> uint8) \<Rightarrow> CORE_ADDR \<Rightarrow> nat \<Rightarrow> xfer_result \<Rightarrow> bool" where
  "good_read m a n r \<longleftrightarrow> (case r of (st, bs, k) \<Rightarrow>
     (st = TARGET_XFER_OK \<longrightarrow> 0 < k \<and> k \<le> n \<and> length bs = k \<and> (\<forall>i < k. bs ! i = m (a + of_nat i))) \<and>
     (st = TARGET_XFER_UNAVAILABLE \<longrightarrow> 0 < k))"

definition good_write :: "('w \<Rightarrow> CORE_ADDR \<Rightarrow> uint8) \<Rightarrow> 'w \<Rightarrow> CORE_ADDR \<Rightarrow> uint8 list \<Rightarrow> 'w \<times> target_xfer_status \<times> nat \<Rightarrow> bool" where
  "good_write mem_of w a bs r \<longleftrightarrow> (case r of (w1, st, k) \<Rightarrow>
     (if st = TARGET_XFER_OK then 0 < k \<and> k \<le> length bs \<and> mem_of w1 = write_memory a (take k bs) (mem_of w)
      else mem_of w1 = mem_of w \<and> (st = TARGET_XFER_UNAVAILABLE \<longrightarrow> 0 < k)))"

text \<open>
  A successful transfer moves at least one byte and at most as many as are asked for; one that fails leaves memory alone.
\<close>

definition target_ok :: "('w \<Rightarrow> CORE_ADDR \<Rightarrow> uint8) \<Rightarrow> 'w target_ops \<Rightarrow> bool" where
  "target_ok mem_of t \<longleftrightarrow> (\<forall>w a n x. good_read (mem_of w) a n (xfer_read t w a n x)) \<and>
     (\<forall>w a bs x. good_write mem_of w a bs (xfer_write t w a bs x))"

lemma raw_read_good: "\<forall>t \<in> set ts. target_ok mem_of t \<Longrightarrow> good_read (mem_of w) a n (raw_read ts w a n x)"
proof (induction ts arbitrary: x)
  case Nil
  then show ?case by (simp add: good_read_def)
next
  case (Cons t ts)
  then have "good_read (mem_of w) a n (xfer_read t w a n x)" by (simp add: target_ok_def)
  then show ?case using Cons by (simp add: case_prod_beta)
qed

text \<open>The first target may be one that never fails.\<close>

definition steady :: "'w memory_ctx \<Rightarrow> 'w \<Rightarrow> bool" where
  "steady ctx w \<longleftrightarrow> target_stack ctx \<noteq> [] \<and> (\<forall>a n x. 0 < n \<longrightarrow> fst (xfer_read (hd (target_stack ctx)) w a n x) = TARGET_XFER_OK)"

lemma raw_read_steady: "steady ctx w \<Longrightarrow> 0 < n \<Longrightarrow> fst (raw_read (target_stack ctx) w a n x) = TARGET_XFER_OK"
  by (cases "target_stack ctx") (simp_all add: steady_def stops_def case_prod_beta)

lemma raw_write_good: "\<forall>t \<in> set ts. target_ok mem_of t \<Longrightarrow> good_write mem_of w a bs (raw_write ts w a bs x)"
proof (induction ts arbitrary: w x)
  case Nil
  then show ?case by (simp add: good_write_def)
next
  case (Cons t ts)
  obtain w1 st k where t: "xfer_write t w a bs x = (w1, st, k)" by (metis prod_cases3)
  have g: "good_write mem_of w a bs (w1, st, k)" using Cons.prems t unfolding target_ok_def by (metis list.set_intros(1))
  show ?case
  proof (cases "stops t ts st")
    case True
    then show ?thesis using g t by simp
  next
    case False
    then have "mem_of w1 = mem_of w" using g by (simp add: good_write_def stops_def)
    moreover have "good_write mem_of w1 a bs (raw_write ts w1 a bs k)" using Cons by simp
    ultimately have "good_write mem_of w a bs (raw_write ts w1 a bs k)" unfolding good_write_def by (simp only:)
    then show ?thesis using False t by simp
  qed
qed

subsection \<open>Reading in pieces\<close>

text \<open>A reader that keeps an invariant and delivers good pieces.\<close>

lemma read_loop_pieces:
  assumes "\<And>s t. keep s \<Longrightarrow> t < len \<Longrightarrow> \<exists>s1 r. xfer s (offset + of_nat t) (len - t) = Some (Inr (s1, r)) \<and> keep s1 \<and>
      good_read m (offset + of_nat t) (len - t) r \<and> (sure \<longrightarrow> fst r = TARGET_XFER_OK)"
  shows "keep s \<Longrightarrow> t \<le> len \<Longrightarrow> \<exists>s1 vs r. read_loop xfer s offset len t buf = Some (Inr (s1, buf @ vs, r)) \<and> keep s1 \<and>
    length vs \<le> len - t \<and> (\<forall>i < length vs. vs ! i = m (offset + of_nat (t + i))) \<and> (r = - 1 \<or> r = int (t + length vs)) \<and> (sure \<longrightarrow> r = int len)"
proof (induction "len - t" arbitrary: s t buf rule: less_induct)
  case less
  show ?case
  proof (cases "t < len")
    case False
    then show ?thesis using less.prems by (subst read_loop.simps) (auto intro!: exI [of _ "[]"])
  next
    case True
    obtain s1 st bs k where x: "xfer s (offset + of_nat t) (len - t) = Some (Inr (s1, st, bs, k))" "keep s1"
      "good_read m (offset + of_nat t) (len - t) (st, bs, k)" "sure \<longrightarrow> st = TARGET_XFER_OK"
      using assms [OF less.prems(1) True] by (metis prod_cases3 fst_conv)
    show ?thesis
    proof (cases "st = TARGET_XFER_OK")
      case False
      then have "read_loop xfer s offset len t buf = Some (Inr (s1, buf @ [], if st = TARGET_XFER_EOF then int t else - 1))"
        using True x(1) by (subst read_loop.simps) simp
      then show ?thesis using x(2,4) False by (intro exI [of _ s1] exI [of _ "[]"]) auto
    next
      case ok: True
      then have g: "0 < k" "k \<le> len - t" "length bs = k" "\<And>i. i < k \<Longrightarrow> bs ! i = m (offset + of_nat t + of_nat i)"
        using x(3) by (simp_all add: good_read_def)
      obtain s2 vs r where ih: "read_loop xfer s1 offset len (t + k) (buf @ bs) = Some (Inr (s2, (buf @ bs) @ vs, r))" "keep s2"
        "length vs \<le> len - (t + k)" "\<forall>i < length vs. vs ! i = m (offset + of_nat (t + k + i))" "r = - 1 \<or> r = int (t + k + length vs)"
        "sure \<longrightarrow> r = int len"
      proof -
        have "len - (t + k) < len - t" "t + k \<le> len" using g(1,2) True by simp_all
        from less.hyps [OF this(1) x(2) this(2), of "buf @ bs"] show ?thesis using that by blast
      qed
      have e: "read_loop xfer s offset len t buf = Some (Inr (s2, buf @ (bs @ vs), r))"
        using True x(1) ok g(1) ih(1) by (subst read_loop.simps) simp
      have "(bs @ vs) ! i = m (offset + of_nat (t + i))" if "i < length (bs @ vs)" for i
      proof (cases "i < k")
        case True
        then show ?thesis using g(3,4) by (simp add: nth_append add.assoc)
      next
        case False
        have eq: "t + k + (i - k) = t + i" using False by simp
        have "vs ! (i - k) = m (offset + of_nat (t + i))" using ih(4) [rule_format, of "i - k"] that g(3) False unfolding eq by simp
        then show ?thesis using False g(3) by (simp add: nth_append)
      qed
      moreover have "length (bs @ vs) \<le> len - t" using g(2,3) ih(3) by simp
      moreover have "r = - 1 \<or> r = int (t + length (bs @ vs))" using ih(5) g(3) by auto
      ultimately show ?thesis using e ih(2,6) by blast
    qed
  qed
qed

subsection \<open>Regions and the length of a transfer\<close>

definition regions_valid :: "'w memory_ctx \<Rightarrow> mem_state \<Rightarrow> bool" where
  "regions_valid ctx rs \<longleftrightarrow> regions_ok (mem_region_list (require_target_regions (reported_regions ctx) rs))"

text \<open>Reads of an address are permitted.\<close>

definition permitted :: "'w memory_ctx \<Rightarrow> mem_state \<Rightarrow> CORE_ADDR \<Rightarrow> bool" where
  "permitted ctx rs a \<longleftrightarrow> access_mode (region_attrib (snd (lookup_mem_region (reported_regions ctx) a rs))) \<notin> {MEM_WO, MEM_NONE}"

text \<open>A permitted transfer is trimmed to the region of its first byte.\<close>

lemma check_region_read:
  assumes "in_region a r" "0 < n" "unat a + n < 2 ^ 64"
  shows "memory_xfer_check_region r False a n = Inr None \<and> access_mode (region_attrib r) \<in> {MEM_WO, MEM_NONE} \<or>
    (\<exists>k. memory_xfer_check_region r False a n = Inr (Some k) \<and> 0 < k \<and> k \<le> n \<and> access_mode (region_attrib r) \<noteq> MEM_WO \<and>
      (\<forall>i < k. in_region (a + of_nat i) r))"
proof -
  define k where "k = (if a + of_nat n < region_hi r \<or> region_hi r = 0 then n else unat (region_hi r - a))"
  have lo: "region_lo r \<le> a + of_nat i" if "i \<le> n" for i
    using assms(1,3) that unat_add_small [of a i] by (auto simp: in_region_def word_le_nat_alt)
  have "0 < k \<and> k \<le> n \<and> (\<forall>i < k. in_region (a + of_nat i) r)"
  proof (cases "a + of_nat n < region_hi r \<or> region_hi r = 0")
    case True
    have "in_region (a + of_nat i) r" if "i < n" for i
      using lo [of i] that True unat_add_small [of a i] unat_add_small [OF assms(3)] assms(3)
      by (auto simp: in_region_def word_less_nat_alt)
    then show ?thesis using True assms(2) by (simp add: k_def)
  next
    case False
    then have a: "a < region_hi r" "region_hi r \<noteq> 0" using assms(1) by (auto simp: in_region_def)
    then have k: "k = unat (region_hi r) - unat a" using False by (simp add: k_def unat_sub less_imp_le)
    then have b: "0 < k" "k \<le> n" using a False unat_add_small [OF assms(3)] by (simp_all add: word_less_nat_alt)
    have "in_region (a + of_nat i) r" if "i < k" for i
    proof -
      have "unat (a + of_nat i) < unat (region_hi r)" using that b(2) unat_add_small [of a i] assms(3) k by linarith
      then show ?thesis using lo [of i] that b(2) by (simp add: in_region_def word_less_nat_alt)
    qed
    then show ?thesis using b by blast
  qed
  then show ?thesis
    unfolding memory_xfer_check_region_def Let_def k_def [symmetric] by (cases "access_mode (region_attrib r)") auto
qed

text \<open>Raw reads need not stay below the top of the address space, as they stop at no region when their end wraps around.\<close>

lemma raw_partial_good:
  assumes "\<forall>t \<in> set (target_stack ctx). target_ok mem_of t" "regions_valid ctx rs" "0 < n" "n < 2 ^ 64"
  shows "\<exists>r. raw_memory_partial ctx rs w a n = Inr r \<and> good_read (mem_of w) a n r \<and>
    (steady ctx w \<and> permitted ctx rs a \<longrightarrow> fst r = TARGET_XFER_OK)"
proof -
  let ?r = "snd (lookup_mem_region (reported_regions ctx) a rs)"
  have "in_region a ?r" using lookup_contains assms(2) by (simp add: regions_valid_def)
  define k where "k = (if a + of_nat n < region_hi ?r \<or> region_hi ?r = 0 then n else unat (region_hi ?r - a))"
  have k: "k \<le> n \<and> 0 < k"
  proof (cases "a + of_nat n < region_hi ?r \<or> region_hi ?r = 0")
    case False
    then have h: "a < region_hi ?r" "region_hi ?r \<le> a + of_nat n" using \<open>in_region a ?r\<close> by (auto simp: in_region_def)
    have u: "unat (of_nat n :: CORE_ADDR) = n" using assms(4) by (simp add: unsigned_of_nat take_bit_nat_eq_self)
    have "unat (a + of_nat n) \<le> unat a + n" using unat_add_lem [of a "of_nat n"] u by (simp add: unat_plus_if')
    then have "unat (region_hi ?r) \<le> unat a + n" using h(2) by (simp add: word_le_nat_alt)
    then show ?thesis using False h(1) by (simp add: k_def unat_sub less_imp_le word_less_nat_alt)
  qed (simp add: k_def assms(3))
  have g: "good_read (mem_of w) a k (raw_read (target_stack ctx) w a k 0)" by (rule raw_read_good [OF assms(1)])
  obtain st bs j where r: "raw_read (target_stack ctx) w a k 0 = (st, bs, j)" by (metis prod_cases3)
  have g2: "check_progress (st, bs, j) = Inr (st, bs, j) \<and> good_read (mem_of w) a n (st, bs, j)"
    using g k unfolding r by (auto simp: good_read_def check_progress_def)
  have fail: "good_read (mem_of w) a n (TARGET_XFER_E_IO, [], 0)" by (simp add: good_read_def)
  have "steady ctx w \<longrightarrow> st = TARGET_XFER_OK" using raw_read_steady [of ctx w k a 0] k r by simp
  then show ?thesis
    using assms(3) g2 fail r unfolding permitted_def raw_memory_partial_def memory_xfer_check_region_def Let_def k_def [symmetric]
    by (cases "access_mode (region_attrib ?r)") auto
qed

text \<open>So the cache is filled with the memory.\<close>

lemma raw_read_memory:
  assumes "\<forall>t \<in> set (target_stack ctx). target_ok mem_of t" "regions_valid ctx rs"
  shows "reads_memory (cache_env ctx rs w) (mem_of w)"
  unfolding reads_memory_def
proof (intro allI impI)
  fix a :: CORE_ADDR and n :: nat assume n: "n \<le> 2 ^ 30"
  let ?xfer = "\<lambda>u offset n. Some (map_sum id (Pair u) (raw_memory_partial ctx rs w offset n)) :: (unit \<times> xfer_result) gdb option"
  have "\<exists>s1 vs r. read_loop ?xfer () a n 0 [] = Some (Inr (s1, [] @ vs, r)) \<and> True \<and>
    length vs \<le> n - 0 \<and> (\<forall>i < length vs. vs ! i = mem_of w (a + of_nat (0 + i))) \<and> (r = - 1 \<or> r = int (0 + length vs)) \<and> (False \<longrightarrow> r = int n)"
  proof (rule read_loop_pieces [where keep = "\<lambda>u. True"])
    fix s :: unit and t assume "t < n"
    then have "\<exists>r. raw_memory_partial ctx rs w (a + of_nat t) (n - t) = Inr r \<and> good_read (mem_of w) (a + of_nat t) (n - t) r"
    proof -
      have "0 < n - t" "n - t < 2 ^ 64" using \<open>t < n\<close> n by auto
      from raw_partial_good [OF assms this, of w "a + of_nat t"] show ?thesis by blast
    qed
    then show "\<exists>s1 r. ?xfer s (a + of_nat t) (n - t) = Some (Inr (s1, r)) \<and> True \<and> good_read (mem_of w) (a + of_nat t) (n - t) r \<and>
        (False \<longrightarrow> fst r = TARGET_XFER_OK)"
      by auto
  qed simp_all
  then obtain vs r where l: "read_loop ?xfer () a n 0 [] = Some (Inr ((), vs, r))" "length vs \<le> n"
    "\<forall>i < length vs. vs ! i = mem_of w (a + of_nat i)" "r = - 1 \<or> r = int (length vs)" by auto
  have "target_read_raw_memory ctx rs w a n = (vs, r = int n)" unfolding target_read_raw_memory_def l(1) by simp
  then show "let (bs, ok) = read_raw (cache_env ctx rs w) a n in
      length bs \<le> n \<and> (ok \<longrightarrow> length bs = n \<and> (\<forall>i < n. bs ! i = mem_of w (a + of_nat i)))"
    using l(2-4) by (auto simp: cache_env_def)
qed


subsection \<open>The invariant of the system\<close>

definition ctx_ok :: "'w memory_ctx \<Rightarrow> ('w \<Rightarrow> CORE_ADDR \<Rightarrow> uint8) \<Rightarrow> bool" where
  "ctx_ok ctx mem_of \<longleftrightarrow> (\<forall>t \<in> set (target_stack ctx). target_ok mem_of t) \<and>
     (\<forall>b n. length (blk_data (ctx_xmalloc ctx b n)) = n) \<and> ctx_dcache_size ctx \<noteq> 0 \<and>
     (\<exists>n. 1 \<le> n \<and> n \<le> 30 \<and> ctx_line_size ctx = 2 ^ n)"

text \<open>Addresses have no other bits, no section of the executable stands for memory, and no breakpoint is inserted.\<close>

definition plain_ctx :: "'w memory_ctx \<Rightarrow> bool" where
  "plain_ctx ctx \<longleftrightarrow> (\<forall>a n. exec_sections ctx a n = None) \<and> (\<forall>a. remove_non_address_bits ctx a = a) \<and>
     (\<forall>a bs. breakpoint_shadows ctx a bs = bs) \<and> (\<forall>a bs. breakpoint_insns ctx a bs = bs)"

text \<open>The cache follows a write only when one of these caches is enabled.\<close>

definition follows_writes :: "'w memory_ctx \<Rightarrow> bool" where
  "follows_writes ctx \<longleftrightarrow> inferior_ptid ctx \<noteq> null_ptid \<and> (stack_cache_enabled ctx \<or> code_cache_enabled ctx)"

definition cache_valid :: "'w memory_ctx \<Rightarrow> ('w \<Rightarrow> CORE_ADDR \<Rightarrow> uint8) \<Rightarrow> mem_state \<Rightarrow> 'w \<Rightarrow> dcache \<Rightarrow> bool" where
  "cache_valid ctx mem_of rs w d \<longleftrightarrow> (\<exists>ls fs. cache_ok d ls fs \<and> length ls < 2 ^ 32 \<and> tops_ok (cache_env ctx rs w) d \<and>
     (process_target ctx = proc_target d \<and> inferior_ptid ctx = dc_ptid d \<longrightarrow> coherent (cache_env ctx rs w) (mem_of w) d ls))"

definition sys_ok :: "'w memory_ctx \<Rightarrow> ('w \<Rightarrow> CORE_ADDR \<Rightarrow> uint8) \<Rightarrow> 'w memory_sys \<Rightarrow> bool" where
  "sys_ok ctx mem_of sys \<longleftrightarrow> regions_valid ctx (sys_regions sys) \<and>
     (\<forall>a. region_hi (snd (lookup_mem_region (reported_regions ctx) a (sys_regions sys))) = 0 \<or>
       unat (region_hi (snd (lookup_mem_region (reported_regions ctx) a (sys_regions sys)))) + unat (ctx_line_size ctx) \<le> 2 ^ 64) \<and>
     (case sys_cache sys of None \<Rightarrow> True | Some d \<Rightarrow> cache_valid ctx mem_of (sys_regions sys) (sys_world sys) d)"

lemma cache_env_simps [simp]:
  "region_of (cache_env ctx rs w) a = snd (lookup_mem_region (reported_regions ctx) a rs)"
  "tree_ops (cache_env ctx rs w) = splay_ops" "dcache_size (cache_env ctx rs w) = ctx_dcache_size ctx"
  "dcache_line_size (cache_env ctx rs w) = ctx_line_size ctx" "xmalloc (cache_env ctx rs w) = ctx_xmalloc ctx"
  by (simp_all add: cache_env_def)

lemma cache_env_ok: "ctx_ok ctx mem_of \<Longrightarrow> env_ok splay_ops (cache_env ctx rs w)"
  by (simp add: ctx_ok_def env_ok_def malloc_ok_def)

lemma regions_tile_env: "regions_valid ctx rs \<Longrightarrow> regions_tile (cache_env ctx rs w)"
  using lookup_contains lookup_alike by (auto simp: regions_valid_def regions_tile_def readable_def)

text \<open>The environment of the cache depends on the regions after the lookup, and its regions not on the memory.\<close>

lemma readable_env: "readable (cache_env ctx rs w) = readable (cache_env ctx rs w1)"
  by (simp add: readable_def fun_eq_iff)

lemma coherent_env: "coherent (cache_env ctx rs w) m = coherent (cache_env ctx rs w1) m"
  by (simp add: coherent_def coherent_line_def fun_eq_iff readable_env [of ctx rs w w1])

lemma tops_env: "tops_ok (cache_env ctx rs w) = tops_ok (cache_env ctx rs w1)"
  by (simp add: tops_ok_def fun_eq_iff)

lemma lookup_state: "lookup_mem_region reported a st = (require_target_regions reported st, snd (lookup_mem_region reported a st))"
  by (simp add: lookup_mem_region_def Let_def)

lemma fst_lookup: "fst (lookup_mem_region reported a st) = require_target_regions reported st"
  by (simp add: lookup_mem_region_def Let_def)

lemma required_env:
  "readable (cache_env ctx (require_target_regions (reported_regions ctx) rs) w) = readable (cache_env ctx rs w)"
  "coherent (cache_env ctx (require_target_regions (reported_regions ctx) rs) w) m = coherent (cache_env ctx rs w) m"
  "tops_ok (cache_env ctx (require_target_regions (reported_regions ctx) rs) w) = tops_ok (cache_env ctx rs w)"
  by (simp_all add: fun_eq_iff readable_def coherent_def coherent_line_def tops_ok_def lookup_twice)

lemma sys_ok_required:
  "sys_ok ctx mem_of sys \<Longrightarrow> sys_ok ctx mem_of (sys\<lparr>sys_regions := require_target_regions (reported_regions ctx) (sys_regions sys)\<rparr>)"
  by (simp add: sys_ok_def regions_valid_def require_target_twice lookup_twice cache_valid_def required_env split: option.splits)

lemma the_cache_valid:
  assumes "sys_ok ctx mem_of sys" "ctx_ok ctx mem_of"
  shows "cache_valid ctx mem_of (sys_regions sys) (sys_world sys) (target_dcache_get_or_init ctx sys)"
proof (cases "sys_cache sys")
  case None
  obtain n where n: "1 \<le> n" "n \<le> 30" "ctx_line_size ctx = 2 ^ n" using assms(2) by (auto simp: ctx_ok_def)
  let ?env = "cache_env ctx (sys_regions sys) (sys_world sys)"
  have e: "dcache_line_size ?env = 2 ^ n" using n(3) by simp
  have "unat (ctx_line_size ctx) = 2 ^ n" "ucast (ctx_line_size ctx) = (2 :: 64 word) ^ n"
    using line_size_cast [OF e n(2)] by simp_all
  moreover have "unat ((2 :: 64 word) ^ n) = 2 ^ n"
  proof -
    have "(2::nat) ^ n \<le> 2 ^ 30" by (rule power_increasing) (use n(2) in auto)
    then have "(2::nat) ^ n < 2 ^ 64" by simp
    then have "unat (of_nat (2 ^ n) :: 64 word) = 2 ^ n" unfolding unsigned_of_nat by (subst take_bit_nat_eq_self) simp_all
    then show ?thesis by simp
  qed
  ultimately have "unat (line_size (dcache_init ?env empty_tree)) = unat (ctx_line_size ctx)" by (simp add: dcache_init_def)
  then have "tops_ok ?env (dcache_init ?env empty_tree)" using assms(1) by (simp add: tops_ok_def sys_ok_def)
  then show ?thesis
    unfolding cache_valid_def using new_cache_ok [OF e n(1,2)] None
    by (intro exI [of _ "[]"]) (simp add: target_dcache_get_or_init_def coherent_def)
next
  case (Some d)
  then show ?thesis using assms(1) by (simp add: sys_ok_def target_dcache_get_or_init_def)
qed

subsection \<open>Reads\<close>

lemma read_partial_good:
  assumes ctx: "ctx_ok ctx mem_of" "plain_ctx ctx" and sys: "sys_ok ctx mem_of sys" and n: "0 < n" "unat a + n < 2 ^ 64"
  shows "\<exists>sys1 r. memory_read_partial_1 ctx object sys a n = Some (Inr (sys1, r)) \<and> sys_ok ctx mem_of sys1 \<and> sys_world sys1 = sys_world sys \<and>
    sys_regions sys1 = require_target_regions (reported_regions ctx) (sys_regions sys) \<and> good_read (mem_of (sys_world sys)) a n r \<and>
    (steady ctx (sys_world sys) \<and> permitted ctx (sys_regions sys) a \<longrightarrow> fst r = TARGET_XFER_OK)"
proof -
  let ?rs = "require_target_regions (reported_regions ctx) (sys_regions sys)"
  let ?region = "snd (lookup_mem_region (reported_regions ctx) a (sys_regions sys))"
  let ?sys1 = "sys\<lparr>sys_regions := ?rs\<rparr>"
  let ?w = "sys_world sys"
  let ?env = "cache_env ctx ?rs ?w"
  have sys1: "sys_ok ctx mem_of ?sys1" by (rule sys_ok_required [OF sys])
  then have rv: "regions_valid ctx ?rs" by (simp add: sys_ok_def)
  have inr: "in_region a ?region" using lookup_contains sys by (simp add: sys_ok_def regions_valid_def)
  have none: "exec_sections ctx a n = None" using ctx(2) by (simp add: plain_ctx_def)
  have stack: "\<forall>t \<in> set (target_stack ctx). target_ok mem_of t" using ctx(1) by (simp add: ctx_ok_def)
  from check_region_read [OF inr n] show ?thesis
  proof
    assume no: "memory_xfer_check_region ?region False a n = Inr None \<and> access_mode (region_attrib ?region) \<in> {MEM_WO, MEM_NONE}"
    then have "memory_read_partial_1 ctx object sys a n = Some (Inr (?sys1, TARGET_XFER_E_IO, [], 0))"
      unfolding memory_read_partial_1_def none by (subst lookup_state) simp
    then show ?thesis using sys1 no by (simp add: good_read_def permitted_def)
  next
    assume "\<exists>k. memory_xfer_check_region ?region False a n = Inr (Some k) \<and> 0 < k \<and> k \<le> n \<and> access_mode (region_attrib ?region) \<noteq> MEM_WO \<and>
      (\<forall>i < k. in_region (a + of_nat i) ?region)"
    then obtain k where k: "memory_xfer_check_region ?region False a n = Inr (Some k)" "0 < k" "k \<le> n"
      "access_mode (region_attrib ?region) \<noteq> MEM_WO" "\<forall>i < k. in_region (a + of_nat i) ?region" by blast
    have rd: "readable ?env (a + of_nat i)" if "i < k" for i
      using lookup_alike [OF sys [unfolded sys_ok_def regions_valid_def, THEN conjunct1], of "a + of_nat i" a] k(4,5) that
      by (simp add: readable_def lookup_twice)
    have raw: "good_read (mem_of ?w) a n (raw_read (target_stack ctx) ?w a k 0)"
      using raw_read_good [OF stack, of ?w a k 0] k(3) by (auto simp: good_read_def)
    have firm: "steady ctx ?w \<longrightarrow> fst (raw_read (target_stack ctx) ?w a k 0) = TARGET_XFER_OK"
      using raw_read_steady [of ctx ?w k a 0] k(2) by simp
    show ?thesis
    proof (cases "cached_access ctx object ?region")
      case False
      then have "memory_read_partial_1 ctx object sys a n = Some (Inr (?sys1, raw_read (target_stack ctx) ?w a k 0))"
        unfolding memory_read_partial_1_def none by (subst lookup_state) (simp add: k(1))
      then show ?thesis using sys1 raw firm by simp
    next
      case True
      let ?raw = "\<lambda>a n. raw_read (target_stack ctx) ?w a n 0"
      let ?d = "target_dcache_get_or_init ctx ?sys1"
      have e: "memory_read_partial_1 ctx object sys a n =
          map_option (\<lambda>(d, r). Inr (?sys1\<lparr>sys_cache := Some d\<rparr>, r))
            (dcache_read_memory_partial ?env ?raw (process_target ctx) (inferior_ptid ctx) ?d a k)"
        unfolding memory_read_partial_1_def none by (subst lookup_state) (simp add: k(1) True Let_def)
      obtain ls fs where d: "cache_ok ?d ls fs" "length ls < 2 ^ 32" "tops_ok ?env ?d"
        "process_target ctx = proc_target ?d \<and> inferior_ptid ctx = dc_ptid ?d \<longrightarrow> coherent ?env (mem_of ?w) ?d ls"
        using the_cache_valid [OF sys1 ctx(1)] unfolding cache_valid_def by auto
      obtain m where m: "1 \<le> m" "m \<le> 30" "dcache_line_size ?env = 2 ^ m" using ctx(1) by (auto simp: ctx_ok_def)
      obtain d1 st vs j ls1 fs1 where r: "dcache_read_memory_partial ?env ?raw (process_target ctx) (inferior_ptid ctx) ?d a k = Some (d1, st, vs, j)"
        "cache_ok d1 ls1 fs1" "coherent ?env (mem_of ?w) d1 ls1" "length ls1 \<le> max (length ls) (unat (dcache_size ?env))" "tops_ok ?env d1"
        "(st, vs, j) = ?raw a k \<or> st = TARGET_XFER_OK \<and> j = length vs \<and> 0 < j \<and> j \<le> k \<and>
          (\<forall>i < j. readable ?env (a + of_nat i) \<longrightarrow> vs ! i = mem_of ?w (a + of_nat i))"
        using dc.read_partial_spec [OF d(1) [unfolded cache_ok_def] cache_env_ok [OF ctx(1)] regions_tile_env [OF rv]
            raw_read_memory [OF stack rv] d(3,2) mp [OF d(4)] m(3,1,2), where raw_xfer = ?raw and a = a and len = k]
        unfolding cache_ok_def by blast
      have "unat (dcache_size ?env) < 2 ^ 32" using unat_bound [of "dcache_size ?env"] by simp
      then have "length ls1 < 2 ^ 32" using r(4) d(2) by linarith
      then have "cache_valid ctx mem_of ?rs ?w d1" unfolding cache_valid_def using r(2,3,5) by blast
      then have "sys_ok ctx mem_of (?sys1\<lparr>sys_cache := Some d1\<rparr>)" using sys1 by (simp add: sys_ok_def)
      moreover have "good_read (mem_of ?w) a n (st, vs, j) \<and> (steady ctx ?w \<longrightarrow> st = TARGET_XFER_OK)" using r(6)
      proof
        assume "(st, vs, j) = ?raw a k"
        then show ?thesis using raw firm by (metis fst_conv)
      next
        assume j: "st = TARGET_XFER_OK \<and> j = length vs \<and> 0 < j \<and> j \<le> k \<and>
          (\<forall>i < j. readable ?env (a + of_nat i) \<longrightarrow> vs ! i = mem_of ?w (a + of_nat i))"
        then have "vs ! i = mem_of ?w (a + of_nat i)" if "i < j" for i using rd [of i] that by simp
        then show ?thesis using j k(3) unfolding good_read_def by (auto simp del: length_greater_0_conv)
      qed
      ultimately show ?thesis using e r(1) by simp
    qed
  qed
qed

lemma target_partial_good:
  assumes ctx: "ctx_ok ctx mem_of" "plain_ctx ctx" and sys: "sys_ok ctx mem_of sys" and n: "0 < n" "unat a + n < 2 ^ 64"
  shows "\<exists>sys1 r. target_read_partial ctx object sys a n = Some (Inr (sys1, r)) \<and> sys_ok ctx mem_of sys1 \<and> sys_world sys1 = sys_world sys \<and>
    sys_regions sys1 = require_target_regions (reported_regions ctx) (sys_regions sys) \<and> good_read (mem_of (sys_world sys)) a n r \<and>
    (steady ctx (sys_world sys) \<and> permitted ctx (sys_regions sys) a \<longrightarrow> fst r = TARGET_XFER_OK)"
proof (cases "object = TARGET_OBJECT_RAW_MEMORY")
  case True
  have "\<exists>r. raw_memory_partial ctx (sys_regions sys) (sys_world sys) a n = Inr r \<and> good_read (mem_of (sys_world sys)) a n r \<and>
      (steady ctx (sys_world sys) \<and> permitted ctx (sys_regions sys) a \<longrightarrow> fst r = TARGET_XFER_OK)"
    by (rule raw_partial_good) (use ctx sys n in \<open>simp_all add: ctx_ok_def sys_ok_def\<close>)
  then show ?thesis using True n(1) sys_ok_required [OF sys] by (auto simp: target_read_partial_def fst_lookup)
next
  case False
  obtain sys1 st bs k where r: "memory_read_partial_1 ctx object sys a n = Some (Inr (sys1, st, bs, k))" "sys_ok ctx mem_of sys1"
    "sys_world sys1 = sys_world sys" "good_read (mem_of (sys_world sys)) a n (st, bs, k)"
    "sys_regions sys1 = require_target_regions (reported_regions ctx) (sys_regions sys)"
    "steady ctx (sys_world sys) \<and> permitted ctx (sys_regions sys) a \<longrightarrow> st = TARGET_XFER_OK"
    using read_partial_good [OF ctx sys n] by (metis prod_cases3 fst_conv)
  have "memory_read_partial ctx object sys a n = Some (Inr (sys1, st, bs, k))"
    using r(1) n(1) ctx(2) by (simp add: memory_read_partial_def plain_ctx_def)
  moreover have "check_progress (st, bs, k) = Inr (st, bs, k)" using r(4) by (auto simp: check_progress_def good_read_def)
  ultimately show ?thesis using r(2-6) n(1) False by (simp add: target_read_partial_def)
qed

lemma target_read_pieces:
  assumes ctx: "ctx_ok ctx mem_of" "plain_ctx ctx" and sys: "sys_ok ctx mem_of sys" and n: "unat a + n < 2 ^ 64"
  shows "\<exists>sys1 vs r. target_read ctx object sys a n = Some (Inr (sys1, vs, r)) \<and> sys_ok ctx mem_of sys1 \<and> sys_world sys1 = sys_world sys \<and>
    length vs \<le> n \<and> (\<forall>i < length vs. vs ! i = mem_of (sys_world sys) (a + of_nat i)) \<and> (r = - 1 \<or> r = int (length vs)) \<and>
    (steady ctx (sys_world sys) \<and> (\<forall>i < n. permitted ctx (sys_regions sys) (a + of_nat i)) \<longrightarrow> r = int n)"
proof -
  let ?keep = "\<lambda>s. sys_ok ctx mem_of s \<and> sys_world s = sys_world sys \<and> permitted ctx (sys_regions s) = permitted ctx (sys_regions sys)"
  let ?sure = "steady ctx (sys_world sys) \<and> (\<forall>i < n. permitted ctx (sys_regions sys) (a + of_nat i))"
  have "\<exists>s1 vs r. read_loop (target_read_partial ctx object) sys a n 0 [] = Some (Inr (s1, [] @ vs, r)) \<and> ?keep s1 \<and>
    length vs \<le> n - 0 \<and> (\<forall>i < length vs. vs ! i = mem_of (sys_world sys) (a + of_nat (0 + i))) \<and> (r = - 1 \<or> r = int (0 + length vs)) \<and> (?sure \<longrightarrow> r = int n)"
  proof (rule read_loop_pieces [where keep = ?keep])
    fix s t assume s: "?keep s" and t: "t < n"
    have "unat (a + of_nat t) = unat a + t" using unat_add_small [of a t] n t by simp
    then have "unat (a + of_nat t) + (n - t) < 2 ^ 64" using n t by simp
    from target_partial_good [OF ctx _ _ this, of s object] s t obtain s1 r where
      r: "target_read_partial ctx object s (a + of_nat t) (n - t) = Some (Inr (s1, r))" "sys_ok ctx mem_of s1" "sys_world s1 = sys_world s"
        "sys_regions s1 = require_target_regions (reported_regions ctx) (sys_regions s)"
        "good_read (mem_of (sys_world sys)) (a + of_nat t) (n - t) r"
        "steady ctx (sys_world sys) \<and> permitted ctx (sys_regions s) (a + of_nat t) \<longrightarrow> fst r = TARGET_XFER_OK" by auto
    have "permitted ctx (sys_regions s1) = permitted ctx (sys_regions sys)"
      using s r(4) by (simp add: permitted_def fun_eq_iff lookup_twice)
    then show "\<exists>s1 r. target_read_partial ctx object s (a + of_nat t) (n - t) = Some (Inr (s1, r)) \<and> ?keep s1 \<and>
        good_read (mem_of (sys_world sys)) (a + of_nat t) (n - t) r \<and> (?sure \<longrightarrow> fst r = TARGET_XFER_OK)"
      using r(1-3,5,6) s t by (intro exI [of _ s1] exI [of _ r]) simp
  qed (use sys in simp_all)
  then obtain s1 vs r where "read_loop (target_read_partial ctx object) sys a n 0 [] = Some (Inr (s1, [] @ vs, r))" "?keep s1"
    "length vs \<le> n - 0" "\<forall>i < length vs. vs ! i = mem_of (sys_world sys) (a + of_nat (0 + i))"
    "r = - 1 \<or> r = int (0 + length vs)" "?sure \<longrightarrow> r = int n" by blast
  then show ?thesis by (intro exI [of _ s1] exI [of _ vs] exI [of _ r]) (simp add: target_read_def)
qed


text \<open>A flat memory as the only target, with both caches on and without regions.\<close>

definition flat_target :: "(CORE_ADDR \<Rightarrow> uint8) target_ops" where
  "flat_target = \<lparr>has_all_memory = True,
     xfer_read = (\<lambda>w a n x. if n = 0 then (TARGET_XFER_EOF, [], 0) else (TARGET_XFER_OK, map (\<lambda>i. w (a + of_nat i)) [0..<n], n)),
     xfer_write = (\<lambda>w a bs x. if bs = [] then (w, TARGET_XFER_EOF, 0) else (write_memory a bs w, TARGET_XFER_OK, length bs))\<rparr>"

definition flat_ctx :: "(CORE_ADDR \<Rightarrow> uint8) memory_ctx" where
  "flat_ctx = \<lparr>target_stack = [flat_target], reported_regions = [], ctx_xmalloc = xmalloc flat_env, ctx_dcache_size = 4096,
     ctx_line_size = 64, stack_cache_enabled = True, code_cache_enabled = True, inferior_ptid = (7, 7, 0), process_target = Some 1,
     traceframe_number = - 1, exec_sections = (\<lambda>a n. None), remove_non_address_bits = id, show_memory_breakpoints = False,
     breakpoint_shadows = (\<lambda>a bs. bs), breakpoint_insns = (\<lambda>a bs. bs), memory_xfer_limit = 4096, may_write_memory = True\<rparr>"

definition flat_sys :: "(CORE_ADDR \<Rightarrow> uint8) \<Rightarrow> (CORE_ADDR \<Rightarrow> uint8) memory_sys" where
  "flat_sys w = \<lparr>sys_world = w, sys_regions = \<lparr>user_mem_region_list = [], target_mem_region_list = [], mem_use_target = True,
     mem_number = 0, target_mem_regions_valid = False, inaccessible_by_default = True\<rparr>, sys_cache = None\<rparr>"

lemma flat_ctx_ok: "ctx_ok flat_ctx id" "plain_ctx flat_ctx" "follows_writes flat_ctx" "steady flat_ctx w"
proof -
  show "ctx_ok flat_ctx id"
    unfolding ctx_ok_def
    by (auto simp: flat_ctx_def flat_target_def target_ok_def good_read_def good_write_def flat_env_def intro: exI [of _ 6])
qed (simp_all add: plain_ctx_def follows_writes_def steady_def flat_ctx_def flat_target_def null_ptid_def)

lemma flat_world [simp]: "sys_world (flat_sys w) = w"
  by (simp add: flat_sys_def)

lemma flat_lookup:
  "lookup_mem_region (reported_regions flat_ctx) a (sys_regions (flat_sys w)) =
     ((sys_regions (flat_sys w))\<lparr>target_mem_regions_valid := True\<rparr>, new_mem_region 0 0 default_mem_attrib)"
  by (simp add: lookup_mem_region_def require_target_regions_def target_memory_map_def flat_ctx_def flat_sys_def mem_region_list_def Let_def)

lemma flat_sys_ok: "sys_ok flat_ctx id (flat_sys w)" "permitted flat_ctx (sys_regions (flat_sys w)) a"
proof -
  have "regions_valid flat_ctx (sys_regions (flat_sys w))"
    by (simp add: regions_valid_def regions_ok_def require_target_regions_def target_memory_map_def mem_region_list_def flat_ctx_def flat_sys_def)
  then show "sys_ok flat_ctx id (flat_sys w)" unfolding sys_ok_def flat_lookup by (simp add: new_mem_region_def flat_sys_def)
  show "permitted flat_ctx (sys_regions (flat_sys w)) a"
    unfolding permitted_def flat_lookup by (simp add: new_mem_region_def default_mem_attrib_def)
qed



subsection \<open>Writes\<close>

lemma cache_valid_update:
  assumes ctx: "ctx_ok ctx mem_of" and d: "cache_valid ctx mem_of rs w d" and good: "good_write mem_of w a bs (w1, st, k)"
  shows "cache_valid ctx mem_of rs w1 (dcache_update (cache_env ctx rs w1) d st a (take k bs))"
proof -
  let ?env = "cache_env ctx rs w1"
  let ?d1 = "dcache_update ?env d st a (take k bs)"
  obtain ls fs where c: "cache_ok d ls fs" "length ls < 2 ^ 32" "tops_ok ?env d"
    "process_target ctx = proc_target d \<and> inferior_ptid ctx = dc_ptid d \<longrightarrow> coherent ?env (mem_of w) d ls"
    using d coherent_env [of ctx rs w _ w1] tops_env [of ctx rs w w1] unfolding cache_valid_def by auto
  note lo = c(1) [unfolded cache_ok_def]
  note env = cache_env_ok [OF ctx, of rs w1]
  obtain m where own: "process_target ctx = proc_target d \<and> inferior_ptid ctx = dc_ptid d \<Longrightarrow> m = mem_of w" "coherent ?env m d ls"
  proof (cases "process_target ctx = proc_target d \<and> inferior_ptid ctx = dc_ptid d")
    case True
    then show ?thesis using that [of "mem_of w"] c(4) by simp
  next
    case False
    have "coherent ?env (\<lambda>x. data_at d (the (splay_content (dtree d) (MASK d x))) x) d ls"
      unfolding coherent_def coherent_line_def
    proof (intro ballI allI impI)
      fix b i assume b: "b \<in> set ls" "i < unat (line_size d)"
      note l = lines_okD [OF lo]
      have off: "MASK d (blk_addr (blocks d b) + of_nat i) = blk_addr (blocks d b)" "unat (XFORM d (blk_addr (blocks d b) + of_nat i)) = i"
        using line_offset [OF l(2) l(7) [OF b(1)] b(2)] by simp_all
      have "splay_content (dtree d) (blk_addr (blocks d b)) = Some b" using l(8) b(1) by simp
      then show "blk_data (blocks d b) ! i = data_at d (the (splay_content (dtree d) (MASK d (blk_addr (blocks d b) + of_nat i)))) (blk_addr (blocks d b) + of_nat i)"
        using off by (simp add: data_at_def)
    qed
    then show ?thesis using that False by blast
  qed
  have "\<exists>ls1 fs1. cache_ok ?d1 ls1 fs1 \<and> same_frame d ?d1 \<and> length ls1 \<le> length ls \<and>
    (m = mem_of w \<longrightarrow> coherent ?env (mem_of w1) ?d1 ls1)"
  proof (cases "st = TARGET_XFER_OK")
    case True
    then have "mem_of w1 = write_memory a (take k bs) (mem_of w)" using good by (simp add: good_write_def)
    then show ?thesis using dc.update_written [OF lo env own(2), of a "take k bs"] True unfolding cache_ok_def by auto
  next
    case False
    then have "mem_of w1 = mem_of w" using good by (simp add: good_write_def)
    then show ?thesis using dc.update_discarded [OF lo env own(2) False, of a "take k bs" m] unfolding cache_ok_def by auto
  qed
  then obtain ls1 fs1 where u: "cache_ok ?d1 ls1 fs1" "same_frame d ?d1" "length ls1 \<le> length ls"
    "m = mem_of w \<longrightarrow> coherent ?env (mem_of w1) ?d1 ls1" by blast
  have "tops_ok ?env ?d1" using c(3) u(2) by (simp add: tops_ok_def same_frame_def)
  moreover have "process_target ctx = proc_target ?d1 \<and> inferior_ptid ctx = dc_ptid ?d1 \<longrightarrow> coherent ?env (mem_of w1) ?d1 ls1"
    using u(2,4) own(1) by (simp add: same_frame_def)
  ultimately show ?thesis unfolding cache_valid_def using u(1,3) c(2) by (meson le_less_trans)
qed

lemma raw_write_ok:
  assumes ctx: "ctx_ok ctx mem_of" "follows_writes ctx" and sys: "sys_ok ctx mem_of sys"
    and r: "raw_memory_write ctx sys a bs = (sys1, st, k)"
  shows "sys_ok ctx mem_of sys1 \<and> good_write mem_of (sys_world sys) a bs (sys_world sys1, st, k) \<and> sys_regions sys1 = sys_regions sys"
proof -
  obtain w st1 k1 where w: "raw_write (target_stack ctx) (sys_world sys) a bs 0 = (w, st1, k1)" by (metis prod_cases3)
  have "\<forall>t \<in> set (target_stack ctx). target_ok mem_of t" using ctx(1) by (simp add: ctx_ok_def)
  then have good: "good_write mem_of (sys_world sys) a bs (w, st1, k1)" using raw_write_good w by metis
  show ?thesis
  proof (cases "sys_cache sys")
    case None
    then have "sys1 = sys\<lparr>sys_world := w\<rparr>" "st = st1" "k = k1" using r w by (simp_all add: raw_memory_write_def)
    then show ?thesis using good sys None by (simp add: sys_ok_def)
  next
    case (Some d)
    let ?d1 = "dcache_update (cache_env ctx (sys_regions sys) w) d st1 a (take k1 bs)"
    have "sys1 = sys\<lparr>sys_world := w, sys_cache := Some ?d1\<rparr>" "st = st1" "k = k1"
      using r w Some ctx(2) by (auto simp: raw_memory_write_def follows_writes_def)
    moreover have "cache_valid ctx mem_of (sys_regions sys) w ?d1"
      by (rule cache_valid_update [OF ctx(1) _ good]) (use sys Some in \<open>simp add: sys_ok_def\<close>)
    ultimately show ?thesis using good sys by (simp add: sys_ok_def)
  qed
qed

lemma check_region_write:
  "memory_xfer_check_region r True a n = Inl Error \<or> memory_xfer_check_region r True a n = Inr None \<or>
   (\<exists>k. memory_xfer_check_region r True a n = Inr (Some k))"
  by (cases "access_mode (region_attrib r)") (auto simp: memory_xfer_check_region_def Let_def)

lemma good_write_take:
  "good_write mem_of w a (take n bs) r \<Longrightarrow> good_write mem_of w a bs r"
  by (auto simp: good_write_def split: prod.splits if_splits)

lemma write_partial_1_ok:
  assumes ctx: "ctx_ok ctx mem_of" "follows_writes ctx" and sys: "sys_ok ctx mem_of sys"
    and r: "memory_write_partial_1 ctx sys a bs = Inr (sys1, st, k)"
  shows "sys_ok ctx mem_of sys1 \<and> good_write mem_of (sys_world sys) a bs (sys_world sys1, st, k)"
proof -
  let ?rs = "require_target_regions (reported_regions ctx) (sys_regions sys)"
  let ?region = "snd (lookup_mem_region (reported_regions ctx) a (sys_regions sys))"
  let ?sys1 = "sys\<lparr>sys_regions := ?rs\<rparr>"
  have s: "sys_ok ctx mem_of ?sys1" by (rule sys_ok_required [OF sys])
  have e: "memory_write_partial_1 ctx sys a bs = (case memory_xfer_check_region ?region True a (length bs) of
        Inl e \<Rightarrow> Inl e | Inr None \<Rightarrow> Inr (?sys1, TARGET_XFER_E_IO, 0)
      | Inr (Some reg_len) \<Rightarrow> Inr (raw_memory_write ctx ?sys1 a (take reg_len bs)))"
    unfolding memory_write_partial_1_def by (subst lookup_state) (simp add: Let_def)
  from check_region_write [of ?region a "length bs"] show ?thesis
  proof (elim disjE exE)
    assume "memory_xfer_check_region ?region True a (length bs) = Inl Error"
    then show ?thesis using r e by simp
  next
    assume "memory_xfer_check_region ?region True a (length bs) = Inr None"
    then show ?thesis using r e s by (auto simp: good_write_def)
  next
    fix n assume "memory_xfer_check_region ?region True a (length bs) = Inr (Some n)"
    then have "raw_memory_write ctx ?sys1 a (take n bs) = (sys1, st, k)" using r e by simp
    from raw_write_ok [OF ctx s this] show ?thesis using good_write_take by auto
  qed
qed

lemma target_write_partial_ok:
  assumes ctx: "ctx_ok ctx mem_of" "plain_ctx ctx" "follows_writes ctx" and sys: "sys_ok ctx mem_of sys"
    and r: "target_write_partial ctx object sys a bs = Inr (sys1, st, k)"
  shows "sys_ok ctx mem_of sys1 \<and> good_write mem_of (sys_world sys) a bs (sys_world sys1, st, k)"
proof (cases "bs = []")
  case True
  then show ?thesis using r sys by (auto simp: target_write_partial_def good_write_def)
next
  case False
  show ?thesis
  proof (cases "object = TARGET_OBJECT_RAW_MEMORY")
    case True
    then have "memory_write_partial_1 ctx sys a bs = Inr (sys1, st, k)"
      using r False by (auto simp: target_write_partial_def split: if_splits sum.splits)
    then show ?thesis by (rule write_partial_1_ok [OF ctx(1,3) sys])
  next
    case o: False
    then have "memory_write_partial ctx sys a bs = Inr (sys1, st, k)"
      using r False by (auto simp: target_write_partial_def split: if_splits sum.splits)
    then have "memory_write_partial_1 ctx sys a (take (memory_xfer_limit ctx) bs) = Inr (sys1, st, k)"
      using False ctx(2) by (simp add: memory_write_partial_def plain_ctx_def)
    from write_partial_1_ok [OF ctx(1,3) sys this] have x: "sys_ok ctx mem_of sys1"
      "good_write mem_of (sys_world sys) a (take (memory_xfer_limit ctx) bs) (sys_world sys1, st, k)" by blast+
    show ?thesis using x(1) good_write_take [OF x(2)] by simp
  qed
qed

lemma write_memory_append: "write_memory a (xs @ ys) m = write_memory (a + of_nat (length xs)) ys (write_memory a xs m)"
  by (induction xs arbitrary: a m) (simp_all add: add.assoc add.left_commute)

lemma write_loop_ok:
  assumes ctx: "ctx_ok ctx mem_of" "plain_ctx ctx" "follows_writes ctx"
  shows "sys_ok ctx mem_of sys \<Longrightarrow> t \<le> length bs \<Longrightarrow> write_loop ctx object sys a bs t = Inr (sys1, r) \<Longrightarrow>
    sys_ok ctx mem_of sys1 \<and> (\<exists>n. t \<le> n \<and> n \<le> length bs \<and> (r = - 1 \<or> r = int n) \<and>
      mem_of (sys_world sys1) = write_memory (a + of_nat t) (take (n - t) (drop t bs)) (mem_of (sys_world sys)))"
proof (induction "length bs - t" arbitrary: sys t rule: less_induct)
  case less
  show ?case
  proof (cases "t < length bs")
    case False
    then have "sys1 = sys" "r = int (length bs)" using less.prems(3) by (subst (asm) write_loop.simps; simp)+
    then show ?thesis using less.prems(1,2) False by (intro conjI exI [of _ "length bs"]) auto
  next
    case True
    obtain sys2 st k where p: "target_write_partial ctx object sys (a + of_nat t) (drop t bs) = Inr (sys2, st, k)"
      using less.prems(3) True by (subst (asm) write_loop.simps) (auto split: sum.splits)
    from target_write_partial_ok [OF ctx less.prems(1) this] have g: "sys_ok ctx mem_of sys2"
      "good_write mem_of (sys_world sys) (a + of_nat t) (drop t bs) (sys_world sys2, st, k)" by blast+
    show ?thesis
    proof (cases "st = TARGET_XFER_OK")
      case False
      then have "sys1 = sys2" "r = - 1 \<or> r = int t" "mem_of (sys_world sys2) = mem_of (sys_world sys)"
        using less.prems(3) True p g(2) by (subst (asm) write_loop.simps; auto simp: good_write_def)+
      then show ?thesis using g(1) less.prems(2) by (intro conjI exI [of _ t]) auto
    next
      case ok: True
      then have k: "0 < k" "k \<le> length bs - t"
        "mem_of (sys_world sys2) = write_memory (a + of_nat t) (take k (drop t bs)) (mem_of (sys_world sys))"
        using g(2) by (simp_all add: good_write_def)
      have "write_loop ctx object sys2 a bs (t + k) = Inr (sys1, r)"
        using less.prems(3) True p ok k(1) by (subst (asm) write_loop.simps) simp
      note wl = this
      obtain n where n: "sys_ok ctx mem_of sys1" "t + k \<le> n" "n \<le> length bs" "r = - 1 \<or> r = int n"
        "mem_of (sys_world sys1) = write_memory (a + of_nat (t + k)) (take (n - (t + k)) (drop (t + k) bs)) (mem_of (sys_world sys2))"
      proof -
        have "length bs - (t + k) < length bs - t" "t + k \<le> length bs" using k(1,2) True by simp_all
        from less.hyps [OF this(1) g(1) this(2) wl] show ?thesis using that by blast
      qed
      have "take (n - t) (drop t bs) = take k (drop t bs) @ take (n - (t + k)) (drop (t + k) bs)"
        using n(2) take_add [of k "n - (t + k)" "drop t bs"] by (simp add: add.commute)
      moreover have "length (take k (drop t bs)) = k" using k(2) by simp
      ultimately have "mem_of (sys_world sys1) = write_memory (a + of_nat t) (take (n - t) (drop t bs)) (mem_of (sys_world sys))"
        using n(5) k(3) by (simp add: write_memory_append add.assoc)
      then show ?thesis using n(1-4) by (intro conjI exI [of _ n]) auto
    qed
  qed
qed

lemma write_memory_outside: "\<forall>i < length vs. x \<noteq> a + of_nat i \<Longrightarrow> write_memory a vs m x = m x"
proof (induction vs arbitrary: a m)
  case (Cons v vs)
  have "\<forall>i < length vs. x \<noteq> a + 1 + of_nat i"
  proof (intro allI impI)
    fix i assume "i < length vs"
    then show "x \<noteq> a + 1 + of_nat i" using Cons.prems [rule_format, of "Suc i"] by (simp add: add.assoc)
  qed
  moreover have "x \<noteq> a" using Cons.prems [rule_format, of 0] by simp
  ultimately show ?case using Cons.IH by simp
qed simp

lemma write_memory_nth: "length vs \<le> 2 ^ 64 \<Longrightarrow> i < length vs \<Longrightarrow> write_memory a vs m (a + of_nat i) = vs ! i"
proof (induction vs arbitrary: a m i)
  case (Cons v vs)
  show ?case
  proof (cases i)
    case 0
    have "\<forall>j < length vs. a \<noteq> a + 1 + of_nat j"
    proof (intro allI impI)
      fix j assume "j < length vs"
      then have j: "Suc j < 2 ^ 64" using Cons.prems(1) by simp
      then have "unat (of_nat (Suc j) :: CORE_ADDR) = Suc j" unfolding unsigned_of_nat by (subst take_bit_nat_eq_self) simp_all
      then have "(of_nat (Suc j) :: CORE_ADDR) \<noteq> 0" by (metis nat.distinct(1) unat_0)
      then show "a \<noteq> a + 1 + of_nat j" by (simp add: add.assoc)
    qed
    then show ?thesis using 0 by (simp add: write_memory_outside)
  next
    case (Suc j)
    then show ?thesis using Cons by (simp add: add.assoc [symmetric])
  qed
qed simp



text \<open>
  With both caches off, a write does not reach the data cache, although regions with the attribute \<open>cache\<close> are still read through
  it: their lines become stale.
\<close>

lemma write_leaves_cache:
  "\<not> stack_cache_enabled ctx \<Longrightarrow> \<not> code_cache_enabled ctx \<Longrightarrow> sys_cache (fst (raw_memory_write ctx sys a bs)) = sys_cache sys"
  by (simp add: raw_memory_write_def case_prod_beta Let_def split: option.split)

end
