(* ===== verification/Rsp_Low.thy ===== *)
theory Rsp_Low
  imports Prelude
begin

text \<open>
  Hexadecimal and binary data in packets of the remote protocol (\<^verbatim>\<open>gdb-15.1/gdbsupport/rsp-low.cc\<close>, \<^verbatim>\<open>common-utils.cc\<close>), which
  GDB and gdbserver share. A character string is the list of its bytes without the final NUL.
\<close>

subsection \<open>Hexadecimal digits\<close>

definition tohex :: "int \<Rightarrow> uint8" where
  "tohex nib = (if nib < 10 then word_of_int (48 + nib) else word_of_int (97 + nib - 10))"

definition fromhex :: "int \<Rightarrow> int gdb" where
  "fromhex a =
     (if 48 \<le> a \<and> a \<le> 57 then Inr (a - 48)
      else if 97 \<le> a \<and> a \<le> 102 then Inr (a - 97 + 10)
      else if 65 \<le> a \<and> a \<le> 70 then Inr (a - 65 + 10)
      else Inl Error)"

definition hexchars :: "uint8 list" where
  "hexchars = [48, 49, 50, 51, 52, 53, 54, 55, 56, 57, 97, 98, 99, 100, 101, 102]"

definition ishex :: "uint8 \<Rightarrow> int option" where
  "ishex ch =
     (if 97 \<le> ch \<and> ch \<le> 102 then Some (uint ch - 97 + 10)
      else if 65 \<le> ch \<and> ch \<le> 70 then Some (uint ch - 65 + 10)
      else if 48 \<le> ch \<and> ch \<le> 57 then Some (uint ch - 48)
      else None)"

definition pack_nibble :: "int \<Rightarrow> uint8 list" where
  "pack_nibble nibble = [hexchars ! nat (nibble AND 0x0f)]"

definition pack_hex_byte :: "int \<Rightarrow> uint8 list" where
  "pack_hex_byte byte = [hexchars ! nat (drop_bit 4 byte AND 0xf), hexchars ! nat (byte AND 0xf)]"

fun unpack_loop :: "uint8 list \<Rightarrow> uint64 \<Rightarrow> uint64 \<times> uint8 list" where
  "unpack_loop [] retval = (retval, [])"
| "unpack_loop (ch # buff) retval =
     (case ishex ch of
        None \<Rightarrow> (retval, ch # buff)
      | Some nibble \<Rightarrow> unpack_loop buff (push_bit 4 retval OR word_of_int (nibble AND 0x0f)))"

definition unpack_varlen_hex :: "uint8 list \<Rightarrow> uint64 \<times> uint8 list" where
  "unpack_varlen_hex buff = unpack_loop buff 0"

subsection \<open>Binary data as hexadecimal digits\<close>

definition bin2hex :: "uint8 list \<Rightarrow> nat \<Rightarrow> uint8 list" where
  "bin2hex bin count =
     concat (map (\<lambda>b. [tohex (uint (drop_bit 4 b AND 0xf)), tohex (uint (b AND 0xf))]) (take count bin))"

text \<open>The bytes converted; a string that is short or of uneven length ends the loop.\<close>

fun hex2bin :: "uint8 list \<Rightarrow> nat \<Rightarrow> uint8 list gdb" where
  "hex2bin (h0 # h1 # hex) (Suc count) =
     (if h0 = 0 \<or> h1 = 0 then Inr []
      else case fromhex (uint h0) of
        Inl e \<Rightarrow> Inl e
      | Inr a \<Rightarrow> (case fromhex (uint h1) of
          Inl e \<Rightarrow> Inl e
        | Inr b \<Rightarrow> (case hex2bin hex count of Inl e \<Rightarrow> Inl e | Inr bs \<Rightarrow> Inr (word_of_int (a * 16 + b) # bs))))"
| "hex2bin hex count = Inr []"

text \<open>The vector of half the length of a string, and the string that \<open>hex2str\<close> builds with its length as the count.\<close>

definition hex2bin_vector :: "uint8 list \<Rightarrow> uint8 list gdb" where
  "hex2bin_vector hex = hex2bin hex (length hex div 2)"

definition hex2str :: "uint8 list \<Rightarrow> uint8 list gdb" where
  "hex2str hex = hex2bin hex (length hex)"

subsection \<open>Binary data with escapes\<close>

definition needs_escaping :: "uint8 \<Rightarrow> bool" where
  "needs_escaping b \<longleftrightarrow> b = 0x24 \<or> b = 0x23 \<or> b = 0x7d \<or> b = 0x2a"

definition escape_byte :: "uint8 \<Rightarrow> uint8 list" where
  "escape_byte b = (if needs_escaping b then [0x7d, b XOR 0x20] else [b])"

text \<open>Addressable units are copied as long as they fit with their escapes; the result holds the number of units copied.\<close>

fun escape_loop :: "uint8 list \<Rightarrow> nat \<Rightarrow> nat \<Rightarrow> nat \<Rightarrow> nat \<Rightarrow> uint8 list \<Rightarrow> uint8 list \<times> nat" where
  "escape_loop buffer unit_size out_maxlen_bytes i 0 out = (out, i)"
| "escape_loop buffer unit_size out_maxlen_bytes i (Suc n) out =
     (let unit_bytes = take unit_size (drop (i * unit_size) buffer);
          number_escape_bytes_needed = length (filter needs_escaping unit_bytes) in
      if length out + unit_size + number_escape_bytes_needed > out_maxlen_bytes then (out, i)
      else escape_loop buffer unit_size out_maxlen_bytes (Suc i) n (out @ concat (map escape_byte unit_bytes)))"

definition remote_escape_output :: "uint8 list \<Rightarrow> nat \<Rightarrow> nat \<Rightarrow> nat \<Rightarrow> uint8 list \<times> nat" where
  "remote_escape_output buffer len_units unit_size out_maxlen_bytes =
     escape_loop buffer unit_size out_maxlen_bytes 0 len_units []"

fun unescape_loop :: "nat \<Rightarrow> uint8 list \<Rightarrow> bool \<Rightarrow> uint8 list \<Rightarrow> uint8 list gdb" where
  "unescape_loop out_maxlen [] escaped out = (if escaped then Inl Error else Inr out)"
| "unescape_loop out_maxlen (b # bs) escaped out =
     (if length out + 1 > out_maxlen then Inl Error
      else if escaped then unescape_loop out_maxlen bs False (out @ [b XOR 0x20])
      else if b = 0x7d then unescape_loop out_maxlen bs True out
      else unescape_loop out_maxlen bs False (out @ [b]))"

definition remote_unescape_input :: "uint8 list \<Rightarrow> nat \<Rightarrow> uint8 list gdb" where
  "remote_unescape_input buffer out_maxlen = unescape_loop out_maxlen buffer False []"

subsection \<open>Digits and their values\<close>

lemma tohex_fromhex:
  assumes "0 \<le> n" "n < 16"
  shows "fromhex (uint (tohex n)) = Inr n \<and> ishex (tohex n) = Some n \<and> tohex n \<noteq> 0"
proof -
  have "\<forall>n \<in> set [0..15]. fromhex (uint (tohex n)) = Inr n \<and> ishex (tohex n) = Some n \<and> tohex n \<noteq> 0"
    by (simp add: upto_rec1 tohex_def fromhex_def ishex_def)
  then show ?thesis using assms by simp
qed

lemma nibble_range:
  fixes b :: uint8
  shows "0 \<le> uint (drop_bit 4 b AND 0xf)" "uint (drop_bit 4 b AND 0xf) < 16" "0 \<le> uint (b AND 0xf)" "uint (b AND 0xf) < 16"
proof -
  have "uint (w AND 0xf) < 16" for w :: uint8
    using and_mask_less' [of 4 w] word_less_def [of "w AND 0xf" 16] by (simp add: mask_numeral)
  then show "uint (drop_bit 4 b AND 0xf) < 16" "uint (b AND 0xf) < 16" by blast+
qed simp_all

lemma byte_of_nibbles:
  fixes b :: uint8
  shows "word_of_int (uint (drop_bit 4 b AND 0xf) * 16 + uint (b AND 0xf)) = b"
proof -
  have f: "(0xf :: uint8) = mask 4" by (simp add: mask_numeral)
  have "drop_bit 4 b AND 0xf = drop_bit 4 b"
    unfolding f by (rule bit_word_eqI) (auto simp: bit_simps dest: bit_imp_le_length)
  then have "word_of_int (uint (drop_bit 4 b AND 0xf) * 16 + uint (b AND 0xf)) = push_bit 4 (drop_bit 4 b) + (b AND mask 4)"
    by (simp add: f push_bit_eq_mult)
  also have "\<dots> = push_bit 4 (drop_bit 4 b) OR (b AND mask 4)"
    by (rule disjunctive_add) (auto simp: bit_simps)
  also have "\<dots> = b" by (rule bit_word_eqI) (auto simp: bit_simps)
  finally show ?thesis .
qed

text \<open>What \<open>bin2hex\<close> writes, \<open>hex2bin\<close> reads back, up to the count that is asked for.\<close>

lemma hex2bin_append: "hex2bin (bin2hex bs (length bs) @ hex) (length bs + n) =
    (case hex2bin hex n of Inl e \<Rightarrow> Inl e | Inr cs \<Rightarrow> Inr (bs @ cs))"
proof (induction bs)
  case Nil
  show ?case by (cases "hex2bin hex n") (simp_all add: bin2hex_def)
next
  case (Cons b bs)
  have "bin2hex (b # bs) (length (b # bs)) =
      tohex (uint (drop_bit 4 b AND 0xf)) # tohex (uint (b AND 0xf)) # bin2hex bs (length bs)" by (simp add: bin2hex_def)
  then show ?case
    using Cons tohex_fromhex [OF nibble_range(1,2) [of b]] tohex_fromhex [OF nibble_range(3,4) [of b]] byte_of_nibbles [of b]
    by (simp split: sum.split)
qed

subsection \<open>Escaping\<close>

lemma escaped_length: "length (concat (map escape_byte bs)) = length bs + length (filter needs_escaping bs)"
  by (induction bs) (auto simp: escape_byte_def)

lemma escaped_bytes: "set (concat (map escape_byte bs)) \<inter> {0x23, 0x24, 0x2a} = {}"
  by (auto simp: escape_byte_def needs_escaping_def)

lemma unescape_append:
  "length out + length bs \<le> m \<Longrightarrow>
     unescape_loop m (concat (map escape_byte bs) @ cs) False out = unescape_loop m cs False (out @ bs)"
proof (induction bs arbitrary: out)
  case (Cons b bs)
  then show ?case by (cases "needs_escaping b") (auto simp: escape_byte_def needs_escaping_def xor.assoc)
qed simp

lemma escape_loop_spec:
  assumes "length buffer = (i + n) * us" "out = concat (map escape_byte (take (i * us) buffer))" "length out \<le> m"
    and "escape_loop buffer us m i n out = (res, k)"
  shows "i \<le> k \<and> k \<le> i + n \<and> res = concat (map escape_byte (take (k * us) buffer)) \<and> length res \<le> m \<and>
    (k < i + n \<longrightarrow> m < length (concat (map escape_byte (take ((k + 1) * us) buffer))))"
  using assms
proof (induction n arbitrary: i out)
  case (Suc n)
  let ?u = "take us (drop (i * us) buffer)"
  have u: "take (i * us) buffer @ ?u = take (Suc i * us) buffer" by (simp add: take_add [symmetric] add.commute)
  have "i * us + us \<le> length buffer" using Suc.prems(1) by (simp add: algebra_simps)
  then have l: "length ?u = us" by simp
  have e: "out @ concat (map escape_byte ?u) = concat (map escape_byte (take (Suc i * us) buffer))"
    unfolding Suc.prems(2) u [symmetric] by simp
  show ?case
  proof (cases "length out + us + length (filter needs_escaping ?u) > m")
    case True
    then have "res = out" "k = i" using Suc.prems(4) by (simp_all add: Let_def)
    moreover have "m < length (concat (map escape_byte (take (Suc i * us) buffer)))"
      unfolding e [symmetric] using True l by (simp add: escaped_length)
    ultimately show ?thesis using Suc.prems(2,3) by simp
  next
    case False
    then have r: "escape_loop buffer us m (Suc i) n (out @ concat (map escape_byte ?u)) = (res, k)"
      using Suc.prems(4) by (simp add: Let_def)
    have "length (out @ concat (map escape_byte ?u)) \<le> m" using False l by (simp add: escaped_length)
    from Suc.IH [OF _ e this r] show ?thesis using Suc.prems(1) by (auto simp del: length_concat)
  qed
qed simp

text \<open>C25: Binary data is escaped unit by unit until the next unit does not fit, never beyond the buffer. None of the bytes that structure a
  packet, nor the one that announces a repetition, is left in what is written, and the other side reads back exactly the units that
  were copied, into a buffer that holds them.
\<close>

theorem escape_round_trip:
  assumes "length buffer = len_units * unit_size" "remote_escape_output buffer len_units unit_size m = (out, k)"
  shows "k \<le> len_units \<and> length out \<le> m \<and> set out \<inter> {0x23, 0x24, 0x2a} = {} \<and>
    (k < len_units \<longrightarrow> m < (k + 1) * unit_size + length (filter needs_escaping (take ((k + 1) * unit_size) buffer))) \<and>
    (k * unit_size \<le> m1 \<longrightarrow> remote_unescape_input out m1 = Inr (take (k * unit_size) buffer))"
proof -
  have "0 \<le> k \<and> k \<le> 0 + len_units \<and> out = concat (map escape_byte (take (k * unit_size) buffer)) \<and> length out \<le> m \<and>
    (k < 0 + len_units \<longrightarrow> m < length (concat (map escape_byte (take ((k + 1) * unit_size) buffer))))"
    using assms(2) unfolding remote_escape_output_def by (intro escape_loop_spec) (simp_all add: assms(1))
  then have r: "k \<le> len_units" "out = concat (map escape_byte (take (k * unit_size) buffer))" "length out \<le> m"
    "k < len_units \<longrightarrow> m < length (concat (map escape_byte (take ((k + 1) * unit_size) buffer)))" by auto
  have "length (take ((k + 1) * unit_size) buffer) = (k + 1) * unit_size" if "k < len_units"
    using that assms(1) mult_le_mono1 [of "k + 1" len_units unit_size] by simp
  then have "k < len_units \<longrightarrow> m < (k + 1) * unit_size + length (filter needs_escaping (take ((k + 1) * unit_size) buffer))"
    using r(4) unfolding escaped_length by simp
  moreover have "remote_unescape_input out m1 = Inr (take (k * unit_size) buffer)" if "k * unit_size \<le> m1"
  proof -
    have "length (take (k * unit_size) buffer) \<le> m1" using that by simp
    then show ?thesis unfolding remote_unescape_input_def r(2) using unescape_append [of "[]" _ m1 "[]"] by simp
  qed
  moreover have "set out \<inter> {0x23, 0x24, 0x2a} = {}" unfolding r(2) by (rule escaped_bytes)
  ultimately show ?thesis using r(1,3) by blast
qed

theorem escape_round_trip_witness:
  "remote_escape_output [0x41, 0x23, 0x7d, 0x42] 2 2 4 = ([0x41, 0x7d, 0x03], 1) \<and>
    remote_unescape_input [0x41, 0x7d, 0x03] 2 = Inr [0x41, 0x23]"
proof -
  have r: "remote_escape_output [0x41, 0x23, 0x7d, 0x42] 2 2 4 = ([0x41, 0x7d, 0x03], 1)"
    by code_simp
  from escape_round_trip [OF _ this, of 2] r show ?thesis by (simp add: numeral_2_eq_2)
qed

end
