(* ===== verification/Remote_Packets.thy ===== *)
theory Remote_Packets
  imports Rsp_Low
begin

text \<open>
  Packets of the remote protocol on the side of GDB (\<^verbatim>\<open>gdb-15.1/gdb/remote.c\<close>): their frames and checksums, runs of equal
  bytes, acknowledgements, retransmission and notifications.
\<close>

subsection \<open>The connection\<close>

abbreviation SERIAL_ERROR :: int where "SERIAL_ERROR \<equiv> - 1"
abbreviation SERIAL_TIMEOUT :: int where "SERIAL_TIMEOUT \<equiv> - 2"
abbreviation SERIAL_EOF :: int where "SERIAL_EOF \<equiv> - 3"

text \<open>
  What \<open>serial_readchar\<close> will return, one value after the other; when nothing is left the other side keeps silent. The state is the
  input, what was written, the notifications that were handled, and the memory of the packet buffer. \<open>busy\<close> stands for a running
  target that waits for a stop reply.
\<close>

type_synonym stream = "int list"

record remote =
  noack_mode :: bool
  busy :: bool
  rs_input :: stream
  rs_output :: "uint8 list"
  rs_notifs :: "uint8 list list"
  rs_buf :: "uint8 list"

fun readchar :: "stream \<Rightarrow> (int \<times> stream) gdb" where
  "readchar [] = Inr (SERIAL_TIMEOUT, [])"
| "readchar (ch # s) = (if ch = SERIAL_EOF then Inl Error else Inr (ch, s))"

lemma readchar_length:
  "readchar s = Inr (c, s1) \<Longrightarrow> length s1 \<le> length s \<and> (c \<noteq> SERIAL_TIMEOUT \<longrightarrow> length s1 < length s)"
  by (cases s) (auto split: if_splits)

definition remote_serial_write :: "uint8 list \<Rightarrow> remote \<Rightarrow> remote" where
  "remote_serial_write bs rs = rs\<lparr>rs_output := rs_output rs @ bs\<rparr>"

subsection \<open>The packet buffer\<close>

definition put_char :: "nat \<Rightarrow> uint8 \<Rightarrow> uint8 list \<Rightarrow> uint8 list gdb" where
  "put_char i c buf = (if i < length buf then Inr (buf[i := c]) else Inl Undefined)"

text \<open>A byte is added, or the last byte repeated, after the vector has grown; the bytes that \<open>resize\<close> adds are not read before.\<close>

definition add_char :: "uint8 \<Rightarrow> nat \<Rightarrow> uint8 list \<Rightarrow> uint8 list gdb" where
  "add_char c bc buf = put_char bc c (if bc \<ge> length buf - 1 then buf @ replicate (length buf) 0 else buf)"

definition repeat_char :: "nat \<Rightarrow> nat \<Rightarrow> uint8 list \<Rightarrow> uint8 list gdb" where
  "repeat_char n bc buf =
     (let buf1 = (if bc + n - 1 \<ge> length buf - 1 then buf @ replicate n 0 else buf) in
      if bc + n \<le> length buf1 then Inr (take bc buf1 @ replicate n (buf1 ! (bc - 1)) @ drop (bc + n) buf1) else Inl Undefined)"

subsection \<open>Reading a frame\<close>

definition frame_end :: "bool \<Rightarrow> stream \<Rightarrow> uint8 \<Rightarrow> nat \<Rightarrow> uint8 list \<Rightarrow> (int \<times> uint8 list \<times> stream) gdb" where
  "frame_end noack s csum bc buf =
     (case readchar s of
        Inl e \<Rightarrow> Inl e
      | Inr (check_0, s1) \<Rightarrow>
          (case (if check_0 \<ge> 0 then readchar s1 else Inr (0, s1)) of
             Inl e \<Rightarrow> Inl e
           | Inr (check_1, s2) \<Rightarrow>
               if check_0 < 0 \<or> check_1 < 0 then Inr (- 1, buf, s2)
               else if noack then Inr (int bc, buf, s2)
               else (case fromhex check_0 of
                   Inl e \<Rightarrow> Inl e
                 | Inr h \<Rightarrow> (case fromhex check_1 of
                     Inl e \<Rightarrow> Inl e
                   | Inr l \<Rightarrow> if csum = word_of_int (push_bit 4 h OR l) then Inr (int bc, buf, s2) else Inr (- 1, buf, s2)))))"

text \<open>The value is \<open>- 1\<close> or the number of bytes in the buffer, which a NUL follows.\<close>

function read_frame :: "bool \<Rightarrow> stream \<Rightarrow> uint8 \<Rightarrow> nat \<Rightarrow> uint8 list \<Rightarrow> (int \<times> uint8 list \<times> stream) gdb" where
  "read_frame noack s csum bc buf =
     (case readchar s of
        Inl e \<Rightarrow> Inl e
      | Inr (c, s1) \<Rightarrow>
          if c = SERIAL_TIMEOUT \<or> c = 0x24 then Inr (- 1, buf, s1)
          else if c = 0x23
          then (case put_char bc 0 buf of Inl e \<Rightarrow> Inl e | Inr buf1 \<Rightarrow> frame_end noack s1 csum bc buf1)
          else if c = 0x2a
          then (case readchar s1 of
              Inl e \<Rightarrow> Inl e
            | Inr (c1, s2) \<Rightarrow>
                let repeat = c1 - 32 + 3 in
                if repeat > 0 \<and> repeat \<le> 255 \<and> bc > 0
                then (case repeat_char (nat repeat) bc buf of
                    Inl e \<Rightarrow> Inl e
                  | Inr buf1 \<Rightarrow> read_frame noack s2 (csum + word_of_int c + word_of_int c1) (bc + nat repeat) buf1)
                else (case put_char bc 0 buf of Inl e \<Rightarrow> Inl e | Inr buf1 \<Rightarrow> Inr (- 1, buf1, s2)))
          else (case add_char (word_of_int c) bc buf of
              Inl e \<Rightarrow> Inl e
            | Inr buf1 \<Rightarrow> read_frame noack s1 (csum + word_of_int c) (bc + 1) buf1))"
  by pat_completeness auto

termination by (relation "measure (\<lambda>(noack, s, csum, bc, buf). length s)") (fastforce dest: readchar_length)+

declare read_frame.simps [simp del]

text \<open>An old response, which is thrown away.\<close>

function skip_frame :: "stream \<Rightarrow> stream gdb" where
  "skip_frame s =
     (case readchar s of
        Inl e \<Rightarrow> Inl e
      | Inr (c, s1) \<Rightarrow>
          if c = SERIAL_TIMEOUT then Inr s1
          else if c = 0x23
          then (case readchar s1 of
              Inl e \<Rightarrow> Inl e
            | Inr (c1, s2) \<Rightarrow> if c1 \<ge> 0 then map_sum id snd (readchar s2) else Inr s2)
          else if c = 0x2a
          then (case readchar s1 of
              Inl e \<Rightarrow> Inl e
            | Inr (c1, s2) \<Rightarrow> if c1 < 0 then Inr s2 else skip_frame s2)
          else skip_frame s1)"
  by pat_completeness auto

termination by (relation "measure length") (fastforce dest: readchar_length)+

declare skip_frame.simps [simp del]

lemma frame_end_length: "frame_end noack s csum bc buf = Inr (v, buf1, s1) \<Longrightarrow> length s1 \<le> length s"
  by (auto simp: frame_end_def split: sum.splits if_splits dest!: readchar_length)

lemma read_frame_length: "read_frame noack s csum bc buf = Inr (v, buf1, s1) \<Longrightarrow> length s1 \<le> length s"
proof (induction "length s" arbitrary: s csum bc buf rule: less_induct)
  case less
  have ih: "length s1 \<le> length s" if "read_frame noack s' csum' bc' buf' = Inr (v, buf1, s1)" "length s' < length s" for s' csum' bc' buf'
    using less.hyps [OF that(2,1)] that(2) by simp
  show ?case using less.prems
    by (subst (asm) read_frame.simps)
      (auto simp: Let_def split: sum.split_asm if_split_asm dest!: readchar_length frame_end_length, (drule ih; linarith)+)
qed

lemma skip_frame_length: "skip_frame s = Inr s1 \<Longrightarrow> length s1 \<le> length s"
proof (induction "length s" arbitrary: s rule: less_induct)
  case less
  have ih: "length s1 \<le> length s" if "skip_frame s' = Inr s1" "length s' < length s" for s'
    using less.hyps [OF that(2,1)] that(2) by simp
  show ?case using less.prems
    by (subst (asm) skip_frame.simps)
      (auto simp: map_sum_def split: sum.split_asm if_split_asm dest!: readchar_length, (drule ih; linarith)+)
qed

subsection \<open>Receiving a packet\<close>

text \<open>The loop that skips to the start of a packet or notification.\<close>

function packet_start :: "stream \<Rightarrow> (int \<times> stream) gdb" where
  "packet_start s =
     (case readchar s of
        Inl e \<Rightarrow> Inl e
      | Inr (c, s1) \<Rightarrow> if c \<noteq> SERIAL_TIMEOUT \<and> c \<noteq> 0x24 \<and> c \<noteq> 0x25 then packet_start s1 else Inr (c, s1))"
  by pat_completeness auto

termination by (relation "measure length") (fastforce dest: readchar_length)+

declare packet_start.simps [simp del]

lemma packet_start_length:
  "packet_start s = Inr (c, s1) \<Longrightarrow> length s1 \<le> length s \<and> (c \<noteq> SERIAL_TIMEOUT \<longrightarrow> length s1 < length s)"
proof (induction "length s" arbitrary: s rule: less_induct)
  case less
  have ih: "length s1 \<le> length s \<and> (c \<noteq> SERIAL_TIMEOUT \<longrightarrow> length s1 < length s)"
    if "packet_start s' = Inr (c, s1)" "length s' < length s" for s'
    using less.hyps [OF that(2,1)] that(2) by simp
  show ?case using less.prems
    by (subst (asm) packet_start.simps) (auto split: sum.split_asm if_split_asm dest!: readchar_length ih)
qed

datatype attempt = Received int int | Silence | Gave_up

text \<open>
  Up to as many attempts as are left, each of which is answered by a minus sign when it fails. With \<open>forever\<close> a timeout means that
  the watchdog went off, and for a caller that accepts notifications (\<open>notif\<close>) it only means that there is nothing to read.
\<close>

fun receive :: "bool \<Rightarrow> bool \<Rightarrow> nat \<Rightarrow> remote \<Rightarrow> (attempt \<times> remote) gdb" where
  "receive forever notif 0 rs = Inr (Gave_up, rs)"
| "receive forever notif (Suc tries) rs =
     (case packet_start (rs_input rs) of
        Inl e \<Rightarrow> Inl e
      | Inr (c, s1) \<Rightarrow>
          if c = SERIAL_TIMEOUT
          then (if notif then Inr (Silence, rs\<lparr>rs_input := s1\<rparr>)
                else if forever then Inl Error
                else receive forever notif tries (remote_serial_write [0x2d] (rs\<lparr>rs_input := s1\<rparr>)))
          else (case read_frame (noack_mode rs) s1 0 0 (rs_buf rs) of
              Inl e \<Rightarrow> Inl e
            | Inr (val, buf1, s2) \<Rightarrow>
                let rs1 = rs\<lparr>rs_input := s2, rs_buf := buf1\<rparr> in
                if val \<ge> 0 then Inr (Received c val, rs1) else receive forever notif tries (remote_serial_write [0x2d] rs1)))"

definition send_ack :: "remote \<Rightarrow> remote" where
  "send_ack rs = (if noack_mode rs then rs else remote_serial_write [0x2b] rs)"

text \<open>A handled notification is recorded.\<close>

definition handle_notification :: "remote \<Rightarrow> remote" where
  "handle_notification rs = rs\<lparr>rs_notifs := rs_notifs rs @ [takeWhile (\<lambda>c. c \<noteq> 0) (rs_buf rs)]\<rparr>"

lemma receive_length:
  "receive forever notif tries rs = Inr (r, rs1) \<Longrightarrow>
     length (rs_input rs1) \<le> length (rs_input rs) \<and> (\<forall>c v. r = Received c v \<longrightarrow> length (rs_input rs1) < length (rs_input rs))"
proof (induction tries arbitrary: forever notif rs r)
  case (Suc tries)
  show ?case using Suc.prems
    by - (auto simp: Let_def remote_serial_write_def split: sum.split_asm if_split_asm dest!: packet_start_length read_frame_length,
        (drule Suc.IH, simp)+)
qed simp

function getpkt_loop :: "bool \<Rightarrow> bool \<Rightarrow> remote \<Rightarrow> (int \<times> bool option \<times> remote) gdb" where
  "getpkt_loop forever notif rs =
     (case receive forever notif 3 rs of
        Inl e \<Rightarrow> Inl e
      | Inr (Silence, rs1) \<Rightarrow> Inr (- 1, None, rs1)
      | Inr (Gave_up, rs1) \<Rightarrow> Inr (- 1, None, send_ack rs1)
      | Inr (Received c val, rs1) \<Rightarrow>
          if c = 0x24 then Inr (val, Some False, send_ack rs1)
          else let rs2 = handle_notification rs1 in
            if notif then Inr (val, Some True, rs2) else getpkt_loop forever notif rs2)"
  by pat_completeness auto

termination
  by (relation "measure (\<lambda>(forever, notif, rs). length (rs_input rs))") (auto simp: handle_notification_def dest: receive_length)

declare getpkt_loop.simps [simp del]

text \<open>\<open>getpkt\<close>, with what it stores in \<open>*is_notif\<close> when that is not null.\<close>

definition getpkt :: "bool \<Rightarrow> bool \<Rightarrow> remote \<Rightarrow> (int \<times> bool option \<times> remote) gdb" where
  "getpkt forever notif rs =
     (if length (rs_buf rs) < 8 then Inl Undefined
      else getpkt_loop forever notif (rs\<lparr>rs_buf := [0x74, 0x69, 0x6d, 0x65, 0x6f, 0x75, 0x74, 0] @ drop 8 (rs_buf rs)\<rparr>))"

subsection \<open>Sending a packet\<close>

definition packet_frame :: "uint8 list \<Rightarrow> uint8 list" where
  "packet_frame buf = (let csum = sum_list buf in
     [0x24] @ buf @ [0x23, tohex (uint (drop_bit 4 csum AND 0xf)), tohex (uint (csum AND 0xf))])"

text \<open>The loop that waits for an acknowledgement: whether it came, and the count of timeouts.\<close>

function await_ack :: "nat \<Rightarrow> remote \<Rightarrow> (bool \<times> nat \<times> remote) gdb" where
  "await_ack tcount rs =
     (case readchar (rs_input rs) of
        Inl e \<Rightarrow> Inl e
      | Inr (ch, s1) \<Rightarrow> let rs1 = rs\<lparr>rs_input := s1\<rparr> in
          if ch = 0x2b then Inr (True, tcount, rs1)
          else if ch = 0x2d \<or> ch = SERIAL_TIMEOUT then Inr (False, tcount + 1, rs1)
          else if ch = 0x24
          then (case skip_frame s1 of
              Inl e \<Rightarrow> Inl e
            | Inr s2 \<Rightarrow> await_ack tcount (remote_serial_write [0x2b] (rs1\<lparr>rs_input := s2\<rparr>)))
          else if ch = 0x25
          then (case read_frame (noack_mode rs) s1 0 0 (rs_buf rs) of
              Inl e \<Rightarrow> Inl e
            | Inr (val, buf1, s2) \<Rightarrow> let rs2 = rs\<lparr>rs_input := s2, rs_buf := buf1\<rparr> in
                if val \<ge> 0 then await_ack 0 (handle_notification rs2) else await_ack tcount rs2)
          else await_ack tcount rs1)"
  by pat_completeness auto

termination
  by (relation "measure (\<lambda>(tcount, rs). length (rs_input rs))")
    (fastforce simp: handle_notification_def remote_serial_write_def dest: readchar_length skip_frame_length read_frame_length)+

declare await_ack.simps [simp del]

lemma await_ack_length:
  "await_ack tcount rs = Inr (ok, t, rs1) \<Longrightarrow>
     length (rs_input rs1) < length (rs_input rs) \<or> length (rs_input rs1) \<le> length (rs_input rs) \<and> (\<not> ok \<longrightarrow> t = tcount + 1)"
proof (induction "length (rs_input rs)" arbitrary: tcount rs ok rule: less_induct)
  case less
  have ih: "length (rs_input rs1) < length (rs_input rs)"
    if "await_ack tc rs' = Inr (ok', t, rs1)" "length (rs_input rs') < length (rs_input rs)" for tc rs' ok'
    using less.hyps [OF that(2,1)] that(2) by linarith
  show ?case using less.prems
    by (subst (asm) await_ack.simps)
      (auto simp: Let_def remote_serial_write_def handle_notification_def split: sum.split_asm if_split_asm
        dest!: readchar_length skip_frame_length read_frame_length, (drule ih; simp)+)
qed

function putpkt_loop :: "uint8 list \<Rightarrow> nat \<Rightarrow> remote \<Rightarrow> (int \<times> remote) gdb" where
  "putpkt_loop frame tcount rs =
     (let rs1 = remote_serial_write frame rs in
      if noack_mode rs then Inr (0, rs1)
      else case await_ack tcount rs1 of
        Inl e \<Rightarrow> Inl e
      | Inr (ok, tcount1, rs2) \<Rightarrow>
          if ok then Inr (1, rs2) else if tcount1 > 3 then Inr (0, rs2) else putpkt_loop frame tcount1 rs2)"
  by pat_completeness auto

termination
  by (relation "measures [\<lambda>(frame, tcount, rs). length (rs_input rs), \<lambda>(frame, tcount, rs). 4 - tcount]")
    (auto simp: remote_serial_write_def dest!: await_ack_length)

declare putpkt_loop.simps [simp del]

definition putpkt_binary :: "uint8 list \<Rightarrow> remote \<Rightarrow> (int \<times> remote) gdb" where
  "putpkt_binary buf rs = (if busy rs then Inl Error else putpkt_loop (packet_frame buf) 0 rs)"

end
