(* ===== verification/Server_Packets.thy ===== *)
theory Server_Packets
  imports Rsp_Low
begin

text \<open>
  Packets of the remote protocol on the side of gdbserver (\<^verbatim>\<open>gdb-15.1/gdbserver/remote-utils.cc\<close>): the encoding of runs of equal
  bytes, sending until an acknowledgement, and receiving.
\<close>

subsection \<open>The connection\<close>

text \<open>
  The characters left in \<open>readchar_buf\<close>, and what later calls of \<open>read_prim\<close> return; an empty chunk is the end of the connection or an
  error, and when nothing is left the connection has ended. Writing does not fail. \<open>own_buf_size\<close> is the size of the buffer of a packet.
\<close>

record server =
  sv_noack :: bool
  readchar_buf :: "uint8 list"
  sv_reads :: "uint8 list list"
  sv_output :: "uint8 list"
  interrupts :: nat
  has_thread :: bool
  own_buf_size :: nat

fun server_readchar :: "server \<Rightarrow> int \<times> server" where
  "server_readchar sv =
     (case readchar_buf sv of
        ch # buf \<Rightarrow> (uint ch, sv\<lparr>readchar_buf := buf\<rparr>)
      | [] \<Rightarrow> (case sv_reads sv of
          (ch # buf) # rds \<Rightarrow> (uint ch, sv\<lparr>readchar_buf := buf, sv_reads := rds\<rparr>)
        | [] # rds \<Rightarrow> (- 1, sv\<lparr>sv_reads := rds\<rparr>)
        | [] \<Rightarrow> (- 1, sv)))"

text \<open>All that is left to read.\<close>

definition pending :: "server \<Rightarrow> uint8 list" where
  "pending sv = readchar_buf sv @ concat (sv_reads sv)"

definition request_interrupt :: "server \<Rightarrow> server" where
  "request_interrupt sv = sv\<lparr>interrupts := interrupts sv + 1\<rparr>"

definition write_prim :: "uint8 list \<Rightarrow> server \<Rightarrow> server" where
  "write_prim bs sv = sv\<lparr>sv_output := sv_output sv @ bs\<rparr>"

lemma server_readchar_pending:
  assumes "server_readchar sv = (c, sv1)" "0 \<le> c"
  shows "pending sv = word_of_int c # pending sv1" "c = uint (word_of_int c :: uint8)"
    "\<exists>buf rds. sv1 = sv\<lparr>readchar_buf := buf, sv_reads := rds\<rparr>"
proof -
  have "\<exists>buf rds. sv1 = sv\<lparr>readchar_buf := buf, sv_reads := rds\<rparr> \<and> pending sv = word_of_int c # pending sv1 \<and> c = uint (word_of_int c :: uint8)"
  proof (cases "readchar_buf sv")
    case (Cons ch buf)
    then show ?thesis using assms(1) by (intro exI [of _ buf] exI [of _ "sv_reads sv"]) (auto simp: pending_def)
  next
    case Nil
    then show ?thesis using assms by (auto simp: pending_def split: list.splits)
  qed
  then show "pending sv = word_of_int c # pending sv1" "c = uint (word_of_int c :: uint8)"
    "\<exists>buf rds. sv1 = sv\<lparr>readchar_buf := buf, sv_reads := rds\<rparr>" by blast+
qed

lemma server_readchar_shorter: "server_readchar sv = (c, sv1) \<Longrightarrow> 0 \<le> c \<Longrightarrow> length (pending sv1) < length (pending sv)"
  by (simp only: server_readchar_pending(1)) simp

declare server_readchar.simps [simp del]

subsection \<open>Runs of equal bytes\<close>

text \<open>The frame characters are skipped by shortening the run.\<close>

fun skip_frame_chars :: "nat \<Rightarrow> nat" where
  "skip_frame_chars n = (if n + 29 = 0x24 \<or> n + 29 = 0x23 then skip_frame_chars (n - 1) else n)"

declare skip_frame_chars.simps [simp del]

text \<open>What is written for the start of the rest of a packet, and the number of characters consumed.\<close>

definition try_rle :: "uint8 list \<Rightarrow> uint8 list \<times> nat" where
  "try_rle buf =
     (let remaining = min (length buf) 97;
          n = length (takeWhile (\<lambda>c. c = buf ! 0) (take (remaining - 1) (drop 1 buf))) in
      if n < 3 then ([buf ! 0], 1)
      else let n = skip_frame_chars n in ([buf ! 0, 0x2a, of_nat (n + 29)], n + 1))"

lemma try_rle_consumes: "0 < snd (try_rle buf)"
  by (simp add: try_rle_def Let_def)

function rle_body :: "uint8 list \<Rightarrow> uint8 list" where
  "rle_body buf = (if buf = [] then [] else let (out, n) = try_rle buf in out @ rle_body (drop n buf))"
  by pat_completeness auto

termination
proof (relation "measure length", goal_cases)
  case (2 buf x out n)
  then have "snd (try_rle buf) = n" by (metis snd_conv)
  then show ?case using 2 try_rle_consumes [of buf] by (cases buf) auto
qed simp

declare rle_body.simps [simp del]

subsection \<open>Sending\<close>

definition server_frame :: "uint8 list \<Rightarrow> bool \<Rightarrow> uint8 list" where
  "server_frame buf is_notif = (let body = rle_body buf; csum = sum_list body in
     [if is_notif then 0x25 else 0x24] @ body @ [0x23, tohex (uint (drop_bit 4 csum AND 0xf)), tohex (uint (csum AND 0xf))])"

text \<open>The frame is sent over and over until a plus sign is read.\<close>

function send_loop :: "uint8 list \<Rightarrow> bool \<Rightarrow> server \<Rightarrow> int \<times> server" where
  "send_loop frame is_notif sv =
     (let sv1 = write_prim frame sv in
      if sv_noack sv \<or> is_notif then (1, sv1)
      else let (cc, sv2) = server_readchar sv1 in
        if cc < 0 then (- 1, sv2)
        else let sv3 = (if cc = 3 \<and> has_thread sv2 then request_interrupt sv2 else sv2) in
          if cc = 0x2b then (1, sv3) else send_loop frame is_notif sv3)"
  by pat_completeness auto

termination
proof (relation "measure (\<lambda>(frame, is_notif, sv). length (pending sv))", goal_cases)
  case 1
  then show ?case by simp
next
  case (2 frame is_notif sv sv1 x cc sv2 sv3)
  have p: "pending (write_prim frame sv) = pending sv" "pending (request_interrupt sv2) = pending sv2"
    by (simp_all add: write_prim_def request_interrupt_def pending_def)
  have "length (pending sv2) < length (pending (write_prim frame sv))"
    by (rule server_readchar_shorter [of _ cc]) (use 2 in auto)
  then show ?case using 2 p by (auto split: if_splits)
qed

declare send_loop.simps [simp del]

text \<open>The buffer for the frame and a NUL has five bytes more than the packet.\<close>

definition putpkt_binary_1 :: "uint8 list \<Rightarrow> bool \<Rightarrow> server \<Rightarrow> (int \<times> server) gdb" where
  "putpkt_binary_1 buf is_notif sv =
     (if length buf + 5 < length (server_frame buf is_notif) + 1 then Inl Undefined
      else Inr (send_loop (server_frame buf is_notif) is_notif sv))"

subsection \<open>Receiving\<close>

text \<open>Characters before the start of a packet are discarded, the interrupt character is obeyed.\<close>

function server_start :: "server \<Rightarrow> bool \<times> server" where
  "server_start sv =
     (let (c, sv1) = server_readchar sv in
      if c = 3 then server_start (request_interrupt sv1)
      else if c = 0x24 then (True, sv1)
      else if c < 0 then (False, sv1)
      else server_start sv1)"
  by pat_completeness auto

termination
proof (relation "measure (\<lambda>sv. length (pending sv))", goal_cases)
  case 1
  then show ?case by simp
next
  case (2 sv x c sv1)
  have "pending (request_interrupt sv1) = pending sv1" by (simp add: request_interrupt_def pending_def)
  then show ?case using server_readchar_shorter [of sv c sv1] 2 by simp
next
  case (3 sv x c sv1)
  then show ?case using server_readchar_shorter [of sv c sv1] by simp
qed

declare server_start.simps [simp del]

text \<open>
  The packet, its checksum, and whether it ended: every byte and the final NUL have to fit into the buffer, which the code does not check.
\<close>

function collect_packet :: "uint8 list \<Rightarrow> uint8 \<Rightarrow> server \<Rightarrow> ((uint8 list \<times> uint8) option \<times> server) gdb" where
  "collect_packet buf csum sv =
     (let (c, sv1) = server_readchar sv in
      if c < 0 then Inr (None, sv1)
      else if length buf \<ge> own_buf_size sv then Inl Undefined
      else if c = 0x23 then Inr (Some (buf, csum), sv1)
      else collect_packet (buf @ [word_of_int c]) (csum + word_of_int c) sv1)"
  by pat_completeness auto

termination
proof (relation "measure (\<lambda>(buf, csum, sv). length (pending sv))", goal_cases)
  case 1
  then show ?case by simp
next
  case (2 buf csum sv x c sv1)
  then show ?case using server_readchar_shorter [of sv c sv1] by simp
qed

declare collect_packet.simps [simp del]

lemma server_readchar_le: "server_readchar sv = (c, sv1) \<Longrightarrow> length (pending sv1) \<le> length (pending sv)"
  by (subst (asm) server_readchar.simps) (auto simp: pending_def split: list.splits)

lemma server_start_le:
  "server_start sv = (ok, sv1) \<Longrightarrow> length (pending sv1) \<le> length (pending sv) \<and> (ok \<longrightarrow> length (pending sv1) < length (pending sv))"
proof (induction "length (pending sv)" arbitrary: sv rule: less_induct)
  case less
  obtain c sv2 where r: "server_readchar sv = (c, sv2)" by (metis surj_pair)
  have p: "pending (request_interrupt sv2) = pending sv2" by (simp add: request_interrupt_def pending_def)
  note le = server_readchar_le [OF r] and lt = server_readchar_shorter [OF r]
  show ?case
    using less.prems le lt less.hyps [of "request_interrupt sv2"] less.hyps [of sv2] p
    by (subst (asm) server_start.simps) (auto simp: r split: if_splits)
qed

lemma collect_packet_le: "collect_packet buf csum sv = Inr (r, sv1) \<Longrightarrow> length (pending sv1) \<le> length (pending sv)"
proof (induction "length (pending sv)" arbitrary: buf csum sv rule: less_induct)
  case less
  obtain c sv2 where r: "server_readchar sv = (c, sv2)" by (metis surj_pair)
  show ?case
    using less.prems server_readchar_le [OF r] server_readchar_shorter [OF r] less.hyps [of sv2 "buf @ [word_of_int c]" "csum + word_of_int c"]
    by (subst (asm) collect_packet.simps) (auto simp: r split: if_splits)
qed

text \<open>Interrupt characters that are already in the buffer behind a packet are consumed.\<close>

definition take_interrupts :: "server \<Rightarrow> server" where
  "take_interrupts sv = (let n = length (takeWhile (\<lambda>c. c = 3) (readchar_buf sv)) in
     sv\<lparr>readchar_buf := drop n (readchar_buf sv), interrupts := interrupts sv + n\<rparr>)"

text \<open>The length of a packet and its bytes, or a negative value.\<close>

function server_getpkt :: "server \<Rightarrow> (int \<times> uint8 list \<times> server) gdb" where
  "server_getpkt sv =
     (let (ok, sv1) = server_start sv in
      if \<not> ok then Inr (- 1, [], sv1)
      else case collect_packet [] 0 sv1 of
        Inl e \<Rightarrow> Inl e
      | Inr (None, sv2) \<Rightarrow> Inr (- 1, [], sv2)
      | Inr (Some (buf, csum), sv2) \<Rightarrow>
          let (h, sv3) = server_readchar sv2 in
          (case fromhex h of
             Inl e \<Rightarrow> Inl e
           | Inr c1 \<Rightarrow> let (l, sv4) = server_readchar sv3 in
               (case fromhex l of
                  Inl e \<Rightarrow> Inl e
                | Inr c2 \<Rightarrow>
                    if uint csum = push_bit 4 c1 + c2 \<or> sv_noack sv4
                    then Inr (int (length buf), buf, take_interrupts (if sv_noack sv4 then sv4 else write_prim [0x2b] sv4))
                    else server_getpkt (write_prim [0x2d] sv4))))"
  by pat_completeness auto

termination
proof (relation "measure (\<lambda>sv. length (pending sv))", goal_cases)
  case 1
  then show ?case by simp
next
  case prems: (2 sv x ok sv1 y r sv2 z buf csum u h sv3 c1 v l sv4 c2)
  have "length (pending sv1) < length (pending sv)" using server_start_le [of sv ok sv1] prems by simp
  moreover have "length (pending sv2) \<le> length (pending sv1)" using collect_packet_le [of "[]" 0 sv1 r sv2] prems by simp
  moreover have "length (pending sv4) \<le> length (pending sv2)"
    using server_readchar_le [of sv2 h sv3] server_readchar_le [of sv3 l sv4] prems by simp
  moreover have "pending (write_prim [0x2d] sv4) = pending sv4" by (simp add: write_prim_def pending_def)
  ultimately show ?case by simp
qed

declare server_getpkt.simps [simp del]

end
