(* ===== verification/Remote_Frames.thy ===== *)
theory Remote_Frames
  imports Remote_Packets Server_Packets
begin

text \<open>
  Frames on the line: what the encoding of runs by gdbserver stands for, and that GDB decodes it, within its buffer.
\<close>

subsection \<open>Decoding runs\<close>

text \<open>What the bytes between the start of a frame and its end stand for, after the bytes \<open>acc\<close>.\<close>

fun rle_decode :: "uint8 list \<Rightarrow> uint8 list \<Rightarrow> uint8 list option" where
  "rle_decode [] acc = Some acc"
| "rle_decode (c # s) acc =
     (if c = 0x24 \<or> c = 0x23 then None
      else if c = 0x2a
      then (case s of
          [] \<Rightarrow> None
        | d # s1 \<Rightarrow> if 29 < unat d \<and> acc \<noteq> [] then rle_decode s1 (acc @ replicate (unat d - 29) (last acc)) else None)
      else rle_decode s (acc @ [c]))"

lemma length_skip: "skip_frame_chars n \<le> n \<and> (3 \<le> n \<longrightarrow> 3 \<le> skip_frame_chars n) \<and> skip_frame_chars n + 29 \<notin> {0x23, 0x24}"
proof (induction n rule: skip_frame_chars.induct)
  case (1 n)
  then show ?case by (subst (1 2 3) skip_frame_chars.simps) auto
qed

lemma try_rle_cases:
  assumes "buf \<noteq> []" "try_rle buf = (out, n)"
  obtains (single) "out = [hd buf]" "n = 1"
    | (run) k where "3 \<le> k" "k \<le> 96" "k + 29 \<notin> {0x23, 0x24}" "n = k + 1" "out = [hd buf, 0x2a, of_nat (k + 29)]"
        "take n buf = replicate n (hd buf)" "n \<le> length buf"
proof -
  define r where "r = takeWhile (\<lambda>c. c = buf ! 0) (take (min (length buf) 97 - 1) (drop 1 buf))"
  have hd: "hd buf = buf ! 0" using assms(1) by (rule hd_conv_nth)
  have l: "length r \<le> 96" "length r \<le> length buf - 1"
    using length_takeWhile_le [of "\<lambda>c. c = buf ! 0" "take (min (length buf) 97 - 1) (drop 1 buf)"] by (simp_all add: r_def)
  have "r = take (length r) (take (min (length buf) 97 - 1) (drop 1 buf))" unfolding r_def by (rule takeWhile_eq_take)
  then have "r = take (length r) (drop 1 buf)" using l by (simp add: take_take min_def split: if_splits)
  moreover have "r = replicate (length r) (buf ! 0)" unfolding r_def by (rule replicate_eqI) (auto dest: set_takeWhileD)
  ultimately have t: "take (length r) (drop 1 buf) = replicate (length r) (buf ! 0)" by simp
  have same: "take (Suc k) buf = replicate (Suc k) (hd buf)" if "k \<le> length r" for k
  proof -
    have "take k (drop 1 buf) = take k (take (length r) (drop 1 buf))" using that by simp
    also have "\<dots> = replicate k (buf ! 0)" unfolding t using that by simp
    finally show ?thesis using assms(1) hd by (cases buf) simp_all
  qed
  show thesis
  proof (cases "length r < 3")
    case True
    then have "try_rle buf = ([buf ! 0], 1)" by (simp add: try_rle_def Let_def r_def)
    then show ?thesis using single assms(2) hd by simp
  next
    case False
    let ?k = "skip_frame_chars (length r)"
    have k: "?k \<le> length r" "3 \<le> ?k" "?k + 29 \<notin> {0x23, 0x24}" using length_skip [of "length r"] False by auto
    have "try_rle buf = ([buf ! 0, 0x2a, of_nat (?k + 29)], ?k + 1)" using False by (simp add: try_rle_def Let_def r_def)
    then have o: "out = [hd buf, 0x2a, of_nat (?k + 29)]" "n = ?k + 1" using assms(2) hd by simp_all
    show ?thesis
    proof (rule run [of ?k])
      show "take n buf = replicate n (hd buf)" unfolding o(2) using same [OF k(1)] by simp
      show "n \<le> length buf" using o(2) k(1) l(2) assms(1) by (cases buf) auto
    qed (use k l o in auto)
  qed
qed

text \<open>The encoding never needs more room than the packet, and uses the bytes that structure a frame nowhere.\<close>

lemma rle_body_ok:
  assumes "set bs \<inter> {0x23, 0x24, 0x2a} = {}"
  shows "rle_decode (rle_body bs @ s) acc = rle_decode s (acc @ bs) \<and> length (rle_body bs) \<le> length bs \<and>
    set (rle_body bs) \<inter> {0x23, 0x24} = {}"
  using assms
proof (induction "length bs" arbitrary: bs acc rule: less_induct)
  case less
  show ?case
  proof (cases "bs = []")
    case True
    then show ?thesis by (simp add: rle_body.simps)
  next
    case False
    obtain out n where t: "try_rle bs = (out, n)" by (metis surj_pair)
    have b: "rle_body bs = out @ rle_body (drop n bs)" using False t by (subst rle_body.simps) simp
    have n: "0 < n" using try_rle_consumes [of bs] t by simp
    have "length (drop n bs) < length bs" using n False by (cases bs) auto
    moreover have "set (drop n bs) \<inter> {0x23, 0x24, 0x2a} = {}" using less.prems set_drop_subset [of n bs] by blast
    ultimately have ih: "rle_decode (rle_body (drop n bs) @ s) a = rle_decode s (a @ drop n bs)"
      "length (rle_body (drop n bs)) \<le> length (drop n bs)" "set (rle_body (drop n bs)) \<inter> {0x23, 0x24} = {}" for a
      using less.hyps [of "drop n bs" a] by blast+
    have h: "hd bs \<in> set bs" "hd bs \<noteq> 0x23" "hd bs \<noteq> 0x24" "hd bs \<noteq> 0x2a" using less.prems False by (auto dest: hd_in_set)
    show ?thesis using False t
    proof (cases rule: try_rle_cases)
      case single
      have "hd bs # drop 1 bs = bs" using False by (cases bs) simp_all
      then show ?thesis using single ih h False unfolding b by (cases bs) auto
    next
      case (run k)
      have "k + 29 < 2 ^ LENGTH(8)" using run(2) by simp
      then have u: "unat (of_nat (k + 29) :: uint8) = k + 29"
        unfolding unsigned_of_nat by (subst take_bit_nat_eq_self) simp_all
      have "unat (of_nat (k + 29) :: uint8) \<notin> {unat (0x23 :: uint8), unat (0x24 :: uint8)}" using run(3) unfolding u by simp
      then have w: "(of_nat (k + 29) :: uint8) \<noteq> 0x23" "(of_nat (k + 29) :: uint8) \<noteq> 0x24" by (metis insertCI)+
      have "rle_decode (rle_body bs @ s) acc = rle_decode s (acc @ [hd bs] @ replicate k (hd bs) @ drop n bs)"
        unfolding b run(5) using h u run(1) ih(1) by simp
      moreover have "[hd bs] @ replicate k (hd bs) = take n bs" using run(4,6) by (simp add: replicate_append_same)
      ultimately have "rle_decode (rle_body bs @ s) acc = rle_decode s (acc @ bs)" by (metis append.assoc append_take_drop_id)
      moreover have "length (rle_body bs) \<le> length bs" unfolding b run(5) using ih(2) run(1,4,7) by simp
      moreover have "set (rle_body bs) \<inter> {0x23, 0x24} = {}" unfolding b run(5) using ih(3) h w by auto
      ultimately show ?thesis by blast
    qed
  qed
qed

subsection \<open>Reading a frame\<close>

text \<open>The buffer holds the bytes read so far, and has room for a NUL.\<close>

definition holds :: "uint8 list \<Rightarrow> uint8 list \<Rightarrow> bool" where
  "holds buf bs \<longleftrightarrow> length bs < length buf \<and> take (length bs) buf = bs"

lemma add_char_holds:
  assumes "holds buf bs"
  shows "\<exists>buf1. add_char c (length bs) buf = Inr buf1 \<and> holds buf1 (bs @ [c]) \<and> length buf \<le> length buf1"
proof -
  let ?b = "if length bs \<ge> length buf - 1 then buf @ replicate (length buf) 0 else buf"
  have b: "length bs + 1 < length ?b" "take (length bs) ?b = bs" "length buf \<le> length ?b"
    using assms by (auto simp: holds_def)
  have "take (length bs + 1) (?b[length bs := c]) = bs @ [c]"
    using b by (simp add: take_Suc_conv_app_nth del: if_image_distrib)
  then show ?thesis using b by (simp add: add_char_def put_char_def holds_def)
qed

lemma repeat_char_holds:
  assumes "holds buf bs" "bs \<noteq> []" "0 < n"
  shows "\<exists>buf1. repeat_char n (length bs) buf = Inr buf1 \<and> holds buf1 (bs @ replicate n (last bs)) \<and> length buf \<le> length buf1"
proof -
  define b where "b = (if length bs + n - 1 \<ge> length buf - 1 then buf @ replicate n 0 else buf)"
  have b: "length bs + n < length b" "take (length bs) b = bs" "length buf \<le> length b"
    using assms by (auto simp: holds_def b_def)
  have "b ! (length bs - 1) = take (length bs) b ! (length bs - 1)" using assms(2) by simp
  then have "b ! (length bs - 1) = last bs" using b(2) assms(2) by (simp add: last_conv_nth)
  then have "repeat_char n (length bs) buf = Inr (bs @ replicate n (last bs) @ drop (length bs + n) b)"
    unfolding repeat_char_def Let_def b_def [symmetric] using b by simp
  then show ?thesis using b by (simp add: holds_def)
qed

lemma put_nul: "holds buf bs \<Longrightarrow> put_char (length bs) 0 buf = Inr (buf[length bs := 0]) \<and> holds (buf[length bs := 0]) bs"
  by (simp add: put_char_def holds_def)

text \<open>No input makes GDB write outside the buffer, which grows as needed.\<close>

lemma readchar_Inl: "readchar s = Inl e \<Longrightarrow> e = Error"
  by (cases s) (auto split: if_splits)

lemma readchar_uint [simp]: "readchar (uint (b :: uint8) # s) = Inr (uint b, s)"
proof -
  have "0 \<le> uint b" by simp
  then have "uint b \<noteq> SERIAL_EOF" by linarith
  then show ?thesis by simp
qed

lemma frame_end_defined: "frame_end noack s csum bc buf \<noteq> Inl Undefined"
  by (auto simp: frame_end_def fromhex_def dest: readchar_Inl split: sum.splits if_splits)

lemma frame_end_buf: "frame_end noack s csum bc buf = Inr (v, buf1, s1) \<Longrightarrow> buf1 = buf"
  by (auto simp: frame_end_def split: sum.splits if_splits)

lemma read_frame_defined:
  assumes "holds buf bs"
  shows "read_frame noack s csum (length bs) buf \<noteq> Inl Undefined \<and>
    (\<forall>v buf1 s1. read_frame noack s csum (length bs) buf = Inr (v, buf1, s1) \<longrightarrow> length buf \<le> length buf1)"
  using assms
proof (induction "length s" arbitrary: s csum bs buf rule: less_induct)
  case less
  note pn = put_nul [OF less.prems]
  show ?case
  proof (cases "readchar s")
    case (Inl e)
    then show ?thesis using readchar_Inl by (subst (1 2) read_frame.simps) fastforce
  next
    case (Inr x)
    obtain c s1 where x: "readchar s = Inr (c, s1)" using Inr by (cases x) simp
    consider (stop) "c = SERIAL_TIMEOUT \<or> c = 0x24" | (finish) "c = 0x23" | (run) "c = 0x2a"
      | (char) "c \<noteq> SERIAL_TIMEOUT" "c \<noteq> 0x24" "c \<noteq> 0x23" "c \<noteq> 0x2a" by blast
    then show ?thesis
    proof cases
      case stop
      then show ?thesis by (subst (1 2) read_frame.simps) (auto simp: x)
    next
      case finish
      have e: "read_frame noack s csum (length bs) buf = frame_end noack s1 csum (length bs) (buf[length bs := 0])"
        using x finish pn by (subst read_frame.simps) simp
      have "length buf \<le> length b1" if "frame_end noack s1 csum (length bs) (buf[length bs := 0]) = Inr (v, b1, s2)" for v b1 s2
        using frame_end_buf [OF that] by simp
      then show ?thesis unfolding e using frame_end_defined by blast
    next
      case char
      obtain buf1 where b: "add_char (word_of_int c) (length bs) buf = Inr buf1" "holds buf1 (bs @ [word_of_int c])" "length buf \<le> length buf1"
        using add_char_holds [OF less.prems] by blast
      have e: "read_frame noack s csum (length bs) buf = read_frame noack s1 (csum + word_of_int c) (length (bs @ [word_of_int c :: uint8])) buf1"
        using x char b(1) by (subst read_frame.simps) simp
      have "length s1 < length s" using readchar_length [OF x] char by simp
      from less.hyps [OF this b(2), of "csum + word_of_int c"] show ?thesis unfolding e using b(3) order_trans by blast
    next
      case run
      have l1: "length s1 < length s" using readchar_length [OF x] run by simp
      show ?thesis
      proof (cases "readchar s1")
        case (Inl e)
        then show ?thesis using readchar_Inl x run by (subst (1 2) read_frame.simps) fastforce
      next
        case (Inr y)
        obtain c1 s2 where y: "readchar s1 = Inr (c1, s2)" using Inr by (cases y) simp
        have l2: "length s2 < length s" using readchar_length [OF y] l1 by simp
        show ?thesis
        proof (cases "c1 - 32 + 3 > 0 \<and> c1 - 32 + 3 \<le> 255 \<and> length bs > 0")
          case False
          then have "read_frame noack s csum (length bs) buf = Inr (- 1, buf[length bs := 0], s2)"
            using x y run pn by (subst read_frame.simps) (auto simp: Let_def)
          then show ?thesis by simp
        next
          case True
          let ?n = "nat (c1 - 32 + 3)"
          have "bs \<noteq> []" "0 < ?n" using True by auto
          from repeat_char_holds [OF less.prems this] obtain buf1 where b: "repeat_char ?n (length bs) buf = Inr buf1"
            "holds buf1 (bs @ replicate ?n (last bs))" "length buf \<le> length buf1" by blast
          have e: "read_frame noack s csum (length bs) buf =
              read_frame noack s2 (csum + word_of_int c + word_of_int c1) (length (bs @ replicate ?n (last bs))) buf1"
            using x y run True b(1) by (subst read_frame.simps) (simp add: Let_def)
          from less.hyps [OF l2 b(2), of "csum + word_of_int c + word_of_int c1"] show ?thesis unfolding e using b(3) order_trans by blast
        qed
      qed
    qed
  qed
qed

subsection \<open>The end of a frame\<close>

lemma word_of_nibbles:
  fixes c :: uint8
  shows "word_of_int (push_bit 4 (uint (drop_bit 4 c AND 0xf)) OR uint (c AND 0xf)) = c"
proof -
  let ?h = "uint (drop_bit 4 c AND 0xf)" and ?l = "uint (c AND 0xf)"
  have "take_bit 4 ?l = ?l" using nibble_range(3,4) [of c] by (simp add: take_bit_int_eq_self)
  then have "\<not> bit ?l i" if "4 \<le> i" for i using that by (metis bit_take_bit_iff leD)
  then have "push_bit 4 ?h OR ?l = push_bit 4 ?h + ?l"
    by (intro disjunctive_add [symmetric]) (auto simp: bit_push_bit_iff)
  also have "\<dots> = ?h * 16 + ?l" by (simp add: push_bit_eq_mult)
  finally show ?thesis by (simp only: byte_of_nibbles)
qed

lemma frame_end_checksum:
  "frame_end noack (map uint [tohex (uint (drop_bit 4 c AND 0xf)), tohex (uint (c AND 0xf))] @ s) csum bc buf =
     Inr (if noack \<or> csum = c then int bc else - 1, buf, s)"
proof -
  show ?thesis
    using tohex_fromhex [OF nibble_range(1,2) [of c]] tohex_fromhex [OF nibble_range(3,4) [of c]] word_of_nibbles [of c]
    by (simp add: frame_end_def del: readchar.simps)
qed

lemma read_frame_body:
  assumes "rle_decode body bs = Some data" "holds buf bs"
  shows "\<exists>buf1. read_frame noack (map uint body @ 0x23 # s) csum (length bs) buf =
      frame_end noack s (csum + sum_list body) (length data) (buf1[length data := 0]) \<and> holds buf1 data \<and> length buf \<le> length buf1"
  using assms
proof (induction "length body" arbitrary: body csum bs buf rule: less_induct)
  case less
  show ?case
  proof (cases body)
    case Nil
    then show ?thesis using less.prems put_nul [OF less.prems(2)]
      by (subst read_frame.simps) (auto intro!: exI [of _ buf])
  next
    case (Cons c body1)
    show ?thesis
    proof (cases "c = 0x2a")
      case False
      then have d: "rle_decode body1 (bs @ [c]) = Some data" and u: "uint c \<noteq> 0x24" "uint c \<noteq> 0x23" "uint c \<noteq> 0x2a" "uint c \<noteq> SERIAL_TIMEOUT"
      proof -
        have c: "c \<noteq> 0x24" "c \<noteq> 0x23" using less.prems(1) Cons by (auto split: if_splits)
        then show "rle_decode body1 (bs @ [c]) = Some data" using less.prems(1) Cons False by simp
        have "uint c \<noteq> uint (0x24 :: uint8)" "uint c \<noteq> uint (0x23 :: uint8)" "uint c \<noteq> uint (0x2a :: uint8)"
          using c False word_uint_eq_iff by metis+
        then show "uint c \<noteq> 0x24" "uint c \<noteq> 0x23" "uint c \<noteq> 0x2a" by simp_all
        have "0 \<le> uint c" by simp
        then show "uint c \<noteq> SERIAL_TIMEOUT" by linarith
      qed
      obtain buf1 where b: "add_char c (length bs) buf = Inr buf1" "holds buf1 (bs @ [c])" "length buf \<le> length buf1"
        using add_char_holds [OF less.prems(2)] by blast
      have "read_frame noack (map uint body @ 0x23 # s) csum (length bs) buf =
          read_frame noack (map uint body1 @ 0x23 # s) (csum + c) (length (bs @ [c])) buf1"
        using Cons u b(1) by (subst read_frame.simps) (simp del: readchar.simps)
      then show ?thesis using less.hyps [OF _ d b(2), of "csum + c"] Cons b(3) by (fastforce simp: add.assoc)
    next
      case True
      then obtain n body2 where n: "body1 = n # body2" "29 < unat n" "bs \<noteq> []"
        "rle_decode body2 (bs @ replicate (unat n - 29) (last bs)) = Some data"
        using less.prems(1) Cons by (auto split: list.splits if_splits)
      have star: "readchar (0x2a # s) = Inr (0x2a, s)" for s by simp
      have r: "nat (uint n - 32 + 3) = unat n - 29" "0 < uint n - 32 + 3 \<and> uint n - 32 + 3 \<le> 255"
      proof -
        have "uint n = int (unat n)" by simp
        moreover have "unat n < 256" using unat_bound [of n] by simp
        ultimately show "nat (uint n - 32 + 3) = unat n - 29" "0 < uint n - 32 + 3 \<and> uint n - 32 + 3 \<le> 255" using n(2) by linarith+
      qed
      obtain buf1 where b: "repeat_char (unat n - 29) (length bs) buf = Inr buf1"
        "holds buf1 (bs @ replicate (unat n - 29) (last bs))" "length buf \<le> length buf1"
        using repeat_char_holds [OF less.prems(2) n(3), of "unat n - 29"] n(2) by auto
      have "read_frame noack (map uint body @ 0x23 # s) csum (length bs) buf =
          read_frame noack (map uint body2 @ 0x23 # s) (csum + 0x2a + n) (length (bs @ replicate (unat n - 29) (last bs))) buf1"
        using Cons n(1,3) True r b(1) by (subst read_frame.simps) (simp add: Let_def star del: readchar.simps)
      then show ?thesis using less.hyps [OF _ n(4) b(2), of "csum + 0x2a + n"] Cons n(1) True b(3) by (fastforce simp: add.assoc)
    qed
  qed
qed

end
