(* ===== verification/Remote_Protocol.thy ===== *)
theory Remote_Protocol
  imports Remote_Frames
begin

text \<open>
  GDB and gdbserver at the two ends of a line: a packet that one side sends is what the other side receives, also when the line
  damages it and it has to be sent again.
\<close>

subsection \<open>Frames\<close>

definition checksum_digits :: "uint8 \<Rightarrow> uint8 list" where
  "checksum_digits c = [tohex (uint (drop_bit 4 c AND 0xf)), tohex (uint (c AND 0xf))]"

definition framed :: "uint8 list \<times> uint8 \<Rightarrow> uint8 list" where
  "framed f = (case f of (body, c) \<Rightarrow> [0x24] @ body @ [0x23] @ checksum_digits c)"

lemma framed_simp [simp]: "framed (body, c) = [0x24] @ body @ [0x23] @ checksum_digits c"
  by (simp add: framed_def)

lemma frames: "packet_frame buf = framed (buf, sum_list buf)" "server_frame buf False = framed (rle_body buf, sum_list (rle_body buf))"
  by (simp_all add: packet_frame_def server_frame_def checksum_digits_def Let_def)

text \<open>A frame whose checksum does not fit, but which can be read.\<close>

definition damaged :: "uint8 list \<times> uint8 \<Rightarrow> bool" where
  "damaged f \<longleftrightarrow> (case f of (body, c) \<Rightarrow> rle_decode body [] \<noteq> None \<and> sum_list body \<noteq> c)"

text \<open>In particular a frame with one changed byte.\<close>

lemma one_byte_damaged:
  assumes "i < length body" "x \<noteq> body ! i" "rle_decode (body[i := x]) [] \<noteq> None"
  shows "damaged (body[i := x], sum_list body)"
proof -
  have "sum_list (xs[i := x]) + xs ! i = sum_list xs + x" if "i < length xs" for xs :: "uint8 list"
    using that by (induction xs arbitrary: i) (auto simp: algebra_simps split: nat.split)
  from this [OF assms(1)] assms(2) have "sum_list (body[i := x]) \<noteq> sum_list body" by auto
  then show ?thesis using assms(3) by (simp add: damaged_def)
qed

lemma read_whole_frame:
  assumes "rle_decode body [] = Some data" "0 < length buf"
  shows "\<exists>buf1. read_frame noack (map uint (body @ [0x23] @ checksum_digits c) @ s) 0 0 buf =
      Inr (if noack \<or> sum_list body = c then int (length data) else - 1, buf1, s) \<and>
    holds buf1 data \<and> buf1 ! length data = 0 \<and> length buf \<le> length buf1"
proof -
  have "holds buf []" using assms(2) by (simp add: holds_def)
  from read_frame_body [OF assms(1) this, of noack "map uint (checksum_digits c) @ s" 0] obtain buf1 where
    r: "read_frame noack (map uint body @ 0x23 # map uint (checksum_digits c) @ s) 0 0 buf =
      frame_end noack (map uint (checksum_digits c) @ s) (sum_list body) (length data) (buf1[length data := 0])"
      "holds buf1 data" "length buf \<le> length buf1" by auto
  have "holds (buf1[length data := 0]) data" using r(2) by (simp add: holds_def)
  then show ?thesis
    using r frame_end_checksum [of noack c s "sum_list body" "length data" "buf1[length data := 0]"]
    by (intro exI [of _ "buf1[length data := 0]"]) (auto simp: checksum_digits_def holds_def)
qed

subsection \<open>GDB receives\<close>

lemma packet_start_found:
  "c \<in> {0x24, 0x25} \<Longrightarrow> set junk \<inter> {SERIAL_TIMEOUT, SERIAL_EOF, 0x24, 0x25} = {} \<Longrightarrow> packet_start (junk @ c # s) = Inr (c, s)"
  by (induction junk) (subst packet_start.simps; auto)+

lemma receive_after_damage:
  assumes "rle_decode body [] = Some data" "\<forall>f \<in> set bad. damaged f" "length bad < tries" "\<not> noack_mode rs"
    and "rs_input rs = junk @ map uint (concat (map framed bad) @ framed (body, sum_list body)) @ rest" "0 < length (rs_buf rs)"
    and "set junk \<inter> {SERIAL_TIMEOUT, SERIAL_EOF, 0x24, 0x25} = {}"
  shows "\<exists>buf. receive forever notif tries rs = Inr (Received 0x24 (int (length data)),
      rs\<lparr>rs_input := rest, rs_buf := buf, rs_output := rs_output rs @ replicate (length bad) 0x2d\<rparr>) \<and>
    holds buf data \<and> buf ! length data = 0"
  using assms(2-)
proof (induction bad arbitrary: tries rs junk)
  case Nil
  obtain t where t: "tries = Suc t" using Nil.prems(2) by (cases tries) auto
  obtain buf where b: "read_frame False (map uint (body @ [0x23] @ checksum_digits (sum_list body)) @ rest) 0 0 (rs_buf rs) =
      Inr (int (length data), buf, rest)" "holds buf data" "buf ! length data = 0"
    using read_whole_frame [OF assms(1) Nil.prems(5), of False "sum_list body" rest] by auto
  have "packet_start (rs_input rs) = Inr (0x24, map uint (body @ [0x23] @ checksum_digits (sum_list body)) @ rest)"
    using packet_start_found [OF _ Nil.prems(6)] Nil.prems(4) by simp
  then show ?case using b Nil.prems(3) by (intro exI [of _ buf]) (simp add: t Let_def)
next
  case (Cons f bad)
  obtain t where t: "tries = Suc t" "length bad < t" using Cons.prems(2) by (cases tries) auto
  obtain body1 c data1 where f: "f = (body1, c)" "rle_decode body1 [] = Some data1" "sum_list body1 \<noteq> c"
    using Cons.prems(1) by (cases f) (auto simp: damaged_def)
  define s where "s = map uint (concat (map framed bad) @ framed (body, sum_list body)) @ rest"
  obtain buf where b: "read_frame False (map uint (body1 @ [0x23] @ checksum_digits c) @ s) 0 0 (rs_buf rs) = Inr (- 1, buf, s)"
    "length (rs_buf rs) \<le> length buf"
    using read_whole_frame [OF f(2) Cons.prems(5), of False c s] f(3) by auto
  have "packet_start (rs_input rs) = Inr (0x24, map uint (body1 @ [0x23] @ checksum_digits c) @ s)"
    using packet_start_found [OF _ Cons.prems(6)] Cons.prems(4) by (simp add: f(1) s_def)
  then have r: "receive forever notif tries rs =
      receive forever notif t (rs\<lparr>rs_input := s, rs_buf := buf, rs_output := rs_output rs @ [0x2d]\<rparr>)"
    using b(1) Cons.prems(3) by (simp add: t Let_def remote_serial_write_def)
  have "0 < length buf" using Cons.prems(5) b(2) by linarith
  then have "\<exists>buf1. receive forever notif t (rs\<lparr>rs_input := s, rs_buf := buf, rs_output := rs_output rs @ [0x2d]\<rparr>) =
      Inr (Received 0x24 (int (length data)), rs\<lparr>rs_input := s, rs_buf := buf, rs_output := rs_output rs @ [0x2d]\<rparr>
        \<lparr>rs_input := rest, rs_buf := buf1, rs_output := (rs_output rs @ [0x2d]) @ replicate (length bad) 0x2d\<rparr>) \<and>
      holds buf1 data \<and> buf1 ! length data = 0"
    using Cons.IH [OF _ t(2), of "rs\<lparr>rs_input := s, rs_buf := buf, rs_output := rs_output rs @ [0x2d]\<rparr>" "[]"] Cons.prems b(2)
    by (simp add: s_def)
  then show ?case unfolding r by simp
qed

subsection \<open>gdbserver reads\<close>

definition connected :: "server \<Rightarrow> bool" where
  "connected sv \<longleftrightarrow> [] \<notin> set (sv_reads sv)"

lemma server_reads:
  assumes "connected sv" "pending sv = c # cs"
  shows "\<exists>buf rds. server_readchar sv = (uint c, sv\<lparr>readchar_buf := buf, sv_reads := rds\<rparr>) \<and>
    pending (sv\<lparr>readchar_buf := buf, sv_reads := rds\<rparr>) = cs \<and> connected (sv\<lparr>readchar_buf := buf, sv_reads := rds\<rparr>)"
proof (cases "readchar_buf sv")
  case (Cons d buf)
  then show ?thesis using assms
    by (intro exI [of _ buf] exI [of _ "sv_reads sv"]) (simp add: server_readchar.simps pending_def connected_def)
next
  case Nil
  then obtain d buf rds where "sv_reads sv = (d # buf) # rds"
    using assms by (cases "sv_reads sv"; cases "hd (sv_reads sv)") (auto simp: pending_def connected_def)
  then show ?thesis using assms Nil
    by (intro exI [of _ buf] exI [of _ rds]) (simp add: server_readchar.simps pending_def connected_def)
qed

lemma send_until_ack:
  assumes "connected sv" "\<not> sv_noack sv" "pending sv = replicate k 0x2d @ 0x2b # later"
  shows "\<exists>sv1. send_loop frame False sv = (1, sv1) \<and> sv_output sv1 = sv_output sv @ concat (replicate (k + 1) frame) \<and>
    pending sv1 = later \<and> connected sv1 \<and> interrupts sv1 = interrupts sv"
  using assms
proof (induction k arbitrary: sv)
  case 0
  have p: "pending (write_prim frame sv) = 0x2b # later" "connected (write_prim frame sv)"
    using 0 by (simp_all add: pending_def write_prim_def connected_def)
  from server_reads [OF p(2,1)] show ?case
    using 0 by (subst send_loop.simps) (auto simp: write_prim_def)
next
  case (Suc k)
  have p: "pending (write_prim frame sv) = 0x2d # replicate k 0x2d @ 0x2b # later" "connected (write_prim frame sv)"
    using Suc.prems by (simp_all add: pending_def write_prim_def connected_def)
  from server_reads [OF p(2,1)] obtain buf rds where r: "server_readchar (write_prim frame sv) =
      (0x2d, write_prim frame sv\<lparr>readchar_buf := buf, sv_reads := rds\<rparr>)"
    "pending (write_prim frame sv\<lparr>readchar_buf := buf, sv_reads := rds\<rparr>) = replicate k 0x2d @ 0x2b # later"
    "connected (write_prim frame sv\<lparr>readchar_buf := buf, sv_reads := rds\<rparr>)" by auto
  let ?sv = "write_prim frame sv\<lparr>readchar_buf := buf, sv_reads := rds\<rparr>"
  have "send_loop frame False sv = send_loop frame False ?sv"
    using Suc.prems(2) r(1) by (subst send_loop.simps) (simp add: Let_def)
  moreover have "\<not> sv_noack ?sv" using Suc.prems(2) by (simp add: write_prim_def)
  ultimately show ?case using Suc.IH [OF r(3) _ r(2)] by (auto simp: write_prim_def)
qed

text \<open>C22: A packet that gdbserver sends is received by GDB, behind other characters, also when the line damages the first one or two copies of the frame: GDB
answers each of them with a minus sign and the intact one with a plus sign, gdbserver sends the frame until then, within the memory it
has allocated, and the buffer of GDB holds the packet with the runs expanded.\<close>

theorem packet_reaches_gdb:
  assumes "set bs \<inter> {0x23, 0x24, 0x2a} = {}" "\<forall>f \<in> set bad. damaged f" "length bad \<le> 2"
    and gdb: "\<not> noack_mode rs" "8 \<le> length (rs_buf rs)"
      "rs_input rs = junk @ map uint (concat (map framed bad) @ server_frame bs False) @ rest"
      "set junk \<inter> {SERIAL_TIMEOUT, SERIAL_EOF, 0x24, 0x25} = {}"
    and server: "connected sv" "\<not> sv_noack sv" "pending sv = replicate (length bad) 0x2d @ 0x2b # later"
  shows "\<exists>rs1 sv1. getpkt forever notif rs = Inr (int (length bs), Some False, rs1) \<and>
    take (length bs) (rs_buf rs1) = bs \<and> rs_buf rs1 ! length bs = 0 \<and> rs_input rs1 = rest \<and> rs_notifs rs1 = rs_notifs rs \<and>
    rs_output rs1 = rs_output rs @ replicate (length bad) 0x2d @ [0x2b] \<and>
    putpkt_binary_1 bs False sv = Inr (1, sv1) \<and> pending sv1 = later \<and>
    sv_output sv1 = sv_output sv @ concat (replicate (length bad + 1) (server_frame bs False))"
proof -
  note body = rle_body_ok [OF assms(1), of "[]" "[]", simplified]
  define rs0 where "rs0 = rs\<lparr>rs_buf := [0x74, 0x69, 0x6d, 0x65, 0x6f, 0x75, 0x74, 0] @ drop 8 (rs_buf rs)\<rparr>"
  have "\<exists>buf. receive forever notif 3 rs0 = Inr (Received 0x24 (int (length bs)),
      rs0\<lparr>rs_input := rest, rs_buf := buf, rs_output := rs_output rs0 @ replicate (length bad) 0x2d\<rparr>) \<and> holds buf bs \<and> buf ! length bs = 0"
    by (rule receive_after_damage) (use body assms(2,3) gdb in \<open>simp_all add: frames rs0_def\<close>)
  then obtain buf where r: "receive forever notif 3 rs0 = Inr (Received 0x24 (int (length bs)),
      rs0\<lparr>rs_input := rest, rs_buf := buf, rs_output := rs_output rs0 @ replicate (length bad) 0x2d\<rparr>)"
    "holds buf bs" "buf ! length bs = 0" by blast
  have g: "getpkt forever notif rs = Inr (int (length bs), Some False,
      rs\<lparr>rs_input := rest, rs_buf := buf, rs_output := rs_output rs @ replicate (length bad) 0x2d @ [0x2b]\<rparr>)"
  proof -
    have "getpkt forever notif rs = getpkt_loop forever notif rs0" using gdb(2) by (simp add: getpkt_def rs0_def)
    also have "\<dots> = Inr (int (length bs), Some False, send_ack (rs0\<lparr>rs_input := rest, rs_buf := buf,
        rs_output := rs_output rs0 @ replicate (length bad) 0x2d\<rparr>))"
      by (subst getpkt_loop.simps) (simp add: r(1))
    finally show ?thesis using gdb(1) by (simp add: send_ack_def remote_serial_write_def rs0_def)
  qed
  have "length (server_frame bs False) + 1 \<le> length bs + 5" using body by (simp add: server_frame_def Let_def)
  then have "putpkt_binary_1 bs False sv = Inr (send_loop (server_frame bs False) False sv)" by (simp add: putpkt_binary_1_def)
  with send_until_ack [OF server] obtain sv1 where "putpkt_binary_1 bs False sv = Inr (1, sv1)" "pending sv1 = later"
    "sv_output sv1 = sv_output sv @ concat (replicate (length bad + 1) (server_frame bs False))" by metis
  then show ?thesis using g r(2,3) unfolding holds_def
    by (intro exI [of _ "rs\<lparr>rs_input := rest, rs_buf := buf, rs_output := rs_output rs @ replicate (length bad) 0x2d @ [0x2b]\<rparr>"] exI [of _ sv1]) simp
qed

subsection \<open>gdbserver receives\<close>

definition reads_on :: "server \<Rightarrow> server \<Rightarrow> uint8 list \<Rightarrow> bool" where
  "reads_on sv sv1 rest \<longleftrightarrow> pending sv1 = rest \<and> connected sv1 \<and> sv_noack sv1 = sv_noack sv \<and> own_buf_size sv1 = own_buf_size sv \<and>
     sv_output sv1 = sv_output sv \<and> has_thread sv1 = has_thread sv"

lemma reads_on_trans: "reads_on sv sv1 s \<Longrightarrow> reads_on sv1 sv2 s2 \<Longrightarrow> reads_on sv sv2 s2"
  by (simp add: reads_on_def)

lemma server_reads_on:
  assumes "connected sv" "pending sv = c # cs"
  obtains sv1 where "server_readchar sv = (uint c, sv1)" "reads_on sv sv1 cs" "interrupts sv1 = interrupts sv"
  using server_reads [OF assms] that unfolding reads_on_def by fastforce

lemma uint_byte_eq: "uint (c :: uint8) = uint d \<longleftrightarrow> c = d"
  by (simp add: word_uint_eq_iff)

lemma server_start_found:
  assumes "connected sv" "pending sv = junk @ 0x24 # s" "0x24 \<notin> set junk"
  shows "\<exists>sv1. server_start sv = (True, sv1) \<and> reads_on sv sv1 s \<and> interrupts sv1 = interrupts sv + count_list junk 3"
  using assms
proof (induction junk arbitrary: sv)
  case Nil
  obtain sv1 where r: "server_readchar sv = (uint (0x24 :: uint8), sv1)" "reads_on sv sv1 s" "interrupts sv1 = interrupts sv"
    using server_reads_on [OF Nil.prems(1)] Nil.prems(2) by auto
  then have "server_start sv = (True, sv1)" by (subst server_start.simps) simp
  then show ?case using r by simp
next
  case (Cons c junk)
  obtain sv1 where r: "server_readchar sv = (uint c, sv1)" "reads_on sv sv1 (junk @ 0x24 # s)" "interrupts sv1 = interrupts sv"
    using server_reads_on [OF Cons.prems(1)] Cons.prems(2) by auto
  let ?sv2 = "if c = 3 then request_interrupt sv1 else sv1"
  have "uint c = 3 \<longleftrightarrow> c = 3" using uint_byte_eq [of c 3] by simp
  moreover have "uint c \<noteq> 0x24" using uint_byte_eq [of c 36] Cons.prems(3) by auto
  moreover have "\<not> uint c < 0" by simp
  ultimately have e: "server_start sv = server_start ?sv2" using r(1) by (subst server_start.simps) (simp add: Let_def)
  have s2: "reads_on sv ?sv2 (junk @ 0x24 # s)" "interrupts ?sv2 = interrupts sv + (if c = 3 then 1 else 0)"
  proof -
    have "reads_on sv1 (request_interrupt sv1) (junk @ 0x24 # s)"
      using r(2) by (simp add: reads_on_def request_interrupt_def pending_def connected_def)
    then show "reads_on sv ?sv2 (junk @ 0x24 # s)" using r(2) reads_on_trans by auto
    show "interrupts ?sv2 = interrupts sv + (if c = 3 then 1 else 0)" using r(3) by (simp add: request_interrupt_def)
  qed
  have "\<exists>sv3. server_start ?sv2 = (True, sv3) \<and> reads_on ?sv2 sv3 s \<and> interrupts sv3 = interrupts ?sv2 + count_list junk 3"
    by (rule Cons.IH) (use s2(1) Cons.prems(3) in \<open>auto simp: reads_on_def\<close>)
  then obtain sv3 where i: "server_start ?sv2 = (True, sv3)" "reads_on ?sv2 sv3 s" "interrupts sv3 = interrupts ?sv2 + count_list junk 3" by blast
  have "interrupts sv3 = interrupts sv + count_list (c # junk) 3" using i(3) unfolding s2(2) by simp
  then show ?case using i(1) reads_on_trans [OF s2(1) i(2)] unfolding e by blast
qed

lemma collect_whole:
  assumes "connected sv" "pending sv = bs @ 0x23 # s" "0x23 \<notin> set bs" "length buf + length bs < own_buf_size sv"
  shows "\<exists>sv1. collect_packet buf csum sv = Inr (Some (buf @ bs, csum + sum_list bs), sv1) \<and> reads_on sv sv1 s \<and> interrupts sv1 = interrupts sv"
  using assms
proof (induction bs arbitrary: buf csum sv)
  case Nil
  obtain sv1 where r: "server_readchar sv = (uint (0x23 :: uint8), sv1)" "reads_on sv sv1 s" "interrupts sv1 = interrupts sv"
    using server_reads_on [OF Nil.prems(1)] Nil.prems(2) by auto
  then have "collect_packet buf csum sv = Inr (Some (buf, csum), sv1)" using Nil.prems(4) by (subst collect_packet.simps) simp
  then show ?case using r by simp
next
  case (Cons c bs)
  obtain sv1 where r: "server_readchar sv = (uint c, sv1)" "reads_on sv sv1 (bs @ 0x23 # s)" "interrupts sv1 = interrupts sv"
    using server_reads_on [OF Cons.prems(1)] Cons.prems(2) by auto
  have "uint c \<noteq> 0x23" using uint_byte_eq [of c 35] Cons.prems(3) by auto
  moreover have "\<not> uint c < 0" by simp
  ultimately have e: "collect_packet buf csum sv = collect_packet (buf @ [c]) (csum + c) sv1"
    using r(1) Cons.prems(4) by (subst collect_packet.simps) (simp add: Let_def)
  have "\<exists>sv2. collect_packet (buf @ [c]) (csum + c) sv1 = Inr (Some ((buf @ [c]) @ bs, csum + c + sum_list bs), sv2) \<and>
      reads_on sv1 sv2 s \<and> interrupts sv2 = interrupts sv1"
    by (rule Cons.IH) (use r(2) Cons.prems in \<open>auto simp: reads_on_def\<close>)
  then obtain sv2 where "collect_packet (buf @ [c]) (csum + c) sv1 = Inr (Some (buf @ c # bs, csum + (c + sum_list bs)), sv2)"
    "reads_on sv1 sv2 s" "interrupts sv2 = interrupts sv1" by (auto simp: add.assoc)
  then show ?case using reads_on_trans [OF r(2)] r(3) unfolding e by auto
qed

lemma nibbles_sum:
  fixes c :: uint8
  shows "push_bit 4 (uint (drop_bit 4 c AND 0xf)) + uint (c AND 0xf) = uint c"
proof -
  let ?n = "uint (drop_bit 4 c AND 0xf) * 16 + uint (c AND 0xf)"
  have n: "0 \<le> ?n" "?n < 256" using nibble_range [of c] by linarith+
  have "uint c = uint (word_of_int ?n :: uint8)" by (simp only: byte_of_nibbles)
  also have "\<dots> = ?n"
  proof -
    have "uint (word_of_int k :: uint8) = k" if "0 \<le> k" "k < 256" for k :: int using that by (simp add: uint_word_of_int)
    then show ?thesis using n by blast
  qed
  finally show ?thesis by (simp add: push_bit_eq_mult)
qed

lemma server_reads_frame:
  assumes "connected sv" "\<not> sv_noack sv" "pending sv = junk @ framed (body, c) @ s" "0x24 \<notin> set junk"
    and "0x23 \<notin> set body" "length body < own_buf_size sv"
  shows "\<exists>sv1. reads_on sv sv1 s \<and>
    server_getpkt sv = (if sum_list body = c then Inr (int (length body), body, take_interrupts (write_prim [0x2b] sv1))
      else server_getpkt (write_prim [0x2d] sv1))"
proof -
  let ?h = "tohex (uint (drop_bit 4 c AND 0xf))" and ?l = "tohex (uint (c AND 0xf))"
  have "pending sv = junk @ 0x24 # body @ 0x23 # ?h # ?l # s" using assms(3) by (simp add: checksum_digits_def)
  then obtain sv1 where s1: "server_start sv = (True, sv1)" "reads_on sv sv1 (body @ 0x23 # ?h # ?l # s)"
    using server_start_found [OF assms(1) _ assms(4)] by blast
  have r1: "connected sv1" "pending sv1 = body @ 0x23 # ?h # ?l # s" "length ([] :: uint8 list) + length body < own_buf_size sv1"
    using s1(2) assms(6) by (simp_all add: reads_on_def)
  obtain sv2 where s2: "collect_packet [] 0 sv1 = Inr (Some (body, sum_list body), sv2)" "reads_on sv1 sv2 (?h # ?l # s)"
    using collect_whole [OF r1(1,2) assms(5) r1(3), of 0] by auto
  have r2: "connected sv2" "pending sv2 = ?h # ?l # s" using s2(2) by (simp_all add: reads_on_def)
  obtain sv3 where s3: "server_readchar sv2 = (uint ?h, sv3)" "reads_on sv2 sv3 (?l # s)" using server_reads_on [OF r2] by blast
  have r3: "connected sv3" "pending sv3 = ?l # s" using s3(2) by (simp_all add: reads_on_def)
  obtain sv4 where s4: "server_readchar sv3 = (uint ?l, sv4)" "reads_on sv3 sv4 s" using server_reads_on [OF r3] by blast
  have on: "reads_on sv sv4 s" using s1(2) s2(2) s3(2) s4(2) reads_on_trans by blast
  then have "\<not> sv_noack sv4" using assms(2) by (simp add: reads_on_def)
  then have "server_getpkt sv = (if sum_list body = c then Inr (int (length body), body, take_interrupts (write_prim [0x2b] sv4))
      else server_getpkt (write_prim [0x2d] sv4))"
    using tohex_fromhex [OF nibble_range(1,2) [of c]] tohex_fromhex [OF nibble_range(3,4) [of c]] s1(1) s2(1) s3(1) s4(1)
      nibbles_sum [of c]
    by (subst server_getpkt.simps) (simp add: Let_def uint_byte_eq)
  then show ?thesis using on by blast
qed

text \<open>A frame whose checksum does not fit and that the buffer of gdbserver holds.\<close>

definition server_damaged :: "nat \<Rightarrow> uint8 list \<times> uint8 \<Rightarrow> bool" where
  "server_damaged n f \<longleftrightarrow> (case f of (body, c) \<Rightarrow> 0x23 \<notin> set body \<and> length body < n \<and> sum_list body \<noteq> c)"

lemma take_interrupts_pending:
  "\<exists>n. pending sv = replicate n 3 @ pending (take_interrupts sv) \<and> sv_output (take_interrupts sv) = sv_output sv \<and>
     interrupts (take_interrupts sv) = interrupts sv + n"
proof -
  let ?t = "takeWhile (\<lambda>c. c = 3) (readchar_buf sv)"
  have "?t = replicate (length ?t) 3" by (rule replicate_eqI) (auto dest: set_takeWhileD)
  then have "readchar_buf sv = replicate (length ?t) 3 @ drop (length ?t) (readchar_buf sv)"
    by (metis append_take_drop_id takeWhile_eq_take)
  then show ?thesis by (intro exI [of _ "length ?t"]) (simp add: take_interrupts_def pending_def Let_def)
qed

lemma server_getpkt_after_damage:
  assumes "connected sv" "\<not> sv_noack sv" "pending sv = junk @ concat (map framed bad) @ packet_frame bs @ rest" "0x24 \<notin> set junk"
    and "0x23 \<notin> set bs" "length bs < own_buf_size sv" "\<forall>f \<in> set bad. server_damaged (own_buf_size sv) f"
  shows "\<exists>sv1 n. server_getpkt sv = Inr (int (length bs), bs, sv1) \<and>
    sv_output sv1 = sv_output sv @ replicate (length bad) 0x2d @ [0x2b] \<and> rest = replicate n 3 @ pending sv1"
  using assms
proof (induction bad arbitrary: sv junk)
  case Nil
  then obtain sv1 where r: "reads_on sv sv1 rest"
    "server_getpkt sv = Inr (int (length bs), bs, take_interrupts (write_prim [0x2b] sv1))"
    using server_reads_frame [of sv junk bs "sum_list bs" rest] by (auto simp: frames(1))
  obtain n where "pending (write_prim [0x2b] sv1) = replicate n 3 @ pending (take_interrupts (write_prim [0x2b] sv1))"
    "sv_output (take_interrupts (write_prim [0x2b] sv1)) = sv_output (write_prim [0x2b] sv1)"
    using take_interrupts_pending by blast
  then show ?case using r by (auto simp: reads_on_def pending_def write_prim_def)
next
  case (Cons f bad)
  obtain body c where f: "f = (body, c)" "0x23 \<notin> set body" "length body < own_buf_size sv" "sum_list body \<noteq> c"
    using Cons.prems(7) by (cases f) (auto simp: server_damaged_def)
  have p: "pending sv = junk @ framed (body, c) @ concat (map framed bad) @ packet_frame bs @ rest"
    using Cons.prems(3) by (simp add: f(1))
  obtain sv1 where r: "reads_on sv sv1 (concat (map framed bad) @ packet_frame bs @ rest)" "server_getpkt sv = server_getpkt (write_prim [0x2d] sv1)"
    using server_reads_frame [OF Cons.prems(1,2) p Cons.prems(4) f(2,3)] f(4) by auto
  have "\<exists>sv2 n. server_getpkt (write_prim [0x2d] sv1) = Inr (int (length bs), bs, sv2) \<and>
      sv_output sv2 = sv_output (write_prim [0x2d] sv1) @ replicate (length bad) 0x2d @ [0x2b] \<and> rest = replicate n 3 @ pending sv2"
    by (rule Cons.IH [where junk = "[]"]) (use r(1) Cons.prems in \<open>auto simp: reads_on_def write_prim_def pending_def connected_def\<close>)
  then show ?case using r by (auto simp: reads_on_def write_prim_def)
qed

subsection \<open>GDB sends\<close>

lemma putpkt_until_ack:
  assumes "\<not> noack_mode rs" "rs_input rs = replicate k 0x2d @ 0x2b # rest" "tcount + k \<le> 3"
  shows "putpkt_loop frame tcount rs =
    Inr (1, rs\<lparr>rs_input := rest, rs_output := rs_output rs @ concat (replicate (k + 1) frame)\<rparr>)"
  using assms
proof (induction k arbitrary: tcount rs)
  case 0
  then show ?case by (subst putpkt_loop.simps, subst await_ack.simps) (simp add: remote_serial_write_def Let_def)
next
  case (Suc k)
  let ?rs = "rs\<lparr>rs_output := rs_output rs @ frame, rs_input := replicate k 0x2d @ 0x2b # rest\<rparr>"
  have "putpkt_loop frame tcount rs = putpkt_loop frame (tcount + 1) ?rs"
    using Suc.prems by (subst putpkt_loop.simps, subst await_ack.simps) (simp add: remote_serial_write_def Let_def)
  also have "\<dots> = Inr (1, ?rs\<lparr>rs_input := rest, rs_output := rs_output ?rs @ concat (replicate (k + 1) frame)\<rparr>)"
    by (rule Suc.IH) (use Suc.prems in simp_all)
  finally show ?case by simp
qed

text \<open>C23: A packet that GDB sends is received by gdbserver, also when the line damages the first copies of the frame, at most three of
them: gdbserver answers each of them with a minus sign and the intact one with a plus sign, GDB sends the frame until then, and the
interrupt characters around the packet are the only input that gdbserver consumes besides.\<close>

theorem packet_reaches_server:
  assumes "0x23 \<notin> set bs" "length bad \<le> 3"
    and server: "connected sv" "\<not> sv_noack sv" "length bs < own_buf_size sv" "\<forall>f \<in> set bad. server_damaged (own_buf_size sv) f"
      "pending sv = junk @ concat (map framed bad) @ packet_frame bs @ later" "0x24 \<notin> set junk"
    and gdb: "\<not> noack_mode rs" "\<not> busy rs" "rs_input rs = replicate (length bad) 0x2d @ 0x2b # rest"
  shows "\<exists>sv1 n. server_getpkt sv = Inr (int (length bs), bs, sv1) \<and> later = replicate n 3 @ pending sv1 \<and>
    sv_output sv1 = sv_output sv @ replicate (length bad) 0x2d @ [0x2b] \<and>
    putpkt_binary bs rs = Inr (1, rs\<lparr>rs_input := rest, rs_output := rs_output rs @ concat (replicate (length bad + 1) (packet_frame bs))\<rparr>)"
proof -
  have "putpkt_binary bs rs = Inr (1, rs\<lparr>rs_input := rest, rs_output := rs_output rs @ concat (replicate (length bad + 1) (packet_frame bs))\<rparr>)"
    unfolding putpkt_binary_def using gdb(2) putpkt_until_ack [OF gdb(1,3), of 0] assms(2) by simp
  then show ?thesis using server_getpkt_after_damage [OF server(1,2,5,6) assms(1) server(3,4)] by auto
qed

subsection \<open>Examples\<close>

text \<open>The two ends of a line in a session with acknowledgements.\<close>

definition gdb_end :: "stream \<Rightarrow> remote" where
  "gdb_end s = \<lparr>noack_mode = False, busy = False, rs_input = s, rs_output = [], rs_notifs = [], rs_buf = replicate 16 0\<rparr>"

definition server_end :: "uint8 list list \<Rightarrow> server" where
  "server_end rds = \<lparr>sv_noack = False, readchar_buf = [], sv_reads = rds, sv_output = [], interrupts = 0, has_thread = True, own_buf_size = 64\<rparr>"

text \<open>Five equal bytes, the first copy of which is damaged.\<close>

theorem packet_reaches_gdb_witness:
  "\<exists>rs1 sv1. getpkt False False (gdb_end (map uint (framed ([0x31, 0x2a, 0x21], 0x7b) @ framed ([0x30, 0x2a, 0x21], 0x7b)))) =
      Inr (5, Some False, rs1) \<and> take 5 (rs_buf rs1) = replicate 5 0x30 \<and> rs_output rs1 = [0x2d, 0x2b] \<and>
    putpkt_binary_1 (replicate 5 0x30) False (server_end [[0x2d], [0x2b]]) = Inr (1, sv1)"
proof -
  have t: "server_frame (replicate 5 0x30) False = framed ([0x30, 0x2a, 0x21], 0x7b)" by code_simp
  have bs: "set (replicate 5 (0x30 :: uint8)) \<inter> {0x23, 0x24, 0x2a} = {}" by simp
  have d: "\<forall>f \<in> set [([0x31, 0x2a, 0x21], 0x7b)]. damaged f" by code_simp
  have l: "length [([0x31 :: uint8, 0x2a, 0x21], 0x7b :: uint8)] \<le> 2" by simp
  note r = packet_reaches_gdb [OF bs d l, of "gdb_end (map uint (framed ([0x31, 0x2a, 0x21], 0x7b) @ framed ([0x30, 0x2a, 0x21], 0x7b)))" "[]" "[]"
      "server_end [[0x2d], [0x2b]]" "[]" False False]
  show ?thesis using r unfolding t by (auto simp: gdb_end_def server_end_def connected_def pending_def)
qed

theorem packet_reaches_server_witness:
  "\<exists>sv1. server_getpkt (server_end [[0x03, 0x24, 0x67], [0x23, 0x36, 0x37, 0x03]]) = Inr (1, [0x67], sv1) \<and>
    sv_output sv1 = [0x2b] \<and> putpkt_binary [0x67] (gdb_end [0x2b]) = Inr (1, (gdb_end [])\<lparr>rs_output := packet_frame [0x67]\<rparr>)"
proof -
  have t: "packet_frame [0x67] = [0x24, 0x67, 0x23, 0x36, 0x37]" by code_simp
  have f: "(0x23 :: uint8) \<notin> set [0x67]" "length ([] :: (uint8 list \<times> uint8) list) \<le> 3" by simp_all
  from packet_reaches_server [OF f, of "server_end [[0x03, 0x24, 0x67], [0x23, 0x36, 0x37, 0x03]]" "[3]" "[3]" "gdb_end [0x2b]" "[]"]
  show ?thesis by (auto simp: t gdb_end_def server_end_def connected_def pending_def)
qed

subsection \<open>Any input\<close>

lemma receive_defined:
  "0 < length (rs_buf rs) \<Longrightarrow> receive forever notif tries rs \<noteq> Inl Undefined \<and>
     (\<forall>r rs1. receive forever notif tries rs = Inr (r, rs1) \<longrightarrow> length (rs_buf rs) \<le> length (rs_buf rs1))"
proof (induction tries arbitrary: rs)
  case (Suc tries)
  have ps: "e = Error" if "packet_start s = Inl e" for s e
    using that
  proof (induction "length s" arbitrary: s rule: less_induct)
    case less
    show ?case using less.prems less.hyps
      by (subst (asm) packet_start.simps) (auto split: sum.split_asm if_split_asm dest: readchar_Inl readchar_length)
  qed
  show ?case
  proof (cases "packet_start (rs_input rs)")
    case (Inl e)
    then show ?thesis using ps by auto
  next
    case (Inr x)
    obtain c s1 where x: "packet_start (rs_input rs) = Inr (c, s1)" using Inr by (cases x) simp
    show ?thesis
    proof (cases "c = SERIAL_TIMEOUT")
      case True
      then show ?thesis using x Suc.IH [of "remote_serial_write [0x2d] (rs\<lparr>rs_input := s1\<rparr>)"] Suc.prems
        by (auto simp: remote_serial_write_def)
    next
      case False
      have "holds (rs_buf rs) []" using Suc.prems by (simp add: holds_def)
      from read_frame_defined [OF this, of "noack_mode rs" s1 0]
      have d: "read_frame (noack_mode rs) s1 0 0 (rs_buf rs) \<noteq> Inl Undefined"
        "\<And>v b s2. read_frame (noack_mode rs) s1 0 0 (rs_buf rs) = Inr (v, b, s2) \<Longrightarrow> length (rs_buf rs) \<le> length b" by auto
      show ?thesis
      proof (cases "read_frame (noack_mode rs) s1 0 0 (rs_buf rs)")
        case (Inl e)
        then show ?thesis using x False d(1) by simp
      next
        case (Inr y)
        obtain v b s2 where y: "read_frame (noack_mode rs) s1 0 0 (rs_buf rs) = Inr (v, b, s2)" using Inr by (cases y) simp
        have l: "length (rs_buf rs) \<le> length b" by (rule d(2) [OF y])
        let ?rs = "remote_serial_write [0x2d] (rs\<lparr>rs_input := s2, rs_buf := b\<rparr>)"
        have e: "receive forever notif (Suc tries) rs =
            (if v \<ge> 0 then Inr (Received c v, rs\<lparr>rs_input := s2, rs_buf := b\<rparr>) else receive forever notif tries ?rs)"
          using x y False by (simp add: Let_def)
        have b: "length (rs_buf rs) \<le> length (rs_buf ?rs)" using l by (simp add: remote_serial_write_def)
        then have "0 < length (rs_buf ?rs)" using Suc.prems by linarith
        from Suc.IH [OF this] show ?thesis unfolding e using l b by (auto intro: order_trans)
      qed
    qed
  qed
qed simp

lemma getpkt_loop_defined:
  "0 < length (rs_buf rs) \<Longrightarrow> getpkt_loop forever notif rs \<noteq> Inl Undefined \<and>
     (\<forall>v n rs1. getpkt_loop forever notif rs = Inr (v, n, rs1) \<longrightarrow> length (rs_buf rs) \<le> length (rs_buf rs1))"
proof (induction "length (rs_input rs)" arbitrary: rs rule: less_induct)
  case less
  note rd = receive_defined [OF less.prems, of forever notif 3]
  show ?case
  proof (cases "receive forever notif 3 rs")
    case (Inl e)
    then show ?thesis using rd by (subst (1 2) getpkt_loop.simps) simp
  next
    case (Inr x)
    obtain r rs1 where x: "receive forever notif 3 rs = Inr (r, rs1)" using Inr by (cases x) simp
    have l: "length (rs_buf rs) \<le> length (rs_buf rs1)" using rd x by blast
    show ?thesis
    proof (cases "\<exists>c v. r = Received c v \<and> c \<noteq> 0x24 \<and> \<not> notif")
      case False
      then show ?thesis using x l
        by (subst (1 2) getpkt_loop.simps)
          (auto simp: send_ack_def remote_serial_write_def handle_notification_def Let_def split: attempt.split)
    next
      case True
      then have e: "getpkt_loop forever notif rs = getpkt_loop forever notif (handle_notification rs1)"
        using x by (subst getpkt_loop.simps) auto
      have h: "rs_buf (handle_notification rs1) = rs_buf rs1" "rs_input (handle_notification rs1) = rs_input rs1"
        by (simp_all add: handle_notification_def)
      have s: "length (rs_input (handle_notification rs1)) < length (rs_input rs)" using receive_length [OF x] True h(2) by auto
      have p: "0 < length (rs_buf (handle_notification rs1))" unfolding h(1) using l less.prems by linarith
      from less.hyps [OF s p] show ?thesis unfolding e h(1) using l order_trans by blast
    qed
  qed
qed

text \<open>C24: Whatever arrives, GDB returns from receiving a packet, with an error at worst, and never writes outside the packet buffer, which
grows as needed but never shrinks.\<close>

theorem packet_buffer_safe:
  assumes "8 \<le> length (rs_buf rs)"
  shows "getpkt forever notif rs \<noteq> Inl Undefined \<and>
    (\<forall>v n rs1. getpkt forever notif rs = Inr (v, n, rs1) \<longrightarrow> length (rs_buf rs) \<le> length (rs_buf rs1))"
proof -
  let ?rs = "rs\<lparr>rs_buf := [0x74, 0x69, 0x6d, 0x65, 0x6f, 0x75, 0x74, 0] @ drop 8 (rs_buf rs)\<rparr>"
  have l: "length (rs_buf ?rs) = length (rs_buf rs)" using assms by simp
  have "0 < length (rs_buf ?rs)" by simp
  from getpkt_loop_defined [OF this, of forever notif] show ?thesis unfolding l using assms by (simp add: getpkt_def)
qed

theorem packet_buffer_safe_witness: "getpkt False False (gdb_end [0x24, 0x30, 0x2a, 0x7e, 0x30, 0x30]) \<noteq> Inl Undefined"
  using packet_buffer_safe [of "gdb_end [0x24, 0x30, 0x2a, 0x7e, 0x30, 0x30]" False False] by (simp add: gdb_end_def)

text \<open>A checksum that is damaged to something else than digits makes GDB raise an error instead of asking for the packet again.\<close>

lemma damaged_digit_raises: "getpkt False False (gdb_end [0x24, 0x23, 0x67, 0x30]) = Inl Error"
  by code_simp

text \<open>An error of the line within a packet counts as a byte of the packet.\<close>

lemma serial_error_is_data:
  "case getpkt False False (gdb_end [0x24, SERIAL_ERROR, 0x23, 0x66, 0x66]) of
     Inl e \<Rightarrow> False | Inr (v, n, rs1) \<Rightarrow> v = 1 \<and> rs_buf rs1 ! 0 = 0xff"
  by code_simp

text \<open>gdbserver writes a packet that is longer than its buffer beyond the end of it.\<close>

lemma long_packet_overflows:
  "server_getpkt ((server_end [[0x24, 0x30, 0x30, 0x30, 0x23]])\<lparr>own_buf_size := 3\<rparr>) = Inl Undefined"
  by code_simp

end
