(* ===== verification/Spec2Isabelle.thy ===== *)
theory Spec2Isabelle
  imports Addrmap Prologue_Value Agent_Eval X86_Dregs Sim_Core Synacor Moxie Tile_Evaluate Seen_Cache
    Partition Target_Transfers Remote_Protocol
begin

text \<open>
  LATIAS evaluates tile-based mappings of tensor programs onto hierarchical accelerators. The
  repository holds its sources (\<^verbatim>\<open>src\<close>, \<^verbatim>\<open>include\<close>, C++), the timeloop sources it links
  (\<^verbatim>\<open>3rdparty/timeloop\<close>) and the GDB 15.1 release (\<^verbatim>\<open>gdb-15.1\<close>, C). This library models the loop
  analysis and the cost model of LATIAS, and of GDB the parts whose logic can be separated from the
  process being debugged. All file names are relative to the root of the repository.

  \<^bold>\<open>Theories and what they model.\<close>

  \<^item> \<open>Prelude\<close>: machine integers, facts on sorted association lists, and the ways in which a GDB
    function does not return (\<open>gdb_error\<close>).
  \<^item> \<open>Tile_Loops\<close> (\<^verbatim>\<open>src/loop-analysis/constraint.cpp\<close>, \<^verbatim>\<open>init.cpp\<close>, \<^verbatim>\<open>common.cpp\<close>, the loops of
    \<^verbatim>\<open>performance.cpp\<close>): the mapping tree as a datatype of nodes with attributes; the loop count of every
    dimension and the check against the bounds of the problem; the offsets of the tiles, found by a
    breadth-first search; the iterations of \<open>visitTileLoop\<close>, where a loop runs to its residual end when
    all enclosing loops of its dimension are in their last iteration. The count is proved to be the
    number of indices visited, an accepted mapping to visit each point of the problem exactly once, and
    the offsets to be the extents of the loops further in. Integer overflow is a value of the error type,
    so that the bounds under which none happens are part of the theorems.
  \<^item> \<open>Tile_Cost\<close> (\<^verbatim>\<open>src/mapper/expr.cpp\<close>, \<^verbatim>\<open>src/loop-analysis/performance.cpp\<close>,
    \<^verbatim>\<open>src/model/interconnection.cpp\<close>): data movement between tensor ranges, proved to be the size of the
    difference of two boxes; connections and fans; the latency of scopes and of temporal and spatial
    tiles.
  \<^item> \<open>Tile_Tensors\<close>, \<open>Tile_Outputs\<close> (\<^verbatim>\<open>src/loop-analysis/init.cpp\<close>): the two passes that list the leaves and
    the producers and attach tensors to nodes. The inputs of a tile are proved to be what its operations
    read and none of them writes, the outputs of leaves and tiles are given by the order of the leaves, and the
    passes are proved to return exactly when the problem knows the operations and no two of them write the
    same tensor.
  \<^item> \<open>Tile_Walk\<close> (\<^verbatim>\<open>src/loop-analysis/performance.cpp\<close>): the walk over the tree, with the stacks of the loops,
    the ranges and data movement of a tile that is entered, the sources and targets of transfers, and the
    latencies that are handed up. \<open>Tile_Visits\<close> proves that a visit restores the stacks and gives an entry
    of latencies for every iteration; \<open>Tile_Ranges\<close> that the ranges of a tile are covered by the
    indices visited, and when they are all of them.
  \<^item> \<open>Tile_Evaluate\<close> (\<^verbatim>\<open>src/loop-analysis/common.cpp\<close>): the evaluation, which runs these passes one after the
    other, and its result for a tile with one operation.
  \<^item> \<open>Ordered_Map\<close>: the interface of a map whose operations may restructure it, a locale over a record of
    operations.
  \<^item> \<open>Splay\<close> (\<^verbatim>\<open>gdb-15.1/libiberty/splay-tree.c\<close>): the splay tree, with the deletion order and the trace of
    the deallocation callbacks. A lawful comparison function (locale \<open>comparator\<close>) makes it an
    \<open>ordered_map\<close> (a \<open>sublocale\<close>), and the two comparison functions of the code are interpreted.
  \<^item> \<open>Addrmap\<close> (\<^verbatim>\<open>gdb-15.1/gdb/addrmap.c\<close>): the mutable map over any \<open>ordered_map\<close> (locale \<open>addr_map\<close>,
    interpreted on the splay tree), the fixed map with its bisection, and the conversion between them.
  \<^item> \<open>Hash_Primes\<close>, \<open>Hash_Functions\<close>, \<open>Hash_Table\<close>, \<open>Hash_Set\<close> (\<^verbatim>\<open>gdb-15.1/libiberty/hashtab.c\<close>,
    \<^verbatim>\<open>filename_cmp.c\<close>): the prime sizes and the remainders by multiplication; the hash and comparison
    functions, which make strings, pointers and file names keys of a table (locale \<open>htab_keys\<close>); the
    table with its two hashes and its deleted entries; and the proof that it is a set of keys, whose
    operations return. \<open>Seen_Cache\<close> (\<^verbatim>\<open>gdb-15.1/gdb/filename-seen-cache.c\<close>) is a client of it.
  \<^item> \<open>Partition\<close> (\<^verbatim>\<open>gdb-15.1/libiberty/partition.c\<close>): union-find with circular lists; what unions do to the
    canonical elements (locale \<open>union_find\<close>) is proved to be the closure of the united pairs, and what is printed to be
    every class once.
  \<^item> \<open>Memattr\<close> (\<^verbatim>\<open>gdb-15.1/gdb/memattr.c\<close>): the memory regions of the target and of the user, their commands and the
    lookup. New regions are refused exactly when they overlap, and the lookup gives the region of an address or the widest hole.
  \<^item> \<open>Dcache_Blocks\<close>, \<open>Dcache\<close>, \<open>Dcache_Lines\<close>, \<open>Dcache_Coherence\<close> (\<^verbatim>\<open>gdb-15.1/gdb/dcache.c\<close>): the rings of
    blocks, the operations of the data cache over any map of lines, which blocks each operation moves (locale \<open>line_cache\<close>), and
    that lines hold the bytes of memory, on the splay tree. The parts of a line that are write-only are left out of this coherence, as
    the code leaves old bytes there.
  \<^item> \<open>Target_Memory\<close>, \<open>Target_Transfers\<close> (\<^verbatim>\<open>gdb-15.1/gdb/target.c\<close>, \<^verbatim>\<open>target-dcache.c\<close>): transfers of memory, which
    compose the regions, the cache and the stack of targets. With targets that keep to their contract, successful reads are proved to
    return the bytes of memory, and successful writes to reach it and to be read back.
  \<^item> \<open>Rsp_Low\<close> (\<^verbatim>\<open>gdb-15.1/gdbsupport/rsp-low.cc\<close>): hexadecimal and escaped binary data in packets of the remote protocol,
    which are proved to be read back. \<open>Remote_Packets\<close> (\<^verbatim>\<open>gdb-15.1/gdb/remote.c\<close>) and \<open>Server_Packets\<close>
    (\<^verbatim>\<open>gdb-15.1/gdbserver/remote-utils.cc\<close>): how the two sides send and receive packets, each as a function of the
    characters it will read. \<open>Remote_Frames\<close> and \<open>Remote_Protocol\<close> compose them: what one side sends the other receives, also
    when some copies of the frame are damaged, and GDB stays within its buffer whatever it reads.
  \<^item> \<open>Prologue_Value\<close> (\<^verbatim>\<open>gdb-15.1/gdb/prologue-value.c\<close>): abstract values, proved conservative for the
    machine values they stand for, and the ring of stack slots of a \<open>pv_area\<close>.
  \<^item> \<open>Agent_Expr\<close> (\<^verbatim>\<open>gdb-15.1/gdb/ax-general.c\<close>, \<^verbatim>\<open>gdbsupport/ax.def\<close>): the bytecode, the functions that
    append to it, and the verifier \<open>ax_reqs\<close>. \<open>Agent_Eval\<close> (\<^verbatim>\<open>gdb-15.1/gdbserver/ax.cc\<close>): the evaluator.
    What the verifier accepts is proved to stay within the stack and the bytecode when it is evaluated,
    and constants to be pushed as they are compiled; an expression without backward jumps returns.
  \<^item> \<open>X86_Dregs\<close> (\<^verbatim>\<open>gdb-15.1/gdb/nat/x86-dregs.c\<close>): hardware watchpoints in four debug registers with
    reference counts. The mirrors refine a table of watched pieces, through insertion and removal.
  \<^item> \<open>Sim_Core\<close> (\<^verbatim>\<open>gdb-15.1/sim/common/sim-core.c\<close>, \<^verbatim>\<open>sim-n-core.h\<close>): the memory of the simulators, and
    the locale \<open>memory\<close> with the laws of aligned accesses, interpreted on a flat RAM. \<open>Synacor\<close>
    (\<^verbatim>\<open>gdb-15.1/sim/example-synacor/sim-main.c\<close>) and \<open>Moxie\<close> (\<^verbatim>\<open>gdb-15.1/sim/moxie/interp.c\<close>): two
    processors on that memory, their calls and returns, their types and conditions, and how the arguments
    of a program are laid out.

  \<^bold>\<open>How the code is modelled.\<close> A structure is a record, an enumeration a datatype, a machine integer a
  word of its width; where an \<^verbatim>\<open>int\<close> may overflow the model uses \<open>int\<close> with a check. Functions take the
  state and return the changed state. Errors, assertions and undefined behaviour are the left side of a
  sum. Callbacks, the debugged process, the host of a simulator and the architecture are parameters.

  \<^bold>\<open>Loops and fuel.\<close> Loops are recursive functions with a measure (the splaying, the searches, the tree
  walks); the walks of the mutable address map, the probing of the hash table, the relabelling of a
  partition, the loops over the blocks and the bytes of a cache line, and the evaluator of agent expressions, which need not end, are \<open>partial_function (option)\<close>, and the properties state that they return. The hash
  table is proved correct for sizes up to 524287, the largest that is checked to be a prime. The simulators run for a
  number of steps that is an argument, as they never stop by themselves; the properties name the number.

  \<^bold>\<open>Not modelled.\<close> Configuration parsers and output of LATIAS; timeloop, which is vendored; the rest of GDB: symbol readers, inferior control, the targets and the packets of the remote
  protocol, the output of the commands for regions and the cache, user interface, object file formats, opcode tables, the other simulators and containers. These
  are input and output, generated code, or code that drives a live process.
\<close>

end
